(* ===== verification/Prelude.thy ===== *)
theory Prelude
  imports Main "HOL-Library.Word" "HOL-Library.Char_ord" "HOL-Library.List_Lexorder"
    "HOL-Library.Sublist"
begin

text \<open>
  Shared vocabulary of the development: bytes and C strings, pointers into a buffer as suffixes
  of its contents, decimal and hexadecimal printing, bounded \<open>snprintf\<close>, and the allocator whose
  answers decide which \<open>malloc\<close> requests succeed.

  A pointer \<open>p\<close> into a buffer \<open>[start, end)\<close> is the list of the bytes from \<open>p\<close> to \<open>end\<close>: \<open>*p\<close> is
  its head, \<open>p++\<close> its tail, \<open>end - p\<close> its length, \<open>p < end\<close> says that it is not empty, and
  \<open>p - start\<close> is \<open>length start - length p\<close>.
\<close>

unbundle bit_operations_syntax

named_theorems scan_simps \<open>rewrite rules of the scanning primitives\<close>
named_theorems wf_intros \<open>introduction rules for well-formedness predicates\<close>

subsection \<open>Bytes and C strings\<close>

type_synonym bytes = string

abbreviation byte :: "char \<Rightarrow> nat" where
  "byte c \<equiv> of_char c"

abbreviation chr :: "nat \<Rightarrow> char" where
  "chr n \<equiv> char_of n"

definition NUL :: char where
  "NUL = CHR 0x00"

text \<open>What a \<open>char*\<close> that points at these bytes denotes: the bytes before the first NUL.\<close>

definition cstr :: "bytes \<Rightarrow> string" where
  "cstr s = takeWhile (\<lambda>c. c \<noteq> NUL) s"

definition no_nul :: "string \<Rightarrow> bool" where
  "no_nul s \<longleftrightarrow> NUL \<notin> set s"

lemma cstr_no_nul [simp]: "no_nul (cstr s)"
  by (auto simp: no_nul_def cstr_def dest: set_takeWhileD)

lemma cstr_id [simp]: "no_nul s \<Longrightarrow> cstr s = s"
  unfolding no_nul_def cstr_def by (subst takeWhile_eq_all_conv) auto

lemma cstr_idem [simp]: "cstr (cstr s) = cstr s"
  by simp

lemma cstr_Nil [simp]: "cstr [] = []"
  by (simp add: cstr_def)

lemma cstr_Cons: "cstr (c # s) = (if c = NUL then [] else c # cstr s)"
  by (simp add: cstr_def)

lemma length_cstr: "length (cstr s) \<le> length s"
  by (simp add: cstr_def length_takeWhile_le)

lemma no_nul_simps [simp]:
  "no_nul []"
  "no_nul (c # s) \<longleftrightarrow> c \<noteq> NUL \<and> no_nul s"
  "no_nul (s @ t) \<longleftrightarrow> no_nul s \<and> no_nul t"
  by (auto simp: no_nul_def)

lemma cstr_append: "no_nul s \<Longrightarrow> cstr (s @ t) = s @ cstr t"
  by (induction s) (auto simp: cstr_Cons)

lemma byte_less [simp]: "byte c < 256"
  using of_char_mod_256 [of c, where 'a = nat] by (metis mod_less_divisor zero_less_numeral)

lemma byte_inj [simp]: "byte c = byte d \<longleftrightarrow> c = d"
  by (rule of_char_eq_iff)

lemma byte_chr: "n < 256 \<Longrightarrow> byte (chr n) = n"
  by simp

lemma chr_byte [simp]: "chr (byte c) = c"
  by simp

lemma byte_NUL [simp]: "byte NUL = 0"
  by (simp add: NUL_def)

lemma byte_eq_chr: "n < 256 \<Longrightarrow> byte c = n \<longleftrightarrow> c = chr n"
  by (metis byte_chr chr_byte)

subsection \<open>Prefix tests\<close>

text \<open>\<open>memcmp (p, w, n) == 0\<close> after the length test, and \<open>strncmp\<close> with a literal.\<close>

fun starts_with :: "string \<Rightarrow> string \<Rightarrow> bool" where
  "starts_with [] s \<longleftrightarrow> True"
| "starts_with (c # w) [] \<longleftrightarrow> False"
| "starts_with (c # w) (d # s) \<longleftrightarrow> c = d \<and> starts_with w s"

lemma starts_with_iff: "starts_with w s \<longleftrightarrow> (\<exists>t. s = w @ t)"
  by (induction w s rule: starts_with.induct) auto

lemma starts_with_append [simp]: "starts_with w (w @ t)"
  by (auto simp: starts_with_iff)

lemma starts_with_drop: "starts_with w s \<Longrightarrow> s = w @ drop (length w) s"
  by (auto simp: starts_with_iff)

subsection \<open>Decimal and hexadecimal printing\<close>

definition digit_char :: "nat \<Rightarrow> char" where
  "digit_char d = chr (48 + d)"

text \<open>\<open>printf\<close>'s \<open>%zu\<close> and \<open>%llu\<close>.\<close>

fun dec_nat :: "nat \<Rightarrow> string" where
  "dec_nat n = (if n < 10 then [digit_char n] else dec_nat (n div 10) @ [digit_char (n mod 10)])"

declare dec_nat.simps [simp del]

text \<open>\<open>printf\<close>'s \<open>%d\<close> and \<open>%lld\<close>.\<close>

definition dec_int :: "int \<Rightarrow> string" where
  "dec_int i = (if i < 0 then CHR ''-'' # dec_nat (nat (- i)) else dec_nat (nat i))"

definition is_digit_char :: "char \<Rightarrow> bool" where
  "is_digit_char c \<longleftrightarrow> 48 \<le> byte c \<and> byte c \<le> 57"

definition digit_val :: "char \<Rightarrow> nat" where
  "digit_val c = byte c - 48"

definition dec_val :: "string \<Rightarrow> nat" where
  "dec_val s = foldl (\<lambda>n c. 10 * n + digit_val c) 0 s"

lemma byte_digit_char [simp]: "d < 10 \<Longrightarrow> byte (digit_char d) = 48 + d"
  by (simp add: digit_char_def)

lemma is_digit_digit_char [simp]: "d < 10 \<Longrightarrow> is_digit_char (digit_char d)"
  by (simp add: is_digit_char_def)

lemma digit_val_digit_char [simp]: "d < 10 \<Longrightarrow> digit_val (digit_char d) = d"
  by (simp add: digit_val_def)

lemma digit_val_less: "is_digit_char c \<Longrightarrow> digit_val c < 10"
  by (auto simp: is_digit_char_def digit_val_def)

lemma dec_nat_nonempty [simp]: "dec_nat n \<noteq> []"
  by (subst dec_nat.simps) simp

lemma dec_nat_digits: "list_all is_digit_char (dec_nat n)"
proof (induction n rule: dec_nat.induct)
  case (1 n)
  then show ?case by (subst dec_nat.simps) (auto simp: list_all_iff)
qed

lemma dec_val_append1: "dec_val (s @ [c]) = 10 * dec_val s + digit_val c"
  by (simp add: dec_val_def)

lemma dec_val_Nil [simp]: "dec_val [] = 0"
  by (simp add: dec_val_def)

lemma foldl_dec_val: "foldl (\<lambda>n c. 10 * n + digit_val c) a s = a * 10 ^ length s + dec_val s"
proof (induction s rule: rev_induct)
  case Nil
  then show ?case by simp
next
  case (snoc c s)
  then show ?case by (simp add: dec_val_append1 algebra_simps)
qed

lemma dec_val_append: "dec_val (s @ t) = dec_val s * 10 ^ length t + dec_val t"
proof -
  have "dec_val (s @ t) = foldl (\<lambda>n c. 10 * n + digit_val c) (dec_val s) t"
    by (simp add: dec_val_def)
  then show ?thesis by (simp only: foldl_dec_val)
qed

lemma dec_val_Cons: "dec_val (c # s) = digit_val c * 10 ^ length s + dec_val s"
  using dec_val_append [of "[c]" s] by (simp add: dec_val_def)

lemma dec_val_dec_nat [simp]: "dec_val (dec_nat n) = n"
proof (induction n rule: dec_nat.induct)
  case (1 n)
  show ?case
  proof (cases "n < 10")
    case True
    then show ?thesis by (subst dec_nat.simps) (simp add: dec_val_def)
  next
    case False
    then have "dec_nat n = dec_nat (n div 10) @ [digit_char (n mod 10)]"
      by (subst dec_nat.simps) simp
    then show ?thesis using 1 False by (simp add: dec_val_append1)
  qed
qed

lemma dec_nat_inj: "dec_nat m = dec_nat n \<Longrightarrow> m = n"
  by (metis dec_val_dec_nat)

lemma dec_val_less: "list_all is_digit_char s \<Longrightarrow> dec_val s < 10 ^ length s"
proof (induction s rule: rev_induct)
  case Nil
  then show ?case by simp
next
  case (snoc c s)
  then show ?case using digit_val_less [of c] by (simp add: dec_val_append1)
qed

lemma length_dec_nat_le: "n < 10 ^ Suc k \<Longrightarrow> length (dec_nat n) \<le> Suc k"
proof (induction k arbitrary: n)
  case 0
  then show ?case by (subst dec_nat.simps) simp
next
  case (Suc k)
  have "n div 10 < 10 ^ Suc k" using Suc.prems by (simp add: less_mult_imp_div_less)
  then show ?case using Suc.IH [of "n div 10"] by (subst dec_nat.simps) simp
qed

text \<open>A printed number starts with a zero only when it is zero.\<close>

lemma hd_dec_nat: "n \<noteq> 0 \<Longrightarrow> hd (dec_nat n) \<noteq> digit_char 0"
proof (induction n rule: dec_nat.induct)
  case (1 n)
  show ?case
  proof (cases "n < 10")
    case True
    then have "byte (digit_char n) = 48 + n" and "byte (digit_char 0) = 48" by simp_all
    then have "digit_char n \<noteq> digit_char 0" using 1 by (metis add_cancel_left_right)
    then show ?thesis using True by (subst dec_nat.simps) simp
  next
    case False
    then have "hd (dec_nat n) = hd (dec_nat (n div 10))"
      by (subst dec_nat.simps) simp
    then show ?thesis using False 1 by simp
  qed
qed

lemma dec_nat_0: "dec_nat 0 = [digit_char 0]"
  by (simp add: dec_nat.simps)

text \<open>The digits of \<open>%02x\<close> and \<open>%04x\<close>.\<close>

definition hex_lower :: "nat \<Rightarrow> char" where
  "hex_lower d = (if d < 10 then chr (48 + d) else chr (87 + d))"

definition hex_upper :: "nat \<Rightarrow> char" where
  "hex_upper d = (if d < 10 then chr (48 + d) else chr (55 + d))"

text \<open>\<open>snprintf\<close> into a buffer of \<open>n\<close> bytes keeps at most \<open>n - 1\<close> of them.\<close>

definition snprintf :: "nat \<Rightarrow> string \<Rightarrow> string" where
  "snprintf n s = take (n - 1) s"

lemma length_snprintf: "0 < n \<Longrightarrow> length (snprintf n s) < n"
  by (simp add: snprintf_def)

subsection \<open>Suffixes as pointers\<close>

lemma suffix_length: "suffix q p \<Longrightarrow> length q \<le> length p"
  by (rule suffix_length_le)

lemma suffix_dropWhile_trans: "suffix q (dropWhile P p) \<Longrightarrow> suffix q p"
  using suffix_dropWhile suffix_order.trans by blast

lemma suffix_drop_trans: "suffix q (drop n p) \<Longrightarrow> suffix q p"
  using suffix_drop suffix_order.trans by blast

lemma suffix_tl_trans: "suffix q (tl p) \<Longrightarrow> suffix q p"
  using suffix_tl suffix_order.trans by blast

subsection \<open>The allocator\<close>

text \<open>
  \<open>malloc\<close>, \<open>calloc\<close> and \<open>realloc\<close> may return NULL at any request. The heap holds how many requests
  were made and an arbitrary oracle that says whether the \<open>k\<close>-th request, for \<open>n\<close> bytes, succeeds.
\<close>

record heap =
  requests :: nat
  grants :: "nat \<Rightarrow> nat \<Rightarrow> bool"

definition malloc :: "heap \<Rightarrow> nat \<Rightarrow> bool \<times> heap" where
  "malloc h n = (grants h (requests h) n, h\<lparr>requests := Suc (requests h)\<rparr>)"

text \<open>An allocator that never refuses.\<close>

definition heap_total :: "heap \<Rightarrow> bool" where
  "heap_total h \<longleftrightarrow> (\<forall>k n. grants h k n)"

definition roomy_heap :: heap where
  "roomy_heap = \<lparr>requests = 0, grants = (\<lambda>_ _. True)\<rparr>"

lemma heap_total_roomy [simp]: "heap_total roomy_heap"
  by (simp add: heap_total_def roomy_heap_def)

lemma malloc_total: "heap_total h \<Longrightarrow> fst (malloc h n) \<and> heap_total (snd (malloc h n))"
  by (simp add: malloc_def heap_total_def)

lemma malloc_grants: "grants (snd (malloc h n)) = grants h"
  by (simp add: malloc_def)

text \<open>The growth loop of the arrays and buffers: double a capacity until \<open>n\<close> fits. It is only called
  with a capacity that is not zero.\<close>

function capacity_from :: "nat \<Rightarrow> nat \<Rightarrow> nat" where
  "capacity_from cap n = (if cap < n \<and> 0 < cap then capacity_from (cap * 2) n else cap)"
  by pat_completeness auto
termination
  by (relation "measure (\<lambda>(cap, n). n - cap)") auto

declare capacity_from.simps [simp del]

lemma capacity_from_ge: "0 < cap \<Longrightarrow> n \<le> capacity_from cap n"
proof (induction cap n rule: capacity_from.induct)
  case (1 cap n)
  then show ?case by (subst capacity_from.simps) auto
qed

end
