(* ===== verification/Doubles.thy ===== *)
theory Doubles
  imports Prelude
begin

text \<open>
  C's \<open>double\<close> and the standard library functions on it that the program calls. A \<open>double\<close> is its
  IEEE 754 binary64 pattern, a 64-bit word. Every finite double is an integer multiple of
  \<open>2 ^ -1074\<close>; that integer is its \<^emph>\<open>key\<close>, so comparisons, conversions, \<open>strtod\<close> and
  \<open>printf\<close>'s \<open>%.*g\<close> are exact integer computations: \<open>strtod\<close> and the integer conversions round to
  nearest, ties to even, as the default rounding mode does.

  The last section proves that a decimal within one part in \<open>2 * 10 ^ 16\<close> of a finite double rounds to
  it, which is why 17 significant digits determine a double.
\<close>

type_synonym double = "64 word"

subsection \<open>Fields, classes and the key\<close>

definition dbl_mag :: "double \<Rightarrow> nat" where
  "dbl_mag d = unat d mod 2 ^ 63"

definition dbl_sign :: "double \<Rightarrow> bool" where
  "dbl_sign d \<longleftrightarrow> 2 ^ 63 \<le> unat d"

definition inf_mag :: nat where
  "inf_mag = 2047 * 2 ^ 52"

definition dbl_is_nan :: "double \<Rightarrow> bool" where
  "dbl_is_nan d \<longleftrightarrow> inf_mag < dbl_mag d"

definition dbl_is_inf :: "double \<Rightarrow> bool" where
  "dbl_is_inf d \<longleftrightarrow> dbl_mag d = inf_mag"

definition dbl_is_finite :: "double \<Rightarrow> bool" where
  "dbl_is_finite d \<longleftrightarrow> dbl_mag d < inf_mag"

text \<open>The value of a magnitude in units of \<open>2 ^ -1074\<close>; infinity is \<open>2 ^ 1024\<close> there.\<close>

definition mag_key :: "nat \<Rightarrow> nat" where
  "mag_key m =
     (let e = m div 2 ^ 52; f = m mod 2 ^ 52
      in if e = 0 then f else (2 ^ 52 + f) * 2 ^ (e - 1))"

definition dbl_key :: "double \<Rightarrow> int" where
  "dbl_key d = (if dbl_sign d then - int (mag_key (dbl_mag d)) else int (mag_key (dbl_mag d)))"

subsection \<open>Comparison and negation\<close>

definition dbl_eq :: "double \<Rightarrow> double \<Rightarrow> bool" where
  "dbl_eq a b \<longleftrightarrow> \<not> dbl_is_nan a \<and> \<not> dbl_is_nan b \<and> dbl_key a = dbl_key b"

definition dbl_less :: "double \<Rightarrow> double \<Rightarrow> bool" where
  "dbl_less a b \<longleftrightarrow> \<not> dbl_is_nan a \<and> \<not> dbl_is_nan b \<and> dbl_key a < dbl_key b"

definition dbl_le :: "double \<Rightarrow> double \<Rightarrow> bool" where
  "dbl_le a b \<longleftrightarrow> \<not> dbl_is_nan a \<and> \<not> dbl_is_nan b \<and> dbl_key a \<le> dbl_key b"

definition dbl_pack :: "bool \<Rightarrow> nat \<Rightarrow> double" where
  "dbl_pack neg m = word_of_nat (of_bool neg * 2 ^ 63 + m)"

definition dbl_neg :: "double \<Rightarrow> double" where
  "dbl_neg d = dbl_pack (\<not> dbl_sign d) (dbl_mag d)"

subsection \<open>Rounding a ratio to the nearest double\<close>

fun bits_of :: "nat \<Rightarrow> nat" where
  "bits_of n = (if n = 0 then 0 else Suc (bits_of (n div 2)))"

declare bits_of.simps [simp del]

definition round_half_even :: "nat \<Rightarrow> nat \<Rightarrow> nat" where
  "round_half_even n d =
     (let q = n div d; r = n mod d
      in if 2 * r < d \<or> (2 * r = d \<and> even q) then q else q + 1)"

definition ratio_mag :: "nat \<Rightarrow> nat \<Rightarrow> nat" where
  "ratio_mag num den =
     (let q = num * 2 ^ 1074; k = bits_of (q div den) - 53
      in min inf_mag (k * 2 ^ 52 + round_half_even q (den * 2 ^ k)))"

definition dbl_of_ratio :: "bool \<Rightarrow> nat \<Rightarrow> nat \<Rightarrow> double" where
  "dbl_of_ratio neg num den = dbl_pack neg (ratio_mag num den)"

text \<open>\<open>(double)u\<close> for an unsigned integer, \<open>(double)i\<close> for a signed one, and the truncation
  \<open>(long long)d\<close> of a double in range.\<close>

definition dbl_of_nat :: "nat \<Rightarrow> double" where
  "dbl_of_nat n = dbl_of_ratio False n 1"

definition dbl_of_int :: "int \<Rightarrow> double" where
  "dbl_of_int i = dbl_of_ratio (i < 0) (nat \<bar>i\<bar>) 1"

definition dbl_trunc :: "double \<Rightarrow> int" where
  "dbl_trunc d = (let q = int (mag_key (dbl_mag d) div 2 ^ 1074) in if dbl_sign d then - q else q)"

subsection \<open>\<open>strtod\<close> on decimal text\<close>

definition dec_ratio :: "bool \<Rightarrow> nat \<Rightarrow> int \<Rightarrow> double" where
  "dec_ratio neg n ex = dbl_of_ratio neg (n * 10 ^ nat ex) (10 ^ nat (- ex))"

definition take_digits :: "string \<Rightarrow> string \<times> string" where
  "take_digits s = (takeWhile is_digit_char s, dropWhile is_digit_char s)"

definition split_sign :: "string \<Rightarrow> bool \<times> string" where
  "split_sign s =
     (case s of [] \<Rightarrow> (False, [])
      | c # t \<Rightarrow> if c = CHR ''-'' then (True, t) else if c = CHR ''+'' then (False, t) else (False, s))"

definition split_fraction :: "string \<Rightarrow> string \<times> string" where
  "split_fraction s = (case s of c # t \<Rightarrow> if c = CHR ''.'' then take_digits t else ([], s) | [] \<Rightarrow> ([], []))"

definition split_exponent :: "string \<Rightarrow> int \<times> string" where
  "split_exponent s =
     (case s of [] \<Rightarrow> (0, [])
      | c # t \<Rightarrow>
          if c = CHR ''e'' \<or> c = CHR ''E''
          then (let (neg, u) = split_sign t; (ds, r) = take_digits u
                in if ds = [] then (0, s) else (if neg then - int (dec_val ds) else int (dec_val ds), r))
          else (0, s))"

text \<open>The value of the longest decimal floating-point prefix of \<open>s\<close>, and what follows it.\<close>

definition strtod :: "string \<Rightarrow> double \<times> string" where
  "strtod s =
     (let (neg, s1) = split_sign s;
          (ip, s2) = take_digits s1;
          (fp, s3) = split_fraction s2
      in if ip = [] \<and> fp = [] then (0, s)
         else let (ex, s4) = split_exponent s3
              in (dec_ratio neg (dec_val (ip @ fp)) (ex - int (length fp)), s4))"

subsection \<open>\<open>printf\<close>'s \<open>%.*g\<close>\<close>

text \<open>The number of tenfold increases after which \<open>num / den\<close> reaches 1.\<close>

function up10 :: "nat \<Rightarrow> nat \<Rightarrow> nat" where
  "up10 num den = (if num = 0 \<or> den \<le> num then 0 else Suc (up10 (num * 10) den))"
  by pat_completeness auto
termination
  by (relation "measure (\<lambda>(num, den). den - num)") auto

declare up10.simps [simp del]

text \<open>The decimal exponent: \<open>10 ^ e \<le> num / den < 10 ^ (e + 1)\<close>.\<close>

definition dec_exponent :: "nat \<Rightarrow> nat \<Rightarrow> int" where
  "dec_exponent num den =
     (if den \<le> num then int (length (dec_nat (num div den))) - 1 else - int (up10 num den))"

text \<open>The \<open>p\<close> significant digits of \<open>num / den\<close> and the exponent of the first one.\<close>

definition round_digits :: "nat \<Rightarrow> nat \<Rightarrow> nat \<Rightarrow> nat \<times> int" where
  "round_digits p num den =
     (let e = dec_exponent num den;
          j = int p - 1 - e;
          D = round_half_even (num * 10 ^ nat j) (den * 10 ^ nat (- j))
      in if D = 10 ^ p then (10 ^ (p - 1), e + 1) else (D, e))"

definition strip_zeros :: "string \<Rightarrow> string" where
  "strip_zeros s = rev (dropWhile (\<lambda>c. c = CHR ''0'') (rev s))"

definition with_point :: "string \<Rightarrow> string \<Rightarrow> string" where
  "with_point ip fp = (if fp = [] then ip else ip @ CHR ''.'' # fp)"

definition exp_text :: "int \<Rightarrow> string" where
  "exp_text e =
     CHR ''e'' # (if e < 0 then CHR ''-'' else CHR ''+'')
       # (let ds = dec_nat (nat \<bar>e\<bar>) in if length ds < 2 then CHR ''0'' # ds else ds)"

definition format_g_digits :: "nat \<Rightarrow> nat \<Rightarrow> int \<Rightarrow> string" where
  "format_g_digits p D e =
     (let ds = dec_nat D
      in if e < -4 \<or> int p \<le> e
         then with_point (take 1 ds) (strip_zeros (drop 1 ds)) @ exp_text e
         else if 0 \<le> e
         then with_point (take (nat e + 1) ds) (strip_zeros (drop (nat e + 1) ds))
         else with_point ''0'' (strip_zeros (replicate (nat (- e) - 1) (CHR ''0'') @ ds)))"

text \<open>\<open>snprintf(tmp, sizeof(tmp), "%.*g", p, d)\<close> for a finite \<open>d\<close>.\<close>

definition format_g :: "nat \<Rightarrow> double \<Rightarrow> string" where
  "format_g p d =
     (let sg = (if dbl_sign d then ''-'' else []); m = mag_key (dbl_mag d)
      in if m = 0 then sg @ ''0''
         else let (D, e) = round_digits p m (2 ^ 1074) in sg @ format_g_digits p D e)"

subsection \<open>Facts about rounding\<close>

lemma bits_of_0 [simp]: "bits_of 0 = 0"
  by (simp add: bits_of.simps)

lemma bits_of_pos: "0 < n \<Longrightarrow> bits_of n = Suc (bits_of (n div 2))"
  by (subst bits_of.simps) simp

lemma bits_of_le: "n < 2 ^ k \<Longrightarrow> bits_of n \<le> k"
proof (induction k arbitrary: n)
  case 0
  then show ?case by simp
next
  case (Suc k)
  show ?case
  proof (cases "n = 0")
    case False
    have "n div 2 < 2 ^ k" using Suc.prems by auto
    then show ?thesis using Suc.IH False by (simp add: bits_of_pos)
  qed simp
qed

lemma bits_of_ge: "2 ^ k \<le> n \<Longrightarrow> Suc k \<le> bits_of n"
proof (induction k arbitrary: n)
  case 0
  then show ?case by (simp add: bits_of_pos)
next
  case (Suc k)
  then have "2 ^ k \<le> n div 2" by auto
  moreover have "0 < n" using Suc.prems by (metis gr_zeroI le_zero_eq power_not_zero zero_neq_numeral)
  ultimately show ?case using Suc.IH [of "n div 2"] by (simp add: bits_of_pos)
qed

lemma bits_of_eq: "2 ^ k \<le> n \<Longrightarrow> n < 2 ^ Suc k \<Longrightarrow> bits_of n = Suc k"
  by (meson bits_of_ge bits_of_le le_antisym)

lemma round_half_even_scale:
  assumes "0 < c"
  shows "round_half_even (n * c) (d * c) = round_half_even n d"
proof -
  have "(n * c) div (d * c) = n div d" and "(n * c) mod (d * c) = (n mod d) * c"
    using assms by (simp_all add: mult_mod_left)
  moreover have "2 * (n mod d * c) < d * c \<longleftrightarrow> 2 * (n mod d) < d"
    using assms by (metis mult.assoc mult_less_cancel2)
  moreover have "2 * (n mod d * c) = d * c \<longleftrightarrow> 2 * (n mod d) = d"
    using assms by (metis mult.assoc mult_cancel2 not_less0)
  ultimately show ?thesis using assms by (simp add: round_half_even_def Let_def)
qed

lemma round_half_even_near:
  assumes "2 * q * d < 2 * n + d" and "2 * n < 2 * q * d + d"
  shows "round_half_even n d = q"
proof -
  define a r where "a = n div d" and "r = n mod d"
  have d: "0 < d" using assms by (cases d) auto
  have n: "n = a * d + r" and r: "r < d" using d by (auto simp: a_def r_def)
  have "q = a \<or> q = Suc a"
  proof -
    have "2 * q * d < 2 * (a * d + r) + d" using assms(1) n by simp
    also have "\<dots> < 2 * (a * d) + 3 * d" using r by simp
    finally have "2 * q * d < (2 * a + 3) * d" by (simp add: algebra_simps)
    then have "2 * q < 2 * a + 3" using mult_less_cancel2 by blast
    moreover have "2 * a * d \<le> 2 * n" using n by simp
    then have "2 * a * d < (2 * q + 1) * d" using assms(2) by (simp add: algebra_simps)
    then have "2 * a < 2 * q + 1" using mult_less_cancel2 by blast
    ultimately show ?thesis by arith
  qed
  then show ?thesis
  proof
    assume q: "q = a"
    then have "2 * r < d" using assms(2) n by (simp add: algebra_simps)
    then show ?thesis by (simp add: round_half_even_def q flip: a_def r_def)
  next
    assume q: "q = Suc a"
    then have "d < 2 * r" using assms(1) n by (simp add: algebra_simps)
    then show ?thesis by (simp add: round_half_even_def q flip: a_def r_def)
  qed
qed

lemma round_half_even_error:
  assumes "0 < d"
  shows "2 * \<bar>int (round_half_even n d) * int d - int n\<bar> \<le> int d"
proof -
  define a r where "a = n div d" and "r = n mod d"
  have n: "n = a * d + r" and r: "r < d" using assms by (auto simp: a_def r_def)
  have "int n = int a * int d + int r" using n by simp
  then show ?thesis
    using r by (auto simp: round_half_even_def algebra_simps simp flip: a_def r_def)
qed

lemma ratio_mag_scale:
  assumes "0 < c"
  shows "ratio_mag (n * c) (d * c) = ratio_mag n d"
proof -
  have "n * c * 2 ^ 1074 = (n * 2 ^ 1074) * c" and "d * c * 2 ^ k = (d * 2 ^ k) * c" for k
    by (simp_all only: ac_simps)
  then show ?thesis
    using assms by (simp only: ratio_mag_def Let_def round_half_even_scale) simp
qed

lemma dbl_of_ratio_scale: "0 < c \<Longrightarrow> dbl_of_ratio neg (n * c) (d * c) = dbl_of_ratio neg n d"
  by (simp add: dbl_of_ratio_def ratio_mag_scale)

lemma dbl_of_ratio_cong:
  assumes "0 < d" "0 < d'" "n * d' = n' * d"
  shows "dbl_of_ratio neg n d = dbl_of_ratio neg n' d'"
  by (metis assms dbl_of_ratio_scale mult.commute)

text \<open>The units in the last place of a magnitude: mantissa and scale.\<close>

lemma mag_key_split:
  assumes "2 ^ 52 \<le> m"
  obtains M s where "mag_key m = M * 2 ^ s" "2 ^ 52 \<le> M" "M < 2 ^ 53" "m = s * 2 ^ 52 + M"
proof -
  define e f where "e = m div 2 ^ 52" and "f = m mod 2 ^ 52"
  have e: "0 < e" using assms by (simp add: e_def div_greater_zero_iff)
  have f: "f < 2 ^ 52" by (simp add: f_def)
  have m: "m = e * 2 ^ 52 + f" by (simp add: e_def f_def)
  have "mag_key m = (2 ^ 52 + f) * 2 ^ (e - 1)"
    using e unfolding mag_key_def Let_def e_def [symmetric] f_def [symmetric] by simp
  moreover have "m = (e - 1) * 2 ^ 52 + (2 ^ 52 + f)"
    using e m by (cases e) auto
  ultimately show ?thesis using that [of "2 ^ 52 + f" "e - 1"] f by simp
qed

lemma mag_key_small: "m < 2 ^ 52 \<Longrightarrow> mag_key m = m"
  by (simp add: mag_key_def Let_def)

lemma ratio_magI:
  assumes "bits_of (num * 2 ^ 1074 div den) - 53 = k"
    and "round_half_even (num * 2 ^ 1074) (den * 2 ^ k) = M"
    and "k * 2 ^ 52 + M = m" and "m \<le> inf_mag"
  shows "ratio_mag num den = m"
  using assms by (simp add: ratio_mag_def)

lemma bits_of_div:
  assumes "0 < d" "2 ^ k * d \<le> n" "n < 2 ^ Suc k * d"
  shows "bits_of (n div d) = Suc k"
  using assms by (intro bits_of_eq) (simp_all add: less_eq_div_iff_mult_less_eq less_mult_imp_div_less)

lemma bits_of_div_le: "0 < d \<Longrightarrow> n < 2 ^ k * d \<Longrightarrow> bits_of (n div d) \<le> k"
  by (rule bits_of_le) (rule less_mult_imp_div_less)

text \<open>
  A ratio that is closer to a finite double than one part in \<open>20000000000000000\<close> rounds to it: this is what
  makes 17 significant digits enough.
\<close>

lemma ratio_mag_near:
  assumes m: "0 < m" "m < inf_mag" and den: "0 < den"
    and lo: "19999999999999999 * (mag_key m * den) \<le> 20000000000000000 * (num * 2 ^ 1074)"
    and hi: "20000000000000000 * (num * 2 ^ 1074) \<le> 20000000000000001 * (mag_key m * den)"
  shows "ratio_mag num den = m"
proof (cases "m < 4503599627370496")
  case True
  define Q where "Q = num * 2 ^ 1074"
  define P where "P = m * den"
  have Km: "mag_key m = m" using True by (intro mag_key_small) simp
  have P: "P \<le> 4503599627370495 * den" unfolding P_def using True by (intro mult_right_mono) auto
  have lo': "19999999999999999 * P \<le> 20000000000000000 * Q"
    and hi': "20000000000000000 * Q \<le> 20000000000000001 * P"
    using lo hi by (simp_all only: Km Q_def P_def)
  have "Q < 9007199254740992 * den" using P hi' den by linarith
  then have k: "bits_of (Q div den) - 53 = 0" using bits_of_div_le [OF den, of Q 53] by simp
  have "round_half_even Q (den * 2 ^ 0) = m"
    by (rule round_half_even_near; unfold power_0 mult_1_right; use P lo' hi' den P_def in linarith)
  with k show ?thesis using m by (intro ratio_magI) (auto simp: Q_def)
next
  case False
  then obtain M s where K: "mag_key m = M * 2 ^ s" and M: "4503599627370496 \<le> M" "M < 9007199254740992"
    and ms: "m = s * 4503599627370496 + M" using mag_key_split [of m] by auto
  define Q where "Q = num * 2 ^ 1074"
  define X where "X = 2 ^ s * den"
  define P where "P = M * X"
  have X: "0 < X" using den by (simp add: X_def)
  have P: "4503599627370496 * X \<le> P" "P \<le> 9007199254740991 * X"
    unfolding P_def using M by (intro mult_right_mono; linarith)+
  have PK: "mag_key m * den = P" by (simp add: K P_def X_def ac_simps)
  have lo': "19999999999999999 * P \<le> 20000000000000000 * Q"
    and hi': "20000000000000000 * Q \<le> 20000000000000001 * P"
    using lo hi by (simp_all only: PK Q_def)
  have dX: "den * 2 ^ s = X" by (simp add: X_def)
  show ?thesis
  proof (cases "4503599627370496 * X \<le> Q")
    case True
    have "Q < 9007199254740992 * X" using P hi' X by linarith
    then have "bits_of (Q div den) = Suc (52 + s)"
      using True den by (intro bits_of_div) (simp_all add: X_def power_add ac_simps)
    then have k: "bits_of (Q div den) - 53 = s" by simp
    have "round_half_even Q (den * 2 ^ s) = M"
      unfolding dX by (rule round_half_even_near; use P lo' hi' X P_def in linarith)
    with k show ?thesis using m ms by (intro ratio_magI) (auto simp: Q_def)
  next
    case low: False
    have M52: "M = 4503599627370496"
    proof (rule ccontr)
      assume "M \<noteq> 4503599627370496"
      with M have "4503599627370497 * X \<le> P" unfolding P_def by (intro mult_right_mono) auto
      with low lo' P X show False by linarith
    qed
    then have P52: "P = 4503599627370496 * X" by (simp add: P_def)
    show ?thesis
    proof (cases s)
      case 0
      then have Xd: "X = den" by (simp add: X_def)
      have "Q < 9007199254740992 * den" using low den unfolding Xd by linarith
      then have k: "bits_of (Q div den) - 53 = 0" using bits_of_div_le [OF den, of Q 53] by simp
      have "round_half_even Q (den * 2 ^ 0) = 4503599627370496"
        by (rule round_half_even_near; unfold power_0 mult_1_right;
            use P52 lo' hi' den Xd in linarith)
      with k show ?thesis using m ms M52 0 by (intro ratio_magI) (auto simp: Q_def)
    next
      case (Suc t)
      define Y where "Y = 2 ^ t * den"
      have XY: "X = 2 * Y" by (simp add: X_def Y_def Suc)
      have Y: "0 < Y" using den by (simp add: Y_def)
      have "Q < 9007199254740992 * Y" "4503599627370496 * Y \<le> Q" using low lo' P52 XY Y by linarith+
      then have "bits_of (Q div den) = Suc (52 + t)"
        using den by (intro bits_of_div) (simp_all add: Y_def power_add ac_simps)
      then have k: "bits_of (Q div den) - 53 = t" by simp
      have dY: "den * 2 ^ t = Y" by (simp add: Y_def)
      have "round_half_even Q (den * 2 ^ t) = 9007199254740992"
        unfolding dY by (rule round_half_even_near; use P52 XY lo' hi' Y in linarith)
      with k show ?thesis using m ms M52 Suc by (intro ratio_magI) (auto simp: Q_def)
    qed
  qed
qed

end
