(* ===== verification/Double_Text.thy ===== *)
theory Double_Text
  imports Doubles
begin

text \<open>
  Number text: the shape of a decimal token, what \<open>strtod\<close> reads from it, and the text that
  \<open>printf\<close>'s \<open>%.*g\<close> produces. The main fact is \<open>format_g_17\<close>: printing a finite double with 17
  significant digits and reading the text back gives the double.
\<close>

subsection \<open>Decimal tokens\<close>

definition digits :: "string \<Rightarrow> bool" where
  "digits s \<longleftrightarrow> list_all is_digit_char s"

lemma digits_simps [simp]:
  "digits []" "digits (c # s) \<longleftrightarrow> is_digit_char c \<and> digits s"
  "digits (s @ t) \<longleftrightarrow> digits s \<and> digits t"
  by (simp_all add: digits_def)

lemma digits_dec_nat [simp]: "digits (dec_nat n)"
  by (simp add: digits_def dec_nat_digits)

lemma digits_take [simp]: "digits s \<Longrightarrow> digits (take n s)"
  and digits_drop [simp]: "digits s \<Longrightarrow> digits (drop n s)"
  by (auto simp: digits_def list_all_iff dest: in_set_takeD in_set_dropD)

lemma not_digit_punct [simp]:
  "\<not> is_digit_char (CHR ''.'')" "\<not> is_digit_char (CHR ''e'')" "\<not> is_digit_char (CHR ''E'')"
  "\<not> is_digit_char (CHR ''-'')" "\<not> is_digit_char (CHR ''+'')" "is_digit_char (CHR ''0'')"
  by (simp_all add: is_digit_char_def)

text \<open>The text does not go on with a digit.\<close>

definition stops_digits :: "string \<Rightarrow> bool" where
  "stops_digits s \<longleftrightarrow> (s = [] \<or> \<not> is_digit_char (hd s))"

lemma take_digits_append: "digits s \<Longrightarrow> stops_digits t \<Longrightarrow> take_digits (s @ t) = (s, t)"
  by (induction s) (cases t; auto simp: take_digits_def stops_digits_def)+

lemma take_digits_all: "digits s \<Longrightarrow> take_digits s = (s, [])"
  using take_digits_append [of s "[]"] by (simp add: stops_digits_def)

definition frac_text :: "string \<Rightarrow> string" where
  "frac_text fp = (if fp = [] then [] else CHR ''.'' # fp)"

text \<open>An exponent part: nothing, or \<open>e\<close>, an optional sign and digits.\<close>

definition exp_part :: "string \<Rightarrow> int \<Rightarrow> bool" where
  "exp_part s ex \<longleftrightarrow>
     (s = [] \<and> ex = 0) \<or>
     (\<exists>c sg ds. s = c # sg @ ds \<and> c \<in> {CHR ''e'', CHR ''E''} \<and> sg \<in> {[], ''+'', ''-''} \<and> ds \<noteq> [] \<and>
        digits ds \<and> ex = (if sg = ''-'' then - int (dec_val ds) else int (dec_val ds)))"

lemma stops_digits_tail: "exp_part s ex \<Longrightarrow> stops_digits s" "exp_part s ex \<Longrightarrow> stops_digits (frac_text f @ s)"
  by (auto simp: exp_part_def stops_digits_def frac_text_def)

lemma split_sign_digits: "digits s \<Longrightarrow> s \<noteq> [] \<Longrightarrow> split_sign (s @ t) = (False, s @ t)"
  by (cases s) (auto simp: split_sign_def)

lemma split_sign_simps [simp]:
  "split_sign (CHR ''-'' # t) = (True, t)" "split_sign (CHR ''+'' # t) = (False, t)"
  by (simp_all add: split_sign_def)

lemma split_exponent_part:
  assumes "exp_part s ex"
  shows "split_exponent s = (ex, [])"
proof (cases "s = []")
  case True
  then show ?thesis using assms by (auto simp: exp_part_def split_exponent_def)
next
  case False
  then obtain c sg ds where s: "s = c # sg @ ds" and c: "c \<in> {CHR ''e'', CHR ''E''}"
    and sg: "sg \<in> {[], ''+'', ''-''}" and ds: "ds \<noteq> []" "digits ds"
    and ex: "ex = (if sg = ''-'' then - int (dec_val ds) else int (dec_val ds))"
    using assms by (auto simp: exp_part_def)
  have "split_sign (sg @ ds) = (sg = ''-'', ds)"
    using sg split_sign_digits [OF ds(2,1), of "[]"] by auto
  then show ?thesis
    using s c ds ex by (auto simp: split_exponent_def take_digits_all)
qed

lemma split_fraction_text:
  assumes "digits fp" "exp_part s ex"
  shows "split_fraction (frac_text fp @ s) = (fp, s)"
proof (cases "fp = []")
  case True
  then show ?thesis using assms(2) by (auto simp: split_fraction_def frac_text_def exp_part_def)
next
  case False
  then show ?thesis
    using assms take_digits_append [OF assms(1) stops_digits_tail(1) [OF assms(2)]]
    by (simp add: split_fraction_def frac_text_def)
qed

definition sign_text :: "bool \<Rightarrow> string" where
  "sign_text neg = (if neg then ''-'' else [])"

text \<open>What \<open>strtod\<close> reads from a whole token.\<close>

lemma strtod_token:
  assumes "digits ip" "ip \<noteq> []" "digits fp" "exp_part s ex"
  shows "strtod (sign_text neg @ ip @ frac_text fp @ s) =
           (dec_ratio neg (dec_val (ip @ fp)) (ex - int (length fp)), [])"
proof -
  have "split_sign (sign_text neg @ ip @ frac_text fp @ s) = (neg, ip @ frac_text fp @ s)"
    using split_sign_digits [OF assms(1,2)] by (simp add: sign_text_def)
  moreover have "take_digits (ip @ frac_text fp @ s) = (ip, frac_text fp @ s)"
    by (rule take_digits_append [OF assms(1) stops_digits_tail(2) [OF assms(4)]])
  ultimately show ?thesis
    using assms split_fraction_text split_exponent_part by (simp add: strtod_def)
qed

subsection \<open>Decimal scaling\<close>

lemma dec_ratio_shift: "dec_ratio neg (n * 10 ^ k) (x - int k) = dec_ratio neg n x"
proof -
  have e: "nat (x - int k) + k + nat (- x) = nat x + nat (- (x - int k))" by linarith
  have "n * 10 ^ k * 10 ^ nat (x - int k) * 10 ^ nat (- x) = n * 10 ^ (nat (x - int k) + k + nat (- x))"
    by (simp add: power_add ac_simps)
  also have "\<dots> = n * 10 ^ (nat x + nat (- (x - int k)))" by (simp only: e)
  also have "\<dots> = n * 10 ^ nat x * 10 ^ nat (- (x - int k))" by (simp only: power_add ac_simps)
  finally show ?thesis
    unfolding dec_ratio_def by (intro dbl_of_ratio_cong) simp_all
qed

lemma strip_zeros_split: "\<exists>k. s = strip_zeros s @ replicate k (CHR ''0'')"
proof -
  define t where "t = takeWhile (\<lambda>c. c = CHR ''0'') (rev s)"
  have "\<forall>c \<in> set t. c = CHR ''0''" unfolding t_def by (auto dest: set_takeWhileD)
  then have "rev t = replicate (length t) (CHR ''0'')"
    by (metis length_rev replicate_eqI set_rev)
  moreover have "s = strip_zeros s @ rev t"
    unfolding t_def strip_zeros_def by (metis rev_append rev_rev_ident takeWhile_dropWhile_id)
  ultimately show ?thesis by metis
qed

lemma digits_strip_zeros: "digits s \<Longrightarrow> digits (strip_zeros s)"
  using strip_zeros_split [of s] digits_simps(3) by metis

lemma dec_val_zeros: "dec_val (replicate k (CHR ''0'')) = 0"
  by (induction k) (simp_all add: dec_val_Cons digit_val_def)

lemma dec_ratio_strip:
  "dec_ratio neg (dec_val (ip @ strip_zeros fp)) (x - int (length (strip_zeros fp))) =
     dec_ratio neg (dec_val (ip @ fp)) (x - int (length fp))"
proof -
  obtain k where k: "fp = strip_zeros fp @ replicate k (CHR ''0'')" using strip_zeros_split by blast
  have v: "dec_val (ip @ fp) = dec_val (ip @ strip_zeros fp) * 10 ^ k"
    using dec_val_append [of "ip @ strip_zeros fp" "replicate k (CHR ''0'')"] k
    by (simp add: dec_val_zeros)
  have "x - int (length fp) = x - int (length (strip_zeros fp)) - int k"
    by (subst k) simp
  then show ?thesis by (simp only: v dec_ratio_shift)
qed

subsection \<open>The decimal exponent and the significant digits\<close>

lemma up10_bounds:
  assumes "0 < num" "num < den"
  shows "0 < up10 num den" "den \<le> num * 10 ^ up10 num den" "num * 10 ^ (up10 num den - 1) < den"
proof -
  have "0 < num \<Longrightarrow> num < den \<Longrightarrow> 0 < up10 num den \<and> den \<le> num * 10 ^ up10 num den \<and>
      num * 10 ^ (up10 num den - 1) < den"
  proof (induction num den rule: up10.induct)
    case (1 num den)
    have u: "up10 num den = Suc (up10 (num * 10) den)"
      using "1.prems" by (subst up10.simps) simp
    show ?case
    proof (cases "den \<le> num * 10")
      case True
      then have "up10 (num * 10) den = 0" by (subst up10.simps) simp
      then show ?thesis using u True "1.prems" by simp
    next
      case False
      then have IH: "0 < up10 (num * 10) den" "den \<le> num * 10 * 10 ^ up10 (num * 10) den"
        "num * 10 * 10 ^ (up10 (num * 10) den - 1) < den" using 1 by auto
      have "num * 10 ^ up10 (num * 10) den = num * 10 * 10 ^ (up10 (num * 10) den - 1)"
        using IH(1) by (cases "up10 (num * 10) den") auto
      have "num * 10 ^ (up10 num den - 1) = num * 10 * 10 ^ (up10 (num * 10) den - 1)"
        unfolding u using \<open>num * 10 ^ up10 (num * 10) den = _\<close> by simp
      moreover have "num * 10 ^ up10 num den = num * 10 * 10 ^ up10 (num * 10) den"
        unfolding u by simp
      ultimately show ?thesis using IH(2,3) u by linarith
    qed
  qed
  then show "0 < up10 num den" "den \<le> num * 10 ^ up10 num den" "num * 10 ^ (up10 num den - 1) < den"
    using assms by auto
qed

lemma length_dec_nat_bounds:
  assumes "0 < n"
  shows "10 ^ (length (dec_nat n) - 1) \<le> n" "n < 10 ^ length (dec_nat n)"
proof -
  show "n < 10 ^ length (dec_nat n)"
    using dec_val_less [OF dec_nat_digits, of n] by simp
  show "10 ^ (length (dec_nat n) - 1) \<le> n"
  proof (rule ccontr)
    assume "\<not> 10 ^ (length (dec_nat n) - 1) \<le> n"
    then have lt: "n < 10 ^ (length (dec_nat n) - 1)" by simp
    then have "length (dec_nat n) - 1 \<noteq> 0" using assms by (metis less_one not_gr_zero power_0)
    then obtain k where "length (dec_nat n) - 1 = Suc k" by (metis not0_implies_Suc)
    with lt length_dec_nat_le [of n k] show False by simp
  qed
qed

lemma length_dec_nat_eq: "10 ^ k \<le> n \<Longrightarrow> n < 10 ^ Suc k \<Longrightarrow> length (dec_nat n) = Suc k"
proof -
  assume a: "10 ^ k \<le> n" "n < 10 ^ Suc k"
  have "\<not> length (dec_nat n) \<le> k"
  proof
    assume "length (dec_nat n) \<le> k"
    then have "(10::nat) ^ length (dec_nat n) \<le> 10 ^ k" by (rule power_increasing) simp
    moreover have "n < 10 ^ length (dec_nat n)"
      using dec_val_less [OF dec_nat_digits, of n] by simp
    ultimately show False using a(1) by linarith
  qed
  then show ?thesis using length_dec_nat_le [OF a(2)] by simp
qed

text \<open>\<open>num / den\<close> scaled by \<open>10 ^ j\<close>, as the two integers \<open>round_digits\<close> divides.\<close>

lemma dec_exponent_bounds:
  fixes p :: nat
  assumes "0 < num" "0 < den" and j: "j = int p - 1 - dec_exponent num den" and p: "0 < p"
  shows "10 ^ (p - 1) * (den * 10 ^ nat (- j)) \<le> num * 10 ^ nat j" (is ?lo)
    and "num * 10 ^ nat j < 10 ^ p * (den * 10 ^ nat (- j))" (is ?hi)
proof -
  have "?lo \<and> ?hi"
  proof (cases "den \<le> num")
    case True
    define q where "q = num div den"
    define L where "L = length (dec_nat q) - 1"
    have q: "0 < q" using True assms by (simp add: q_def div_greater_zero_iff)
    have LL: "length (dec_nat q) = Suc L"
      using dec_nat_nonempty [of q] unfolding L_def by (cases "dec_nat q") simp_all
    have b: "10 ^ L \<le> q" "q < 10 ^ Suc L" using length_dec_nat_bounds [OF q] LL by simp_all
    have lo: "10 ^ L * den \<le> num"
      using b(1) assms(2) unfolding q_def by (simp add: less_eq_div_iff_mult_less_eq)
    have hi: "num < 10 ^ Suc L * den"
      using b(2) assms(2) unfolding q_def by (simp add: div_less_iff_less_mult)
    have jL: "j = int p - 1 - int L" using True LL unfolding j dec_exponent_def q_def [symmetric] by simp
    show ?thesis
    proof (cases "L \<le> p - 1")
      case True
      define t where "t = p - 1 - L"
      have e: "nat j = t" "nat (- j) = 0" and Lt: "p - 1 = L + t" "p = Suc L + t"
        using True p by (auto simp: jL t_def)
      have w: "(10::nat) ^ (p - 1) = 10 ^ L * 10 ^ t" "(10::nat) ^ p = 10 ^ Suc L * 10 ^ t"
        by (simp_all only: Lt(1) power_add) (simp only: Lt(2) power_add)
      have "10 ^ L * den * 10 ^ t \<le> num * 10 ^ t" using lo by simp
      moreover have "num * 10 ^ t < 10 ^ Suc L * den * 10 ^ t" using hi by simp
      ultimately show ?thesis unfolding e w by (simp add: ac_simps)
    next
      case False
      define t where "t = L - (p - 1)"
      have e: "nat j = 0" "nat (- j) = t" and Lt: "L = p - 1 + t" "Suc L = p + t"
        using False p by (auto simp: jL t_def)
      have w: "(10::nat) ^ L = 10 ^ (p - 1) * 10 ^ t" "(10::nat) ^ Suc L = 10 ^ p * 10 ^ t"
        by (simp only: Lt(1) power_add) (simp only: Lt(2) power_add)
      show ?thesis using lo hi unfolding e w by (simp add: ac_simps)
    qed
  next
    case False
    define u where "u = up10 num den"
    have b: "0 < u" "den \<le> num * 10 ^ u" "num * 10 ^ (u - 1) < den"
      using up10_bounds [of num den] assms False by (auto simp: u_def)
    have "j = int (p - 1 + u)" using False p by (simp add: j dec_exponent_def u_def of_nat_diff)
    then have e: "nat j = p - 1 + u" "nat (- j) = 0" by simp_all
    have "10 ^ (p - 1) * den \<le> 10 ^ (p - 1) * (num * 10 ^ u)" using b(2) by simp
    moreover have "num * 10 ^ (u - 1) * 10 ^ p < den * 10 ^ p" using b(3) by simp
    moreover have w: "(10::nat) ^ (p - 1 + u) = 10 ^ (u - 1) * 10 ^ p"
      using b(1) p by (simp flip: power_add)
    moreover have "num * 10 ^ (p - 1 + u) = 10 ^ (p - 1) * (num * 10 ^ u)"
      by (simp add: power_add ac_simps)
    moreover have "num * 10 ^ (p - 1 + u) = num * 10 ^ (u - 1) * 10 ^ p"
      by (simp only: w mult.assoc)
    ultimately show ?thesis unfolding e by (metis mult.commute mult_1_right power_0)
  qed
  then show ?lo ?hi by auto
qed

lemma round_half_even_mono_bounds:
  assumes "0 < d" "a * d \<le> n" "n < b * d"
  shows "a \<le> round_half_even n d" "round_half_even n d \<le> b"
proof -
  have "a \<le> n div d" using assms by (simp add: less_eq_div_iff_mult_less_eq)
  moreover have "n div d < b" using assms by (simp add: div_less_iff_less_mult)
  ultimately show "a \<le> round_half_even n d" "round_half_even n d \<le> b"
    by (auto simp: round_half_even_def Let_def)
qed

lemma round_digits_range:
  assumes "0 < num" "0 < den" "0 < p" and r: "round_digits p num den = (D, e)"
  shows "10 ^ (p - 1) \<le> D" "D < 10 ^ p"
proof -
  define j where "j = int p - 1 - dec_exponent num den"
  define D0 where "D0 = round_half_even (num * 10 ^ nat j) (den * 10 ^ nat (- j))"
  note b = dec_exponent_bounds [OF assms(1,2) j_def assms(3)]
  have "10 ^ (p - 1) \<le> D0" "D0 \<le> 10 ^ p"
    unfolding D0_def using round_half_even_mono_bounds [OF _ b] assms(2) by simp_all
  moreover have "D = (if D0 = 10 ^ p then 10 ^ (p - 1) else D0)"
    using r by (auto simp: round_digits_def Let_def D0_def j_def split: if_splits)
  moreover have "(10::nat) ^ (p - 1) < 10 ^ p" using assms(3) by (intro power_strict_increasing) simp_all
  ultimately show "10 ^ (p - 1) \<le> D" "D < 10 ^ p" by (auto split: if_splits)
qed

subsection \<open>Reading \<open>%.*g\<close> back\<close>

lemma dec_val_replicate_zero: "dec_val (replicate k (CHR ''0'') @ s) = dec_val s"
  by (simp add: dec_val_append dec_val_zeros)

lemma exp_part_exp_text: "exp_part (exp_text e) e"
proof -
  define ds where "ds = (let ds = dec_nat (nat \<bar>e\<bar>) in if length ds < 2 then CHR ''0'' # ds else ds)"
  have "dec_val ds = nat \<bar>e\<bar>"
    by (auto simp: ds_def Let_def dec_val_Cons digit_val_def)
  moreover have "ds \<noteq> []" "digits ds" by (auto simp: ds_def Let_def)
  moreover have "exp_text e = CHR ''e'' # (if e < 0 then ''-'' else ''+'') @ ds"
    by (simp add: exp_text_def ds_def)
  ultimately show ?thesis
    unfolding exp_part_def by (intro disjI2 exI [of _ "CHR ''e''"] exI [of _ "if e < 0 then ''-'' else ''+''"]
        exI [of _ ds]) auto
qed

text \<open>The shape of the text: an integer part without a superfluous zero, a fraction, an exponent.\<close>

definition json_int :: "string \<Rightarrow> bool" where
  "json_int ip \<longleftrightarrow> digits ip \<and> ip \<noteq> [] \<and> (hd ip = CHR ''0'' \<longrightarrow> ip = ''0'')"

lemma with_point_frac: "with_point ip fp = ip @ frac_text fp"
  by (simp add: with_point_def frac_text_def)

lemma hd_dec_nat_pos: "0 < n \<Longrightarrow> hd (dec_nat n) \<noteq> CHR ''0''"
proof -
  have "byte (digit_char 0) = byte (CHR ''0'')" by simp
  then have "digit_char 0 = CHR ''0''" by (simp only: byte_inj)
  then show "0 < n \<Longrightarrow> hd (dec_nat n) \<noteq> CHR ''0''" using hd_dec_nat [of n] by simp
qed

lemma format_g_digits_token:
  assumes D: "10 ^ (p - 1) \<le> D" "D < 10 ^ p" and p: "0 < p"
  obtains ip fp s ex where
    "format_g_digits p D e = ip @ frac_text fp @ s" "json_int ip" "digits fp" "exp_part s ex"
    "dec_ratio neg (dec_val (ip @ fp)) (ex - int (length fp)) = dec_ratio neg D (e - (int p - 1))"
proof -
  define ds where "ds = dec_nat D"
  obtain q where q: "p = Suc q" using p by (cases p) auto
  have len: "length ds = p" using length_dec_nat_eq [of q D] D by (simp add: ds_def q)
  have D0: "0 < D" using D(1) by (metis gr_zeroI le_zero_eq power_not_zero zero_neq_numeral)
  have hd: "hd ds \<noteq> CHR ''0''" and nn: "ds \<noteq> []" using hd_dec_nat_pos [OF D0] by (simp_all add: ds_def)
  have dg: "digits ds" by (simp add: ds_def)
  have zero: "json_int ''0''" by (simp add: json_int_def)
  have no_exp: "exp_part [] 0" by (simp add: exp_part_def)
  have ip: "json_int (take (Suc k) ds)" for k
    using nn hd dg by (cases ds) (auto simp: json_int_def)
  consider (sci) "e < -4 \<or> int p \<le> e" | (fixed) "0 \<le> e" "e < int p" | (small) "-4 \<le> e" "e < 0" by linarith
  then show ?thesis
  proof cases
    case sci
    then have shape: "format_g_digits p D e = take (Suc 0) ds @ frac_text (strip_zeros (drop 1 ds)) @ exp_text e"
      by (simp add: format_g_digits_def with_point_frac flip: ds_def)
    have "dec_val (take (Suc 0) ds @ drop 1 ds) = D" by (simp add: ds_def)
    moreover have "e - int (length (drop 1 ds)) = e - (int p - 1)" using len q by simp
    ultimately have "dec_ratio neg (dec_val (take (Suc 0) ds @ strip_zeros (drop 1 ds)))
        (e - int (length (strip_zeros (drop 1 ds)))) = dec_ratio neg D (e - (int p - 1))"
      by (simp only: dec_ratio_strip)
    with shape ip [of 0] digits_strip_zeros [OF digits_drop [OF dg, of 1]] exp_part_exp_text [of e]
    show ?thesis by (rule that)
  next
    case fixed
    let ?fp = "drop (Suc (nat e)) ds"
    have shape: "format_g_digits p D e = take (Suc (nat e)) ds @ frac_text (strip_zeros ?fp) @ []"
      using fixed by (simp add: format_g_digits_def with_point_frac flip: ds_def)
    have "dec_val (take (Suc (nat e)) ds @ ?fp) = D" by (simp add: ds_def)
    moreover have "0 - int (length ?fp) = e - (int p - 1)" using len fixed by simp
    ultimately have "dec_ratio neg (dec_val (take (Suc (nat e)) ds @ strip_zeros ?fp))
        (0 - int (length (strip_zeros ?fp))) = dec_ratio neg D (e - (int p - 1))"
      by (simp only: dec_ratio_strip)
    with shape ip [of "nat e"] digits_strip_zeros [OF digits_drop [OF dg, of "Suc (nat e)"]] no_exp
    show ?thesis by (rule that)
  next
    case small
    let ?fp = "replicate (nat (- e) - 1) (CHR ''0'') @ ds"
    have "digits (replicate k (CHR ''0''))" for k by (induction k) simp_all
    then have dgf: "digits ?fp" using dg by simp
    have shape: "format_g_digits p D e = ''0'' @ frac_text (strip_zeros ?fp) @ []"
      using small p by (simp add: format_g_digits_def with_point_frac flip: ds_def)
    have "dec_val (''0'' @ ?fp) = D"
      using dec_val_replicate_zero [of "Suc (nat (- e) - 1)" ds] by (simp add: ds_def)
    moreover have "0 - int (length ?fp) = e - (int p - 1)" using len small by simp
    ultimately have "dec_ratio neg (dec_val (''0'' @ strip_zeros ?fp))
        (0 - int (length (strip_zeros ?fp))) = dec_ratio neg D (e - (int p - 1))"
      by (simp only: dec_ratio_strip)
    with shape zero digits_strip_zeros [OF dgf] no_exp show ?thesis by (rule that)
  qed
qed

text \<open>The sign, the magnitude and the pattern of a double.\<close>

lemma dbl_mag_less: "dbl_mag d < 2 ^ 63"
  by (simp add: dbl_mag_def)

lemma unat_double: "unat d = of_bool (dbl_sign d) * 2 ^ 63 + dbl_mag d"
proof -
  have "unat d < 2 ^ 64" using unsigned_less [of d] by simp
  then show ?thesis by (auto simp: dbl_sign_def dbl_mag_def not_le mod_if)
qed

lemma dbl_pack_inverse [simp]: "dbl_pack (dbl_sign d) (dbl_mag d) = d"
  unfolding dbl_pack_def unat_double [symmetric] by simp

lemma unat_dbl_pack: "m < 2 ^ 63 \<Longrightarrow> unat (dbl_pack neg m) = of_bool neg * 2 ^ 63 + m"
  unfolding dbl_pack_def by (subst unat_of_nat) (auto simp: take_bit_nat_eq_self_iff)

lemma dbl_sign_pack [simp]: "m < 2 ^ 63 \<Longrightarrow> dbl_sign (dbl_pack neg m) = neg"
  by (simp add: dbl_sign_def unat_dbl_pack)

lemma dbl_mag_pack [simp]: "m < 2 ^ 63 \<Longrightarrow> dbl_mag (dbl_pack neg m) = m"
  by (simp add: dbl_mag_def unat_dbl_pack)

lemma inf_mag_less: "inf_mag < 2 ^ 63"
  by (simp add: inf_mag_def)

lemma mag_key_pos: "0 < m \<Longrightarrow> 0 < mag_key m"
  by (auto simp: mag_key_def Let_def mod_eq_0_iff_dvd div_eq_0_iff)

lemma half_unit_error:
  fixes P A B :: int
  assumes "2 * \<bar>P - A\<bar> \<le> B" "10000000000000000 * B \<le> A"
  shows "19999999999999999 * A \<le> 20000000000000000 * P" "20000000000000000 * P \<le> 20000000000000001 * A"
proof -
  have "- B \<le> 2 * (P - A)" "2 * (P - A) \<le> B"
    using assms(1) abs_ge_self [of "P - A"] abs_ge_minus_self [of "P - A"] by simp_all
  then have "10000000000000000 * - B \<le> 10000000000000000 * (2 * (P - A))"
    and "10000000000000000 * (2 * (P - A)) \<le> 10000000000000000 * B"
    by (intro mult_left_mono; simp)+
  then show "19999999999999999 * A \<le> 20000000000000000 * P" "20000000000000000 * P \<le> 20000000000000001 * A"
    using assms(2) by auto
qed

text \<open>Seventeen significant digits are enough to get a finite double back.\<close>

lemma round_digits_17:
  assumes m: "0 < m" "m < inf_mag" and r: "round_digits 17 (mag_key m) (2 ^ 1074) = (D, e)"
  shows "dec_ratio neg D (e - 16) = dbl_pack neg m"
proof -
  define num :: nat where "num = mag_key m"
  define den :: nat where "den = 2 ^ 1074"
  define j where "j = int 17 - 1 - dec_exponent num den"
  define A where "A = num * 10 ^ nat j"
  define B where "B = den * 10 ^ nat (- j)"
  define D0 where "D0 = round_half_even A B"
  have pos: "0 < num" "0 < den" using mag_key_pos [OF m(1)] by (simp_all add: num_def den_def)
  have B: "0 < B" using pos by (simp add: B_def)
  have lo: "10 ^ 16 * B \<le> A"
    using dec_exponent_bounds(1) [OF pos j_def] by (simp add: A_def B_def)
  have err: "2 * \<bar>int D0 * int B - int A\<bar> \<le> int B"
    unfolding D0_def by (rule round_half_even_error [OF B])
  have "ratio_mag (D0 * 10 ^ nat (- j)) (10 ^ nat j) = m"
  proof (rule ratio_mag_near [OF m])
    have c: "D0 * 10 ^ nat (- j) * 2 ^ 1074 = D0 * B" "mag_key m * 10 ^ nat j = A"
      by (simp_all add: B_def den_def A_def num_def)
    have zA: "10000000000000000 * int B \<le> int A" using lo by (simp flip: of_nat_mult)
    note half_unit_error [OF err zA]
    then have "int (19999999999999999 * A) \<le> int (20000000000000000 * (D0 * B))"
      and "int (20000000000000000 * (D0 * B)) \<le> int (20000000000000001 * A)" by simp_all
    then show "19999999999999999 * (mag_key m * 10 ^ nat j) \<le>
        20000000000000000 * (D0 * 10 ^ nat (- j) * 2 ^ 1074)"
      and "20000000000000000 * (D0 * 10 ^ nat (- j) * 2 ^ 1074) \<le>
        20000000000000001 * (mag_key m * 10 ^ nat j)"
      unfolding c of_nat_le_iff by simp_all
  qed simp
  then have main: "dec_ratio neg D0 (- j) = dbl_pack neg m"
    by (simp add: dec_ratio_def dbl_of_ratio_def)
  have r': "(D, e) = (if D0 = 10 ^ 17 then (10 ^ 16, dec_exponent num den + 1) else (D0, dec_exponent num den))"
    using r unfolding round_digits_def Let_def num_def [symmetric] den_def [symmetric] j_def [symmetric]
      A_def [symmetric] B_def [symmetric] D0_def [symmetric] by (auto split: if_splits)
  show ?thesis
  proof (cases "D0 = 10 ^ 17")
    case True
    then have "D0 = D * 10 ^ 1" "- j = e - 16 - int 1" using r' by (simp_all add: j_def)
    then show ?thesis using main dec_ratio_shift [of neg D 1 "e - 16"] by simp
  next
    case False
    then show ?thesis using r' main by (simp add: j_def)
  qed
qed

text \<open>A number token of the JSON grammar, with the parts \<open>strtod\<close> reads.\<close>

definition number_token :: "bool \<Rightarrow> string \<Rightarrow> string \<Rightarrow> string \<Rightarrow> int \<Rightarrow> string \<Rightarrow> bool" where
  "number_token neg ip fp s ex tok \<longleftrightarrow>
     tok = sign_text neg @ ip @ frac_text fp @ s \<and> json_int ip \<and> digits fp \<and> exp_part s ex"

definition json_number :: "string \<Rightarrow> bool" where
  "json_number tok \<longleftrightarrow> (\<exists>neg ip fp s ex. number_token neg ip fp s ex tok)"

lemma strtod_number_token:
  "number_token neg ip fp s ex tok \<Longrightarrow>
     strtod tok = (dec_ratio neg (dec_val (ip @ fp)) (ex - int (length fp)), [])"
  by (auto simp: number_token_def json_int_def strtod_token)

lemma format_g_token:
  assumes "0 < dbl_mag d" "0 < p"
  obtains ip fp s ex D e where
    "number_token (dbl_sign d) ip fp s ex (format_g p d)"
    "round_digits p (mag_key (dbl_mag d)) (2 ^ 1074) = (D, e)"
    "strtod (format_g p d) = (dec_ratio (dbl_sign d) D (e - (int p - 1)), [])"
proof -
  obtain D e where r: "round_digits p (mag_key (dbl_mag d)) (2 ^ 1074) = (D, e)" by fastforce
  have k: "0 < mag_key (dbl_mag d)" by (rule mag_key_pos [OF assms(1)])
  have z: "(0::nat) < 2 ^ 1074" by (rule zero_less_power) simp
  obtain ip fp s ex where
    shape: "format_g_digits p D e = ip @ frac_text fp @ s" "json_int ip" "digits fp" "exp_part s ex"
    and val: "dec_ratio (dbl_sign d) (dec_val (ip @ fp)) (ex - int (length fp)) =
      dec_ratio (dbl_sign d) D (e - (int p - 1))"
    by (rule format_g_digits_token [OF round_digits_range [OF k z assms(2) r] assms(2)])
  have "format_g p d = sign_text (dbl_sign d) @ format_g_digits p D e"
    unfolding format_g_def Let_def r using k by (simp add: sign_text_def)
  then have t: "number_token (dbl_sign d) ip fp s ex (format_g p d)"
    using shape by (simp add: number_token_def)
  show ?thesis using that [OF t r] strtod_number_token [OF t] val by simp
qed

lemma format_g_17:
  assumes "0 < dbl_mag d" "dbl_is_finite d"
  shows "strtod (format_g 17 d) = (d, [])"
proof -
  obtain ip fp s ex D e where r: "round_digits 17 (mag_key (dbl_mag d)) (2 ^ 1074) = (D, e)"
    and v: "strtod (format_g 17 d) = (dec_ratio (dbl_sign d) D (e - (int 17 - 1)), [])"
    by (rule format_g_token [OF assms(1), of 17]) auto
  have "dec_ratio neg D (e - 16) = dbl_pack neg (dbl_mag d)" for neg
    by (rule round_digits_17 [OF assms(1) _ r]) (use assms(2) in \<open>simp add: dbl_is_finite_def\<close>)
  then show ?thesis using v by simp
qed

lemma json_number_format_g: "0 < dbl_mag d \<Longrightarrow> 0 < p \<Longrightarrow> json_number (format_g p d)"
  unfolding json_number_def by (metis format_g_token)

subsection \<open>Integers\<close>

lemma dec_ratio_0: "dec_ratio neg n 0 = dbl_of_ratio neg n 1"
  by (simp add: dec_ratio_def)

lemma json_int_dec_nat: "json_int (dec_nat n)"
proof (cases "n = 0")
  case True
  have "byte (digit_char 0) = byte (CHR ''0'')" by simp
  then have "digit_char 0 = CHR ''0''" by (simp only: byte_inj)
  then show ?thesis using True by (simp add: json_int_def dec_nat_0)
next
  case False
  then show ?thesis using hd_dec_nat_pos [of n] by (simp add: json_int_def)
qed

lemma dec_int_token: "number_token (i < 0) (dec_nat (nat \<bar>i\<bar>)) [] [] 0 (dec_int i)"
  by (auto simp: number_token_def dec_int_def sign_text_def frac_text_def exp_part_def json_int_dec_nat)

lemma strtod_dec_int: "strtod (dec_int i) = (dbl_of_int i, [])"
  using strtod_number_token [OF dec_int_token, of i] by (simp add: dec_ratio_0 dbl_of_int_def)

text \<open>An integer that is the exact value of a double converts to that double.\<close>

lemma ratio_mag_exact:
  assumes "0 < m" "m < inf_mag" "n * 2 ^ 1074 = mag_key m"
  shows "ratio_mag n 1 = m"
  by (rule ratio_mag_near [OF assms(1,2)]) (simp_all only: assms(3) mult_1_right zero_less_one)

lemma mag_key_zero_iff: "mag_key m = 0 \<longleftrightarrow> m = 0"
proof (cases "m = 0")
  case True
  then show ?thesis by (simp add: mag_key_def)
next
  case False
  then show ?thesis using mag_key_pos [of m] by simp
qed

lemma dbl_of_int_trunc:
  assumes "dbl_is_finite d" "0 < dbl_mag d" "int (mag_key (dbl_mag d)) = \<bar>dbl_trunc d\<bar> * 2 ^ 1074"
  shows "dbl_of_int (dbl_trunc d) = d"
proof -
  have n: "nat \<bar>dbl_trunc d\<bar> * 2 ^ 1074 = mag_key (dbl_mag d)"
    using assms(3) by (metis abs_ge_zero nat_int nat_mult_distrib nat_power_eq nat_numeral zero_le_numeral)
  then have r: "ratio_mag (nat \<bar>dbl_trunc d\<bar>) 1 = dbl_mag d"
    using assms by (intro ratio_mag_exact) (simp_all add: dbl_is_finite_def)
  have "dbl_trunc d \<noteq> 0" using n mag_key_pos [OF assms(2)] by (metis abs_0 mult_0 nat_0_iff order_refl less_irrefl)
  then have "(dbl_trunc d < 0) = dbl_sign d" by (auto simp: dbl_trunc_def Let_def split: if_splits)
  then show ?thesis using r by (simp add: dbl_of_int_def dbl_of_ratio_def)
qed

end
