(* ===== verification/Value.thy ===== *)
theory Value
  imports Double_Text
begin

text \<open>
  The values of \<^verbatim>\<open>src/core/value.c\<close>: the tree of \<^verbatim>\<open>struct nyxj_value\<close>, the builder API, deep copy and
  comparison, the getters and dot paths.

  A child pointer is the child itself, a list of \<open>count\<close> items stands for \<open>items\<close> and \<open>count\<close>, and
  the linked list of \<open>nyxj_pair\<close> is the list of its keys and values. The boolean of every
  constructor is \<open>NYXJ_VFLAG_ARENA\<close>. A \<open>char*\<close> is the string before its NUL. A mutator returns the
  changed container beside its result; releasing memory has no effect on a value.
\<close>

datatype nyxj_value =
    VNull bool
  | VBool bool bool
  | VNumber bool double
  | VString bool string
  | VArray bool "nyxj_value list" nat
  | VObject bool "(string \<times> nyxj_value) list"

datatype nyxj_type = NYXJ_NULL | NYXJ_BOOL | NYXJ_NUMBER | NYXJ_STRING | NYXJ_ARRAY | NYXJ_OBJECT

fun value_type :: "nyxj_value \<Rightarrow> nyxj_type" where
  "value_type (VNull _) = NYXJ_NULL"
| "value_type (VBool _ _) = NYXJ_BOOL"
| "value_type (VNumber _ _) = NYXJ_NUMBER"
| "value_type (VString _ _) = NYXJ_STRING"
| "value_type (VArray _ _ _) = NYXJ_ARRAY"
| "value_type (VObject _ _) = NYXJ_OBJECT"

text \<open>The sizes of \<open>nyxj_value\<close>, \<open>nyxj_pair\<close> and a pointer on a 64-bit platform.\<close>

definition value_bytes :: nat where "value_bytes = 24"
definition pair_bytes :: nat where "pair_bytes = 24"
definition pointer_bytes :: nat where "pointer_bytes = 8"

subsection \<open>The builder API\<close>

definition nyxj_strndup :: "heap \<Rightarrow> bytes \<Rightarrow> nat \<Rightarrow> string option \<times> heap" where
  "nyxj_strndup h s n =
     (let (ok, h) = malloc h (n + 1) in if ok then (Some (cstr (take n s)), h) else (None, h))"

definition nyxj_strdup :: "heap \<Rightarrow> string option \<Rightarrow> string option \<times> heap" where
  "nyxj_strdup h s = (case s of None \<Rightarrow> (None, h) | Some s \<Rightarrow> nyxj_strndup h s (length (cstr s)))"

definition new_value :: "heap \<Rightarrow> nyxj_value \<Rightarrow> nyxj_value option \<times> heap" where
  "new_value h v = (let (ok, h) = malloc h value_bytes in (if ok then Some v else None, h))"

definition nyxj_new_null :: "heap \<Rightarrow> nyxj_value option \<times> heap" where
  "nyxj_new_null h = new_value h (VNull False)"

definition nyxj_new_bool :: "heap \<Rightarrow> bool \<Rightarrow> nyxj_value option \<times> heap" where
  "nyxj_new_bool h b = new_value h (VBool False b)"

definition nyxj_new_number :: "heap \<Rightarrow> double \<Rightarrow> nyxj_value option \<times> heap" where
  "nyxj_new_number h n = new_value h (VNumber False n)"

definition nyxj_new_stringn :: "heap \<Rightarrow> bytes option \<Rightarrow> nat \<Rightarrow> nyxj_value option \<times> heap" where
  "nyxj_new_stringn h s n =
     (case new_value h (VString False []) of
        (None, h) \<Rightarrow> (None, h)
      | (Some v, h) \<Rightarrow>
          (case nyxj_strndup h (case s of None \<Rightarrow> [] | Some s \<Rightarrow> s) (if s = None then 0 else n) of
             (None, h) \<Rightarrow> (None, h)
           | (Some d, h) \<Rightarrow> (Some (VString False d), h)))"

definition nyxj_new_string :: "heap \<Rightarrow> string option \<Rightarrow> nyxj_value option \<times> heap" where
  "nyxj_new_string h s = nyxj_new_stringn h s (case s of None \<Rightarrow> 0 | Some s \<Rightarrow> length (cstr s))"

definition nyxj_new_array :: "heap \<Rightarrow> nyxj_value option \<times> heap" where
  "nyxj_new_array h = new_value h (VArray False [] 0)"

definition nyxj_new_object :: "heap \<Rightarrow> nyxj_value option \<times> heap" where
  "nyxj_new_object h = new_value h (VObject False [])"

text \<open>\<open>nyxj_array_capacity_for\<close> and \<open>array_grow\<close>: the new capacity, if there is memory for it.\<close>

definition nyxj_array_capacity_for :: "nat \<Rightarrow> nat" where
  "nyxj_array_capacity_for n = capacity_from 4 n"

definition array_grow :: "heap \<Rightarrow> nat \<Rightarrow> nat \<Rightarrow> nat option \<times> heap" where
  "array_grow h n cap =
     (if n < cap then (Some cap, h)
      else let ncap = (if cap \<noteq> 0 then cap * 2 else 4); (ok, h) = malloc h (pointer_bytes * ncap)
           in (if ok then Some ncap else None, h))"

fun nyxj_array_push :: "heap \<Rightarrow> nyxj_value \<Rightarrow> nyxj_value option \<Rightarrow> bool \<times> nyxj_value \<times> heap" where
  "nyxj_array_push h (VArray False xs cap) (Some item) =
     (case array_grow h (length xs) cap of
        (None, h) \<Rightarrow> (False, VArray False xs cap, h)
      | (Some cap, h) \<Rightarrow> (True, VArray False (xs @ [item]) cap, h))"
| "nyxj_array_push h arr item = (False, arr, h)"

fun nyxj_array_insert :: "heap \<Rightarrow> nyxj_value \<Rightarrow> int \<Rightarrow> nyxj_value option \<Rightarrow> bool \<times> nyxj_value \<times> heap" where
  "nyxj_array_insert h (VArray False xs cap) i (Some item) =
     (if i < 0 \<or> int (length xs) < i then (False, VArray False xs cap, h)
      else case array_grow h (length xs) cap of
        (None, h) \<Rightarrow> (False, VArray False xs cap, h)
      | (Some cap, h) \<Rightarrow> (True, VArray False (take (nat i) xs @ item # drop (nat i) xs) cap, h))"
| "nyxj_array_insert h arr i item = (False, arr, h)"

fun nyxj_array_get :: "nyxj_value option \<Rightarrow> int \<Rightarrow> nyxj_value option" where
  "nyxj_array_get (Some (VArray fl xs cap)) i =
     (let i = (if i < 0 then i + int (length xs) else i)
      in if i < 0 \<or> int (length xs) \<le> i then None else Some (xs ! nat i))"
| "nyxj_array_get arr i = None"

fun nyxj_array_detach :: "nyxj_value \<Rightarrow> int \<Rightarrow> nyxj_value option \<times> nyxj_value" where
  "nyxj_array_detach (VArray False xs cap) i =
     (if i < 0 \<or> int (length xs) \<le> i then (None, VArray False xs cap)
      else (Some (xs ! nat i), VArray False (take (nat i) xs @ drop (nat i + 1) xs) cap))"
| "nyxj_array_detach arr i = (None, arr)"

definition nyxj_array_remove :: "nyxj_value \<Rightarrow> int \<Rightarrow> bool \<times> nyxj_value" where
  "nyxj_array_remove arr i = (let (item, arr) = nyxj_array_detach arr i in (item \<noteq> None, arr))"

text \<open>The loop of \<open>nyxj_object_set\<close>: the first pair with the key gets the value; \<open>None\<close> if there is none.\<close>

fun pairs_replace :: "(string \<times> 'v) list \<Rightarrow> string \<Rightarrow> 'v \<Rightarrow> (string \<times> 'v) list option" where
  "pairs_replace [] key v = None"
| "pairs_replace ((k, w) # ps) key v =
     (if k = key then Some ((k, v) # ps) else map_option ((#) (k, w)) (pairs_replace ps key v))"

fun nyxj_object_set :: "heap \<Rightarrow> nyxj_value \<Rightarrow> string \<Rightarrow> nyxj_value option \<Rightarrow> bool \<times> nyxj_value \<times> heap" where
  "nyxj_object_set h (VObject False ps) key (Some val) =
     (case pairs_replace ps key val of
        Some ps' \<Rightarrow> (True, VObject False ps', h)
      | None \<Rightarrow>
          (let (ok, h) = malloc h pair_bytes
           in if \<not> ok then (False, VObject False ps, h)
              else case nyxj_strdup h (Some key) of
                (None, h) \<Rightarrow> (False, VObject False ps, h)
              | (Some key, h) \<Rightarrow> (True, VObject False (ps @ [(key, val)]), h)))"
| "nyxj_object_set h obj key val = (False, obj, h)"

fun pairs_detach :: "(string \<times> 'v) list \<Rightarrow> string \<Rightarrow> ('v \<times> (string \<times> 'v) list) option" where
  "pairs_detach [] key = None"
| "pairs_detach ((k, w) # ps) key =
     (if k = key then Some (w, ps) else map_option (map_prod id ((#) (k, w))) (pairs_detach ps key))"

fun nyxj_object_detach :: "nyxj_value \<Rightarrow> string \<Rightarrow> nyxj_value option \<times> nyxj_value" where
  "nyxj_object_detach (VObject False ps) key =
     (case pairs_detach ps key of
        None \<Rightarrow> (None, VObject False ps)
      | Some (v, ps') \<Rightarrow> (Some v, VObject False ps'))"
| "nyxj_object_detach obj key = (None, obj)"

definition nyxj_object_remove :: "nyxj_value \<Rightarrow> string \<Rightarrow> bool \<times> nyxj_value" where
  "nyxj_object_remove obj key = (let (v, obj) = nyxj_object_detach obj key in (v \<noteq> None, obj))"

definition set_owned :: "heap \<Rightarrow> nyxj_value \<Rightarrow> string \<Rightarrow> nyxj_value option \<Rightarrow> bool \<times> nyxj_value \<times> heap" where
  "set_owned h obj key v = (if v = None then (False, obj, h) else nyxj_object_set h obj key v)"

definition nyxj_object_set_string :: "heap \<Rightarrow> nyxj_value \<Rightarrow> string \<Rightarrow> string option \<Rightarrow> bool \<times> nyxj_value \<times> heap" where
  "nyxj_object_set_string h obj key s = (let (v, h) = nyxj_new_string h s in set_owned h obj key v)"

definition nyxj_object_set_number :: "heap \<Rightarrow> nyxj_value \<Rightarrow> string \<Rightarrow> double \<Rightarrow> bool \<times> nyxj_value \<times> heap" where
  "nyxj_object_set_number h obj key n = (let (v, h) = nyxj_new_number h n in set_owned h obj key v)"

definition nyxj_object_set_bool :: "heap \<Rightarrow> nyxj_value \<Rightarrow> string \<Rightarrow> bool \<Rightarrow> bool \<times> nyxj_value \<times> heap" where
  "nyxj_object_set_bool h obj key b = (let (v, h) = nyxj_new_bool h b in set_owned h obj key v)"

definition nyxj_object_set_null :: "heap \<Rightarrow> nyxj_value \<Rightarrow> string \<Rightarrow> bool \<times> nyxj_value \<times> heap" where
  "nyxj_object_set_null h obj key = (let (v, h) = nyxj_new_null h in set_owned h obj key v)"

subsection \<open>Getters\<close>

fun nyxj_get_member :: "nyxj_value option \<Rightarrow> string \<Rightarrow> nyxj_value option" where
  "nyxj_get_member (Some (VObject fl ps)) key = map_of ps key"
| "nyxj_get_member obj key = None"

definition nyxj_get_string :: "nyxj_value option \<Rightarrow> string \<Rightarrow> string option" where
  "nyxj_get_string obj key = (case nyxj_get_member obj key of Some (VString fl s) \<Rightarrow> Some s | _ \<Rightarrow> None)"

definition nyxj_get_number :: "nyxj_value option \<Rightarrow> string \<Rightarrow> double" where
  "nyxj_get_number obj key = (case nyxj_get_member obj key of Some (VNumber fl n) \<Rightarrow> n | _ \<Rightarrow> 0)"

definition nyxj_get_bool :: "nyxj_value option \<Rightarrow> string \<Rightarrow> bool" where
  "nyxj_get_bool obj key = (case nyxj_get_member obj key of Some (VBool fl b) \<Rightarrow> b | _ \<Rightarrow> False)"

text \<open>The literal \<open>9.2233720368547758e18\<close> is the double \<open>2 ^ 63\<close>. The cast of a NaN has no defined
  value: it is \<open>None\<close>.\<close>

definition two_63 :: double where
  "two_63 = 0x43E0000000000000"

definition nyxj_get_int :: "nyxj_value option \<Rightarrow> string \<Rightarrow> int option" where
  "nyxj_get_int obj key =
     (case nyxj_get_member obj key of
        Some (VNumber fl d) \<Rightarrow>
          if dbl_le two_63 d then Some (2 ^ 63 - 1)
          else if dbl_le d (dbl_neg two_63) then Some (- (2 ^ 63))
          else if dbl_is_nan d then None
          else Some (dbl_trunc d)
      | _ \<Rightarrow> Some 0)"

definition nyxj_size :: "nyxj_value option \<Rightarrow> nat" where
  "nyxj_size v =
     (case v of Some (VArray fl xs cap) \<Rightarrow> length xs | Some (VObject fl ps) \<Rightarrow> length ps
      | Some (VString fl s) \<Rightarrow> length s | _ \<Rightarrow> 0)"

definition nyxj_type_name :: "nyxj_type \<Rightarrow> string" where
  "nyxj_type_name t =
     (case t of NYXJ_NULL \<Rightarrow> ''null'' | NYXJ_BOOL \<Rightarrow> ''boolean'' | NYXJ_NUMBER \<Rightarrow> ''number''
      | NYXJ_STRING \<Rightarrow> ''string'' | NYXJ_ARRAY \<Rightarrow> ''array'' | NYXJ_OBJECT \<Rightarrow> ''object'')"


subsection \<open>Deep copy and comparison\<close>

text \<open>The items array of a copy, allocated for all of its \<open>n\<close> items at once.\<close>

definition clone_room :: "heap \<Rightarrow> nat \<Rightarrow> bool \<times> nat \<times> heap" where
  "clone_room h n =
     (if 0 < n
      then let cap = nyxj_array_capacity_for n; (ok, h) = malloc h (pointer_bytes * cap) in (ok, cap, h)
      else (True, 0, h))"

fun clone_value :: "heap \<Rightarrow> nyxj_value \<Rightarrow> nyxj_value option \<times> heap"
  and clone_items :: "heap \<Rightarrow> nyxj_value list \<Rightarrow> nyxj_value list option \<times> heap"
  and clone_pairs :: "heap \<Rightarrow> (string \<times> nyxj_value) list \<Rightarrow> (string \<times> nyxj_value) list option \<times> heap"
where
  "clone_value h (VNull fl) = nyxj_new_null h"
| "clone_value h (VBool fl b) = nyxj_new_bool h b"
| "clone_value h (VNumber fl n) = nyxj_new_number h n"
| "clone_value h (VString fl s) = nyxj_new_string h (Some s)"
| "clone_value h (VArray fl xs cap) =
     (case nyxj_new_array h of
        (None, h) \<Rightarrow> (None, h)
      | (Some a, h) \<Rightarrow>
          (let (ok, cap, h) = clone_room h (length xs)
           in if \<not> ok then (None, h)
              else case clone_items h xs of
                (None, h) \<Rightarrow> (None, h)
              | (Some ys, h) \<Rightarrow> (Some (VArray False ys cap), h)))"
| "clone_value h (VObject fl ps) =
     (case nyxj_new_object h of
        (None, h) \<Rightarrow> (None, h)
      | (Some a, h) \<Rightarrow>
          (case clone_pairs h ps of
             (None, h) \<Rightarrow> (None, h)
           | (Some qs, h) \<Rightarrow> (Some (VObject False qs), h)))"
| "clone_items h [] = (Some [], h)"
| "clone_items h (x # xs) =
     (case clone_value h x of
        (None, h) \<Rightarrow> (None, h)
      | (Some y, h) \<Rightarrow>
          (case clone_items h xs of (None, h) \<Rightarrow> (None, h) | (Some ys, h) \<Rightarrow> (Some (y # ys), h)))"
| "clone_pairs h [] = (Some [], h)"
| "clone_pairs h ((k, x) # ps) =
     (let (ok, h) = malloc h pair_bytes
      in if \<not> ok then (None, h)
         else let (k', h) = nyxj_strdup h (Some k); (y, h) = clone_value h x
              in case (k', y) of
                   (Some k', Some y) \<Rightarrow>
                     (case clone_pairs h ps of
                        (None, h) \<Rightarrow> (None, h)
                      | (Some qs, h) \<Rightarrow> (Some ((k', y) # qs), h))
                 | _ \<Rightarrow> (None, h))"

definition nyxj_clone :: "heap \<Rightarrow> nyxj_value option \<Rightarrow> nyxj_value option \<times> heap" where
  "nyxj_clone h v = (case v of None \<Rightarrow> (None, h) | Some v \<Rightarrow> clone_value h v)"

text \<open>Comparison of two values at different addresses.\<close>

fun equals_value :: "nyxj_value \<Rightarrow> nyxj_value \<Rightarrow> bool"
  and equals_items :: "nyxj_value list \<Rightarrow> nyxj_value list \<Rightarrow> bool"
  and equals_members :: "(string \<times> nyxj_value) list \<Rightarrow> nyxj_value \<Rightarrow> bool"
where
  "equals_value (VNull _) b \<longleftrightarrow> value_type b = NYXJ_NULL"
| "equals_value (VBool _ x) b \<longleftrightarrow> (case b of VBool _ y \<Rightarrow> x = y | _ \<Rightarrow> False)"
| "equals_value (VNumber _ x) b \<longleftrightarrow> (case b of VNumber _ y \<Rightarrow> dbl_eq x y | _ \<Rightarrow> False)"
| "equals_value (VString _ x) b \<longleftrightarrow> (case b of VString _ y \<Rightarrow> x = y | _ \<Rightarrow> False)"
| "equals_value (VArray _ xs _) b \<longleftrightarrow>
     (case b of VArray _ ys _ \<Rightarrow> length xs = length ys \<and> equals_items xs ys | _ \<Rightarrow> False)"
| "equals_value (VObject _ ps) b \<longleftrightarrow>
     (case b of VObject _ qs \<Rightarrow> length ps = length qs \<and> equals_members ps b | _ \<Rightarrow> False)"
| "equals_items (x # xs) (y # ys) \<longleftrightarrow> equals_value x y \<and> equals_items xs ys"
| "equals_items xs ys \<longleftrightarrow> True"
| "equals_members [] b \<longleftrightarrow> True"
| "equals_members ((k, x) # ps) b \<longleftrightarrow>
     (case nyxj_get_member (Some b) k of None \<Rightarrow> False | Some y \<Rightarrow> equals_value x y) \<and> equals_members ps b"

text \<open>\<open>same\<close> says whether the two pointers are equal.\<close>

definition nyxj_equals :: "bool \<Rightarrow> nyxj_value option \<Rightarrow> nyxj_value option \<Rightarrow> bool" where
  "nyxj_equals same a b \<longleftrightarrow>
     same \<or> (case (a, b) of (None, None) \<Rightarrow> True | (Some a, Some b) \<Rightarrow> equals_value a b | _ \<Rightarrow> False)"

subsection \<open>Dot paths\<close>

text \<open>The digits of an index; the accumulator is a \<open>long\<close> and stops above \<open>0x7FFFFFFF\<close>.\<close>

fun index_digits :: "string \<Rightarrow> int \<Rightarrow> (int \<times> string) option" where
  "index_digits [] idx = Some (idx, [])"
| "index_digits (c # p) idx =
     (if CHR ''0'' \<le> c \<and> c \<le> CHR ''9''
      then let idx = idx * 10 + (int (byte c) - int (byte (CHR ''0'')))
           in if idx > 0x7FFFFFFF then None else index_digits p idx
      else Some (idx, c # p))"

text \<open>The text after \<open>[\<close>: the index, and what follows \<open>]\<close>.\<close>

definition path_index :: "string \<Rightarrow> (int \<times> string) option" where
  "path_index p =
     (let neg = (p \<noteq> [] \<and> hd p = CHR ''-''); p = (if neg then tl p else p)
      in if p = [] \<or> hd p < CHR ''0'' \<or> CHR ''9'' < hd p then None
         else case index_digits p 0 of
           None \<Rightarrow> None
         | Some (idx, p) \<Rightarrow>
             if p = [] \<or> hd p \<noteq> CHR '']'' then None else Some (if neg then - idx else idx, tl p))"

text \<open>The loop that fills \<open>key[256]\<close>; \<open>n\<close> bytes are in it.\<close>

fun path_key :: "string \<Rightarrow> nat \<Rightarrow> (string \<times> string) option" where
  "path_key [] n = Some ([], [])"
| "path_key (c # p) n =
     (if c = CHR ''.'' \<or> c = CHR ''['' then Some ([], c # p)
      else if n + 1 \<ge> 256 then None
      else map_option (map_prod ((#) c) id) (path_key p (n + 1)))"

definition skip_dot :: "string \<Rightarrow> string" where
  "skip_dot p = (if p \<noteq> [] \<and> hd p = CHR ''.'' then tl p else p)"

lemma index_digits_length: "index_digits p i = Some (j, q) \<Longrightarrow> length q \<le> length p"
  by (induction p i rule: index_digits.induct) (auto simp: Let_def split: if_splits)

lemma path_index_length: "path_index p = Some (j, q) \<Longrightarrow> length q < length p"
  by (cases p) (auto simp: path_index_def Let_def split: if_splits option.splits dest!: index_digits_length)

lemma path_key_length: "path_key p n = Some (k, q) \<Longrightarrow> length q \<le> length p \<and> (q \<noteq> [] \<longrightarrow> hd q = CHR ''.'' \<or> hd q = CHR ''['')"
  by (induction p n arbitrary: k rule: path_key.induct) (auto split: if_splits)

lemma path_key_short: "path_key (c # p) n = Some (k, q) \<Longrightarrow> c \<noteq> CHR ''['' \<Longrightarrow> length (skip_dot q) < length (c # p)"
  by (auto simp: skip_dot_def split: if_splits dest!: path_key_length)

lemma skip_dot_length: "length (skip_dot p) \<le> length p"
  by (simp add: skip_dot_def)

function path_walk :: "nyxj_value option \<Rightarrow> string \<Rightarrow> nyxj_value option" where
  "path_walk cur [] = cur"
| "path_walk cur (c # p) =
     (if cur = None then None
      else if c = CHR ''[''
      then (case path_index p of
              None \<Rightarrow> None
            | Some (i, q) \<Rightarrow> path_walk (nyxj_array_get cur i) (skip_dot q))
      else (case path_key (c # p) 0 of
              None \<Rightarrow> None
            | Some (key, q) \<Rightarrow> path_walk (nyxj_get_member cur key) (skip_dot q)))"
  by pat_completeness auto
termination
proof (relation "measure (\<lambda>(cur, p). length p)", goal_cases)
  case (2 cur c p x i q)
  then show ?case using path_index_length [of p i q] skip_dot_length [of q] by auto
next
  case (3 cur c p x key q)
  then show ?case using path_key_short [of c p 0 key q] by auto
qed auto

definition nyxj_get_path :: "nyxj_value option \<Rightarrow> string option \<Rightarrow> nyxj_value option" where
  "nyxj_get_path root path =
     (case (root, path) of
        (Some v, Some p) \<Rightarrow>
          (let p = (if p \<noteq> [] \<and> hd p = CHR ''$'' then tl p else p) in path_walk root (skip_dot p))
      | _ \<Rightarrow> None)"

definition nyxj_path_string :: "nyxj_value option \<Rightarrow> string option \<Rightarrow> string option \<Rightarrow> string option" where
  "nyxj_path_string root path fallback =
     (case nyxj_get_path root path of Some (VString fl s) \<Rightarrow> Some s | _ \<Rightarrow> fallback)"

definition nyxj_path_number :: "nyxj_value option \<Rightarrow> string option \<Rightarrow> double \<Rightarrow> double" where
  "nyxj_path_number root path fallback =
     (case nyxj_get_path root path of Some (VNumber fl n) \<Rightarrow> n | _ \<Rightarrow> fallback)"

definition nyxj_path_bool :: "nyxj_value option \<Rightarrow> string option \<Rightarrow> bool \<Rightarrow> bool" where
  "nyxj_path_bool root path fallback =
     (case nyxj_get_path root path of Some (VBool fl b) \<Rightarrow> b | _ \<Rightarrow> fallback)"

subsection \<open>The abstract tree\<close>

datatype json =
    JNull
  | JBool bool
  | JNumber double
  | JString string
  | JArray "json list"
  | JObject "(string \<times> json) list"

primrec abs_value :: "nyxj_value \<Rightarrow> json" where
  "abs_value (VNull _) = JNull"
| "abs_value (VBool _ b) = JBool b"
| "abs_value (VNumber _ n) = JNumber n"
| "abs_value (VString _ s) = JString s"
| "abs_value (VArray _ xs _) = JArray (map abs_value xs)"
| "abs_value (VObject _ ps) = JObject (map (map_prod id abs_value) ps)"

text \<open>Every node is on the heap, not in an arena.\<close>

fun heap_owned :: "nyxj_value \<Rightarrow> bool" where
  "heap_owned (VNull fl) \<longleftrightarrow> \<not> fl"
| "heap_owned (VBool fl _) \<longleftrightarrow> \<not> fl"
| "heap_owned (VNumber fl _) \<longleftrightarrow> \<not> fl"
| "heap_owned (VString fl _) \<longleftrightarrow> \<not> fl"
| "heap_owned (VArray fl xs cap) \<longleftrightarrow> \<not> fl \<and> length xs \<le> cap \<and> (\<forall>x \<in> set xs. heap_owned x)"
| "heap_owned (VObject fl ps) \<longleftrightarrow> \<not> fl \<and> (\<forall>(k, v) \<in> set ps. heap_owned v)"

text \<open>Strings and keys hold no NUL.\<close>

fun c_strings :: "nyxj_value \<Rightarrow> bool" where
  "c_strings (VNull _) \<longleftrightarrow> True"
| "c_strings (VBool _ _) \<longleftrightarrow> True"
| "c_strings (VNumber _ _) \<longleftrightarrow> True"
| "c_strings (VString _ s) \<longleftrightarrow> no_nul s"
| "c_strings (VArray _ xs _) \<longleftrightarrow> (\<forall>x \<in> set xs. c_strings x)"
| "c_strings (VObject _ ps) \<longleftrightarrow> (\<forall>(k, v) \<in> set ps. no_nul k \<and> c_strings v)"

text \<open>No number is a NaN and no object has a key twice.\<close>

fun comparable :: "nyxj_value \<Rightarrow> bool" where
  "comparable (VNull _) \<longleftrightarrow> True"
| "comparable (VBool _ _) \<longleftrightarrow> True"
| "comparable (VNumber _ d) \<longleftrightarrow> \<not> dbl_is_nan d"
| "comparable (VString _ s) \<longleftrightarrow> True"
| "comparable (VArray _ xs _) \<longleftrightarrow> (\<forall>x \<in> set xs. comparable x)"
| "comparable (VObject _ ps) \<longleftrightarrow> distinct (map fst ps) \<and> (\<forall>(k, v) \<in> set ps. comparable v)"

end
