(* ===== verification/Errors.thy ===== *)
theory Errors
  imports Prelude
begin

text \<open>
  The error catalogue of \<^verbatim>\<open>src/core/error.c\<close> and the error types of \<^verbatim>\<open>include/nyxj.h\<close>. The codes are ordered
  by their enum value.
\<close>

datatype nyxj_error_code =
    NYXJ_OK
  | NYXJ_ERR_NULL_INPUT
  | NYXJ_ERR_OUT_OF_MEMORY
  | NYXJ_ERR_UNEXPECTED_EOF
  | NYXJ_ERR_UNEXPECTED_CHAR
  | NYXJ_ERR_INVALID_LITERAL
  | NYXJ_ERR_INVALID_NUMBER
  | NYXJ_ERR_INVALID_STRING
  | NYXJ_ERR_INVALID_ESCAPE
  | NYXJ_ERR_INVALID_UNICODE
  | NYXJ_ERR_INVALID_UTF8
  | NYXJ_ERR_CONTROL_CHAR
  | NYXJ_ERR_TRAILING_DATA
  | NYXJ_ERR_DUPLICATE_KEY
  | NYXJ_ERR_DEPTH_LIMIT
  | NYXJ_ERR_SIZE_LIMIT
  | NYXJ_ERR_STRING_LIMIT
  | NYXJ_ERR_ELEMENT_LIMIT
  | NYXJ_ERR_TYPE_MISMATCH
  | NYXJ_ERR_NOT_FOUND
  | NYXJ_ERR_MISSING_FIELD
  | NYXJ_ERR_SCHEMA_VIOLATION
  | NYXJ_ERR_INVALID_SCHEMA
  | NYXJ_ERR_INVALID_QUERY
  | NYXJ_ERR_INVALID_POINTER
  | NYXJ_ERR_PATCH_FAILED
  | NYXJ_ERR_TEST_FAILED
  | NYXJ_ERR_MSGPACK
  | NYXJ_ERR_INTEGRITY
  | NYXJ_ERR_IO
  | NYXJ_ERR_NETWORK
  | NYXJ_ERR_TIMEOUT
  | NYXJ_ERR_TLS
  | NYXJ_ERR_QUEUE_FULL
  | NYXJ_ERR_PLUGIN
  | NYXJ_ERR_UNSUPPORTED
  | NYXJ_ERR_INVALID_ARGUMENT

text \<open>\<open>(int)code\<close>, and the table of names and messages in enum order.\<close>

fun code_num :: "nyxj_error_code \<Rightarrow> nat" where
  "code_num NYXJ_OK = 0"
| "code_num NYXJ_ERR_NULL_INPUT = 1"
| "code_num NYXJ_ERR_OUT_OF_MEMORY = 2"
| "code_num NYXJ_ERR_UNEXPECTED_EOF = 3"
| "code_num NYXJ_ERR_UNEXPECTED_CHAR = 4"
| "code_num NYXJ_ERR_INVALID_LITERAL = 5"
| "code_num NYXJ_ERR_INVALID_NUMBER = 6"
| "code_num NYXJ_ERR_INVALID_STRING = 7"
| "code_num NYXJ_ERR_INVALID_ESCAPE = 8"
| "code_num NYXJ_ERR_INVALID_UNICODE = 9"
| "code_num NYXJ_ERR_INVALID_UTF8 = 10"
| "code_num NYXJ_ERR_CONTROL_CHAR = 11"
| "code_num NYXJ_ERR_TRAILING_DATA = 12"
| "code_num NYXJ_ERR_DUPLICATE_KEY = 13"
| "code_num NYXJ_ERR_DEPTH_LIMIT = 14"
| "code_num NYXJ_ERR_SIZE_LIMIT = 15"
| "code_num NYXJ_ERR_STRING_LIMIT = 16"
| "code_num NYXJ_ERR_ELEMENT_LIMIT = 17"
| "code_num NYXJ_ERR_TYPE_MISMATCH = 18"
| "code_num NYXJ_ERR_NOT_FOUND = 19"
| "code_num NYXJ_ERR_MISSING_FIELD = 20"
| "code_num NYXJ_ERR_SCHEMA_VIOLATION = 21"
| "code_num NYXJ_ERR_INVALID_SCHEMA = 22"
| "code_num NYXJ_ERR_INVALID_QUERY = 23"
| "code_num NYXJ_ERR_INVALID_POINTER = 24"
| "code_num NYXJ_ERR_PATCH_FAILED = 25"
| "code_num NYXJ_ERR_TEST_FAILED = 26"
| "code_num NYXJ_ERR_MSGPACK = 27"
| "code_num NYXJ_ERR_INTEGRITY = 28"
| "code_num NYXJ_ERR_IO = 29"
| "code_num NYXJ_ERR_NETWORK = 30"
| "code_num NYXJ_ERR_TIMEOUT = 31"
| "code_num NYXJ_ERR_TLS = 32"
| "code_num NYXJ_ERR_QUEUE_FULL = 33"
| "code_num NYXJ_ERR_PLUGIN = 34"
| "code_num NYXJ_ERR_UNSUPPORTED = 35"
| "code_num NYXJ_ERR_INVALID_ARGUMENT = 36"

definition error_table :: "(string \<times> string) list" where
  "error_table =
    [(''OK'', ''success''),
     (''NULL_INPUT'', ''input is NULL''),
     (''OUT_OF_MEMORY'', ''out of memory''),
     (''UNEXPECTED_EOF'', ''unexpected end of input''),
     (''UNEXPECTED_CHAR'', ''unexpected character''),
     (''INVALID_LITERAL'', ''invalid literal (expected true, false or null)''),
     (''INVALID_NUMBER'', ''invalid number''),
     (''INVALID_STRING'', ''invalid or unterminated string''),
     (''INVALID_ESCAPE'', ''invalid escape sequence''),
     (''INVALID_UNICODE'', ''invalid '' @ CHR 0x5C # ''u escape or surrogate pair''),
     (''INVALID_UTF8'', ''invalid UTF-8 byte sequence''),
     (''CONTROL_CHAR'', ''unescaped control character in string''),
     (''TRAILING_DATA'', ''unexpected data after the JSON value''),
     (''DUPLICATE_KEY'', ''duplicate object key''),
     (''DEPTH_LIMIT'', ''maximum nesting depth exceeded''),
     (''SIZE_LIMIT'', ''input exceeds the maximum allowed size''),
     (''STRING_LIMIT'', ''string exceeds the maximum allowed length''),
     (''ELEMENT_LIMIT'', ''container exceeds the maximum number of elements''),
     (''TYPE_MISMATCH'', ''value has an unexpected type''),
     (''NOT_FOUND'', ''value not found''),
     (''MISSING_FIELD'', ''required field is missing''),
     (''SCHEMA_VIOLATION'', ''document does not match the schema''),
     (''INVALID_SCHEMA'', ''invalid schema''),
     (''INVALID_QUERY'', ''invalid query expression''),
     (''INVALID_POINTER'', ''invalid JSON pointer''),
     (''PATCH_FAILED'', ''patch operation failed''),
     (''TEST_FAILED'', ''patch test operation failed''),
     (''MSGPACK'', ''invalid MessagePack data''),
     (''INTEGRITY'', ''integrity check failed (shadow execution mismatch)''),
     (''IO'', ''input/output error''),
     (''NETWORK'', ''network error''),
     (''TIMEOUT'', ''operation timed out''),
     (''TLS'', ''TLS error''),
     (''QUEUE_FULL'', ''work queue is full''),
     (''PLUGIN'', ''plugin error''),
     (''UNSUPPORTED'', ''operation not supported on this platform''),
     (''INVALID_ARGUMENT'', ''invalid argument'')]"

definition error_count :: nat where
  "error_count = 37"

text \<open>The accessors take any C \<open>int\<close> that is passed for a code.\<close>

definition strerror_int :: "int \<Rightarrow> string" where
  "strerror_int i =
     (if i < 0 \<or> int error_count \<le> i then ''unknown error'' else snd (error_table ! nat i))"

definition error_name_int :: "int \<Rightarrow> string" where
  "error_name_int i =
     (if i < 0 \<or> int error_count \<le> i then ''UNKNOWN'' else fst (error_table ! nat i))"

definition nyxj_strerror :: "nyxj_error_code \<Rightarrow> string" where
  "nyxj_strerror c = strerror_int (int (code_num c))"

definition nyxj_error_name :: "nyxj_error_code \<Rightarrow> string" where
  "nyxj_error_name c = error_name_int (int (code_num c))"

record nyxj_error =
  code :: nyxj_error_code
  offset :: nat
  line :: nat
  column :: nat
  message :: string

definition no_error :: nyxj_error where
  "no_error = \<lparr>code = NYXJ_OK, offset = 0, line = 0, column = 0, message = []\<rparr>"

text \<open>\<open>nyxj_error_clear\<close> and \<open>nyxj_error_set\<close>; the format is expanded by the caller, \<open>None\<close> stands for a
  NULL format. The message buffer has 160 bytes.\<close>

definition nyxj_error_clear :: "nyxj_error option \<Rightarrow> nyxj_error option" where
  "nyxj_error_clear err = map_option (\<lambda>_. no_error) err"

definition nyxj_error_set :: "nyxj_error_code \<Rightarrow> string option \<Rightarrow> nyxj_error \<Rightarrow> nyxj_error" where
  "nyxj_error_set c fmt e =
     e\<lparr>code := c,
       message := snprintf 160 (case fmt of None \<Rightarrow> nyxj_strerror c | Some text \<Rightarrow> text)\<rparr>"

instantiation nyxj_error_code :: linorder
begin

definition less_eq_nyxj_error_code :: "nyxj_error_code \<Rightarrow> nyxj_error_code \<Rightarrow> bool" where
  "less_eq_nyxj_error_code a b \<longleftrightarrow> code_num a \<le> code_num b"

definition less_nyxj_error_code :: "nyxj_error_code \<Rightarrow> nyxj_error_code \<Rightarrow> bool" where
  "less_nyxj_error_code a b \<longleftrightarrow> code_num a < code_num b"

instance
proof
  fix a b :: nyxj_error_code
  assume "a \<le> b" "b \<le> a"
  then have eq: "code_num a = code_num b" by (simp add: less_eq_nyxj_error_code_def)
  show "a = b" using eq by (cases a; cases b; simp)
qed (auto simp: less_eq_nyxj_error_code_def less_nyxj_error_code_def)

end

lemma code_num_less: "code_num c < error_count"
  by (cases c) (simp_all add: error_count_def)

lemma length_error_table: "length error_table = error_count"
  by (simp add: error_table_def error_count_def)

lemma code_num_inj: "code_num a = code_num b \<longleftrightarrow> a = b"
  by (metis order_antisym less_eq_nyxj_error_code_def order_refl)

text \<open>No two codes share a name.\<close>

lemma distinct_error_names: "distinct (map fst error_table)"
  unfolding error_table_def by simp

lemma nyxj_error_name_inj: "nyxj_error_name a = nyxj_error_name b \<longleftrightarrow> a = b"
proof
  assume "nyxj_error_name a = nyxj_error_name b"
  then have "map fst error_table ! code_num a = map fst error_table ! code_num b"
    using code_num_less [of a] code_num_less [of b]
    by (simp add: nyxj_error_name_def error_name_int_def length_error_table)
  then have "code_num a = code_num b"
    by (subst (asm) nth_eq_iff_index_eq [OF distinct_error_names])
      (simp_all add: length_error_table code_num_less)
  then show "a = b" by (simp add: code_num_inj)
qed simp

lemma length_error_message: "length (message (nyxj_error_set c f e)) < 160"
  by (simp add: nyxj_error_set_def length_snprintf)

end
