(* ===== verification/Scan.thy ===== *)
theory Scan
  imports Double_Text Errors
begin

text \<open>
  The byte scanners of \<^verbatim>\<open>src/core/scan.h\<close>: whitespace and string scanning with their SSE2 and NEON
  variants, which the locale \<open>block_scanner\<close> shows to agree with the byte loops, and UTF-8
  validation and encoding, with the well-formed texts as the specification.
\<close>

subsection \<open>Character classes and the scalar loops\<close>

definition nyxj_is_ws :: "char \<Rightarrow> bool" where
  "nyxj_is_ws c \<longleftrightarrow> c = CHR '' '' \<or> c = CHR 0x0A \<or> c = CHR 0x0D \<or> c = CHR 0x09"

definition nyxj_is_digit :: "char \<Rightarrow> bool" where
  "nyxj_is_digit c \<longleftrightarrow> byte (CHR ''0'') \<le> byte c \<and> byte c \<le> byte (CHR ''9'')"

text \<open>The classes of \<^verbatim>\<open>ctype.h\<close>.\<close>

definition isalpha :: "char \<Rightarrow> bool" where
  "isalpha ch \<longleftrightarrow> byte (CHR ''a'') \<le> byte ch \<and> byte ch \<le> byte (CHR ''z'') \<or> byte (CHR ''A'') \<le> byte ch \<and> byte ch \<le> byte (CHR ''Z'')"

definition isalnum :: "char \<Rightarrow> bool" where
  "isalnum ch \<longleftrightarrow> isalpha ch \<or> nyxj_is_digit ch"

definition is_special :: "char \<Rightarrow> bool" where
  "is_special c \<longleftrightarrow> c = CHR 0x22 \<or> c = CHR 0x5C \<or> byte c < 0x20"

fun scan_ws_scalar :: "bytes \<Rightarrow> bytes" where
  "scan_ws_scalar [] = []"
| "scan_ws_scalar (c # p) = (if nyxj_is_ws c then scan_ws_scalar p else c # p)"

fun scan_special_scalar :: "bytes \<Rightarrow> bytes" where
  "scan_special_scalar [] = []"
| "scan_special_scalar (c # p) = (if is_special c then c # p else scan_special_scalar p)"

subsection \<open>The vector instructions\<close>

text \<open>A 128-bit register holds 16 bytes.\<close>

type_synonym vec = "nat list"

definition mm_loadu :: "bytes \<Rightarrow> vec" where
  "mm_loadu p = map of_char (take 16 p)"

definition mm_set1 :: "nat \<Rightarrow> vec" where
  "mm_set1 c = replicate 16 c"

definition mm_cmpeq :: "vec \<Rightarrow> vec \<Rightarrow> vec" where
  "mm_cmpeq a b = map2 (\<lambda>x y. if x = y then 0xFF else 0) a b"

definition mm_or :: "vec \<Rightarrow> vec \<Rightarrow> vec" where
  "mm_or a b = map2 (\<lambda>x y. x OR y) a b"

definition mm_max :: "vec \<Rightarrow> vec \<Rightarrow> vec" where
  "mm_max a b = map2 max a b"

text \<open>\<open>_mm_movemask_epi8\<close> collects the top bits; NEON reduces a register to its least or greatest byte.\<close>

definition mm_movemask :: "vec \<Rightarrow> nat" where
  "mm_movemask v = horner_sum of_bool 2 (map (\<lambda>x. 0x80 \<le> x) v)"

definition vcle :: "vec \<Rightarrow> vec \<Rightarrow> vec" where
  "vcle a b = map2 (\<lambda>x y. if x \<le> y then 0xFF else 0) a b"

definition vminv :: "vec \<Rightarrow> nat" where
  "vminv v = foldr min v 0xFF"

definition vmaxv :: "vec \<Rightarrow> nat" where
  "vmaxv v = foldr max v 0"

text \<open>The number of trailing zero bits; only called on a mask that is not zero.\<close>

fun nyxj_ctz :: "nat \<Rightarrow> nat" where
  "nyxj_ctz x = (if x = 0 \<or> odd x then 0 else Suc (nyxj_ctz (x div 2)))"

declare nyxj_ctz.simps [simp del]

definition ws_vec :: "bytes \<Rightarrow> vec" where
  "ws_vec p =
     (let x = mm_loadu p
      in mm_or (mm_or (mm_cmpeq x (mm_set1 0x20)) (mm_cmpeq x (mm_set1 0x0A)))
               (mm_or (mm_cmpeq x (mm_set1 0x0D)) (mm_cmpeq x (mm_set1 0x09))))"

function scan_ws_sse2 :: "bytes \<Rightarrow> bytes" where
  "scan_ws_sse2 p =
     (if 16 \<le> length p
      then if byte (hd p) > 0x20 then p
           else let mask = mm_movemask (ws_vec p) XOR 0xFFFF
                in if mask \<noteq> 0 then drop (nyxj_ctz mask) p else scan_ws_sse2 (drop 16 p)
      else scan_ws_scalar p)"
  by pat_completeness auto
termination
  by (relation "measure length") auto

function scan_ws_neon :: "bytes \<Rightarrow> bytes" where
  "scan_ws_neon p =
     (if 16 \<le> length p
      then if byte (hd p) > 0x20 then p
           else if vminv (ws_vec p) \<noteq> 0xFF then scan_ws_scalar p
           else scan_ws_neon (drop 16 p)
      else scan_ws_scalar p)"
  by pat_completeness auto
termination
  by (relation "measure length") auto

function scan_special_sse2 :: "bytes \<Rightarrow> bytes" where
  "scan_special_sse2 p =
     (if 16 \<le> length p
      then let x = mm_loadu p;
               m = mm_or (mm_or (mm_cmpeq x (mm_set1 0x22)) (mm_cmpeq x (mm_set1 0x5C)))
                         (mm_cmpeq (mm_max x (mm_set1 0x1F)) (mm_set1 0x1F));
               mask = mm_movemask m
           in if mask \<noteq> 0 then drop (nyxj_ctz mask) p else scan_special_sse2 (drop 16 p)
      else scan_special_scalar p)"
  by pat_completeness auto
termination
  by (relation "measure length") auto

function scan_special_neon :: "bytes \<Rightarrow> bytes" where
  "scan_special_neon p =
     (if 16 \<le> length p
      then let x = mm_loadu p;
               m = mm_or (mm_or (mm_cmpeq x (mm_set1 0x22)) (mm_cmpeq x (mm_set1 0x5C)))
                         (vcle x (mm_set1 0x1F))
           in if vmaxv m \<noteq> 0 then scan_special_scalar p else scan_special_neon (drop 16 p)
      else scan_special_scalar p)"
  by pat_completeness auto
termination
  by (relation "measure length") auto

declare scan_ws_sse2.simps [simp del] scan_ws_neon.simps [simp del]
  scan_special_sse2.simps [simp del] scan_special_neon.simps [simp del]

text \<open>The build selects one of the three.\<close>

datatype simd_backend = Sse2 | Neon | Scalar

definition nyxj_scan_ws :: "simd_backend \<Rightarrow> bytes \<Rightarrow> bytes" where
  "nyxj_scan_ws b p =
     (case b of Sse2 \<Rightarrow> scan_ws_sse2 p | Neon \<Rightarrow> scan_ws_neon p | Scalar \<Rightarrow> scan_ws_scalar p)"

definition nyxj_scan_string_special :: "simd_backend \<Rightarrow> bytes \<Rightarrow> bytes" where
  "nyxj_scan_string_special b p =
     (case b of Sse2 \<Rightarrow> scan_special_sse2 p | Neon \<Rightarrow> scan_special_neon p
      | Scalar \<Rightarrow> scan_special_scalar p)"

subsection \<open>Scanning in blocks agrees with scanning byte by byte\<close>

text \<open>
  What a block scanner for the bytes \<open>stop\<close> promises: a block without such a byte is skipped, a
  block with one ends the scan at the first of them, and fewer than 16 bytes are scanned singly.
\<close>

locale block_scanner =
  fixes stop :: "char \<Rightarrow> bool" and scan :: "bytes \<Rightarrow> bytes"
  assumes skip: "16 \<le> length p \<Longrightarrow> \<forall>i < 16. \<not> stop (p ! i) \<Longrightarrow> scan p = scan (drop 16 p)"
    and hit: "16 \<le> length p \<Longrightarrow> i < 16 \<Longrightarrow> stop (p ! i) \<Longrightarrow> scan p = dropWhile (\<lambda>c. \<not> stop c) p"
    and rest: "length p < 16 \<Longrightarrow> scan p = dropWhile (\<lambda>c. \<not> stop c) p"
begin

lemma scan_dropWhile: "scan p = dropWhile (\<lambda>c. \<not> stop c) p"
proof (induction p rule: length_induct)
  case (1 p)
  show ?case
  proof (cases "16 \<le> length p \<and> (\<forall>i < 16. \<not> stop (p ! i))")
    case True
    then have "\<forall>c \<in> set (take 16 p). \<not> stop c" by (auto simp: in_set_conv_nth)
    then have "dropWhile (\<lambda>c. \<not> stop c) (take 16 p @ drop 16 p) = dropWhile (\<lambda>c. \<not> stop c) (drop 16 p)"
      by (intro dropWhile_append2) auto
    moreover have "scan (drop 16 p) = dropWhile (\<lambda>c. \<not> stop c) (drop 16 p)"
      using 1 True by auto
    ultimately show ?thesis using skip True by simp
  next
    case False
    then show ?thesis using hit rest by (metis not_less)
  qed
qed

lemma scan_suffix: "suffix (scan p) p"
  by (simp add: scan_dropWhile suffix_dropWhile)

lemma scan_idem: "scan (scan p) = scan p"
  by (simp add: scan_dropWhile)

lemma scan_stops: "scan p = [] \<or> stop (hd (scan p))"
  using hd_dropWhile [of "\<lambda>c. \<not> stop c" p] by (auto simp: scan_dropWhile)

end

lemma scan_ws_scalar_dropWhile: "scan_ws_scalar p = dropWhile nyxj_is_ws p"
  by (induction p) auto

lemma scan_special_scalar_dropWhile: "scan_special_scalar p = dropWhile (\<lambda>c. \<not> is_special c) p"
  by (induction p) auto

lemma length_vec [simp]:
  "length (mm_loadu p) = min (length p) 16" "length (mm_set1 c) = 16"
  "length (mm_cmpeq a b) = min (length a) (length b)" "length (mm_or a b) = min (length a) (length b)"
  "length (mm_max a b) = min (length a) (length b)" "length (vcle a b) = min (length a) (length b)"
  by (simp_all add: mm_loadu_def mm_set1_def mm_cmpeq_def mm_or_def mm_max_def vcle_def)

lemma nth_vec [simp]:
  "i < 16 \<Longrightarrow> i < length p \<Longrightarrow> mm_loadu p ! i = byte (p ! i)"
  "i < 16 \<Longrightarrow> mm_set1 c ! i = c"
  "i < length a \<Longrightarrow> i < length b \<Longrightarrow> mm_cmpeq a b ! i = (if a ! i = b ! i then 0xFF else 0)"
  "i < length a \<Longrightarrow> i < length b \<Longrightarrow> mm_or a b ! i = (a ! i OR b ! i)"
  "i < length a \<Longrightarrow> i < length b \<Longrightarrow> mm_max a b ! i = max (a ! i) (b ! i)"
  "i < length a \<Longrightarrow> i < length b \<Longrightarrow> vcle a b ! i = (if a ! i \<le> b ! i then 0xFF else 0)"
  by (simp_all add: mm_loadu_def mm_set1_def mm_cmpeq_def mm_or_def mm_max_def vcle_def)

lemma bit_movemask: "bit (mm_movemask v) i \<longleftrightarrow> i < length v \<and> 0x80 \<le> v ! i"
  by (auto simp: mm_movemask_def bit_horner_sum_bit_iff)

lemma nyxj_ctz_bit:
  assumes "x \<noteq> 0"
  shows "bit x (nyxj_ctz x)" "\<And>i. i < nyxj_ctz x \<Longrightarrow> \<not> bit x i"
proof -
  have "x \<noteq> 0 \<Longrightarrow> bit x (nyxj_ctz x) \<and> (\<forall>i < nyxj_ctz x. \<not> bit x i)"
  proof (induction x rule: nyxj_ctz.induct)
    case (1 x)
    show ?case
    proof (cases "odd x")
      case True
      then show ?thesis by (subst (1 2) nyxj_ctz.simps) (simp add: bit_0)
    next
      case False
      then have nz: "x div 2 \<noteq> 0" using 1 by auto
      have c: "nyxj_ctz x = Suc (nyxj_ctz (x div 2))"
        using False 1 by (subst nyxj_ctz.simps) auto
      have IH: "bit (x div 2) (nyxj_ctz (x div 2))" "\<forall>i < nyxj_ctz (x div 2). \<not> bit (x div 2) i"
        using 1 False nz by auto
      have "\<not> bit x i" if "i < Suc (nyxj_ctz (x div 2))" for i
        using that IH(2) False by (cases i) (auto simp: bit_0 bit_Suc)
      then show ?thesis using IH(1) unfolding c by (simp add: bit_Suc)
    qed
  qed
  then show "bit x (nyxj_ctz x)" "\<And>i. i < nyxj_ctz x \<Longrightarrow> \<not> bit x i" using assms by auto
qed

lemma dropWhile_first: "i < length p \<Longrightarrow> P (p ! i) \<Longrightarrow> (\<And>j. j < i \<Longrightarrow> \<not> P (p ! j)) \<Longrightarrow>
    dropWhile (\<lambda>c. \<not> P c) p = drop i p"
proof (induction p arbitrary: i)
  case Nil
  then show ?case by simp
next
  case (Cons c p)
  show ?case
  proof (cases i)
    case 0
    then show ?thesis using Cons.prems by simp
  next
    case (Suc k)
    then have "\<not> P c" using Cons.prems(3) [of 0] by simp
    moreover have "dropWhile (\<lambda>c. \<not> P c) p = drop k p"
      using Cons.prems Suc by (intro Cons.IH) (auto, metis Suc_mono nth_Cons_Suc)
    ultimately show ?thesis using Suc by simp
  qed
qed

text \<open>A mask with one bit per stop byte leads to the first stop byte.\<close>

lemma drop_ctz:
  assumes "16 \<le> length p" "\<And>i. bit mk i \<longleftrightarrow> i < 16 \<and> P (p ! i)" "mk \<noteq> 0"
  shows "drop (nyxj_ctz mk) p = dropWhile (\<lambda>c. \<not> P c) p"
proof (rule sym, rule dropWhile_first)
  have "nyxj_ctz mk < 16" using nyxj_ctz_bit(1) [OF assms(3)] assms(2) by blast
  then show "nyxj_ctz mk < length p" using assms(1) by simp
  show "P (p ! nyxj_ctz mk)" using nyxj_ctz_bit(1) [OF assms(3)] assms(2) by blast
  show "\<not> P (p ! j)" if "j < nyxj_ctz mk" for j
    using nyxj_ctz_bit(2) [OF assms(3) that] assms(2) that \<open>nyxj_ctz mk < 16\<close> by auto
qed

lemma mask_zero_iff: "(\<And>i. bit (mk::nat) i \<longleftrightarrow> i < 16 \<and> P i) \<Longrightarrow> mk = 0 \<longleftrightarrow> (\<forall>i < 16. \<not> P i)"
  by (metis bit_0_eq bot_apply bot_bool_def bit_eqI)


text \<open>The two masks of the SSE2 loops.\<close>

lemma bit_ws_vec:
  assumes "16 \<le> length p" "i < 16"
  shows "ws_vec p ! i = (if nyxj_is_ws (p ! i) then 0xFF else 0)"
proof -
  have "byte (p ! i) = 0x20 \<longleftrightarrow> p ! i = CHR '' ''" "byte (p ! i) = 0x0A \<longleftrightarrow> p ! i = CHR 0x0A"
    "byte (p ! i) = 0x0D \<longleftrightarrow> p ! i = CHR 0x0D" "byte (p ! i) = 0x09 \<longleftrightarrow> p ! i = CHR 0x09"
    using byte_inj [of "p ! i" "CHR '' ''"] byte_inj [of "p ! i" "CHR 0x0A"]
      byte_inj [of "p ! i" "CHR 0x0D"] byte_inj [of "p ! i" "CHR 0x09"] by simp_all
  then show ?thesis using assms by (simp add: ws_vec_def Let_def nyxj_is_ws_def)
qed

lemma length_ws_vec: "16 \<le> length p \<Longrightarrow> length (ws_vec p) = 16"
  by (simp add: ws_vec_def Let_def)

lemma bit_16_ones: "bit (0xFFFF :: nat) i \<longleftrightarrow> i < 16"
proof -
  have "(0xFFFF :: nat) = mask 16" by (simp add: mask_eq_exp_minus_1)
  then have "bit (0xFFFF :: nat) i \<longleftrightarrow> bit (mask 16 :: nat) i" by (simp only:)
  then show ?thesis by (simp only: bit_mask_iff) simp
qed

lemma ws_mask:
  assumes "16 \<le> length p"
  shows "bit (mm_movemask (ws_vec p) XOR 0xFFFF) i \<longleftrightarrow> i < 16 \<and> \<not> nyxj_is_ws (p ! i)"
  using assms bit_16_ones [of i] bit_ws_vec [OF assms, of i] length_ws_vec [OF assms]
  by (auto simp: bit_xor_iff bit_movemask)

definition special_sse2 :: "bytes \<Rightarrow> vec" where
  "special_sse2 p =
     (let x = mm_loadu p
      in mm_or (mm_or (mm_cmpeq x (mm_set1 0x22)) (mm_cmpeq x (mm_set1 0x5C)))
               (mm_cmpeq (mm_max x (mm_set1 0x1F)) (mm_set1 0x1F)))"

definition special_neon :: "bytes \<Rightarrow> vec" where
  "special_neon p =
     (let x = mm_loadu p
      in mm_or (mm_or (mm_cmpeq x (mm_set1 0x22)) (mm_cmpeq x (mm_set1 0x5C))) (vcle x (mm_set1 0x1F)))"

lemma special_vec:
  assumes "16 \<le> length p" "i < 16"
  shows "special_sse2 p ! i = (if is_special (p ! i) then 0xFF else 0)"
    and "special_neon p ! i = (if is_special (p ! i) then 0xFF else 0)"
proof -
  have e: "byte (p ! i) = 0x22 \<longleftrightarrow> p ! i = CHR 0x22" "byte (p ! i) = 0x5C \<longleftrightarrow> p ! i = CHR 0x5C"
    using byte_inj [of "p ! i" "CHR 0x22"] byte_inj [of "p ! i" "CHR 0x5C"] by simp_all
  show "special_sse2 p ! i = (if is_special (p ! i) then 0xFF else 0)"
    and "special_neon p ! i = (if is_special (p ! i) then 0xFF else 0)"
    using assms e
    by (auto simp: special_sse2_def special_neon_def Let_def is_special_def max_def)
qed

lemma length_special_vec:
  "16 \<le> length p \<Longrightarrow> length (special_sse2 p) = 16" "16 \<le> length p \<Longrightarrow> length (special_neon p) = 16"
  by (simp_all add: special_sse2_def special_neon_def Let_def)

lemma special_mask:
  assumes "16 \<le> length p"
  shows "bit (mm_movemask (special_sse2 p)) i \<longleftrightarrow> i < 16 \<and> is_special (p ! i)"
  using assms special_vec(1) [OF assms, of i] length_special_vec(1) [OF assms]
  by (auto simp: bit_movemask split: if_splits)

lemma foldr_min_eq: "foldr min v (b::nat) = b \<longleftrightarrow> (\<forall>x \<in> set v. b \<le> x)"
proof -
  have "foldr min v b \<le> b" by (induction v) (auto simp: min.coboundedI2)
  moreover have "b \<le> foldr min v b \<longleftrightarrow> (\<forall>x \<in> set v. b \<le> x)" by (induction v) auto
  ultimately show ?thesis by auto
qed

lemma foldr_max_zero: "foldr max v (0::nat) = 0 \<longleftrightarrow> (\<forall>x \<in> set v. x = 0)"
  by (induction v) (auto simp: max_def)

lemma vminv_ws:
  assumes "16 \<le> length p"
  shows "vminv (ws_vec p) = 0xFF \<longleftrightarrow> (\<forall>i < 16. nyxj_is_ws (p ! i))"
proof -
  have "0xFF \<le> (if b then 0xFF else 0 :: nat) \<longleftrightarrow> b" for b by simp
  then show ?thesis
    by (simp only: vminv_def foldr_min_eq all_set_conv_all_nth length_ws_vec [OF assms] bit_ws_vec [OF assms]
        cong: imp_cong)
qed

lemma vmaxv_special:
  assumes "16 \<le> length p"
  shows "vmaxv (special_neon p) = 0 \<longleftrightarrow> (\<forall>i < 16. \<not> is_special (p ! i))"
proof -
  have "(if b then 0xFF else 0 :: nat) = 0 \<longleftrightarrow> \<not> b" for b by simp
  then show ?thesis
    by (simp only: vmaxv_def foldr_max_zero all_set_conv_all_nth length_special_vec(2) [OF assms]
        special_vec(2) [OF assms] cong: imp_cong)
qed

lemma ws_is_low: "nyxj_is_ws c \<Longrightarrow> byte c \<le> 0x20"
  by (auto simp: nyxj_is_ws_def)

lemma high_head_stops: "p \<noteq> [] \<Longrightarrow> 0x20 < byte (hd p) \<Longrightarrow> dropWhile nyxj_is_ws p = p"
  using ws_is_low [of "hd p"] by (cases p) auto

interpretation ws_sse2: block_scanner "\<lambda>c. \<not> nyxj_is_ws c" scan_ws_sse2
proof
  fix p :: bytes and i :: nat
  show "scan_ws_sse2 p = dropWhile (\<lambda>c. \<not> \<not> nyxj_is_ws c) p" if "length p < 16"
    using that by (subst scan_ws_sse2.simps) (simp add: scan_ws_scalar_dropWhile)
  show "scan_ws_sse2 p = scan_ws_sse2 (drop 16 p)"
    if "16 \<le> length p" "\<forall>i < 16. \<not> \<not> nyxj_is_ws (p ! i)"
  proof -
    have "nyxj_is_ws (p ! 0)" using that(2) by auto
    then have "nyxj_is_ws (hd p)" using that(1) by (cases p) auto
    then have "\<not> 0x20 < byte (hd p)" using ws_is_low by (simp add: not_less)
    moreover have "mm_movemask (ws_vec p) XOR 0xFFFF = 0"
      using that by (subst mask_zero_iff [OF ws_mask]) auto
    ultimately show ?thesis using that(1) by (subst scan_ws_sse2.simps) simp
  qed
  show "scan_ws_sse2 p = dropWhile (\<lambda>c. \<not> \<not> nyxj_is_ws c) p"
    if "16 \<le> length p" "i < 16" "\<not> nyxj_is_ws (p ! i)"
  proof (cases "0x20 < byte (hd p)")
    case True
    then have "dropWhile nyxj_is_ws p = p" using that(1) high_head_stops [of p] by fastforce
    then show ?thesis using True that(1) by (subst scan_ws_sse2.simps) simp
  next
    case False
    have nz: "mm_movemask (ws_vec p) XOR 0xFFFF \<noteq> 0"
      using that by (subst mask_zero_iff [OF ws_mask]) auto
    from drop_ctz [OF that(1) ws_mask [OF that(1)] nz] False nz that(1)
    show ?thesis by (subst scan_ws_sse2.simps) simp
  qed
qed

interpretation ws_neon: block_scanner "\<lambda>c. \<not> nyxj_is_ws c" scan_ws_neon
proof
  fix p :: bytes and i :: nat
  show "scan_ws_neon p = dropWhile (\<lambda>c. \<not> \<not> nyxj_is_ws c) p" if "length p < 16"
    using that by (subst scan_ws_neon.simps) (simp add: scan_ws_scalar_dropWhile)
  show "scan_ws_neon p = scan_ws_neon (drop 16 p)"
    if "16 \<le> length p" "\<forall>i < 16. \<not> \<not> nyxj_is_ws (p ! i)"
  proof -
    have "nyxj_is_ws (p ! 0)" using that(2) by auto
    then have "nyxj_is_ws (hd p)" using that(1) by (cases p) auto
    then have "\<not> 0x20 < byte (hd p)" using ws_is_low by (simp add: not_less)
    then show ?thesis using that by (subst scan_ws_neon.simps) (simp add: vminv_ws)
  qed
  show "scan_ws_neon p = dropWhile (\<lambda>c. \<not> \<not> nyxj_is_ws c) p"
    if "16 \<le> length p" "i < 16" "\<not> nyxj_is_ws (p ! i)"
  proof -
    have "p \<noteq> []" using that(1) by auto
    then show ?thesis using that high_head_stops [of p]
      by (subst scan_ws_neon.simps) (auto simp: vminv_ws scan_ws_scalar_dropWhile)
  qed
qed

interpretation special_sse2: block_scanner is_special scan_special_sse2
proof
  fix p :: bytes and i :: nat
  show "scan_special_sse2 p = dropWhile (\<lambda>c. \<not> is_special c) p" if "length p < 16"
    using that by (subst scan_special_sse2.simps) (simp add: scan_special_scalar_dropWhile)
  have m0: "mm_movemask (special_sse2 p) = 0 \<longleftrightarrow> (\<forall>i < 16. \<not> is_special (p ! i))" if "16 \<le> length p"
    by (rule mask_zero_iff [OF special_mask [OF that]])
  have unfold: "scan_special_sse2 p = (if mm_movemask (special_sse2 p) \<noteq> 0
      then drop (nyxj_ctz (mm_movemask (special_sse2 p))) p else scan_special_sse2 (drop 16 p))"
    if "16 \<le> length p"
    using that by (subst scan_special_sse2.simps) (simp add: special_sse2_def Let_def)
  show "scan_special_sse2 p = scan_special_sse2 (drop 16 p)"
    if "16 \<le> length p" "\<forall>i < 16. \<not> is_special (p ! i)"
    using unfold m0 that by simp
  show "scan_special_sse2 p = dropWhile (\<lambda>c. \<not> is_special c) p"
    if "16 \<le> length p" "i < 16" "is_special (p ! i)"
  proof -
    have nz: "mm_movemask (special_sse2 p) \<noteq> 0" using m0 that by blast
    show ?thesis
      using drop_ctz [OF that(1) special_mask [OF that(1)] nz] nz unfold [OF that(1)] by simp
  qed
qed

interpretation special_neon: block_scanner is_special scan_special_neon
proof
  fix p :: bytes and i :: nat
  show "scan_special_neon p = dropWhile (\<lambda>c. \<not> is_special c) p" if "length p < 16"
    using that by (subst scan_special_neon.simps) (simp add: scan_special_scalar_dropWhile)
  have unfold: "scan_special_neon p = (if vmaxv (special_neon p) \<noteq> 0 then scan_special_scalar p
      else scan_special_neon (drop 16 p))" if "16 \<le> length p"
    using that by (subst scan_special_neon.simps) (simp add: special_neon_def Let_def)
  show "scan_special_neon p = scan_special_neon (drop 16 p)"
    if "16 \<le> length p" "\<forall>i < 16. \<not> is_special (p ! i)"
    using unfold vmaxv_special that by simp
  show "scan_special_neon p = dropWhile (\<lambda>c. \<not> is_special c) p"
    if "16 \<le> length p" "i < 16" "is_special (p ! i)"
    using unfold [OF that(1)] vmaxv_special [OF that(1)] that scan_special_scalar_dropWhile by auto
qed

lemma nyxj_scan_ws_eq: "nyxj_scan_ws b p = dropWhile nyxj_is_ws p"
  using ws_sse2.scan_dropWhile [of p] ws_neon.scan_dropWhile [of p]
  by (cases b) (simp_all add: nyxj_scan_ws_def scan_ws_scalar_dropWhile)

lemma nyxj_scan_string_special_eq: "nyxj_scan_string_special b p = dropWhile (\<lambda>c. \<not> is_special c) p"
  using special_sse2.scan_dropWhile [of p] special_neon.scan_dropWhile [of p]
  by (cases b) (simp_all add: nyxj_scan_string_special_def scan_special_scalar_dropWhile)


subsection \<open>UTF-8\<close>

text \<open>The code point range of a multi-byte sequence: how many bytes follow the first one, and the
  bounds of the second byte.\<close>

definition utf8_need :: "nat \<Rightarrow> (nat \<times> nat \<times> nat) option" where
  "utf8_need c =
     (if 0xC2 \<le> c \<and> c \<le> 0xDF then Some (1, 0x80, 0xBF)
      else if c = 0xE0 then Some (2, 0xA0, 0xBF)
      else if 0xE1 \<le> c \<and> c \<le> 0xEC then Some (2, 0x80, 0xBF)
      else if c = 0xED then Some (2, 0x80, 0x9F)
      else if 0xEE \<le> c \<and> c \<le> 0xEF then Some (2, 0x80, 0xBF)
      else if c = 0xF0 then Some (3, 0x90, 0xBF)
      else if 0xF1 \<le> c \<and> c \<le> 0xF3 then Some (3, 0x80, 0xBF)
      else if c = 0xF4 then Some (3, 0x80, 0x8F)
      else None)"

text \<open>Eight bytes loaded as a little-endian 64-bit word.\<close>

definition load64 :: "bytes \<Rightarrow> 64 word" where
  "load64 s = word_of_nat (horner_sum of_char 256 (take 8 s))"

text \<open>The check of the sequence that starts at \<open>i\<close>: its length, if it is complete and valid.\<close>

definition utf8_seq_at :: "bytes \<Rightarrow> nat \<Rightarrow> nat option" where
  "utf8_seq_at s i =
     (case utf8_need (byte (s ! i)) of
        None \<Rightarrow> None
      | Some (need, lo, hi) \<Rightarrow>
          if length s \<le> i + need then None
          else if byte (s ! (i + 1)) < lo \<or> hi < byte (s ! (i + 1)) then None
          else if \<exists>k \<in> set [2 ..< need + 1]. byte (s ! (i + k)) AND 0xC0 \<noteq> 0x80 then None
          else Some (need + 1))"

function utf8_invalid_from :: "bytes \<Rightarrow> nat \<Rightarrow> nat" where
  "utf8_invalid_from s i =
     (if i < length s
      then if i + 8 \<le> length s \<and> load64 (drop i s) AND 0x8080808080808080 = 0
           then utf8_invalid_from s (i + 8)
           else if byte (s ! i) < 0x80 then utf8_invalid_from s (i + 1)
           else (case utf8_seq_at s i of None \<Rightarrow> i | Some n \<Rightarrow> utf8_invalid_from s (i + Suc (n - 1)))
      else length s)"
  by pat_completeness auto
termination
  by (relation "measure (\<lambda>(s, i). length s - i)") auto

declare utf8_invalid_from.simps [simp del]

definition nyxj_utf8_invalid_at :: "bytes \<Rightarrow> nat" where
  "nyxj_utf8_invalid_at s = utf8_invalid_from s 0"

definition nyxj_utf8_encode :: "nat \<Rightarrow> bytes" where
  "nyxj_utf8_encode cp =
     (if cp < 0x80 then [chr cp]
      else if cp < 0x800 then [chr (0xC0 OR drop_bit 6 cp), chr (0x80 OR (cp AND 0x3F))]
      else if cp < 0x10000
      then [chr (0xE0 OR drop_bit 12 cp), chr (0x80 OR (drop_bit 6 cp AND 0x3F)), chr (0x80 OR (cp AND 0x3F))]
      else [chr (0xF0 OR drop_bit 18 cp), chr (0x80 OR (drop_bit 12 cp AND 0x3F)),
            chr (0x80 OR (drop_bit 6 cp AND 0x3F)), chr (0x80 OR (cp AND 0x3F))])"

text \<open>Specification: well-formed UTF-8 is a sequence of encoded scalar values.\<close>

definition is_scalar :: "nat \<Rightarrow> bool" where
  "is_scalar cp \<longleftrightarrow> cp < 0xD800 \<or> (0xE000 \<le> cp \<and> cp < 0x110000)"

definition utf8_text :: "nat list \<Rightarrow> bytes" where
  "utf8_text cps = concat (map nyxj_utf8_encode cps)"

definition valid_utf8 :: "bytes \<Rightarrow> bool" where
  "valid_utf8 s \<longleftrightarrow> (\<exists>cps. list_all is_scalar cps \<and> s = utf8_text cps)"

lemma or_low_bits: "(x::nat) < 2 ^ n \<Longrightarrow> push_bit n a OR x = push_bit n a + x"
proof -
  assume "x < 2 ^ n"
  then have "take_bit n x = x" by (simp add: take_bit_nat_eq_self)
  then have "\<not> bit x m" if "n \<le> m" for m
    using that by (metis bit_take_bit_iff not_less)
  then have "push_bit n a AND x = 0"
    by (intro bit_eqI) (auto simp: bit_and_iff bit_push_bit_iff)
  then show ?thesis by (simp add: disjunctive_add_eq_or)
qed

lemma utf8_or:
  "(x::nat) < 0x40 \<Longrightarrow> 0x80 OR x = 0x80 + x" "x < 0x20 \<Longrightarrow> 0xC0 OR x = 0xC0 + x"
  "x < 0x10 \<Longrightarrow> 0xE0 OR x = 0xE0 + x" "x < 8 \<Longrightarrow> 0xF0 OR x = 0xF0 + x"
  using or_low_bits [of x 6 2] or_low_bits [of x 5 6] or_low_bits [of x 4 14] or_low_bits [of x 3 30]
  by (simp_all add: push_bit_eq_mult)

lemma and_3F: "(x::nat) AND 0x3F = x mod 64"
  using take_bit_eq_mask [of 6 x] by (simp add: mask_eq_exp_minus_1 take_bit_eq_mod)

lemma and_C0: "(b::nat) < 256 \<Longrightarrow> b AND 0xC0 = 64 * (b div 64)"
proof -
  assume "b < 256"
  then have d: "drop_bit 6 b < 4" by (simp add: drop_bit_eq_div less_mult_imp_div_less)
  have "b AND push_bit n a = push_bit n (drop_bit n b AND a)" for n a
    by (intro bit_eqI) (auto simp: bit_simps)
  from this [of 6 3] have "b AND push_bit 6 3 = push_bit 6 (drop_bit 6 b AND 3)" .
  also have "drop_bit 6 b AND 3 = take_bit 2 (drop_bit 6 b)"
    by (simp add: take_bit_eq_mask mask_eq_exp_minus_1)
  also have "\<dots> = drop_bit 6 b" using d by (simp add: take_bit_nat_eq_self)
  finally show ?thesis by (simp add: push_bit_eq_mult drop_bit_eq_div)
qed

lemma continuation_byte: "byte c AND 0xC0 \<noteq> 0x80 \<longleftrightarrow> byte c < 0x80 \<or> 0xBF < byte c"
proof -
  have "byte c AND 0xC0 = 64 * (byte c div 64)" by (rule and_C0) simp
  then show ?thesis by simp arith
qed

text \<open>The encoding with the bit operations evaluated.\<close>

lemma nyxj_utf8_encode_arith:
  assumes "cp < 0x110000"
  shows "nyxj_utf8_encode cp =
     (if cp < 0x80 then [chr cp]
      else if cp < 0x800 then [chr (0xC0 + cp div 64), chr (0x80 + cp mod 64)]
      else if cp < 0x10000
      then [chr (0xE0 + cp div 4096), chr (0x80 + cp div 64 mod 64), chr (0x80 + cp mod 64)]
      else [chr (0xF0 + cp div 262144), chr (0x80 + cp div 4096 mod 64),
            chr (0x80 + cp div 64 mod 64), chr (0x80 + cp mod 64)])"
proof -
  have "cp div 64 < 0x20" if "cp < 0x800" using that by (simp add: less_mult_imp_div_less)
  moreover have "cp div 4096 < 0x10" if "cp < 0x10000" using that by (simp add: less_mult_imp_div_less)
  moreover have "cp div 262144 < 8" using assms by (simp add: less_mult_imp_div_less)
  ultimately show ?thesis
    by (simp add: nyxj_utf8_encode_def and_3F drop_bit_eq_div utf8_or)
qed

text \<open>The check of one sequence, on the bytes from its first one.\<close>

definition utf8_head :: "bytes \<Rightarrow> nat option" where
  "utf8_head p = utf8_seq_at p 0"

lemma utf8_seq_at_drop: "i < length s \<Longrightarrow> utf8_seq_at s i = utf8_head (drop i s)"
  by (auto simp: utf8_head_def utf8_seq_at_def less_diff_conv2 split: option.split)


lemma utf8_head_Cons:
  "utf8_head (c # p) =
     (case utf8_need (byte c) of
        None \<Rightarrow> None
      | Some (need, lo, hi) \<Rightarrow>
          if length p < need then None
          else if byte (p ! 0) < lo \<or> hi < byte (p ! 0) then None
          else if \<exists>k \<in> set [1 ..< need]. byte (p ! k) < 0x80 \<or> 0xBF < byte (p ! k) then None
          else Some (Suc need))"
proof -
  have "(\<exists>k \<in> set [2 ..< n + 1]. byte ((c # p) ! (0 + k)) AND 0xC0 \<noteq> 0x80) \<longleftrightarrow>
      (\<exists>k \<in> set [1 ..< n]. byte (p ! k) < 0x80 \<or> 0xBF < byte (p ! k))" for n
  proof -
    have "set [2 ..< n + 1] = Suc ` set [1 ..< n]"
      by (simp only: set_upt image_Suc_atLeastLessThan) (simp add: numeral_2_eq_2)
    then show ?thesis by (simp only: continuation_byte bex_simps(7)) simp
  qed
  then show ?thesis
    by (auto simp: utf8_head_def utf8_seq_at_def split: option.split)
qed

lemma base64_digits: "(y::nat) < 64 \<Longrightarrow> (x * 64 + y) div 64 = x \<and> (x * 64 + y) mod 64 = y"
  by simp

lemma base64_split: "(x::nat) div 4096 = x div 64 div 64" "x div 262144 = x div 64 div 64 div 64"
  by (simp_all add: div_mult2_eq)

text \<open>Case analysis on the first byte.\<close>

lemma utf8_need_cases:
  assumes "utf8_need c = Some (need, lo, hi)"
  obtains "need = 1" "0xC2 \<le> c" "c \<le> 0xDF" "lo = 0x80" "hi = 0xBF"
    | "need = 2" "0xE0 \<le> c" "c \<le> 0xEF" "lo = (if c = 0xE0 then 0xA0 else 0x80)"
      "hi = (if c = 0xED then 0x9F else 0xBF)"
    | "need = 3" "0xF0 \<le> c" "c \<le> 0xF4" "lo = (if c = 0xF0 then 0x90 else 0x80)"
      "hi = (if c = 0xF4 then 0x8F else 0xBF)"
  using assms unfolding utf8_need_def by (auto split: if_splits)

lemma utf8_head_sound:
  assumes "utf8_head p = Some n"
  obtains cp where "is_scalar cp" "0x80 \<le> cp" "p = nyxj_utf8_encode cp @ drop n p"
    "n = length (nyxj_utf8_encode cp)"
proof -
  obtain c q where p: "p = c # q"
    using assms by (cases p) (auto simp: utf8_head_def utf8_seq_at_def split: option.splits if_splits)
  from assms obtain need lo hi where need: "utf8_need (byte c) = Some (need, lo, hi)"
    and len: "need \<le> length q" and snd: "lo \<le> byte (q ! 0)" "byte (q ! 0) \<le> hi"
    and cont: "\<forall>k \<in> set [1 ..< need]. 0x80 \<le> byte (q ! k) \<and> byte (q ! k) \<le> 0xBF"
    and n: "n = Suc need"
    unfolding p utf8_head_Cons by (auto simp: not_less Ball_def split: option.splits if_splits)
  from need show ?thesis
  proof (cases rule: utf8_need_cases)
    case 1
    obtain d r where q: "q = d # r" using len 1 by (cases q) auto
    define cp where "cp = (byte c - 0xC0) * 64 + (byte d - 0x80)"
    have b: "0x80 \<le> byte d" "byte d \<le> 0xBF" using snd 1 q by auto
    have "byte d - 0x80 < 64" using b by simp
    then have "cp div 64 = byte c - 0xC0" "cp mod 64 = byte d - 0x80"
      unfolding cp_def using base64_digits by blast+
    moreover have "0x80 \<le> cp" "cp < 0x800" unfolding cp_def using 1 b by auto
    ultimately have "nyxj_utf8_encode cp = [c, d]" "is_scalar cp" "0x80 \<le> cp"
      using 1 b by (simp_all add: nyxj_utf8_encode_arith is_scalar_def)
    then show ?thesis using that [of cp] n 1 p q by simp
  next
    case 2
    obtain d e r where q: "q = d # e # r" using len 2 by (cases q; cases "tl q") auto
    define cp where "cp = ((byte c - 0xE0) * 64 + (byte d - 0x80)) * 64 + (byte e - 0x80)"
    have b: "lo \<le> byte d" "byte d \<le> hi" "0x80 \<le> byte e" "byte e \<le> 0xBF" using snd cont 2 q by auto
    have lh: "0x80 \<le> lo" "hi \<le> 0xBF" using 2 by auto
    have lt: "byte d - 0x80 < 64" "byte e - 0x80 < 64" using b lh by auto
    have q1: "cp div 64 = (byte c - 0xE0) * 64 + (byte d - 0x80)" and m1: "cp mod 64 = byte e - 0x80"
      unfolding cp_def using base64_digits [OF lt(2)] by blast+
    have d2: "cp div 4096 = byte c - 0xE0" and m2: "cp div 64 mod 64 = byte d - 0x80"
      unfolding base64_split q1 using base64_digits [OF lt(1)] by blast+
    have r: "0x800 \<le> cp" "cp < 0x10000" "cp < 0xD800 \<or> 0xE000 \<le> cp"
      unfolding cp_def using 2 b by (auto split: if_splits) 
    have "nyxj_utf8_encode cp = [c, d, e]" "is_scalar cp" "0x80 \<le> cp"
      using r 2 b lh d2 m2 m1 by (auto simp: nyxj_utf8_encode_arith is_scalar_def)
    then show ?thesis using that [of cp] n 2 p q by simp
  next
    case 3
    obtain d e f r where q: "q = d # e # f # r"
      using len 3 by (cases q; cases "tl q"; cases "tl (tl q)") auto
    define cp where
      "cp = (((byte c - 0xF0) * 64 + (byte d - 0x80)) * 64 + (byte e - 0x80)) * 64 + (byte f - 0x80)"
    have "1 \<in> set [1 ..< need]" "2 \<in> set [1 ..< need]" using 3 by auto
    with cont have "0x80 \<le> byte (q ! 1) \<and> byte (q ! 1) \<le> 0xBF" "0x80 \<le> byte (q ! 2) \<and> byte (q ! 2) \<le> 0xBF"
      by blast+
    then have b: "lo \<le> byte d" "byte d \<le> hi" "0x80 \<le> byte e" "byte e \<le> 0xBF" "0x80 \<le> byte f" "byte f \<le> 0xBF"
      using snd q by auto
    have lh: "0x80 \<le> lo" "hi \<le> 0xBF" using 3 by auto
    have lt: "byte d - 0x80 < 64" "byte e - 0x80 < 64" "byte f - 0x80 < 64" using b lh by auto
    have q1: "cp div 64 = ((byte c - 0xF0) * 64 + (byte d - 0x80)) * 64 + (byte e - 0x80)"
      and m1: "cp mod 64 = byte f - 0x80"
      unfolding cp_def using base64_digits [OF lt(3)] by blast+
    have q2: "cp div 4096 = (byte c - 0xF0) * 64 + (byte d - 0x80)" and m2: "cp div 64 mod 64 = byte e - 0x80"
      unfolding base64_split(1) q1 using base64_digits [OF lt(2)] by blast+
    have "cp div 262144 = cp div 4096 div 64" by (simp add: div_mult2_eq)
    then have q3: "cp div 262144 = byte c - 0xF0" and m3: "cp div 4096 mod 64 = byte d - 0x80"
      unfolding q2 using base64_digits [OF lt(1)] by simp_all
    have r: "0x10000 \<le> cp" "cp < 0x110000"
      unfolding cp_def using 3 b by (auto split: if_splits)
    have "nyxj_utf8_encode cp = [c, d, e, f]" "is_scalar cp" "0x80 \<le> cp"
      using r 3 b lh q3 m3 m2 m1 by (auto simp: nyxj_utf8_encode_arith is_scalar_def)
    then show ?thesis using that [of cp] n 3 p q by simp
  qed
qed

lemma upt_1_2: "set [1 ..< 1] = {}" "set [1 ..< 2] = {1::nat}" "set [1 ..< 3] = {1::nat, 2}"
  "{Suc 0 ..< 2} = {1}" "{Suc 0 ..< 3} = {1, 2}"
  by auto

lemma utf8_head_complete:
  assumes "is_scalar cp" "0x80 \<le> cp"
  shows "utf8_head (nyxj_utf8_encode cp @ q) = Some (length (nyxj_utf8_encode cp))"
proof -
  have small: "cp < 0x110000" using assms by (auto simp: is_scalar_def)
  consider "cp < 0x800" | "0x800 \<le> cp" "cp < 0x10000" | "0x10000 \<le> cp" by linarith
  then show ?thesis
  proof cases
    case 1
    have "2 \<le> cp div 64" "cp div 64 < 32" using 1 assms by auto
    then have "utf8_need (0xC0 + cp div 64) = Some (1, 0x80, 0xBF)" by (simp add: utf8_need_def)
    then show ?thesis using 1 assms small by (simp add: nyxj_utf8_encode_arith utf8_head_Cons upt_1_2)
  next
    case 2
    define a b where "a = cp div 4096" and "b = cp div 64 mod 64"
    have "cp div 64 = cp div 64 div 64 * 64 + cp div 64 mod 64" by simp
    then have ab: "cp div 64 = a * 64 + b" unfolding a_def b_def base64_split .
    have "a < 16" "b < 64" unfolding a_def b_def using 2 by auto
    moreover have "0x20 \<le> cp div 64" "cp div 64 < 0x360 \<or> 0x380 \<le> cp div 64"
      using 2 assms(1) by (auto simp: is_scalar_def)
    then have "a = 0 \<Longrightarrow> 0x20 \<le> b" "a = 13 \<Longrightarrow> b < 0x20" using ab \<open>b < 64\<close> by auto
    moreover have "utf8_need (0xE0 + a) = Some (2, if a = 0 then 0xA0 else 0x80, if a = 13 then 0x9F else 0xBF)"
      using \<open>a < 16\<close> by (auto simp: utf8_need_def)
    moreover have "\<not> 63 < cp mod 64" using mod_less_divisor [of 64 cp] by linarith
    ultimately show ?thesis using 2 assms small
      by (auto simp: nyxj_utf8_encode_arith utf8_head_Cons upt_1_2 simp flip: a_def b_def)
  next
    case 3
    define a b where "a = cp div 262144" and "b = cp div 4096 mod 64"
    have "cp div 4096 = cp div 4096 div 64 * 64 + cp div 4096 mod 64" by simp
    moreover have "cp div 262144 = cp div 4096 div 64" by (simp add: div_mult2_eq)
    ultimately have ab: "cp div 4096 = a * 64 + b" unfolding a_def b_def by simp
    have "a \<le> 4" "b < 64" unfolding a_def b_def using small by auto
    moreover have "0x10 \<le> cp div 4096" "cp div 4096 < 0x110" using 3 small by auto
    then have "a = 0 \<Longrightarrow> 0x10 \<le> b" "a = 4 \<Longrightarrow> b < 0x10" using ab by auto
    moreover have "utf8_need (0xF0 + a) = Some (3, if a = 0 then 0x90 else 0x80, if a = 4 then 0x8F else 0xBF)"
      using \<open>a \<le> 4\<close> by (auto simp: utf8_need_def)
    moreover have "\<not> 63 < cp mod 64" "\<not> 63 < cp div 64 mod 64"
      using mod_less_divisor [of 64 cp] mod_less_divisor [of 64 "cp div 64"] by linarith+
    ultimately show ?thesis using 3 assms small
      by (auto simp: nyxj_utf8_encode_arith utf8_head_Cons upt_1_2 simp flip: a_def b_def)
  qed
qed

lemma nyxj_utf8_encode_length: "0 < length (nyxj_utf8_encode cp)" "length (nyxj_utf8_encode cp) \<le> 4"
  by (auto simp: nyxj_utf8_encode_def)

text \<open>The eight-byte step passes only ASCII.\<close>

lemma bit_byte_add: "x < 256 \<Longrightarrow> bit (x + 256 * y) (n + 8) = bit (y::nat) n"
  by (simp add: bit_iff_odd power_add div_mult2_eq mult.commute [of _ 256])

lemma bit_horner:
  "k < length cs \<Longrightarrow> bit (horner_sum of_char (256::nat) cs) (8 * k + 7) = bit (byte (cs ! k)) 7"
proof (induction cs arbitrary: k)
  case Nil
  then show ?case by simp
next
  case (Cons c cs)
  show ?case
  proof (cases k)
    case 0
    have "(byte c + 256 * y) div 128 mod 2 = byte c div 128 mod 2" for y
    proof -
      have "(byte c + 256 * y) div 128 = byte c div 128 + 2 * y" by simp
      then show ?thesis by simp
    qed
    then show ?thesis using 0 by (simp add: bit_iff_odd odd_iff_mod_2_eq_one)
  next
    case (Suc j)
    have "bit (byte c + 256 * horner_sum of_char 256 cs) (8 * j + 7 + 8) = bit (horner_sum of_char (256::nat) cs) (8 * j + 7)"
      by (rule bit_byte_add) simp
    then show ?thesis using Suc Cons by (simp add: algebra_simps)
  qed
qed

lemma bit_7_byte: "bit (byte c) 7 \<longleftrightarrow> 0x80 \<le> byte c"
proof -
  have "bit (byte c) 7 \<longleftrightarrow> odd (byte c div 128)" using bit_iff_odd [of "byte c" 7] by simp
  moreover have "byte c div 128 = (if 0x80 \<le> byte c then 1 else 0)"
    using byte_less [of c] by (auto intro!: div_nat_eqI)
  ultimately show ?thesis by simp
qed

lemma load64_ascii:
  assumes "8 \<le> length s" "load64 s AND 0x8080808080808080 = 0" "k < 8"
  shows "byte (s ! k) < 0x80"
proof -
  have "bit (0x8080808080808080 :: 64 word) (8 * k + 7)"
  proof -
    have "k \<in> {0, 1, 2, 3, 4, 5, 6, 7}" using assms(3) by auto
    then show ?thesis by auto
  qed
  moreover have "\<not> bit (load64 s AND 0x8080808080808080) (8 * k + 7)" using assms(2) by simp
  ultimately have "\<not> bit (load64 s) (8 * k + 7)" by (simp add: bit_and_iff)
  then have "\<not> bit (horner_sum of_char (256::nat) (take 8 s)) (8 * k + 7)"
    using assms(3) by (simp add: load64_def bit_of_nat_iff)
  then show ?thesis using bit_horner [of k "take 8 s"] assms bit_7_byte [of "s ! k"] by simp
qed

text \<open>The encodings of scalar values are a prefix code.\<close>

lemma hd_nyxj_utf8_encode:
  "is_scalar cp \<Longrightarrow> byte (hd (nyxj_utf8_encode cp @ q)) < 0x80 \<longleftrightarrow> cp < 0x80"
  using utf8_head_complete [of cp "[]"]
  by (cases "cp < 0x80")
    (auto simp: nyxj_utf8_encode_arith is_scalar_def less_mult_imp_div_less not_less)

lemma utf8_encode_prefix_free:
  assumes "is_scalar cp" "is_scalar cp'" "nyxj_utf8_encode cp @ q = nyxj_utf8_encode cp' @ q'"
  shows "nyxj_utf8_encode cp = nyxj_utf8_encode cp' \<and> q = q'"
proof (cases "cp < 0x80")
  case True
  then have "cp' < 0x80" using hd_nyxj_utf8_encode assms by metis
  then show ?thesis using True assms(3) by (simp add: nyxj_utf8_encode_def)
next
  case False
  then have "\<not> cp' < 0x80" using hd_nyxj_utf8_encode assms by metis
  then have "length (nyxj_utf8_encode cp) = length (nyxj_utf8_encode cp')"
    using utf8_head_complete [OF assms(1), of q] utf8_head_complete [OF assms(2), of q'] False assms(3)
    by simp
  then show ?thesis using assms(3) by simp
qed

lemma valid_utf8_Nil [simp]: "valid_utf8 []"
  by (auto simp: valid_utf8_def utf8_text_def intro: exI [of _ "[]"])

lemma valid_utf8_encode: "is_scalar cp \<Longrightarrow> valid_utf8 (nyxj_utf8_encode cp)"
  by (auto simp: valid_utf8_def utf8_text_def intro: exI [of _ "[cp]"])

lemma valid_utf8_append: "valid_utf8 a \<Longrightarrow> valid_utf8 b \<Longrightarrow> valid_utf8 (a @ b)"
  unfolding valid_utf8_def utf8_text_def
  by (metis concat_append list_all_append map_append)

lemma valid_utf8_ascii: "\<forall>c \<in> set s. byte c < 0x80 \<Longrightarrow> valid_utf8 s"
proof (induction s)
  case (Cons c s)
  have "valid_utf8 [c]" using valid_utf8_encode [of "byte c"] Cons.prems
    by (simp add: nyxj_utf8_encode_def is_scalar_def)
  then show ?case using Cons valid_utf8_append [of "[c]" s] by simp
qed simp

lemma valid_utf8_cancel: "valid_utf8 (a @ b) \<Longrightarrow> valid_utf8 a \<Longrightarrow> valid_utf8 b"
proof -
  have "\<exists>ds. list_all is_scalar ds \<and> b = utf8_text ds"
    if "list_all is_scalar cs" "list_all is_scalar es" "utf8_text cs @ b = utf8_text es" for cs es
    using that
  proof (induction cs arbitrary: es)
    case Nil
    then show ?case by (auto simp: utf8_text_def)
  next
    case (Cons c cs)
    then obtain e es' where es: "es = e # es'"
      using nyxj_utf8_encode_length(1) [of c] by (cases es) (auto simp: utf8_text_def)
    then have "nyxj_utf8_encode c @ (utf8_text cs @ b) = nyxj_utf8_encode e @ utf8_text es'"
      using Cons.prems(3) by (simp add: utf8_text_def)
    then have "utf8_text cs @ b = utf8_text es'"
      using utf8_encode_prefix_free [of c e] Cons.prems(1,2) es by simp
    then show ?case using Cons.IH [of es'] Cons.prems(1,2) es by simp
  qed
  then show "valid_utf8 (a @ b) \<Longrightarrow> valid_utf8 a \<Longrightarrow> valid_utf8 b"
    unfolding valid_utf8_def by blast
qed

text \<open>The scan stops at the end or where no encoded scalar value starts.\<close>

definition utf8_stuck :: "bytes \<Rightarrow> bool" where
  "utf8_stuck p \<longleftrightarrow> (\<forall>cp. is_scalar cp \<longrightarrow> \<not> prefix (nyxj_utf8_encode cp) p)"

lemma utf8_stuck_head:
  assumes "p \<noteq> []" "\<not> byte (hd p) < 0x80" "utf8_head p = None"
  shows "utf8_stuck p"
  unfolding utf8_stuck_def
proof (intro allI impI notI)
  fix cp assume cp: "is_scalar cp" and "prefix (nyxj_utf8_encode cp) p"
  then obtain q where p: "p = nyxj_utf8_encode cp @ q" by (auto simp: prefix_def)
  then have "\<not> cp < 0x80" using hd_nyxj_utf8_encode [OF cp] assms(2) by simp
  then show False using utf8_head_complete [OF cp, of q] assms(3) p by simp
qed

lemma utf8_stuck_not_valid: "p \<noteq> [] \<Longrightarrow> utf8_stuck p \<Longrightarrow> \<not> valid_utf8 p"
proof
  assume p: "p \<noteq> []" "utf8_stuck p" and "valid_utf8 p"
  then obtain cps where "list_all is_scalar cps" "p = utf8_text cps" by (auto simp: valid_utf8_def)
  then show False using p by (cases cps) (auto simp: utf8_text_def utf8_stuck_def)
qed

lemma utf8_invalid_from_spec:
  "i \<le> length s \<Longrightarrow> i \<le> utf8_invalid_from s i \<and> utf8_invalid_from s i \<le> length s \<and>
     valid_utf8 (take (utf8_invalid_from s i - i) (drop i s)) \<and>
     (utf8_invalid_from s i < length s \<longrightarrow> utf8_stuck (drop (utf8_invalid_from s i) s))"
proof (induction s i rule: utf8_invalid_from.induct)
  case (1 s i)
  have step: "?case" if n: "utf8_invalid_from s i = utf8_invalid_from s (i + n)" "i + n \<le> length s"
    "valid_utf8 (take n (drop i s))" and
    IH: "i + n \<le> utf8_invalid_from s (i + n) \<and> utf8_invalid_from s (i + n) \<le> length s \<and>
     valid_utf8 (take (utf8_invalid_from s (i + n) - (i + n)) (drop (i + n) s)) \<and>
     (utf8_invalid_from s (i + n) < length s \<longrightarrow> utf8_stuck (drop (utf8_invalid_from s (i + n)) s))" for n
  proof -
    obtain k where r: "utf8_invalid_from s (i + n) = i + n + k" using IH le_iff_add by blast
    have "take (n + k) (drop i s) = take n (drop i s) @ take k (drop (i + n) s)"
      using take_add [of n k "drop i s"] by (simp only: drop_drop add.commute [of n i])
    then show ?thesis using IH n r valid_utf8_append by simp
  qed
  show ?case
  proof (cases "i < length s")
    case False
    then show ?thesis using 1 by (subst (1 2 3 4 5) utf8_invalid_from.simps) simp
  next
    case lt: True
    show ?thesis
    proof (cases "i + 8 \<le> length s \<and> load64 (drop i s) AND 0x8080808080808080 = 0")
      case True
      then have "\<forall>c \<in> set (take 8 (drop i s)). byte c < 0x80"
        using load64_ascii [of "drop i s"] by (auto simp: in_set_conv_nth)
      then show ?thesis using True lt 1(1)
        by (intro step [of 8]) (auto simp: utf8_invalid_from.simps [of s i] valid_utf8_ascii)
    next
      case nf: False
      show ?thesis
      proof (cases "byte (s ! i) < 0x80")
        case True
        then have "valid_utf8 (take 1 (drop i s))"
          using lt by (intro valid_utf8_ascii) (auto simp: take_Suc hd_drop_conv_nth)
        then show ?thesis using True lt nf 1(2)
          by (intro step [of 1]) (auto simp: utf8_invalid_from.simps [of s i])
      next
        case hi: False
        have hd: "utf8_seq_at s i = utf8_head (drop i s)" using lt by (rule utf8_seq_at_drop)
        show ?thesis
        proof (cases "utf8_seq_at s i")
          case None
          then have "utf8_stuck (drop i s)"
            using hi hd lt by (intro utf8_stuck_head) (auto simp: hd_drop_conv_nth)
          then show ?thesis using None hi nf lt by (auto simp: utf8_invalid_from.simps [of s i])
        next
          case (Some n)
          then obtain cp where cp: "is_scalar cp" "drop i s = nyxj_utf8_encode cp @ drop n (drop i s)"
            "n = length (nyxj_utf8_encode cp)"
            using utf8_head_sound hd by metis
          have n0: "Suc (n - 1) = n" using cp(3) nyxj_utf8_encode_length(1) [of cp] by simp
          have "take n (drop i s) = nyxj_utf8_encode cp" using cp(2,3) by (metis append_eq_conv_conj)
          moreover have "length (drop i s) = n + length (drop n (drop i s))"
            using cp(2,3) by (metis length_append)
          then have "i + n \<le> length s" using lt by simp
          ultimately show ?thesis using Some hi lt nf 1(3) cp(1) n0
            by (intro step [of n]) (auto simp: utf8_invalid_from.simps [of s i] valid_utf8_encode)
        qed
      qed
    qed
  qed
qed

lemma nyxj_utf8_invalid_at_spec:
  "nyxj_utf8_invalid_at s \<le> length s" "valid_utf8 (take (nyxj_utf8_invalid_at s) s)"
  "nyxj_utf8_invalid_at s < length s \<Longrightarrow> utf8_stuck (drop (nyxj_utf8_invalid_at s) s)"
  using utf8_invalid_from_spec [of 0 s] by (simp_all add: nyxj_utf8_invalid_at_def)

lemma nyxj_utf8_invalid_at_valid: "nyxj_utf8_invalid_at s = length s \<longleftrightarrow> valid_utf8 s"
proof
  show "nyxj_utf8_invalid_at s = length s \<Longrightarrow> valid_utf8 s"
    using nyxj_utf8_invalid_at_spec(2) [of s] by simp
  show "nyxj_utf8_invalid_at s = length s" if v: "valid_utf8 s"
  proof (rule ccontr)
    assume "nyxj_utf8_invalid_at s \<noteq> length s"
    then have lt: "nyxj_utf8_invalid_at s < length s" using nyxj_utf8_invalid_at_spec(1) [of s] by simp
    have "valid_utf8 (drop (nyxj_utf8_invalid_at s) s)"
      using valid_utf8_cancel nyxj_utf8_invalid_at_spec(2) v by (metis append_take_drop_id)
    then show False using utf8_stuck_not_valid nyxj_utf8_invalid_at_spec(3) lt by force
  qed
qed
end
