(* ===== verification/Tokens.thy ===== *)
theory Tokens
  imports Scan
begin

text \<open>
  The tokens of \<^verbatim>\<open>src/core/scan.h\<close>: the number grammar and its conversion to a double, escape decoding,
  and the line and column of an error position. The specifications are \<open>json_number\<close> (a decimal
  token) and \<open>json_escape\<close> (an escape sequence and the bytes it denotes).
\<close>

subsection \<open>Numbers\<close>

fun scan_digits :: "bytes \<Rightarrow> bytes" where
  "scan_digits [] = []"
| "scan_digits (c # p) = (if nyxj_is_digit c then scan_digits p else c # p)"

definition scan_fraction :: "bytes \<Rightarrow> bytes option" where
  "scan_fraction q =
     (case q of [] \<Rightarrow> Some q
      | c # r \<Rightarrow>
          if c = CHR ''.''
          then if r = [] \<or> \<not> nyxj_is_digit (hd r) then None else Some (scan_digits r)
          else Some q)"

definition scan_exponent :: "bytes \<Rightarrow> bytes option" where
  "scan_exponent q =
     (case q of [] \<Rightarrow> Some q
      | c # r \<Rightarrow>
          if c = CHR ''e'' \<or> c = CHR ''E''
          then let r = (if r \<noteq> [] \<and> (hd r = CHR ''+'' \<or> hd r = CHR ''-'') then tl r else r)
               in if r = [] \<or> \<not> nyxj_is_digit (hd r) then None else Some (scan_digits r)
          else Some q)"

definition nyxj_scan_number :: "bytes \<Rightarrow> bytes option" where
  "nyxj_scan_number p =
     (let q = (if p \<noteq> [] \<and> hd p = CHR ''-'' then tl p else p)
      in if q = [] then None
         else if hd q = CHR ''0'' then Option.bind (scan_fraction (tl q)) scan_exponent
         else if byte (CHR ''1'') \<le> byte (hd q) \<and> byte (hd q) \<le> byte (CHR ''9'')
         then Option.bind (scan_fraction (scan_digits q)) scan_exponent
         else None)"

text \<open>The accumulator of the fast path, and where its digits end.\<close>

fun acc_digits :: "64 word \<Rightarrow> bytes \<Rightarrow> 64 word \<times> bytes" where
  "acc_digits acc [] = (acc, [])"
| "acc_digits acc (c # p) =
     (if nyxj_is_digit c then acc_digits (acc * 10 + word_of_nat (byte c - byte (CHR ''0''))) p
      else (acc, c # p))"

definition nyxj_number_value :: "heap \<Rightarrow> bytes \<Rightarrow> double \<times> heap" where
  "nyxj_number_value h p =
     (let neg = (p \<noteq> [] \<and> hd p = CHR ''-''); ds = (if neg then tl p else p);
          (acc, rest) = acc_digits 0 ds
      in if length ds \<le> 15 \<and> rest = []
         then (let d = dbl_of_nat (unat acc) in if neg then dbl_neg d else d, h)
         else if length p < 64 then (fst (strtod (cstr p)), h)
         else let (ok, h) = malloc h (length p + 1)
              in if ok then (fst (strtod (cstr p)), h) else (0, h))"

subsection \<open>Escape sequences\<close>

text \<open>The loop of \<open>nyxj_hex4\<close> over the next \<open>n\<close> bytes.\<close>

fun hex_loop :: "nat \<Rightarrow> bytes \<Rightarrow> int \<Rightarrow> int" where
  "hex_loop 0 p v = v"
| "hex_loop (Suc n) [] v = - 1"
| "hex_loop (Suc n) (c # p) v =
     (let v = v * 16
      in if byte (CHR ''0'') \<le> byte c \<and> byte c \<le> byte (CHR ''9'')
         then hex_loop n p (v OR (int (byte c) - int (byte (CHR ''0''))))
         else if byte (CHR ''a'') \<le> byte c \<and> byte c \<le> byte (CHR ''f'')
         then hex_loop n p (v OR (int (byte c) - int (byte (CHR ''a'')) + 10))
         else if byte (CHR ''A'') \<le> byte c \<and> byte c \<le> byte (CHR ''F'')
         then hex_loop n p (v OR (int (byte c) - int (byte (CHR ''A'')) + 10))
         else - 1)"

definition nyxj_hex4 :: "bytes \<Rightarrow> int" where
  "nyxj_hex4 p = hex_loop 4 p 0"

definition single_escape :: "char \<Rightarrow> char option" where
  "single_escape c =
     (if c = CHR 0x22 then Some (CHR 0x22)
      else if c = CHR 0x5C then Some (CHR 0x5C)
      else if c = CHR ''/'' then Some (CHR ''/'')
      else if c = CHR ''b'' then Some (CHR 0x08)
      else if c = CHR ''f'' then Some (CHR 0x0C)
      else if c = CHR ''n'' then Some (CHR 0x0A)
      else if c = CHR ''r'' then Some (CHR 0x0D)
      else if c = CHR ''t'' then Some (CHR 0x09)
      else None)"

text \<open>The bytes consumed and the bytes written, or the error code.\<close>

definition nyxj_decode_escape :: "bytes \<Rightarrow> nyxj_error_code + nat \<times> bytes" where
  "nyxj_decode_escape p =
     (if length p < 2 then Inl NYXJ_ERR_UNEXPECTED_EOF
      else if p ! 1 \<noteq> CHR ''u''
      then (case single_escape (p ! 1) of
              None \<Rightarrow> Inl NYXJ_ERR_INVALID_ESCAPE
            | Some single \<Rightarrow> Inr (2, [single]))
      else if length p < 6 then Inl NYXJ_ERR_UNEXPECTED_EOF
      else let cp = nyxj_hex4 (drop 2 p)
           in if cp < 0 then Inl NYXJ_ERR_INVALID_UNICODE
              else if 0xD800 \<le> cp \<and> cp \<le> 0xDBFF
              then if length p < 12 \<or> p ! 6 \<noteq> CHR 0x5C \<or> p ! 7 \<noteq> CHR ''u'' then Inl NYXJ_ERR_INVALID_UNICODE
                   else let lo = nyxj_hex4 (drop 8 p)
                        in if lo < 0xDC00 \<or> 0xDFFF < lo then Inl NYXJ_ERR_INVALID_UNICODE
                           else let cp = 0x10000 + push_bit 10 (cp - 0xD800) + (lo - 0xDC00)
                                in Inr (12, nyxj_utf8_encode (nat cp))
              else if 0xDC00 \<le> cp \<and> cp \<le> 0xDFFF then Inl NYXJ_ERR_INVALID_UNICODE
              else Inr (6, nyxj_utf8_encode (nat cp)))"

subsection \<open>Error positions\<close>

fun locate_loop :: "bytes \<Rightarrow> nat \<Rightarrow> nat \<Rightarrow> nat \<times> nat" where
  "locate_loop [] ln col = (ln, col)"
| "locate_loop (c # p) ln col =
     (if c = CHR 0x0A then locate_loop p (ln + 1) 1 else locate_loop p ln (col + 1))"

text \<open>\<open>pos\<close> is a suffix of the input \<open>start\<close>.\<close>

definition nyxj_locate :: "bytes \<Rightarrow> bytes \<Rightarrow> nyxj_error \<Rightarrow> nyxj_error" where
  "nyxj_locate start pos err =
     (let n = length start - length pos; (ln, col) = locate_loop (take n start) 1 1
      in err\<lparr>offset := n, line := ln, column := col\<rparr>)"

subsection \<open>The number grammar\<close>

lemma nyxj_is_digit_eq: "nyxj_is_digit c = is_digit_char c"
  by (simp add: nyxj_is_digit_def is_digit_char_def)

lemma scan_digits_eq: "scan_digits p = dropWhile is_digit_char p"
  by (induction p) (auto simp: nyxj_is_digit_eq)

lemma scan_digits_append: "digits ds \<Longrightarrow> stops_digits q \<Longrightarrow> scan_digits (ds @ q) = q"
  by (induction ds) (cases q; auto simp: nyxj_is_digit_eq stops_digits_def)+

lemma scan_digits_split:
  obtains ds where "p = ds @ scan_digits p" "digits ds" "stops_digits (scan_digits p)"
    "p \<noteq> [] \<and> is_digit_char (hd p) \<longrightarrow> ds \<noteq> []"
proof
  show "p = takeWhile is_digit_char p @ scan_digits p" by (simp add: scan_digits_eq)
  show "digits (takeWhile is_digit_char p)" by (auto simp: digits_def list_all_iff dest: set_takeWhileD)
  show "stops_digits (scan_digits p)"
    using hd_dropWhile [of is_digit_char p] by (auto simp: stops_digits_def scan_digits_eq)
  show "p \<noteq> [] \<and> is_digit_char (hd p) \<longrightarrow> takeWhile is_digit_char p \<noteq> []" by (cases p) auto
qed

text \<open>The bytes after which a number token cannot go on.\<close>

definition number_stop :: "bytes \<Rightarrow> bool" where
  "number_stop q \<longleftrightarrow>
     q = [] \<or> (\<not> is_digit_char (hd q) \<and> hd q \<noteq> CHR ''.'' \<and> hd q \<noteq> CHR ''e'' \<and> hd q \<noteq> CHR ''E'')"

lemma scan_fraction_sound:
  assumes "scan_fraction p = Some q"
  obtains fp where "p = frac_text fp @ q" "digits fp"
proof (cases "p \<noteq> [] \<and> hd p = CHR ''.''")
  case False
  then show ?thesis using assms that [of "[]"]
    by (auto simp: scan_fraction_def frac_text_def split: list.splits if_splits)
next
  case True
  then obtain r where p: "p = CHR ''.'' # r" by (cases p) auto
  then have r: "r \<noteq> []" "is_digit_char (hd r)" "q = scan_digits r"
    using assms(1) by (auto simp: scan_fraction_def nyxj_is_digit_eq split: if_splits)
  obtain ds where "r = ds @ q" "digits ds" "ds \<noteq> []" using scan_digits_split [of r] r by metis
  then show ?thesis using that [of ds] p by (simp add: frac_text_def)
qed

lemma scan_exponent_sound:
  assumes "scan_exponent p = Some q"
  obtains s ex where "p = s @ q" "exp_part s ex"
proof (cases "p \<noteq> [] \<and> (hd p = CHR ''e'' \<or> hd p = CHR ''E'')")
  case False
  then show ?thesis using assms that [of "[]" 0]
    by (auto simp: scan_exponent_def exp_part_def split: list.splits if_splits)
next
  case True
  then obtain c r where p: "p = c # r" and c: "c \<in> {CHR ''e'', CHR ''E''}" by (cases p) auto
  define sg where "sg = (if r \<noteq> [] \<and> (hd r = CHR ''+'' \<or> hd r = CHR ''-'') then [hd r] else [])"
  define u where "u = (if r \<noteq> [] \<and> (hd r = CHR ''+'' \<or> hd r = CHR ''-'') then tl r else r)"
  have r: "r = sg @ u" "sg \<in> {[], ''+'', ''-''}" unfolding sg_def u_def by auto
  have u: "u \<noteq> []" "is_digit_char (hd u)" "q = scan_digits u"
    using assms c by (auto simp: p scan_exponent_def nyxj_is_digit_eq Let_def simp flip: u_def split: if_splits)
  obtain ds where ds: "u = ds @ q" "digits ds" "ds \<noteq> []" using scan_digits_split [of u] u by metis
  have "exp_part (c # sg @ ds) (if sg = ''-'' then - int (dec_val ds) else int (dec_val ds))"
    using c r ds unfolding exp_part_def by blast
  then show ?thesis using that p r ds by simp
qed

lemma nyxj_scan_number_sound:
  assumes "nyxj_scan_number p = Some q"
  obtains tok where "p = tok @ q" "json_number tok"
proof -
  define neg where "neg = (p \<noteq> [] \<and> hd p = CHR ''-'')"
  define r where "r = (if neg then tl p else p)"
  have p: "p = sign_text neg @ r" by (cases p) (auto simp: neg_def r_def sign_text_def)
  have ne: "r \<noteq> []" using assms by (auto simp: nyxj_scan_number_def r_def neg_def Let_def)
  obtain ip q1 where ip: "r = ip @ q1" "json_int ip" "Option.bind (scan_fraction q1) scan_exponent = Some q"
  proof (cases "hd r = CHR ''0''")
    case True
    then show ?thesis using assms ne that [of "''0''" "tl r"]
      by (cases r) (auto simp: nyxj_scan_number_def json_int_def Let_def simp flip: neg_def r_def)
  next
    case False
    then have d: "is_digit_char (hd r)"
      and b: "Option.bind (scan_fraction (scan_digits r)) scan_exponent = Some q"
      using assms ne unfolding nyxj_scan_number_def neg_def [symmetric] r_def [symmetric]
      by (auto simp: is_digit_char_def Let_def split: if_splits)
    obtain ds where ds: "r = ds @ scan_digits r" "digits ds" "ds \<noteq> []"
      using scan_digits_split [of r] ne d by metis
    then have "hd ds = hd r" by (metis hd_append2)
    then have "json_int ds" using ds(2,3) False by (simp add: json_int_def)
    then show ?thesis using that ds(1) b by blast
  qed
  obtain q2 where q2: "scan_fraction q1 = Some q2" "scan_exponent q2 = Some q"
    using ip(3) by (auto simp: bind_eq_Some_conv)
  obtain fp where "q1 = frac_text fp @ q2" "digits fp" using scan_fraction_sound q2(1) by blast
  moreover obtain s ex where "q2 = s @ q" "exp_part s ex" using scan_exponent_sound q2(2) by blast
  ultimately have "number_token neg ip fp s ex (sign_text neg @ ip @ frac_text fp @ s)"
    and "p = (sign_text neg @ ip @ frac_text fp @ s) @ q"
    using ip p by (simp_all add: number_token_def)
  then show ?thesis using that unfolding json_number_def by blast
qed

lemma number_stop_stops: "number_stop q \<Longrightarrow> stops_digits q"
  by (auto simp: number_stop_def stops_digits_def)

lemma scan_fraction_complete:
  assumes "digits fp" "exp_part s ex" "number_stop q"
  shows "scan_fraction (frac_text fp @ s @ q) = Some (s @ q)"
proof (cases "fp = []")
  case True
  then show ?thesis using assms
    by (cases "s @ q") (auto simp: scan_fraction_def frac_text_def exp_part_def number_stop_def split: list.split)
next
  case False
  moreover have "stops_digits (s @ q)"
    using assms number_stop_stops [OF assms(3)] by (auto simp: exp_part_def stops_digits_def)
  ultimately show ?thesis using assms(1) scan_digits_append [OF assms(1)]
    by (cases fp) (auto simp: scan_fraction_def frac_text_def nyxj_is_digit_eq)
qed

lemma scan_exponent_complete:
  assumes "exp_part s ex" "number_stop q"
  shows "scan_exponent (s @ q) = Some q"
proof (cases "s = []")
  case True
  then show ?thesis using assms by (auto simp: scan_exponent_def number_stop_def split: list.split)
next
  case False
  then obtain c sg ds where s: "s = c # sg @ ds" and c: "c \<in> {CHR ''e'', CHR ''E''}"
    and sg: "sg \<in> {[], ''+'', ''-''}" and ds: "ds \<noteq> []" "digits ds"
    using assms(1) by (auto simp: exp_part_def)
  have d: "is_digit_char (hd ds)" using ds by (cases ds) auto
  then have "hd ds \<noteq> CHR ''+''" "hd ds \<noteq> CHR ''-''" by auto
  moreover have "hd (ds @ q) = hd ds" using ds by simp
  ultimately show ?thesis
    using c sg d ds scan_digits_append [OF ds(2) number_stop_stops [OF assms(2)]]
    by (auto simp: scan_exponent_def s nyxj_is_digit_eq Let_def)
qed

lemma json_int_hd:
  assumes "json_int ip"
  shows "ip \<noteq> []" "hd ip \<noteq> CHR ''-''" "is_digit_char (hd ip)"
  using assms by (cases ip; auto simp: json_int_def)+

lemma byte_0: "byte c = 48 \<longleftrightarrow> c = CHR ''0''"
  using byte_inj [of c "CHR ''0''"] by simp

lemma nyxj_scan_number_complete:
  assumes "json_number tok" "number_stop q"
  shows "nyxj_scan_number (tok @ q) = Some q"
proof -
  obtain neg ip fp s ex where tok: "tok = sign_text neg @ ip @ frac_text fp @ s"
    and ip: "json_int ip" and fp: "digits fp" and s: "exp_part s ex"
    using assms(1) by (auto simp: json_number_def number_token_def)
  define r where "r = frac_text fp @ s @ q"
  note hd = json_int_hd [OF ip]
  have rest: "Option.bind (scan_fraction r) scan_exponent = Some q"
    using scan_fraction_complete [OF fp s assms(2)] scan_exponent_complete [OF s assms(2)]
    by (simp add: r_def)
  have body: "(if p \<noteq> [] \<and> hd p = CHR ''-'' then tl p else p) = ip @ r" if "p = tok @ q" for p
    using hd by (cases neg) (auto simp: that tok r_def sign_text_def)
  have stop: "stops_digits r" using fp s number_stop_stops [OF assms(2)]
    by (auto simp: r_def frac_text_def exp_part_def stops_digits_def)
  show ?thesis
  proof (cases "hd ip = CHR ''0''")
    case True
    then show ?thesis using ip hd rest
      unfolding nyxj_scan_number_def body [OF refl] Let_def by (auto simp: json_int_def)
  next
    case False
    then have "byte (CHR ''1'') \<le> byte (hd ip)" "byte (hd ip) \<le> byte (CHR ''9'')"
      using hd(3) byte_0 [of "hd ip"] by (auto simp: is_digit_char_def le_eq_less_or_eq)
    moreover have "scan_digits (ip @ r) = r"
      using ip scan_digits_append stop by (simp add: json_int_def)
    ultimately show ?thesis using False hd rest
      unfolding nyxj_scan_number_def body [OF refl] Let_def by simp
  qed
qed

text \<open>The scan accepts exactly the tokens, where the text goes on with no byte of a number.\<close>

lemma nyxj_scan_number_all: "nyxj_scan_number tok = Some [] \<longleftrightarrow> json_number tok"
proof
  show "nyxj_scan_number tok = Some [] \<Longrightarrow> json_number tok"
    by (metis append_Nil2 nyxj_scan_number_sound)
  show "json_number tok \<Longrightarrow> nyxj_scan_number tok = Some []"
    using nyxj_scan_number_complete [of tok "[]"] by (simp add: number_stop_def)
qed

subsection \<open>The value of a number\<close>

lemma json_number_no_nul: "json_number tok \<Longrightarrow> no_nul tok"
proof -
  have "no_nul ds" if "digits ds" for ds
    using that by (induction ds) (auto simp: is_digit_char_def)
  then show "json_number tok \<Longrightarrow> no_nul tok"
    by (auto simp: json_number_def number_token_def json_int_def sign_text_def frac_text_def exp_part_def NUL_def)
qed

lemma acc_digits_all: "digits ds \<Longrightarrow> acc_digits acc ds = (acc * 10 ^ length ds + word_of_nat (dec_val ds), [])"
proof (induction ds arbitrary: acc)
  case (Cons c ds)
  have "(word_of_nat (dec_val (c # ds)) :: 64 word) =
      word_of_nat (byte c - 48) * 10 ^ length ds + word_of_nat (dec_val ds)"
    by (simp add: dec_val_Cons digit_val_def)
  moreover have "byte c - byte (CHR ''0'') = byte c - 48" by simp
  ultimately show ?case using Cons
    by (simp add: nyxj_is_digit_eq algebra_simps del: of_char_Char)
qed simp

lemma acc_digits_rest: "snd (acc_digits acc ds) = scan_digits ds"
  by (induction ds arbitrary: acc) auto

lemma scan_digits_Nil: "scan_digits ds = [] \<longleftrightarrow> digits ds"
  by (induction ds) (auto simp: nyxj_is_digit_eq)

lemma dbl_neg_of_ratio: "dbl_neg (dbl_of_ratio False n 1) = dbl_of_ratio True n 1"
proof -
  have "ratio_mag n 1 \<le> inf_mag" by (simp add: ratio_mag_def Let_def)
  then have "ratio_mag n 1 < 2 ^ 63" using inf_mag_less by simp
  then show ?thesis by (simp add: dbl_neg_def dbl_of_ratio_def)
qed

lemma fast_path_value:
  assumes "digits ds" "length ds \<le> 15"
  shows "unat (fst (acc_digits 0 ds)) = dec_val ds"
proof -
  have "dec_val ds < 10 ^ length ds" using assms(1) by (simp add: dec_val_less digits_def)
  also have "\<dots> \<le> 10 ^ 15" using assms(2) by (rule power_increasing) simp
  finally have "dec_val ds < 2 ^ 64" by (rule less_trans) simp
  then show ?thesis using acc_digits_all [OF assms(1), of 0] by (simp add: unat_of_nat take_bit_nat_eq_self)
qed

text \<open>The conversion is \<open>strtod\<close>'s, unless a long token finds no memory.\<close>

lemma nyxj_number_value_strtod:
  assumes "json_number tok" "length tok < 64 \<or> fst (malloc h (length tok + 1))"
  shows "fst (nyxj_number_value h tok) = fst (strtod tok)"
proof -
  obtain neg ip fp s ex where t: "number_token neg ip fp s ex tok"
    using assms(1) by (auto simp: json_number_def)
  then have tok: "tok = sign_text neg @ ip @ frac_text fp @ s" and ip: "json_int ip"
    and fp: "digits fp" and s: "exp_part s ex" by (auto simp: number_token_def)
  define ds where "ds = ip @ frac_text fp @ s"
  note hd = json_int_hd [OF ip]
  have neg: "(tok \<noteq> [] \<and> hd tok = CHR ''-'') = neg" "(if neg then tl tok else tok) = ds"
    using hd by (auto simp: tok ds_def sign_text_def)
  have slow: "fst (strtod (cstr tok)) = fst (strtod tok)"
    using json_number_no_nul [OF assms(1)] by simp
  show ?thesis
  proof (cases "length ds \<le> 15 \<and> snd (acc_digits 0 ds) = []")
    case False
    then show ?thesis using slow assms(2)
      unfolding nyxj_number_value_def neg Let_def by (auto split: prod.splits)
  next
    case True
    then have d: "digits ds" by (simp add: acc_digits_rest scan_digits_Nil)
    then have e: "frac_text fp = []" "s = []" using fp s
      by (auto simp: ds_def frac_text_def exp_part_def split: if_splits)
    then have "strtod tok = (dbl_of_ratio neg (dec_val ds) 1, [])"
      using strtod_number_token [OF t] s by (auto simp: ds_def frac_text_def dec_ratio_0 exp_part_def split: if_splits)
    moreover have "fst (nyxj_number_value h tok) =
        (if neg then dbl_neg (dbl_of_nat (dec_val ds)) else dbl_of_nat (dec_val ds))"
      using True fast_path_value [OF d]
      unfolding nyxj_number_value_def neg Let_def by (auto split: prod.splits)
    ultimately show ?thesis by (cases neg) (simp_all only: dbl_of_nat_def dbl_neg_of_ratio fst_conv if_True if_False)
  qed
qed

subsection \<open>The escape grammar\<close>

definition hex_digit :: "char \<Rightarrow> nat option" where
  "hex_digit c =
     (if 48 \<le> byte c \<and> byte c \<le> 57 then Some (byte c - 48)
      else if 97 \<le> byte c \<and> byte c \<le> 102 then Some (byte c - 87)
      else if 65 \<le> byte c \<and> byte c \<le> 70 then Some (byte c - 55)
      else None)"

text \<open>Four hexadecimal digits and the number they denote.\<close>

definition hex_quad :: "bytes \<Rightarrow> nat \<Rightarrow> bool" where
  "hex_quad h v \<longleftrightarrow>
     (\<exists>a b c d w x y z. h = [a, b, c, d] \<and> hex_digit a = Some w \<and> hex_digit b = Some x \<and>
        hex_digit c = Some y \<and> hex_digit d = Some z \<and> v = ((w * 16 + x) * 16 + y) * 16 + z)"

definition high_surrogate :: "nat \<Rightarrow> bool" where
  "high_surrogate v \<longleftrightarrow> 0xD800 \<le> v \<and> v \<le> 0xDBFF"

definition low_surrogate :: "nat \<Rightarrow> bool" where
  "low_surrogate v \<longleftrightarrow> 0xDC00 \<le> v \<and> v \<le> 0xDFFF"

text \<open>Specification: an escape sequence \<open>txt\<close> that denotes the bytes \<open>out\<close>.\<close>

inductive json_escape :: "bytes \<Rightarrow> bytes \<Rightarrow> bool" where
  single: "single_escape c = Some d \<Longrightarrow> json_escape [CHR 0x5C, c] [d]"
| bmp: "hex_quad h v \<Longrightarrow> \<not> high_surrogate v \<Longrightarrow> \<not> low_surrogate v \<Longrightarrow>
    json_escape (CHR 0x5C # CHR ''u'' # h) (nyxj_utf8_encode v)"
| pair: "hex_quad h v \<Longrightarrow> high_surrogate v \<Longrightarrow> hex_quad l w \<Longrightarrow> low_surrogate w \<Longrightarrow>
    json_escape (CHR 0x5C # CHR ''u'' # h @ CHR 0x5C # CHR ''u'' # l)
      (nyxj_utf8_encode (0x10000 + (v - 0xD800) * 1024 + (w - 0xDC00)))"

lemma hex_digit_less: "hex_digit c = Some v \<Longrightarrow> v < 16"
  by (auto simp: hex_digit_def split: if_splits)

lemma hex_quad_props: "hex_quad h v \<Longrightarrow> length h = 4 \<and> v < 0x10000"
  by (auto simp: hex_quad_def dest!: hex_digit_less)

lemma or_hex_digit: "d < 16 \<Longrightarrow> (int v * 16) OR int d = int (v * 16 + d)"
proof -
  assume "d < 16"
  then have "push_bit 4 v OR d = push_bit 4 v + d" by (intro or_low_bits) simp
  then have "int (push_bit 4 v) OR int d = int (push_bit 4 v + d)" by (metis of_nat_or_eq)
  then show ?thesis by (simp add: push_bit_eq_mult)
qed

lemma hex_loop_step:
  "hex_loop (Suc n) (c # p) (int v) =
     (case hex_digit c of None \<Rightarrow> - 1 | Some d \<Rightarrow> hex_loop n p (int (v * 16 + d)))"
proof -
  have "int (byte c) - 48 = int (byte c - 48)" if "48 \<le> byte c" using that by simp
  moreover have "int (byte c) - 97 + 10 = int (byte c - 87)" if "97 \<le> byte c" using that by simp
  moreover have "int (byte c) - 65 + 10 = int (byte c - 55)" if "65 \<le> byte c" using that by simp
  ultimately show ?thesis
    by (auto simp: hex_digit_def Let_def or_hex_digit simp del: of_nat_add of_nat_mult of_nat_diff of_nat_diff_if)
qed

lemma nyxj_hex4_quad:
  "nyxj_hex4 (a # b # c # d # q) =
     (case (hex_digit a, hex_digit b, hex_digit c, hex_digit d) of
        (Some w, Some x, Some y, Some z) \<Rightarrow> int (((w * 16 + x) * 16 + y) * 16 + z)
      | _ \<Rightarrow> - 1)"
proof -
  have four: "4 = Suc (Suc (Suc (Suc 0)))" by simp
  have "nyxj_hex4 (a # b # c # d # q) = hex_loop (Suc (Suc (Suc (Suc 0)))) (a # b # c # d # q) (int 0)"
    unfolding nyxj_hex4_def four by simp
  then show ?thesis
    by (simp only: hex_loop_step hex_loop.simps(1) mult_0 add_0 split: option.split prod.split) simp
qed

lemma nyxj_hex4_append: "hex_quad h v \<Longrightarrow> nyxj_hex4 (h @ q) = int v"
  by (auto simp: hex_quad_def nyxj_hex4_quad)

lemma nyxj_hex4_sound:
  assumes "4 \<le> length p" "0 \<le> nyxj_hex4 p"
  shows "hex_quad (take 4 p) (nat (nyxj_hex4 p))"
proof -
  obtain a b c d q where p: "p = a # b # c # d # q"
    using assms(1) by (metis Suc_le_length_iff numeral_eq_Suc pred_numeral_simps(2,3) semiring_norm(26,27) eval_nat_numeral(2))
  obtain w x y z where "hex_digit a = Some w" "hex_digit b = Some x" "hex_digit c = Some y" "hex_digit d = Some z"
    using assms(2) by (auto simp: p nyxj_hex4_quad split: option.splits)
  then show ?thesis by (auto simp: p hex_quad_def nyxj_hex4_quad simp del: of_nat_add of_nat_mult)
qed

lemma surrogate_pair_scalar:
  assumes "high_surrogate v" "low_surrogate w"
  shows "is_scalar (0x10000 + (v - 0xD800) * 1024 + (w - 0xDC00))"
  using assms by (auto simp: high_surrogate_def low_surrogate_def is_scalar_def)

lemma bmp_scalar: "v < 0x10000 \<Longrightarrow> \<not> high_surrogate v \<Longrightarrow> \<not> low_surrogate v \<Longrightarrow> is_scalar v"
  by (auto simp: high_surrogate_def low_surrogate_def is_scalar_def)

lemma nyxj_decode_escape_complete:
  assumes "json_escape e out"
  shows "nyxj_decode_escape (e @ q) = Inr (length e, out)"
  using assms
proof cases
  case (single c d)
  then have "c \<noteq> CHR ''u''" by (auto simp: single_escape_def)
  then show ?thesis using single by (simp add: nyxj_decode_escape_def)
next
  case (bmp h v)
  note h = hex_quad_props [OF bmp(3)]
  show ?thesis
    using bmp(4,5) h nyxj_hex4_append [OF bmp(3), of q]
    by (auto simp: bmp(1,2) nyxj_decode_escape_def Let_def high_surrogate_def low_surrogate_def)
next
  case (pair h v l w)
  note h = hex_quad_props [OF pair(3)] and l = hex_quad_props [OF pair(5)]
  obtain a b c d where h4: "h = [a, b, c, d]" using pair(3) by (auto simp: hex_quad_def)
  have "nyxj_hex4 (drop 2 (e @ q)) = int v" "nyxj_hex4 (drop 8 (e @ q)) = int w"
    using nyxj_hex4_append [OF pair(3), of "CHR 0x5C # CHR ''u'' # l @ q"] nyxj_hex4_append [OF pair(5), of q]
    by (simp_all add: pair(1) h4)
  moreover have "nat (0x10000 + push_bit 10 (int v - 0xD800) + (int w - 0xDC00)) =
      0x10000 + (v - 0xD800) * 1024 + (w - 0xDC00)"
    using pair(4,6) by (simp add: high_surrogate_def low_surrogate_def push_bit_eq_mult nat_eq_iff of_nat_diff)
  ultimately show ?thesis
    using pair(4,6) h l
    by (auto simp: nyxj_decode_escape_def Let_def pair(1,2) h4 high_surrogate_def low_surrogate_def)
qed

lemma take_10_split: "10 \<le> length q \<Longrightarrow> take 10 q = take 4 q @ q ! 4 # q ! 5 # take 4 (drop 6 q)"
proof -
  assume n: "10 \<le> length q"
  have "drop 4 q = q ! 4 # drop 5 q" "drop 5 q = q ! 5 # drop 6 q"
    using n Cons_nth_drop_Suc [of 4 q] Cons_nth_drop_Suc [of 5 q] by simp_all
  then have "take 6 (drop 4 q) = q ! 4 # q ! 5 # take 4 (drop 6 q)" by (simp add: take_Cons')
  then show ?thesis using take_add [of 4 6 q] by simp
qed

lemma nyxj_decode_escape_sound:
  assumes "nyxj_decode_escape p = Inr (used, out)" "hd p = CHR 0x5C"
  shows "used \<le> length p \<and> json_escape (take used p) out"
proof (cases "p ! 1 = CHR ''u''")
  case False
  then obtain d where d: "2 \<le> length p" "single_escape (p ! 1) = Some d" "used = 2" "out = [d]"
    using assms(1) by (auto simp: nyxj_decode_escape_def split: if_splits option.splits)
  then obtain x q where "p = CHR 0x5C # x # q" using assms(2) by (cases p; cases "tl p") auto
  then show ?thesis using d json_escape.single by simp
next
  case u: True
  then have len: "6 \<le> length p" using assms(1) by (auto simp: nyxj_decode_escape_def not_le split: if_splits)
  then obtain q where p: "p = CHR 0x5C # CHR ''u'' # q" using assms(2) u by (cases p; cases "tl p") auto
  define v where "v = nat (nyxj_hex4 q)"
  have v0: "0 \<le> nyxj_hex4 q" using assms(1) len p by (auto simp: nyxj_decode_escape_def Let_def split: if_splits)
  then have v: "hex_quad (take 4 q) v" "nyxj_hex4 q = int v"
    unfolding v_def using len p by (auto intro: nyxj_hex4_sound)
  show ?thesis
  proof (cases "high_surrogate v")
    case False
    then have "\<not> low_surrogate v" "used = 6" "out = nyxj_utf8_encode v"
      using assms(1) len v(2) p by (auto simp: nyxj_decode_escape_def Let_def high_surrogate_def low_surrogate_def split: if_splits)
    then show ?thesis using json_escape.bmp [OF v(1) False] len p by simp
  next
    case True
    then have b: "12 \<le> length p" "p ! 6 = CHR 0x5C" "p ! 7 = CHR ''u''" "0xDC00 \<le> nyxj_hex4 (drop 8 p)"
      "nyxj_hex4 (drop 8 p) \<le> 0xDFFF" "used = 12"
      "out = nyxj_utf8_encode (nat (0x10000 + push_bit 10 (int v - 0xD800) + (nyxj_hex4 (drop 8 p) - 0xDC00)))"
      using assms(1) len v(2) p
      by (auto simp: nyxj_decode_escape_def Let_def high_surrogate_def not_less split: if_splits)
    define r where "r = drop 8 p"
    define w where "w = nat (nyxj_hex4 r)"
    have w: "hex_quad (take 4 r) w" "nyxj_hex4 r = int w" "low_surrogate w"
      using b unfolding w_def r_def low_surrogate_def by (auto intro: nyxj_hex4_sound)
    have "take 12 p = CHR 0x5C # CHR ''u'' # take 4 q @ CHR 0x5C # CHR ''u'' # take 4 r"
      using take_10_split [of q] b(1,2,3) by (simp add: p r_def)
    moreover have "nat (0x10000 + push_bit 10 (int v - 0xD800) + (int w - 0xDC00)) =
        0x10000 + (v - 0xD800) * 1024 + (w - 0xDC00)"
      using True w(3) by (simp add: high_surrogate_def low_surrogate_def push_bit_eq_mult nat_eq_iff of_nat_diff)
    ultimately show ?thesis
      using json_escape.pair [OF v(1) True w(1,3)] b w(2) by (simp add: r_def)
  qed
qed

text \<open>The decoder accepts exactly the escape sequences.\<close>

lemma nyxj_decode_escape_iff:
  "hd p = CHR 0x5C \<Longrightarrow> nyxj_decode_escape p = Inr (used, out) \<longleftrightarrow>
     used \<le> length p \<and> json_escape (take used p) out"
  using nyxj_decode_escape_sound [of p used out] nyxj_decode_escape_complete [of "take used p" out "drop used p"]
  by auto

lemma json_escape_text:
  assumes "json_escape e out"
  shows "hd e = CHR 0x5C" "2 \<le> length e" "length e \<le> 12" "length out < length e" "0 < length out"
proof -
  have utf: "length (nyxj_utf8_encode v) < 6" for v using nyxj_utf8_encode_length(2) [of v] by simp
  show "hd e = CHR 0x5C" "2 \<le> length e" "length e \<le> 12" "length out < length e" "0 < length out"
    using assms utf nyxj_utf8_encode_length(1)
    by (cases; auto dest!: hex_quad_props simp: less_trans [OF utf] length_greater_0_conv [symmetric] simp del: length_greater_0_conv)+
qed

lemma json_escape_valid:
  assumes "json_escape e out"
  shows "valid_utf8 out"
  using assms
proof cases
  case (single c d)
  then show ?thesis by (auto simp: single_escape_def intro!: valid_utf8_ascii split: if_splits)
next
  case (bmp h v)
  then show ?thesis using bmp_scalar [of v] hex_quad_props [OF bmp(3)] valid_utf8_encode by simp
next
  case (pair h v l w)
  then show ?thesis using surrogate_pair_scalar valid_utf8_encode by simp
qed

lemma nyxj_decode_escape_errors:
  "nyxj_decode_escape p = Inl e \<Longrightarrow>
     e \<in> {NYXJ_ERR_UNEXPECTED_EOF, NYXJ_ERR_INVALID_ESCAPE, NYXJ_ERR_INVALID_UNICODE}"
  by (auto simp: nyxj_decode_escape_def Let_def split: if_splits option.splits)

subsection \<open>Line and column\<close>

lemma locate_loop_eq:
  "locate_loop p ln col =
     (ln + count_list p (CHR 0x0A),
      if CHR 0x0A \<in> set p then Suc (length (takeWhile (\<lambda>c. c \<noteq> CHR 0x0A) (rev p))) else col + length p)"
proof (induction p arbitrary: ln col)
  case (Cons c p)
  have "takeWhile (\<lambda>c. c \<noteq> CHR 0x0A) (rev p) = rev p" if "CHR 0x0A \<notin> set p"
    using that by (subst takeWhile_eq_all_conv) auto
  then show ?case using Cons by (auto simp: takeWhile_tail takeWhile_append)
qed simp

text \<open>The line counts the newlines before the position, the column the bytes since the last one.\<close>

lemma nyxj_locate_position:
  assumes "start = before @ pos"
  shows "offset (nyxj_locate start pos err) = length before"
    "line (nyxj_locate start pos err) = Suc (count_list before (CHR 0x0A))"
    "column (nyxj_locate start pos err) = Suc (length (takeWhile (\<lambda>c. c \<noteq> CHR 0x0A) (rev before)))"
proof -
  have k: "length (takeWhile (\<lambda>c. c \<noteq> CHR 0x0A) (rev before)) = length before"
    if "CHR 0x0A \<notin> set before"
  proof -
    have "takeWhile (\<lambda>c. c \<noteq> CHR 0x0A) (rev before) = rev before"
      using that by (subst takeWhile_eq_all_conv) auto
    then show ?thesis by (simp only: length_rev)
  qed
  have "nyxj_locate start pos err = err\<lparr>offset := length before,
      line := Suc (count_list before (CHR 0x0A)),
      column := Suc (length (takeWhile (\<lambda>c. c \<noteq> CHR 0x0A) (rev before)))\<rparr>"
    using k unfolding nyxj_locate_def assms locate_loop_eq by (simp add: Let_def)
  then show "offset (nyxj_locate start pos err) = length before"
    "line (nyxj_locate start pos err) = Suc (count_list before (CHR 0x0A))"
    "column (nyxj_locate start pos err) = Suc (length (takeWhile (\<lambda>c. c \<noteq> CHR 0x0A) (rev before)))"
    by simp_all
qed

end
