(* ===== verification/Arena.thy ===== *)
theory Arena
  imports Prelude
begin

text \<open>
  The memory pool of \<^verbatim>\<open>src/core/arena.c\<close>. A block has a name and carries its sz and how much of it
  is used; a pointer into the arena is a block's name and an offset from its aligned \<open>data\<close>. Sizes
  are 64-bit words, as \<open>size_t\<close> is. The locale \<open>region_allocator\<close> states that an allocator never hands
  out memory that is taken; the arena satisfies it for requests below
  \<open>2 ^ 63\<close> bytes on a heap that never grants more.
\<close>

type_synonym size_t = "64 word"

record arena_block =
  blk_name :: nat
  blk_size :: size_t
  blk_used :: size_t

text \<open>\<open>blocks\<close> is the list from \<open>head\<close> on; \<open>next_name\<close> names the next block.\<close>

record nyxj_arena =
  blocks :: "arena_block list"
  arena_block_size :: size_t
  arena_used :: size_t
  next_name :: nat

type_synonym arena_ptr = "nat \<times> size_t"

text \<open>The aligned start of the data of a block whose header ends at the address \<open>base\<close>.\<close>

definition block_data :: "size_t \<Rightarrow> size_t" where
  "block_data base = (base + 15) AND NOT 15"

definition block_new :: "heap \<Rightarrow> nat \<Rightarrow> size_t \<Rightarrow> arena_block option \<times> heap" where
  "block_new h name sz =
     (let (ok, h) = malloc h (unat (32 + sz + 15 :: size_t))
      in (if ok then Some \<lparr>blk_name = name, blk_size = sz, blk_used = 0\<rparr> else None, h))"

definition nyxj_arena_create :: "heap \<Rightarrow> size_t \<Rightarrow> nyxj_arena option \<times> heap" where
  "nyxj_arena_create h block_size =
     (let (ok, h) = malloc h 24
      in (if ok
          then Some \<lparr>blocks = [], arena_block_size = (if block_size \<noteq> 0 then block_size else 64 * 1024),
                     arena_used = 0, next_name = 0\<rparr>
          else None, h))"

definition round_size :: "size_t \<Rightarrow> size_t" where
  "round_size sz = (let sz = (sz + 15) AND NOT 15 in if sz = 0 then 16 else sz)"

text \<open>The step that takes the memory from the head block.\<close>

definition arena_bump :: "nyxj_arena \<Rightarrow> size_t \<Rightarrow> arena_ptr option \<times> nyxj_arena" where
  "arena_bump a sz =
     (case blocks a of
        [] \<Rightarrow> (None, a)
      | b # bs \<Rightarrow>
          (Some (blk_name b, blk_used b),
           a\<lparr>blocks := b\<lparr>blk_used := blk_used b + sz\<rparr> # bs, arena_used := arena_used a + sz\<rparr>))"

definition nyxj_arena_alloc :: "heap \<Rightarrow> nyxj_arena \<Rightarrow> size_t \<Rightarrow> arena_ptr option \<times> nyxj_arena \<times> heap" where
  "nyxj_arena_alloc h a sz =
     (let sz = round_size sz
      in if blocks a = [] \<or> blk_size (hd (blocks a)) < blk_used (hd (blocks a)) + sz
         then let bsize = (if arena_block_size a < sz then sz else arena_block_size a);
                  (b, h) = block_new h (next_name a) bsize
              in case b of
                   None \<Rightarrow> (None, a, h)
                 | Some b \<Rightarrow>
                     let (p, a) = arena_bump (a\<lparr>blocks := b # blocks a, next_name := Suc (next_name a)\<rparr>) sz
                     in (p, a, h)
         else let (p, a) = arena_bump a sz in (p, a, h))"

text \<open>The copy is returned with its place.\<close>

definition nyxj_arena_strndup ::
    "heap \<Rightarrow> nyxj_arena \<Rightarrow> bytes \<Rightarrow> size_t \<Rightarrow> (arena_ptr \<times> string) option \<times> nyxj_arena \<times> heap" where
  "nyxj_arena_strndup h a s n =
     (let (p, a, h) = nyxj_arena_alloc h a (n + 1)
      in (map_option (\<lambda>p. (p, cstr (take (unat n) s))) p, a, h))"

definition nyxj_arena_reset :: "nyxj_arena \<Rightarrow> nyxj_arena" where
  "nyxj_arena_reset a =
     a\<lparr>blocks := (case blocks a of [] \<Rightarrow> [] | keep # bs \<Rightarrow> [keep\<lparr>blk_used := 0\<rparr>]), arena_used := 0\<rparr>"

definition nyxj_arena_used :: "nyxj_arena option \<Rightarrow> size_t" where
  "nyxj_arena_used a = (case a of None \<Rightarrow> 0 | Some a \<Rightarrow> arena_used a)"

subsection \<open>Allocators\<close>

text \<open>
  The contract of an allocator of regions: \<open>taken\<close> is the memory in use; what is handed out for \<open>n\<close>
  bytes has room for them, was free, and is taken afterwards. \<open>fits\<close> bounds the requests.
\<close>

locale region_allocator =
  fixes alloc :: "'s \<Rightarrow> nat \<Rightarrow> 'p option \<times> 's"
    and region :: "'p \<Rightarrow> nat \<Rightarrow> 'cell set"
    and taken :: "'s \<Rightarrow> 'cell set"
    and ok :: "'s \<Rightarrow> bool"
    and fits :: "nat \<Rightarrow> bool"
  assumes alloc_ok: "ok s \<Longrightarrow> fits n \<Longrightarrow> alloc s n = (q, s') \<Longrightarrow> ok s'"
    and alloc_fresh: "ok s \<Longrightarrow> fits n \<Longrightarrow> alloc s n = (Some p, s') \<Longrightarrow> region p n \<inter> taken s = {}"
    and alloc_taken: "ok s \<Longrightarrow> fits n \<Longrightarrow> alloc s n = (Some p, s') \<Longrightarrow> region p n \<subseteq> taken s'"
    and alloc_mono: "ok s \<Longrightarrow> fits n \<Longrightarrow> alloc s n = (q, s') \<Longrightarrow> taken s \<subseteq> taken s'"
begin

primrec alloc_all :: "'s \<Rightarrow> nat list \<Rightarrow> ('p \<times> nat) list \<times> 's" where
  "alloc_all s [] = ([], s)"
| "alloc_all s (n # ns) =
     (let (p, s) = alloc s n; (rs, s) = alloc_all s ns
      in ((case p of None \<Rightarrow> rs | Some p \<Rightarrow> (p, n) # rs), s))"

lemma alloc_all_free:
  "ok s \<Longrightarrow> list_all fits ns \<Longrightarrow> (p, n) \<in> set (fst (alloc_all s ns)) \<Longrightarrow> region p n \<inter> taken s = {}"
proof (induction ns arbitrary: s)
  case (Cons m ns)
  obtain q s1 where a: "alloc s m = (q, s1)" by fastforce
  have m: "fits m" "list_all fits ns" using Cons.prems(2) by simp_all
  have s1: "ok s1" "taken s \<subseteq> taken s1"
    using alloc_ok [OF Cons.prems(1) m(1) a] alloc_mono [OF Cons.prems(1) m(1) a] by blast+
  show ?case
  proof (cases "(p, n) \<in> set (fst (alloc_all s1 ns))")
    case True
    then show ?thesis using Cons.IH [OF s1(1) m(2)] s1(2) by blast
  next
    case False
    then have "q = Some p" "m = n" using Cons.prems(3) a by (auto split: option.splits prod.splits)
    then show ?thesis using alloc_fresh a Cons.prems by auto
  qed
qed simp

text \<open>All regions that a sequence of requests returns are pairwise disjoint.\<close>

lemma alloc_all_disjoint:
  "ok s \<Longrightarrow> list_all fits ns \<Longrightarrow>
     sorted_wrt (\<lambda>(p, m) (q, n). region p m \<inter> region q n = {}) (fst (alloc_all s ns))"
proof (induction ns arbitrary: s)
  case (Cons m ns)
  obtain q s1 where a: "alloc s m = (q, s1)" by fastforce
  have s1: "ok s1" using alloc_ok a Cons.prems by auto
  then have IH: "sorted_wrt (\<lambda>(p, m) (q, n). region p m \<inter> region q n = {}) (fst (alloc_all s1 ns))"
    using Cons by simp
  have "region p m \<inter> region r n = {}" if "q = Some p" "(r, n) \<in> set (fst (alloc_all s1 ns))" for p r n
    using alloc_all_free [OF s1 _ that(2)] alloc_taken [of s m p s1] a Cons.prems that(1) by auto
  then have "\<forall>(r, n) \<in> set (fst (alloc_all s1 ns)). region p m \<inter> region r n = {}" if "q = Some p" for p
    using that by blast
  then show ?case using IH a by (auto simp: split_def Let_def split: option.split)
qed simp

end

subsection \<open>The arena is one\<close>

definition region_of :: "arena_ptr \<Rightarrow> nat \<Rightarrow> (nat \<times> nat) set" where
  "region_of p n = {fst p} \<times> {unat (snd p) ..< unat (snd p) + n}"

definition taken_cells :: "nyxj_arena \<Rightarrow> (nat \<times> nat) set" where
  "taken_cells a = (\<Union>b \<in> set (blocks a). {blk_name b} \<times> {0 ..< unat (blk_used b)})"

definition block_ok :: "arena_block \<Rightarrow> bool" where
  "block_ok b \<longleftrightarrow> blk_used b \<le> blk_size b \<and> 16 dvd unat (blk_used b) \<and> unat (blk_size b) < 2 ^ 63"

definition arena_ok :: "nyxj_arena \<Rightarrow> bool" where
  "arena_ok a \<longleftrightarrow>
     list_all block_ok (blocks a) \<and> distinct (map blk_name (blocks a)) \<and>
     (\<forall>b \<in> set (blocks a). blk_name b < next_name a) \<and> unat (arena_block_size a) < 2 ^ 63"

definition size_fits :: "nat \<Rightarrow> bool" where
  "size_fits n \<longleftrightarrow> n \<le> 2 ^ 63 - 16"

text \<open>No \<open>malloc\<close> returns \<open>2 ^ 63\<close> bytes or more.\<close>

definition sane_heap :: "heap \<Rightarrow> bool" where
  "sane_heap h \<longleftrightarrow> (\<forall>k n. grants h k n \<longrightarrow> n < 2 ^ 63)"

lemma and_not_15:
  "unat (w AND NOT 15 :: size_t) = unat w div 16 * 16" "unat (w AND - 16 :: size_t) = unat w div 16 * 16"
proof -
  have "(w AND NOT 15) AND (w AND 15) = 0" by (simp add: bit_eq_iff bit_simps)
  then have "(w AND NOT 15) + (w AND 15) = (w AND NOT 15) OR (w AND 15)" by (rule disjunctive_add_eq_or)
  also have "\<dots> = w" by (simp add: bit_eq_iff bit_simps) blast
  finally have eq: "w AND NOT 15 = w - (w AND 15)" by (simp add: algebra_simps)
  have "w AND 15 = take_bit 4 w" by (simp add: take_bit_eq_mask mask_eq_exp_minus_1)
  then have "unat (w AND 15) = take_bit 4 (unat w)" by (simp only: unsigned_take_bit_eq)
  then have m: "unat (w AND 15) = unat w mod 16" by (simp add: take_bit_eq_mod)
  then have "w AND 15 \<le> w" by (simp add: word_le_nat_alt)
  then have "unat (w - (w AND 15)) = unat w - unat w mod 16" by (simp only: unat_sub m)
  then have "unat (w AND NOT 15) = unat w - unat w mod 16" by (simp only: eq)
  then show "unat (w AND NOT 15 :: size_t) = unat w div 16 * 16"
    by (simp only: minus_mod_eq_div_mult)
  then show "unat (w AND - 16 :: size_t) = unat w div 16 * 16" by simp
qed

lemma round_size_fits:
  assumes "size_fits n"
  shows "n \<le> unat (round_size (word_of_nat n))" "16 dvd unat (round_size (word_of_nat n))"
    "0 < unat (round_size (word_of_nat n))" "unat (round_size (word_of_nat n)) \<le> 2 ^ 63"
proof -
  define w where "w = (word_of_nat n + 15 :: size_t)"
  have "n + 15 < 2 ^ 64" using assms by (simp add: size_fits_def)
  then have "unat w = n + 15" unfolding w_def
    by (simp add: unat_word_ariths unat_of_nat take_bit_nat_eq_self)
  then have r: "unat (w AND NOT 15) = (n + 15) div 16 * 16" by (simp add: and_not_15)
  have e: "round_size (word_of_nat n) = (if w AND NOT 15 = 0 then 16 else w AND NOT 15)"
    by (simp add: round_size_def Let_def w_def)
  have z: "w AND NOT 15 = 0 \<Longrightarrow> n = 0" using r by auto
  show "n \<le> unat (round_size (word_of_nat n))" using r z unfolding e by auto
  show "16 dvd unat (round_size (word_of_nat n))" using r unfolding e by auto
  show "0 < unat (round_size (word_of_nat n))" unfolding e by (auto simp: unat_gt_0)
  have "n + 15 < 2 ^ 63" using assms by (simp add: size_fits_def)
  then show "unat (round_size (word_of_nat n)) \<le> 2 ^ 63" using r unfolding e by auto
qed

text \<open>The data of a block is aligned and lies inside the allocation.\<close>

lemma block_data_aligned:
  assumes "unat base + unat sz + 15 < 2 ^ 64"
  shows "16 dvd unat (block_data base)" "unat base \<le> unat (block_data base)"
    "unat (block_data base) + unat sz \<le> unat base + unat sz + 15"
proof -
  have "unat (base + 15) = unat base + 15" using assms by (simp add: unat_word_ariths)
  then have "unat (block_data base) = (unat base + 15) div 16 * 16" by (simp add: block_data_def and_not_15)
  then show "16 dvd unat (block_data base)" "unat base \<le> unat (block_data base)"
    "unat (block_data base) + unat sz \<le> unat base + unat sz + 15" by auto
qed

text \<open>The room test: the head block can take the bytes without wrap-around.\<close>

lemma arena_bump_ok:
  assumes "arena_ok a" "blocks a \<noteq> []" "16 dvd unat sz"
    "unat (blk_used (hd (blocks a))) + unat sz \<le> unat (blk_size (hd (blocks a)))"
    "arena_bump a sz = (p, a')"
  shows "arena_ok a'" "\<exists>q. p = Some q \<and> region_of q (unat sz) \<inter> taken_cells a = {} \<and>
    taken_cells a' = taken_cells a \<union> region_of q (unat sz) \<and> 16 dvd unat (snd q) \<and>
    unat (snd q) + unat sz \<le> unat (blk_size (hd (blocks a)))"
proof -
  obtain b bs where b: "blocks a = b # bs" using assms(2) by (cases "blocks a") auto
  have a': "a' = a\<lparr>blocks := b\<lparr>blk_used := blk_used b + sz\<rparr> # bs, arena_used := arena_used a + sz\<rparr>"
    and p: "p = Some (blk_name b, blk_used b)"
    using assms(5) by (auto simp: arena_bump_def b)
  have "unat (blk_used b) + unat sz < 2 ^ 64"
    using assms(4) b unsigned_less [of "blk_size b", where 'a = nat] by simp
  then have u: "unat (blk_used b + sz) = unat (blk_used b) + unat sz" by (simp add: unat_word_ariths)
  show "arena_ok a'" using assms(1,3,4) u unfolding a' arena_ok_def
    by (auto simp: b block_ok_def word_le_nat_alt)
  have other: "blk_name c \<noteq> blk_name b" if "c \<in> set bs" for c
    using assms(1) b that by (auto simp: arena_ok_def image_iff)
  have "region_of (blk_name b, blk_used b) (unat sz) \<inter> taken_cells a = {}"
    using other [symmetric] by (auto simp: region_of_def taken_cells_def b dest!: other)
  moreover have "taken_cells a' = taken_cells a \<union> region_of (blk_name b, blk_used b) (unat sz)"
    using u by (auto simp: region_of_def taken_cells_def b a')
  ultimately show "\<exists>q. p = Some q \<and> region_of q (unat sz) \<inter> taken_cells a = {} \<and>
    taken_cells a' = taken_cells a \<union> region_of q (unat sz) \<and> 16 dvd unat (snd q) \<and>
    unat (snd q) + unat sz \<le> unat (blk_size (hd (blocks a)))"
    using assms(1,4) p b by (auto simp: arena_ok_def block_ok_def)
qed

text \<open>An allocation: its place is new, aligned and inside its block.\<close>

definition alloc_cells :: "heap \<times> nyxj_arena \<Rightarrow> nat \<Rightarrow> arena_ptr option \<times> heap \<times> nyxj_arena" where
  "alloc_cells s n =
     (let (p, a, h) = nyxj_arena_alloc (fst s) (snd s) (word_of_nat n) in (p, h, a))"

lemma block_new_sane:
  assumes "sane_heap h" "block_new h nm sz = (Some b, h')" "unat sz \<le> 2 ^ 63"
  shows "b = \<lparr>blk_name = nm, blk_size = sz, blk_used = 0\<rparr>" "unat sz < 2 ^ 63" "sane_heap h'"
proof -
  have "unat (32 + sz + 15) = unat sz + 47"
    using assms(3) by (simp add: unat_word_ariths)
  moreover have "grants h (requests h) (unat (32 + sz + 15))"
    using assms(2) by (auto simp: block_new_def malloc_def split: if_splits)
  ultimately have "unat sz + 47 < 2 ^ 63" using assms(1) unfolding sane_heap_def by metis
  then show "unat sz < 2 ^ 63" by simp
  show "b = \<lparr>blk_name = nm, blk_size = sz, blk_used = 0\<rparr>" "sane_heap h'"
    using assms(1,2) by (auto simp: block_new_def malloc_def sane_heap_def split: if_splits)
qed

lemma nyxj_arena_alloc_spec:
  assumes "sane_heap h" "arena_ok a" "size_fits n" "nyxj_arena_alloc h a (word_of_nat n) = (p, a', h')"
  shows "sane_heap h'" "arena_ok a'"
    "case p of None \<Rightarrow> a' = a
     | Some q \<Rightarrow> region_of q n \<inter> taken_cells a = {} \<and> region_of q n \<subseteq> taken_cells a' \<and>
         taken_cells a \<subseteq> taken_cells a' \<and> 16 dvd unat (snd q) \<and>
         (\<exists>b \<in> set (blocks a'). blk_name b = fst q \<and> unat (snd q) + n \<le> unat (blk_size b))"
proof -
  define sz where "sz = round_size (word_of_nat n)"
  note r = round_size_fits [OF assms(3), folded sz_def]
  have goal: "sane_heap h' \<and> arena_ok a' \<and> (\<exists>q. p = Some q \<and> region_of q n \<inter> taken_cells a = {} \<and>
      region_of q n \<subseteq> taken_cells a' \<and> taken_cells a \<subseteq> taken_cells a' \<and> 16 dvd unat (snd q) \<and>
      (\<exists>b \<in> set (blocks a'). blk_name b = fst q \<and> unat (snd q) + n \<le> unat (blk_size b)))"
    if c: "arena_ok c" "blocks c \<noteq> []" "taken_cells c = taken_cells a" "sane_heap h'"
      "unat (blk_used (hd (blocks c))) + unat sz \<le> unat (blk_size (hd (blocks c)))"
      "arena_bump c sz = (p, a')" for c
  proof -
    obtain q where q: "p = Some q" "region_of q (unat sz) \<inter> taken_cells c = {}"
      "taken_cells a' = taken_cells c \<union> region_of q (unat sz)" "16 dvd unat (snd q)"
      "unat (snd q) + unat sz \<le> unat (blk_size (hd (blocks c)))"
      using arena_bump_ok(2) [OF c(1,2) r(2) c(5,6)] by blast
    have "region_of q n \<subseteq> region_of q (unat sz)" using r(1) by (auto simp: region_of_def)
    moreover have "\<exists>b \<in> set (blocks a'). blk_name b = fst q \<and> blk_size b = blk_size (hd (blocks c))"
      using c(6) q(1) by (auto simp: arena_bump_def split: list.splits)
    ultimately show ?thesis using q c(3,4) arena_bump_ok(1) [OF c(1,2) r(2) c(5,6)] r(1) by fastforce
  qed
  show "sane_heap h'" "arena_ok a'"
    "case p of None \<Rightarrow> a' = a
     | Some q \<Rightarrow> region_of q n \<inter> taken_cells a = {} \<and> region_of q n \<subseteq> taken_cells a' \<and>
         taken_cells a \<subseteq> taken_cells a' \<and> 16 dvd unat (snd q) \<and>
         (\<exists>b \<in> set (blocks a'). blk_name b = fst q \<and> unat (snd q) + n \<le> unat (blk_size b))"
  proof (atomize (full), cases "blocks a = [] \<or> blk_size (hd (blocks a)) < blk_used (hd (blocks a)) + sz")
    case False
    then have "arena_bump a sz = (p, a')" "h' = h"
      using assms(4) by (auto simp: nyxj_arena_alloc_def Let_def sz_def split: prod.splits)
    moreover have "unat (blk_used (hd (blocks a))) + unat sz < 2 ^ 64"
      using assms(2) False r(4)
      by (cases "blocks a") (auto simp: arena_ok_def block_ok_def word_le_nat_alt)
    then have "unat (blk_used (hd (blocks a)) + sz) = unat (blk_used (hd (blocks a))) + unat sz"
      by (simp add: unat_word_ariths)
    ultimately show "sane_heap h' \<and> arena_ok a' \<and> (case p of None \<Rightarrow> a' = a
     | Some q \<Rightarrow> region_of q n \<inter> taken_cells a = {} \<and> region_of q n \<subseteq> taken_cells a' \<and>
         taken_cells a \<subseteq> taken_cells a' \<and> 16 dvd unat (snd q) \<and>
         (\<exists>b \<in> set (blocks a'). blk_name b = fst q \<and> unat (snd q) + n \<le> unat (blk_size b)))"
      using goal [of a] assms(1,2) False by (auto simp: word_less_nat_alt)
  next
    case True
    define bsize where "bsize = (if arena_block_size a < sz then sz else arena_block_size a)"
    obtain b h1 where b: "block_new h (next_name a) bsize = (b, h1)" by fastforce
    have bs: "unat bsize \<le> 2 ^ 63" "unat sz \<le> unat bsize"
      using r(4) assms(2) by (auto simp: bsize_def arena_ok_def word_less_nat_alt)
    show "sane_heap h' \<and> arena_ok a' \<and> (case p of None \<Rightarrow> a' = a
     | Some q \<Rightarrow> region_of q n \<inter> taken_cells a = {} \<and> region_of q n \<subseteq> taken_cells a' \<and>
         taken_cells a \<subseteq> taken_cells a' \<and> 16 dvd unat (snd q) \<and>
         (\<exists>b \<in> set (blocks a'). blk_name b = fst q \<and> unat (snd q) + n \<le> unat (blk_size b)))"
    proof (cases b)
      case None
      then have "p = None" "a' = a" "h' = h1"
        using assms(4) True b by (auto simp: nyxj_arena_alloc_def Let_def simp flip: sz_def bsize_def)
      then show ?thesis using assms(1,2) b by (auto simp: block_new_def malloc_def sane_heap_def)
    next
      case (Some blk)
      note nb = block_new_sane [OF assms(1) b [unfolded Some] bs(1)]
      define c where "c = a\<lparr>blocks := blk # blocks a, next_name := Suc (next_name a)\<rparr>"
      have "arena_bump c sz = (p, a')" "h' = h1"
        using assms(4) True b Some
        by (auto simp: nyxj_arena_alloc_def Let_def c_def simp flip: sz_def bsize_def split: prod.splits)
      moreover have "arena_ok c" using assms(2) nb by (auto simp: arena_ok_def c_def block_ok_def)
      moreover have "taken_cells c = taken_cells a" using nb by (auto simp: taken_cells_def c_def)
      moreover have "blocks c = blk # blocks a" by (simp add: c_def)
      ultimately show ?thesis using goal [of c] nb bs by auto
    qed
  qed
qed

interpretation arena: region_allocator alloc_cells region_of "\<lambda>s. taken_cells (snd s)"
  "\<lambda>s. sane_heap (fst s) \<and> arena_ok (snd s)" size_fits
proof
  fix s s' :: "heap \<times> nyxj_arena" and n q p
  assume s: "sane_heap (fst s) \<and> arena_ok (snd s)" "size_fits n"
  show "sane_heap (fst s') \<and> arena_ok (snd s')" "taken_cells (snd s) \<subseteq> taken_cells (snd s')"
    if "alloc_cells s n = (q, s')"
    using nyxj_arena_alloc_spec [of "fst s" "snd s" n] s that
    by (auto simp: alloc_cells_def split: prod.splits option.splits)
  show "region_of p n \<inter> taken_cells (snd s) = {}" "region_of p n \<subseteq> taken_cells (snd s')"
    if "alloc_cells s n = (Some p, s')"
    using nyxj_arena_alloc_spec(3) [of "fst s" "snd s" n "Some p"] s that
    by (auto simp: alloc_cells_def split: prod.splits option.splits)
qed

lemma nyxj_arena_reset_ok: "arena_ok a \<Longrightarrow> arena_ok (nyxj_arena_reset a) \<and> taken_cells (nyxj_arena_reset a) = {}"
  by (cases "blocks a") (auto simp: nyxj_arena_reset_def arena_ok_def block_ok_def taken_cells_def)

lemma nyxj_arena_create_ok:
  "unat sz < 2 ^ 63 \<Longrightarrow> nyxj_arena_create h sz = (Some a, h') \<Longrightarrow> arena_ok a \<and> taken_cells a = {}"
  by (auto simp: nyxj_arena_create_def arena_ok_def taken_cells_def split: prod.splits if_splits)

text \<open>A request of more than \<open>2 ^ 64 - 16\<close> bytes wraps around and is served with 16.\<close>

lemma round_size_wraps: "2 ^ 64 - 16 < n \<Longrightarrow> n < 2 ^ 64 \<Longrightarrow> round_size (word_of_nat n) = 16"
proof -
  assume n: "2 ^ 64 - 16 < n" "n < 2 ^ 64"
  define w where "w = (word_of_nat n + 15 :: size_t)"
  have "unat w = (n + 15) mod 2 ^ 64" unfolding w_def using n(2)
    by (simp add: unat_word_ariths unat_of_nat take_bit_nat_eq_self)
  also have "(n + 15) mod 2 ^ 64 = n + 15 - 2 ^ 64"
  proof -
    have "2 ^ 64 \<le> n + 15" "n + 15 - 2 ^ 64 < 2 ^ 64" using n by simp_all
    then show ?thesis by (metis le_mod_geq mod_less)
  qed
  also have "\<dots> < 16" using n by simp
  finally have "unat (w AND NOT 15) = 0" by (simp add: and_not_15)
  then have "w AND NOT 15 = 0" by (simp only: unsigned_eq_0_iff)
  then show ?thesis by (simp add: round_size_def Let_def flip: w_def)
qed

end
