(* ===== verification/Parser.thy ===== *)
theory Parser
  imports Value Tokens Arena
begin

text \<open>
  The recursive descent parser of \<^verbatim>\<open>src/core/parser.c\<close>. The context is \<open>pctx\<close>: \<open>pos\<close> is the pointer
  \<open>p\<close>, the suffix of the input that is still to be read, and the arena, the heap and the error are part
  of it. A function that returns a pointer gives \<open>Done\<close> with it, or \<open>Null\<close> after \<open>fail\<close>; releasing what
  was built has no effect on the context. \<open>No_fuel\<close> is the result of the recursion bound of the model,
  which \<open>nyxj_parse_ex\<close> chooses large enough (theory \<open>Parser_Facts\<close>).
\<close>

subsection \<open>The context\<close>

record parse_flags =
  allow_comments :: bool
  allow_trailing_commas :: bool
  reject_duplicate_keys :: bool

record pctx =
  simd :: simd_backend
  start :: bytes
  pos :: bytes
  flags :: parse_flags
  depth :: nat
  max_depth :: nat
  max_string :: nat
  max_elements :: nat
  pool :: "nyxj_arena option"
  mem :: heap
  err :: nyxj_error

datatype 'a presult = Done 'a pctx | Null pctx | No_fuel

definition bind :: "'a presult \<Rightarrow> ('a \<Rightarrow> pctx \<Rightarrow> 'b presult) \<Rightarrow> 'b presult" where
  "bind r f = (case r of Done x c \<Rightarrow> f x c | Null c \<Rightarrow> Null c | No_fuel \<Rightarrow> No_fuel)"

lemma bind_cong [fundef_cong]:
  "r = r' \<Longrightarrow> (\<And>x c. r' = Done x c \<Longrightarrow> f x c = g x c) \<Longrightarrow> bind r f = bind r' g"
  by (cases r') (simp_all add: bind_def)

text \<open>\<open>"%s%s at line %d, column %d%s%s%s"\<close>\<close>

definition error_what :: "nyxj_error_code \<Rightarrow> bytes \<Rightarrow> string" where
  "error_what ec at =
     (if ec = NYXJ_ERR_UNEXPECTED_CHAR \<and> at \<noteq> []
      then let ch = byte (hd at)
           in if 0x20 \<le> ch \<and> ch < 0x7F then snprintf 24 ('' '' @ [CHR 0x27, hd at, CHR 0x27])
              else snprintf 24 ('' 0x'' @ [hex_upper (ch div 16), hex_upper (ch mod 16)])
      else [])"

definition error_text :: "nyxj_error_code \<Rightarrow> string \<Rightarrow> nat \<Rightarrow> nat \<Rightarrow> string option \<Rightarrow> string" where
  "error_text ec what ln col detail =
     nyxj_strerror ec @ what @ '' at line '' @ dec_nat ln @ '', column '' @ dec_nat col @
     (case detail of None \<Rightarrow> [] | Some d \<Rightarrow> '' ('' @ d @ '')'')"

text \<open>A literal with \<open>~\<close> for the apostrophe.\<close>

definition quoted :: "string \<Rightarrow> string" where
  "quoted s = concat (map (\<lambda>ch. if ch = CHR ''~'' then [CHR 0x27] else [ch]) s)"

text \<open>Only the first error is kept. A position past the end is the end, the empty suffix.\<close>

definition fail :: "pctx \<Rightarrow> nyxj_error_code \<Rightarrow> bytes \<Rightarrow> string option \<Rightarrow> pctx" where
  "fail c ec at detail =
     (if code (err c) \<noteq> NYXJ_OK then c
      else let e = nyxj_locate (start c) at ((err c)\<lparr>code := ec\<rparr>)
           in c\<lparr>err := e\<lparr>message := snprintf 160 (error_text ec (error_what ec at) (line e) (column e) detail)\<rparr>\<rparr>)"

abbreviation fails :: "pctx \<Rightarrow> nyxj_error_code \<Rightarrow> bytes \<Rightarrow> string option \<Rightarrow> 'a presult" where
  "fails c ec at detail \<equiv> Null (fail c ec at detail)"

text \<open>\<open>palloc\<close>: from the arena or from the heap.\<close>

definition palloc :: "pctx \<Rightarrow> nat \<Rightarrow> unit presult" where
  "palloc c n =
     (case pool c of
        Some a \<Rightarrow>
          (let (p, a, h) = nyxj_arena_alloc (mem c) a (word_of_nat n); c = c\<lparr>pool := Some a, mem := h\<rparr>
           in if p = None then fails c NYXJ_ERR_OUT_OF_MEMORY (pos c) None else Done () c)
      | None \<Rightarrow>
          (let (ok, h) = malloc (mem c) n; c = c\<lparr>mem := h\<rparr>
           in if \<not> ok then fails c NYXJ_ERR_OUT_OF_MEMORY (pos c) None else Done () c))"

text \<open>The flag word of a new value: \<open>NYXJ_VFLAG_ARENA\<close> or 0.\<close>

definition pvalue :: "pctx \<Rightarrow> bool presult" where
  "pvalue c = bind (palloc c value_bytes) (\<lambda>_ c. Done (pool c \<noteq> None) c)"

subsection \<open>Whitespace and comments\<close>

fun line_end :: "bytes \<Rightarrow> bytes" where
  "line_end [] = []"
| "line_end (x # p) = (if x = CHR 0x0A then x # p else line_end p)"

fun block_end :: "bytes \<Rightarrow> bytes" where
  "block_end (x # y # p) = (if x = CHR ''*'' \<and> y = CHR ''/'' then x # y # p else block_end (y # p))"
| "block_end p = p"

lemma line_end_length: "length (line_end p) \<le> length p"
  by (induction p) auto

lemma block_end_length: "length (block_end p) \<le> length p"
  by (induction p rule: block_end.induct) auto

lemma nyxj_scan_ws_length: "length (nyxj_scan_ws b p) \<le> length p"
  by (simp add: nyxj_scan_ws_eq length_dropWhile_le)

text \<open>\<open>Inl\<close> is an unterminated comment: where it starts, and where the scan stopped.\<close>

function skip_blank :: "simd_backend \<Rightarrow> bool \<Rightarrow> bytes \<Rightarrow> (bytes \<times> bytes) + bytes" where
  "skip_blank b comments p =
     (let p = nyxj_scan_ws b p
      in if \<not> comments \<or> length p < 2 \<or> hd p \<noteq> CHR ''/'' then Inr p
         else if p ! 1 = CHR ''/'' then skip_blank b comments (line_end (drop 2 p))
         else if p ! 1 = CHR ''*''
         then let q = block_end (drop 2 p)
              in if length q < 2 then Inl (p, q) else skip_blank b comments (drop 2 q)
         else Inr p)"
  by pat_completeness auto
termination
proof (relation "measure (\<lambda>(b, comments, p). length p)", goal_cases)
  case (2 b comments p q)
  then show ?case using line_end_length [of "drop 2 q"] nyxj_scan_ws_length [of b p] by auto
next
  case (3 b comments p q r)
  then show ?case using block_end_length [of "drop 2 q"] nyxj_scan_ws_length [of b p] by auto
qed auto

declare skip_blank.simps [simp del]

definition skip_ws :: "pctx \<Rightarrow> unit presult" where
  "skip_ws c =
     (case skip_blank (simd c) (allow_comments (flags c)) (pos c) of
        Inl (open_at, q) \<Rightarrow> fails (c\<lparr>pos := q\<rparr>) NYXJ_ERR_UNEXPECTED_EOF open_at (Some ''unterminated comment'')
      | Inr q \<Rightarrow> Done () (c\<lparr>pos := q\<rparr>))"

subsection \<open>Strings\<close>

text \<open>The search for the closing quote from the special byte at \<open>r\<close>: its place, or an error.\<close>

function find_quote :: "simd_backend \<Rightarrow> bytes \<Rightarrow> (nyxj_error_code \<times> bytes option) + bytes" where
  "find_quote b r =
     (if r = [] then Inl (NYXJ_ERR_INVALID_STRING, None)
      else if hd r = CHR 0x22 then Inr r
      else if hd r = CHR 0x5C
      then if length r < 2 then Inl (NYXJ_ERR_INVALID_STRING, None)
           else find_quote b (nyxj_scan_string_special b (drop 2 r))
      else Inl (NYXJ_ERR_CONTROL_CHAR, Some r))"
  by pat_completeness auto
termination
proof (relation "measure (\<lambda>(b, r). length r)", goal_cases)
  case (2 b r)
  then show ?case
    using length_dropWhile_le [of "\<lambda>c. \<not> is_special c" "drop 2 r"] by (auto simp: nyxj_scan_string_special_eq)
qed auto

declare find_quote.simps [simp del]

lemma nyxj_decode_escape_used: "nyxj_decode_escape p = Inr (used, out) \<Longrightarrow> 2 \<le> used"
  by (auto simp: nyxj_decode_escape_def Let_def split: if_splits option.splits)

text \<open>The loop that decodes \<open>[x, r)\<close>: the bytes written, or the error and its place.\<close>

function unescape :: "bytes \<Rightarrow> bytes \<Rightarrow> (nyxj_error_code \<times> bytes) + bytes" where
  "unescape r x =
     (if length x \<le> length r then Inr []
      else let body = take (length x - length r) x;
               seg = takeWhile (\<lambda>ch. ch \<noteq> CHR 0x5C) body;
               bad = nyxj_utf8_invalid_at seg; y = drop (length seg) x
           in if bad \<noteq> length seg then Inl (NYXJ_ERR_INVALID_UTF8, drop bad x)
              else if length y \<le> length r then Inr seg
              else case nyxj_decode_escape (take (length y - length r) y) of
                Inl ec \<Rightarrow>
                  Inl (if ec = NYXJ_ERR_UNEXPECTED_EOF
                       then if y ! 1 = CHR ''u'' then NYXJ_ERR_INVALID_UNICODE else NYXJ_ERR_INVALID_ESCAPE
                       else ec, y)
              | Inr (used, out) \<Rightarrow> map_sum id (\<lambda>d. seg @ out @ d) (unescape r (drop used y)))"
  by pat_completeness auto
termination
  by (relation "measure (\<lambda>(r, x). length x)") (auto dest!: nyxj_decode_escape_used)

declare unescape.simps [simp del]

definition parse_string :: "pctx \<Rightarrow> bytes presult" where
  "parse_string c =
     (let quote = pos c; s = tl quote; q = nyxj_scan_string_special (simd c) s
      in if q \<noteq> [] \<and> hd q = CHR 0x22
         then let n = length s - length q; bad = nyxj_utf8_invalid_at (take n s)
              in if max_string c \<noteq> 0 \<and> max_string c < n then fails c NYXJ_ERR_STRING_LIMIT quote None
                 else if bad \<noteq> n then fails c NYXJ_ERR_INVALID_UTF8 (drop bad s) None
                 else bind (palloc c (n + 1)) (\<lambda>_ c. Done (take n s) (c\<lparr>pos := tl q\<rparr>))
         else case find_quote (simd c) q of
           Inl (ec, at) \<Rightarrow>
             (case at of None \<Rightarrow> fails c ec quote (Some ''unterminated string'') | Some at \<Rightarrow> fails c ec at None)
         | Inr r \<Rightarrow>
             bind (palloc c (length s - length r + 1))
               (\<lambda>_ c. case unescape r s of
                  Inl (ec, at) \<Rightarrow> fails c ec at None
                | Inr d \<Rightarrow>
                    if max_string c \<noteq> 0 \<and> max_string c < length d then fails c NYXJ_ERR_STRING_LIMIT quote None
                    else Done d (c\<lparr>pos := tl r\<rparr>)))"

subsection \<open>Scalars\<close>

definition parse_literal :: "pctx \<Rightarrow> string \<Rightarrow> (bool \<Rightarrow> nyxj_value) \<Rightarrow> nyxj_value presult" where
  "parse_literal c word mk =
     (if length (pos c) < length word \<or> \<not> starts_with word (pos c)
      then fails c NYXJ_ERR_INVALID_LITERAL (pos c) None
      else bind (pvalue c) (\<lambda>fl c. Done (mk fl) (c\<lparr>pos := drop (length word) (pos c)\<rparr>)))"

definition parse_number :: "pctx \<Rightarrow> nyxj_value presult" where
  "parse_number c =
     (case nyxj_scan_number (pos c) of
        None \<Rightarrow> fails c NYXJ_ERR_INVALID_NUMBER (pos c) None
      | Some e \<Rightarrow>
          bind (pvalue c)
            (\<lambda>fl c. let (d, h) = nyxj_number_value (mem c) (take (length (pos c) - length e) (pos c))
                    in Done (VNumber fl d) (c\<lparr>pos := e, mem := h\<rparr>)))"

subsection \<open>Containers\<close>

text \<open>The common start: the bracket, the depth limit, the new value and the blanks after the bracket.\<close>

definition open_container :: "pctx \<Rightarrow> bool presult" where
  "open_container c =
     (let open_at = pos c; c = c\<lparr>pos := tl (pos c), depth := depth c + 1\<rparr>
      in if max_depth c < depth c then fails c NYXJ_ERR_DEPTH_LIMIT open_at None
         else bind (pvalue c) (\<lambda>fl c. bind (skip_ws c) (\<lambda>_ c. Done fl c)))"

text \<open>The common end of an iteration: a comma and another element (\<open>True\<close>), or the closing bracket.\<close>

definition after_element :: "pctx \<Rightarrow> char \<Rightarrow> string \<Rightarrow> bool presult" where
  "after_element c close expected =
     bind (skip_ws c)
       (\<lambda>_ c.
          if pos c = [] then fails c NYXJ_ERR_UNEXPECTED_EOF (pos c) (Some expected)
          else if hd (pos c) = CHR '',''
          then let c = c\<lparr>pos := tl (pos c)\<rparr>
               in if allow_trailing_commas (flags c)
                  then bind (skip_ws c)
                    (\<lambda>_ c. if pos c \<noteq> [] \<and> hd (pos c) = close then Done False (c\<lparr>pos := tl (pos c)\<rparr>) else Done True c)
                  else Done True c
          else if hd (pos c) = close then Done False (c\<lparr>pos := tl (pos c)\<rparr>)
          else fails c NYXJ_ERR_UNEXPECTED_CHAR (pos c) (Some expected))"

text \<open>\<open>items[count++] = item\<close>, where \<open>cap\<close> is the room: a full table is doubled on the heap.\<close>

definition push_item :: "pctx \<Rightarrow> nat \<Rightarrow> nat \<Rightarrow> nat presult" where
  "push_item c n cap =
     (if n = cap
      then let (ok, h) = malloc (mem c) (pointer_bytes * cap * 2); c = c\<lparr>mem := h\<rparr>
           in if \<not> ok then fails c NYXJ_ERR_OUT_OF_MEMORY (pos c) None else Done (cap * 2) c
      else Done cap c)"

text \<open>The key of a member and its colon.\<close>

definition parse_key :: "pctx \<Rightarrow> string list \<Rightarrow> string presult" where
  "parse_key c keys =
     bind (skip_ws c)
       (\<lambda>_ c.
          if pos c = [] then fails c NYXJ_ERR_UNEXPECTED_EOF (pos c) (Some ''expected a string key'')
          else if hd (pos c) \<noteq> CHR 0x22
          then fails c NYXJ_ERR_UNEXPECTED_CHAR (pos c) (Some ''expected a string key'')
          else let key_at = pos c
               in bind (parse_string c)
                 (\<lambda>key c.
                    if reject_duplicate_keys (flags c) \<and> cstr key \<in> set keys
                    then fails c NYXJ_ERR_DUPLICATE_KEY key_at None
                    else bind (skip_ws c)
                      (\<lambda>_ c.
                         if pos c = [] \<or> hd (pos c) \<noteq> CHR '':''
                         then fails c (if pos c = [] then NYXJ_ERR_UNEXPECTED_EOF else NYXJ_ERR_UNEXPECTED_CHAR)
                           (pos c) (Some (quoted ''expected ~:~''))
                         else Done (cstr key) (c\<lparr>pos := tl (pos c)\<rparr>))))"

definition finish_array :: "pctx \<Rightarrow> bool \<Rightarrow> nyxj_value list \<Rightarrow> nyxj_value presult" where
  "finish_array c fl items =
     (if items = [] then Done (VArray fl [] 0) (c\<lparr>depth := depth c - 1\<rparr>)
      else let fcap = (if pool c \<noteq> None then length items else nyxj_array_capacity_for (length items))
           in bind (palloc c (pointer_bytes * fcap))
                (\<lambda>_ c. Done (VArray fl items fcap) (c\<lparr>depth := depth c - 1\<rparr>)))"

fun parse_value :: "nat \<Rightarrow> pctx \<Rightarrow> nyxj_value presult"
  and parse_array :: "nat \<Rightarrow> pctx \<Rightarrow> nyxj_value presult"
  and array_loop :: "nat \<Rightarrow> bytes \<Rightarrow> nyxj_value list \<Rightarrow> nat \<Rightarrow> pctx \<Rightarrow> nyxj_value list presult"
  and parse_object :: "nat \<Rightarrow> pctx \<Rightarrow> nyxj_value presult"
  and object_loop :: "nat \<Rightarrow> bytes \<Rightarrow> (string \<times> nyxj_value) list \<Rightarrow> pctx \<Rightarrow> (string \<times> nyxj_value) list presult"
where
  "parse_value 0 c = No_fuel"
| "parse_value (Suc n) c =
     bind (skip_ws c)
       (\<lambda>_ c.
          if pos c = [] then fails c NYXJ_ERR_UNEXPECTED_EOF (pos c) (Some ''expected a value'')
          else let ch = hd (pos c)
               in if ch = CHR ''{'' then parse_object n c
                  else if ch = CHR ''['' then parse_array n c
                  else if ch = CHR 0x22
                  then bind (parse_string c) (\<lambda>s c. bind (pvalue c) (\<lambda>fl c. Done (VString fl (cstr s)) c))
                  else if ch = CHR ''t'' then parse_literal c ''true'' (\<lambda>fl. VBool fl True)
                  else if ch = CHR ''f'' then parse_literal c ''false'' (\<lambda>fl. VBool fl False)
                  else if ch = CHR ''n'' then parse_literal c ''null'' VNull
                  else if ch = CHR ''-'' \<or> nyxj_is_digit ch then parse_number c
                  else fails c NYXJ_ERR_UNEXPECTED_CHAR (pos c) (Some ''expected a value''))"
| "parse_array 0 c = No_fuel"
| "parse_array (Suc n) c =
     (let open_at = pos c
      in bind (open_container c)
        (\<lambda>fl c.
           if pos c \<noteq> [] \<and> hd (pos c) = CHR '']'' then finish_array (c\<lparr>pos := tl (pos c)\<rparr>) fl []
           else bind (array_loop n open_at [] 16 c) (\<lambda>items c. finish_array c fl items)))"
| "array_loop 0 open_at items cap c = No_fuel"
| "array_loop (Suc n) open_at items cap c =
     bind (parse_value n c)
       (\<lambda>item c.
          bind (push_item c (length items) cap)
            (\<lambda>cap c.
               let items = items @ [item]
               in if max_elements c \<noteq> 0 \<and> max_elements c < length items
                  then fails c NYXJ_ERR_ELEMENT_LIMIT open_at None
                  else bind (after_element c (CHR '']'') (quoted ''expected ~,~ or ~]~''))
                    (\<lambda>more c. if more then array_loop n open_at items cap c else Done items c)))"
| "parse_object 0 c = No_fuel"
| "parse_object (Suc n) c =
     (let open_at = pos c
      in bind (open_container c)
        (\<lambda>fl c.
           if pos c \<noteq> [] \<and> hd (pos c) = CHR ''}''
           then Done (VObject fl []) (c\<lparr>pos := tl (pos c), depth := depth c - 1\<rparr>)
           else bind (object_loop n open_at [] c)
             (\<lambda>pairs c. Done (VObject fl pairs) (c\<lparr>depth := depth c - 1\<rparr>))))"
| "object_loop 0 open_at pairs c = No_fuel"
| "object_loop (Suc n) open_at pairs c =
     bind (parse_key c (map fst pairs))
       (\<lambda>key c.
          bind (parse_value n c)
            (\<lambda>val c.
               bind (palloc c pair_bytes)
                 (\<lambda>_ c.
                    let pairs = pairs @ [(key, val)]
                    in if max_elements c \<noteq> 0 \<and> max_elements c < length pairs
                       then fails c NYXJ_ERR_ELEMENT_LIMIT open_at None
                       else bind (after_element c (CHR ''}'') (quoted ''expected ~,~ or ~}~''))
                         (\<lambda>more c. if more then object_loop n open_at pairs c else Done pairs c))))"


subsection \<open>The public interface\<close>

record nyxj_parse_options =
  opt_flags :: parse_flags
  opt_max_depth :: int
  opt_max_input_size :: nat
  opt_max_string_length :: nat
  opt_max_elements :: nat
  opt_arena :: "nyxj_arena option"

definition default_max_depth :: int where
  "default_max_depth = 512"

definition nyxj_parse_options_default :: nyxj_parse_options where
  "nyxj_parse_options_default =
     \<lparr>opt_flags = \<lparr>allow_comments = False, allow_trailing_commas = False, reject_duplicate_keys = False\<rparr>,
      opt_max_depth = default_max_depth, opt_max_input_size = 0, opt_max_string_length = 0,
      opt_max_elements = 0, opt_arena = None\<rparr>"

text \<open>The result, with the arena and the heap after the call.\<close>

record nyxj_result =
  is_valid :: bool
  error_msg :: "string option"
  root :: "nyxj_value option"
  error :: nyxj_error
  arena_after :: "nyxj_arena option"
  heap_after :: heap

definition failed_result :: "nyxj_error \<Rightarrow> nyxj_arena option \<Rightarrow> heap \<Rightarrow> nyxj_result" where
  "failed_result e a h =
     \<lparr>is_valid = False, error_msg = Some (nyxj_strerror (code e)), root = None, error = e,
      arena_after = a, heap_after = h\<rparr>"

definition parse_context :: "simd_backend \<Rightarrow> heap \<Rightarrow> bytes \<Rightarrow> nyxj_parse_options \<Rightarrow> pctx" where
  "parse_context b h json opts =
     \<lparr>simd = b, start = json,
      pos = (if 3 \<le> length json \<and> starts_with [CHR 0xEF, CHR 0xBB, CHR 0xBF] json then drop 3 json else json),
      flags = opt_flags opts, depth = 0,
      max_depth = nat (if 0 < opt_max_depth opts then opt_max_depth opts else default_max_depth),
      max_string = opt_max_string_length opts, max_elements = opt_max_elements opts,
      pool = opt_arena opts, mem = h, err = no_error\<rparr>"

text \<open>The recursion bound: three calls for each byte.\<close>

definition parse_fuel :: "bytes \<Rightarrow> nat" where
  "parse_fuel json = 3 * length json + 1"

definition parse_root :: "pctx \<Rightarrow> nyxj_value presult" where
  "parse_root c =
     bind (parse_value (parse_fuel (start c)) c)
       (\<lambda>v c. case skip_ws c of
          Done _ c \<Rightarrow> if pos c \<noteq> [] then fails c NYXJ_ERR_TRAILING_DATA (pos c) None else Done v c
        | Null c \<Rightarrow> fails c NYXJ_ERR_TRAILING_DATA (pos c) None
        | No_fuel \<Rightarrow> No_fuel)"

definition nyxj_parse_ex ::
    "simd_backend \<Rightarrow> heap \<Rightarrow> bytes option \<Rightarrow> nyxj_parse_options option \<Rightarrow> nyxj_result" where
  "nyxj_parse_ex b h json opts =
     (let o' = (case opts of None \<Rightarrow> nyxj_parse_options_default | Some o' \<Rightarrow> o')
      in case json of
           None \<Rightarrow> failed_result (nyxj_error_set NYXJ_ERR_NULL_INPUT None no_error) (opt_arena o') h
         | Some json \<Rightarrow>
             if opt_max_input_size o' \<noteq> 0 \<and> opt_max_input_size o' < length json
             then failed_result
               (nyxj_error_set NYXJ_ERR_SIZE_LIMIT
                  (Some (''input of '' @ dec_nat (length json) @ '' bytes exceeds the limit of '' @
                         dec_nat (opt_max_input_size o') @ '' bytes'')) no_error) (opt_arena o') h
             else case parse_root (parse_context b h json o') of
               Done v c \<Rightarrow>
                 \<lparr>is_valid = True, error_msg = None, root = Some v, error = err c,
                  arena_after = pool c, heap_after = mem c\<rparr>
             | Null c \<Rightarrow> failed_result (err c) (pool c) (mem c)
             | No_fuel \<Rightarrow> failed_result no_error (opt_arena o') h)"

definition nyxj_parse_n :: "simd_backend \<Rightarrow> heap \<Rightarrow> bytes option \<Rightarrow> nyxj_result" where
  "nyxj_parse_n b h json = nyxj_parse_ex b h json None"

definition nyxj_parse :: "simd_backend \<Rightarrow> heap \<Rightarrow> bytes option \<Rightarrow> nyxj_result" where
  "nyxj_parse b h json_str = nyxj_parse_ex b h (map_option cstr json_str) None"

end
