(* ===== verification/Value_Facts.thy ===== *)
theory Value_Facts
  imports Value
begin

text \<open>
  What \<^verbatim>\<open>src/core/value.c\<close> guarantees: the object operations form a keyed store, a failed mutator
  leaves its container as it was, insertion and removal are inverse, a clone is the same tree on
  the heap, comparison is an equivalence on values without NaN and without duplicate keys, and a
  dot path is a chain of lookups.
\<close>

subsection \<open>Keyed stores\<close>

text \<open>The contract of a container with keys: what a lookup returns after an update or a removal.\<close>

locale keyed_store =
  fixes get :: "'s \<Rightarrow> 'k \<Rightarrow> 'v option"
    and put :: "'s \<Rightarrow> 'k \<Rightarrow> 'v \<Rightarrow> 's"
    and cut :: "'s \<Rightarrow> 'k \<Rightarrow> ('v \<times> 's) option"
    and ok :: "'s \<Rightarrow> bool"
  assumes get_put: "get (put s k v) k' = (if k' = k then Some v else get s k')"
    and ok_put: "ok s \<Longrightarrow> ok (put s k v)"
    and cut_None: "cut s k = None \<longleftrightarrow> get s k = None"
    and cut_value: "cut s k = Some (v, s') \<Longrightarrow> get s k = Some v"
    and get_cut: "ok s \<Longrightarrow> cut s k = Some (v, s') \<Longrightarrow> get s' k' = (if k' = k then None else get s k')"
    and ok_cut: "ok s \<Longrightarrow> cut s k = Some (v, s') \<Longrightarrow> ok s'"
begin

lemma put_put: "get (put (put s k v) k w) = get (put s k w)"
  by (rule ext) (simp add: get_put)

lemma put_commute: "k \<noteq> l \<Longrightarrow> get (put (put s k v) l w) = get (put (put s l w) k v)"
  by (rule ext) (simp add: get_put)

lemma cut_put: "ok s \<Longrightarrow> cut (put s k v) k = Some (w, s') \<Longrightarrow> w = v \<and> get s' = (get s)(k := None)"
  using cut_value [of "put s k v" k w s'] get_cut [OF ok_put, of s k v k w s'] by (auto simp: get_put)

lemma put_all: "get (foldl (\<lambda>s (k, v). put s k v) s kvs) = (\<lambda>k. case map_of (rev kvs) k of Some v \<Rightarrow> Some v | None \<Rightarrow> get s k)"
proof (induction kvs arbitrary: s)
  case (Cons p kvs)
  then show ?case by (cases p) (auto simp: get_put map_add_def fun_eq_iff split: option.split)
qed simp

end

definition pairs_put :: "(string \<times> 'v) list \<Rightarrow> string \<Rightarrow> 'v \<Rightarrow> (string \<times> 'v) list" where
  "pairs_put ps key v = (case pairs_replace ps key v of Some qs \<Rightarrow> qs | None \<Rightarrow> ps @ [(key, v)])"

lemma pairs_put_simps [simp]:
  "pairs_put [] key v = [(key, v)]"
  "pairs_put ((k, w) # ps) key v = (if k = key then (k, v) # ps else (k, w) # pairs_put ps key v)"
  by (auto simp: pairs_put_def split: option.split)

lemma pairs_replace_None: "pairs_replace ps key v = None \<longleftrightarrow> key \<notin> fst ` set ps"
  by (induction ps) (auto split: if_splits)

lemma pairs_put_keys: "map fst (pairs_put ps key v) = (if key \<in> fst ` set ps then map fst ps else map fst ps @ [key])"
  by (induction ps) (auto split: if_splits)

lemma map_of_pairs_put: "map_of (pairs_put ps key v) k = (if k = key then Some v else map_of ps k)"
  by (induction ps) auto

lemma pairs_detach_None: "pairs_detach ps key = None \<longleftrightarrow> key \<notin> fst ` set ps"
  by (induction ps) (auto split: if_splits)

text \<open>The first pair with the key is taken out.\<close>

lemma pairs_detach_split:
  "pairs_detach ps key = Some (v, qs) \<Longrightarrow> \<exists>a b. ps = a @ (key, v) # b \<and> qs = a @ b \<and> map_of a key = None"
proof (induction ps arbitrary: qs)
  case (Cons p ps)
  obtain k w where p: "p = (k, w)" by fastforce
  show ?case
  proof (cases "k = key")
    case True
    then show ?thesis using Cons.prems p by (intro exI [of _ "[]"] exI [of _ ps]) auto
  next
    case False
    then obtain rs where "pairs_detach ps key = Some (v, rs)" "qs = p # rs" using Cons.prems p by auto
    moreover from Cons.IH [OF this(1)] obtain a b where
      "ps = a @ (key, v) # b" "rs = a @ b" "map_of a key = None" by blast
    ultimately show ?thesis using False p by (intro exI [of _ "p # a"] exI [of _ b]) auto
  qed
qed simp

lemma pairs_detach_value: "pairs_detach ps key = Some (v, qs) \<Longrightarrow> map_of ps key = Some v"
  by (auto dest!: pairs_detach_split simp: map_add_def)

lemma map_of_pairs_detach:
  assumes "distinct (map fst ps)" "pairs_detach ps key = Some (v, qs)"
  shows "map_of qs k = (if k = key then None else map_of ps k)" "distinct (map fst qs)"
proof -
  obtain a b where ab: "ps = a @ (key, v) # b" "qs = a @ b" using pairs_detach_split [OF assms(2)] by blast
  then have "map_of a key = None" "map_of b key = None" "distinct (map fst qs)"
    using assms(1) by (auto simp: map_of_eq_None_iff)
  then show "map_of qs k = (if k = key then None else map_of ps k)" "distinct (map fst qs)"
    using ab by (auto simp: map_add_def split: option.split)
qed

interpretation members: keyed_store map_of pairs_put pairs_detach "\<lambda>ps. distinct (map fst ps)"
  by unfold_locales
    (auto simp: map_of_pairs_put pairs_put_keys pairs_detach_None map_of_eq_None_iff
      map_of_pairs_detach dest: pairs_detach_value)

subsection \<open>Objects\<close>

lemma nyxj_strndup_total: "heap_total h \<Longrightarrow> \<exists>h'. nyxj_strndup h s n = (Some (cstr (take n s)), h') \<and> heap_total h'"
  using malloc_total [of h "n + 1"] by (auto simp: nyxj_strndup_def split: prod.split)

lemma nyxj_strdup_total: "heap_total h \<Longrightarrow> no_nul s \<Longrightarrow> \<exists>h'. nyxj_strdup h (Some s) = (Some s, h') \<and> heap_total h'"
  using nyxj_strndup_total [of h s "length s"] by (simp add: nyxj_strdup_def)

text \<open>A setter that has memory puts the value; one that fails changes nothing.\<close>

lemma nyxj_object_set_put:
  assumes "heap_total h" "no_nul key"
  shows "\<exists>h'. nyxj_object_set h (VObject False ps) key (Some v) = (True, VObject False (pairs_put ps key v), h') \<and>
    heap_total h'"
proof (cases "pairs_replace ps key v")
  case None
  obtain h1 where m: "malloc h pair_bytes = (True, h1)" "heap_total h1"
    using malloc_total [OF assms(1), of pair_bytes] by (metis prod.collapse)
  then show ?thesis using None nyxj_strdup_total [OF m(2) assms(2)] by (auto simp: pairs_put_def)
qed (use assms in \<open>simp add: pairs_put_def\<close>)

lemma nyxj_object_set_fail: "nyxj_object_set h obj key v = (False, obj', h') \<Longrightarrow> obj' = obj"
  by (induction h obj key v rule: nyxj_object_set.induct) (auto simp: Let_def split: option.splits prod.splits if_splits)

lemma nyxj_object_set_get:
  assumes "nyxj_object_set h obj key (Some v) = (True, obj', h')" "no_nul key"
  shows "nyxj_get_member (Some obj') k = (if k = key then Some v else nyxj_get_member (Some obj) k)"
proof -
  obtain ps where obj: "obj = VObject False ps"
    using assms(1) by (cases "(h, obj, key, Some v)" rule: nyxj_object_set.cases) auto
  have "nyxj_strdup h2 (Some key) = (Some k', h3) \<Longrightarrow> k' = key" for h2 h3 k'
    using assms(2) by (auto simp: nyxj_strdup_def nyxj_strndup_def split: prod.splits if_splits)
  then have "obj' = VObject False (pairs_put ps key v)"
    using assms(1) unfolding obj by (auto simp: pairs_put_def Let_def split: option.splits prod.splits if_splits)
  then show ?thesis by (simp add: obj map_of_pairs_put)
qed

lemma nyxj_object_detach_get:
  assumes "nyxj_object_detach obj key = (Some v, obj')" "comparable obj"
  shows "nyxj_get_member (Some obj) key = Some v"
    "nyxj_get_member (Some obj') k = (if k = key then None else nyxj_get_member (Some obj) k)"
    "comparable obj'"
proof -
  obtain ps qs where obj: "obj = VObject False ps" "obj' = VObject False qs" "pairs_detach ps key = Some (v, qs)"
    using assms(1) by (cases "(obj, key)" rule: nyxj_object_detach.cases) (auto split: option.splits)
  then have d: "distinct (map fst ps)" using assms(2) by simp
  have "set qs \<subseteq> set ps"
    using pairs_detach_split [OF obj(3)] by auto
  then show "nyxj_get_member (Some obj) key = Some v"
    "nyxj_get_member (Some obj') k = (if k = key then None else nyxj_get_member (Some obj) k)" "comparable obj'"
    using obj members.cut_value [OF obj(3)] members.get_cut [OF d obj(3)] members.ok_cut [OF d obj(3)] assms(2)
    by auto
qed

subsection \<open>Arrays\<close>

lemma array_grow_cap: "array_grow h n cap = (Some cap', h') \<Longrightarrow> n \<le> cap \<Longrightarrow> n < cap'"
  by (auto simp: array_grow_def Let_def split: if_splits prod.splits)

lemma nyxj_array_insert_fail: "nyxj_array_insert h arr i v = (False, arr', h') \<Longrightarrow> arr' = arr"
  by (induction h arr i v rule: nyxj_array_insert.induct) (auto simp: Let_def split: option.splits prod.splits if_splits)

text \<open>What was inserted is at its index, and taking it out restores the items.\<close>

lemma nyxj_array_insert_detach:
  assumes "nyxj_array_insert h arr i (Some v) = (True, arr', h')"
  shows "nyxj_array_get (Some arr') i = Some v"
    "\<exists>arr''. nyxj_array_detach arr' i = (Some v, arr'') \<and> abs_value arr'' = abs_value arr"
    "nyxj_size (Some arr') = nyxj_size (Some arr) + 1"
proof -
  obtain xs cap cap' where arr: "arr = VArray False xs cap" "0 \<le> i" "i \<le> int (length xs)"
    "arr' = VArray False (take (nat i) xs @ v # drop (nat i) xs) cap'"
    using assms by (cases "(h, arr, i, Some v)" rule: nyxj_array_insert.cases)
      (auto split: option.splits prod.splits if_splits)
  have n: "nat i \<le> length xs" using arr by simp
  then have l: "length (take (nat i) xs) = nat i" by simp
  then show "nyxj_array_get (Some arr') i = Some v" using arr n by (auto simp: nth_append)
  show "nyxj_size (Some arr') = nyxj_size (Some arr) + 1" using arr n by (simp add: nyxj_size_def)
  have "drop (nat i + 1) (take (nat i) xs @ v # drop (nat i) xs) = drop (nat i) xs" using l n by simp
  then show "\<exists>arr''. nyxj_array_detach arr' i = (Some v, arr'') \<and> abs_value arr'' = abs_value arr"
    using arr l n by (auto simp: nth_append)
qed

lemma nyxj_array_capacity_for_ge: "n \<le> nyxj_array_capacity_for n"
  by (simp add: nyxj_array_capacity_for_def capacity_from_ge)

lemma nyxj_array_push_total:
  assumes "heap_total h"
  shows "\<exists>cap' h'. nyxj_array_push h (VArray False xs cap) (Some x) = (True, VArray False (xs @ [x]) cap', h') \<and> heap_total h'"
  using malloc_total [OF assms, of "pointer_bytes * (cap * 2)"] malloc_total [OF assms, of "pointer_bytes * 4"] assms
  by (cases "cap = 0") (auto simp: array_grow_def Let_def split: prod.split)

subsection \<open>Clones\<close>

lemma new_value_Some: "new_value h v = (Some w, h') \<Longrightarrow> w = v"
  by (auto simp: new_value_def split: prod.splits if_splits)

lemma new_value_total: "heap_total h \<Longrightarrow> \<exists>h'. new_value h v = (Some v, h') \<and> heap_total h'"
  using malloc_total [of h value_bytes] by (auto simp: new_value_def split: prod.split)

lemma nyxj_new_string_Some: "no_nul s \<Longrightarrow> nyxj_new_string h (Some s) = (Some w, h') \<Longrightarrow> w = VString False s"
  by (auto simp: nyxj_new_string_def nyxj_new_stringn_def nyxj_strndup_def split: option.splits prod.splits if_splits)

lemma nyxj_new_string_total:
  "heap_total h \<Longrightarrow> no_nul s \<Longrightarrow> \<exists>h'. nyxj_new_string h (Some s) = (Some (VString False s), h') \<and> heap_total h'"
  using new_value_total [of h "VString False []"]
  by (auto simp: nyxj_new_string_def nyxj_new_stringn_def nyxj_strndup_def malloc_def heap_total_def Let_def)

lemma nyxj_strdup_Some: "no_nul s \<Longrightarrow> nyxj_strdup h (Some s) = (Some t, h') \<Longrightarrow> t = s"
  by (auto simp: nyxj_strdup_def nyxj_strndup_def split: prod.splits if_splits)

lemmas new_defs = nyxj_new_null_def nyxj_new_bool_def nyxj_new_number_def nyxj_new_array_def nyxj_new_object_def

lemma clone_sound:
  "c_strings v \<Longrightarrow> clone_value h v = (Some w, h') \<Longrightarrow> abs_value w = abs_value v \<and> heap_owned w \<and> c_strings w"
  "\<forall>x \<in> set xs. c_strings x \<Longrightarrow> clone_items h xs = (Some ys, h') \<Longrightarrow>
     map abs_value ys = map abs_value xs \<and> (\<forall>y \<in> set ys. heap_owned y \<and> c_strings y)"
  "\<forall>(k, x) \<in> set ps. no_nul k \<and> c_strings x \<Longrightarrow> clone_pairs h ps = (Some qs, h') \<Longrightarrow>
     map (map_prod id abs_value) qs = map (map_prod id abs_value) ps \<and>
     (\<forall>(k, y) \<in> set qs. heap_owned y \<and> no_nul k \<and> c_strings y)"
proof (induction h v and h xs and h ps arbitrary: w h' and ys h' and qs h'
    rule: clone_value_clone_items_clone_pairs.induct)
  case (5 h fl xs cap)
  from 5(3) obtain h1 h2 n ys where a: "nyxj_new_array h = (Some (VArray False [] 0), h1)"
    "clone_room h1 (length xs) = (True, n, h2)"
    "clone_items h2 xs = (Some ys, h')" "w = VArray False ys n"
    by (auto simp: Let_def nyxj_new_array_def dest: new_value_Some split: option.splits prod.splits if_splits)
  have "map abs_value ys = map abs_value xs \<and> (\<forall>y \<in> set ys. heap_owned y \<and> c_strings y)"
    using 5(1) [OF a(1) [symmetric] refl a(2) [symmetric] refl refl _ _ a(3)] 5(2) by simp
  moreover from this have "length ys = length xs" by (metis length_map)
  moreover have "length xs \<le> n" using a(2) nyxj_array_capacity_for_ge [of "length xs"]
    by (auto simp: clone_room_def Let_def split: if_splits prod.splits)
  ultimately show ?case using a(4) by auto
next
  case (6 h fl ps)
  from 6(3) obtain h1 qs where a: "nyxj_new_object h = (Some (VObject False []), h1)"
    "clone_pairs h1 ps = (Some qs, h')" "w = VObject False qs"
    by (auto simp: nyxj_new_object_def dest: new_value_Some split: option.splits prod.splits)
  then show ?case using 6(1) [OF a(1) [symmetric] refl _ a(2)] 6(2) by (auto simp: id_def)
next
  case (8 h x xs)
  from 8(4) obtain y h1 zs where a: "clone_value h x = (Some y, h1)" "clone_items h1 xs = (Some zs, h')" "ys = y # zs"
    by (auto split: option.splits prod.splits)
  then show ?case using 8(1) [OF _ a(1)] 8(2) [OF a(1) [symmetric] refl _ a(2)] 8(3) by auto
next
  case (10 h k x ps)
  from 10(4) obtain h1 h2 h3 y k' rs where a:
    "malloc h pair_bytes = (True, h1)" "nyxj_strdup h1 (Some k) = (Some k', h2)"
    "clone_value h2 x = (Some y, h3)" "clone_pairs h3 ps = (Some rs, h')" "qs = (k', y) # rs"
    by (auto simp: Let_def split: option.splits prod.splits if_splits)
  have k: "k' = k" using 10(3) nyxj_strdup_Some a(2) by auto
  have y: "abs_value y = abs_value x \<and> heap_owned y \<and> c_strings y"
    using 10(1) [OF a(1) [symmetric] refl _ a(2) [symmetric] refl _ a(3)] 10(3) by auto
  have t: "\<not> \<not> True" by simp
  have "\<forall>(k, x) \<in> set ps. no_nul k \<and> c_strings x" using 10(3) by simp
  note e = 10(2) [OF a(1) [symmetric] refl t a(2) [symmetric] refl a(3) [symmetric] refl refl refl refl this a(4)]
  have tree: "map (map_prod id abs_value) qs = map (map_prod id abs_value) ((k, x) # ps)"
    by (simp only: a(5) list.map map_prod_simp id_apply k conjunct1 [OF y]) (rule arg_cong [OF conjunct1 [OF e]])
  have "\<forall>(k, y) \<in> set qs. heap_owned y \<and> no_nul k \<and> c_strings y"
    using conjunct2 [OF e] y 10(3) k by (simp add: a(5))
  with tree show ?case by (rule conjI)
next
  case (4 h fl s)
  then show ?case using nyxj_new_string_Some [of s h w h'] by simp
qed (auto simp: new_defs dest!: new_value_Some)


lemma clone_total:
  "heap_total h \<Longrightarrow> c_strings v \<Longrightarrow> \<exists>w h'. clone_value h v = (Some w, h') \<and> heap_total h'"
  "heap_total h \<Longrightarrow> \<forall>x \<in> set xs. c_strings x \<Longrightarrow> \<exists>ys h'. clone_items h xs = (Some ys, h') \<and> heap_total h'"
  "heap_total h \<Longrightarrow> \<forall>(k, x) \<in> set ps. no_nul k \<and> c_strings x \<Longrightarrow>
     \<exists>qs h'. clone_pairs h ps = (Some qs, h') \<and> heap_total h'"
proof (induction h v and h xs and h ps rule: clone_value_clone_items_clone_pairs.induct)
  case (4 h fl s)
  obtain h1 where m: "new_value h (VString False []) = (Some (VString False []), h1)" "heap_total h1"
    using new_value_total 4 by blast
  then show ?case using nyxj_strndup_total [of h1 s "length s"] 4
    by (auto simp: nyxj_new_string_def nyxj_new_stringn_def)
next
  case (5 h fl xs cap)
  obtain h1 where a: "nyxj_new_array h = (Some (VArray False [] 0), h1)" "heap_total h1"
    using new_value_total 5(2) by (auto simp: nyxj_new_array_def)
  obtain n h2 where r: "clone_room h1 (length xs) = (True, n, h2)" "heap_total h2"
    using malloc_total [OF a(2), of "pointer_bytes * nyxj_array_capacity_for (length xs)"] a(2)
    by (cases "malloc h1 (pointer_bytes * nyxj_array_capacity_for (length xs))"; cases "length xs = 0")
      (auto simp: clone_room_def Let_def)
  show ?case using 5(1) [OF a(1) [symmetric] refl r(1) [symmetric] refl refl _ r(2)] 5(3) a r by auto
next
  case (6 h fl ps)
  obtain h1 where a: "nyxj_new_object h = (Some (VObject False []), h1)" "heap_total h1"
    using new_value_total 6(2) by (auto simp: nyxj_new_object_def)
  show ?case using 6(1) [OF a(1) [symmetric] refl a(2)] 6(3) a by auto
next
  case (8 h x xs)
  obtain y h1 where a: "clone_value h x = (Some y, h1)" "heap_total h1" using 8(1) [OF 8(3)] 8(4) by auto
  show ?case using 8(2) [OF a(1) [symmetric] refl a(2)] 8(4) a by auto
next
  case (10 h k x ps)
  obtain h1 where m: "malloc h pair_bytes = (True, h1)" "heap_total h1"
    using malloc_total [OF 10(3), of pair_bytes] by (metis prod.collapse)
  obtain h2 where d: "nyxj_strdup h1 (Some k) = (Some k, h2)" "heap_total h2"
    using nyxj_strdup_total [OF m(2)] 10(4) by auto
  obtain y h3 where c: "clone_value h2 x = (Some y, h3)" "heap_total h3"
    using 10(1) [OF m(1) [symmetric] refl _ d(1) [symmetric] refl d(2)] 10(4) by auto
  show ?case using 10(2) [OF m(1) [symmetric] refl _ d(1) [symmetric] refl c(1) [symmetric] refl refl refl refl c(2)] 10(4) m d c by auto
qed (simp_all add: new_defs, (metis new_value_total)+)

subsection \<open>Comparison\<close>

lemma value_type_null: "value_type w = NYXJ_NULL \<longleftrightarrow> (\<exists>f. w = VNull f)"
  by (cases w) auto

lemma equals_items_iff: "length xs = length ys \<Longrightarrow> equals_items xs ys \<longleftrightarrow> list_all2 equals_value xs ys"
  by (induction xs ys rule: list_induct2) auto

lemma equals_members_iff:
  "equals_members ps b \<longleftrightarrow> (\<forall>(k, x) \<in> set ps. \<exists>y. nyxj_get_member (Some b) k = Some y \<and> equals_value x y)"
  by (induction ps) (auto split: option.splits)

lemma equals_object:
  "equals_value (VObject f ps) (VObject g qs) \<longleftrightarrow>
     length ps = length qs \<and> (\<forall>(k, x) \<in> set ps. \<exists>y. map_of qs k = Some y \<and> equals_value x y)"
  by (simp add: equals_members_iff)

lemma equals_array:
  "equals_value (VArray f xs m) (VArray g ys n) \<longleftrightarrow> list_all2 equals_value xs ys"
  using equals_items_iff [of xs ys] by (auto dest: list_all2_lengthD)

lemma dbl_eq_refl: "\<not> dbl_is_nan d \<Longrightarrow> dbl_eq d d"
  and dbl_eq_sym: "dbl_eq a b \<Longrightarrow> dbl_eq b a"
  and dbl_eq_trans: "dbl_eq a b \<Longrightarrow> dbl_eq b c \<Longrightarrow> dbl_eq a c"
  by (auto simp: dbl_eq_def)

text \<open>A value equals every value with the same tree.\<close>

lemma equals_same_tree:
  "comparable v \<Longrightarrow> abs_value w = abs_value v \<Longrightarrow> equals_value v w"
proof (induction v arbitrary: w)
  case (VNull f)
  then show ?case by (cases w) auto
next
  case (VBool f b)
  then show ?case by (cases w) auto
next
  case (VNumber f d)
  then show ?case by (cases w) (auto simp: dbl_eq_refl)
next
  case (VString f s)
  then show ?case by (cases w) auto
next
  case (VArray f xs m)
  then obtain g ys n where w: "w = VArray g ys n" "map abs_value ys = map abs_value xs" by (cases w) auto
  then have "list_all2 (\<lambda>y x. abs_value y = abs_value x) ys xs"
    by (metis list.rel_map(1,2) list_all2_eq list_all2_mono)
  then have "list_all2 equals_value xs ys"
    using VArray by (auto simp: list_all2_conv_all_nth)
  then show ?case by (simp only: w equals_array)
next
  case (VObject f ps)
  then obtain g qs where w: "w = VObject g qs" "map (map_prod id abs_value) qs = map (map_prod id abs_value) ps"
    by (cases w) auto
  then have l: "length qs = length ps" by (metis length_map)
  have keys: "map fst qs = map fst ps" using arg_cong [OF w(2), of "map fst"] by simp
  have "\<exists>y. map_of qs k = Some y \<and> equals_value x y" if "(k, x) \<in> set ps" for k x
  proof -
    obtain i where i: "i < length ps" "ps ! i = (k, x)" using \<open>(k, x) \<in> set ps\<close> by (metis in_set_conv_nth)
    define y where "y = snd (qs ! i)"
    have "map_prod id abs_value (qs ! i) = map_prod id abs_value (ps ! i)"
      using w(2) i l by (metis nth_map)
    then have q: "qs ! i = (k, y)" "abs_value y = abs_value x" unfolding y_def using i by (cases "qs ! i"; simp)+
    have "distinct (map fst qs)" using VObject.prems(1) keys by simp
    then have "map_of qs k = Some y" using q i l by (metis map_of_is_SomeI nth_mem)
    moreover have "equals_value x y" using VObject \<open>(k, x) \<in> set ps\<close> q(2) by force
    ultimately show ?thesis by blast
  qed
  then show ?case using l unfolding w equals_object by auto
qed

lemma equals_sym:
  "comparable v \<Longrightarrow> comparable w \<Longrightarrow> equals_value v w \<Longrightarrow> equals_value w v"
proof (induction v arbitrary: w)
  case (VArray f xs m)
  then obtain g ys n where w: "w = VArray g ys n" by (cases w) auto
  then have "list_all2 equals_value xs ys" using VArray.prems(3) by (simp only: equals_array)
  then have "list_all2 equals_value ys xs" using VArray.IH VArray.prems(1,2) w
    by (auto simp: list_all2_conv_all_nth)
  then show ?case by (simp only: w equals_array)
next
  case (VObject f ps)
  then obtain g qs where w: "w = VObject g qs" by (cases w) auto
  then have e: "length ps = length qs" "\<forall>(k, x) \<in> set ps. \<exists>y. map_of qs k = Some y \<and> equals_value x y"
    using VObject.prems(3) unfolding w equals_object by blast+
  have d: "distinct (map fst ps)" "distinct (map fst qs)" using VObject.prems w by auto
  have "fst ` set ps \<subseteq> fst ` set qs" using e(2) by (force dest: map_of_SomeD)
  moreover have "card (fst ` set ps) = card (fst ` set qs)"
    using d e(1) by (metis distinct_card length_map list.set_map)
  ultimately have keys: "fst ` set ps = fst ` set qs" by (simp add: card_subset_eq)
  have "\<exists>x. map_of ps k = Some x \<and> equals_value y x" if kq: "(k, y) \<in> set qs" for k y
  proof -
    obtain x where x: "(k, x) \<in> set ps" using keys kq by force
    then obtain y' where "map_of qs k = Some y'" "equals_value x y'" using e(2) by blast
    moreover have "y' = y" using calculation(1) kq d(2) by simp
    moreover have "comparable x" "comparable y" using VObject.prems x kq w by auto
    ultimately have "equals_value y x" using VObject.IH [of "(k, x)" x y] x by simp
    moreover have "map_of ps k = Some x" using x d(1) by simp
    ultimately show ?thesis by blast
  qed
  then show ?case using e(1) unfolding w equals_object by auto
qed (auto simp: value_type_null split: nyxj_value.splits dest: dbl_eq_sym)

lemma equals_trans:
  "equals_value u v \<Longrightarrow> equals_value v w \<Longrightarrow> equals_value u w"
proof (induction u arbitrary: v w)
  case (VArray f xs m)
  then obtain g ys n where v: "v = VArray g ys n" by (cases v) auto
  then obtain g' zs n' where w: "w = VArray g' zs n'" using VArray.prems(2) by (cases w) auto
  have "list_all2 equals_value xs ys" "list_all2 equals_value ys zs" using VArray.prems v w by (simp_all only: equals_array)
  then have "list_all2 equals_value xs zs" using VArray.IH
    by (auto simp: list_all2_conv_all_nth)
  then show ?case by (simp only: w equals_array)
next
  case (VObject f ps)
  then obtain g qs where v: "v = VObject g qs" by (cases v) auto
  then obtain g' rs where w: "w = VObject g' rs" using VObject.prems(2) by (cases w) auto
  have e: "length ps = length qs" "\<forall>(k, x) \<in> set ps. \<exists>y. map_of qs k = Some y \<and> equals_value x y"
    "length qs = length rs" "\<forall>(k, x) \<in> set qs. \<exists>y. map_of rs k = Some y \<and> equals_value x y"
    using VObject.prems unfolding v w equals_object by blast+
  have "\<exists>z. map_of rs k = Some z \<and> equals_value x z" if kp: "(k, x) \<in> set ps" for k x
  proof -
    obtain y where y: "map_of qs k = Some y" "equals_value x y" using e(2) kp by blast
    then obtain z where "map_of rs k = Some z" "equals_value y z" using e(4) map_of_SomeD by fastforce
    moreover have "equals_value x z" using VObject.IH [of "(k, x)" x y z] kp y(2) calculation(2) by simp
    ultimately show ?thesis by blast
  qed
  then show ?case using e(1,3) unfolding w equals_object by auto
qed (auto simp: value_type_null split: nyxj_value.splits dest: dbl_eq_trans)


subsection \<open>Paths\<close>

text \<open>A path is a list of steps; its text is \<open>.key\<close> and \<open>[index]\<close> in turn.\<close>

datatype path_step = Key string | Index int

primrec step_text :: "path_step \<Rightarrow> string" where
  "step_text (Key k) = CHR ''.'' # k"
| "step_text (Index i) = CHR ''['' # dec_int i @ '']''"

primrec step_into :: "path_step \<Rightarrow> nyxj_value option \<Rightarrow> nyxj_value option" where
  "step_into (Key k) v = nyxj_get_member v k"
| "step_into (Index i) v = nyxj_array_get v i"

primrec path_step_ok :: "path_step \<Rightarrow> bool" where
  "path_step_ok (Key k) \<longleftrightarrow> k \<noteq> [] \<and> length k < 256 \<and> CHR ''.'' \<notin> set k \<and> CHR ''['' \<notin> set k"
| "path_step_ok (Index i) \<longleftrightarrow> \<bar>i\<bar> \<le> 0x7FFFFFFF"

definition path_text :: "path_step list \<Rightarrow> string" where
  "path_text steps = concat (map step_text steps)"

lemma char_le_byte: "c \<le> d \<longleftrightarrow> byte c \<le> byte d" "c < d \<longleftrightarrow> byte c < byte d"
  by (simp_all add: less_eq_char_def less_char_def)

lemma index_digits_text:
  "digits ds \<Longrightarrow> stops_digits q \<Longrightarrow> a * 10 ^ length ds + int (dec_val ds) \<le> 0x7FFFFFFF \<Longrightarrow> 0 \<le> a \<Longrightarrow>
     index_digits (ds @ q) a = Some (a * 10 ^ length ds + int (dec_val ds), q)"
proof (induction ds arbitrary: a)
  case Nil
  then show ?case by (cases q) (auto simp: stops_digits_def is_digit_char_def char_le_byte)
next
  case (Cons c ds)
  define b where "b = a * 10 + int (digit_val c)"
  have b: "a * 10 ^ length (c # ds) + int (dec_val (c # ds)) = b * 10 ^ length ds + int (dec_val ds)"
    by (simp add: b_def dec_val_Cons algebra_simps)
  have "b \<le> b * 10 ^ length ds" using Cons.prems(4) mult_left_mono [of 1 "10 ^ length ds" b] by (simp add: b_def)
  then have "b \<le> 0x7FFFFFFF" using Cons.prems(3) b by linarith
  moreover have "int (byte c) - 48 = int (digit_val c)" using Cons.prems(1) by (simp add: is_digit_char_def digit_val_def)
  ultimately have "index_digits ((c # ds) @ q) a = index_digits (ds @ q) b"
    using Cons.prems(1) by (simp add: Let_def b_def char_le_byte is_digit_char_def)
  then show ?case using Cons.IH [of b] Cons.prems b by (simp add: b_def)
qed

lemma path_index_text:
  assumes "\<bar>i\<bar> \<le> 0x7FFFFFFF"
  shows "path_index (dec_int i @ CHR '']'' # q) = Some (i, q)"
proof -
  define n where "n = nat \<bar>i\<bar>"
  have n: "int n = \<bar>i\<bar>" by (simp add: n_def)
  have hd: "is_digit_char (hd (dec_nat n))" "dec_nat n \<noteq> []"
    using dec_nat_digits [of n] by (cases "dec_nat n"; simp)+
  then have h: "\<not> hd (dec_nat n) < CHR ''0''" "\<not> CHR ''9'' < hd (dec_nat n)" "hd (dec_nat n) \<noteq> CHR ''-''"
    by (auto simp: is_digit_char_def char_le_byte)
  have "index_digits (dec_nat n @ CHR '']'' # q) 0 = Some (int n, CHR '']'' # q)"
    using index_digits_text [of "dec_nat n" "CHR '']'' # q" 0] n assms
    by (simp add: stops_digits_def is_digit_char_def)
  moreover have "dec_int i = (if i < 0 then CHR ''-'' # dec_nat n else dec_nat n)"
    by (simp add: dec_int_def n_def)
  ultimately show ?thesis using h hd n by (auto simp: path_index_def Let_def)
qed

lemma path_key_text:
  "n + length k < 256 \<Longrightarrow> CHR ''.'' \<notin> set k \<Longrightarrow> CHR ''['' \<notin> set k \<Longrightarrow>
     q = [] \<or> hd q = CHR ''.'' \<or> hd q = CHR ''['' \<Longrightarrow> path_key (k @ q) n = Some (k, q)"
proof (induction k arbitrary: n)
  case Nil
  then show ?case by (cases q) auto
qed auto

lemma path_text_hd: "path_text steps = [] \<or> hd (path_text steps) = CHR ''.'' \<or> hd (path_text steps) = CHR ''[''"
  by (cases steps; cases "hd steps") (auto simp: path_text_def)

lemma step_into_None [simp]: "step_into st None = None"
  by (cases st) auto

lemma fold_step_None [simp]: "fold step_into steps None = None"
  by (induction steps) auto

lemma path_walk_None: "path_walk None p = None"
  by (cases p) auto

lemma path_walk_text:
  "list_all path_step_ok steps \<Longrightarrow> path_walk v (skip_dot (path_text steps)) = fold step_into steps v"
proof (induction steps arbitrary: v)
  case Nil
  then show ?case by (simp add: path_text_def skip_dot_def)
next
  case (Cons st steps)
  have IH: "path_walk u (skip_dot (path_text steps)) = fold step_into steps u" for u
    using Cons by simp
  show ?case
  proof (cases "v = None")
    case True
    then show ?thesis by (simp add: path_walk_None)
  next
    case v: False
    show ?thesis
    proof (cases st)
      case (Key k)
      then obtain c k' where k: "k = c # k'" "c \<noteq> CHR ''[''" using Cons.prems by (cases k) auto
      have "path_text (st # steps) = CHR ''.'' # k @ path_text steps" by (simp add: Key path_text_def)
      moreover have "path_key (k @ path_text steps) 0 = Some (k, path_text steps)"
        using Cons.prems Key path_text_hd by (intro path_key_text) auto
      ultimately show ?thesis using IH v k Key by (simp add: skip_dot_def)
    next
      case (Index i)
      then have "path_text (st # steps) = CHR ''['' # dec_int i @ CHR '']'' # path_text steps"
        by (simp add: path_text_def)
      moreover have "path_index (dec_int i @ CHR '']'' # path_text steps) = Some (i, path_text steps)"
        using Cons.prems Index by (intro path_index_text) simp
      ultimately show ?thesis using IH v Index by (simp add: skip_dot_def)
    qed
  qed
qed

text \<open>Looking a path up follows its steps one by one.\<close>

lemma nyxj_get_path_text:
  assumes "list_all path_step_ok steps"
  shows "nyxj_get_path (Some v) (Some (path_text steps)) = fold step_into steps (Some v)"
proof -
  have "path_text steps = [] \<or> hd (path_text steps) \<noteq> CHR ''$''" using path_text_hd [of steps] by auto
  then show ?thesis using path_walk_text [OF assms] by (auto simp: nyxj_get_path_def Let_def)
qed

end
