(* ===== verification/Parser_Facts.thy ===== *)
theory Parser_Facts
  imports Parser Value_Facts
begin

text \<open>
  What holds of every run of the parser: the recursion bound is never reached, a success consumes
  input and keeps the limits that were asked for, and a failure reports a code, an offset, a line
  and a column of the input. The Hoare-style predicate \<open>runs\<close> says this of one call and is closed
  under \<open>bind\<close>; it is proved for every function once, by induction on the recursion.
\<close>

subsection \<open>Contexts\<close>

text \<open>The position is in the input, and no error has been reported.\<close>

definition ctx_ok :: "pctx \<Rightarrow> bool" where
  "ctx_ok c \<longleftrightarrow> suffix (pos c) (start c) \<and> code (err c) = NYXJ_OK"

text \<open>What a successful call leaves as it was.\<close>

definition frame :: "pctx \<Rightarrow> pctx \<Rightarrow> bool" where
  "frame c c' \<longleftrightarrow>
     simd c' = simd c \<and> start c' = start c \<and> flags c' = flags c \<and> max_depth c' = max_depth c \<and>
     max_string c' = max_string c \<and> max_elements c' = max_elements c \<and> (pool c' = None \<longleftrightarrow> pool c = None) \<and>
     suffix (pos c') (pos c) \<and> err c' = err c \<and> (heap_total (mem c) \<longrightarrow> heap_total (mem c'))"

text \<open>The error names a place of the input, with its line and column.\<close>

definition located :: "bytes \<Rightarrow> nyxj_error \<Rightarrow> bool" where
  "located txt e \<longleftrightarrow>
     code e \<noteq> NYXJ_OK \<and>
     (\<exists>before after. txt = before @ after \<and> offset e = length before \<and>
        line e = Suc (count_list before (CHR 0x0A)) \<and>
        column e = Suc (length (takeWhile (\<lambda>ch. ch \<noteq> CHR 0x0A) (rev before))))"

definition runs :: "('a \<Rightarrow> pctx \<Rightarrow> bool) \<Rightarrow> pctx \<Rightarrow> 'a presult \<Rightarrow> bool" where
  "runs P c r \<longleftrightarrow>
     (ctx_ok c \<longrightarrow>
        (case r of Done x c' \<Rightarrow> frame c c' \<and> P x c'
         | Null c' \<Rightarrow> located (start c) (err c') \<and> (heap_total (mem c) \<longrightarrow> code (err c') \<noteq> NYXJ_ERR_OUT_OF_MEMORY)
         | No_fuel \<Rightarrow> True))"

lemma frame_refl [simp]: "frame c c"
  by (simp add: frame_def)

lemma frame_trans: "frame c c' \<Longrightarrow> frame c' c'' \<Longrightarrow> frame c c''"
  by (auto simp: frame_def intro: suffix_order.trans)

lemma frame_ctx_ok: "ctx_ok c \<Longrightarrow> frame c c' \<Longrightarrow> ctx_ok c'"
  by (auto simp: frame_def ctx_ok_def intro: suffix_order.trans)

lemma frame_pos: "suffix q (pos c) \<Longrightarrow> frame c (c\<lparr>pos := q\<rparr>)"
  by (simp add: frame_def)

lemma frame_pos_depth: "suffix q (pos c) \<Longrightarrow> frame c (c\<lparr>pos := q, depth := n\<rparr>)"
  by (simp add: frame_def)

lemma frame_depth: "frame c (c\<lparr>depth := n\<rparr>)"
  by (simp add: frame_def)

named_theorems run_rules \<open>rules that decompose a run\<close>

lemma runs_Done [run_rules]: "frame c c' \<Longrightarrow> P x c' \<Longrightarrow> runs P c (Done x c')"
  by (simp add: runs_def)

lemma runs_No_fuel [run_rules]: "runs P c No_fuel"
  by (simp add: runs_def)

lemma runs_bind:
  assumes "runs P c r" "\<And>x c'. ctx_ok c' \<Longrightarrow> frame c c' \<Longrightarrow> P x c' \<Longrightarrow> runs Q c' (f x c')"
  shows "runs Q c (bind r f)"
proof (cases r)
  case (Done x c1)
  show ?thesis
    unfolding runs_def
  proof
    assume ok: "ctx_ok c"
    then have p: "frame c c1" "P x c1" using assms(1) Done by (auto simp: runs_def)
    note ok1 = frame_ctx_ok [OF ok p(1)]
    have "runs Q c1 (f x c1)" by (rule assms(2) [OF ok1 p])
    then show "case bind r f of Done y c' \<Rightarrow> frame c c' \<and> Q y c'
        | Null c' \<Rightarrow> located (start c) (err c') \<and> (heap_total (mem c) \<longrightarrow> code (err c') \<noteq> NYXJ_ERR_OUT_OF_MEMORY)
        | No_fuel \<Rightarrow> True"
      using ok1 p(1) frame_trans [OF p(1)] Done
      by (auto simp: runs_def bind_def frame_def split: presult.splits)
  qed
qed (use assms(1) in \<open>auto simp: runs_def bind_def split: presult.splits\<close>)

lemma runs_mono: "runs P c r \<Longrightarrow> (\<And>x c'. ctx_ok c \<Longrightarrow> frame c c' \<Longrightarrow> P x c' \<Longrightarrow> Q x c') \<Longrightarrow> runs Q c r"
  by (auto simp: runs_def split: presult.splits)

lemma runs_at: "(ctx_ok c \<Longrightarrow> runs P c r) \<Longrightarrow> runs P c r"
  by (simp add: runs_def)

lemma located_fail:
  assumes "suffix at (start c)" "code (err c) = NYXJ_OK" "ec \<noteq> NYXJ_OK"
  shows "located (start c) (err (fail c ec at detail))" "code (err (fail c ec at detail)) = ec"
proof -
  obtain before where b: "start c = before @ at" using assms(1) by (auto simp: suffix_def)
  note l = nyxj_locate_position [OF b]
  have "code (nyxj_locate (start c) at ((err c)\<lparr>code := ec\<rparr>)) = ec"
    by (simp add: nyxj_locate_def Let_def split: prod.split)
  then show "located (start c) (err (fail c ec at detail))" "code (err (fail c ec at detail)) = ec"
    using assms b l by (auto simp: fail_def located_def Let_def)
qed

lemma runs_fail [run_rules]:
  "(ctx_ok c \<Longrightarrow> suffix at (start c)) \<Longrightarrow> ec \<noteq> NYXJ_OK \<Longrightarrow>
     (heap_total (mem c) \<Longrightarrow> ec \<noteq> NYXJ_ERR_OUT_OF_MEMORY) \<Longrightarrow> runs P c (fails c ec at detail)"
  by (auto simp: runs_def ctx_ok_def located_fail)

lemma runs_fail_pos:
  "suffix at (pos c) \<Longrightarrow> ec \<noteq> NYXJ_OK \<Longrightarrow>
     (heap_total (mem c) \<Longrightarrow> ec \<noteq> NYXJ_ERR_OUT_OF_MEMORY) \<Longrightarrow> runs P c (fails c ec at detail)"
  by (rule runs_fail) (auto simp: ctx_ok_def intro: suffix_order.trans)

lemma runs_shift: "frame c c1 \<Longrightarrow> (ctx_ok c \<Longrightarrow> runs P c1 r) \<Longrightarrow> runs P c r"
  by (auto simp: runs_def frame_ctx_ok intro: frame_trans split: presult.splits) (auto simp: frame_def)

lemma frame_shorter: "frame c c' \<Longrightarrow> length (pos c') \<le> length (pos c)"
  by (simp add: frame_def suffix_length_le)

lemma runs_if: "(b \<Longrightarrow> runs P c r) \<Longrightarrow> (\<not> b \<Longrightarrow> runs P c s) \<Longrightarrow> runs P c (if b then r else s)"
  by simp

subsection \<open>The leaf functions\<close>

lemma block_new_total: "heap_total h \<Longrightarrow> \<exists>b h'. block_new h nm sz = (Some b, h') \<and> heap_total h'"
  using malloc_total [of h "unat (32 + sz + 15)"] by (auto simp: block_new_def split: prod.splits)

lemma arena_bump_Some: "blocks a \<noteq> [] \<Longrightarrow> \<exists>q a'. arena_bump a sz = (Some q, a')"
  by (auto simp: arena_bump_def neq_Nil_conv)

lemma nyxj_arena_alloc_total:
  assumes "heap_total h" "nyxj_arena_alloc h a n = (p, a', h')"
  shows "p \<noteq> None \<and> heap_total h'"
proof (cases "blocks a = [] \<or> blk_size (hd (blocks a)) < blk_used (hd (blocks a)) + round_size n")
  case True
  define bsize where "bsize = (if arena_block_size a < round_size n then round_size n else arena_block_size a)"
  obtain b h1 where b: "block_new h (next_name a) bsize = (Some b, h1)" "heap_total h1"
    using block_new_total [OF assms(1)] by blast
  have "blocks (a\<lparr>blocks := b # blocks a, next_name := Suc (next_name a)\<rparr>) \<noteq> []" by simp
  from arena_bump_Some [OF this, of "round_size n"]
  obtain q a1 where "arena_bump (a\<lparr>blocks := b # blocks a, next_name := Suc (next_name a)\<rparr>) (round_size n) = (Some q, a1)"
    by blast
  then show ?thesis using assms(2) True b by (auto simp: nyxj_arena_alloc_def Let_def simp flip: bsize_def)
next
  case False
  then obtain q a1 where "arena_bump a (round_size n) = (Some q, a1)" using arena_bump_Some by blast
  then show ?thesis using assms False by (auto simp: nyxj_arena_alloc_def Let_def)
qed

lemma runs_palloc: "runs (\<lambda>_ c'. pos c' = pos c \<and> depth c' = depth c) c (palloc c n)"
proof (cases "pool c")
  case None
  obtain ok h where m: "malloc (mem c) n = (ok, h)" by fastforce
  have t: "heap_total (mem c) \<longrightarrow> ok \<and> heap_total h" using malloc_total [of "mem c" n] m by simp
  have "ctx_ok c \<Longrightarrow> located (start c) (err (fail (c\<lparr>mem := h\<rparr>) NYXJ_ERR_OUT_OF_MEMORY (pos c) None))"
    using located_fail(1) [of "pos c" "c\<lparr>mem := h\<rparr>"] by (simp add: ctx_ok_def)
  then show ?thesis using None m t by (auto simp: palloc_def runs_def frame_def Let_def)
next
  case (Some a)
  obtain p a' h where m: "nyxj_arena_alloc (mem c) a (word_of_nat n) = (p, a', h)" by (metis prod_cases3)
  have t: "heap_total (mem c) \<longrightarrow> p \<noteq> None \<and> heap_total h" using nyxj_arena_alloc_total m by blast
  have "ctx_ok c \<Longrightarrow>
      located (start c) (err (fail (c\<lparr>pool := Some a', mem := h\<rparr>) NYXJ_ERR_OUT_OF_MEMORY (pos c) None))"
    using located_fail(1) [of "pos c" "c\<lparr>pool := Some a', mem := h\<rparr>"] by (simp add: ctx_ok_def)
  then show ?thesis using Some m t by (auto simp: palloc_def runs_def frame_def Let_def)
qed

lemma runs_pvalue:
  "runs (\<lambda>fl c'. pos c' = pos c \<and> depth c' = depth c \<and> (fl \<longleftrightarrow> pool c \<noteq> None)) c (pvalue c)"
  unfolding pvalue_def by (rule runs_bind [OF runs_palloc]) (auto intro!: runs_Done simp: frame_def)

lemma suffix_line_end: "suffix (line_end p) p"
  by (induction p) (auto intro: suffix_ConsI)

lemma suffix_block_end: "suffix (block_end p) p"
  by (induction p rule: block_end.induct) (auto intro: suffix_ConsI)

lemma suffix_scan_ws: "suffix (nyxj_scan_ws b p) p"
  by (simp add: nyxj_scan_ws_eq suffix_dropWhile)

lemma suffix_drop_le: "suffix q p \<Longrightarrow> suffix (drop n q) p"
  using suffix_drop suffix_order.trans by blast

lemma skip_blank_suffix:
  "case skip_blank b com p of Inl (o', q) \<Rightarrow> suffix o' p \<and> suffix q p | Inr q \<Rightarrow> suffix q p"
proof (induction b com p rule: skip_blank.induct)
  case (1 b com p)
  let ?p = "nyxj_scan_ws b p"
  have s: "suffix ?p p" by (rule suffix_scan_ws)
  have l: "suffix (line_end (drop 2 ?p)) p" "suffix (block_end (drop 2 ?p)) p"
    using suffix_line_end suffix_block_end suffix_drop_le [OF s] suffix_order.trans by blast+
  show ?case
    using 1(1) [OF refl] 1(2) [OF refl _ _ _ refl] s l suffix_drop_le [OF l(2)]
    by (subst skip_blank.simps)
      (auto simp: Let_def split: sum.splits prod.splits intro: suffix_order.trans)
qed

lemma runs_skip_ws: "runs (\<lambda>_ c'. depth c' = depth c) c (skip_ws c)"
proof -
  note s = skip_blank_suffix [where b = "simd c" and com = "allow_comments (flags c)" and p = "pos c"]
  show ?thesis
  proof (cases "skip_blank (simd c) (allow_comments (flags c)) (pos c)")
    case (Inl e)
    obtain o' q where e: "e = (o', q)" by fastforce
    have "ctx_ok c \<Longrightarrow> suffix o' (start c)" using s Inl e
      by (auto simp: ctx_ok_def intro: suffix_order.trans)
    then have "ctx_ok c \<Longrightarrow> located (start c)
        (err (fail (c\<lparr>pos := q\<rparr>) NYXJ_ERR_UNEXPECTED_EOF o' (Some ''unterminated comment'')))
        \<and> code (err (fail (c\<lparr>pos := q\<rparr>) NYXJ_ERR_UNEXPECTED_EOF o' (Some ''unterminated comment''))) = NYXJ_ERR_UNEXPECTED_EOF"
      using located_fail [of o' "c\<lparr>pos := q\<rparr>"] by (simp add: ctx_ok_def)
    then show ?thesis using Inl e by (auto simp: skip_ws_def runs_def)
  next
    case (Inr q)
    then show ?thesis using s by (auto simp: skip_ws_def runs_def frame_def)
  qed
qed

subsection \<open>Strings\<close>

lemma suffix_special: "suffix (nyxj_scan_string_special b p) p"
  by (simp add: nyxj_scan_string_special_eq suffix_dropWhile)

lemma find_quote_suffix:
  "case find_quote b r of
     Inr q \<Rightarrow> suffix q r \<and> q \<noteq> [] \<and> hd q = CHR 0x22
   | Inl (ec, at) \<Rightarrow> ec \<in> {NYXJ_ERR_INVALID_STRING, NYXJ_ERR_CONTROL_CHAR} \<and> (\<forall>a. at = Some a \<longrightarrow> suffix a r)"
proof (induction b r rule: find_quote.induct)
  case (1 b r)
  let ?r = "nyxj_scan_string_special b (drop 2 r)"
  have s: "suffix ?r r" using suffix_special suffix_drop suffix_order.trans by blast
  consider "r = []" | "r \<noteq> []" "hd r = CHR 0x22" | "r \<noteq> []" "hd r = CHR 0x5C" "length r < 2"
    | "r \<noteq> []" "hd r = CHR 0x5C" "\<not> length r < 2" | "r \<noteq> []" "hd r \<noteq> CHR 0x22" "hd r \<noteq> CHR 0x5C"
    by blast
  then show ?case
  proof cases
    case 4
    then have "find_quote b r = find_quote b ?r" by (subst find_quote.simps) simp
    then show ?thesis using 1 4 s by (auto split: sum.splits prod.splits intro: suffix_order.trans)
  qed (subst find_quote.simps, simp)+
qed

text \<open>One round of the decoding loop.\<close>

lemma unescape_step:
  fixes r x :: bytes
  defines "seg \<equiv> takeWhile (\<lambda>ch. ch \<noteq> CHR 0x5C) (take (length x - length r) x)"
  defines "y \<equiv> drop (length seg) x"
  shows "unescape r x = (if length x \<le> length r then Inr []
      else if nyxj_utf8_invalid_at seg \<noteq> length seg then Inl (NYXJ_ERR_INVALID_UTF8, drop (nyxj_utf8_invalid_at seg) x)
      else if length y \<le> length r then Inr seg
      else case nyxj_decode_escape (take (length y - length r) y) of
        Inl ec \<Rightarrow> Inl (if ec = NYXJ_ERR_UNEXPECTED_EOF
            then if y ! 1 = CHR ''u'' then NYXJ_ERR_INVALID_UNICODE else NYXJ_ERR_INVALID_ESCAPE else ec, y)
      | Inr (used, out) \<Rightarrow> map_sum id (\<lambda>d. seg @ out @ d) (unescape r (drop used y)))"
  unfolding seg_def y_def by (subst unescape.simps) (simp only: Let_def)

lemma unescape_error:
  "unescape r x = Inl (ec, at) \<Longrightarrow> suffix at x \<and> ec \<notin> {NYXJ_OK, NYXJ_ERR_OUT_OF_MEMORY}"
proof (induction "length x" arbitrary: x rule: less_induct)
  case less
  define seg where "seg = takeWhile (\<lambda>ch. ch \<noteq> CHR 0x5C) (take (length x - length r) x)"
  define y where "y = drop (length seg) x"
  note step = unescape_step [of r x, folded seg_def, folded y_def]
  have sy: "suffix y x" by (simp add: y_def suffix_drop)
  have nx: "\<not> length x \<le> length r" using less.prems step by (auto split: if_splits)
  consider (utf) "nyxj_utf8_invalid_at seg \<noteq> length seg"
    | (esc) "nyxj_utf8_invalid_at seg = length seg" "\<not> length y \<le> length r"
    using less.prems step nx by fastforce
  then show ?case
  proof cases
    case utf
    then show ?thesis using less.prems step nx by (auto simp: suffix_drop)
  next
    case esc
    show ?thesis
    proof (cases "nyxj_decode_escape (take (length y - length r) y)")
      case (Inl e)
      then show ?thesis using less.prems step nx esc sy nyxj_decode_escape_errors [OF Inl]
        by (auto split: if_splits)
    next
      case (Inr uo)
      obtain used out where uo: "uo = (used, out)" by fastforce
      have e: "unescape r (drop used y) = Inl (ec, at)"
        using less.prems step nx esc Inr uo by (cases "unescape r (drop used y)") auto
      have "0 < used" using nyxj_decode_escape_used Inr uo by fastforce
      then have "length (drop used y) < length x" using nx esc by (simp add: y_def)
      from less.hyps [OF this e] show ?thesis using sy suffix_drop suffix_order.trans by blast
    qed
  qed
qed

lemma runs_parse_string:
  assumes "pos c \<noteq> []"
  shows "runs (\<lambda>s c'. length (pos c') < length (pos c) \<and> depth c' = depth c \<and>
      (max_string c \<noteq> 0 \<longrightarrow> length s \<le> max_string c)) c (parse_string c)"
proof -
  let ?s = "tl (pos c)"
  let ?q = "nyxj_scan_string_special (simd c) ?s"
  let ?n = "length ?s - length ?q"
  have s: "suffix ?s (pos c)" by (rule suffix_tl)
  have q: "suffix ?q (pos c)" using suffix_special s suffix_order.trans by blast
  have sub: "length ?s < length (pos c)" using assms by (cases "pos c") auto
  have l: "length ?q \<le> length ?s" using suffix_length_le [OF suffix_special] .
  have ok: "suffix p (pos c) \<Longrightarrow> frame c c' \<Longrightarrow> ctx_ok c' \<Longrightarrow> suffix p (start c')" if "ctx_ok c" for p c'
    using that by (auto simp: ctx_ok_def frame_def intro: suffix_order.trans)
  have fast: ?thesis if f: "?q \<noteq> [] \<and> hd ?q = CHR 0x22"
  proof -
    have st: "suffix (tl ?q) (pos c)" using suffix_tl q suffix_order.trans by blast
    have lt: "length (tl ?q) < length (pos c)" using l sub f by (cases ?q) auto
    have bad: "suffix (drop (nyxj_utf8_invalid_at (take ?n ?s)) ?s) (pos c)"
      using suffix_drop s suffix_order.trans by blast
    show ?thesis
      unfolding parse_string_def Let_def if_P [OF f]
      using f st lt bad
      by (intro runs_if runs_bind [OF runs_palloc] runs_Done runs_fail_pos)
        (auto intro: frame_pos)
  qed
  have slow: ?thesis if f: "\<not> (?q \<noteq> [] \<and> hd ?q = CHR 0x22)"
  proof (cases "find_quote (simd c) ?q")
    case (Inl e)
    obtain ec at where e: "e = (ec, at)" by fastforce
    have "ec \<in> {NYXJ_ERR_INVALID_STRING, NYXJ_ERR_CONTROL_CHAR} \<and> (\<forall>a. at = Some a \<longrightarrow> suffix a (pos c))"
      using find_quote_suffix [where b = "simd c" and r = ?q] Inl e q by (auto intro: suffix_order.trans)
    then show ?thesis
      unfolding parse_string_def Let_def if_not_P [OF f] Inl e
      by (cases at) (auto intro!: runs_fail_pos)
  next
    case (Inr r)
    have r: "suffix r ?q" "r \<noteq> []" using find_quote_suffix [where b = "simd c" and r = ?q] Inr by auto
    then have st: "suffix (tl r) (pos c)" using suffix_tl q suffix_order.trans by blast
    have lt: "length (tl r) < length (pos c)" using suffix_length_le [OF r(1)] l sub r(2) by (cases r) auto
    have "runs (\<lambda>s c'. length (pos c') < length (pos c) \<and> depth c' = depth c \<and>
        (max_string c \<noteq> 0 \<longrightarrow> length s \<le> max_string c)) c1
        (case unescape r ?s of Inl (ec, at) \<Rightarrow> fails c1 ec at None
         | Inr d \<Rightarrow> if max_string c1 \<noteq> 0 \<and> max_string c1 < length d then fails c1 NYXJ_ERR_STRING_LIMIT (pos c) None
             else Done d (c1\<lparr>pos := tl r\<rparr>))"
      if c1: "ctx_ok c1" "frame c c1" "pos c1 = pos c \<and> depth c1 = depth c" for c1
    proof (cases "unescape r ?s")
      case (Inl e)
      obtain ec at where e: "e = (ec, at)" by fastforce
      have "suffix at ?s" "ec \<notin> {NYXJ_OK, NYXJ_ERR_OUT_OF_MEMORY}" using unescape_error Inl e by blast+
      then have "suffix at (pos c1)" using s c1(3) suffix_order.trans by fastforce
      then show ?thesis using \<open>ec \<notin> _\<close> unfolding Inl e by (auto intro!: runs_fail_pos)
    next
      case (Inr d)
      then show ?thesis using c1 st lt
        by (auto simp: frame_def intro!: runs_if runs_fail_pos runs_Done)
    qed
    then show ?thesis unfolding parse_string_def Let_def if_not_P [OF f] Inr sum.case
      by (intro runs_bind [OF runs_palloc]) auto
  qed
  show ?thesis using fast slow by blast
qed


subsection \<open>Scalars and the parts of containers\<close>

text \<open>A value that respects the limits of the context, with \<open>d\<close> levels of nesting left.\<close>

fun within :: "nat \<Rightarrow> pctx \<Rightarrow> nyxj_value \<Rightarrow> bool" where
  "within d c (VNull fl) \<longleftrightarrow> (fl \<longleftrightarrow> pool c \<noteq> None)"
| "within d c (VBool fl b) \<longleftrightarrow> (fl \<longleftrightarrow> pool c \<noteq> None)"
| "within d c (VNumber fl n) \<longleftrightarrow> (fl \<longleftrightarrow> pool c \<noteq> None)"
| "within d c (VString fl s) \<longleftrightarrow>
     (fl \<longleftrightarrow> pool c \<noteq> None) \<and> no_nul s \<and> (max_string c \<noteq> 0 \<longrightarrow> length s \<le> max_string c)"
| "within d c (VArray fl xs cap) \<longleftrightarrow>
     (fl \<longleftrightarrow> pool c \<noteq> None) \<and> 0 < d \<and> length xs \<le> cap \<and>
     (max_elements c \<noteq> 0 \<longrightarrow> length xs \<le> max_elements c) \<and> (\<forall>x \<in> set xs. within (d - 1) c x)"
| "within d c (VObject fl ps) \<longleftrightarrow>
     (fl \<longleftrightarrow> pool c \<noteq> None) \<and> 0 < d \<and> (max_elements c \<noteq> 0 \<longrightarrow> length ps \<le> max_elements c) \<and>
     (reject_duplicate_keys (flags c) \<longrightarrow> distinct (map fst ps)) \<and>
     (\<forall>(k, v) \<in> set ps. no_nul k \<and> (max_string c \<noteq> 0 \<longrightarrow> length k \<le> max_string c) \<and> within (d - 1) c v)"

lemma within_frame: "frame c c' \<Longrightarrow> within d c' v = within d c v"
proof (induction v arbitrary: d)
  case (VObject f ps)
  then have "within (d - 1) c' v = within (d - 1) c v" if "(k, v) \<in> set ps" for k v
    using that by force
  then show ?case using VObject.prems by (auto simp: frame_def)
qed (auto simp: frame_def)

lemma starts_with_length: "starts_with w p \<Longrightarrow> length w \<le> length p"
  by (auto simp: starts_with_iff)

lemma runs_parse_literal:
  assumes "word \<noteq> []" "\<And>fl. within d c (mk fl) \<longleftrightarrow> (fl \<longleftrightarrow> pool c \<noteq> None)"
  shows "runs (\<lambda>v c'. length (pos c') < length (pos c) \<and> depth c' = depth c \<and> within d c v) c (parse_literal c word mk)"
  unfolding parse_literal_def
proof (intro runs_if)
  assume w: "\<not> (length (pos c) < length word \<or> \<not> starts_with word (pos c))"
  show "runs (\<lambda>v c'. length (pos c') < length (pos c) \<and> depth c' = depth c \<and> within d c v) c
      (bind (pvalue c) (\<lambda>fl c. Done (mk fl) (c\<lparr>pos := drop (length word) (pos c)\<rparr>)))"
  proof (rule runs_bind [OF runs_pvalue])
    fix fl c1
    assume c1: "frame c c1" "pos c1 = pos c \<and> depth c1 = depth c \<and> fl = (pool c \<noteq> None)"
    have "0 < length word" "length word \<le> length (pos c)" using w assms(1) by auto
    then have "length (drop (length word) (pos c)) < length (pos c)" unfolding length_drop by linarith
    moreover have "frame c1 (c1\<lparr>pos := drop (length word) (pos c1)\<rparr>)" by (rule frame_pos) (rule suffix_drop)
    ultimately show "runs (\<lambda>v c'. length (pos c') < length (pos c) \<and> depth c' = depth c \<and> within d c v) c1
        (Done (mk fl) (c1\<lparr>pos := drop (length word) (pos c1)\<rparr>))"
      using c1(2) assms(2) by (intro runs_Done) simp_all
  qed
qed (auto intro: runs_fail_pos)

lemma nyxj_number_value_total: "heap_total h \<Longrightarrow> heap_total (snd (nyxj_number_value h t))"
  using malloc_total [of h "length t + 1"]
  by (auto simp: nyxj_number_value_def Let_def split: prod.splits)

lemma nyxj_scan_number_shorter: "nyxj_scan_number p = Some q \<Longrightarrow> suffix q p \<and> length q < length p"
proof -
  assume "nyxj_scan_number p = Some q"
  then obtain tok where t: "p = tok @ q" "json_number tok" by (rule nyxj_scan_number_sound)
  then have "tok \<noteq> []" by (auto simp: json_number_def number_token_def json_int_def)
  then show ?thesis using t by (auto simp: suffix_def)
qed

lemma runs_parse_number:
  "runs (\<lambda>v c'. length (pos c') < length (pos c) \<and> depth c' = depth c \<and> within d c v) c (parse_number c)"
proof (cases "nyxj_scan_number (pos c)")
  case None
  then show ?thesis by (auto simp: parse_number_def intro: runs_fail_pos)
next
  case (Some e)
  note e = nyxj_scan_number_shorter [OF Some]
  show ?thesis unfolding parse_number_def Some option.case
  proof (rule runs_bind [OF runs_pvalue])
    fix fl c1
    assume c1: "frame c c1" "pos c1 = pos c \<and> depth c1 = depth c \<and> fl = (pool c \<noteq> None)"
    obtain n h where v: "nyxj_number_value (mem c1) (take (length (pos c1) - length e) (pos c1)) = (n, h)" by fastforce
    then have "heap_total (mem c1) \<longrightarrow> heap_total h" using nyxj_number_value_total by (metis snd_conv)
    then have "frame c1 (c1\<lparr>pos := e, mem := h\<rparr>)" using e c1(2) by (simp add: frame_def)
    then show "runs (\<lambda>v c'. length (pos c') < length (pos c) \<and> depth c' = depth c \<and> within d c v) c1
        (let (n, h) = nyxj_number_value (mem c1) (take (length (pos c1) - length e) (pos c1))
         in Done (VNumber fl n) (c1\<lparr>pos := e, mem := h\<rparr>))"
      unfolding v prod.case using e c1(2) by (simp add: runs_Done)
  qed
qed

lemma runs_open_container:
  assumes "pos c \<noteq> []"
  shows "runs (\<lambda>fl c'. length (pos c') < length (pos c) \<and> depth c' = Suc (depth c) \<and>
      Suc (depth c) \<le> max_depth c \<and> (fl \<longleftrightarrow> pool c \<noteq> None)) c (open_container c)"
proof -
  let ?c = "c\<lparr>pos := tl (pos c), depth := depth c + 1\<rparr>"
  have f: "frame c ?c" by (rule frame_pos_depth) (rule suffix_tl)
  have lt: "length (pos ?c) < length (pos c)" using assms by (cases "pos c") auto
  show ?thesis unfolding open_container_def Let_def
  proof (rule runs_shift [OF f], intro runs_if)
    assume ok: "ctx_ok c"
    then show "runs (\<lambda>fl c'. length (pos c') < length (pos c) \<and> depth c' = Suc (depth c) \<and>
      Suc (depth c) \<le> max_depth c \<and> (fl \<longleftrightarrow> pool c \<noteq> None)) ?c (fails ?c NYXJ_ERR_DEPTH_LIMIT (pos c) None)"
      by (intro runs_fail) (auto simp: ctx_ok_def)
    assume d: "\<not> max_depth ?c < depth ?c"
    show "runs (\<lambda>fl c'. length (pos c') < length (pos c) \<and> depth c' = Suc (depth c) \<and>
      Suc (depth c) \<le> max_depth c \<and> (fl \<longleftrightarrow> pool c \<noteq> None)) ?c
      (bind (pvalue ?c) (\<lambda>fl c. bind (skip_ws c) (\<lambda>_ c. Done fl c)))"
    proof (rule runs_bind [OF runs_pvalue], rule runs_bind [OF runs_skip_ws], rule runs_Done)
      fix fl c1 c2
      assume "frame ?c c1" "pos c1 = pos ?c \<and> depth c1 = depth ?c \<and> fl = (pool ?c \<noteq> None)"
        "frame c1 c2" "depth c2 = depth c1"
      then show "length (pos c2) < length (pos c) \<and> depth c2 = Suc (depth c) \<and>
          Suc (depth c) \<le> max_depth c \<and> fl = (pool c \<noteq> None)"
        using d lt frame_shorter [of c1 c2] by simp
    qed simp
  qed
qed

lemma runs_push_item: "runs (\<lambda>_ c'. pos c' = pos c \<and> depth c' = depth c) c (push_item c n cap)"
proof -
  obtain ok h where m: "malloc (mem c) (pointer_bytes * cap * 2) = (ok, h)" by fastforce
  have t: "heap_total (mem c) \<longrightarrow> ok \<and> heap_total h"
    using malloc_total [of "mem c" "pointer_bytes * cap * 2"] m by simp
  have "ctx_ok c \<Longrightarrow> located (start c) (err (fail (c\<lparr>mem := h\<rparr>) NYXJ_ERR_OUT_OF_MEMORY (pos c) None))"
    using located_fail(1) [of "pos c" "c\<lparr>mem := h\<rparr>"] by (simp add: ctx_ok_def)
  then show ?thesis using m t by (auto simp: push_item_def runs_def frame_def Let_def)
qed

lemma tl_shorter: "p \<noteq> [] \<Longrightarrow> length (tl p) < length p"
  by (cases p) auto

lemma runs_after_element:
  "runs (\<lambda>_ c'. length (pos c') < length (pos c) \<and> depth c' = depth c) c (after_element c close expected)"
  unfolding after_element_def
proof (rule runs_bind [OF runs_skip_ws], intro runs_if)
  fix c1 :: pctx
  let ?c = "c1\<lparr>pos := tl (pos c1)\<rparr>"
  let ?P = "\<lambda>(_::bool) c'. length (pos c') < length (pos c) \<and> depth c' = depth c"
  assume c1: "frame c c1" "depth c1 = depth c"
  have f: "frame c1 ?c" by (rule frame_pos) (rule suffix_tl)
  have lt: "length (pos ?c) < length (pos c)" if "pos c1 \<noteq> []"
    using tl_shorter [OF that] frame_shorter [OF c1(1)] by simp
  show "runs ?P c1 (fails c1 NYXJ_ERR_UNEXPECTED_EOF (pos c1) (Some expected))"
    "runs ?P c1 (fails c1 NYXJ_ERR_UNEXPECTED_CHAR (pos c1) (Some expected))"
    by (auto intro: runs_fail_pos)
  show "runs ?P c1 (Done False ?c)" if "pos c1 \<noteq> []" "hd (pos c1) = close"
    using f lt [OF that(1)] c1 by (auto intro: runs_Done)
  show "runs ?P c1 (let c = ?c in if allow_trailing_commas (flags c)
      then bind (skip_ws c)
        (\<lambda>_ c. if pos c \<noteq> [] \<and> hd (pos c) = close then Done False (c\<lparr>pos := tl (pos c)\<rparr>) else Done True c)
      else Done True c)" if ne: "pos c1 \<noteq> []"
    unfolding Let_def
  proof (rule runs_shift [OF f], intro runs_if)
    show "runs ?P ?c (Done True ?c)" using lt [OF ne] c1 by (auto intro: runs_Done)
    show "runs ?P ?c (bind (skip_ws ?c)
        (\<lambda>_ c. if pos c \<noteq> [] \<and> hd (pos c) = close then Done False (c\<lparr>pos := tl (pos c)\<rparr>) else Done True c))"
    proof (rule runs_bind [OF runs_skip_ws])
      fix c2
      assume c2: "frame ?c c2" "depth c2 = depth ?c"
      show "runs ?P c2 (if pos c2 \<noteq> [] \<and> hd (pos c2) = close then Done False (c2\<lparr>pos := tl (pos c2)\<rparr>) else Done True c2)"
        using lt [OF ne] c1(2) c2(2) frame_shorter [OF c2(1)] by (auto intro!: runs_Done frame_pos suffix_tl)
    qed
  qed
qed

lemma length_cstr_le: "length s \<le> n \<Longrightarrow> length (cstr s) \<le> n"
  using length_cstr [of s] by simp

lemma runs_parse_key:
  "runs (\<lambda>k c'. length (pos c') < length (pos c) \<and> depth c' = depth c \<and> no_nul k \<and>
      (max_string c \<noteq> 0 \<longrightarrow> length k \<le> max_string c) \<and> (reject_duplicate_keys (flags c) \<longrightarrow> k \<notin> set keys))
    c (parse_key c keys)" (is "runs ?P c _")
  unfolding parse_key_def Let_def
proof (rule runs_bind [OF runs_skip_ws], intro runs_if)
  fix c1 :: pctx
  assume c1: "frame c c1" "depth c1 = depth c"
  show "runs ?P c1 (fails c1 NYXJ_ERR_UNEXPECTED_EOF (pos c1) (Some ''expected a string key''))"
    "runs ?P c1 (fails c1 NYXJ_ERR_UNEXPECTED_CHAR (pos c1) (Some ''expected a string key''))"
    by (auto intro: runs_fail_pos)
  assume ne: "pos c1 \<noteq> []"
  show "runs ?P c1 (bind (parse_string c1) (\<lambda>key c.
      if reject_duplicate_keys (flags c) \<and> cstr key \<in> set keys then fails c NYXJ_ERR_DUPLICATE_KEY (pos c1) None
      else bind (skip_ws c) (\<lambda>_ c.
        if pos c = [] \<or> hd (pos c) \<noteq> CHR '':''
        then fails c (if pos c = [] then NYXJ_ERR_UNEXPECTED_EOF else NYXJ_ERR_UNEXPECTED_CHAR) (pos c)
          (Some (quoted ''expected ~:~''))
        else Done (cstr key) (c\<lparr>pos := tl (pos c)\<rparr>))))"
  proof (rule runs_at, rule runs_bind [OF runs_parse_string [OF ne]], intro runs_if)
    fix key :: bytes and c2 :: pctx
    assume ok1: "ctx_ok c1" and c2: "ctx_ok c2" "frame c1 c2" "length (pos c2) < length (pos c1) \<and> depth c2 = depth c1 \<and>
      (max_string c1 \<noteq> 0 \<longrightarrow> length key \<le> max_string c1)"
    show "runs ?P c2 (fails c2 NYXJ_ERR_DUPLICATE_KEY (pos c1) None)"
      using ok1 c2(2) by (intro runs_fail) (auto simp: ctx_ok_def frame_def)
    assume dup: "\<not> (reject_duplicate_keys (flags c2) \<and> cstr key \<in> set keys)"
    show "runs ?P c2 (bind (skip_ws c2) (\<lambda>_ c.
        if pos c = [] \<or> hd (pos c) \<noteq> CHR '':''
        then fails c (if pos c = [] then NYXJ_ERR_UNEXPECTED_EOF else NYXJ_ERR_UNEXPECTED_CHAR) (pos c)
          (Some (quoted ''expected ~:~''))
        else Done (cstr key) (c\<lparr>pos := tl (pos c)\<rparr>)))"
    proof (rule runs_bind [OF runs_skip_ws], intro runs_if)
      fix c3
      assume c3: "frame c2 c3" "depth c3 = depth c2"
      show "runs ?P c3 (fails c3 (if pos c3 = [] then NYXJ_ERR_UNEXPECTED_EOF else NYXJ_ERR_UNEXPECTED_CHAR) (pos c3)
          (Some (quoted ''expected ~:~'')))"
        by (auto intro: runs_fail_pos)
      have "flags c2 = flags c" "max_string c1 = max_string c" using c1 c2 by (auto simp: frame_def)
      then show "runs ?P c3 (Done (cstr key) (c3\<lparr>pos := tl (pos c3)\<rparr>))"
        using c1 c2 c3 dup frame_shorter [OF c1(1)] frame_shorter [OF c3(1)]
        by (auto intro!: runs_Done frame_pos suffix_tl intro: length_cstr_le)
    qed
  qed
qed

lemma runs_finish_array:
  "runs (\<lambda>v c'. pos c' = pos c \<and> depth c' = depth c - 1 \<and> (\<exists>cap. v = VArray fl items cap \<and> length items \<le> cap))
    c (finish_array c fl items)"
  unfolding finish_array_def Let_def
proof (intro runs_if)
  show "runs (\<lambda>v c'. pos c' = pos c \<and> depth c' = depth c - 1 \<and> (\<exists>cap. v = VArray fl items cap \<and> length items \<le> cap))
      c (Done (VArray fl [] 0) (c\<lparr>depth := depth c - 1\<rparr>))" if "items = []"
    using that by (auto intro!: runs_Done frame_depth)
  show "runs (\<lambda>v c'. pos c' = pos c \<and> depth c' = depth c - 1 \<and> (\<exists>cap. v = VArray fl items cap \<and> length items \<le> cap)) c
      (bind (palloc c (pointer_bytes * (if pool c \<noteq> None then length items else nyxj_array_capacity_for (length items))))
        (\<lambda>_ c'. Done (VArray fl items (if pool c \<noteq> None then length items else nyxj_array_capacity_for (length items)))
           (c'\<lparr>depth := depth c' - 1\<rparr>)))"
    by (rule runs_bind [OF runs_palloc]) (auto intro!: runs_Done frame_depth simp: nyxj_array_capacity_for_ge)
qed


subsection \<open>The whole parser\<close>

abbreviation elems_ok :: "pctx \<Rightarrow> nyxj_value list \<Rightarrow> bool" where
  "elems_ok c xs \<equiv> (max_elements c \<noteq> 0 \<longrightarrow> length xs \<le> max_elements c) \<and>
     (\<forall>x \<in> set xs. within (max_depth c - depth c) c x)"

abbreviation pairs_ok :: "pctx \<Rightarrow> (string \<times> nyxj_value) list \<Rightarrow> bool" where
  "pairs_ok c ps \<equiv> (max_elements c \<noteq> 0 \<longrightarrow> length ps \<le> max_elements c) \<and>
     (reject_duplicate_keys (flags c) \<longrightarrow> distinct (map fst ps)) \<and>
     (\<forall>(k, v) \<in> set ps. no_nul k \<and> (max_string c \<noteq> 0 \<longrightarrow> length k \<le> max_string c) \<and>
        within (max_depth c - depth c) c v)"

text \<open>The properties of two contexts in one frame at one depth are the same.\<close>

lemma elems_ok_frame: "frame c c' \<Longrightarrow> depth c' = depth c \<Longrightarrow> elems_ok c' xs = elems_ok c xs"
  using within_frame [of c c'] by (auto simp: frame_def)

lemma pairs_ok_frame: "frame c c' \<Longrightarrow> depth c' = depth c \<Longrightarrow> pairs_ok c' ps = pairs_ok c ps"
  using within_frame [of c c'] by (auto simp: frame_def)

lemma runs_parse:
  "runs (\<lambda>v c'. length (pos c') < length (pos c) \<and> depth c' = depth c \<and> within (max_depth c - depth c) c v)
     c (parse_value n c)"
  "pos c \<noteq> [] \<Longrightarrow>
     runs (\<lambda>v c'. length (pos c') < length (pos c) \<and> depth c' = depth c \<and> within (max_depth c - depth c) c v)
       c (parse_array n c)"
  "elems_ok c items \<Longrightarrow> suffix open_at (start c) \<Longrightarrow>
     runs (\<lambda>xs c'. length (pos c') < length (pos c) \<and> depth c' = depth c \<and> elems_ok c xs)
       c (array_loop n open_at items cap c)"
  "pos c \<noteq> [] \<Longrightarrow>
     runs (\<lambda>v c'. length (pos c') < length (pos c) \<and> depth c' = depth c \<and> within (max_depth c - depth c) c v)
       c (parse_object n c)"
  "pairs_ok c pairs \<Longrightarrow> suffix open_at (start c) \<Longrightarrow>
     runs (\<lambda>ps c'. length (pos c') < length (pos c) \<and> depth c' = depth c \<and> pairs_ok c ps)
       c (object_loop n open_at pairs c)"
proof (induction n arbitrary: c items cap pairs open_at)
  case 0
  {
    case 1
    show ?case by (simp add: runs_No_fuel)
  next
    case 2
    show ?case by (simp add: runs_No_fuel)
  next
    case 3
    show ?case by (simp add: runs_No_fuel)
  next
    case 4
    show ?case by (simp add: runs_No_fuel)
  next
    case 5
    show ?case by (simp add: runs_No_fuel)
  }
next
  case (Suc n)
  {
    case 1
    let ?P = "\<lambda>v c'. length (pos c') < length (pos c) \<and> depth c' = depth c \<and> within (max_depth c - depth c) c v"
    show ?case unfolding parse_value.simps
    proof (rule runs_bind [OF runs_skip_ws])
      fix c1
      assume c1: "frame c c1" "depth c1 = depth c"
      have w: "within (max_depth c1 - depth c1) c1 v = within (max_depth c - depth c) c v" for v
        using within_frame [OF c1(1)] c1 by (simp add: frame_def)
      have up: "runs ?P c1 r"
        if "runs (\<lambda>v c'. length (pos c') < length (pos c1) \<and> depth c' = depth c1 \<and>
              within (max_depth c1 - depth c1) c1 v) c1 r" for r
        using that by (rule runs_mono) (use w c1 frame_shorter [OF c1(1)] in auto)
      show "runs ?P c1 (if pos c1 = [] then fails c1 NYXJ_ERR_UNEXPECTED_EOF (pos c1) (Some ''expected a value'')
          else let ch = hd (pos c1)
               in if ch = CHR ''{'' then parse_object n c1
                  else if ch = CHR ''['' then parse_array n c1
                  else if ch = CHR 0x22
                  then bind (parse_string c1) (\<lambda>s c. bind (pvalue c) (\<lambda>fl c. Done (VString fl (cstr s)) c))
                  else if ch = CHR ''t'' then parse_literal c1 ''true'' (\<lambda>fl. VBool fl True)
                  else if ch = CHR ''f'' then parse_literal c1 ''false'' (\<lambda>fl. VBool fl False)
                  else if ch = CHR ''n'' then parse_literal c1 ''null'' VNull
                  else if ch = CHR ''-'' \<or> nyxj_is_digit ch then parse_number c1
                  else fails c1 NYXJ_ERR_UNEXPECTED_CHAR (pos c1) (Some ''expected a value''))"
        unfolding Let_def
      proof (intro runs_if)
        assume ne: "pos c1 \<noteq> []"
        show "runs ?P c1 (parse_object n c1)" by (rule up) (rule Suc.IH(4) [OF ne])
        show "runs ?P c1 (parse_array n c1)" by (rule up) (rule Suc.IH(2) [OF ne])
        show "runs ?P c1 (parse_literal c1 ''true'' (\<lambda>fl. VBool fl True))"
          "runs ?P c1 (parse_literal c1 ''false'' (\<lambda>fl. VBool fl False))"
          "runs ?P c1 (parse_literal c1 ''null'' VNull)"
          by (rule up, rule runs_parse_literal; simp)+
        show "runs ?P c1 (parse_number c1)" by (rule up) (rule runs_parse_number)
        show "runs ?P c1 (bind (parse_string c1) (\<lambda>s c. bind (pvalue c) (\<lambda>fl c. Done (VString fl (cstr s)) c)))"
        proof (rule up, rule runs_bind [OF runs_parse_string [OF ne]], rule runs_bind [OF runs_pvalue], rule runs_Done)
          fix s :: bytes and c2 :: pctx and fl :: bool and c3 :: pctx
          assume "frame c1 c2" "length (pos c2) < length (pos c1) \<and> depth c2 = depth c1 \<and>
              (max_string c1 \<noteq> 0 \<longrightarrow> length s \<le> max_string c1)"
            "frame c2 c3" "pos c3 = pos c2 \<and> depth c3 = depth c2 \<and> fl = (pool c2 \<noteq> None)"
          then show "length (pos c3) < length (pos c1) \<and> depth c3 = depth c1 \<and>
              within (max_depth c1 - depth c1) c1 (VString fl (cstr s))"
            by (auto simp: frame_def intro: length_cstr_le)
        qed simp
      qed (auto intro: runs_fail_pos)
    qed
  next
    case 2
    let ?P = "\<lambda>v c'. length (pos c') < length (pos c) \<and> depth c' = depth c \<and> within (max_depth c - depth c) c v"
    show ?case unfolding parse_array.simps Let_def
    proof (rule runs_at, rule runs_bind [OF runs_open_container [OF 2]], intro runs_if)
      fix fl c1
      assume ok: "ctx_ok c" and c1: "frame c c1"
        "length (pos c1) < length (pos c) \<and> depth c1 = Suc (depth c) \<and> Suc (depth c) \<le> max_depth c \<and> fl = (pool c \<noteq> None)"
      have d: "max_depth c1 - depth c1 = max_depth c - depth c - 1" using c1 by (simp add: frame_def)
      have fin: "runs ?P c2 (finish_array c2 fl items)"
        if c2: "frame c1 c2" "length (pos c2) \<le> length (pos c1)" "depth c2 = depth c1" "elems_ok c1 items" for c2 items
      proof (rule runs_mono [OF runs_finish_array])
        fix v c3
        assume c3: "pos c3 = pos c2 \<and> depth c3 = depth c2 - 1 \<and> (\<exists>cap. v = VArray fl items cap \<and> length items \<le> cap)"
        have "elems_ok c1 items \<longleftrightarrow> (max_elements c \<noteq> 0 \<longrightarrow> length items \<le> max_elements c) \<and>
            (\<forall>x \<in> set items. within (max_depth c - depth c - 1) c x)"
          using within_frame [OF c1(1)] c1(1) d by (simp add: frame_def)
        then show "?P v c3" using c1 c2 c3 by auto
      qed
      let ?c = "c1\<lparr>pos := tl (pos c1)\<rparr>"
      have f: "frame c1 ?c" by (rule frame_pos) (rule suffix_tl)
      show "runs ?P c1 (finish_array ?c fl [])"
        by (rule runs_shift [OF f], rule fin [OF f]) auto
      have e: "elems_ok c1 []" by simp
      have o': "suffix (pos c) (start c1)" using ok c1(1) by (simp add: ctx_ok_def frame_def)
      show "runs ?P c1 (bind (array_loop n (pos c) [] 16 c1) (\<lambda>items c. finish_array c fl items))"
        by (rule runs_bind [OF Suc.IH(3) [OF e o']]) (use fin in auto)
    qed
  next
    case 3
    show ?case unfolding array_loop.simps
    proof (rule runs_bind [OF Suc.IH(1)], rule runs_bind [OF runs_push_item], unfold Let_def, intro runs_if)
      fix item c1 cap' c2
      assume c1: "frame c c1" "length (pos c1) < length (pos c) \<and> depth c1 = depth c \<and> within (max_depth c - depth c) c item"
        and c2: "frame c1 c2" "pos c2 = pos c1 \<and> depth c2 = depth c1"
      note f2 = frame_trans [OF c1(1) c2(1)]
      have o': "suffix open_at (start c2)" using 3(2) f2 by (simp add: frame_def)
      show "runs (\<lambda>xs c'. length (pos c') < length (pos c) \<and> depth c' = depth c \<and> elems_ok c xs) c2
          (fails c2 NYXJ_ERR_ELEMENT_LIMIT open_at None)"
        by (rule runs_fail) (use o' in auto)
      assume lim: "\<not> (max_elements c2 \<noteq> 0 \<and> max_elements c2 < length (items @ [item]))"
      have e: "elems_ok c (items @ [item])" using 3(1) c1(2) lim f2 by (auto simp: frame_def)
      show "runs (\<lambda>xs c'. length (pos c') < length (pos c) \<and> depth c' = depth c \<and> elems_ok c xs) c2
          (bind (after_element c2 (CHR '']'') (quoted ''expected ~,~ or ~]~''))
            (\<lambda>more c. if more then array_loop n open_at (items @ [item]) cap' c else Done (items @ [item]) c))"
      proof (rule runs_bind [OF runs_after_element], intro runs_if)
        fix more c3
        assume c3: "frame c2 c3" "length (pos c3) < length (pos c2) \<and> depth c3 = depth c2"
        note f3 = frame_trans [OF f2 c3(1)]
        have d3: "depth c3 = depth c" using c1 c2 c3 by simp
        show "runs (\<lambda>xs c'. length (pos c') < length (pos c) \<and> depth c' = depth c \<and> elems_ok c xs) c3 (Done (items @ [item]) c3)"
          using e c1 c2 c3 by (intro runs_Done) auto
        have e3: "elems_ok c3 (items @ [item])" using e elems_ok_frame [OF f3 d3] by blast
        have o3: "suffix open_at (start c3)" using 3(2) f3 by (simp add: frame_def)
        show "runs (\<lambda>xs c'. length (pos c') < length (pos c) \<and> depth c' = depth c \<and> elems_ok c xs) c3
            (array_loop n open_at (items @ [item]) cap' c3)"
          by (rule runs_mono [OF Suc.IH(3) [OF e3 o3]]) (use elems_ok_frame [OF f3 d3] c1 c2 c3 in auto)
      qed
    qed
  next
    case 4
    let ?P = "\<lambda>v c'. length (pos c') < length (pos c) \<and> depth c' = depth c \<and> within (max_depth c - depth c) c v"
    show ?case unfolding parse_object.simps Let_def
    proof (rule runs_at, rule runs_bind [OF runs_open_container [OF 4]], intro runs_if)
      fix fl c1
      assume ok: "ctx_ok c" and c1: "frame c c1"
        "length (pos c1) < length (pos c) \<and> depth c1 = Suc (depth c) \<and> Suc (depth c) \<le> max_depth c \<and> fl = (pool c \<noteq> None)"
      have d: "max_depth c1 - depth c1 = max_depth c - depth c - 1" using c1 by (simp add: frame_def)
      have f: "frame c1 (c1\<lparr>pos := tl (pos c1), depth := depth c1 - 1\<rparr>)" by (rule frame_pos_depth) (rule suffix_tl)
      show "runs ?P c1 (Done (VObject fl []) (c1\<lparr>pos := tl (pos c1), depth := depth c1 - 1\<rparr>))"
        using c1 f by (intro runs_Done) auto
      have o': "suffix (pos c) (start c1)" using ok c1(1) by (simp add: ctx_ok_def frame_def)
      have e: "pairs_ok c1 []" by simp
      show "runs ?P c1 (bind (object_loop n (pos c) [] c1) (\<lambda>pairs c. Done (VObject fl pairs) (c\<lparr>depth := depth c - 1\<rparr>)))"
      proof (rule runs_bind [OF Suc.IH(5) [OF e o']], rule runs_Done)
        fix pairs c2
        assume c2: "length (pos c2) < length (pos c1) \<and> depth c2 = depth c1 \<and> pairs_ok c1 pairs"
        have "pairs_ok c1 pairs \<longleftrightarrow> (max_elements c \<noteq> 0 \<longrightarrow> length pairs \<le> max_elements c) \<and>
            (reject_duplicate_keys (flags c) \<longrightarrow> distinct (map fst pairs)) \<and>
            (\<forall>(k, v) \<in> set pairs. no_nul k \<and> (max_string c \<noteq> 0 \<longrightarrow> length k \<le> max_string c) \<and>
               within (max_depth c - depth c - 1) c v)"
          using within_frame [OF c1(1)] c1(1) d by (simp add: frame_def)
        then show "?P (VObject fl pairs) (c2\<lparr>depth := depth c2 - 1\<rparr>)" using c1 c2 by auto
      qed (rule frame_depth)
    qed
  next
    case 5
    show ?case unfolding object_loop.simps
    proof (rule runs_bind [OF runs_parse_key], rule runs_bind [OF Suc.IH(1)], rule runs_bind [OF runs_palloc],
        unfold Let_def, intro runs_if)
      fix key c1 val c2 c3 and u :: unit
      assume c1: "frame c c1" "length (pos c1) < length (pos c) \<and> depth c1 = depth c \<and> no_nul key \<and>
          (max_string c \<noteq> 0 \<longrightarrow> length key \<le> max_string c) \<and>
          (reject_duplicate_keys (flags c) \<longrightarrow> key \<notin> set (map fst pairs))"
        and c2: "frame c1 c2" "length (pos c2) < length (pos c1) \<and> depth c2 = depth c1 \<and>
          within (max_depth c1 - depth c1) c1 val"
        and c3: "frame c2 c3" "pos c3 = pos c2 \<and> depth c3 = depth c2"
      note f2 = frame_trans [OF c1(1) c2(1)]
      note f3 = frame_trans [OF f2 c3(1)]
      have o': "suffix open_at (start c3)" using 5(2) f3 by (simp add: frame_def)
      show "runs (\<lambda>ps c'. length (pos c') < length (pos c) \<and> depth c' = depth c \<and> pairs_ok c ps) c3
          (fails c3 NYXJ_ERR_ELEMENT_LIMIT open_at None)"
        by (rule runs_fail) (use o' in auto)
      assume lim: "\<not> (max_elements c3 \<noteq> 0 \<and> max_elements c3 < length (pairs @ [(key, val)]))"
      have v: "within (max_depth c - depth c) c val"
        using c2(2) within_frame [OF c1(1)] c1 by (simp add: frame_def)
      have e: "pairs_ok c (pairs @ [(key, val)])" using 5(1) c1(2) v lim f3 by (auto simp: frame_def)
      show "runs (\<lambda>ps c'. length (pos c') < length (pos c) \<and> depth c' = depth c \<and> pairs_ok c ps) c3
          (bind (after_element c3 (CHR ''}'') (quoted ''expected ~,~ or ~}~''))
            (\<lambda>more c. if more then object_loop n open_at (pairs @ [(key, val)]) c else Done (pairs @ [(key, val)]) c))"
      proof (rule runs_bind [OF runs_after_element], intro runs_if)
        fix more c4
        assume c4: "frame c3 c4" "length (pos c4) < length (pos c3) \<and> depth c4 = depth c3"
        note f4 = frame_trans [OF f3 c4(1)]
        have d4: "depth c4 = depth c" using c1 c2 c3 c4 by simp
        show "runs (\<lambda>ps c'. length (pos c') < length (pos c) \<and> depth c' = depth c \<and> pairs_ok c ps) c4
            (Done (pairs @ [(key, val)]) c4)"
          using e c1 c2 c3 c4 by (intro runs_Done) auto
        have e4: "pairs_ok c4 (pairs @ [(key, val)])" using e pairs_ok_frame [OF f4 d4] by blast
        have o4: "suffix open_at (start c4)" using 5(2) f4 by (simp add: frame_def)
        show "runs (\<lambda>ps c'. length (pos c') < length (pos c) \<and> depth c' = depth c \<and> pairs_ok c ps) c4
            (object_loop n open_at (pairs @ [(key, val)]) c4)"
          by (rule runs_mono [OF Suc.IH(5) [OF e4 o4]]) (use pairs_ok_frame [OF f4 d4] c1 c2 c3 c4 in auto)
      qed
    qed
  }
qed

end
