(* ===== verification/Parser_Total.thy ===== *)
theory Parser_Total
  imports Parser_Facts
begin

text \<open>
  The parser always returns: with \<open>parse_fuel\<close> the recursion bound is not reached, so \<open>nyxj_parse_ex\<close>
  yields a tree or an error. Every byte pays for three calls: an element, its loop and its container.
\<close>

text \<open>The call returns.\<close>

definition returns :: "'a presult \<Rightarrow> bool" where
  "returns r \<longleftrightarrow> r \<noteq> No_fuel"

lemma returns_simps [simp]: "returns (Done x c)" "returns (Null c)" "\<not> returns No_fuel"
  by (simp_all add: returns_def)

lemma total_bind:
  assumes "ctx_ok c" "runs P c r" "returns r"
    "\<And>x c'. ctx_ok c' \<Longrightarrow> frame c c' \<Longrightarrow> P x c' \<Longrightarrow> returns (f x c')"
  shows "returns (bind r f)"
  using assms frame_ctx_ok [OF assms(1)] by (cases r) (auto simp: runs_def bind_def)

lemma total_bind_Done: "returns r \<Longrightarrow> (\<And>x c'. returns (f x c')) \<Longrightarrow> returns (bind r f)"
  by (cases r) (auto simp: bind_def)

lemma total_leaf:
  "returns (palloc c n)" "returns (pvalue c)" "returns (skip_ws c)" "returns (push_item c m cap)"
proof -
  show p: "returns (palloc c n)" for c n
    by (auto simp: palloc_def Let_def split: option.split prod.split)
  then show "returns (pvalue c)" unfolding pvalue_def by (intro total_bind_Done) auto
  show "returns (skip_ws c)" by (auto simp: skip_ws_def split: sum.split prod.split)
  show "returns (push_item c m cap)" by (auto simp: push_item_def Let_def split: prod.split)
qed

lemma total_string: "returns (parse_string c)"
  unfolding parse_string_def Let_def
  by (auto intro!: total_bind_Done total_leaf split: sum.split prod.split option.split)

lemma total_parts:
  "returns (parse_literal c w mk)" "returns (parse_number c)" "returns (open_container c)"
  "returns (after_element c close expected)" "returns (parse_key c keys)" "returns (finish_array c fl items)"
  unfolding parse_literal_def parse_number_def open_container_def after_element_def parse_key_def
    finish_array_def Let_def
  by (auto intro!: total_bind_Done total_leaf total_string split: option.split prod.split)

lemma parse_total:
  "ctx_ok c \<Longrightarrow> 3 * length (pos c) + 1 \<le> n \<Longrightarrow> returns (parse_value n c)"
  "ctx_ok c \<Longrightarrow> pos c \<noteq> [] \<Longrightarrow> 3 * length (pos c) \<le> n \<Longrightarrow> returns (parse_array n c)"
  "ctx_ok c \<Longrightarrow> 3 * length (pos c) + 2 \<le> n \<Longrightarrow> returns (array_loop n open_at items cap c)"
  "ctx_ok c \<Longrightarrow> pos c \<noteq> [] \<Longrightarrow> 3 * length (pos c) \<le> n \<Longrightarrow> returns (parse_object n c)"
  "ctx_ok c \<Longrightarrow> 3 * length (pos c) + 2 \<le> n \<Longrightarrow> returns (object_loop n open_at pairs c)"
proof (induction n arbitrary: c items cap pairs open_at)
  case (Suc n)
  {
    case 1
    show ?case unfolding parse_value.simps
    proof (rule total_bind [OF 1(1) runs_skip_ws total_leaf(3)])
      fix c1 :: pctx
      assume c1: "ctx_ok c1" "frame c c1"
      then have n: "3 * length (pos c1) \<le> n" using 1(2) frame_shorter [OF c1(2)] by simp
      show "returns (if pos c1 = [] then fails c1 NYXJ_ERR_UNEXPECTED_EOF (pos c1) (Some ''expected a value'')
          else let ch = hd (pos c1)
               in if ch = CHR ''{'' then parse_object n c1
                  else if ch = CHR ''['' then parse_array n c1
                  else if ch = CHR 0x22
                  then bind (parse_string c1) (\<lambda>s c. bind (pvalue c) (\<lambda>fl c. Done (VString fl (cstr s)) c))
                  else if ch = CHR ''t'' then parse_literal c1 ''true'' (\<lambda>fl. VBool fl True)
                  else if ch = CHR ''f'' then parse_literal c1 ''false'' (\<lambda>fl. VBool fl False)
                  else if ch = CHR ''n'' then parse_literal c1 ''null'' VNull
                  else if ch = CHR ''-'' \<or> nyxj_is_digit ch then parse_number c1
                  else fails c1 NYXJ_ERR_UNEXPECTED_CHAR (pos c1) (Some ''expected a value''))"
        using Suc.IH(2,4) [OF c1(1) _ n]
        by (auto simp: Let_def total_parts intro!: total_bind_Done total_string total_leaf)
    qed
  next
    case 2
    show ?case unfolding parse_array.simps Let_def
    proof (rule total_bind [OF 2(1) runs_open_container [OF 2(2)] total_parts(3)])
      fix fl c1
      assume c1: "ctx_ok c1" "length (pos c1) < length (pos c) \<and> depth c1 = Suc (depth c) \<and>
        Suc (depth c) \<le> max_depth c \<and> fl = (pool c \<noteq> None)"
      then have "3 * length (pos c1) + 2 \<le> n" using 2(3) by simp
      then show "returns (if pos c1 \<noteq> [] \<and> hd (pos c1) = CHR '']'' then finish_array (c1\<lparr>pos := tl (pos c1)\<rparr>) fl []
          else bind (array_loop n (pos c) [] 16 c1) (\<lambda>items c. finish_array c fl items))"
        using Suc.IH(3) [OF c1(1)] by (auto intro!: total_bind_Done total_parts)
    qed
  next
    case 3
    have "3 * length (pos c) + 1 \<le> n" using 3(2) by simp
    from Suc.IH(1) [OF 3(1) this] show ?case unfolding array_loop.simps
    proof (rule total_bind [OF 3(1) runs_parse(1)], goal_cases)
      case (1 item c1)
      show ?case
      proof (rule total_bind [OF 1(1) runs_push_item total_leaf(4)], unfold Let_def, goal_cases)
        case (1 cap' c2)
        have "returns (bind (after_element c2 (CHR '']'') (quoted ''expected ~,~ or ~]~''))
            (\<lambda>more c. if more then array_loop n open_at (items @ [item]) cap' c else Done (items @ [item]) c))"
        proof (rule total_bind [OF 1(1) runs_after_element total_parts(4)], goal_cases)
          case (1 more c3)
          then have "3 * length (pos c3) + 2 \<le> n"
            using 3(2) \<open>length (pos c1) < length (pos c) \<and> _\<close> \<open>pos c2 = pos c1 \<and> _\<close> by simp
          then show ?case using Suc.IH(3) [OF 1(1)] by simp
        qed
        then show ?case by simp
      qed
    qed
  next
    case 4
    show ?case unfolding parse_object.simps Let_def
    proof (rule total_bind [OF 4(1) runs_open_container [OF 4(2)] total_parts(3)])
      fix fl c1
      assume c1: "ctx_ok c1" "length (pos c1) < length (pos c) \<and> depth c1 = Suc (depth c) \<and>
        Suc (depth c) \<le> max_depth c \<and> fl = (pool c \<noteq> None)"
      then have "3 * length (pos c1) + 2 \<le> n" using 4(3) by simp
      then show "returns (if pos c1 \<noteq> [] \<and> hd (pos c1) = CHR ''}''
          then Done (VObject fl []) (c1\<lparr>pos := tl (pos c1), depth := depth c1 - 1\<rparr>)
          else bind (object_loop n (pos c) [] c1) (\<lambda>pairs c. Done (VObject fl pairs) (c\<lparr>depth := depth c - 1\<rparr>)))"
        using Suc.IH(5) [OF c1(1)] by (auto intro!: total_bind_Done)
    qed
  next
    case 5
    show ?case unfolding object_loop.simps
    proof (rule total_bind [OF 5(1) runs_parse_key total_parts(5)], goal_cases)
      case (1 key c1)
      then have "3 * length (pos c1) + 1 \<le> n" using 5(2) by simp
      from Suc.IH(1) [OF 1(1) this] show ?case
      proof (rule total_bind [OF 1(1) runs_parse(1)], goal_cases)
        case (1 val c2)
        show ?case
        proof (rule total_bind [OF 1(1) runs_palloc total_leaf(1)], unfold Let_def, goal_cases)
          case (1 u c3)
          have "returns (bind (after_element c3 (CHR ''}'') (quoted ''expected ~,~ or ~}~''))
              (\<lambda>more c. if more then object_loop n open_at (pairs @ [(key, val)]) c
                 else Done (pairs @ [(key, val)]) c))"
          proof (rule total_bind [OF 1(1) runs_after_element total_parts(4)], goal_cases)
            case (1 more c4)
            then have "3 * length (pos c4) + 2 \<le> n"
              using 5(2) \<open>length (pos c1) < length (pos c) \<and> _\<close> \<open>length (pos c2) < length (pos c1) \<and> _\<close>
                \<open>pos c3 = pos c2 \<and> _\<close> by simp
            then show ?case using Suc.IH(5) [OF 1(1)] by simp
          qed
          then show ?case by simp
        qed
      qed
    qed
  }
qed auto

subsection \<open>The public interface\<close>

lemma parse_context_ok: "ctx_ok (parse_context b h json opts)"
  by (auto simp: ctx_ok_def parse_context_def no_error_def suffix_drop)

lemma parse_context_start: "start (parse_context b h json opts) = json" "depth (parse_context b h json opts) = 0"
  by (simp_all add: parse_context_def)

lemma runs_parse_root:
  "runs (\<lambda>v c'. pos c' = [] \<and> within (max_depth c - depth c) c v) c (parse_root c)"
  unfolding parse_root_def
proof (rule runs_bind [OF runs_parse(1)])
  fix v c1
  assume c1: "ctx_ok c1" "frame c c1" "length (pos c1) < length (pos c) \<and> depth c1 = depth c \<and> within (max_depth c - depth c) c v"
  let ?P = "\<lambda>v c'. pos c' = [] \<and> within (max_depth c - depth c) c v"
  have w: "runs (\<lambda>_ c'. depth c' = depth c1) c1 (skip_ws c1)" by (rule runs_skip_ws)
  show "runs ?P c1 (case skip_ws c1 of
      Done _ c \<Rightarrow> if pos c \<noteq> [] then fails c NYXJ_ERR_TRAILING_DATA (pos c) None else Done v c
    | Null c \<Rightarrow> fails c NYXJ_ERR_TRAILING_DATA (pos c) None
    | No_fuel \<Rightarrow> No_fuel)"
  proof (cases "skip_ws c1")
    case (Done u c2)
    then have f: "frame c1 c2" using w c1(1) by (simp add: runs_def)
    show ?thesis unfolding Done presult.case
      by (rule runs_shift [OF f], intro runs_if) (auto intro: runs_fail_pos runs_Done simp: c1)
  next
    case (Null c2)
    then have "located (start c1) (err c2) \<and> (heap_total (mem c1) \<longrightarrow> code (err c2) \<noteq> NYXJ_ERR_OUT_OF_MEMORY)"
      using w c1(1) by (simp add: runs_def)
    then show ?thesis by (simp add: Null runs_def fail_def located_def)
  qed (simp add: runs_No_fuel)
qed

lemma parse_root_total: "ctx_ok c \<Longrightarrow> returns (parse_root c)"
proof -
  assume ok: "ctx_ok c"
  then have "length (pos c) \<le> length (start c)" by (simp add: ctx_ok_def suffix_length_le)
  then have "returns (parse_value (parse_fuel (start c)) c)"
    by (intro parse_total(1) [OF ok]) (simp add: parse_fuel_def)
  then show ?thesis unfolding parse_root_def
    using total_leaf(3) by (intro total_bind_Done) (auto simp: returns_def split: presult.split)
qed

text \<open>What every call returns: a tree within the limits, or a located error.\<close>

lemma nyxj_parse_ex_result:
  fixes opts :: nyxj_parse_options
  assumes "opt_max_input_size opts = 0 \<or> length json \<le> opt_max_input_size opts"
  shows "(\<exists>v. root (nyxj_parse_ex b h (Some json) (Some opts)) = Some v \<and>
      is_valid (nyxj_parse_ex b h (Some json) (Some opts)) \<and>
      within (max_depth (parse_context b h json opts)) (parse_context b h json opts) v) \<or>
    (\<not> is_valid (nyxj_parse_ex b h (Some json) (Some opts)) \<and>
      root (nyxj_parse_ex b h (Some json) (Some opts)) = None \<and>
      located json (error (nyxj_parse_ex b h (Some json) (Some opts))))"
proof -
  let ?c = "parse_context b h json opts"
  note ok = parse_context_ok [of b h json opts] and st = parse_context_start [of b h json opts]
  have ex: "nyxj_parse_ex b h (Some json) (Some opts) =
     (case parse_root ?c of
        Done v c \<Rightarrow> \<lparr>is_valid = True, error_msg = None, root = Some v, error = err c, arena_after = pool c, heap_after = mem c\<rparr>
      | Null c \<Rightarrow> failed_result (err c) (pool c) (mem c)
      | No_fuel \<Rightarrow> failed_result no_error (opt_arena opts) h)"
    using assms by (auto simp: nyxj_parse_ex_def Let_def)
  show ?thesis
    using runs_parse_root [of ?c] parse_root_total [OF ok] ok st unfolding ex
    by (cases "parse_root ?c") (auto simp: runs_def failed_result_def)
qed

end
