(* ===== verification/Grammar.thy ===== *)
theory Grammar
  imports Value Tokens
begin

text \<open>
  The specification of the parser: the JSON grammar of RFC 8259 with the tree each text denotes.
  Strings denote what a C program sees of them, the bytes before a NUL. The first argument of
  \<open>json_text\<close> bounds the nesting of containers; the second says that no object repeats a key.
\<close>

definition blank :: "bytes \<Rightarrow> bool" where
  "blank w \<longleftrightarrow> list_all nyxj_is_ws w"

text \<open>The characters of a string literal and the bytes they denote.\<close>

inductive json_chars :: "bytes \<Rightarrow> bytes \<Rightarrow> bool" where
  none: "json_chars [] []"
| plain: "is_scalar cp \<Longrightarrow> 0x20 \<le> cp \<Longrightarrow> cp \<noteq> 0x22 \<Longrightarrow> cp \<noteq> 0x5C \<Longrightarrow> json_chars t s \<Longrightarrow>
    json_chars (nyxj_utf8_encode cp @ t) (nyxj_utf8_encode cp @ s)"
| escape: "json_escape e d \<Longrightarrow> json_chars t s \<Longrightarrow> json_chars (e @ t) (d @ s)"

definition json_string :: "bytes \<Rightarrow> bytes \<Rightarrow> bool" where
  "json_string txt s \<longleftrightarrow> (\<exists>t. txt = CHR 0x22 # t @ [CHR 0x22] \<and> json_chars t s)"

inductive json_text :: "nat \<Rightarrow> bool \<Rightarrow> bytes \<Rightarrow> json \<Rightarrow> bool"
  and json_items :: "nat \<Rightarrow> bool \<Rightarrow> bytes \<Rightarrow> json list \<Rightarrow> bool"
  and json_members :: "nat \<Rightarrow> bool \<Rightarrow> bytes \<Rightarrow> (string \<times> json) list \<Rightarrow> bool"
where
  null: "json_text d u ''null'' JNull"
| false: "json_text d u ''false'' (JBool False)"
| true: "json_text d u ''true'' (JBool True)"
| number: "json_number tok \<Longrightarrow> json_text d u tok (JNumber (fst (strtod tok)))"
| string: "json_string txt s \<Longrightarrow> json_text d u txt (JString (cstr s))"
| empty_array: "blank w \<Longrightarrow> json_text (Suc d) u (CHR ''['' # w @ '']'') (JArray [])"
| array: "json_items d u t vs \<Longrightarrow> json_text (Suc d) u (CHR ''['' # t @ '']'') (JArray vs)"
| empty_object: "blank w \<Longrightarrow> json_text (Suc d) u (CHR ''{'' # w @ ''}'') (JObject [])"
| object: "json_members d u t ms \<Longrightarrow> (u \<longrightarrow> distinct (map fst ms)) \<Longrightarrow>
    json_text (Suc d) u (CHR ''{'' # t @ ''}'') (JObject ms)"
| item: "blank w \<Longrightarrow> json_text d u t v \<Longrightarrow> blank x \<Longrightarrow> json_items d u (w @ t @ x) [v]"
| items: "blank w \<Longrightarrow> json_text d u t v \<Longrightarrow> blank x \<Longrightarrow> json_items d u r vs \<Longrightarrow>
    json_items d u (w @ t @ x @ CHR '','' # r) (v # vs)"
| member: "blank w \<Longrightarrow> json_string k s \<Longrightarrow> blank x \<Longrightarrow> blank y \<Longrightarrow> json_text d u t v \<Longrightarrow> blank z \<Longrightarrow>
    json_members d u (w @ k @ x @ CHR '':'' # y @ t @ z) [(cstr s, v)]"
| members: "blank w \<Longrightarrow> json_string k s \<Longrightarrow> blank x \<Longrightarrow> blank y \<Longrightarrow> json_text d u t v \<Longrightarrow> blank z \<Longrightarrow>
    json_members d u r ms \<Longrightarrow>
    json_members d u (w @ k @ x @ CHR '':'' # y @ t @ z @ CHR '','' # r) ((cstr s, v) # ms)"

definition json_document :: "nat \<Rightarrow> bool \<Rightarrow> bytes \<Rightarrow> json \<Rightarrow> bool" where
  "json_document d u txt v \<longleftrightarrow> (\<exists>w t x. txt = w @ t @ x \<and> blank w \<and> json_text d u t v \<and> blank x)"

end
