(* ===== verification/String_Spec.thy ===== *)
theory String_Spec
  imports Parser_Facts Grammar
begin

text \<open>
  String literals: the search for the closing quote together with the decoding loop accepts exactly
  \<open>json_chars\<close>. \<open>scan_body\<close> is the part of the text that the search skips.
\<close>

fun scan_body :: "bytes \<Rightarrow> bool" where
  "scan_body [] \<longleftrightarrow> True"
| "scan_body (c # t) \<longleftrightarrow>
     (if c = CHR 0x5C then (case t of [] \<Rightarrow> False | x # u \<Rightarrow> scan_body u)
      else \<not> is_special c \<and> scan_body t)"

lemma scan_body_plain: "\<forall>c \<in> set p. \<not> is_special c \<Longrightarrow> scan_body (p @ t) = scan_body t"
  by (induction p) (auto simp: is_special_def)

lemma scan_body_seg:
  "scan_body (p @ t) \<Longrightarrow> CHR 0x5C \<notin> set p \<Longrightarrow> (\<forall>c \<in> set p. \<not> is_special c) \<and> scan_body t"
  by (induction p) auto

lemma is_special_quote [simp]: "is_special (CHR 0x22)" "is_special (CHR 0x5C)"
  by (simp_all add: is_special_def)

text \<open>The search stops at the first quote after such a body.\<close>

lemma find_quote_complete:
  "scan_body body \<Longrightarrow> find_quote b (nyxj_scan_string_special b (body @ CHR 0x22 # q)) = Inr (CHR 0x22 # q)"
proof (induction body rule: scan_body.induct)
  case 1
  then show ?case by (subst find_quote.simps) (simp add: nyxj_scan_string_special_eq)
next
  case (2 c t)
  show ?case
  proof (cases "c = CHR 0x5C")
    case True
    then obtain x u where t: "t = x # u" "scan_body u" using 2(3) by (cases t) auto
    then have "find_quote b (nyxj_scan_string_special b (u @ CHR 0x22 # q)) = Inr (CHR 0x22 # q)"
      using 2(1) [OF True t(1)] by simp
    then show ?thesis using True t(1)
      by (subst find_quote.simps) (simp add: nyxj_scan_string_special_eq)
  next
    case False
    then show ?thesis using 2 by (simp add: nyxj_scan_string_special_eq)
  qed
qed

lemma find_quote_sound:
  "find_quote b (nyxj_scan_string_special b p) = Inr r \<Longrightarrow> \<exists>body q. p = body @ r \<and> scan_body body \<and> r = CHR 0x22 # q"
proof (induction "length p" arbitrary: p rule: less_induct)
  case less
  define r0 where "r0 = nyxj_scan_string_special b p"
  define pre where "pre = takeWhile (\<lambda>c. \<not> is_special c) p"
  have p: "p = pre @ r0" by (simp add: pre_def r0_def nyxj_scan_string_special_eq)
  have plain: "\<forall>c \<in> set pre. \<not> is_special c" by (auto simp: pre_def dest: set_takeWhileD)
  have f: "find_quote b r0 = Inr r" using less.prems by (simp add: r0_def)
  then have ne: "r0 \<noteq> []" by (subst (asm) find_quote.simps) auto
  show ?case
  proof (cases "hd r0 = CHR 0x22")
    case True
    then have "r = r0" using f ne by (subst (asm) find_quote.simps) auto
    then show ?thesis using p plain scan_body_plain [OF plain, of "[]"] True ne
      by (metis append_Nil2 list.exhaust_sel scan_body.simps(1))
  next
    case False
    then have e: "hd r0 = CHR 0x5C" "\<not> length r0 < 2" using f ne
      by (subst (asm) find_quote.simps, auto split: if_splits)+
    then obtain x u where r0: "r0 = CHR 0x5C # x # u" by (cases r0; cases "tl r0") auto
    then have "find_quote b (nyxj_scan_string_special b u) = Inr r"
      using f by (subst (asm) find_quote.simps) simp
    moreover have "length u < length p" using p r0 by simp
    ultimately obtain body q where "u = body @ r" "scan_body body" "r = CHR 0x22 # q"
      using less.hyps by blast
    then show ?thesis using p r0 scan_body_plain [OF plain, of "CHR 0x5C # x # body"]
      by (intro exI [of _ "pre @ CHR 0x5C # x # body"] exI [of _ q]) auto
  qed
qed

subsection \<open>Characters\<close>

lemma encode_bytes:
  assumes "is_scalar cp" "0x80 \<le> cp"
  obtains ns where "nyxj_utf8_encode cp = map chr ns" "\<forall>n \<in> set ns. 0x80 \<le> n \<and> n < 256"
proof -
  have lt: "cp < 0x110000" using assms(1) by (auto simp: is_scalar_def)
  define a b where "a = cp mod 64" and "b = cp div 64 mod 64"
  define d e where "d = cp div 4096 mod 64" and "e = cp div 64"
  define f g where "f = cp div 4096" and "g = cp div 262144"
  let ?ns = "if cp < 0x800 then [0xC0 + e, 0x80 + a]
      else if cp < 0x10000 then [0xE0 + f, 0x80 + b, 0x80 + a] else [0xF0 + g, 0x80 + d, 0x80 + b, 0x80 + a]"
  have m: "a < 64" "b < 64" "d < 64" by (simp_all add: a_def b_def d_def)
  have q: "cp < 0x800 \<Longrightarrow> e < 0x20" "cp < 0x10000 \<Longrightarrow> f < 0x10" "g < 8"
    using lt by (simp_all add: e_def f_def g_def less_mult_imp_div_less)
  have "nyxj_utf8_encode cp = map chr ?ns"
    using assms(2) by (simp add: nyxj_utf8_encode_arith [OF lt] a_def b_def d_def e_def f_def g_def)
  moreover have "\<forall>n \<in> set ?ns. 0x80 \<le> n \<and> n < 256" using m q by auto
  ultimately show thesis by (rule that)
qed

lemma encode_plain:
  assumes "is_scalar cp"
  shows "(\<forall>c \<in> set (nyxj_utf8_encode cp). \<not> is_special c) \<longleftrightarrow> 0x20 \<le> cp \<and> cp \<noteq> 0x22 \<and> cp \<noteq> 0x5C"
proof (cases "cp < 0x80")
  case True
  then have "byte (chr cp) = cp" by simp
  then have "chr cp = CHR 0x22 \<longleftrightarrow> cp = 0x22" "chr cp = CHR 0x5C \<longleftrightarrow> cp = 0x5C"
    using byte_inj [of "chr cp" "CHR 0x22"] byte_inj [of "chr cp" "CHR 0x5C"] by simp_all
  then show ?thesis using True by (auto simp: nyxj_utf8_encode_def is_special_def)
next
  case False
  then obtain ns where ns: "nyxj_utf8_encode cp = map chr ns" "\<forall>n \<in> set ns. 0x80 \<le> n \<and> n < 256"
    using encode_bytes [OF assms] by auto
  have "0x80 \<le> n \<Longrightarrow> n < 256 \<Longrightarrow> \<not> is_special (chr n)" for n
    using byte_inj [of "chr n" "CHR 0x22"] byte_inj [of "chr n" "CHR 0x5C"] by (auto simp: is_special_def)
  then show ?thesis using ns False by simp
qed

text \<open>A valid text without special bytes denotes itself.\<close>

lemma json_chars_plain:
  "valid_utf8 p \<Longrightarrow> \<forall>c \<in> set p. \<not> is_special c \<Longrightarrow> json_chars t s \<Longrightarrow> json_chars (p @ t) (p @ s)"
proof -
  have "json_chars (utf8_text cps @ t) (utf8_text cps @ s)"
    if "list_all is_scalar cps" "\<forall>c \<in> set (utf8_text cps). \<not> is_special c" "json_chars t s" for cps
    using that
  proof (induction cps)
    case (Cons cp cps)
    then have "0x20 \<le> cp \<and> cp \<noteq> 0x22 \<and> cp \<noteq> 0x5C"
      using encode_plain [of cp] by (auto simp: utf8_text_def)
    then have "json_chars (nyxj_utf8_encode cp @ utf8_text cps @ t) (nyxj_utf8_encode cp @ utf8_text cps @ s)"
      using Cons by (intro json_chars.plain) (auto simp: utf8_text_def)
    then show ?case by (simp add: utf8_text_def)
  qed (simp add: utf8_text_def)
  then show "valid_utf8 p \<Longrightarrow> \<forall>c \<in> set p. \<not> is_special c \<Longrightarrow> json_chars t s \<Longrightarrow> json_chars (p @ t) (p @ s)"
    by (auto simp: valid_utf8_def)
qed

lemma hex_digit_plain: "hex_digit c = Some v \<Longrightarrow> \<not> is_special c"
  using byte_inj [of c "CHR 0x22"] byte_inj [of c "CHR 0x5C"]
  by (auto simp: hex_digit_def is_special_def split: if_splits)

lemma hex_quad_plain: "hex_quad h v \<Longrightarrow> \<forall>c \<in> set h. \<not> is_special c"
  by (auto simp: hex_quad_def dest: hex_digit_plain)

lemma scan_body_escape: "json_escape e d \<Longrightarrow> scan_body (e @ t) = scan_body t"
  by (induction rule: json_escape.induct)
    (auto simp: scan_body_plain hex_quad_plain)

lemma scan_body_chars: "json_chars t s \<Longrightarrow> scan_body t"
proof (induction rule: json_chars.induct)
  case (plain cp t s)
  then show ?case using encode_plain [of cp] scan_body_plain [of "nyxj_utf8_encode cp" t] by simp
next
  case (escape e d t s)
  then show ?case by (simp add: scan_body_escape)
qed simp

text \<open>Decoding.\<close>

lemma takeWhile_bs: "CHR 0x5C \<notin> set (takeWhile (\<lambda>ch. ch \<noteq> CHR 0x5C) p)"
  by (auto dest: set_takeWhileD)

lemma unescape_sound:
  "unescape r (body @ r) = Inr d \<Longrightarrow> scan_body body \<Longrightarrow> json_chars body d"
proof (induction "length body" arbitrary: body d rule: less_induct)
  case less
  define seg where "seg = takeWhile (\<lambda>ch. ch \<noteq> CHR 0x5C) body"
  define y where "y = dropWhile (\<lambda>ch. ch \<noteq> CHR 0x5C) body"
  have body: "body = seg @ y" by (simp add: seg_def y_def)
  have seg: "\<forall>c \<in> set seg. \<not> is_special c" "scan_body y"
  proof -
    have "scan_body (seg @ y)" using less.prems(2) body by (simp only:)
    moreover have "CHR 0x5C \<notin> set seg" unfolding seg_def by (rule takeWhile_bs)
    ultimately show "\<forall>c \<in> set seg. \<not> is_special c" "scan_body y" using scan_body_seg by blast+
  qed
  have step: "unescape r (body @ r) = (if body = [] then Inr []
      else if nyxj_utf8_invalid_at seg \<noteq> length seg then Inl (NYXJ_ERR_INVALID_UTF8, drop (nyxj_utf8_invalid_at seg) (body @ r))
      else if y = [] then Inr seg
      else case nyxj_decode_escape y of
        Inl ec \<Rightarrow> Inl (if ec = NYXJ_ERR_UNEXPECTED_EOF
            then if (y @ r) ! 1 = CHR ''u'' then NYXJ_ERR_INVALID_UNICODE else NYXJ_ERR_INVALID_ESCAPE else ec, y @ r)
      | Inr (used, out) \<Rightarrow> map_sum id (\<lambda>d. seg @ out @ d) (unescape r (drop used (y @ r))))"
  proof -
    have dr: "drop (length seg) (body @ r) = y @ r" by (simp add: body)
    have tk: "take (length (p @ r) - length r) (p @ r) = p" "length (p @ r) \<le> length r \<longleftrightarrow> p = []" for p
      by simp_all
    show ?thesis using unescape_step [of r "body @ r"]
      unfolding tk seg_def [symmetric] dr .
  qed
  show ?case
  proof (cases "body = []")
    case True
    then show ?thesis using less.prems(1) step by (simp add: json_chars.none)
  next
    case ne: False
    then have v: "valid_utf8 seg" using less.prems(1) step nyxj_utf8_invalid_at_valid by (auto split: if_splits)
    show ?thesis
    proof (cases "y = []")
      case True
      then show ?thesis using less.prems(1) step ne v json_chars_plain [OF v seg(1) json_chars.none] body
        by (auto split: if_splits)
    next
      case False
      have hd: "hd y = CHR 0x5C" using hd_dropWhile [of "\<lambda>ch. ch \<noteq> CHR 0x5C" body] False by (simp add: y_def)
      obtain used out d' where u: "nyxj_decode_escape y = Inr (used, out)"
        "unescape r (drop used (y @ r)) = Inr d'" "d = seg @ out @ d'"
        using less.prems(1) step ne False
        by (auto simp: map_sum_def split: sum.splits if_splits prod.splits)
      then have e: "used \<le> length y" "json_escape (take used y) out"
        using nyxj_decode_escape_sound [OF u(1) hd] by auto
      then have "2 \<le> used" using json_escape_text(2) [OF e(2)] by simp
      then have lt: "length (drop used y) < length body" using e(1) body by simp
      have "scan_body (drop used y)"
        using scan_body_escape [OF e(2), of "drop used y"] seg(2) by simp
      moreover have "drop used (y @ r) = drop used y @ r" using e(1) by simp
      ultimately have "json_chars (drop used y) d'" using less.hyps [OF lt] u(2) by simp
      then have "json_chars (take used y @ drop used y) (out @ d')" by (rule json_chars.escape [OF e(2)])
      then show ?thesis using json_chars_plain [OF v seg(1)] u(3) body by simp
    qed
  qed
qed

lemma unescape_bytes:
  assumes "unescape r (t @ r) = Inr s" "valid_utf8 p" "CHR 0x5C \<notin> set p"
  shows "unescape r (p @ t @ r) = Inr (p @ s)"
proof (cases "p = []")
  case True
  then show ?thesis using assms(1) by simp
next
  case False
  define seg where "seg = takeWhile (\<lambda>ch. ch \<noteq> CHR 0x5C) t"
  have tw: "takeWhile (\<lambda>ch. ch \<noteq> CHR 0x5C) (p @ t) = p @ seg"
    using assms(3) by (subst takeWhile_append2) (auto simp: seg_def)
  have inv: "nyxj_utf8_invalid_at (p @ seg) = length (p @ seg) \<longleftrightarrow> nyxj_utf8_invalid_at seg = length seg"
    using nyxj_utf8_invalid_at_valid [of "p @ seg"] nyxj_utf8_invalid_at_valid [of seg]
      valid_utf8_append [OF assms(2), of seg] valid_utf8_cancel [OF _ assms(2), of seg] by blast
  note s1 = unescape_step [of r "t @ r"] and s2 = unescape_step [of r "(p @ t) @ r"]
  have t: "take (length (t @ r) - length r) (t @ r) = t" "take (length ((p @ t) @ r) - length r) ((p @ t) @ r) = p @ t"
    by simp_all
  have dr: "drop (length (p @ seg)) ((p @ t) @ r) = drop (length seg) (t @ r)" by simp
  show ?thesis
  proof (cases "t = []")
    case True
    have "unescape r r = Inr []" by (subst unescape.simps) simp
    then have "s = []" using assms(1) True by simp
    have tw': "takeWhile (\<lambda>ch. ch \<noteq> CHR 0x5C) p = p" using assms(3) by (subst takeWhile_eq_all_conv) auto
    have tk: "take (length (p @ r) - length r) (p @ r) = p" "drop (length p) (p @ r) = r" by simp_all
    have "nyxj_utf8_invalid_at p = length p" using assms(2) nyxj_utf8_invalid_at_valid by blast
    then have "unescape r (p @ r) = Inr p"
      using unescape_step [of r "p @ r"] False unfolding tk tw' tk by simp
    then show ?thesis using True \<open>s = []\<close> by simp
  next
    case ne: False
    have ok: "nyxj_utf8_invalid_at seg = length seg"
      using assms(1) s1 ne by (auto simp: t seg_def split: if_splits)
    define R where "R = drop (length seg) (t @ r)"
    define dec where "dec = (\<lambda>w. case nyxj_decode_escape (take (length R - length r) R) of
        Inl ec \<Rightarrow> Inl (if ec = NYXJ_ERR_UNEXPECTED_EOF
            then if R ! 1 = CHR ''u'' then NYXJ_ERR_INVALID_UNICODE else NYXJ_ERR_INVALID_ESCAPE else ec, R)
      | Inr (used, out) \<Rightarrow> map_sum id (\<lambda>d. w @ out @ d) (unescape r (drop used R)))"
    have ok': "nyxj_utf8_invalid_at (p @ seg) = length (p @ seg)" using ok inv by blast
    have "\<not> length (t @ r) \<le> length r" "\<not> length ((p @ t) @ r) \<le> length r" using ne by simp_all
    then have e: "unescape r (t @ r) = (if length R \<le> length r then Inr seg else dec seg)"
      "unescape r ((p @ t) @ r) = (if length R \<le> length r then Inr (p @ seg) else dec (p @ seg))"
      using s1 s2 ok ok' unfolding t tw seg_def [symmetric] dr R_def [symmetric] dec_def
      by (simp_all only: if_False not_not refl if_True simp_thms)
    have "dec seg = Inr s \<Longrightarrow> dec (p @ seg) = Inr (p @ s)"
      by (auto simp: dec_def map_sum_def split: sum.splits prod.splits)
    then show ?thesis using assms(1) e by (auto split: if_splits)
  qed
qed

lemma unescape_escape:
  assumes "unescape r (t @ r) = Inr s" "json_escape e out"
  shows "unescape r (e @ t @ r) = Inr (out @ s)"
proof -
  have hd: "e \<noteq> []" "hd e = CHR 0x5C" using json_escape_text [OF assms(2)] by auto
  have tw: "takeWhile (\<lambda>ch. ch \<noteq> CHR 0x5C) (e @ t) = []" using hd by (cases e) auto
  have d: "nyxj_decode_escape (e @ t) = Inr (length e, out)" by (rule nyxj_decode_escape_complete [OF assms(2)])
  have t: "take (length ((e @ t) @ r) - length r) ((e @ t) @ r) = e @ t" by simp
  have "nyxj_utf8_invalid_at [] = 0" by (simp add: nyxj_utf8_invalid_at_def utf8_invalid_from.simps)
  then show ?thesis using unescape_step [of r "(e @ t) @ r"] d hd(1) assms(1) unfolding t tw by simp
qed

lemma unescape_complete: "json_chars t s \<Longrightarrow> unescape r (t @ r) = Inr s"
proof (induction rule: json_chars.induct)
  case none
  then show ?case by (subst unescape.simps) simp
next
  case (plain cp t s)
  have "CHR 0x5C \<notin> set (nyxj_utf8_encode cp)" using encode_plain [OF plain(1)] plain(2,3,4) is_special_quote by blast
  then show ?case using unescape_bytes [OF plain(6) valid_utf8_encode [OF plain(1)]] by simp
next
  case (escape e d t s)
  then show ?case using unescape_escape by simp
qed

end
