(* ===== verification/Parser_Spec.thy ===== *)
theory Parser_Spec
  imports Parser_Total String_Spec
begin

text \<open>
  The parser against the grammar. Without relaxations and with memory, what it accepts is a text of
  the grammar with the tree it returns, and every text of the grammar is accepted, within the
  nesting, string and element limits. So it accepts exactly the grammar.
\<close>

definition strict :: "pctx \<Rightarrow> bool" where
  "strict c \<longleftrightarrow> \<not> allow_comments (flags c) \<and> \<not> allow_trailing_commas (flags c) \<and> heap_total (mem c)"

lemma strict_frame: "frame c c' \<Longrightarrow> strict c \<Longrightarrow> strict c'"
  by (simp add: strict_def frame_def)

lemma skip_ws_strict:
  "strict c \<Longrightarrow> skip_ws c = Done () (c\<lparr>pos := dropWhile nyxj_is_ws (pos c)\<rparr>)"
  by (subst skip_ws_def, subst skip_blank.simps) (simp add: strict_def nyxj_scan_ws_eq Let_def)

lemma blank_takeWhile [simp]: "blank (takeWhile nyxj_is_ws p)"
  by (auto simp: blank_def list_all_iff dest: set_takeWhileD)

lemma blank_simps [simp]: "blank []" "blank (x @ y) \<longleftrightarrow> blank x \<and> blank y"
  by (auto simp: blank_def)

lemma dropWhile_blank: "blank w \<Longrightarrow> dropWhile nyxj_is_ws (w @ p) = dropWhile nyxj_is_ws p"
  by (induction w) (auto simp: blank_def)

subsection \<open>Soundness\<close>

text \<open>The bytes a call reads.\<close>

definition reads :: "pctx \<Rightarrow> bytes \<Rightarrow> pctx \<Rightarrow> bool" where
  "reads c t c' \<longleftrightarrow> pos c = t @ pos c'"

lemma runs_with:
  assumes "runs P c r" "\<And>x c'. ctx_ok c \<Longrightarrow> r = Done x c' \<Longrightarrow> Q x c'"
  shows "runs (\<lambda>x c'. P x c' \<and> Q x c') c r"
  using assms by (auto simp: runs_def split: presult.splits)

lemma runs_blank:
  assumes "strict c"
  shows "runs (\<lambda>_ c'. depth c' = depth c \<and> (\<exists>w. blank w \<and> reads c w c') \<and>
      (pos c' = [] \<or> \<not> nyxj_is_ws (hd (pos c')))) c (skip_ws c)"
proof -
  have "pos c = takeWhile nyxj_is_ws (pos c) @ dropWhile nyxj_is_ws (pos c)" by simp
  moreover have "dropWhile nyxj_is_ws (pos c) = [] \<or> \<not> nyxj_is_ws (hd (dropWhile nyxj_is_ws (pos c)))"
    using hd_dropWhile by blast
  ultimately show ?thesis
    unfolding skip_ws_strict [OF assms]
    by (auto intro!: runs_Done frame_pos suffix_dropWhile exI [of _ "takeWhile nyxj_is_ws (pos c)"] simp: reads_def)
qed

lemma palloc_pos: "palloc c n = Done u c' \<Longrightarrow> pos c' = pos c \<and> depth c' = depth c"
  by (auto simp: palloc_def Let_def split: option.splits prod.splits if_splits)

lemma bind_Done: "bind r f = Done y c' \<longleftrightarrow> (\<exists>x c1. r = Done x c1 \<and> f x c1 = Done y c')"
  by (cases r) (auto simp: bind_def)

lemma unless_fails_Done: "(if b then fails c e p m else r) = Done x c' \<longleftrightarrow> \<not> b \<and> r = Done x c'"
  by simp

lemma bind_simps: "bind (Done x c) f = f x c" "bind (Null c) f = Null c" "bind No_fuel f = No_fuel"
  by (simp_all add: bind_def)

lemma parse_string_sound:
  assumes "parse_string c = Done s c'" "pos c \<noteq> []" "hd (pos c) = CHR 0x22"
  shows "\<exists>t. json_string t s \<and> reads c t c'"
proof -
  obtain p where p: "pos c = CHR 0x22 # p" using assms(2,3) by (cases "pos c") auto
  define q where "q = nyxj_scan_string_special (simd c) p"
  have q_eq: "q = dropWhile (\<lambda>ch. \<not> is_special ch) p" by (simp add: q_def nyxj_scan_string_special_eq)
  show ?thesis
  proof (cases "q \<noteq> [] \<and> hd q = CHR 0x22")
    case True
    define n where "n = length p - length q"
    have pn: "p = take n p @ q" "take n p = takeWhile (\<lambda>ch. \<not> is_special ch) p"
    proof -
      have "length p = length (takeWhile (\<lambda>ch. \<not> is_special ch) p) + length q"
        unfolding q_eq by (metis length_append takeWhile_dropWhile_id)
      then have "n = length (takeWhile (\<lambda>ch. \<not> is_special ch) p)" by (simp add: n_def)
      then show "take n p = takeWhile (\<lambda>ch. \<not> is_special ch) p" by (simp add: takeWhile_eq_take [symmetric])
      then show "p = take n p @ q" by (simp add: q_eq)
    qed
    have plain: "\<forall>ch \<in> set (take n p). \<not> is_special ch" unfolding pn(2) by (auto dest: set_takeWhileD)
    have r: "nyxj_utf8_invalid_at (take n p) = n" "s = take n p" "pos c' = tl q"
      using assms(1) True unfolding parse_string_def Let_def p list.sel q_def [symmetric] n_def [symmetric]
      by (auto simp: bind_Done split: if_splits)
    have "length (take n p) = n" by (simp add: n_def)
    then have v: "valid_utf8 (take n p)" using r(1) nyxj_utf8_invalid_at_valid by metis
    have "json_chars (take n p) (take n p)"
      using json_chars_plain [OF v plain json_chars.none] by simp
    then have "json_string (CHR 0x22 # take n p @ [CHR 0x22]) s" by (auto simp: json_string_def r(2))
    moreover have "q = CHR 0x22 # tl q" using True by (cases q) auto
    then have "pos c = (CHR 0x22 # take n p @ [CHR 0x22]) @ pos c'"
      using p pn(1) r(3) by (metis append_Cons append_Nil append_assoc)
    ultimately show ?thesis unfolding reads_def by blast
  next
    case False
    obtain r where f: "find_quote (simd c) q = Inr r"
      using assms(1) False unfolding parse_string_def Let_def p list.sel q_def [symmetric]
      by (auto split: sum.splits option.splits prod.splits)
    have d: "unescape r p = Inr s" "pos c' = tl r"
      using assms(1) False f unfolding parse_string_def Let_def p list.sel q_def [symmetric]
      by (cases "unescape r p"; auto simp: bind_Done split: if_splits prod.splits)+
    obtain body q' where b: "p = body @ r" "scan_body body" "r = CHR 0x22 # q'"
      using find_quote_sound f q_def by blast
    have "json_chars body s" using unescape_sound d(1) b by blast
    then have "json_string (CHR 0x22 # body @ [CHR 0x22]) s" by (auto simp: json_string_def)
    moreover have "pos c = (CHR 0x22 # body @ [CHR 0x22]) @ pos c'" using p b d(2) by simp
    ultimately show ?thesis unfolding reads_def by blast
  qed
qed

lemma pvalue_pos: "pvalue c = Done fl c' \<Longrightarrow> pos c' = pos c \<and> depth c' = depth c"
  by (auto simp: pvalue_def bind_Done dest: palloc_pos)

lemma malloc_heap: "heap_total h \<Longrightarrow> malloc h n = (ok, h') \<Longrightarrow> ok \<and> heap_total h'"
  using malloc_total [of h n] by simp

lemma palloc_total: "heap_total (mem c) \<Longrightarrow> \<exists>c'. palloc c n = Done () c' \<and> heap_total (mem c')"
proof (cases "pool c")
  case None
  then show "heap_total (mem c) \<Longrightarrow> ?thesis"
    using malloc_heap [of "mem c" n] by (auto simp: palloc_def Let_def split: prod.split)
next
  case (Some a)
  then show "heap_total (mem c) \<Longrightarrow> ?thesis"
    using nyxj_arena_alloc_total [of "mem c" a "word_of_nat n"] by (auto simp: palloc_def Let_def split: prod.split)
qed

lemma pvalue_total: "pvalue c = Done fl c' \<Longrightarrow> heap_total (mem c) \<Longrightarrow> heap_total (mem c')"
  using palloc_total [of c value_bytes] by (auto simp: pvalue_def bind_Done)

lemma parse_literal_sound:
  assumes "parse_literal c word mk = Done v c'"
  shows "reads c word c' \<and> (\<exists>fl. v = mk fl)"
proof -
  have w: "starts_with word (pos c)" using assms by (auto simp: parse_literal_def split: if_splits)
  then have "pos c = word @ drop (length word) (pos c)" by (rule starts_with_drop)
  moreover have "pos c' = drop (length word) (pos c) \<and> (\<exists>fl. v = mk fl)"
    using assms by (auto simp: parse_literal_def bind_Done dest: pvalue_pos split: if_splits)
  ultimately show ?thesis by (simp add: reads_def)
qed

lemma parse_number_sound:
  assumes "parse_number c = Done v c'" "heap_total (mem c)"
  shows "\<exists>tok fl. json_number tok \<and> reads c tok c' \<and> v = VNumber fl (fst (strtod tok))"
proof -
  obtain e where e: "nyxj_scan_number (pos c) = Some e"
    using assms by (auto simp: parse_number_def split: option.splits)
  then obtain tok where t: "pos c = tok @ e" "json_number tok" by (rule nyxj_scan_number_sound)
  obtain fl c1 where c1: "pvalue c = Done fl c1"
    "Done v c' = (let (d, h) = nyxj_number_value (mem c1) (take (length (pos c1) - length e) (pos c1))
                   in Done (VNumber fl d) (c1\<lparr>pos := e, mem := h\<rparr>))"
    using assms(1) e by (auto simp: parse_number_def bind_Done)
  have p: "pos c1 = pos c" "heap_total (mem c1)" using pvalue_pos [OF c1(1)] pvalue_total [OF c1(1) assms(2)] by auto
  have tk: "take (length (pos c1) - length e) (pos c1) = tok" using p t by simp
  have "fst (nyxj_number_value (mem c1) tok) = fst (strtod tok)"
    using nyxj_number_value_strtod [OF t(2)] malloc_total [OF p(2)] by blast
  then have "v = VNumber fl (fst (strtod tok))" "pos c' = e"
    using c1(2) unfolding tk by (auto simp: Let_def split: prod.splits)
  then show ?thesis using t by (auto simp: reads_def)
qed

lemma after_element_sound:
  assumes "after_element c close expected = Done go c'" "strict c" "close \<noteq> CHR '',''"
  shows "\<exists>w. blank w \<and> reads c (w @ [if go then CHR '','' else close]) c'"
proof -
  define p where "p = dropWhile nyxj_is_ws (pos c)"
  have e: "skip_ws c = Done () (c\<lparr>pos := p\<rparr>)" using skip_ws_strict [OF assms(2)] by (simp add: p_def)
  have ne: "p \<noteq> []" "hd p = (if go then CHR '','' else close)" "pos c' = tl p"
    using assms unfolding after_element_def e
    by (auto simp: bind_def Let_def strict_def split: if_splits)
  have "pos c = takeWhile nyxj_is_ws (pos c) @ hd p # tl p" using ne(1) by (simp add: p_def)
  then have "reads c (takeWhile nyxj_is_ws (pos c) @ [if go then CHR '','' else close]) c'"
    unfolding reads_def using ne(2,3) by simp
  then show ?thesis using blank_takeWhile by blast
qed

lemma parse_key_sound:
  assumes "parse_key c keys = Done k c'" "strict c" "ctx_ok c"
  shows "\<exists>w t s x. blank w \<and> json_string t s \<and> blank x \<and> k = cstr s \<and> reads c (w @ t @ x @ [CHR '':'']) c' \<and>
    (reject_duplicate_keys (flags c) \<longrightarrow> k \<notin> set keys) \<and> strict c'"
proof -
  define p where "p = dropWhile nyxj_is_ws (pos c)"
  have e: "skip_ws c = Done () (c\<lparr>pos := p\<rparr>)" using skip_ws_strict [OF assms(2)] by (simp add: p_def)
  have sp: "suffix p (pos c)" by (simp add: p_def suffix_dropWhile)
  note f1 = frame_pos [OF sp]
  have q: "p \<noteq> []" "hd p = CHR 0x22"
    using assms(1) unfolding parse_key_def e by (auto simp: bind_def Let_def split: if_splits)
  then obtain s c2 where s: "parse_string (c\<lparr>pos := p\<rparr>) = Done s c2"
    and rest: "(if reject_duplicate_keys (flags c2) \<and> cstr s \<in> set keys then fails c2 NYXJ_ERR_DUPLICATE_KEY p None
      else bind (skip_ws c2) (\<lambda>_ c. if pos c = [] \<or> hd (pos c) \<noteq> CHR '':''
        then fails c (if pos c = [] then NYXJ_ERR_UNEXPECTED_EOF else NYXJ_ERR_UNEXPECTED_CHAR) (pos c)
          (Some (quoted ''expected ~:~''))
        else Done (cstr s) (c\<lparr>pos := tl (pos c)\<rparr>))) = Done k c'"
    using assms(1) unfolding parse_key_def e by (auto simp: bind_Done Let_def bind_def split: if_splits presult.splits)
  have f2: "frame (c\<lparr>pos := p\<rparr>) c2"
    using runs_parse_string [of "c\<lparr>pos := p\<rparr>"] q(1) s frame_ctx_ok [OF assms(3) f1] by (simp add: runs_def)
  have st2: "strict c2" using strict_frame [OF f2] strict_frame [OF f1 assms(2)] by simp
  obtain t where t: "json_string t s" "reads (c\<lparr>pos := p\<rparr>) t c2"
    using parse_string_sound [OF s] q by auto
  define r where "r = dropWhile nyxj_is_ws (pos c2)"
  have e2: "skip_ws c2 = Done () (c2\<lparr>pos := r\<rparr>)" using skip_ws_strict [OF st2] by (simp add: r_def)
  have k: "r \<noteq> []" "hd r = CHR '':''" "k = cstr s" "c' = c2\<lparr>pos := tl r\<rparr>"
    "reject_duplicate_keys (flags c2) \<longrightarrow> k \<notin> set keys"
    using rest unfolding e2 by (auto simp: bind_def split: if_splits)
  have "pos c2 = takeWhile nyxj_is_ws (pos c2) @ CHR '':'' # tl r"
    using k(1,2) by (metis list.collapse r_def takeWhile_dropWhile_id)
  moreover have "pos c = takeWhile nyxj_is_ws (pos c) @ p" by (simp add: p_def)
  ultimately have "reads c (takeWhile nyxj_is_ws (pos c) @ t @ takeWhile nyxj_is_ws (pos c2) @ [CHR '':'']) c'"
    using t(2) k(4) by (simp add: reads_def)
  moreover have "strict c'" using st2 k(4) by (simp add: strict_def)
  moreover have "flags c2 = flags c" using f2 by (simp add: frame_def)
  ultimately show ?thesis using t(1) k(3,5) blank_takeWhile by metis
qed


lemma runs_D:
  assumes "runs P c r" "r = Done x c'" "ctx_ok c"
  shows "frame c c'" "P x c'" "ctx_ok c'"
  using assms frame_ctx_ok by (auto simp: runs_def)

lemma json_items_blank: "blank w \<Longrightarrow> json_items d u t vs \<Longrightarrow> json_items d u (w @ t) vs"
proof (erule json_items.cases)
  assume w: "blank w"
  show "json_items d u (w @ t) vs"
    if "d = d'" "u = u'" "t = w' @ t' @ x" "vs = [v]" "blank w'" "json_text d' u' t' v" "blank x" for d' u' w' t' x v
    using item [of "w @ w'" d' u' t' v x] that w by simp
  show "json_items d u (w @ t) vs"
    if "d = d'" "u = u'" "t = w' @ t' @ x @ CHR '','' # r" "vs = v # vs'" "blank w'" "json_text d' u' t' v"
      "blank x" "json_items d' u' r vs'" for d' u' w' t' v x r vs'
    using items [of "w @ w'" d' u' t' v x r vs'] that w by simp
qed

lemma json_members_blank: "blank w \<Longrightarrow> json_members d u t ms \<Longrightarrow> json_members d u (w @ t) ms"
proof (erule json_members.cases)
  assume w: "blank w"
  show "json_members d u (w @ t) ms"
    if "d = d'" "u = u'" "t = w' @ k @ x @ CHR '':'' # y @ t' @ z" "ms = [(cstr s, v)]" "blank w'" "json_string k s"
      "blank x" "blank y" "json_text d' u' t' v" "blank z" for w' k s x y d' u' t' v z
    using member [of "w @ w'" k s x y d' u' t' v z] that w by simp
  show "json_members d u (w @ t) ms"
    if "d = d'" "u = u'" "t = w' @ k @ x @ CHR '':'' # y @ t' @ z @ CHR '','' # r" "ms = (cstr s, v) # ms'" "blank w'"
      "json_string k s" "blank x" "blank y" "json_text d' u' t' v" "blank z" "json_members d' u' r ms'"
    for w' k s x y d' u' t' v z r ms'
    using members [of "w @ w'" k s x y d' u' t' v z r ms'] that w by simp
qed

lemma reads_trans: "reads c t c1 \<Longrightarrow> reads c1 u c2 \<Longrightarrow> reads c (t @ u) c2"
  by (simp add: reads_def)

lemma frame_flags: "frame c c' \<Longrightarrow> flags c' = flags c \<and> max_depth c' = max_depth c"
  by (simp add: frame_def)

lemma open_container_sound:
  assumes "open_container c = Done fl c'" "strict c" "ctx_ok c" "pos c \<noteq> []"
  shows "\<exists>w. blank w \<and> reads c (hd (pos c) # w) c'" "frame c c'" "depth c' = Suc (depth c)" "Suc (depth c) \<le> max_depth c"
    "ctx_ok c'" "strict c'"
proof -
  note r = runs_D [OF runs_open_container [OF assms(4)] assms(1,3)]
  show "frame c c'" "depth c' = Suc (depth c)" "Suc (depth c) \<le> max_depth c" "ctx_ok c'" using r by auto
  then show "strict c'" using strict_frame assms(2) by blast
  obtain c1 where c1: "pvalue (c\<lparr>pos := tl (pos c), depth := depth c + 1\<rparr>) = Done fl c1" "skip_ws c1 = Done () c'"
    using assms(1) by (auto simp: open_container_def Let_def bind_Done split: if_splits)
  note p = pvalue_pos [OF c1(1)] pvalue_total [OF c1(1)]
  have "flags c1 = flags c"
    using c1(1) by (auto simp: pvalue_def bind_Done palloc_def Let_def split: option.splits prod.splits if_splits)
  then have "strict c1" using p assms(2) by (simp add: strict_def)
  then have e: "pos c' = dropWhile nyxj_is_ws (tl (pos c))" using skip_ws_strict c1(2) p by auto
  have "pos c = hd (pos c) # takeWhile nyxj_is_ws (tl (pos c)) @ dropWhile nyxj_is_ws (tl (pos c))"
    using assms(4) by simp
  then have "reads c (hd (pos c) # takeWhile nyxj_is_ws (tl (pos c))) c'" unfolding reads_def e by simp
  then show "\<exists>w. blank w \<and> reads c (hd (pos c) # w) c'" using blank_takeWhile by blast
qed

lemma finish_array_Done:
  "finish_array c fl items = Done v c' \<Longrightarrow> pos c' = pos c \<and> (\<exists>cap. v = VArray fl items cap)"
  by (auto simp: finish_array_def Let_def bind_Done dest: palloc_pos split: if_splits)

lemma push_item_Done: "push_item c n cap = Done m c' \<Longrightarrow> pos c' = pos c \<and> depth c' = depth c"
  by (auto simp: push_item_def Let_def split: if_splits prod.splits)

text \<open>The tree of a call is the one of the text it reads.\<close>

abbreviation levels :: "pctx \<Rightarrow> nat" where
  "levels c \<equiv> max_depth c - depth c"

abbreviation unique_keys :: "pctx \<Rightarrow> bool" where
  "unique_keys c \<equiv> reject_duplicate_keys (flags c)"

definition value_sound :: "nat \<Rightarrow> bool" where
  "value_sound n \<longleftrightarrow> (\<forall>c v c'. parse_value n c = Done v c' \<longrightarrow> ctx_ok c \<longrightarrow> strict c \<longrightarrow>
     (\<exists>w t. blank w \<and> reads c (w @ t) c' \<and> json_text (levels c) (unique_keys c) t (abs_value v)))"

definition array_sound :: "nat \<Rightarrow> bool" where
  "array_sound n \<longleftrightarrow> (\<forall>c v c'. parse_array n c = Done v c' \<longrightarrow> ctx_ok c \<longrightarrow> strict c \<longrightarrow>
     pos c \<noteq> [] \<longrightarrow> hd (pos c) = CHR ''['' \<longrightarrow>
     (\<exists>t. reads c t c' \<and> json_text (levels c) (unique_keys c) t (abs_value v)))"

definition items_sound :: "nat \<Rightarrow> bool" where
  "items_sound n \<longleftrightarrow> (\<forall>open_at items cap c xs c'. array_loop n open_at items cap c = Done xs c' \<longrightarrow>
     ctx_ok c \<longrightarrow> strict c \<longrightarrow>
     (\<exists>t vs. reads c (t @ '']'') c' \<and> json_items (levels c) (unique_keys c) t vs \<and>
       map abs_value xs = map abs_value items @ vs))"

definition object_sound :: "nat \<Rightarrow> bool" where
  "object_sound n \<longleftrightarrow> (\<forall>c v c'. parse_object n c = Done v c' \<longrightarrow> ctx_ok c \<longrightarrow> strict c \<longrightarrow>
     pos c \<noteq> [] \<longrightarrow> hd (pos c) = CHR ''{'' \<longrightarrow>
     (\<exists>t. reads c t c' \<and> json_text (levels c) (unique_keys c) t (abs_value v)))"

definition members_sound :: "nat \<Rightarrow> bool" where
  "members_sound n \<longleftrightarrow> (\<forall>open_at pairs c ps c'. object_loop n open_at pairs c = Done ps c' \<longrightarrow>
     ctx_ok c \<longrightarrow> strict c \<longrightarrow>
     (\<exists>t ms. reads c (t @ ''}'') c' \<and> json_members (levels c) (unique_keys c) t ms \<and>
       map (map_prod id abs_value) ps = map (map_prod id abs_value) pairs @ ms))"

lemmas sound_defs = value_sound_def array_sound_def items_sound_def object_sound_def members_sound_def

lemma value_sound_Suc:
  assumes "object_sound n" "array_sound n"
    and run: "parse_value (Suc n) c = Done v c'" "ctx_ok c" "strict c"
  shows "\<exists>w t. blank w \<and> reads c (w @ t) c' \<and> json_text (levels c) (unique_keys c) t (abs_value v)" (is ?goal)
proof -
  note IH_object = assms(1) [unfolded sound_defs, rule_format]
  note IH_array = assms(2) [unfolded sound_defs, rule_format]
  define p where "p = dropWhile nyxj_is_ws (pos c)"
  let ?c = "c\<lparr>pos := p\<rparr>"
  have e: "skip_ws c = Done () ?c" using skip_ws_strict [OF run(3)] by (simp add: p_def)
  have f: "frame c ?c" by (rule frame_pos) (simp add: p_def suffix_dropWhile)
  note ok = frame_ctx_ok [OF run(2) f] and st = strict_frame [OF f run(3)]
  have w: "reads c (takeWhile nyxj_is_ws (pos c)) ?c" by (simp add: reads_def p_def)
  have "\<exists>t. reads ?c t c' \<and> json_text (levels c) (unique_keys c) t (abs_value v)"
  proof -
    have ne: "p \<noteq> []" using run(1) unfolding parse_value.simps e by (auto simp: bind_def split: if_splits)
    have r: "(if hd p = CHR ''{'' then parse_object n ?c
        else if hd p = CHR ''['' then parse_array n ?c
        else if hd p = CHR 0x22
        then bind (parse_string ?c) (\<lambda>s c. bind (pvalue c) (\<lambda>fl c. Done (VString fl (cstr s)) c))
        else if hd p = CHR ''t'' then parse_literal ?c ''true'' (\<lambda>fl. VBool fl True)
        else if hd p = CHR ''f'' then parse_literal ?c ''false'' (\<lambda>fl. VBool fl False)
        else if hd p = CHR ''n'' then parse_literal ?c ''null'' VNull
        else if hd p = CHR ''-'' \<or> nyxj_is_digit (hd p) then parse_number ?c
        else fails ?c NYXJ_ERR_UNEXPECTED_CHAR p (Some ''expected a value'')) = Done v c'"
    proof -
      have pp: "pos ?c = p" by simp
      show ?thesis using run(1) unfolding parse_value.simps e bind_simps Let_def pp if_not_P [OF ne] .
    qed
    consider "hd p = CHR ''{''" "parse_object n ?c = Done v c'" | "hd p = CHR ''[''" "parse_array n ?c = Done v c'"
      | "hd p = CHR 0x22" "bind (parse_string ?c) (\<lambda>s c. bind (pvalue c) (\<lambda>fl c. Done (VString fl (cstr s)) c)) = Done v c'"
      | "parse_literal ?c ''true'' (\<lambda>fl. VBool fl True) = Done v c'"
      | "parse_literal ?c ''false'' (\<lambda>fl. VBool fl False) = Done v c'"
      | "parse_literal ?c ''null'' VNull = Done v c'" | "parse_number ?c = Done v c'"
      using r by (auto split: if_splits)
    then show ?thesis
    proof cases
      case 1
      then show ?thesis using IH_object [OF 1(2) ok st] ne by simp
    next
      case 2
      then show ?thesis using IH_array [OF 2(2) ok st] ne by simp
    next
      case 3
      then obtain s c2 fl c3 where s: "parse_string ?c = Done s c2" "pvalue c2 = Done fl c3"
        "v = VString fl (cstr s)" "c' = c3" by (auto simp: bind_Done)
      obtain t where "json_string t s" "reads ?c t c2" using parse_string_sound [OF s(1)] ne 3(1) by auto
      then show ?thesis using s json_text_json_items_json_members.string pvalue_pos [OF s(2)]
        by (intro exI [of _ t]) (auto simp: reads_def)
    next
      case 4
      then show ?thesis using parse_literal_sound [OF 4] json_text_json_items_json_members.true
        by (intro exI [of _ "''true''"]) auto
    next
      case 5
      then show ?thesis using parse_literal_sound [OF 5] json_text_json_items_json_members.false
        by (intro exI [of _ "''false''"]) auto
    next
      case 6
      then show ?thesis using parse_literal_sound [OF 6] json_text_json_items_json_members.null
        by (intro exI [of _ "''null''"]) auto
    next
      case 7
      then show ?thesis using parse_number_sound [OF 7] st json_text_json_items_json_members.number
        by (fastforce simp: strict_def)
    qed
  qed
  then obtain t where "reads ?c t c'" "json_text (levels c) (unique_keys c) t (abs_value v)" by blast
  then show ?goal using reads_trans [OF w] blank_takeWhile by blast
qed

lemma array_sound_Suc:
  assumes "items_sound n"
    and run: "parse_array (Suc n) c = Done v c'" "ctx_ok c" "strict c" "pos c \<noteq> []" "hd (pos c) = CHR ''[''"
  shows "\<exists>t. reads c t c' \<and> json_text (levels c) (unique_keys c) t (abs_value v)" (is ?goal)
proof -
  note IH_items = assms(1) [unfolded sound_defs, rule_format]
  obtain fl c1 where c1: "open_container c = Done fl c1"
    "(if pos c1 \<noteq> [] \<and> hd (pos c1) = CHR '']'' then finish_array (c1\<lparr>pos := tl (pos c1)\<rparr>) fl []
      else bind (array_loop n (pos c) [] 16 c1) (\<lambda>items c. finish_array c fl items)) = Done v c'"
    using run(1) by (auto simp: Let_def bind_Done)
  note o' = open_container_sound [OF c1(1) run(3,2,4)]
  obtain w where w: "blank w" "reads c (CHR ''['' # w) c1" using o'(1) run(5) by auto
  have lv: "levels c = Suc (levels c1)" "unique_keys c1 = unique_keys c"
    using o'(3,4) frame_flags [OF o'(2)] by auto
  show ?goal
  proof (cases "pos c1 \<noteq> [] \<and> hd (pos c1) = CHR '']''")
    case True
    then have "finish_array (c1\<lparr>pos := tl (pos c1)\<rparr>) fl [] = Done v c'" using c1(2) by simp
    from finish_array_Done [OF this] have v: "pos c' = tl (pos c1)" "abs_value v = JArray []" by auto
    then have "reads c (CHR ''['' # w @ '']'') c'" using w(2) True by (cases "pos c1") (auto simp: reads_def)
    then show ?thesis using empty_array [OF w(1)] v(2) lv by (metis)
  next
    case False
    then obtain xs c2 where xs: "array_loop n (pos c) [] 16 c1 = Done xs c2" "finish_array c2 fl xs = Done v c'"
      using c1(2) by (auto simp: bind_Done)
    obtain t vs where t: "reads c1 (t @ '']'') c2" "json_items (levels c1) (unique_keys c1) t vs" "map abs_value xs = vs"
      using IH_items [OF xs(1) o'(5,6)] by auto
    have v: "pos c' = pos c2" "abs_value v = JArray vs" using finish_array_Done [OF xs(2)] t(3) by auto
    have "reads c (CHR ''['' # (w @ t) @ '']'') c'" using w(2) t(1) v(1) by (simp add: reads_def)
    then show ?thesis using array [OF json_items_blank [OF w(1) t(2)]] v(2) lv by metis
  qed
qed

lemma items_sound_Suc:
  assumes "value_sound n" "items_sound n"
    and run: "array_loop (Suc n) open_at items cap c = Done xs c'" "ctx_ok c" "strict c"
  shows "\<exists>t vs. reads c (t @ '']'') c' \<and> json_items (levels c) (unique_keys c) t vs \<and>
       map abs_value xs = map abs_value items @ vs" (is ?goal)
proof -
  note IH_value = assms(1) [unfolded sound_defs, rule_format]
  note IH_items = assms(2) [unfolded sound_defs, rule_format]
  obtain item c1 where c1: "parse_value n c = Done item c1" and
    r1: "bind (push_item c1 (length items) cap) (\<lambda>cap c.
      if max_elements c \<noteq> 0 \<and> max_elements c < length (items @ [item]) then fails c NYXJ_ERR_ELEMENT_LIMIT open_at None
      else bind (after_element c (CHR '']'') (quoted ''expected ~,~ or ~]~''))
        (\<lambda>go c. if go then array_loop n open_at (items @ [item]) cap c else Done (items @ [item]) c)) = Done xs c'"
    using run(1) by (auto simp: bind_Done Let_def)
  note f1 = runs_D [OF runs_parse(1) c1 run(2)]
  obtain cap' c2 where c2: "push_item c1 (length items) cap = Done cap' c2" and
    r2: "bind (after_element c2 (CHR '']'') (quoted ''expected ~,~ or ~]~''))
        (\<lambda>go c. if go then array_loop n open_at (items @ [item]) cap' c else Done (items @ [item]) c) = Done xs c'"
    using r1 unfolding bind_Done unless_fails_Done by blast
  note f2 = runs_D [OF runs_push_item c2 f1(3)]
  note st2 = strict_frame [OF f2(1) strict_frame [OF f1(1) run(3)]]
  obtain go c3 where c3: "after_element c2 (CHR '']'') (quoted ''expected ~,~ or ~]~'') = Done go c3" and
    r3: "(if go then array_loop n open_at (items @ [item]) cap' c3 else Done (items @ [item]) c3) = Done xs c'"
    using r2 unfolding bind_Done by blast
  note f3 = runs_D [OF runs_after_element c3 f2(3)]
  obtain w t where wt: "blank w" "reads c (w @ t) c1" "json_text (levels c) (unique_keys c) t (abs_value item)"
    using IH_value [OF c1 run(2,3)] by blast
  obtain x where x: "blank x" "reads c2 (x @ [if go then CHR '','' else CHR '']'']) c3"
    using after_element_sound [OF c3 st2] by auto
  have rd: "reads c (w @ t @ x @ [if go then CHR '','' else CHR '']'']) c3"
    using wt(2) f2(2) x(2) by (simp add: reads_def)
  show ?goal
  proof (cases go)
    case False
    then have "xs = items @ [item]" "c' = c3" using r3 by auto
    then show ?thesis using rd False item [OF wt(1,3) x(1)]
      by (intro exI [of _ "w @ t @ x"] exI [of _ "[abs_value item]"]) auto
  next
    case True
    have lv: "levels c3 = levels c" "unique_keys c3 = unique_keys c"
      using f1 f2 f3 by (auto simp: frame_def)
    obtain r vs where r: "reads c3 (r @ '']'') c'" "json_items (levels c) (unique_keys c) r vs"
      "map abs_value xs = map abs_value (items @ [item]) @ vs"
      using IH_items [of open_at "items @ [item]" cap' c3 xs c'] r3 True f3(3) strict_frame [OF f3(1) st2] lv by auto
    have "reads c ((w @ t @ x @ CHR '','' # r) @ '']'') c'" using rd True r(1) by (simp add: reads_def)
    moreover have "json_items (levels c) (unique_keys c) (w @ t @ x @ CHR '','' # r) (abs_value item # vs)"
      by (rule json_text_json_items_json_members.items [OF wt(1,3) x(1) r(2)])
    ultimately show ?thesis using r(3) by (intro exI [of _ "w @ t @ x @ CHR '','' # r"] exI [of _ "abs_value item # vs"]) auto
  qed
qed

lemma object_sound_Suc:
  assumes "members_sound n"
    and run: "parse_object (Suc n) c = Done v c'" "ctx_ok c" "strict c" "pos c \<noteq> []" "hd (pos c) = CHR ''{''"
  shows "\<exists>t. reads c t c' \<and> json_text (levels c) (unique_keys c) t (abs_value v)" (is ?goal)
proof -
  note IH_members = assms(1) [unfolded sound_defs, rule_format]
  obtain fl c1 where c1: "open_container c = Done fl c1"
    "(if pos c1 \<noteq> [] \<and> hd (pos c1) = CHR ''}''
      then Done (VObject fl []) (c1\<lparr>pos := tl (pos c1), depth := depth c1 - 1\<rparr>)
      else bind (object_loop n (pos c) [] c1) (\<lambda>pairs c. Done (VObject fl pairs) (c\<lparr>depth := depth c - 1\<rparr>))) = Done v c'"
    using run(1) by (auto simp: Let_def bind_Done)
  note o' = open_container_sound [OF c1(1) run(3,2,4)]
  obtain w where w: "blank w" "reads c (CHR ''{'' # w) c1" using o'(1) run(5) by auto
  have lv: "levels c = Suc (levels c1)" "unique_keys c1 = unique_keys c"
    using o'(3,4) frame_flags [OF o'(2)] by auto
  show ?goal
  proof (cases "pos c1 \<noteq> [] \<and> hd (pos c1) = CHR ''}''")
    case True
    then have v: "pos c' = tl (pos c1)" "abs_value v = JObject []" using c1(2) by auto
    then have "reads c (CHR ''{'' # w @ ''}'') c'" using w(2) True by (cases "pos c1") (auto simp: reads_def)
    then show ?thesis using empty_object [OF w(1)] v(2) lv by metis
  next
    case False
    then obtain ps c2 where ps: "object_loop n (pos c) [] c1 = Done ps c2" "v = VObject fl ps" "c' = c2\<lparr>depth := depth c2 - 1\<rparr>"
      using c1(2) by (auto simp: bind_Done)
    obtain t ms where t: "reads c1 (t @ ''}'') c2" "json_members (levels c1) (unique_keys c1) t ms"
      "map (map_prod id abs_value) ps = ms"
      using IH_members [OF ps(1) o'(5,6)] by auto
    have "suffix (pos c) (start c1)" using run(2) o'(2) by (simp add: ctx_ok_def frame_def)
    then have "pairs_ok c1 ps" using runs_D(2) [OF runs_parse(5) ps(1) o'(5)] by simp
    moreover have "map fst ms = map fst ps" using arg_cong [OF t(3), of "map fst"] by simp
    ultimately have dist: "unique_keys c1 \<longrightarrow> distinct (map fst ms)" by simp
    have "reads c (CHR ''{'' # (w @ t) @ ''}'') c'" using w(2) t(1) ps(3) by (simp add: reads_def)
    then show ?thesis using object [OF json_members_blank [OF w(1) t(2)] dist] t(3) ps(2) lv by (metis abs_value.simps(6))
  qed
qed

lemma members_sound_Suc:
  assumes "value_sound n" "members_sound n"
    and run: "object_loop (Suc n) open_at pairs c = Done ps c'" "ctx_ok c" "strict c"
  shows "\<exists>t ms. reads c (t @ ''}'') c' \<and> json_members (levels c) (unique_keys c) t ms \<and>
       map (map_prod id abs_value) ps = map (map_prod id abs_value) pairs @ ms" (is ?goal)
proof -
  note IH_value = assms(1) [unfolded sound_defs, rule_format]
  note IH_members = assms(2) [unfolded sound_defs, rule_format]
  obtain key c1 where c1: "parse_key c (map fst pairs) = Done key c1" and
    r1: "bind (parse_value n c1) (\<lambda>val c. bind (palloc c pair_bytes) (\<lambda>_ c.
      if max_elements c \<noteq> 0 \<and> max_elements c < length (pairs @ [(key, val)]) then fails c NYXJ_ERR_ELEMENT_LIMIT open_at None
      else bind (after_element c (CHR ''}'') (quoted ''expected ~,~ or ~}~''))
        (\<lambda>go c. if go then object_loop n open_at (pairs @ [(key, val)]) c else Done (pairs @ [(key, val)]) c))) = Done ps c'"
    using run(1) by (auto simp: bind_Done Let_def)
  note f1 = runs_D [OF runs_parse_key c1 run(2)]
  note st1 = strict_frame [OF f1(1) run(3)]
  obtain val c2 where c2: "parse_value n c1 = Done val c2" and
    r2: "bind (palloc c2 pair_bytes) (\<lambda>_ c.
      if max_elements c \<noteq> 0 \<and> max_elements c < length (pairs @ [(key, val)]) then fails c NYXJ_ERR_ELEMENT_LIMIT open_at None
      else bind (after_element c (CHR ''}'') (quoted ''expected ~,~ or ~}~''))
        (\<lambda>go c. if go then object_loop n open_at (pairs @ [(key, val)]) c else Done (pairs @ [(key, val)]) c)) = Done ps c'"
    using r1 by (auto simp: bind_Done)
  note f2 = runs_D [OF runs_parse(1) c2 f1(3)]
  obtain u c3 where c3: "palloc c2 pair_bytes = Done u c3" and
    r3: "bind (after_element c3 (CHR ''}'') (quoted ''expected ~,~ or ~}~''))
        (\<lambda>go c. if go then object_loop n open_at (pairs @ [(key, val)]) c else Done (pairs @ [(key, val)]) c) = Done ps c'"
    using r2 unfolding bind_Done unless_fails_Done by blast
  note f3 = runs_D [OF runs_palloc c3 f2(3)]
  note st3 = strict_frame [OF f3(1) strict_frame [OF f2(1) st1]]
  obtain go c4 where c4: "after_element c3 (CHR ''}'') (quoted ''expected ~,~ or ~}~'') = Done go c4" and
    r4: "(if go then object_loop n open_at (pairs @ [(key, val)]) c4 else Done (pairs @ [(key, val)]) c4) = Done ps c'"
    using r3 unfolding bind_Done by blast
  note f4 = runs_D [OF runs_after_element c4 f3(3)]
  obtain w k s x where k: "blank w" "json_string k s" "blank x" "key = cstr s" "reads c (w @ k @ x @ [CHR '':'']) c1"
    using parse_key_sound [OF c1 run(3,2)] by blast
  obtain y t where t: "blank y" "reads c1 (y @ t) c2" "json_text (levels c1) (unique_keys c1) t (abs_value val)"
    using IH_value [OF c2 f1(3) st1] by blast
  obtain z where z: "blank z" "reads c3 (z @ [if go then CHR '','' else CHR ''}'']) c4"
    using after_element_sound [OF c4 st3] by auto
  have lv1: "levels c1 = levels c" "unique_keys c1 = unique_keys c" using f1 by (auto simp: frame_def)
  have rd: "reads c (w @ k @ x @ CHR '':'' # y @ t @ z @ [if go then CHR '','' else CHR ''}'']) c4"
    using k(5) t(2) f3(2) z(2) by (simp add: reads_def)
  note t' = t(3) [unfolded lv1]
  show ?goal
  proof (cases go)
    case False
    then have "ps = pairs @ [(key, val)]" "c' = c4" using r4 by auto
    then show ?thesis using rd False member [OF k(1,2,3) t(1) t' z(1)] k(4)
      by (intro exI [of _ "w @ k @ x @ CHR '':'' # y @ t @ z"] exI [of _ "[(key, abs_value val)]"]) auto
  next
    case True
    have lv: "levels c4 = levels c" "unique_keys c4 = unique_keys c" using f1 f2 f3 f4 by (auto simp: frame_def)
    obtain r ms where r: "reads c4 (r @ ''}'') c'" "json_members (levels c) (unique_keys c) r ms"
      "map (map_prod id abs_value) ps = map (map_prod id abs_value) (pairs @ [(key, val)]) @ ms"
      using IH_members [of open_at "pairs @ [(key, val)]" c4 ps c'] r4 True f4(3) strict_frame [OF f4(1) st3] lv by auto
    have "reads c ((w @ k @ x @ CHR '':'' # y @ t @ z @ CHR '','' # r) @ ''}'') c'" using rd True r(1) by (simp add: reads_def)
    moreover have "json_members (levels c) (unique_keys c) (w @ k @ x @ CHR '':'' # y @ t @ z @ CHR '','' # r)
        ((key, abs_value val) # ms)"
      unfolding k(4) by (rule json_text_json_items_json_members.members [OF k(1,2,3) t(1) t' z(1) r(2)])
    ultimately show ?thesis using r(3)
      by (intro exI [of _ "w @ k @ x @ CHR '':'' # y @ t @ z @ CHR '','' # r"] exI [of _ "(key, abs_value val) # ms"]) auto
  qed
qed

lemma parse_sound_all: "value_sound n \<and> array_sound n \<and> items_sound n \<and> object_sound n \<and> members_sound n"
proof (induction n)
  case 0
  then show ?case by (simp add: sound_defs)
next
  case (Suc n)
  then have "value_sound (Suc n)" unfolding value_sound_def by (blast intro: value_sound_Suc)
  moreover have "array_sound (Suc n)" using Suc unfolding array_sound_def [of "Suc n"] by (blast intro: array_sound_Suc)
  moreover have "items_sound (Suc n)" using Suc unfolding items_sound_def [of "Suc n"] by (blast intro: items_sound_Suc)
  moreover have "object_sound (Suc n)" using Suc unfolding object_sound_def [of "Suc n"] by (blast intro: object_sound_Suc)
  moreover have "members_sound (Suc n)" using Suc unfolding members_sound_def [of "Suc n"] by (blast intro: members_sound_Suc)
  ultimately show ?case by blast
qed

lemma parse_value_sound:
  assumes "parse_value n c = Done v c'" "ctx_ok c" "strict c"
  shows "\<exists>w t. blank w \<and> reads c (w @ t) c' \<and> json_text (levels c) (unique_keys c) t (abs_value v)"
  using parse_sound_all assms unfolding value_sound_def by blast

end
