(* ===== verification/Parser_Complete.thy ===== *)
theory Parser_Complete
  imports Parser_Spec
begin

text \<open>
  Completeness of the parser: with memory, without limits on strings and elements, a text of the
  grammar is accepted. \<open>succeeds\<close> excludes \<open>Null\<close>; that the call returns is \<open>parse_total\<close>.
\<close>

definition ready :: "pctx \<Rightarrow> bool" where
  "ready c \<longleftrightarrow> ctx_ok c \<and> strict c \<and> max_string c = 0 \<and> max_elements c = 0"

definition succeeds :: "('a \<Rightarrow> pctx \<Rightarrow> bool) \<Rightarrow> pctx \<Rightarrow> 'a presult \<Rightarrow> bool" where
  "succeeds Q c r \<longleftrightarrow>
     (case r of Done x c' \<Rightarrow> frame c c' \<and> Q x c' | Null _ \<Rightarrow> False | No_fuel \<Rightarrow> True)"

lemma ready_frame: "frame c c' \<Longrightarrow> ready c \<Longrightarrow> ready c'"
  using frame_ctx_ok [of c c'] strict_frame [of c c'] by (simp add: ready_def frame_def)

lemma succeeds_Done: "frame c c' \<Longrightarrow> Q x c' \<Longrightarrow> succeeds Q c (Done x c')"
  by (simp add: succeeds_def)

lemma succeeds_bind:
  assumes "succeeds P c r"
    and "\<And>x c'. frame c c' \<Longrightarrow> P x c' \<Longrightarrow> succeeds Q c' (f x c')"
  shows "succeeds Q c (bind r f)"
proof (cases r)
  case (Done x c')
  then have "frame c c'" "P x c'" using assms(1) by (auto simp: succeeds_def)
  moreover from this have "succeeds Q c' (f x c')" by (rule assms(2))
  ultimately show ?thesis using Done frame_trans
    by (auto simp: succeeds_def bind_def split: presult.splits)
qed (use assms(1) in \<open>auto simp: succeeds_def bind_def\<close>)

lemma succeeds_mono:
  "succeeds P c r \<Longrightarrow> (\<And>x c'. frame c c' \<Longrightarrow> P x c' \<Longrightarrow> Q x c') \<Longrightarrow> succeeds Q c r"
  by (auto simp: succeeds_def split: presult.splits)

lemma succeeds_runs:
  assumes "runs P c r" "ready c" "\<And>c'. r \<noteq> Null c'"
  shows "succeeds P c r"
  using assms by (auto simp: succeeds_def runs_def ready_def split: presult.splits)

lemma succeeds_skip_ws:
  assumes "ready c"
  shows "succeeds (\<lambda>_ c'. pos c' = dropWhile nyxj_is_ws (pos c) \<and> depth c' = depth c) c (skip_ws c)"
proof -
  have "strict c" using assms by (simp add: ready_def)
  then show ?thesis
    by (auto simp: skip_ws_strict intro!: succeeds_Done frame_pos suffix_dropWhile)
qed

lemma succeeds_palloc:
  assumes "ready c"
  shows "succeeds (\<lambda>_ c'. pos c' = pos c \<and> depth c' = depth c) c (palloc c n)"
proof -
  have "heap_total (mem c)" using assms by (simp add: ready_def strict_def)
  from palloc_total [OF this, of n] obtain c' where "palloc c n = Done () c'" by blast
  then show ?thesis
    by (intro succeeds_mono [OF succeeds_runs [OF runs_palloc assms]]) auto
qed

lemma succeeds_pvalue:
  assumes "ready c"
  shows "succeeds (\<lambda>_ c'. pos c' = pos c \<and> depth c' = depth c) c (pvalue c)"
  unfolding pvalue_def
  by (rule succeeds_bind [OF succeeds_palloc [OF assms]]) (auto intro!: succeeds_Done frame_refl)

subsection \<open>Scalars\<close>

lemma json_chars_no_escape:
  assumes "json_chars t s" "\<forall>ch \<in> set t. \<not> is_special ch"
  shows "s = t" "nyxj_utf8_invalid_at t = length t"
proof -
  have "CHR 0x5C \<notin> set t" using assms(2) is_special_quote(2) by blast
  then have w: "takeWhile (\<lambda>ch. ch \<noteq> CHR 0x5C) t = t" by (auto simp: takeWhile_eq_all_conv)
  have u: "unescape [] t = Inr s" using unescape_complete [OF assms(1), of "[]"] by simp
  have e: "unescape [] t = (if nyxj_utf8_invalid_at t \<noteq> length t
      then Inl (NYXJ_ERR_INVALID_UTF8, drop (nyxj_utf8_invalid_at t) t) else Inr t)"
  proof (cases "t = []")
    case True
    then show ?thesis using nyxj_utf8_invalid_at_valid [of "[]"] by (subst unescape.simps) simp
  next
    case False
    then have "\<not> length t \<le> length []" by simp
    then show ?thesis unfolding unescape.simps [of "[]" t]
      by (simp only: Let_def list.size diff_zero take_all order_refl w drop_all if_True if_False)
  qed
  show "nyxj_utf8_invalid_at t = length t" using u unfolding e by (simp split: if_splits)
  then show "s = t" using u unfolding e by simp
qed

lemma dropWhile_scan:
  assumes "\<forall>ch \<in> set t. \<not> is_special ch"
  shows "dropWhile (\<lambda>ch. \<not> is_special ch) (t @ CHR 0x22 # r) = CHR 0x22 # r"
  using assms by (induction t) auto

lemma succeeds_parse_string:
  assumes "ready c" "json_string k s" "pos c = k @ r"
  shows "succeeds (\<lambda>s' c'. s' = s \<and> pos c' = r \<and> depth c' = depth c) c (parse_string c)"
proof -
  obtain t where t: "k = CHR 0x22 # t @ [CHR 0x22]" "json_chars t s" using assms(2) by (auto simp: json_string_def)
  define q where "q = nyxj_scan_string_special (simd c) (t @ CHR 0x22 # r)"
  have p: "pos c = CHR 0x22 # t @ CHR 0x22 # r" using assms(3) t(1) by simp
  have ms: "max_string c' = 0" if "frame c c'" for c' using that assms(1) by (simp add: ready_def frame_def)
  have q_eq: "q = dropWhile (\<lambda>ch. \<not> is_special ch) (t @ CHR 0x22 # r)" by (simp add: q_def nyxj_scan_string_special_eq)
  have fq: "find_quote (simd c) q = Inr (CHR 0x22 # r)"
    unfolding q_def by (rule find_quote_complete [OF scan_body_chars [OF t(2)]])
  have sf: "suffix r (pos c)" by (simp add: p suffix_def)
  have fr: "frame c' (c'\<lparr>pos := r\<rparr>)" if "pos c' = pos c" for c' using sf that by (intro frame_pos) simp
  show ?thesis
  proof (cases "\<forall>ch \<in> set t. \<not> is_special ch")
    case True
    have q: "q = CHR 0x22 # r" unfolding q_eq by (rule dropWhile_scan [OF True])
    have st: "parse_string c = bind (palloc c (length t + 1)) (\<lambda>_ c. Done t (c\<lparr>pos := r\<rparr>))"
      using json_chars_no_escape(2) [OF t(2) True] ms [OF frame_refl]
      unfolding parse_string_def Let_def p list.sel q_def [symmetric] q by simp
    show ?thesis unfolding st
      by (rule succeeds_bind [OF succeeds_palloc [OF assms(1)]])
        (use fr json_chars_no_escape(1) [OF t(2) True] in \<open>auto intro!: succeeds_Done\<close>)
  next
    case False
    have nq: "\<not> (q \<noteq> [] \<and> hd q = CHR 0x22)"
    proof -
      obtain ch where ch: "ch \<in> set t" "is_special ch" using False by blast
      then have dt: "q = dropWhile (\<lambda>ch. \<not> is_special ch) t @ CHR 0x22 # r" "dropWhile (\<lambda>ch. \<not> is_special ch) t \<noteq> []"
        unfolding q_eq by (auto simp: dropWhile_append1)
      have "scan_body (dropWhile (\<lambda>ch. \<not> is_special ch) t)"
        using scan_body_chars [OF t(2)] scan_body_plain [of "takeWhile (\<lambda>ch. \<not> is_special ch) t"]
        by (metis set_takeWhileD takeWhile_dropWhile_id)
      then show ?thesis using dt hd_dropWhile [OF dt(2)]
        by (cases "dropWhile (\<lambda>ch. \<not> is_special ch) t") (auto split: if_splits list.splits)
    qed
    have st: "parse_string c = bind (palloc c (length t + 1))
        (\<lambda>_ c'. if max_string c' \<noteq> 0 \<and> max_string c' < length s then fails c' NYXJ_ERR_STRING_LIMIT (pos c) None
          else Done s (c'\<lparr>pos := r\<rparr>))"
      using unescape_complete [OF t(2), of "CHR 0x22 # r"] fq nq
      unfolding parse_string_def Let_def p list.sel q_def [symmetric] if_not_P [OF nq] fq sum.case by simp
    show ?thesis unfolding st
      by (rule succeeds_bind [OF succeeds_palloc [OF assms(1)]]) (use fr ms in \<open>auto intro!: succeeds_Done\<close>)
  qed
qed

lemma succeeds_parse_literal:
  assumes "ready c" "pos c = word @ r" "\<And>fl. abs_value (mk fl) = v"
  shows "succeeds (\<lambda>v' c'. pos c' = r \<and> depth c' = depth c \<and> abs_value v' = v) c (parse_literal c word mk)"
proof -
  have "starts_with word (pos c)" "length word \<le> length (pos c)" using assms(2) by (auto simp: starts_with_iff)
  then have st: "parse_literal c word mk =
      bind (pvalue c) (\<lambda>fl c. Done (mk fl) (c\<lparr>pos := drop (length word) (pos c)\<rparr>))"
    by (simp add: parse_literal_def)
  show ?thesis unfolding st
    by (rule succeeds_bind [OF succeeds_pvalue [OF assms(1)]])
      (use assms(2,3) in \<open>auto intro!: succeeds_Done frame_pos simp: suffix_def\<close>)
qed

lemma succeeds_parse_number:
  assumes "ready c" "json_number tok" "pos c = tok @ r" "number_stop r"
  shows "succeeds (\<lambda>v' c'. pos c' = r \<and> depth c' = depth c \<and> abs_value v' = JNumber (fst (strtod tok))) c (parse_number c)"
proof -
  have e: "nyxj_scan_number (pos c) = Some r" unfolding assms(3) by (rule nyxj_scan_number_complete [OF assms(2,4)])
  show ?thesis unfolding parse_number_def e option.case
  proof (rule succeeds_bind [OF succeeds_pvalue [OF assms(1)]])
    fix fl c1
    assume c1: "frame c c1" "pos c1 = pos c \<and> depth c1 = depth c"
    have ht: "heap_total (mem c1)" using ready_frame [OF c1(1) assms(1)] by (simp add: ready_def strict_def)
    have tk: "take (length (pos c1) - length r) (pos c1) = tok" using c1(2) assms(3) by simp
    obtain d h where dh: "nyxj_number_value (mem c1) tok = (d, h)" by fastforce
    have "d = fst (strtod tok)"
      using nyxj_number_value_strtod [OF assms(2), of "mem c1"] malloc_total [OF ht] dh by simp
    moreover have "heap_total h" using nyxj_number_value_total [OF ht, of tok] dh by simp
    moreover have "frame c1 (c1\<lparr>pos := r, mem := h\<rparr>)"
      using c1(2) assms(3) \<open>heap_total h\<close> by (simp add: frame_def suffix_def)
    ultimately show "succeeds (\<lambda>v' c'. pos c' = r \<and> depth c' = depth c \<and> abs_value v' = JNumber (fst (strtod tok))) c1
        (let (d, h) = nyxj_number_value (mem c1) (take (length (pos c1) - length r) (pos c1))
         in Done (VNumber fl d) (c1\<lparr>pos := r, mem := h\<rparr>))"
      using c1(2) unfolding tk dh by (auto intro!: succeeds_Done)
  qed
qed

subsection \<open>The parts of containers\<close>

lemma succeeds_after_element:
  assumes "ready c" "dropWhile nyxj_is_ws (pos c) = (if go then CHR '','' else close) # r" "close \<noteq> CHR '',''"
  shows "succeeds (\<lambda>go' c'. go' = go \<and> pos c' = r \<and> depth c' = depth c) c (after_element c close expected)"
  unfolding after_element_def
proof (rule succeeds_bind [OF succeeds_skip_ws [OF assms(1)]])
  fix u c1
  assume c1: "frame c c1" "pos c1 = dropWhile nyxj_is_ws (pos c) \<and> depth c1 = depth c"
  have tc: "\<not> allow_trailing_commas (flags c1)" using ready_frame [OF c1(1) assms(1)] by (simp add: ready_def strict_def)
  have "frame c1 (c1\<lparr>pos := r\<rparr>)" using c1(2) assms(2) by (intro frame_pos) (simp add: suffix_def)
  then show "succeeds (\<lambda>go' c'. go' = go \<and> pos c' = r \<and> depth c' = depth c) c1
      (if pos c1 = [] then fails c1 NYXJ_ERR_UNEXPECTED_EOF (pos c1) (Some expected)
       else if hd (pos c1) = CHR '',''
       then let c = c1\<lparr>pos := tl (pos c1)\<rparr>
            in if allow_trailing_commas (flags c)
               then bind (skip_ws c)
                 (\<lambda>_ c. if pos c \<noteq> [] \<and> hd (pos c) = close then Done False (c\<lparr>pos := tl (pos c)\<rparr>) else Done True c)
               else Done True c
       else if hd (pos c1) = close then Done False (c1\<lparr>pos := tl (pos c1)\<rparr>)
       else fails c1 NYXJ_ERR_UNEXPECTED_CHAR (pos c1) (Some expected))"
    using c1(2) assms(2,3) tc by (auto intro!: succeeds_Done)
qed

lemma succeeds_push_item:
  assumes "ready c"
  shows "succeeds (\<lambda>_ c'. pos c' = pos c \<and> depth c' = depth c) c (push_item c n cap)"
proof -
  have "heap_total (mem c)" using assms by (simp add: ready_def strict_def)
  then have "fst (malloc (mem c) (pointer_bytes * cap * 2))" using malloc_total by blast
  then have "\<And>c'. push_item c n cap \<noteq> Null c'" by (auto simp: push_item_def Let_def split: prod.splits)
  then show ?thesis using push_item_Done by (intro succeeds_mono [OF succeeds_runs [OF runs_push_item assms]]) auto
qed

lemma dropWhile_not_ws: "p \<noteq> [] \<Longrightarrow> \<not> nyxj_is_ws (hd p) \<Longrightarrow> dropWhile nyxj_is_ws p = p"
  by (cases p) auto

lemma succeeds_parse_key:
  assumes "ready c" "json_string k s" "dropWhile nyxj_is_ws (pos c) = k @ q" "dropWhile nyxj_is_ws q = CHR '':'' # r"
    "unique_keys c \<longrightarrow> cstr s \<notin> set keys"
  shows "succeeds (\<lambda>key c'. key = cstr s \<and> pos c' = r \<and> depth c' = depth c) c (parse_key c keys)"
  unfolding parse_key_def
proof (rule succeeds_bind [OF succeeds_skip_ws [OF assms(1)]])
  fix u c1
  assume c1: "frame c c1" "pos c1 = dropWhile nyxj_is_ws (pos c) \<and> depth c1 = depth c"
  note rd1 = ready_frame [OF c1(1) assms(1)]
  have p1: "pos c1 = k @ q" using c1(2) assms(3) by simp
  have k: "k \<noteq> []" "hd k = CHR 0x22" using assms(2) by (auto simp: json_string_def)
  have fl: "flags c1 = flags c" using frame_flags [OF c1(1)] by simp
  have c1': "pos c1 \<noteq> []" "hd (pos c1) = CHR 0x22" using p1 k by simp_all
  show "succeeds (\<lambda>key c'. key = cstr s \<and> pos c' = r \<and> depth c' = depth c) c1
      (if pos c1 = [] then fails c1 NYXJ_ERR_UNEXPECTED_EOF (pos c1) (Some ''expected a string key'')
       else if hd (pos c1) \<noteq> CHR 0x22
       then fails c1 NYXJ_ERR_UNEXPECTED_CHAR (pos c1) (Some ''expected a string key'')
       else let key_at = pos c1
            in bind (parse_string c1)
              (\<lambda>key c.
                 if reject_duplicate_keys (flags c) \<and> cstr key \<in> set keys
                 then fails c NYXJ_ERR_DUPLICATE_KEY key_at None
                 else bind (skip_ws c)
                   (\<lambda>_ c.
                      if pos c = [] \<or> hd (pos c) \<noteq> CHR '':''
                      then fails c (if pos c = [] then NYXJ_ERR_UNEXPECTED_EOF else NYXJ_ERR_UNEXPECTED_CHAR)
                        (pos c) (Some (quoted ''expected ~:~''))
                      else Done (cstr key) (c\<lparr>pos := tl (pos c)\<rparr>))))"
    unfolding Let_def if_not_P [OF c1'(1)] c1'(2) simp_thms if_False
  proof (rule succeeds_bind [OF succeeds_parse_string [OF rd1 assms(2) p1]])
    fix key c2
    assume c2: "frame c1 c2" "key = s \<and> pos c2 = q \<and> depth c2 = depth c1"
    note rd2 = ready_frame [OF c2(1) rd1]
    have nd: "\<not> (reject_duplicate_keys (flags c2) \<and> cstr key \<in> set keys)"
      using c2(2) assms(5) fl frame_flags [OF c2(1)] by simp
    show "succeeds (\<lambda>key c'. key = cstr s \<and> pos c' = r \<and> depth c' = depth c) c2
        (if reject_duplicate_keys (flags c2) \<and> cstr key \<in> set keys
         then fails c2 NYXJ_ERR_DUPLICATE_KEY (pos c1) None
         else bind (skip_ws c2)
           (\<lambda>_ c.
              if pos c = [] \<or> hd (pos c) \<noteq> CHR '':''
              then fails c (if pos c = [] then NYXJ_ERR_UNEXPECTED_EOF else NYXJ_ERR_UNEXPECTED_CHAR)
                (pos c) (Some (quoted ''expected ~:~''))
              else Done (cstr key) (c\<lparr>pos := tl (pos c)\<rparr>)))"
      unfolding if_not_P [OF nd]
      by (rule succeeds_bind [OF succeeds_skip_ws [OF rd2]])
        (use c1(2) c2(2) assms(4) in \<open>auto intro!: succeeds_Done frame_pos simp: suffix_def\<close>)
  qed
qed

lemma succeeds_open_container:
  assumes "ready c" "pos c \<noteq> []" "depth c < max_depth c"
  shows "succeeds (\<lambda>_ c'. pos c' = dropWhile nyxj_is_ws (tl (pos c)) \<and> depth c' = Suc (depth c)) c (open_container c)"
proof -
  let ?c = "c\<lparr>pos := tl (pos c), depth := depth c + 1\<rparr>"
  have f: "frame c ?c" using assms(2) by (simp add: frame_def)
  have e: "open_container c = bind (pvalue ?c) (\<lambda>fl c. bind (skip_ws c) (\<lambda>_ c. Done fl c))"
    using assms(3) by (simp add: open_container_def Let_def)
  have "succeeds (\<lambda>_ c'. pos c' = dropWhile nyxj_is_ws (tl (pos c)) \<and> depth c' = Suc (depth c)) ?c
      (bind (pvalue ?c) (\<lambda>fl c. bind (skip_ws c) (\<lambda>_ c. Done fl c)))"
  proof (rule succeeds_bind [OF succeeds_pvalue [OF ready_frame [OF f assms(1)]]])
    fix fl c1
    assume c1: "frame ?c c1" "pos c1 = pos ?c \<and> depth c1 = depth ?c"
    have r1: "ready c1" using ready_frame [OF c1(1) ready_frame [OF f assms(1)]] .
    show "succeeds (\<lambda>_ c'. pos c' = dropWhile nyxj_is_ws (tl (pos c)) \<and> depth c' = Suc (depth c)) c1
        (bind (skip_ws c1) (\<lambda>_ c. Done fl c))"
      by (rule succeeds_bind [OF succeeds_skip_ws [OF r1]]) (use c1(2) in \<open>auto intro!: succeeds_Done frame_refl\<close>)
  qed
  then show ?thesis unfolding e using f frame_trans by (auto simp: succeeds_def split: presult.splits)
qed

lemma succeeds_finish_array:
  assumes "ready c"
  shows "succeeds (\<lambda>v c'. pos c' = pos c \<and> depth c' = depth c - 1 \<and> abs_value v = JArray (map abs_value items)) c
    (finish_array c fl items)"
proof (cases "items = []")
  case True
  then show ?thesis by (auto simp: finish_array_def frame_def intro!: succeeds_Done)
next
  case False
  have f: "frame c' (c'\<lparr>depth := d\<rparr>)" for c' d by (simp add: frame_def)
  show ?thesis unfolding finish_array_def if_not_P [OF False] Let_def
    by (rule succeeds_bind [OF succeeds_palloc [OF assms]]) (auto intro!: succeeds_Done f)
qed

subsection \<open>Texts of the grammar\<close>

lemma digit_not_ws: "is_digit_char c \<Longrightarrow> \<not> nyxj_is_ws c \<and> c \<notin> {CHR '']'', CHR ''}'', CHR ''{'', CHR ''['', CHR 0x22, CHR ''t'', CHR ''f'', CHR ''n''}"
  by (auto simp: is_digit_char_def nyxj_is_ws_def)

lemma json_number_hd:
  assumes "json_number tok"
  shows "tok \<noteq> []" "hd tok = CHR ''-'' \<or> is_digit_char (hd tok)"
proof -
  obtain neg ip fp s ex where tok: "tok = sign_text neg @ ip @ frac_text fp @ s" and ip: "json_int ip"
    using assms by (auto simp: json_number_def number_token_def)
  show "tok \<noteq> []" "hd tok = CHR ''-'' \<or> is_digit_char (hd tok)"
    using tok json_int_hd [OF ip] by (auto simp: sign_text_def)
qed

lemma json_text_hd:
  assumes "json_text d u t v"
  shows "t \<noteq> [] \<and> \<not> nyxj_is_ws (hd t) \<and> hd t \<noteq> CHR '']'' \<and> hd t \<noteq> CHR ''}''"
  using assms
proof (cases rule: json_text.cases)
  case (number)
  then show ?thesis using json_number_hd digit_not_ws by (fastforce simp: nyxj_is_ws_def)
qed (auto simp: nyxj_is_ws_def json_string_def)

lemma dropWhile_text: "json_text d u t v \<Longrightarrow> blank w \<Longrightarrow> dropWhile nyxj_is_ws (w @ t @ r) = t @ r"
  using json_text_hd [of d u t v] by (subst dropWhile_blank) (auto intro!: dropWhile_not_ws)

lemma dropWhile_string: "json_string k s \<Longrightarrow> blank w \<Longrightarrow> dropWhile nyxj_is_ws (w @ k @ r) = k @ r"
  by (subst dropWhile_blank) (auto simp: json_string_def nyxj_is_ws_def intro!: dropWhile_not_ws)

lemma dropWhile_char: "\<not> nyxj_is_ws ch \<Longrightarrow> blank w \<Longrightarrow> dropWhile nyxj_is_ws (w @ ch # r) = ch # r"
  by (subst dropWhile_blank) auto

lemma dropWhile_after: "t \<noteq> [] \<Longrightarrow> \<not> nyxj_is_ws (hd t) \<Longrightarrow> blank w \<Longrightarrow> dropWhile nyxj_is_ws (w @ t @ r) = t @ r"
  by (subst dropWhile_blank) (auto intro!: dropWhile_not_ws)

lemma dropWhile_ws_twice [simp]: "dropWhile nyxj_is_ws (dropWhile nyxj_is_ws p) = dropWhile nyxj_is_ws p"
  by (induction p) auto

lemma json_items_split:
  assumes "json_items d u t vs"
  obtains w t' where "t = w @ t'" "blank w" "t' \<noteq> []" "\<not> nyxj_is_ws (hd t')" "hd t' \<noteq> CHR '']''"
  using assms
proof (cases rule: json_items.cases)
  case (item w t' v x)
  then show ?thesis using that [of w "t' @ x"] json_text_hd [of d u t' v] by auto
next
  case (items w t' v x r vs')
  then show ?thesis using that [of w "t' @ x @ CHR '','' # r"] json_text_hd [of d u t' v] by auto
qed

lemma json_members_split:
  assumes "json_members d u t ms"
  obtains w t' where "t = w @ t'" "blank w" "t' \<noteq> []" "\<not> nyxj_is_ws (hd t')" "hd t' \<noteq> CHR ''}''"
  using assms
proof (cases rule: json_members.cases)
  case (member w k s x y t' v z)
  then show ?thesis using that [of w "k @ x @ CHR '':'' # y @ t' @ z"] by (auto simp: json_string_def nyxj_is_ws_def)
next
  case (members w k s x y t' v z r ms')
  then show ?thesis using that [of w "k @ x @ CHR '':'' # y @ t' @ z @ CHR '','' # r"]
    by (auto simp: json_string_def nyxj_is_ws_def)
qed

definition value_end :: "bytes \<Rightarrow> bool" where
  "value_end r \<longleftrightarrow> r = [] \<or> nyxj_is_ws (hd r) \<or> hd r \<in> {CHR '','', CHR '']'', CHR ''}''}"

lemma value_end_number_stop: "value_end r \<Longrightarrow> number_stop r"
  by (auto simp: value_end_def number_stop_def nyxj_is_ws_def is_digit_char_def)

lemma value_end_blank: "blank x \<Longrightarrow> value_end r \<Longrightarrow> value_end (x @ r)"
  by (cases x) (auto simp: value_end_def blank_def)

text \<open>The claim of the induction for each nonterminal.\<close>

definition takes :: "nat \<Rightarrow> bool \<Rightarrow> pctx \<Rightarrow> bool" where
  "takes d u c \<longleftrightarrow> ready c \<and> d \<le> levels c \<and> (unique_keys c \<longrightarrow> u)"

definition text_taken :: "nat \<Rightarrow> bool \<Rightarrow> bytes \<Rightarrow> json \<Rightarrow> bool" where
  "text_taken d u t v \<longleftrightarrow> (\<forall>n c r. takes d u c \<longrightarrow> value_end r \<longrightarrow> dropWhile nyxj_is_ws (pos c) = t @ r \<longrightarrow>
     succeeds (\<lambda>v' c'. pos c' = r \<and> depth c' = depth c \<and> abs_value v' = v) c (parse_value n c))"

definition items_taken :: "nat \<Rightarrow> bool \<Rightarrow> bytes \<Rightarrow> json list \<Rightarrow> bool" where
  "items_taken d u t vs \<longleftrightarrow> (\<forall>n c r open_at items cap. takes d u c \<longrightarrow>
     dropWhile nyxj_is_ws (pos c) = dropWhile nyxj_is_ws (t @ CHR '']'' # r) \<longrightarrow>
     succeeds (\<lambda>xs c'. pos c' = r \<and> depth c' = depth c \<and> map abs_value xs = map abs_value items @ vs) c
       (array_loop n open_at items cap c))"

definition members_taken :: "nat \<Rightarrow> bool \<Rightarrow> bytes \<Rightarrow> (string \<times> json) list \<Rightarrow> bool" where
  "members_taken d u t ms \<longleftrightarrow> (\<forall>n c r open_at pairs. takes d u c \<longrightarrow>
     dropWhile nyxj_is_ws (pos c) = dropWhile nyxj_is_ws (t @ CHR ''}'' # r) \<longrightarrow>
     (unique_keys c \<longrightarrow> distinct (map fst pairs @ map fst ms)) \<longrightarrow>
     succeeds (\<lambda>ps c'. pos c' = r \<and> depth c' = depth c \<and>
         map (map_prod id abs_value) ps = map (map_prod id abs_value) pairs @ ms) c
       (object_loop n open_at pairs c))"

lemma takes_frame: "frame c c' \<Longrightarrow> depth c' = depth c \<Longrightarrow> takes d u c \<Longrightarrow> takes d u c'"
  using ready_frame [of c c'] frame_flags [of c c'] by (auto simp: takes_def)

lemma takes_mono: "takes d u c \<Longrightarrow> d' \<le> d \<Longrightarrow> takes d' u c"
  by (auto simp: takes_def)

lemma takes_ready: "takes d u c \<Longrightarrow> ready c"
  by (simp add: takes_def)

lemma succeeds_No_fuel [simp]: "succeeds Q c No_fuel"
  by (simp add: succeeds_def)

text \<open>The branch of \<open>parse_value\<close> at a first byte.\<close>

abbreviation dispatch :: "nat \<Rightarrow> pctx \<Rightarrow> nyxj_value presult" where
  "dispatch n c \<equiv>
     (let ch = hd (pos c)
      in if ch = CHR ''{'' then parse_object n c
         else if ch = CHR ''['' then parse_array n c
         else if ch = CHR 0x22
         then bind (parse_string c) (\<lambda>s c. bind (pvalue c) (\<lambda>fl c. Done (VString fl (cstr s)) c))
         else if ch = CHR ''t'' then parse_literal c ''true'' (\<lambda>fl. VBool fl True)
         else if ch = CHR ''f'' then parse_literal c ''false'' (\<lambda>fl. VBool fl False)
         else if ch = CHR ''n'' then parse_literal c ''null'' VNull
         else if ch = CHR ''-'' \<or> nyxj_is_digit ch then parse_number c
         else fails c NYXJ_ERR_UNEXPECTED_CHAR (pos c) (Some ''expected a value''))"

lemma succeeds_dispatch:
  assumes "takes d u c" "dropWhile nyxj_is_ws (pos c) = p" "p \<noteq> []"
    and "\<And>m c'. takes d u c' \<Longrightarrow> pos c' = p \<Longrightarrow> depth c' = depth c \<Longrightarrow> succeeds Q c' (dispatch m c')"
  shows "succeeds Q c (parse_value n c)"
proof (cases n)
  case (Suc m)
  show ?thesis unfolding Suc parse_value.simps
  proof (rule succeeds_bind [OF succeeds_skip_ws [OF takes_ready [OF assms(1)]]])
    fix w c1
    assume c1: "frame c c1" "pos c1 = dropWhile nyxj_is_ws (pos c) \<and> depth c1 = depth c"
    then have "pos c1 = p" "depth c1 = depth c" "pos c1 \<noteq> []" using assms(2,3) by auto
    then show "succeeds Q c1 (if pos c1 = [] then fails c1 NYXJ_ERR_UNEXPECTED_EOF (pos c1) (Some ''expected a value'')
        else dispatch m c1)"
      using assms(4) [of c1 m] takes_frame [OF c1(1) _ assms(1)] by simp
  qed
qed simp

lemma text_takenI:
  assumes "t \<noteq> []"
    and "\<And>m c r. takes d u c \<Longrightarrow> value_end r \<Longrightarrow> pos c = t @ r \<Longrightarrow>
      succeeds (\<lambda>v' c'. pos c' = r \<and> depth c' = depth c \<and> abs_value v' = v) c (dispatch m c)"
  shows "text_taken d u t v"
  unfolding text_taken_def
proof (intro allI impI)
  fix n c r
  assume c: "takes d u c" "value_end r" "dropWhile nyxj_is_ws (pos c) = t @ r"
  show "succeeds (\<lambda>v' c'. pos c' = r \<and> depth c' = depth c \<and> abs_value v' = v) c (parse_value n c)"
  proof (rule succeeds_dispatch [OF c(1,3)])
    fix m c1
    assume c1: "takes d u c1" "pos c1 = t @ r" "depth c1 = depth c"
    show "succeeds (\<lambda>v' c'. pos c' = r \<and> depth c' = depth c \<and> abs_value v' = v) c1 (dispatch m c1)"
      using assms(2) [OF c1(1) c(2) c1(2), of m] unfolding c1(3) .
  qed (use assms(1) in simp)
qed

lemma literal_taken: "text_taken d u ''null'' JNull" "text_taken d u ''false'' (JBool False)" "text_taken d u ''true'' (JBool True)"
  by (rule text_takenI; simp; rule succeeds_parse_literal; simp add: takes_ready)+

lemma number_taken:
  assumes "json_number tok"
  shows "text_taken d u tok (JNumber (fst (strtod tok)))"
proof (rule text_takenI)
  note hd = json_number_hd [OF assms]
  show "tok \<noteq> []" by (rule hd)
  fix m c r
  assume c: "takes d u c" "value_end r" "pos c = tok @ r"
  have h: "hd (pos c) = hd tok" using c(3) hd by simp
  have n: "hd tok \<notin> {CHR ''{'', CHR ''['', CHR 0x22, CHR ''t'', CHR ''f'', CHR ''n''}"
    using hd(2) digit_not_ws by fastforce
  have d: "hd tok = CHR ''-'' \<or> nyxj_is_digit (hd tok)" using hd(2) by (simp add: nyxj_is_digit_eq)
  have "dispatch m c = parse_number c" unfolding Let_def h using n d by simp
  then show "succeeds (\<lambda>v' c'. pos c' = r \<and> depth c' = depth c \<and> abs_value v' = JNumber (fst (strtod tok))) c (dispatch m c)"
    using succeeds_parse_number [OF takes_ready [OF c(1)] assms c(3) value_end_number_stop [OF c(2)]] by simp
qed

lemma string_taken:
  assumes "json_string txt s"
  shows "text_taken d u txt (JString (cstr s))"
proof (rule text_takenI)
  show "txt \<noteq> []" using assms by (auto simp: json_string_def)
  fix m c r
  assume c: "takes d u c" "value_end r" "pos c = txt @ r"
  have "hd (pos c) = CHR 0x22" using c(3) assms by (auto simp: json_string_def)
  then have e: "dispatch m c = bind (parse_string c) (\<lambda>s c. bind (pvalue c) (\<lambda>fl c. Done (VString fl (cstr s)) c))" by simp
  show "succeeds (\<lambda>v' c'. pos c' = r \<and> depth c' = depth c \<and> abs_value v' = JString (cstr s)) c (dispatch m c)"
    unfolding e
  proof (rule succeeds_bind [OF succeeds_parse_string [OF takes_ready [OF c(1)] assms c(3)]])
    fix s' c1
    assume c1: "frame c c1" "s' = s \<and> pos c1 = r \<and> depth c1 = depth c"
    show "succeeds (\<lambda>v' c'. pos c' = r \<and> depth c' = depth c \<and> abs_value v' = JString (cstr s)) c1
        (bind (pvalue c1) (\<lambda>fl c. Done (VString fl (cstr s')) c))"
      by (rule succeeds_bind [OF succeeds_pvalue [OF ready_frame [OF c1(1) takes_ready [OF c(1)]]]])
        (use c1(2) in \<open>auto intro!: succeeds_Done frame_refl\<close>)
  qed
qed

subsection \<open>Containers\<close>

lemma takes_open: "takes (Suc d) u c \<Longrightarrow> frame c c' \<Longrightarrow> depth c' = Suc (depth c) \<Longrightarrow> takes d u c'"
  using ready_frame [of c c'] frame_flags [of c c'] by (auto simp: takes_def)

lemma takes_depth: "takes (Suc d) u c \<Longrightarrow> depth c < max_depth c"
  unfolding takes_def by linarith

text \<open>Inside the brackets: blank, or elements.\<close>

lemma array_taken:
  assumes "blank t \<and> vs = [] \<or> json_items d u t vs \<and> items_taken d u t vs"
  shows "text_taken (Suc d) u (CHR ''['' # t @ '']'') (JArray vs)"
proof (rule text_takenI)
  fix m c r
  assume c: "takes (Suc d) u c" "pos c = (CHR ''['' # t @ '']'') @ r"
  let ?Q = "\<lambda>v' c'. pos c' = r \<and> depth c' = depth c \<and> abs_value v' = JArray vs"
  have e: "dispatch m c = parse_array m c" using c(2) by simp
  show "succeeds ?Q c (dispatch m c)" unfolding e
  proof (cases m)
    case (Suc k)
    have ne: "pos c \<noteq> []" using c(2) by simp
    show "succeeds ?Q c (parse_array m c)" unfolding Suc parse_array.simps Let_def
    proof (rule succeeds_bind [OF succeeds_open_container [OF takes_ready [OF c(1)] ne takes_depth [OF c(1)]]])
      fix fl c1
      assume "frame c c1" "pos c1 = dropWhile nyxj_is_ws (tl (pos c)) \<and> depth c1 = Suc (depth c)"
      then have c1: "takes d u c1" "pos c1 = dropWhile nyxj_is_ws (t @ CHR '']'' # r)" "depth c1 = Suc (depth c)"
        using takes_open [OF c(1)] c(2) by auto
      show "succeeds ?Q c1
          (if pos c1 \<noteq> [] \<and> hd (pos c1) = CHR '']'' then finish_array (c1\<lparr>pos := tl (pos c1)\<rparr>) fl []
           else bind (array_loop k (pos c) [] 16 c1) (\<lambda>items c. finish_array c fl items))"
        using assms
      proof
        assume b: "blank t \<and> vs = []"
        then have p: "pos c1 = CHR '']'' # r" using c1(2) dropWhile_char [of "CHR '']''" t r] by (simp add: nyxj_is_ws_def)
        have f: "frame c1 (c1\<lparr>pos := r\<rparr>)" by (rule frame_pos) (simp add: p suffix_def)
        have "succeeds ?Q (c1\<lparr>pos := r\<rparr>) (finish_array (c1\<lparr>pos := r\<rparr>) fl [])"
          using succeeds_finish_array [OF ready_frame [OF f takes_ready [OF c1(1)]], of "[]" fl] b c1(3)
          by (auto elim!: succeeds_mono)
        then have "succeeds ?Q c1 (finish_array (c1\<lparr>pos := r\<rparr>) fl [])"
          using f frame_trans by (auto simp: succeeds_def split: presult.splits)
        then show ?thesis using p by simp
      next
        assume i: "json_items d u t vs \<and> items_taken d u t vs"
        obtain w t' where "t = w @ t'" "blank w" "t' \<noteq> []" "\<not> nyxj_is_ws (hd t')" "hd t' \<noteq> CHR '']''"
          by (rule json_items_split [OF conjunct1 [OF i]])
        then have hp: "hd (pos c1) \<noteq> CHR '']''" using c1(2) dropWhile_after [of t' w "CHR '']'' # r"] by simp
        have dd: "dropWhile nyxj_is_ws (pos c1) = dropWhile nyxj_is_ws (t @ CHR '']'' # r)" using c1(2) by simp
        have "succeeds (\<lambda>xs c'. pos c' = r \<and> depth c' = depth c1 \<and> map abs_value xs = map abs_value [] @ vs) c1
            (array_loop k (pos c) [] 16 c1)"
          using i c1(1) dd unfolding items_taken_def by blast
        then have "succeeds ?Q c1 (bind (array_loop k (pos c) [] 16 c1) (\<lambda>items c. finish_array c fl items))"
        proof (rule succeeds_bind)
          fix xs c2
          assume c2: "frame c1 c2" "pos c2 = r \<and> depth c2 = depth c1 \<and> map abs_value xs = map abs_value [] @ vs"
          show "succeeds ?Q c2 (finish_array c2 fl xs)"
            by (rule succeeds_mono [OF succeeds_finish_array [OF ready_frame [OF c2(1) takes_ready [OF c1(1)]]]])
              (use c2(2) c1(3) in auto)
        qed
        then show ?thesis using hp by simp
      qed
    qed
  qed simp
qed simp

lemma object_taken:
  assumes "blank t \<and> ms = [] \<or> json_members d u t ms \<and> members_taken d u t ms" "u \<longrightarrow> distinct (map fst ms)"
  shows "text_taken (Suc d) u (CHR ''{'' # t @ ''}'') (JObject ms)"
proof (rule text_takenI)
  fix m c r
  assume c: "takes (Suc d) u c" "pos c = (CHR ''{'' # t @ ''}'') @ r"
  let ?Q = "\<lambda>v' c'. pos c' = r \<and> depth c' = depth c \<and> abs_value v' = JObject ms"
  have e: "dispatch m c = parse_object m c" using c(2) by simp
  have fd: "frame c' (c'\<lparr>depth := n\<rparr>)" for c' n by (simp add: frame_def)
  show "succeeds ?Q c (dispatch m c)" unfolding e
  proof (cases m)
    case (Suc k)
    have ne: "pos c \<noteq> []" using c(2) by simp
    show "succeeds ?Q c (parse_object m c)" unfolding Suc parse_object.simps Let_def
    proof (rule succeeds_bind [OF succeeds_open_container [OF takes_ready [OF c(1)] ne takes_depth [OF c(1)]]])
      fix fl c1
      assume f1: "frame c c1" and "pos c1 = dropWhile nyxj_is_ws (tl (pos c)) \<and> depth c1 = Suc (depth c)"
      then have c1: "takes d u c1" "pos c1 = dropWhile nyxj_is_ws (t @ CHR ''}'' # r)" "depth c1 = Suc (depth c)"
        using takes_open [OF c(1)] c(2) by auto
      have uq: "unique_keys c1 \<longrightarrow> distinct (map fst [] @ map fst ms)" using assms(2) c1(1) by (simp add: takes_def)
      show "succeeds ?Q c1
          (if pos c1 \<noteq> [] \<and> hd (pos c1) = CHR ''}''
           then Done (VObject fl []) (c1\<lparr>pos := tl (pos c1), depth := depth c1 - 1\<rparr>)
           else bind (object_loop k (pos c) [] c1) (\<lambda>pairs c. Done (VObject fl pairs) (c\<lparr>depth := depth c - 1\<rparr>)))"
        using assms(1)
      proof
        assume b: "blank t \<and> ms = []"
        then have p: "pos c1 = CHR ''}'' # r" using c1(2) dropWhile_char [of "CHR ''}''" t r] by (simp add: nyxj_is_ws_def)
        have "frame c1 (c1\<lparr>pos := r, depth := depth c\<rparr>)" using p by (simp add: frame_def suffix_def)
        then have "succeeds ?Q c1 (Done (VObject fl []) (c1\<lparr>pos := r, depth := depth c\<rparr>))" by (rule succeeds_Done) (simp add: b)
        then show ?thesis using p c1(3) by simp
      next
        assume i: "json_members d u t ms \<and> members_taken d u t ms"
        obtain w t' where "t = w @ t'" "blank w" "t' \<noteq> []" "\<not> nyxj_is_ws (hd t')" "hd t' \<noteq> CHR ''}''"
          by (rule json_members_split [OF conjunct1 [OF i]])
        then have hp: "hd (pos c1) \<noteq> CHR ''}''" using c1(2) dropWhile_after [of t' w "CHR ''}'' # r"] by simp
        have dd: "dropWhile nyxj_is_ws (pos c1) = dropWhile nyxj_is_ws (t @ CHR ''}'' # r)" using c1(2) by simp
        have "succeeds (\<lambda>ps c'. pos c' = r \<and> depth c' = depth c1 \<and>
            map (map_prod id abs_value) ps = map (map_prod id abs_value) [] @ ms) c1 (object_loop k (pos c) [] c1)"
          using i c1(1) dd uq unfolding members_taken_def by blast
        then have "succeeds ?Q c1
            (bind (object_loop k (pos c) [] c1) (\<lambda>pairs c. Done (VObject fl pairs) (c\<lparr>depth := depth c - 1\<rparr>)))"
          by (rule succeeds_bind) (rule succeeds_Done [OF fd], simp add: c1(3))
        then show ?thesis using hp by simp
      qed
    qed
  qed simp
qed simp

text \<open>One turn of the loops.\<close>

lemma item_taken:
  assumes "blank w" "json_text d u t v" "text_taken d u t v" "blank x"
    and rest: "if go then vs = v # vs' \<and> items_taken d u s vs' else vs = [v] \<and> s = []"
  shows "items_taken d u (w @ t @ x @ (if go then CHR '','' # s else [])) vs"
  unfolding items_taken_def
proof (intro allI impI)
  fix n c r open_at items cap
  assume c: "takes d u c"
    "dropWhile nyxj_is_ws (pos c) = dropWhile nyxj_is_ws ((w @ t @ x @ (if go then CHR '','' # s else [])) @ CHR '']'' # r)"
  let ?s = "if go then CHR '','' # s @ CHR '']'' # r else CHR '']'' # r"
  let ?r = "if go then s @ CHR '']'' # r else r"
  let ?Q = "\<lambda>xs c'. pos c' = r \<and> depth c' = depth c \<and> map abs_value xs = map abs_value items @ vs"
  have p: "dropWhile nyxj_is_ws (pos c) = t @ x @ ?s"
    using c(2) dropWhile_text [OF assms(2,1), of "x @ ?s"] by (cases go) simp_all
  have ve: "value_end (x @ ?s)" by (rule value_end_blank [OF assms(4)]) (simp add: value_end_def)
  show "succeeds ?Q c (array_loop n open_at items cap c)"
  proof (cases n)
    case (Suc k)
    have v: "succeeds (\<lambda>v' c'. pos c' = x @ ?s \<and> depth c' = depth c \<and> abs_value v' = v) c (parse_value k c)"
      using assms(3) c(1) p ve unfolding text_taken_def by blast
    show ?thesis unfolding Suc array_loop.simps
    proof (rule succeeds_bind [OF v])
      fix i c1
      assume c1: "frame c c1" "pos c1 = x @ ?s \<and> depth c1 = depth c \<and> abs_value i = v"
      have t1: "takes d u c1" using takes_frame c1 c(1) by blast
      show "succeeds ?Q c1 (bind (push_item c1 (length items) cap) (\<lambda>cap c.
          let items = items @ [i]
          in if max_elements c \<noteq> 0 \<and> max_elements c < length items then fails c NYXJ_ERR_ELEMENT_LIMIT open_at None
             else bind (after_element c (CHR '']'') (quoted ''expected ~,~ or ~]~''))
               (\<lambda>more c. if more then array_loop k open_at items cap c else Done items c)))"
      proof (rule succeeds_bind [OF succeeds_push_item [OF takes_ready [OF t1]]])
        fix cap' c2
        assume c2: "frame c1 c2" "pos c2 = pos c1 \<and> depth c2 = depth c1"
        have t2: "takes d u c2" using takes_frame c2 t1 by blast
        have nl: "\<not> (max_elements c2 \<noteq> 0 \<and> max_elements c2 < length (items @ [i]))"
          using takes_ready [OF t2] by (simp add: ready_def)
        have ae: "dropWhile nyxj_is_ws (pos c2) = (if go then CHR '','' else CHR '']'') # ?r"
          using c2(2) c1(2) dropWhile_char [OF _ assms(4)] by (simp add: nyxj_is_ws_def)
        show "succeeds ?Q c2 (let items = items @ [i]
          in if max_elements c2 \<noteq> 0 \<and> max_elements c2 < length items then fails c2 NYXJ_ERR_ELEMENT_LIMIT open_at None
             else bind (after_element c2 (CHR '']'') (quoted ''expected ~,~ or ~]~''))
               (\<lambda>more c. if more then array_loop k open_at items cap' c else Done items c))"
          unfolding Let_def if_not_P [OF nl]
        proof (rule succeeds_bind [OF succeeds_after_element [OF takes_ready [OF t2] ae]])
          fix more c3
          assume c3: "frame c2 c3" "more = go \<and> pos c3 = ?r \<and> depth c3 = depth c2"
          have t3: "takes d u c3" using takes_frame c3 t2 by blast
          show "succeeds ?Q c3 (if more then array_loop k open_at (items @ [i]) cap' c3 else Done (items @ [i]) c3)"
          proof (cases go)
            case True
            then have it: "items_taken d u s vs'" using rest by simp
            have d3: "dropWhile nyxj_is_ws (pos c3) = dropWhile nyxj_is_ws (s @ CHR '']'' # r)" using c3(2) True by simp
            have "succeeds (\<lambda>xs c'. pos c' = r \<and> depth c' = depth c3 \<and>
                map abs_value xs = map abs_value (items @ [i]) @ vs') c3 (array_loop k open_at (items @ [i]) cap' c3)"
              by (rule it [unfolded items_taken_def, rule_format, OF t3 d3])
            then show ?thesis using True rest c1 c2 c3 by (auto elim!: succeeds_mono)
          next
            case False
            then show ?thesis using rest c1(2) c2(2) c3(2) by (auto intro!: succeeds_Done frame_refl)
          qed
        qed simp
      qed
    qed
  qed simp
qed

lemma member_taken:
  assumes "blank w" "json_string k s" "blank x" "blank y" "json_text d u t v" "text_taken d u t v" "blank z"
    and rest: "if go then ms = (cstr s, v) # ms' \<and> members_taken d u q ms' else ms = [(cstr s, v)] \<and> q = []"
  shows "members_taken d u (w @ k @ x @ CHR '':'' # y @ t @ z @ (if go then CHR '','' # q else [])) ms"
  unfolding members_taken_def
proof (intro allI impI)
  fix n and c :: pctx and r open_at pairs
  let ?s = "if go then CHR '','' # q @ CHR ''}'' # r else CHR ''}'' # r"
  let ?r = "if go then q @ CHR ''}'' # r else r"
  let ?Q = "\<lambda>ps c'. pos c' = r \<and> depth c' = depth c \<and>
    map (map_prod id abs_value) ps = map (map_prod id abs_value) pairs @ ms"
  assume c: "takes d u c" "dropWhile nyxj_is_ws (pos c) =
      dropWhile nyxj_is_ws ((w @ k @ x @ CHR '':'' # y @ t @ z @ (if go then CHR '','' # q else [])) @ CHR ''}'' # r)"
    "unique_keys c \<longrightarrow> distinct (map fst pairs @ map fst ms)"
  have p: "dropWhile nyxj_is_ws (pos c) = k @ x @ CHR '':'' # y @ t @ z @ ?s"
    using c(2) dropWhile_string [OF assms(2,1), of "x @ CHR '':'' # y @ t @ z @ ?s"] by (cases go) simp_all
  have colon: "dropWhile nyxj_is_ws (x @ CHR '':'' # y @ t @ z @ ?s) = CHR '':'' # y @ t @ z @ ?s"
    by (rule dropWhile_char [OF _ assms(3)]) (simp add: nyxj_is_ws_def)
  have fresh: "unique_keys c \<longrightarrow> cstr s \<notin> set (map fst pairs)" using c(3) rest by (auto split: if_splits)
  have ve: "value_end (z @ ?s)" by (rule value_end_blank [OF assms(7)]) (simp add: value_end_def)
  show "succeeds ?Q c (object_loop n open_at pairs c)"
  proof (cases n)
    case (Suc m)
    show ?thesis unfolding Suc object_loop.simps
    proof (rule succeeds_bind [OF succeeds_parse_key [OF takes_ready [OF c(1)] assms(2) p colon fresh]])
      fix key c1
      assume c1: "frame c c1" "key = cstr s \<and> pos c1 = y @ t @ z @ ?s \<and> depth c1 = depth c"
      have t1: "takes d u c1" using takes_frame c1 c(1) by blast
      have "dropWhile nyxj_is_ws (pos c1) = t @ z @ ?s" using c1(2) dropWhile_text [OF assms(5,4)] by simp
      then have v: "succeeds (\<lambda>v' c'. pos c' = z @ ?s \<and> depth c' = depth c1 \<and> abs_value v' = v) c1 (parse_value m c1)"
        using assms(6) t1 ve unfolding text_taken_def by blast
      show "succeeds ?Q c1 (bind (parse_value m c1) (\<lambda>val c. bind (palloc c pair_bytes) (\<lambda>_ c.
          let pairs = pairs @ [(key, val)]
          in if max_elements c \<noteq> 0 \<and> max_elements c < length pairs then fails c NYXJ_ERR_ELEMENT_LIMIT open_at None
             else bind (after_element c (CHR ''}'') (quoted ''expected ~,~ or ~}~''))
               (\<lambda>more c. if more then object_loop m open_at pairs c else Done pairs c))))"
      proof (rule succeeds_bind [OF v])
        fix val c2
        assume c2: "frame c1 c2" "pos c2 = z @ ?s \<and> depth c2 = depth c1 \<and> abs_value val = v"
        have t2: "takes d u c2" using takes_frame c2 t1 by blast
        show "succeeds ?Q c2 (bind (palloc c2 pair_bytes) (\<lambda>_ c.
            let pairs = pairs @ [(key, val)]
            in if max_elements c \<noteq> 0 \<and> max_elements c < length pairs then fails c NYXJ_ERR_ELEMENT_LIMIT open_at None
               else bind (after_element c (CHR ''}'') (quoted ''expected ~,~ or ~}~''))
                 (\<lambda>more c. if more then object_loop m open_at pairs c else Done pairs c)))"
        proof (rule succeeds_bind [OF succeeds_palloc [OF takes_ready [OF t2]]])
          fix e c3
          assume c3: "frame c2 c3" "pos c3 = pos c2 \<and> depth c3 = depth c2"
          have t3: "takes d u c3" using takes_frame c3 t2 by blast
          have nl: "\<not> (max_elements c3 \<noteq> 0 \<and> max_elements c3 < length (pairs @ [(key, val)]))"
            using takes_ready [OF t3] by (simp add: ready_def)
          have ae: "dropWhile nyxj_is_ws (pos c3) = (if go then CHR '','' else CHR ''}'') # ?r"
            using c3(2) c2(2) dropWhile_char [OF _ assms(7)] by (simp add: nyxj_is_ws_def)
          show "succeeds ?Q c3 (let pairs = pairs @ [(key, val)]
            in if max_elements c3 \<noteq> 0 \<and> max_elements c3 < length pairs then fails c3 NYXJ_ERR_ELEMENT_LIMIT open_at None
               else bind (after_element c3 (CHR ''}'') (quoted ''expected ~,~ or ~}~''))
                 (\<lambda>more c. if more then object_loop m open_at pairs c else Done pairs c))"
            unfolding Let_def if_not_P [OF nl]
          proof (rule succeeds_bind [OF succeeds_after_element [OF takes_ready [OF t3] ae]])
            fix more c4
            assume c4: "frame c3 c4" "more = go \<and> pos c4 = ?r \<and> depth c4 = depth c3"
            have t4: "takes d u c4" using takes_frame c4 t3 by blast
            show "succeeds ?Q c4 (if more then object_loop m open_at (pairs @ [(key, val)]) c4 else Done (pairs @ [(key, val)]) c4)"
            proof (cases go)
              case True
              then have it: "members_taken d u q ms'" using rest by simp
              have d4: "dropWhile nyxj_is_ws (pos c4) = dropWhile nyxj_is_ws (q @ CHR ''}'' # r)" using c4(2) True by simp
              have "flags c4 = flags c" using frame_flags [OF c1(1)] frame_flags [OF c2(1)] frame_flags [OF c3(1)] frame_flags [OF c4(1)] by simp
              then have u4: "unique_keys c4 \<longrightarrow> distinct (map fst (pairs @ [(key, val)]) @ map fst ms')"
                using c(3) rest True c1(2) by simp
              have "succeeds (\<lambda>ps c'. pos c' = r \<and> depth c' = depth c4 \<and>
                  map (map_prod id abs_value) ps = map (map_prod id abs_value) (pairs @ [(key, val)]) @ ms') c4
                  (object_loop m open_at (pairs @ [(key, val)]) c4)"
                using it t4 d4 u4 unfolding members_taken_def by blast
              then show ?thesis using True rest c1 c2 c3 c4 by (auto elim!: succeeds_mono)
            next
              case False
              then show ?thesis using rest c1(2) c2(2) c3(2) c4(2) by (auto intro!: succeeds_Done frame_refl)
            qed
          qed simp
        qed
      qed
    qed
  qed simp
qed

text \<open>Every text of the grammar is taken.\<close>

lemma grammar_taken:
  "json_text d u t v \<Longrightarrow> text_taken d u t v"
  "json_items d u t vs \<Longrightarrow> items_taken d u t vs"
  "json_members d u t ms \<Longrightarrow> members_taken d u t ms"
proof (induction rule: json_text_json_items_json_members.inducts)
  case (item w d u t v x)
  then show ?case using item_taken [of w d u t v x False "[v]" "[]" "[]"] by simp
next
  case (items w d u t v x r vs)
  then show ?case using item_taken [of w d u t v x True "v # vs" vs r] by simp
next
  case (member w k s x y d u t v z)
  then show ?case using member_taken [of w k s x y d u t v z False "[(cstr s, v)]" "[]" "[]"] by simp
next
  case (members w k s x y d u t v z r ms)
  then show ?case using member_taken [of w k s x y d u t v z True "(cstr s, v) # ms" ms r] by simp
qed (simp_all add: literal_taken number_taken string_taken array_taken object_taken)

subsection \<open>Documents\<close>

lemma parse_root_complete:
  assumes "ready c" "json_document (levels c) (unique_keys c) (pos c) v"
  shows "\<exists>w c'. parse_root c = Done w c' \<and> abs_value w = v"
proof -
  obtain b t x where d: "pos c = b @ t @ x" "blank b" "json_text (levels c) (unique_keys c) t v" "blank x"
    using assms(2) by (auto simp: json_document_def)
  have ve: "value_end x" using value_end_blank [OF d(4), of "[]"] by (simp add: value_end_def)
  have tk: "takes (levels c) (unique_keys c) c" using assms(1) by (simp add: takes_def)
  have "dropWhile nyxj_is_ws (pos c) = t @ x" using d(1) dropWhile_text [OF d(3,2)] by simp
  then have "succeeds (\<lambda>v' c'. pos c' = x \<and> depth c' = depth c \<and> abs_value v' = v) c (parse_value (parse_fuel (start c)) c)"
    using grammar_taken(1) [OF d(3)] tk ve unfolding text_taken_def by blast
  then have "succeeds (\<lambda>v' c'. abs_value v' = v) c (parse_root c)" unfolding parse_root_def
  proof (rule succeeds_bind)
    fix w c1
    assume c1: "frame c c1" "pos c1 = x \<and> depth c1 = depth c \<and> abs_value w = v"
    have "strict c1" using ready_frame [OF c1(1) assms(1)] by (simp add: ready_def)
    moreover have "dropWhile nyxj_is_ws x = []" using dropWhile_blank [OF d(4), of "[]"] by simp
    ultimately have e: "skip_ws c1 = Done () (c1\<lparr>pos := []\<rparr>)" using skip_ws_strict c1(2) by simp
    show "succeeds (\<lambda>v' c'. abs_value v' = v) c1 (case skip_ws c1 of
          Done _ c \<Rightarrow> if pos c \<noteq> [] then fails c NYXJ_ERR_TRAILING_DATA (pos c) None else Done w c
        | Null c \<Rightarrow> fails c NYXJ_ERR_TRAILING_DATA (pos c) None
        | No_fuel \<Rightarrow> No_fuel)"
      unfolding e using c1(2) by (auto intro!: succeeds_Done frame_pos)
  qed
  moreover have "returns (parse_root c)" using assms(1) by (intro parse_root_total) (simp add: ready_def)
  ultimately show ?thesis by (cases "parse_root c") (auto simp: succeeds_def)
qed

lemma parse_root_sound:
  assumes "ctx_ok c" "strict c" "parse_root c = Done w c'"
  shows "json_document (levels c) (unique_keys c) (pos c) (abs_value w)"
proof -
  obtain w1 c1 where p: "parse_value (parse_fuel (start c)) c = Done w1 c1" and
    q: "(case skip_ws c1 of
          Done _ c \<Rightarrow> if pos c \<noteq> [] then fails c NYXJ_ERR_TRAILING_DATA (pos c) None else Done w1 c
        | Null c \<Rightarrow> fails c NYXJ_ERR_TRAILING_DATA (pos c) None
        | No_fuel \<Rightarrow> No_fuel) = Done w c'"
    using assms(3) unfolding parse_root_def bind_Done by blast
  then have "w1 = w" by (simp split: presult.splits if_splits)
  note c1 = p [unfolded this] and r = q [unfolded this]
  obtain b t where t: "blank b" "reads c (b @ t) c1" "json_text (levels c) (unique_keys c) t (abs_value w)"
    using parse_value_sound [OF c1 assms(1,2)] by blast
  have "strict c1" using strict_frame [OF runs_D(1) [OF runs_parse(1) c1 assms(1)] assms(2)] .
  from skip_ws_strict [OF this] have "dropWhile nyxj_is_ws (pos c1) = []" using r by (simp split: if_splits)
  then have "blank (pos c1)" by (auto simp: blank_def list_all_iff dropWhile_eq_Nil_conv)
  then show ?thesis using t by (auto simp: json_document_def reads_def)
qed

text \<open>The input after the byte order mark.\<close>

definition after_bom :: "bytes \<Rightarrow> bytes" where
  "after_bom json =
     (if 3 \<le> length json \<and> starts_with [CHR 0xEF, CHR 0xBB, CHR 0xBF] json then drop 3 json else json)"

text \<open>Options without relaxations and without limits on the input, strings and elements.\<close>

definition plain_options :: "nyxj_parse_options \<Rightarrow> bool" where
  "plain_options opts \<longleftrightarrow>
     \<not> allow_comments (opt_flags opts) \<and> \<not> allow_trailing_commas (opt_flags opts) \<and>
     opt_max_input_size opts = 0 \<and> opt_max_string_length opts = 0 \<and> opt_max_elements opts = 0"

definition depth_limit :: "nyxj_parse_options \<Rightarrow> nat" where
  "depth_limit opts = nat (if 0 < opt_max_depth opts then opt_max_depth opts else default_max_depth)"

lemma parse_context_simps [simp]:
  "levels (parse_context b h json opts) = depth_limit opts"
  "unique_keys (parse_context b h json opts) = reject_duplicate_keys (opt_flags opts)"
  "pos (parse_context b h json opts) = after_bom json"
  by (simp_all add: parse_context_def depth_limit_def after_bom_def)

lemma parse_context_ready:
  "heap_total h \<Longrightarrow> plain_options opts \<Longrightarrow> ready (parse_context b h json opts)"
  unfolding ready_def strict_def
  by (simp add: parse_context_ok) (simp add: plain_options_def parse_context_def)

lemma nyxj_parse_ex_root:
  assumes "opt_max_input_size opts = 0"
  shows "root (nyxj_parse_ex b h (Some json) (Some opts)) = Some v \<longleftrightarrow>
    (\<exists>c'. parse_root (parse_context b h json opts) = Done v c')"
  using assms by (auto simp: nyxj_parse_ex_def failed_result_def split: presult.split)

lemma parse_ex_grammar:
  assumes "heap_total h" "plain_options opts"
  shows "(\<exists>v. root (nyxj_parse_ex b h (Some json) (Some opts)) = Some v \<and> abs_value v = t) \<longleftrightarrow>
    json_document (depth_limit opts) (reject_duplicate_keys (opt_flags opts)) (after_bom json) t"
proof -
  let ?c = "parse_context b h json opts"
  have r: "ready ?c" using parse_context_ready assms .
  then have ok: "ctx_ok ?c" "strict ?c" by (simp_all add: ready_def)
  have z: "opt_max_input_size opts = 0" using assms(2) by (simp add: plain_options_def)
  show ?thesis unfolding nyxj_parse_ex_root [OF z]
    using parse_root_sound [OF ok] parse_root_complete [OF r, of t] by (auto simp only: parse_context_simps)
qed

text \<open>No text of the grammar starts with a byte order mark.\<close>

lemma json_text_not_bom:
  assumes "json_text d u t v"
  shows "hd t \<noteq> CHR 0xEF"
  using assms
proof (cases rule: json_text.cases)
  case number
  then show ?thesis using json_number_hd by (fastforce simp: is_digit_char_def)
qed (auto simp: json_string_def)

lemma after_bom_text: "json_text d u t v \<Longrightarrow> after_bom t = t"
  using json_text_not_bom [of d u t v] json_text_hd [of d u t v] by (cases t) (auto simp: after_bom_def)

end
