(* ===== verification/Buf.thy ===== *)
theory Buf
  imports Scan
begin

text \<open>
  The growable byte buffer of \<^verbatim>\<open>src/common/buf.c\<close>: reservation with a sticky out-of-memory flag, the
  writers of JSON strings and numbers, and detaching the finished text.

  \<open>buf_data\<close> is \<open>data[0..len)\<close>, \<open>buf_cap\<close> the size of the allocation (zero when \<open>data\<close> is NULL), and
  \<open>buf_mem\<close> the allocator the buffer asks. Sizes are natural numbers: \<open>len + extra + 1\<close> and the doubled
  capacity stay below \<open>2 ^ 64\<close> for everything that fits in memory.
\<close>

record nyxj_buf =
  buf_data :: bytes
  buf_cap :: nat
  buf_oom :: bool
  buf_mem :: heap

definition nyxj_buf_reserve :: "nyxj_buf \<Rightarrow> nat \<Rightarrow> bool \<times> nyxj_buf" where
  "nyxj_buf_reserve b extra =
     (if buf_oom b then (False, b)
      else if length (buf_data b) + extra + 1 \<le> buf_cap b then (True, b)
      else let ncap = capacity_from (if buf_cap b \<noteq> 0 then buf_cap b else 64) (length (buf_data b) + extra + 1);
               (ok, h) = malloc (buf_mem b) ncap
           in if ok then (True, b\<lparr>buf_cap := ncap, buf_mem := h\<rparr>)
              else (False, b\<lparr>buf_oom := True, buf_mem := h\<rparr>))"

definition nyxj_buf_init :: "heap \<Rightarrow> nat \<Rightarrow> nyxj_buf" where
  "nyxj_buf_init h initial =
     (let b = \<lparr>buf_data = [], buf_cap = 0, buf_oom = False, buf_mem = h\<rparr>
      in if initial \<noteq> 0 then snd (nyxj_buf_reserve b initial) else b)"

definition nyxj_buf_putc :: "nyxj_buf \<Rightarrow> char \<Rightarrow> nyxj_buf" where
  "nyxj_buf_putc b c =
     (let (ok, b) = nyxj_buf_reserve b 1 in if \<not> ok then b else b\<lparr>buf_data := buf_data b @ [c]\<rparr>)"

definition nyxj_buf_append :: "nyxj_buf \<Rightarrow> bytes \<Rightarrow> nyxj_buf" where
  "nyxj_buf_append b d =
     (if length d = 0 then b
      else let (ok, b) = nyxj_buf_reserve b (length d)
           in if \<not> ok then b else b\<lparr>buf_data := buf_data b @ d\<rparr>)"

definition nyxj_buf_puts :: "nyxj_buf \<Rightarrow> bytes \<Rightarrow> nyxj_buf" where
  "nyxj_buf_puts b s = nyxj_buf_append b (cstr s)"

text \<open>\<open>printed\<close> is the expanded format.\<close>

definition nyxj_buf_printf :: "nyxj_buf \<Rightarrow> string \<Rightarrow> nyxj_buf" where
  "nyxj_buf_printf b printed =
     (if length printed < 256 then nyxj_buf_append b (snprintf 256 printed)
      else let (ok, b) = nyxj_buf_reserve b (length printed)
           in if ok then b\<lparr>buf_data := buf_data b @ snprintf (length printed + 1) printed\<rparr> else b)"

subsection \<open>JSON strings\<close>

definition u16_escape :: "nat \<Rightarrow> bytes" where
  "u16_escape cp =
     [CHR 0x5C, CHR ''u'', hex_lower (drop_bit 12 cp AND 0xF), hex_lower (drop_bit 8 cp AND 0xF),
      hex_lower (drop_bit 4 cp AND 0xF), hex_lower (cp AND 0xF)]"

definition put_u16_escape :: "nyxj_buf \<Rightarrow> nat \<Rightarrow> nyxj_buf" where
  "put_u16_escape b cp = nyxj_buf_append b (u16_escape cp)"

text \<open>The byte at \<open>s[i]\<close> of a C string, zero at its end.\<close>

definition byte_at :: "bytes \<Rightarrow> nat \<Rightarrow> nat" where
  "byte_at s i = (if i < length s then byte (s ! i) else 0)"

text \<open>The code point and the length of the sequence at \<open>s\<close>; \<open>None\<close> stands for the result 0.\<close>

definition utf8_decode :: "bytes \<Rightarrow> (nat \<times> nat) option" where
  "utf8_decode s =
     (let c = byte_at s 0; s1 = byte_at s 1; s2 = byte_at s 2; s3 = byte_at s 3
      in if c < 0x80 then Some (c, 1)
         else if 0xC2 \<le> c \<and> c \<le> 0xDF \<and> s1 AND 0xC0 = 0x80
         then Some (push_bit 6 (c AND 0x1F) OR (s1 AND 0x3F), 2)
         else if 0xE0 \<le> c \<and> c \<le> 0xEF \<and> s1 AND 0xC0 = 0x80 \<and> s2 AND 0xC0 = 0x80
         then let cp = push_bit 12 (c AND 0x0F) OR push_bit 6 (s1 AND 0x3F) OR (s2 AND 0x3F)
              in if cp < 0x800 \<or> 0xD800 \<le> cp \<and> cp \<le> 0xDFFF then None else Some (cp, 3)
         else if 0xF0 \<le> c \<and> c \<le> 0xF4 \<and> s1 AND 0xC0 = 0x80 \<and> s2 AND 0xC0 = 0x80 \<and> s3 AND 0xC0 = 0x80
         then let cp = push_bit 18 (c AND 0x07) OR push_bit 12 (s1 AND 0x3F) OR push_bit 6 (s2 AND 0x3F) OR
                       (s3 AND 0x3F)
              in if cp < 0x10000 \<or> 0x10FFFF < cp then None else Some (cp, 4)
         else None)"

definition plain_byte :: "bool \<Rightarrow> char \<Rightarrow> bool" where
  "plain_byte escape_unicode c \<longleftrightarrow>
     0x20 \<le> byte c \<and> c \<noteq> CHR 0x22 \<and> c \<noteq> CHR 0x5C \<and> (byte c < 0x80 \<or> \<not> escape_unicode)"

definition short_escape :: "char \<Rightarrow> bytes option" where
  "short_escape c =
     (if c = CHR 0x22 then Some [CHR 0x5C, CHR 0x22]
      else if c = CHR 0x5C then Some [CHR 0x5C, CHR 0x5C]
      else if c = CHR 0x08 then Some [CHR 0x5C, CHR ''b'']
      else if c = CHR 0x0C then Some [CHR 0x5C, CHR ''f'']
      else if c = CHR 0x0A then Some [CHR 0x5C, CHR ''n'']
      else if c = CHR 0x0D then Some [CHR 0x5C, CHR ''r'']
      else if c = CHR 0x09 then Some [CHR 0x5C, CHR ''t'']
      else None)"

text \<open>The body of the loop for a byte that is not plain: what it writes, and how many bytes it reads.\<close>

definition put_special :: "nyxj_buf \<Rightarrow> bytes \<Rightarrow> nyxj_buf \<times> nat" where
  "put_special b s =
     (case short_escape (hd s) of
        Some e \<Rightarrow> (nyxj_buf_append b e, 1)
      | None \<Rightarrow>
          if byte (hd s) < 0x20 then (put_u16_escape b (byte (hd s)), 1)
          else case utf8_decode s of
            None \<Rightarrow> (put_u16_escape b 0xFFFD, 1)
          | Some (cp, n) \<Rightarrow>
              if 0x10000 \<le> cp
              then let cp = cp - 0x10000
                   in (put_u16_escape (put_u16_escape b (0xD800 + drop_bit 10 cp)) (0xDC00 + (cp AND 0x3FF)), n)
              else (put_u16_escape b cp, n))"

lemma utf8_decode_pos: "utf8_decode s = Some (cp, n) \<Longrightarrow> 0 < n"
  by (auto simp: utf8_decode_def Let_def split: if_splits)

lemma put_special_pos: "put_special b s = (b', n) \<Longrightarrow> 0 < n"
  by (auto simp: put_special_def Let_def dest: utf8_decode_pos split: option.splits if_splits)

text \<open>The loop: \<open>run\<close> and \<open>s\<close> are the two pointers.\<close>

function json_string_loop :: "bool \<Rightarrow> nyxj_buf \<Rightarrow> bytes \<Rightarrow> bytes \<Rightarrow> nyxj_buf" where
  "json_string_loop eu b run s =
     (if s = [] then nyxj_buf_append b (take (length run - length s) run)
      else if plain_byte eu (hd s) then json_string_loop eu b run (tl s)
      else let b = nyxj_buf_append b (take (length run - length s) run); (b, n) = put_special b s
           in json_string_loop eu b (drop n s) (drop n s))"
  by pat_completeness auto
termination
  by (relation "measure (\<lambda>(eu, b, run, s). length s)") (auto dest!: sym [of "(_, _)"] put_special_pos)

declare json_string_loop.simps [simp del]

definition nyxj_buf_json_string :: "nyxj_buf \<Rightarrow> bytes option \<Rightarrow> bool \<Rightarrow> nyxj_buf" where
  "nyxj_buf_json_string b str eu =
     (let s = (case str of None \<Rightarrow> [] | Some s \<Rightarrow> cstr s)
      in nyxj_buf_putc (json_string_loop eu (nyxj_buf_putc b (CHR 0x22)) s s) (CHR 0x22))"

subsection \<open>JSON numbers\<close>

text \<open>The literals \<open>1.7976931348623157e308\<close> and \<open>9007199254740992.0\<close>.\<close>

definition dbl_max :: double where
  "dbl_max = 0x7FEFFFFFFFFFFFFF"

definition two_53 :: double where
  "two_53 = 0x4340000000000000"

fun shortest_digits :: "nat list \<Rightarrow> double \<Rightarrow> string \<Rightarrow> string" where
  "shortest_digits [] n tmp = tmp"
| "shortest_digits (prec # precs) n tmp =
     (let tmp = snprintf 40 (format_g prec n)
      in if dbl_eq (fst (strtod tmp)) n then tmp else shortest_digits precs n tmp)"

definition json_number_text :: "double \<Rightarrow> string" where
  "json_number_text n =
     (if \<not> dbl_eq n n \<or> dbl_less dbl_max n \<or> dbl_less n (dbl_neg dbl_max) then ''null''
      else if dbl_less (dbl_neg two_53) n \<and> dbl_less n two_53 \<and> dbl_eq (dbl_of_int (dbl_trunc n)) n
      then snprintf 40 (dec_int (dbl_trunc n))
      else shortest_digits [15, 16, 17] n [])"

definition nyxj_buf_json_number :: "nyxj_buf \<Rightarrow> double \<Rightarrow> nyxj_buf" where
  "nyxj_buf_json_number b n = nyxj_buf_puts b (json_number_text n)"

subsection \<open>The finished text\<close>

definition nyxj_buf_free :: "nyxj_buf \<Rightarrow> nyxj_buf" where
  "nyxj_buf_free b = b\<lparr>buf_data := [], buf_cap := 0\<rparr>"

definition nyxj_buf_detach :: "nyxj_buf \<Rightarrow> bytes option \<times> nyxj_buf" where
  "nyxj_buf_detach b =
     (if buf_oom b then (None, nyxj_buf_free b)
      else let (ok, b) = (if buf_cap b = 0 then nyxj_buf_reserve b 0 else (True, b))
           in if \<not> ok then (None, b) else (Some (buf_data b), b\<lparr>buf_data := [], buf_cap := 0\<rparr>))"

end
