(* ===== verification/Buf_Facts.thy ===== *)
theory Buf_Facts
  imports Buf
begin

text \<open>
  The buffer as a byte sink: the locale \<open>byte_sink\<close> states what a writer may rely on, namely that a write
  either appends its bytes or sets a flag that stays, and that it succeeds when memory does. Every
  writer of \<^verbatim>\<open>buf.c\<close> \<open>emits\<close> a fixed text.
\<close>

subsection \<open>The contract\<close>

locale byte_sink =
  fixes contents :: "'s \<Rightarrow> bytes"
    and failed :: "'s \<Rightarrow> bool"
    and ok :: "'s \<Rightarrow> bool"
    and roomy :: "'s \<Rightarrow> bool"
    and put :: "'s \<Rightarrow> bytes \<Rightarrow> 's"
  assumes put_ok: "ok s \<Longrightarrow> ok (put s d)"
    and put_done: "ok s \<Longrightarrow> \<not> failed (put s d) \<Longrightarrow> \<not> failed s \<and> contents (put s d) = contents s @ d"
    and put_room: "ok s \<Longrightarrow> roomy s \<Longrightarrow> \<not> failed s \<Longrightarrow> \<not> failed (put s d)"
    and room_put: "roomy s \<Longrightarrow> roomy (put s d)"
begin

text \<open>\<open>f\<close> appends \<open>t\<close> or fails; with \<open>r\<close> only from a state with unlimited memory.\<close>

definition emits :: "bool \<Rightarrow> ('s \<Rightarrow> 's) \<Rightarrow> bytes \<Rightarrow> bool" where
  "emits r f t \<longleftrightarrow>
     (\<forall>s. ok s \<longrightarrow> (r \<longrightarrow> roomy s) \<longrightarrow>
        ok (f s) \<and> (\<not> failed (f s) \<longrightarrow> \<not> failed s \<and> contents (f s) = contents s @ t) \<and>
        (roomy s \<longrightarrow> roomy (f s) \<and> (\<not> failed s \<longrightarrow> \<not> failed (f s))))"

lemma emits_put: "emits r (\<lambda>s. put s d) d"
  using put_ok put_done put_room room_put unfolding emits_def by blast

lemma emits_id: "emits r (\<lambda>s. s) []"
  by (simp add: emits_def)

lemma emitsD:
  assumes "emits r f t" "ok s" "r \<longrightarrow> roomy s"
  shows "ok (f s)" "\<not> failed (f s) \<Longrightarrow> \<not> failed s \<and> contents (f s) = contents s @ t"
    "roomy s \<Longrightarrow> roomy (f s)" "roomy s \<Longrightarrow> \<not> failed s \<Longrightarrow> \<not> failed (f s)"
  using assms unfolding emits_def by blast+

lemma emits_seq:
  assumes "emits r f t" "emits r g u"
  shows "emits r (\<lambda>s. g (f s)) (t @ u)"
  unfolding emits_def
proof (intro allI impI)
  fix s
  assume s: "ok s" "r \<longrightarrow> roomy s"
  note F = emitsD [OF assms(1) s]
  have R: "r \<longrightarrow> roomy (f s)" using F(3) s(2) by blast
  note G = emitsD [OF assms(2) F(1) R]
  have "contents (g (f s)) = contents s @ t @ u" if "\<not> failed (g (f s))"
    using F(2) G(2) that by simp
  then show "ok (g (f s)) \<and> (\<not> failed (g (f s)) \<longrightarrow> \<not> failed s \<and> contents (g (f s)) = contents s @ t @ u) \<and>
      (roomy s \<longrightarrow> roomy (g (f s)) \<and> (\<not> failed s \<longrightarrow> \<not> failed (g (f s))))"
    using F G by blast
qed

lemma emits_seq3: "emits r f t \<Longrightarrow> emits r g u \<Longrightarrow> emits r h v \<Longrightarrow> emits r (\<lambda>s. h (g (f s))) (t @ u @ v)"
  using emits_seq [OF emits_seq, of r f t g u h v] by simp

lemma emits_mono: "emits False f t \<Longrightarrow> emits r f t"
  unfolding emits_def by blast

lemma emits_done:
  assumes "emits r f t" "ok s" "roomy s" "\<not> failed s"
  shows "\<not> failed (f s)" "contents (f s) = contents s @ t"
  using emitsD [OF assms(1,2)] assms(3,4) by blast+

end

subsection \<open>The buffer is one\<close>

text \<open>The text and its NUL fit into the allocation.\<close>

definition buf_ok :: "nyxj_buf \<Rightarrow> bool" where
  "buf_ok b \<longleftrightarrow> length (buf_data b) < buf_cap b \<or> buf_data b = [] \<and> buf_cap b = 0"

definition buf_roomy :: "nyxj_buf \<Rightarrow> bool" where
  "buf_roomy b \<longleftrightarrow> heap_total (buf_mem b)"

lemma reserve_ok:
  assumes "buf_ok b" "nyxj_buf_reserve b n = (r, b')"
  shows "buf_data b' = buf_data b" "buf_ok b'" "r \<longrightarrow> length (buf_data b) + n < buf_cap b'"
    "buf_oom b' \<longleftrightarrow> \<not> r" "buf_oom b \<longrightarrow> \<not> r"
    "buf_roomy b \<longrightarrow> buf_roomy b' \<and> (r \<longleftrightarrow> \<not> buf_oom b)"
proof -
  have c: "length (buf_data b) + n + 1 \<le> capacity_from (if buf_cap b \<noteq> 0 then buf_cap b else 64) (length (buf_data b) + n + 1)"
    by (rule capacity_from_ge) simp
  have m: "heap_total (buf_mem b) \<Longrightarrow> malloc (buf_mem b) k = (ok, h) \<Longrightarrow> ok \<and> heap_total h" for k ok h
    using malloc_total [of "buf_mem b" k] by simp
  show "buf_data b' = buf_data b" "buf_ok b'" "r \<longrightarrow> length (buf_data b) + n < buf_cap b'"
    "buf_oom b' \<longleftrightarrow> \<not> r" "buf_oom b \<longrightarrow> \<not> r" "buf_roomy b \<longrightarrow> buf_roomy b' \<and> (r \<longleftrightarrow> \<not> buf_oom b)"
    using assms c m
    by (auto simp: nyxj_buf_reserve_def buf_ok_def buf_roomy_def Let_def split: if_splits prod.splits)
qed

interpretation out: byte_sink buf_data buf_oom buf_ok buf_roomy nyxj_buf_append
proof
  fix b :: nyxj_buf and d :: bytes
  obtain r b' where R: "nyxj_buf_reserve b (length d) = (r, b')" by fastforce
  show "buf_ok (nyxj_buf_append b d)" if "buf_ok b"
    using reserve_ok [OF that R] R that by (auto simp: nyxj_buf_append_def buf_ok_def)
  show "\<not> buf_oom b \<and> buf_data (nyxj_buf_append b d) = buf_data b @ d"
    if "buf_ok b" "\<not> buf_oom (nyxj_buf_append b d)"
    using reserve_ok [OF that(1) R] R that by (auto simp: nyxj_buf_append_def split: if_splits)
  show "\<not> buf_oom (nyxj_buf_append b d)" if "buf_ok b" "buf_roomy b" "\<not> buf_oom b"
    using reserve_ok [OF that(1) R] R that by (auto simp: nyxj_buf_append_def)
  show "buf_roomy (nyxj_buf_append b d)" if "buf_roomy b"
  proof -
    have "heap_total (buf_mem b) \<Longrightarrow> malloc (buf_mem b) k = (ok, h) \<Longrightarrow> heap_total h" for k ok h
      using malloc_total [of "buf_mem b" k] by simp
    then show ?thesis using that
      by (auto simp: nyxj_buf_append_def nyxj_buf_reserve_def buf_roomy_def Let_def split: prod.split)
  qed
qed

lemma putc_append: "nyxj_buf_putc b c = nyxj_buf_append b [c]"
  by (simp add: nyxj_buf_putc_def nyxj_buf_append_def)

lemma emits_putc: "out.emits r (\<lambda>b. nyxj_buf_putc b c) [c]"
  unfolding putc_append by (rule out.emits_put)

lemma emits_puts: "out.emits r (\<lambda>b. nyxj_buf_puts b s) (cstr s)"
  unfolding nyxj_buf_puts_def by (rule out.emits_put)

lemma emits_printf: "out.emits r (\<lambda>b. nyxj_buf_printf b s) s"
proof -
  have "nyxj_buf_printf b s = nyxj_buf_append b s" for b
    by (auto simp: nyxj_buf_printf_def nyxj_buf_append_def snprintf_def Let_def split: prod.split)
  then show ?thesis using out.emits_put by simp
qed

lemmas emits_intros = out.emits_put out.emits_id emits_putc emits_puts emits_printf

subsection \<open>The text of a string\<close>

text \<open>What \<open>put_special\<close> writes.\<close>

definition special_text :: "bytes \<Rightarrow> bytes \<times> nat" where
  "special_text s =
     (case short_escape (hd s) of
        Some e \<Rightarrow> (e, 1)
      | None \<Rightarrow>
          if byte (hd s) < 0x20 then (u16_escape (byte (hd s)), 1)
          else case utf8_decode s of
            None \<Rightarrow> (u16_escape 0xFFFD, 1)
          | Some (cp, n) \<Rightarrow>
              (if 0x10000 \<le> cp
               then u16_escape (0xD800 + drop_bit 10 (cp - 0x10000)) @ u16_escape (0xDC00 + ((cp - 0x10000) AND 0x3FF))
               else u16_escape cp, n))"

lemma special_text_pos: "special_text s = (e, n) \<Longrightarrow> 0 < n"
  by (auto simp: special_text_def dest: utf8_decode_pos split: option.splits if_splits)

function escape_text :: "bool \<Rightarrow> bytes \<Rightarrow> bytes" where
  "escape_text eu s =
     (if s = [] then []
      else if plain_byte eu (hd s) then hd s # escape_text eu (tl s)
      else let (e, n) = special_text s in e @ escape_text eu (drop n s))"
  by pat_completeness auto
termination
  by (relation "measure (\<lambda>(eu, s). length s)") (auto dest!: sym [of "(_, _)"] special_text_pos)

declare escape_text.simps [simp del]

definition json_string_text :: "bool \<Rightarrow> bytes \<Rightarrow> bytes" where
  "json_string_text eu s = CHR 0x22 # escape_text eu s @ [CHR 0x22]"

lemma put_special_emits:
  "out.emits r (\<lambda>b. fst (put_special b s)) (fst (special_text s))" "snd (put_special b s) = snd (special_text s)"
  using out.emits_seq [OF out.emits_put out.emits_put] out.emits_put
  by (auto simp: put_special_def special_text_def put_u16_escape_def Let_def split: option.split)

lemma json_string_loop_emits:
  "suffix s run \<Longrightarrow>
     out.emits r (\<lambda>b. json_string_loop eu b run s) (take (length run - length s) run @ escape_text eu s)"
proof (induction "length s" arbitrary: s run rule: less_induct)
  case less
  show ?case
  proof (cases s)
    case Nil
    have "json_string_loop eu b run s = nyxj_buf_append b (take (length run - length s) run)" for b
      using Nil by (subst json_string_loop.simps) simp
    moreover have "escape_text eu s = []" using Nil by (subst escape_text.simps) simp
    ultimately show ?thesis using out.emits_put by simp
  next
    case (Cons c t)
    obtain ps where run: "run = ps @ c # t" using less.prems Cons by (auto simp: suffix_def)
    show ?thesis
    proof (cases "plain_byte eu c")
      case True
      have "suffix t run" by (simp add: run suffix_def)
      then have IH: "out.emits r (\<lambda>b. json_string_loop eu b run t) (take (length run - length t) run @ escape_text eu t)"
        using less.hyps Cons by simp
      moreover have "json_string_loop eu b run s = json_string_loop eu b run t" for b
        using Cons True by (subst json_string_loop.simps) simp
      moreover have "escape_text eu s = c # escape_text eu t" using Cons True by (subst escape_text.simps) simp
      ultimately show ?thesis using Cons run by simp
    next
      case False
      obtain e n where e: "special_text s = (e, n)" by fastforce
      have n: "0 < n" using special_text_pos [OF e] .
      define u where "u = drop n s"
      have IH: "out.emits r (\<lambda>b. json_string_loop eu b u u) (escape_text eu u)"
        using less.hyps [of u u] Cons n by (simp add: u_def)
      have loop: "json_string_loop eu b run s =
          json_string_loop eu (fst (put_special (nyxj_buf_append b (take (length run - length s) run)) s)) u u" for b
        using Cons False put_special_emits(2) [of _ s] e
        by (subst json_string_loop.simps) (simp add: Let_def u_def split: prod.split, metis snd_conv)
      have "out.emits r (\<lambda>b. json_string_loop eu b run s) (take (length run - length s) run @ e @ escape_text eu u)"
        unfolding loop using out.emits_seq3 [OF out.emits_put put_special_emits(1) [of r s] IH] e by simp
      moreover have "escape_text eu s = e @ escape_text eu u"
        using Cons False e by (subst escape_text.simps) (simp add: u_def)
      ultimately show ?thesis by simp
    qed
  qed
qed

lemma json_string_emits:
  "out.emits r (\<lambda>b. nyxj_buf_json_string b (Some s) eu) (json_string_text eu (cstr s))"
proof -
  have "out.emits r (\<lambda>b. json_string_loop eu b (cstr s) (cstr s)) (escape_text eu (cstr s))"
    using json_string_loop_emits [of "cstr s" "cstr s"] by simp
  from out.emits_seq3 [OF emits_putc [where c = "CHR 0x22"] this emits_putc [where c = "CHR 0x22"]]
  show ?thesis by (simp add: nyxj_buf_json_string_def json_string_text_def Let_def)
qed

lemma json_number_emits: "out.emits r (\<lambda>b. nyxj_buf_json_number b n) (cstr (json_number_text n))"
  unfolding nyxj_buf_json_number_def by (rule emits_puts)

text \<open>Detaching returns exactly what was written.\<close>

lemma nyxj_buf_init_ok: "buf_ok (nyxj_buf_init h n)" "buf_data (nyxj_buf_init h n) = []"
  "heap_total h \<Longrightarrow> buf_roomy (nyxj_buf_init h n) \<and> \<not> buf_oom (nyxj_buf_init h n)"
proof -
  let ?b = "\<lparr>buf_data = [], buf_cap = 0, buf_oom = False, buf_mem = h\<rparr>"
  have b: "buf_ok ?b" by (simp add: buf_ok_def)
  obtain r b' where R: "nyxj_buf_reserve ?b n = (r, b')" by fastforce
  show "buf_ok (nyxj_buf_init h n)" "buf_data (nyxj_buf_init h n) = []"
    "heap_total h \<Longrightarrow> buf_roomy (nyxj_buf_init h n) \<and> \<not> buf_oom (nyxj_buf_init h n)"
    using reserve_ok [OF b R] R b by (auto simp: nyxj_buf_init_def buf_roomy_def Let_def)
qed

lemma nyxj_buf_detach_emits:
  assumes "out.emits r f t" "r \<longrightarrow> heap_total h"
  shows "fst (nyxj_buf_detach (f (nyxj_buf_init h n))) \<in> {None, Some t}"
    "heap_total h \<Longrightarrow> fst (nyxj_buf_detach (f (nyxj_buf_init h n))) = Some t"
proof -
  let ?b = "nyxj_buf_init h n"
  have r: "r \<longrightarrow> buf_roomy ?b" using assms(2) nyxj_buf_init_ok(3) by blast
  note e = out.emitsD [OF assms(1) nyxj_buf_init_ok(1) r]
  obtain q b' where R: "nyxj_buf_reserve (f ?b) 0 = (q, b')" by fastforce
  note R' = reserve_ok [OF e(1) R]
  have roomy: "buf_roomy (f ?b)" if "heap_total h"
    using assms(1) nyxj_buf_init_ok [of h n] that unfolding out.emits_def by blast
  show "fst (nyxj_buf_detach (f (nyxj_buf_init h n))) \<in> {None, Some t}"
    using e(2) nyxj_buf_init_ok(2) [of h n] R R' by (auto simp: nyxj_buf_detach_def Let_def)
  show "heap_total h \<Longrightarrow> fst (nyxj_buf_detach (f (nyxj_buf_init h n))) = Some t"
    using out.emits_done [OF assms(1) nyxj_buf_init_ok(1)] nyxj_buf_init_ok(2,3) [of h n] R R' roomy
    by (auto simp: nyxj_buf_detach_def Let_def)
qed

end
