(* ===== verification/Serializer.thy ===== *)
theory Serializer
  imports Buf Value "HOL-Library.List_Lexorder" "HOL-Library.Multiset"
begin

text \<open>
  The serializer of \<^verbatim>\<open>src/core/serializer.c\<close>. The buffer is passed through every call. \<open>qsort\<close> with
  \<open>strcmp\<close> on the keys is a sort by the order of byte strings; with equal keys the C standard leaves
  their order open, and the model keeps it. The scratch table of a sorted object may be refused, then
  the members are written in their order. \<open>depth * indent\<close> is a natural number: it stays within an
  \<open>int\<close> for every tree that fits in memory.
\<close>

record sctx =
  indent :: nat
  sort_keys :: bool
  escape_unicode :: bool

record nyxj_serialize_options =
  opt_indent :: int
  opt_sort_keys :: bool
  opt_escape_unicode :: bool

definition newline :: "sctx \<Rightarrow> nyxj_buf \<Rightarrow> nat \<Rightarrow> nyxj_buf" where
  "newline s b d =
     (if indent s = 0 then b
      else let b = nyxj_buf_putc b (CHR 0x0A); n = d * indent s; (ok, b) = nyxj_buf_reserve b n
           in if \<not> ok then b else b\<lparr>buf_data := buf_data b @ replicate n (CHR '' '')\<rparr>)"

definition sort_pairs :: "(string \<times> 'v) list \<Rightarrow> (string \<times> 'v) list" where
  "sort_pairs ps = sort_key fst ps"

text \<open>The members in the order of writing, with the table for sorting if there is memory for it.\<close>

definition member_order :: "sctx \<Rightarrow> nyxj_buf \<Rightarrow> (string \<times> 'v) list \<Rightarrow> (string \<times> 'v) list \<times> nyxj_buf" where
  "member_order s b ps =
     (if sort_keys s
      then let (ok, h) = malloc (buf_mem b) (pointer_bytes * length ps); b = b\<lparr>buf_mem := h\<rparr>
           in (if ok then sort_pairs ps else ps, b)
      else (ps, b))"

lemma size_list_sort: "size_list f (sort_key k xs) = size_list f xs"
proof -
  have "size_list f ys = sum_list (map f ys) + length ys" for ys :: "'a list" by (induction ys) auto
  moreover have "sum_list (map f (sort_key k xs)) = sum_list (map f xs)"
    by (metis mset_map mset_sort sum_mset_sum_list)
  ultimately show ?thesis by simp
qed

lemma size_member_order:
  "member_order s b ps = (qs, b') \<Longrightarrow> size_list (size_prod (\<lambda>x. 0) size) qs = size_list (size_prod (\<lambda>x. 0) size) ps"
  by (auto simp: member_order_def sort_pairs_def size_list_sort split: if_splits prod.splits)

text \<open>\<open>write_items\<close> and \<open>write_members\<close> are the loops; \<open>first\<close> says that no comma is due.\<close>

function (sequential) write_value :: "sctx \<Rightarrow> nyxj_buf \<Rightarrow> nyxj_value \<Rightarrow> nat \<Rightarrow> nyxj_buf"
  and write_items :: "sctx \<Rightarrow> nyxj_buf \<Rightarrow> bool \<Rightarrow> nyxj_value list \<Rightarrow> nat \<Rightarrow> nyxj_buf"
  and write_members :: "sctx \<Rightarrow> nyxj_buf \<Rightarrow> bool \<Rightarrow> (string \<times> nyxj_value) list \<Rightarrow> nat \<Rightarrow> nyxj_buf"
where
  "write_value s b (VNull _) d = nyxj_buf_append b ''null''"
| "write_value s b (VBool _ t) d = nyxj_buf_append b (if t then ''true'' else ''false'')"
| "write_value s b (VNumber _ n) d = nyxj_buf_json_number b n"
| "write_value s b (VString _ t) d = nyxj_buf_json_string b (Some t) (escape_unicode s)"
| "write_value s b (VArray _ xs _) d =
     (if xs = [] then nyxj_buf_append b ''[]''
      else let b = nyxj_buf_putc b (CHR ''[''); b = write_items s b True xs (d + 1); b = newline s b d
           in nyxj_buf_putc b (CHR '']''))"
| "write_value s b (VObject _ ps) d =
     (if ps = [] then nyxj_buf_append b ''{}''
      else let b = nyxj_buf_putc b (CHR ''{''); (qs, b) = member_order s b ps;
               b = write_members s b True qs (d + 1); b = newline s b d
           in nyxj_buf_putc b (CHR ''}''))"
| "write_items s b first [] d = b"
| "write_items s b first (x # xs) d =
     (let b = (if first then b else nyxj_buf_putc b (CHR '','')); b = newline s b d
      in write_items s (write_value s b x d) False xs d)"
| "write_members s b first [] d = b"
| "write_members s b first ((k, x) # ps) d =
     (let b = (if first then b else nyxj_buf_putc b (CHR '','')); b = newline s b d;
          b = nyxj_buf_json_string b (Some k) (escape_unicode s);
          b = (if indent s \<noteq> 0 then nyxj_buf_append b '': '' else nyxj_buf_putc b (CHR '':''))
      in write_members s (write_value s b x d) False ps d)"
  by pat_completeness auto
termination
  by (relation "measure (\<lambda>x. case x of
      Inl (s, b, v, d) \<Rightarrow> size v
    | Inr (Inl (s, b, f, xs, d)) \<Rightarrow> size_list size xs
    | Inr (Inr (s, b, f, ps, d)) \<Rightarrow> size_list (size_prod (\<lambda>x. 0) size) ps)")
    (auto dest!: sym [of "(_, _)"] size_member_order)

definition serialize_context :: "nyxj_serialize_options option \<Rightarrow> sctx" where
  "serialize_context opts =
     \<lparr>indent = (case opts of Some ops \<Rightarrow> if 0 < opt_indent ops then nat (opt_indent ops) else 0 | None \<Rightarrow> 0),
      sort_keys = (case opts of Some ops \<Rightarrow> opt_sort_keys ops | None \<Rightarrow> False),
      escape_unicode = (case opts of Some ops \<Rightarrow> opt_escape_unicode ops | None \<Rightarrow> False)\<rparr>"

text \<open>The text and the heap afterwards.\<close>

definition nyxj_serialize_ex ::
    "heap \<Rightarrow> nyxj_value option \<Rightarrow> nyxj_serialize_options option \<Rightarrow> bytes option \<times> heap" where
  "nyxj_serialize_ex h v opts =
     (let b = nyxj_buf_init h 256; s = serialize_context opts;
          b = (case v of None \<Rightarrow> nyxj_buf_append b ''null'' | Some v \<Rightarrow> write_value s b v 0);
          (t, b) = nyxj_buf_detach b
      in (t, buf_mem b))"

definition nyxj_serialize :: "heap \<Rightarrow> nyxj_value option \<Rightarrow> bytes option \<times> heap" where
  "nyxj_serialize h v = nyxj_serialize_ex h v None"

definition nyxj_serialize_pretty :: "heap \<Rightarrow> nyxj_value option \<Rightarrow> int \<Rightarrow> bytes option \<times> heap" where
  "nyxj_serialize_pretty h v n =
     nyxj_serialize_ex h v (Some \<lparr>opt_indent = (if 0 < n then n else 2), opt_sort_keys = False, opt_escape_unicode = False\<rparr>)"

end
