(* ===== verification/Text_Facts.thy ===== *)
theory Text_Facts
  imports Buf_Facts String_Spec
begin

text \<open>
  What the buffer's writers produce is JSON, and reads back as what was written: numbers through
  \<open>strtod\<close> (the negative zero, which is written \<open>0\<close>, excepted), strings through the grammar of
  string literals.
\<close>

subsection \<open>Numbers\<close>

text \<open>The value that is read back: there is only one zero.\<close>

definition canon_number :: "double \<Rightarrow> double" where
  "canon_number d = (if dbl_mag d = 0 then 0 else d)"

primrec canon_tree :: "json \<Rightarrow> json" where
  "canon_tree JNull = JNull"
| "canon_tree (JBool b) = JBool b"
| "canon_tree (JNumber n) = JNumber (canon_number n)"
| "canon_tree (JString s) = JString s"
| "canon_tree (JArray xs) = JArray (map canon_tree xs)"
| "canon_tree (JObject ps) = JObject (map (map_prod id canon_tree) ps)"

lemma mag_key_bound: "m < inf_mag \<Longrightarrow> mag_key m < 2 ^ 2099"
proof -
  assume m: "m < inf_mag"
  define e where "e = m div 2 ^ 52"
  have e: "e < 2047" using m by (simp add: e_def inf_mag_def less_mult_imp_div_less)
  have f: "2 ^ 52 + m mod 2 ^ 52 < (2 ^ 53 :: nat)" by (simp add: mod_less_divisor)
  have "(2::nat) ^ (e - 1) \<le> 2 ^ 2046" using e by (intro power_increasing) auto
  with f have "(2 ^ 52 + m mod 2 ^ 52) * 2 ^ (e - 1) < 2 ^ 53 * (2 ^ 2046 :: nat)"
    by (intro mult_less_le_imp_less) auto
  moreover have "2 ^ 53 * (2 ^ 2046 :: nat) = 2 ^ 2099" by (simp flip: power_add)
  moreover have "m mod 2 ^ 52 < (2 ^ 2099 :: nat)"
  proof -
    have "m mod 2 ^ 52 < (2 ^ 52 :: nat)" by simp
    also have "(2::nat) ^ 52 \<le> 2 ^ 2099" by (rule power_increasing) simp_all
    finally show ?thesis .
  qed
  moreover have "mag_key m = (if e = 0 then m mod 2 ^ 52 else (2 ^ 52 + m mod 2 ^ 52) * 2 ^ (e - 1))"
    by (simp only: mag_key_def Let_def e_def)
  ultimately show ?thesis by (cases "e = 0") (simp_all only: if_True if_False simp_thms)
qed

lemma length_dec_nat_less:
  assumes "n < 10 ^ k" "0 < k"
  shows "length (dec_nat n) \<le> k"
proof (cases "n = 0")
  case True
  then show ?thesis using assms(2) by (simp add: dec_nat_0)
next
  case False
  then have "10 ^ (length (dec_nat n) - 1) \<le> n" using length_dec_nat_bounds(1) by simp
  then have "(10::nat) ^ (length (dec_nat n) - 1) < 10 ^ k" using assms(1) by linarith
  then have "length (dec_nat n) - 1 < k" by (subst (asm) power_strict_increasing_iff) simp_all
  then show ?thesis by linarith
qed

lemma pow2_10: "k \<le> l \<Longrightarrow> (2::nat) ^ k \<le> 10 ^ l"
  by (rule order_trans [OF power_mono [of 2 10 k] power_increasing]) simp_all

lemma dec_exponent_small:
  assumes "0 < num" "num < 2 ^ 2099"
  shows "\<bar>dec_exponent num (2 ^ 1074)\<bar> \<le> 2200"
proof (cases "2 ^ 1074 \<le> num")
  case True
  have "num div 2 ^ 1074 \<le> num" by simp
  also have "num < 2 ^ 2099" by (rule assms)
  also have "2 ^ 2099 \<le> (10 ^ 2100 :: nat)" by (rule pow2_10) simp
  finally have "length (dec_nat (num div 2 ^ 1074)) \<le> 2100" by (rule length_dec_nat_less) simp
  moreover have "dec_exponent num (2 ^ 1074) = int (length (dec_nat (num div 2 ^ 1074))) - 1"
    using True by (simp only: dec_exponent_def if_True)
  ultimately show ?thesis by simp
next
  case False
  then have nd: "num < 2 ^ 1074" by simp
  define u where "u = up10 num (2 ^ 1074)"
  have "num * 10 ^ (u - 1) < 2 ^ 1074" using up10_bounds(3) [OF assms(1) nd] by (simp only: u_def)
  moreover have "10 ^ (u - 1) \<le> num * 10 ^ (u - 1)" using assms(1) by simp
  moreover have "(2::nat) ^ 1074 \<le> 10 ^ 1074" by (rule pow2_10) simp
  ultimately have "(10::nat) ^ (u - 1) < 10 ^ 1074" by linarith
  then have "u - 1 < 1074" by (subst (asm) power_strict_increasing_iff) simp_all
  moreover have "dec_exponent num (2 ^ 1074) = - int u"
    using False by (simp only: dec_exponent_def if_False u_def)
  ultimately show ?thesis by simp
qed

lemma round_digits_exponent:
  assumes "0 < num" "num < 2 ^ 2099" "round_digits p num (2 ^ 1074) = (D, e)"
  shows "\<bar>e\<bar> \<le> 2201"
proof -
  have "e = dec_exponent num (2 ^ 1074) \<or> e = dec_exponent num (2 ^ 1074) + 1"
    using assms(3) unfolding round_digits_def Let_def by (auto split: if_splits)
  then show ?thesis using dec_exponent_small [OF assms(1,2)] by auto
qed

lemma length_strip_zeros: "length (strip_zeros s) \<le> length s"
  using length_dropWhile_le [of "\<lambda>c. c = CHR ''0''" "rev s"] by (simp add: strip_zeros_def)

lemma length_with_point: "length (with_point ip fp) \<le> Suc (length ip + length fp)"
  by (simp add: with_point_def)

lemma length_exp_text: "\<bar>e\<bar> < 10000 \<Longrightarrow> length (exp_text e) \<le> 6"
  using length_dec_nat_less [of "nat \<bar>e\<bar>" 4] by (simp add: exp_text_def Let_def nat_less_iff)

lemma length_format_g_digits:
  assumes "D < 10 ^ p" "0 < p" "\<bar>e\<bar> < 10000"
  shows "length (format_g_digits p D e) \<le> p + 7"
proof -
  define ds where "ds = dec_nat D"
  have ds: "length ds \<le> p" unfolding ds_def by (rule length_dec_nat_less [OF assms(1,2)])
  consider (exp) "e < -4 \<or> int p \<le> e" | (int) "0 \<le> e" "e < int p" | (frac) "-4 \<le> e" "e < 0" by linarith
  then show ?thesis
  proof cases
    case exp
    then have "format_g_digits p D e = with_point (take 1 ds) (strip_zeros (drop 1 ds)) @ exp_text e"
      by (simp only: format_g_digits_def Let_def ds_def if_True)
    moreover have "length (take 1 ds) + length (strip_zeros (drop 1 ds)) \<le> length ds"
      using length_strip_zeros [of "drop 1 ds"] by simp
    ultimately show ?thesis
      using length_with_point [of "take 1 ds" "strip_zeros (drop 1 ds)"] length_exp_text [OF assms(3)] ds by simp
  next
    case int
    then have "format_g_digits p D e = with_point (take (nat e + 1) ds) (strip_zeros (drop (nat e + 1) ds))"
      by (simp add: format_g_digits_def Let_def ds_def)
    moreover have "length (take (nat e + 1) ds) + length (strip_zeros (drop (nat e + 1) ds)) \<le> length ds"
      using length_strip_zeros [of "drop (nat e + 1) ds"] by simp
    ultimately show ?thesis using length_with_point [of "take (nat e + 1) ds" "strip_zeros (drop (nat e + 1) ds)"] ds by simp
  next
    case frac
    let ?f = "replicate (nat (- e) - 1) (CHR ''0'') @ ds"
    have "format_g_digits p D e = with_point ''0'' (strip_zeros ?f)"
      using frac by (simp add: format_g_digits_def Let_def ds_def)
    moreover have "length (strip_zeros ?f) \<le> 3 + p" using length_strip_zeros [of ?f] ds frac by simp
    ultimately show ?thesis using length_with_point [of "''0''" "strip_zeros ?f"] by simp
  qed
qed

lemma length_format_g:
  assumes "dbl_is_finite d" "0 < dbl_mag d" "0 < p"
  shows "length (format_g p d) \<le> p + 8"
proof -
  let ?m = "mag_key (dbl_mag d)"
  have m: "0 < ?m" "?m < 2 ^ 2099" using mag_key_pos [OF assms(2)] mag_key_bound assms(1) by (simp_all add: dbl_is_finite_def)
  obtain D e where r: "round_digits p ?m (2 ^ 1074) = (D, e)" by fastforce
  have "D < 10 ^ p" by (rule round_digits_range(2) [OF m(1) _ assms(3) r]) simp
  moreover have "\<bar>e\<bar> < 10000" using round_digits_exponent [OF m r] by simp
  ultimately have "length (format_g_digits p D e) \<le> p + 7" using assms(3) by (intro length_format_g_digits)
  moreover have "format_g p d = (if dbl_sign d then ''-'' else []) @ format_g_digits p D e"
    using m(1) r by (simp add: format_g_def Let_def)
  ultimately show ?thesis by simp
qed

lemma snprintf_format_g:
  "dbl_is_finite d \<Longrightarrow> 0 < dbl_mag d \<Longrightarrow> 0 < p \<Longrightarrow> p \<le> 17 \<Longrightarrow> snprintf 40 (format_g p d) = format_g p d"
  using length_format_g [of d p] by (simp add: snprintf_def)

text \<open>Larger magnitudes are larger numbers.\<close>

lemma mag_key_Suc: "mag_key m < mag_key (Suc m)"
proof -
  define e f where "e = m div 2 ^ 52" and "f = m mod 2 ^ 52"
  have m: "m = e * 2 ^ 52 + f" "f < 2 ^ 52" by (simp_all add: e_def f_def)
  have key: "mag_key m = (if e = 0 then f else (2 ^ 52 + f) * 2 ^ (e - 1))"
    by (simp add: mag_key_def Let_def e_def f_def)
  show ?thesis
  proof (cases "Suc f < 2 ^ 52")
    case True
    then have "Suc m div 2 ^ 52 = e" "Suc m mod 2 ^ 52 = Suc f" using m(1) by (simp_all add: div_eq_dividend_iff)
    then have "mag_key (Suc m) = (if e = 0 then Suc f else (2 ^ 52 + Suc f) * 2 ^ (e - 1))"
      by (simp add: mag_key_def Let_def)
    then show ?thesis using key by simp
  next
    case False
    then have f: "f = 2 ^ 52 - 1" using m(2) by simp
    then have "Suc m = Suc e * 2 ^ 52" using m(1) by simp
    then have "Suc m div 2 ^ 52 = Suc e" "Suc m mod 2 ^ 52 = 0" by simp_all
    then have "mag_key (Suc m) = 2 ^ 52 * 2 ^ e" by (simp add: mag_key_def Let_def)
    moreover have "mag_key m < 2 ^ 52 * 2 ^ e"
    proof (cases e)
      case (Suc k)
      have "(2 ^ 52 + f) * 2 ^ k < (2 ^ 53 :: nat) * 2 ^ k" using m(2) by simp
      then show ?thesis using key Suc by simp
    qed (use key f in simp)
    ultimately show ?thesis by simp
  qed
qed

lemma mag_key_less: "m < n \<Longrightarrow> mag_key m < mag_key n"
  by (rule lift_Suc_mono_less [of mag_key, OF mag_key_Suc])

lemma mag_key_inj: "mag_key m = mag_key n \<longleftrightarrow> m = n"
  using mag_key_less [of m n] mag_key_less [of n m] by (cases m n rule: linorder_cases) auto

lemma dbl_eq_nonzero:
  assumes "dbl_eq a b" "0 < dbl_mag b"
  shows "a = b"
proof -
  have k: "dbl_key a = dbl_key b" using assms(1) by (simp add: dbl_eq_def)
  have "0 < mag_key (dbl_mag b)" using assms(2) by (rule mag_key_pos)
  then have e: "dbl_sign a = dbl_sign b" "mag_key (dbl_mag a) = mag_key (dbl_mag b)"
    using k unfolding dbl_key_def by (simp_all split: if_splits)
  then have "dbl_mag a = dbl_mag b" unfolding mag_key_inj by simp
  with e(1) have "dbl_pack (dbl_sign a) (dbl_mag a) = dbl_pack (dbl_sign b) (dbl_mag b)" by (simp only:)
  then show ?thesis by simp
qed

lemma finite_in_range:
  assumes "dbl_is_finite d"
  shows "dbl_eq d d" "\<not> dbl_less dbl_max d" "\<not> dbl_less d (dbl_neg dbl_max)"
proof -
  have mx: "dbl_mag dbl_max = inf_mag - 1" "\<not> dbl_sign dbl_max"
    by (simp_all add: dbl_max_def dbl_mag_def dbl_sign_def inf_mag_def)
  have ng: "dbl_mag (dbl_neg dbl_max) = inf_mag - 1" "dbl_sign (dbl_neg dbl_max)"
    using mx inf_mag_less by (simp_all add: dbl_neg_def)
  have "dbl_mag d < inf_mag - 1 \<or> dbl_mag d = inf_mag - 1" using assms unfolding dbl_is_finite_def by linarith
  then have "mag_key (dbl_mag d) \<le> mag_key (inf_mag - 1)" using mag_key_less [of "dbl_mag d" "inf_mag - 1"] by auto
  then show "dbl_eq d d" "\<not> dbl_less dbl_max d" "\<not> dbl_less d (dbl_neg dbl_max)"
    using assms mx ng by (auto simp: dbl_eq_def dbl_less_def dbl_key_def dbl_is_nan_def dbl_is_finite_def)
qed

lemma key_two_53: "dbl_key two_53 = 2 ^ 53 * 2 ^ 1074" "dbl_key (dbl_neg two_53) = - (2 ^ 53 * 2 ^ 1074)"
proof -
  have t: "dbl_mag two_53 = 0x434 * 2 ^ 52" "\<not> dbl_sign two_53"
    by (simp_all add: two_53_def dbl_mag_def dbl_sign_def)
  have k: "mag_key (0x434 * 2 ^ 52) = 2 ^ 52 * 2 ^ 0x433" by (simp only: mag_key_def Let_def) simp
  have "(2::nat) ^ 52 * 2 ^ 0x433 = 2 ^ 53 * 2 ^ 1074" by (simp flip: power_add)
  then have m: "mag_key (dbl_mag two_53) = 2 ^ 53 * 2 ^ 1074" using k t(1) by simp
  show "dbl_key two_53 = 2 ^ 53 * 2 ^ 1074" using m t(2) by (simp add: dbl_key_def)
  have "dbl_mag (dbl_neg two_53) = dbl_mag two_53" "dbl_sign (dbl_neg two_53)"
    using t dbl_mag_less [of two_53] by (simp_all add: dbl_neg_def)
  then show "dbl_key (dbl_neg two_53) = - (2 ^ 53 * 2 ^ 1074)" using m by (simp add: dbl_key_def)
qed

lemma trunc_bound:
  assumes "dbl_less (dbl_neg two_53) d" "dbl_less d two_53"
  shows "\<bar>dbl_trunc d\<bar> < 2 ^ 53"
proof -
  have "\<bar>dbl_key d\<bar> < 2 ^ 53 * 2 ^ 1074" using assms unfolding dbl_less_def key_two_53 by linarith
  then have "int (mag_key (dbl_mag d)) < int (2 ^ 53 * 2 ^ 1074)" by (simp add: dbl_key_def split: if_splits)
  then have "mag_key (dbl_mag d) < 2 ^ 53 * 2 ^ 1074" by (simp only: of_nat_less_iff)
  then have q: "mag_key (dbl_mag d) div 2 ^ 1074 < 2 ^ 53" by (rule less_mult_imp_div_less)
  define q where "q = mag_key (dbl_mag d) div 2 ^ 1074"
  have "int q < int (2 ^ 53)" using q unfolding q_def [symmetric] of_nat_less_iff .
  then show ?thesis unfolding dbl_trunc_def Let_def q_def [symmetric] by simp
qed

lemma snprintf_dec_int:
  assumes "\<bar>i\<bar> < 2 ^ 53"
  shows "snprintf 40 (dec_int i) = dec_int i"
proof -
  have "nat \<bar>i\<bar> < 10 ^ 17" using assms by (simp add: nat_less_iff)
  then have "length (dec_nat (nat \<bar>i\<bar>)) \<le> 17" by (rule length_dec_nat_less) simp
  then have "length (dec_int i) \<le> 18" by (auto simp: dec_int_def split: if_splits)
  then show ?thesis by (simp add: snprintf_def)
qed

lemma json_number_dec_int: "json_number (dec_int i)"
  using dec_int_token [of i] unfolding json_number_def by blast

lemma dbl_mag_zero [simp]: "dbl_mag 0 = 0" "\<not> dbl_sign 0"
  by (simp_all add: dbl_mag_def dbl_sign_def)

lemma dbl_of_int_0: "dbl_of_int 0 = 0"
  by (simp add: dbl_of_int_def dbl_of_ratio_def ratio_mag_def dbl_pack_def round_half_even_def)

lemma shortest_digits_exact:
  assumes "dbl_is_finite d" "0 < dbl_mag d"
  shows "\<exists>p \<in> {15, 16, 17}. shortest_digits [15, 16, 17] d [] = format_g p d \<and> strtod (format_g p d) = (d, [])"
proof -
  have s: "snprintf 40 (format_g p d) = format_g p d" if "p \<in> {15, 16, 17}" for p
    using snprintf_format_g [OF assms, of p] that by auto
  have full: "snd (strtod (format_g p d)) = []" if "p \<in> {15, 16, 17}" for p
  proof -
    have "0 < p" using that by auto
    from format_g_token [OF assms(2) this] show ?thesis by (metis snd_conv)
  qed
  have e: "strtod (format_g p d) = (d, [])" if "dbl_eq (fst (strtod (format_g p d))) d" "p \<in> {15, 16, 17}" for p
    using dbl_eq_nonzero [OF that(1) assms(2)] full [OF that(2)] by (metis prod.collapse)
  show ?thesis using s e format_g_17 [OF assms(2,1)] by (simp add: Let_def)
qed

lemma json_number_text_finite:
  assumes "dbl_is_finite d"
  shows "json_number (json_number_text d)" "strtod (json_number_text d) = (canon_number d, [])"
proof -
  note range = finite_in_range [OF assms]
  define int_branch where
    "int_branch \<longleftrightarrow> dbl_less (dbl_neg two_53) d \<and> dbl_less d two_53 \<and> dbl_eq (dbl_of_int (dbl_trunc d)) d"
  have num_text: "json_number_text d =
      (if int_branch then snprintf 40 (dec_int (dbl_trunc d)) else shortest_digits [15, 16, 17] d [])"
    using range by (simp only: json_number_text_def int_branch_def if_False simp_thms)
  have "json_number (json_number_text d) \<and> strtod (json_number_text d) = (canon_number d, [])"
  proof (cases int_branch)
    case True
    then have b: "\<bar>dbl_trunc d\<bar> < 2 ^ 53" "dbl_eq (dbl_of_int (dbl_trunc d)) d"
      using trunc_bound by (simp_all add: int_branch_def)
    have "dbl_of_int (dbl_trunc d) = canon_number d"
    proof (cases "dbl_mag d = 0")
      case True
      then have "dbl_trunc d = 0" by (simp add: dbl_trunc_def mag_key_def)
      then show ?thesis using True by (simp add: canon_number_def dbl_of_int_0)
    next
      case False
      then show ?thesis using dbl_eq_nonzero [OF b(2)] by (simp add: canon_number_def)
    qed
    then show ?thesis using True num_text snprintf_dec_int [OF b(1)] strtod_dec_int json_number_dec_int by simp
  next
    case False
    have z: "0 < dbl_mag d"
    proof (rule ccontr)
      assume "\<not> 0 < dbl_mag d"
      then have m: "dbl_mag d = 0" by simp
      then have k: "dbl_key d = 0" "dbl_trunc d = 0" by (simp_all add: dbl_key_def dbl_trunc_def mag_key_def)
      have "int_branch" unfolding int_branch_def dbl_less_def dbl_eq_def key_two_53 k dbl_of_int_0
        using m by (simp add: dbl_is_nan_def inf_mag_def dbl_key_def mag_key_def two_53_def dbl_mag_def dbl_neg_def dbl_pack_def dbl_sign_def)
      then show False using False by simp
    qed
    then show ?thesis using shortest_digits_exact [OF assms z] json_number_format_g [OF z] num_text False
      by (auto simp: canon_number_def)
  qed
  then show "json_number (json_number_text d)" "strtod (json_number_text d) = (canon_number d, [])" by simp_all
qed

subsection \<open>Strings\<close>

lemma and_low: "(x::nat) AND 0x1F = x mod 32" "x AND 0x0F = x mod 16" "x AND 0x07 = x mod 8"
  "x AND 0xF = x mod 16" "x AND 0x3FF = x mod 1024"
  using take_bit_eq_mask [of 5 x] take_bit_eq_mask [of 4 x] take_bit_eq_mask [of 3 x] take_bit_eq_mask [of 10 x]
  by (simp_all add: mask_eq_exp_minus_1 take_bit_eq_mod)

lemma lead_mod: "(c::nat) < 32 \<Longrightarrow> (192 + c) mod 32 = c" "(c::nat) < 16 \<Longrightarrow> (224 + c) mod 16 = c"
  "(c::nat) < 8 \<Longrightarrow> (240 + c) mod 8 = c" "(y::nat) < 64 \<Longrightarrow> (128 + y) mod 64 = y"
  using mod_mult_self2 [of c 32 6] mod_mult_self2 [of c 16 14] mod_mult_self2 [of c 8 30] mod_mult_self2 [of y 64 2]
  by (simp_all add: add.commute)

lemma continuation: "(y::nat) < 64 \<Longrightarrow> (0x80 + y) AND 0xC0 = 0x80" "y < 64 \<Longrightarrow> (0x80 + y) AND 0x3F = y"
  by (simp_all add: and_C0 and_3F lead_mod)

lemma utf8_join:
  "(y::nat) < 64 \<Longrightarrow> push_bit 6 a OR y = a * 64 + y"
  "(y::nat) < 4096 \<Longrightarrow> push_bit 12 a OR y = a * 4096 + y"
  "(y::nat) < 262144 \<Longrightarrow> push_bit 18 a OR y = a * 262144 + y"
  using or_low_bits [of y 6 a] or_low_bits [of y 12 a] or_low_bits [of y 18 a]
  unfolding push_bit_eq_mult by simp_all

lemma byte_at_Cons [simp]: "byte_at (c # s) 0 = byte c" "byte_at (c # s) (Suc i) = byte_at s i"
  by (simp_all add: byte_at_def)

lemma byte_at_numerals [simp]: "byte_at (c # s) 1 = byte_at s 0" "byte_at (c # s) 2 = byte_at s 1" "byte_at (c # s) 3 = byte_at s 2"
  by (simp_all add: byte_at_def)

lemma base64_join:
  "(cp::nat) div 64 div 64 * 4096 + (cp div 64 mod 64 * 64 + cp mod 64) = cp"
  "cp div 64 div 64 div 64 * 262144 + (cp div 64 div 64 mod 64 * 4096 + (cp div 64 mod 64 * 64 + cp mod 64)) = cp"
  using div_mult_mod_eq [of "cp div 64 div 64" 64] div_mult_mod_eq [of "cp div 64" 64] div_mult_mod_eq [of cp 64]
  by linarith+

text \<open>The decoder of the escaping loop inverts the encoding.\<close>

lemma utf8_decode_encode:
  assumes "is_scalar cp" "0x80 \<le> cp"
  shows "utf8_decode (nyxj_utf8_encode cp @ q) = Some (cp, length (nyxj_utf8_encode cp))"
proof -
  have lim: "cp < 0x110000" using assms(1) by (auto simp: is_scalar_def)
  define a b c d where "a = cp div 64 div 64 div 64" "b = cp div 64 div 64" "c = cp div 64" "d = cp mod 64"
  note enc = nyxj_utf8_encode_arith [OF lim] base64_split
  consider (two) "cp < 0x800" | (three) "0x800 \<le> cp" "cp < 0x10000" | (four) "0x10000 \<le> cp" by linarith
  then show ?thesis
  proof cases
    case two
    then have c: "2 \<le> c" "c < 32" "d < 64" "c * 64 + d = cp" using assms(2) by (simp_all add: a_b_c_d_def div_less_iff_less_mult)
    then show ?thesis using two assms(2) unfolding enc
      by (simp add: a_b_c_d_def [symmetric] utf8_decode_def Let_def continuation and_low lead_mod utf8_join)
  next
    case three
    define x y where "x = cp div 64 div 64" "y = cp div 64 mod 64"
    have "x * 4096 + (y * 64 + d) = cp" unfolding a_b_c_d_def x_y_def by (rule base64_join)
    with three have c: "x < 16" "y < 64" "d < 64" "x * 4096 + (y * 64 + d) = cp"
      by (simp_all add: a_b_c_d_def x_y_def div_less_iff_less_mult)
    have "\<not> (cp < 0x800 \<or> 0xD800 \<le> cp \<and> cp \<le> 0xDFFF)" using three assms(1) by (auto simp: is_scalar_def)
    then show ?thesis using three c assms(2) unfolding enc
      by (simp add: a_b_c_d_def(4) [symmetric] x_y_def [symmetric] utf8_decode_def Let_def continuation and_low lead_mod utf8_join)
  next
    case four
    define x y z where "x = cp div 64 div 64 div 64" "y = cp div 64 div 64 mod 64" "z = cp div 64 mod 64"
    have "x * 262144 + (y * 4096 + (z * 64 + d)) = cp" unfolding a_b_c_d_def x_y_z_def by (rule base64_join)
    with lim have c: "x < 5" "y < 64" "z < 64" "d < 64" "x * 262144 + (y * 4096 + (z * 64 + d)) = cp"
      by (simp_all add: a_b_c_d_def x_y_z_def div_less_iff_less_mult)
    then show ?thesis using four lim unfolding enc
      by (simp add: a_b_c_d_def(4) [symmetric] x_y_z_def [symmetric] utf8_decode_def Let_def continuation and_low lead_mod utf8_join)
  qed
qed

lemma hex_lower_digit: "d < 16 \<Longrightarrow> hex_digit (hex_lower d) = Some d"
  by (auto simp: hex_digit_def hex_lower_def)

lemma u16_escape_quad:
  assumes "cp < 0x10000"
  obtains h where "u16_escape cp = CHR 0x5C # CHR ''u'' # h" "hex_quad h cp"
proof -
  define h where "h = [hex_lower (cp div 4096 mod 16), hex_lower (cp div 256 mod 16), hex_lower (cp div 16 mod 16), hex_lower (cp mod 16)]"
  have u: "u16_escape cp = CHR 0x5C # CHR ''u'' # h"
    by (simp add: u16_escape_def h_def drop_bit_eq_div and_low)
  have eq: "((cp div 4096 mod 16 * 16 + cp div 256 mod 16) * 16 + cp div 16 mod 16) * 16 + cp mod 16 = cp"
  proof -
    define p where "p = cp div 16"
    define q where "q = p div 16"
    define r where "r = q div 16"
    have "cp div 256 = q" "cp div 4096 = r" by (simp_all add: p_def q_def r_def div_mult2_eq [symmetric])
    moreover have "r < 16" using assms by (simp add: p_def q_def r_def div_mult2_eq [symmetric] div_less_iff_less_mult)
    ultimately show ?thesis
      using div_mult_mod_eq [of q 16] div_mult_mod_eq [of p 16] div_mult_mod_eq [of cp 16]
      unfolding p_def [symmetric] q_def [symmetric] r_def [symmetric] by simp
  qed
  have hd: "hex_digit (hex_lower (x mod 16)) = Some (x mod 16)" for x by (rule hex_lower_digit) simp
  have "hex_quad h (((cp div 4096 mod 16 * 16 + cp div 256 mod 16) * 16 + cp div 16 mod 16) * 16 + cp mod 16)"
    unfolding hex_quad_def h_def using hd by blast
  then have "hex_quad h cp" unfolding eq .
  with u show thesis by (rule that)
qed

text \<open>The escape of a code point denotes its bytes.\<close>

lemma escape_of_bmp:
  assumes "cp < 0x10000" "is_scalar cp"
  shows "json_escape (u16_escape cp) (nyxj_utf8_encode cp)"
proof -
  obtain h where h: "u16_escape cp = CHR 0x5C # CHR ''u'' # h" "hex_quad h cp" by (rule u16_escape_quad [OF assms(1)])
  have "\<not> high_surrogate cp" "\<not> low_surrogate cp"
    using assms(2) by (auto simp: is_scalar_def high_surrogate_def low_surrogate_def)
  then show ?thesis unfolding h(1) by (rule json_escape.bmp [OF h(2)])
qed

lemma escape_of_pair:
  assumes "0x10000 \<le> cp" "is_scalar cp"
  shows "json_escape (u16_escape (0xD800 + drop_bit 10 (cp - 0x10000)) @ u16_escape (0xDC00 + ((cp - 0x10000) AND 0x3FF)))
    (nyxj_utf8_encode cp)"
proof -
  define x y where "x = (cp - 0x10000) div 1024" "y = (cp - 0x10000) mod 1024"
  have b: "x < 1024" "y < 1024" "x * 1024 + y = cp - 0x10000" using assms by (auto simp: x_y_def is_scalar_def)
  obtain h where h: "u16_escape (0xD800 + x) = CHR 0x5C # CHR ''u'' # h" "hex_quad h (0xD800 + x)"
    using u16_escape_quad [of "0xD800 + x"] b by auto
  obtain l where l: "u16_escape (0xDC00 + y) = CHR 0x5C # CHR ''u'' # l" "hex_quad l (0xDC00 + y)"
    using u16_escape_quad [of "0xDC00 + y"] b by auto
  have "0x10000 + (0xD800 + x - 0xD800) * 1024 + (0xDC00 + y - 0xDC00) = cp" using b(3) assms(1) by simp
  moreover have "high_surrogate (0xD800 + x)" "low_surrogate (0xDC00 + y)"
    using b by (simp_all add: high_surrogate_def low_surrogate_def)
  ultimately show ?thesis using json_escape.pair [OF h(2) _ l(2)] h(1) l(1)
    by (simp add: drop_bit_eq_div and_low x_y_def [symmetric])
qed

lemma escape_text_plain:
  "\<forall>c \<in> set a. plain_byte eu c \<Longrightarrow> escape_text eu (a @ s) = a @ escape_text eu s"
proof (induction a)
  case (Cons c a)
  then show ?case by (subst escape_text.simps) simp
qed simp

lemma escape_text_special:
  assumes "s \<noteq> []" "\<not> plain_byte eu (hd s)" "special_text s = (e, n)"
  shows "escape_text eu s = e @ escape_text eu (drop n s)"
  using assms by (subst escape_text.simps) simp

lemma short_escape_single: "short_escape c = Some e \<Longrightarrow> json_escape e [c]"
  by (auto simp: short_escape_def single_escape_def split: if_splits intro!: json_escape.single)

lemma short_escape_low: "short_escape c = Some e \<Longrightarrow> byte c < 0x80"
  by (auto simp: short_escape_def split: if_splits)

lemma short_escape_high: "0x80 \<le> byte c \<Longrightarrow> short_escape c = None"
  using short_escape_low [of c] by (cases "short_escape c") auto

lemma short_escape_quotes: "short_escape (CHR 0x22) \<noteq> None" "short_escape (CHR 0x5C) \<noteq> None"
  by (simp_all add: short_escape_def)

lemma encode_high:
  assumes "is_scalar cp" "0x80 \<le> cp" "c \<in> set (nyxj_utf8_encode cp)"
  shows "0x80 \<le> byte c"
proof -
  obtain ns where ns: "nyxj_utf8_encode cp = map chr ns" "\<forall>n \<in> set ns. 0x80 \<le> n \<and> n < 256"
    by (rule encode_bytes [OF assms(1,2)])
  then obtain n where n: "c = chr n" "0x80 \<le> n" "n < 256" using assms(3) by auto
  then have "byte c = n" by (simp only: of_char_of mod_less)
  then show ?thesis using n(2) by simp
qed

text \<open>What one scalar value becomes is read back as its bytes.\<close>

lemma plain_not_special: "plain_byte eu c \<Longrightarrow> \<not> is_special c"
  by (auto simp: plain_byte_def is_special_def)

lemma high_byte_plain: "0x80 \<le> byte c \<Longrightarrow> plain_byte eu c \<longleftrightarrow> \<not> eu"
proof -
  assume h: "0x80 \<le> byte c"
  have "byte (CHR 0x22) < 0x80" "byte (CHR 0x5C) < 0x80" by simp_all
  then have "c \<noteq> CHR 0x22" "c \<noteq> CHR 0x5C" using h not_le by metis+
  then show ?thesis using h unfolding plain_byte_def by linarith
qed

lemma escape_text_ascii:
  assumes "cp < 0x80" "\<not> plain_byte eu (chr cp)"
  obtains e where "escape_text eu (chr cp # s) = e @ escape_text eu s" "json_escape e [chr cp]"
proof -
  have b: "byte (chr cp) = cp" using assms(1) by simp
  have "cp < 0x20 \<or> chr cp = CHR 0x22 \<or> chr cp = CHR 0x5C"
    using assms unfolding plain_byte_def b by (meson not_le)
  then have sc: "short_escape (chr cp) \<noteq> None \<or> cp < 0x20" using short_escape_quotes by (metis (no_types))
  have np: "\<not> plain_byte eu (hd (chr cp # s))" unfolding list.sel by (rule assms(2))
  show thesis
  proof (cases "short_escape (chr cp)")
    case None
    then have c: "cp < 0x20" using sc by simp
    have "nyxj_utf8_encode cp = [chr cp]" using assms(1) by (simp only: nyxj_utf8_encode_def if_True)
    then have "json_escape (u16_escape cp) [chr cp]" using escape_of_bmp [of cp] c by (simp add: is_scalar_def)
    moreover have "special_text (chr cp # s) = (u16_escape cp, 1)"
      unfolding special_text_def list.sel None option.case b using c by (simp only: if_True)
    from escape_text_special [OF _ np this] have "escape_text eu (chr cp # s) = u16_escape cp @ escape_text eu s" by simp
    ultimately show thesis by (intro that)
  next
    case (Some e)
    have "special_text (chr cp # s) = (e, 1)" unfolding special_text_def list.sel Some option.case ..
    from escape_text_special [OF _ np this] have "escape_text eu (chr cp # s) = e @ escape_text eu s" by simp
    then show thesis using short_escape_single [OF Some] by (rule that)
  qed
qed

lemma escape_text_high:
  assumes "is_scalar cp" "0x80 \<le> cp" and b: "b = nyxj_utf8_encode cp"
  obtains e where "escape_text True (b @ s) = e @ escape_text True s" "json_escape e b"
proof -
  have ne: "b \<noteq> []" using nyxj_utf8_encode_length(1) [of cp] by (simp add: b)
  then have h0: "0x80 \<le> byte (hd b)" using encode_high [OF assms(1,2)] by (simp add: b)
  have hd: "hd (b @ s) = hd b" using ne by simp
  have np: "\<not> plain_byte True (hd (b @ s))" using h0 unfolding hd plain_byte_def by simp
  define e where "e = (if 0x10000 \<le> cp
    then u16_escape (0xD800 + drop_bit 10 (cp - 0x10000)) @ u16_escape (0xDC00 + ((cp - 0x10000) AND 0x3FF))
    else u16_escape cp)"
  have nl: "\<not> byte (hd b) < 0x20" using h0 by simp
  have sp: "special_text (b @ s) = (e, length b)"
    unfolding special_text_def hd short_escape_high [OF h0] option.case if_not_P [OF nl]
    unfolding b utf8_decode_encode [OF assms(1,2)] option.case prod.case e_def Let_def by (rule refl)
  have "json_escape e b"
  proof (cases "0x10000 \<le> cp")
    case True
    then show ?thesis using escape_of_pair [OF True assms(1)] unfolding e_def b by (simp only: if_True)
  next
    case False
    then have "json_escape (u16_escape cp) (nyxj_utf8_encode cp)" by (intro escape_of_bmp assms(1)) simp
    then show ?thesis unfolding e_def b if_not_P [OF False] .
  qed
  moreover have "escape_text True (b @ s) = e @ escape_text True s"
    using escape_text_special [OF _ np sp] ne by simp
  ultimately show thesis by (intro that)
qed

lemma escape_text_scalar:
  assumes "is_scalar cp"
  obtains e where "escape_text eu (nyxj_utf8_encode cp @ s) = e @ escape_text eu s"
    "\<forall>t u. json_chars t u \<longrightarrow> json_chars (e @ t) (nyxj_utf8_encode cp @ u)"
proof (cases "\<forall>c \<in> set (nyxj_utf8_encode cp). plain_byte eu c")
  case True
  then have "\<forall>c \<in> set (nyxj_utf8_encode cp). \<not> is_special c" using plain_not_special by blast
  then have "0x20 \<le> cp" "cp \<noteq> 0x22" "cp \<noteq> 0x5C" unfolding encode_plain [OF assms] by blast+
  then show thesis
    by (intro that [OF escape_text_plain [OF True]] allI impI json_chars.plain [OF assms])
next
  case False
  have "\<exists>e. escape_text eu (nyxj_utf8_encode cp @ s) = e @ escape_text eu s \<and> json_escape e (nyxj_utf8_encode cp)"
  proof (cases "cp < 0x80")
    case True
    then have b: "nyxj_utf8_encode cp = [chr cp]" by (simp only: nyxj_utf8_encode_def if_True)
    with False have "\<not> plain_byte eu (chr cp)" by simp
    from escape_text_ascii [OF True this, of s] show ?thesis unfolding b append_Cons append_Nil by blast
  next
    case high: False
    then have h: "0x80 \<le> cp" by simp
    obtain c where "c \<in> set (nyxj_utf8_encode cp)" "\<not> plain_byte eu c" using False by blast
    moreover from this(1) have "0x80 \<le> byte c" by (rule encode_high [OF assms h])
    ultimately have "eu = True" using high_byte_plain by blast
    with escape_text_high [OF assms h refl, of s] show ?thesis by (simp only:) blast
  qed
  then obtain e where e: "escape_text eu (nyxj_utf8_encode cp @ s) = e @ escape_text eu s"
    "json_escape e (nyxj_utf8_encode cp)" by blast
  show thesis by (rule that [OF e(1)]) (intro allI impI json_chars.escape [OF e(2)])
qed

lemma escape_text_chars:
  assumes "valid_utf8 s"
  shows "json_chars (escape_text eu s) s"
proof -
  obtain cps where cps: "list_all is_scalar cps" "s = utf8_text cps" using assms by (auto simp: valid_utf8_def)
  have "json_chars (escape_text eu (utf8_text cps)) (utf8_text cps)" using cps(1)
  proof (induction cps)
    case Nil
    then show ?case by (simp add: utf8_text_def json_chars.none) (subst escape_text.simps, simp add: json_chars.none)
  next
    case (Cons cp cps)
    then have "is_scalar cp" by simp
    then obtain e where e: "escape_text eu (nyxj_utf8_encode cp @ utf8_text cps) = e @ escape_text eu (utf8_text cps)"
      "\<forall>t u. json_chars t u \<longrightarrow> json_chars (e @ t) (nyxj_utf8_encode cp @ u)" by (rule escape_text_scalar [where eu = eu and s = "utf8_text cps"])
    have "utf8_text (cp # cps) = nyxj_utf8_encode cp @ utf8_text cps" by (simp add: utf8_text_def)
    then show ?case using e Cons by simp
  qed
  then show ?thesis using cps(2) by simp
qed

lemma json_string_text_string: "valid_utf8 s \<Longrightarrow> json_string (json_string_text eu s) s"
  using escape_text_chars by (auto simp: json_string_def json_string_text_def)

end
