(* ===== verification/Serializer_Facts.thy ===== *)
theory Serializer_Facts
  imports Serializer Text_Facts Value_Facts Parser_Complete
begin

text \<open>
  The text the serializer writes, stated without the buffer, and that it is a JSON text for the tree
  with its members sorted if asked for, its zeros positive and its strings valid UTF-8.
\<close>

subsection \<open>The text\<close>

definition newline_text :: "sctx \<Rightarrow> nat \<Rightarrow> bytes" where
  "newline_text s d = (if indent s = 0 then [] else CHR 0x0A # replicate (d * indent s) (CHR '' ''))"

definition ordered :: "sctx \<Rightarrow> (string \<times> 'v) list \<Rightarrow> (string \<times> 'v) list" where
  "ordered s ps = (if sort_keys s then sort_pairs ps else ps)"

definition colon_text :: "sctx \<Rightarrow> bytes" where
  "colon_text s = (if indent s \<noteq> 0 then '': '' else '':'')"

lemma size_ordered: "size_list f (ordered s ps) = size_list f ps"
  by (simp add: ordered_def sort_pairs_def size_list_sort)

function (sequential) value_text :: "sctx \<Rightarrow> nyxj_value \<Rightarrow> nat \<Rightarrow> bytes"
  and items_text :: "sctx \<Rightarrow> bool \<Rightarrow> nyxj_value list \<Rightarrow> nat \<Rightarrow> bytes"
  and members_text :: "sctx \<Rightarrow> bool \<Rightarrow> (string \<times> nyxj_value) list \<Rightarrow> nat \<Rightarrow> bytes"
where
  "value_text s (VNull _) d = ''null''"
| "value_text s (VBool _ t) d = (if t then ''true'' else ''false'')"
| "value_text s (VNumber _ n) d = cstr (json_number_text n)"
| "value_text s (VString _ t) d = json_string_text (escape_unicode s) (cstr t)"
| "value_text s (VArray _ xs _) d =
     (if xs = [] then ''[]'' else CHR ''['' # items_text s True xs (d + 1) @ newline_text s d @ '']'')"
| "value_text s (VObject _ ps) d =
     (if ps = [] then ''{}'' else CHR ''{'' # members_text s True (ordered s ps) (d + 1) @ newline_text s d @ ''}'')"
| "items_text s first [] d = []"
| "items_text s first (x # xs) d =
     (if first then [] else '','') @ newline_text s d @ value_text s x d @ items_text s False xs d"
| "members_text s first [] d = []"
| "members_text s first ((k, x) # ps) d =
     (if first then [] else '','') @ newline_text s d @ json_string_text (escape_unicode s) (cstr k) @ colon_text s @
     value_text s x d @ members_text s False ps d"
  by pat_completeness auto
termination
  by (relation "measure (\<lambda>x. case x of
      Inl (s, v, d) \<Rightarrow> size v
    | Inr (Inl (s, f, xs, d)) \<Rightarrow> size_list size xs
    | Inr (Inr (s, f, ps, d)) \<Rightarrow> size_list (size_prod (\<lambda>x. 0) size) ps)")
    (auto simp: size_ordered)

subsection \<open>The buffer receives it\<close>

lemma emits_newline: "out.emits r (\<lambda>b. newline s b d) (newline_text s d)"
proof (cases "indent s = 0")
  case True
  then show ?thesis by (simp add: newline_def newline_text_def out.emits_id)
next
  case False
  let ?n = "d * indent s"
  have pad: "out.emits r (\<lambda>b. let (ok, b) = nyxj_buf_reserve b ?n
      in if \<not> ok then b else b\<lparr>buf_data := buf_data b @ replicate ?n (CHR '' '')\<rparr>) (replicate ?n (CHR '' ''))"
    unfolding out.emits_def
  proof (intro allI impI)
    fix b
    assume b: "buf_ok b" "r \<longrightarrow> buf_roomy b"
    obtain q b' where R: "nyxj_buf_reserve b ?n = (q, b')" by fastforce
    note R' = reserve_ok [OF b(1) R]
    show "buf_ok (let (ok, b) = nyxj_buf_reserve b ?n
          in if \<not> ok then b else b\<lparr>buf_data := buf_data b @ replicate ?n (CHR '' '')\<rparr>) \<and>
      (\<not> buf_oom (let (ok, b) = nyxj_buf_reserve b ?n
          in if \<not> ok then b else b\<lparr>buf_data := buf_data b @ replicate ?n (CHR '' '')\<rparr>) \<longrightarrow>
        \<not> buf_oom b \<and> buf_data (let (ok, b) = nyxj_buf_reserve b ?n
          in if \<not> ok then b else b\<lparr>buf_data := buf_data b @ replicate ?n (CHR '' '')\<rparr>) = buf_data b @ replicate ?n (CHR '' '')) \<and>
      (buf_roomy b \<longrightarrow> buf_roomy (let (ok, b) = nyxj_buf_reserve b ?n
          in if \<not> ok then b else b\<lparr>buf_data := buf_data b @ replicate ?n (CHR '' '')\<rparr>) \<and>
        (\<not> buf_oom b \<longrightarrow> \<not> buf_oom (let (ok, b) = nyxj_buf_reserve b ?n
          in if \<not> ok then b else b\<lparr>buf_data := buf_data b @ replicate ?n (CHR '' '')\<rparr>)))"
      using R' unfolding R Let_def prod.case by (cases q) (auto simp: buf_ok_def buf_roomy_def)
  qed
  show ?thesis using out.emits_seq [OF emits_putc [where c = "CHR 0x0A"] pad] False
    by (simp add: newline_def newline_text_def Let_def)
qed

lemma emits_order:
  assumes "r \<or> \<not> sort_keys s" "out.emits r (\<lambda>b. f (ordered s ps) b) t"
  shows "out.emits r (\<lambda>b. let (qs, b) = member_order s b ps in f qs b) t"
proof (cases "sort_keys s")
  case False
  then show ?thesis using assms(2) by (simp add: member_order_def ordered_def)
next
  case True
  then have r: r using assms(1) by simp
  show ?thesis unfolding out.emits_def
  proof (intro allI impI)
    fix b
    assume b: "buf_ok b" "r \<longrightarrow> buf_roomy b"
    define h where "h = snd (malloc (buf_mem b) (pointer_bytes * length ps))"
    have ht: "heap_total (buf_mem b)" using b(2) r by (simp add: buf_roomy_def)
    then have m: "malloc (buf_mem b) (pointer_bytes * length ps) = (True, h)" "heap_total h"
      using malloc_total [OF ht, of "pointer_bytes * length ps"] by (simp_all add: h_def prod_eq_iff)
    let ?b = "b\<lparr>buf_mem := h\<rparr>"
    have e: "(let (qs, b) = member_order s b ps in f qs b) = f (ordered s ps) ?b"
      using True m by (simp add: member_order_def ordered_def)
    have "buf_ok ?b" "r \<longrightarrow> buf_roomy ?b" "buf_roomy ?b" using b m by (simp_all add: buf_ok_def buf_roomy_def)
    with out.emitsD [OF assms(2), of ?b]
    show "buf_ok (let (qs, b) = member_order s b ps in f qs b) \<and>
        (\<not> buf_oom (let (qs, b) = member_order s b ps in f qs b) \<longrightarrow>
          \<not> buf_oom b \<and> buf_data (let (qs, b) = member_order s b ps in f qs b) = buf_data b @ t) \<and>
        (buf_roomy b \<longrightarrow> buf_roomy (let (qs, b) = member_order s b ps in f qs b) \<and>
          (\<not> buf_oom b \<longrightarrow> \<not> buf_oom (let (qs, b) = member_order s b ps in f qs b)))"
      unfolding e by simp
  qed
qed

lemma emits_comma: "out.emits r (\<lambda>b. if first then b else nyxj_buf_putc b (CHR '','')) (if first then [] else '','')"
  by (cases first) (simp_all add: out.emits_id emits_putc)

lemma emits_colon:
  "out.emits r (\<lambda>b. if indent s \<noteq> 0 then nyxj_buf_append b '': '' else nyxj_buf_putc b (CHR '':'')) (colon_text s)"
  by (cases "indent s = 0") (simp_all add: colon_text_def emits_putc out.emits_put)

lemma write_emits:
  "r \<or> \<not> sort_keys s \<Longrightarrow> out.emits r (\<lambda>b. write_value s b v d) (value_text s v d)"
  "r \<or> \<not> sort_keys s \<Longrightarrow> out.emits r (\<lambda>b. write_items s b first xs d) (items_text s first xs d)"
  "r \<or> \<not> sort_keys s \<Longrightarrow> out.emits r (\<lambda>b. write_members s b first ps d) (members_text s first ps d)"
proof (induction s v d and s first xs d and s first ps d rule: value_text_items_text_members_text.induct)
  case (3 s f n d)
  then show ?case by (simp add: json_number_emits)
next
  case (4 s f t d)
  then show ?case by (simp add: json_string_emits)
next
  case (5 s f xs cap d)
  show ?case
  proof (cases "xs = []")
    case False
    have c: "out.emits r (\<lambda>b. nyxj_buf_putc (newline s b d) (CHR '']'')) (newline_text s d @ '']'')"
      by (rule out.emits_seq [OF emits_newline emits_putc])
    show ?thesis using out.emits_seq3 [OF emits_putc [where c = "CHR ''[''"] 5(1) [OF False 5(2)] c] False
      by (simp add: Let_def)
  qed (simp add: out.emits_put)
next
  case (6 s f ps d)
  show ?case
  proof (cases "ps = []")
    case False
    have c: "out.emits r (\<lambda>b. nyxj_buf_putc (newline s b d) (CHR ''}'')) (newline_text s d @ ''}'')"
      by (rule out.emits_seq [OF emits_newline emits_putc])
    have o': "out.emits r (\<lambda>b. let (qs, b) = member_order s b ps
        in nyxj_buf_putc (newline s (write_members s b True qs (d + 1)) d) (CHR ''}''))
        (members_text s True (ordered s ps) (d + 1) @ newline_text s d @ ''}'')"
      by (rule emits_order [OF 6(2)]) (rule out.emits_seq [OF 6(1) [OF False 6(2)] c])
    show ?thesis using out.emits_seq [OF emits_putc [where c = "CHR ''{''"] o'] False
      by (simp add: Let_def)
  qed (simp add: out.emits_put)
next
  case (8 s first x xs d)
  have "out.emits r (\<lambda>b. write_items s (write_value s (newline s (if first then b else nyxj_buf_putc b (CHR '','')) d) x d) False xs d)
      ((if first then [] else '','') @ newline_text s d @ value_text s x d @ items_text s False xs d)"
    by (rule out.emits_seq3 [OF emits_comma emits_newline out.emits_seq [OF 8(1) [OF 8(3)] 8(2) [OF 8(3)]]])
  then show ?case by (simp only: write_items.simps items_text.simps Let_def)
next
  case (10 s first k x ps d)
  have "out.emits r (\<lambda>b. write_members s (write_value s b x d) False ps d) (value_text s x d @ members_text s False ps d)"
    by (rule out.emits_seq [OF 10(1) [OF 10(3)] 10(2) [OF 10(3)]])
  then have "out.emits r (\<lambda>b. write_members s (write_value s
      (if indent s \<noteq> 0 then nyxj_buf_append (nyxj_buf_json_string b (Some k) (escape_unicode s)) '': ''
       else nyxj_buf_putc (nyxj_buf_json_string b (Some k) (escape_unicode s)) (CHR '':'')) x d) False ps d)
      (json_string_text (escape_unicode s) (cstr k) @ colon_text s @ value_text s x d @ members_text s False ps d)"
    by (rule out.emits_seq3 [OF json_string_emits emits_colon])
  from out.emits_seq3 [OF emits_comma emits_newline this]
  show ?case by (simp only: write_members.simps members_text.simps Let_def)
qed (simp_all add: out.emits_put out.emits_id)

text \<open>The text that is returned.\<close>

lemma nyxj_serialize_ex_text:
  assumes "heap_total h"
  shows "fst (nyxj_serialize_ex h (Some v) opts) = Some (value_text (serialize_context opts) v 0)"
proof -
  have "out.emits True (\<lambda>b. write_value (serialize_context opts) b v 0) (value_text (serialize_context opts) v 0)"
    by (rule write_emits(1)) simp
  from nyxj_buf_detach_emits(2) [OF this _ assms] assms show ?thesis
    by (simp add: nyxj_serialize_ex_def Let_def split: prod.split) (metis fst_conv)
qed

lemma nyxj_serialize_ex_refused:
  assumes "\<not> opt_sort_keys ops"
  shows "fst (nyxj_serialize_ex h (Some v) (Some ops)) \<in> {None, Some (value_text (serialize_context (Some ops)) v 0)}"
proof -
  have "out.emits False (\<lambda>b. write_value (serialize_context (Some ops)) b v 0) (value_text (serialize_context (Some ops)) v 0)"
    by (rule write_emits(1)) (simp add: serialize_context_def assms)
  from nyxj_buf_detach_emits(1) [OF this] show ?thesis
    by (simp add: nyxj_serialize_ex_def Let_def split: prod.split) (metis fst_conv)
qed

subsection \<open>It is JSON\<close>

text \<open>What the text denotes: zeros are positive, members are in the order of writing.\<close>

function written :: "sctx \<Rightarrow> nyxj_value \<Rightarrow> json"
  where
  "written s (VNull _) = JNull"
| "written s (VBool _ t) = JBool t"
| "written s (VNumber _ n) = JNumber (canon_number n)"
| "written s (VString _ t) = JString t"
| "written s (VArray _ xs _) = JArray (map (written s) xs)"
| "written s (VObject _ ps) = JObject (map (\<lambda>(k, v). (k, written s v)) (ordered s ps))"
  by pat_completeness auto
termination
proof (relation "measure (\<lambda>(s, v). size v)", goal_cases)
  case (3 s f ps x k v)
  then have "(k, v) \<in> set ps" by (auto simp: ordered_def sort_pairs_def split: if_splits)
  then have "size v < Suc (size_list (size_prod (\<lambda>x. 0) size) ps)"
    by (induction ps) auto
  then show ?case by simp
qed (auto simp: less_Suc_eq_le intro!: size_list_estimation')

text \<open>The values that have a JSON text, \<open>d\<close> levels deep.\<close>

fun printable :: "nat \<Rightarrow> nyxj_value \<Rightarrow> bool" where
  "printable d (VNull _) \<longleftrightarrow> True"
| "printable d (VBool _ _) \<longleftrightarrow> True"
| "printable d (VNumber _ n) \<longleftrightarrow> dbl_is_finite n"
| "printable d (VString _ t) \<longleftrightarrow> no_nul t \<and> valid_utf8 t"
| "printable d (VArray _ xs _) \<longleftrightarrow> 0 < d \<and> (\<forall>x \<in> set xs. printable (d - 1) x)"
| "printable d (VObject _ ps) \<longleftrightarrow>
     0 < d \<and> distinct (map fst ps) \<and> (\<forall>(k, v) \<in> set ps. no_nul k \<and> valid_utf8 k \<and> printable (d - 1) v)"

lemma set_ordered: "set (ordered s ps) = set ps" "distinct (map fst (ordered s ps)) \<longleftrightarrow> distinct (map fst ps)"
proof -
  show "set (ordered s ps) = set ps" by (simp add: ordered_def sort_pairs_def)
  have "mset (map fst (ordered s ps)) = mset (map fst ps)" by (simp add: ordered_def sort_pairs_def)
  then show "distinct (map fst (ordered s ps)) \<longleftrightarrow> distinct (map fst ps)" by (metis mset_eq_imp_distinct_iff)
qed

lemma ordered_Nil [simp]: "ordered s ps = [] \<longleftrightarrow> ps = []"
  using set_ordered(1) [of s ps] by (metis set_empty)

lemma blank_newline: "blank (newline_text s d)"
  by (simp add: blank_def newline_text_def nyxj_is_ws_def list_all_iff)

lemma colon_blank: "\<exists>w. blank w \<and> colon_text s = CHR '':'' # w"
  by (simp add: colon_text_def blank_def nyxj_is_ws_def)

lemma items_text_json:
  assumes "xs \<noteq> []" "\<forall>x \<in> set xs. json_text d u (value_text s x n) (written s x)" "blank w"
  shows "json_items d u (items_text s True xs n @ w) (map (written s) xs)"
  using assms
proof (induction xs)
  case (Cons x xs)
  have x: "json_text d u (value_text s x n) (written s x)" using Cons.prems(2) by simp
  show ?case
  proof (cases xs)
    case Nil
    then show ?thesis using item [OF blank_newline x Cons.prems(3)] by simp
  next
    case (Cons y ys)
    have "json_items d u (items_text s True xs n @ w) (map (written s) xs)"
      using Cons.IH Cons.prems Cons by simp
    moreover have "items_text s False xs n = CHR '','' # items_text s True xs n" using Cons by simp
    ultimately show ?thesis using items [OF blank_newline x blank_simps(1)] by simp
  qed
qed simp

lemma members_text_json:
  assumes "ps \<noteq> []" "blank w"
    "\<forall>(k, v) \<in> set ps. no_nul k \<and> valid_utf8 k \<and> json_text d u (value_text s v n) (written s v)"
  shows "json_members d u (members_text s True ps n @ w) (map (\<lambda>(k, v). (k, written s v)) ps)"
  using assms
proof (induction ps)
  case (Cons p ps)
  obtain k v where p: "p = (k, v)" by fastforce
  have v: "json_text d u (value_text s v n) (written s v)" and k: "cstr k = k" "json_string (json_string_text (escape_unicode s) k) k"
    using Cons.prems(3) p cstr_id json_string_text_string by auto
  obtain c where c: "blank c" "colon_text s = CHR '':'' # c" using colon_blank by blast
  show ?case
  proof (cases ps)
    case Nil
    then show ?thesis using member [OF blank_newline k(2) blank_simps(1) c(1) v Cons.prems(2)] p k(1) c(2) by simp
  next
    case (Cons q qs)
    have "json_members d u (members_text s True ps n @ w) (map (\<lambda>(k, v). (k, written s v)) ps)"
      using Cons.IH Cons.prems Cons by simp
    moreover have "members_text s False ps n = CHR '','' # members_text s True ps n" using Cons by (cases q) simp
    ultimately show ?thesis using members [OF blank_newline k(2) blank_simps(1) c(1) v blank_simps(1)] p k(1) c(2) by simp
  qed
qed simp

lemma value_text_json: "printable d v \<Longrightarrow> json_text d u (value_text s v n) (written s v)"
proof (induction v arbitrary: d n)
  case (VNull f)
  then show ?case by (simp add: json_text_json_items_json_members.null)
next
  case (VBool f t)
  then show ?case by (simp add: json_text_json_items_json_members.true json_text_json_items_json_members.false)
next
  case (VNumber f x)
  then have j: "json_number (json_number_text x)" "fst (strtod (json_number_text x)) = canon_number x"
    using json_number_text_finite by simp_all
  then show ?case using json_text_json_items_json_members.number [OF j(1)] json_number_no_nul [OF j(1)] cstr_id by simp
next
  case (VString f t)
  then have "cstr t = t" "json_string (json_string_text (escape_unicode s) t) t"
    using cstr_id json_string_text_string by simp_all
  then show ?case using json_text_json_items_json_members.string by fastforce
next
  case (VArray f xs cap)
  obtain e where d: "d = Suc e" using VArray.prems by (cases d) auto
  show ?case
  proof (cases "xs = []")
    case True
    then show ?thesis using empty_array [OF blank_simps(1), of e u] d by simp
  next
    case False
    have "\<forall>x \<in> set xs. json_text e u (value_text s x (n + 1)) (written s x)" using VArray d by auto
    from array [OF items_text_json [OF False this blank_newline]] show ?thesis using False d by simp
  qed
next
  case (VObject f ps)
  obtain e where d: "d = Suc e" using VObject.prems by (cases d) auto
  show ?case
  proof (cases "ps = []")
    case True
    then show ?thesis using empty_object [OF blank_simps(1), of e u] d by (simp add: ordered_def sort_pairs_def)
  next
    case False
    have "no_nul k \<and> valid_utf8 k \<and> json_text e u (value_text s v (n + 1)) (written s v)" if "(k, v) \<in> set ps" for k v
      using VObject.IH [OF that, of v e "n + 1"] VObject.prems that d by auto
    then have "\<forall>(k, v) \<in> set (ordered s ps). no_nul k \<and> valid_utf8 k \<and> json_text e u (value_text s v (n + 1)) (written s v)"
      unfolding set_ordered(1) by blast
    from members_text_json [OF _ blank_newline this] False
    have m: "json_members e u (members_text s True (ordered s ps) (n + 1) @ newline_text s n)
        (map (\<lambda>(k, v). (k, written s v)) (ordered s ps))" by simp
    have e: "map fst (map (\<lambda>(k, v). (k, written s v)) (ordered s ps)) = map fst (ordered s ps)" by auto
    have "distinct (map fst (ordered s ps))" using VObject.prems set_ordered(2) [of s ps] by simp
    then have "u \<longrightarrow> distinct (map fst (map (\<lambda>(k, v). (k, written s v)) (ordered s ps)))" unfolding e by simp
    from object [OF m this] show ?thesis using False d by simp
  qed
qed

end
