(* ===== verification/Patch.thy ===== *)
theory Patch
  imports Buf Value Errors
begin

text \<open>
  \<^verbatim>\<open>src/modules/patch.c\<close>: JSON Pointer, JSON Patch, diff and merge patch.

  A pointer into a document is the pointer text that leads to it: what the C code changes in place
  through \<open>parent\<close> is written back with \<open>pointer_put\<close>. A function that changes the document
  returns it, \<open>None\<close> where the C variable is NULL, beside its result and the error. In the diff the
  allocator is the one of the path buffer.
\<close>

subsection \<open>JSON Pointer\<close>

text \<open>The loop of \<open>next_token\<close>: \<open>k\<close> bytes of \<open>n\<close> are used. \<open>None\<close> stands for \<open>*ok = false\<close>.\<close>

function next_token :: "nat \<Rightarrow> nat \<Rightarrow> string \<Rightarrow> (string \<times> string) option" where
  "next_token n k p =
     (if p = [] \<or> hd p = CHR ''/'' then Some ([], p)
      else if hd p = CHR ''~'' \<and> (tl p = [] \<or> hd (tl p) \<noteq> CHR ''0'' \<and> hd (tl p) \<noteq> CHR ''1'') then None
      else let (ch, q) = (if hd p = CHR ''~'' then (if hd (tl p) = CHR ''0'' then CHR ''~'' else CHR ''/'', tl (tl p))
                          else (hd p, tl p))
           in if n \<le> k + 1 then None else map_option (map_prod ((#) ch) id) (next_token n (k + 1) q))"
  by pat_completeness auto
termination
proof (relation "measure (\<lambda>(n, k, p). length p)", goal_cases)
  case (2 n k p x ch q)
  then show ?case by (cases p; cases "tl p") (auto split: if_splits)
qed simp

declare next_token.simps [simp del]

lemma next_token_length: "next_token n k p = Some (t, q) \<Longrightarrow> length q \<le> length p"
proof (induction n k p arbitrary: t rule: next_token.induct)
  case (1 n k p)
  obtain ch r where cr: "(if hd p = CHR ''~'' then (if hd (tl p) = CHR ''0'' then CHR ''~'' else CHR ''/'', tl (tl p))
      else (hd p, tl p)) = (ch, r)" by fastforce
  then have r: "length r \<le> length p" by (auto split: if_splits)
  show ?case
  proof (cases "p = [] \<or> hd p = CHR ''/''")
    case True
    then show ?thesis using 1(2) by (subst (asm) next_token.simps) auto
  next
    case False
    then obtain t' where "next_token n (k + 1) r = Some (t', q)"
      using 1(2) cr by (subst (asm) next_token.simps) (auto simp: Let_def split: if_splits prod.splits)
    moreover have "\<not> n \<le> k + 1" "\<not> (hd p = CHR ''~'' \<and> (tl p = [] \<or> hd (tl p) \<noteq> CHR ''0'' \<and> hd (tl p) \<noteq> CHR ''1''))"
      using 1(2) False cr by (subst (asm) next_token.simps; auto simp: Let_def split: if_splits)+
    ultimately show ?thesis using 1(1) [OF False _ cr [symmetric] refl] r by fastforce
  qed
qed

fun index_loop :: "string \<Rightarrow> int \<Rightarrow> int option" where
  "index_loop [] v = Some v"
| "index_loop (c # p) v =
     (if c < CHR ''0'' \<or> CHR ''9'' < c then None
      else let v = v * 10 + (int (byte c) - int (byte (CHR ''0''))) in if v > 0x7FFFFFFF then None else index_loop p v)"

definition parse_index :: "string \<Rightarrow> nat \<Rightarrow> bool \<Rightarrow> int option" where
  "parse_index tok count allow_end =
     (if allow_end \<and> tok = ''-'' then Some (int count)
      else if tok = [] \<or> hd tok = CHR ''0'' \<and> tl tok \<noteq> [] then None
      else case index_loop tok 0 of
        None \<Rightarrow> None
      | Some v \<Rightarrow> if v > int count \<or> \<not> allow_end \<and> v \<ge> int count then None else Some v)"

text \<open>One step of the loop of \<open>nyxj_pointer_get\<close>.\<close>

definition pointer_step :: "nyxj_value \<Rightarrow> string \<Rightarrow> nyxj_value option" where
  "pointer_step v tok =
     (case v of
        VObject fl ps \<Rightarrow> nyxj_get_member (Some v) tok
      | VArray fl xs cap \<Rightarrow> map_option (\<lambda>i. xs ! nat i) (parse_index tok (length xs) False)
      | _ \<Rightarrow> None)"

function pointer_loop :: "nyxj_value \<Rightarrow> string \<Rightarrow> nyxj_value option" where
  "pointer_loop v p =
     (if p = [] then Some v
      else if hd p \<noteq> CHR ''/'' then None
      else case next_token 512 0 (tl p) of
        None \<Rightarrow> None
      | Some (tok, q) \<Rightarrow> (case pointer_step v tok of None \<Rightarrow> None | Some w \<Rightarrow> pointer_loop w q))"
  by pat_completeness auto
termination
proof (relation "measure (\<lambda>(v, p). length p)", goal_cases)
  case (2 v p x tok q w)
  then show ?case using next_token_length [of 512 0 "tl p" tok q] by (cases p) auto
qed simp

declare pointer_loop.simps [simp del]

definition nyxj_pointer_get :: "nyxj_value option \<Rightarrow> string option \<Rightarrow> nyxj_value option" where
  "nyxj_pointer_get root pointer =
     (case (root, pointer) of (Some v, Some p) \<Rightarrow> pointer_loop v p | _ \<Rightarrow> None)"

text \<open>Writing through the pointer: the child that the step reaches is replaced.\<close>

fun pairs_update :: "(string \<times> 'v) list \<Rightarrow> string \<Rightarrow> 'v \<Rightarrow> (string \<times> 'v) list" where
  "pairs_update [] key v = []"
| "pairs_update ((k, w) # ps) key v = (if k = key then (k, v) # ps else (k, w) # pairs_update ps key v)"

definition put_step :: "nyxj_value \<Rightarrow> string \<Rightarrow> nyxj_value \<Rightarrow> nyxj_value" where
  "put_step v tok w =
     (case v of
        VObject fl ps \<Rightarrow> VObject fl (pairs_update ps tok w)
      | VArray fl xs cap \<Rightarrow>
          (case parse_index tok (length xs) False of None \<Rightarrow> v | Some i \<Rightarrow> VArray fl (xs[nat i := w]) cap)
      | _ \<Rightarrow> v)"

function pointer_put :: "nyxj_value \<Rightarrow> string \<Rightarrow> nyxj_value \<Rightarrow> nyxj_value" where
  "pointer_put v p new =
     (if p = [] then new
      else if hd p \<noteq> CHR ''/'' then v
      else case next_token 512 0 (tl p) of
        None \<Rightarrow> v
      | Some (tok, q) \<Rightarrow>
          (case pointer_step v tok of None \<Rightarrow> v | Some w \<Rightarrow> put_step v tok (pointer_put w q new)))"
  by pat_completeness auto
termination
proof (relation "measure (\<lambda>(v, p, new). length p)", goal_cases)
  case (2 v p new x tok q w)
  then show ?case using next_token_length [of 512 0 "tl p" tok q] by (cases p) auto
qed simp

declare pointer_put.simps [simp del]

text \<open>\<open>strrchr\<close>: what precedes the last slash and what follows it.\<close>

definition split_last :: "string \<Rightarrow> (string \<times> string) option" where
  "split_last path =
     (if CHR ''/'' \<in> set path
      then Some (rev (tl (dropWhile (\<lambda>c. c \<noteq> CHR ''/'') (rev path))), rev (takeWhile (\<lambda>c. c \<noteq> CHR ''/'') (rev path)))
      else None)"

text \<open>The parent, the pointer to it and the last token.\<close>

definition resolve_parent ::
    "heap \<Rightarrow> nyxj_value option \<Rightarrow> string \<Rightarrow> (nyxj_value \<times> string \<times> string) option \<times> heap" where
  "resolve_parent h root path =
     (case split_last path of
        None \<Rightarrow> (None, h)
      | Some (parent_ptr, rest) \<Rightarrow>
          (let (ok, h) = malloc h (length parent_ptr + 1)
           in if \<not> ok then (None, h)
              else case (nyxj_pointer_get root (Some parent_ptr), next_token 512 0 rest) of
                (Some parent, Some (tok, _)) \<Rightarrow> (Some (parent, parent_ptr, tok), h)
              | _ \<Rightarrow> (None, h)))"

subsection \<open>JSON Patch\<close>

abbreviation patch_error :: "nyxj_error \<Rightarrow> string \<Rightarrow> nyxj_error" where
  "patch_error e msg \<equiv> nyxj_error_set NYXJ_ERR_PATCH_FAILED (Some msg) e"

text \<open>A literal with \<open>~\<close> for the apostrophe.\<close>

definition apos :: "string \<Rightarrow> string" where
  "apos s = map (\<lambda>ch. if ch = CHR ''~'' then CHR 0x27 else ch) s"

text \<open>Whether the operation succeeded, the document, the error and the heap.\<close>

type_synonym patch_result = "bool \<times> nyxj_value option \<times> nyxj_error \<times> heap"

text \<open>\<open>val\<close> may be NULL, the result of a copy without memory.\<close>

definition op_add ::
    "heap \<Rightarrow> nyxj_value option \<Rightarrow> string \<Rightarrow> nyxj_value option \<Rightarrow> nyxj_error \<Rightarrow> patch_result" where
  "op_add h doc path val e =
     (if path = [] then (True, val, e, h)
      else case resolve_parent h doc path of
        (None, h) \<Rightarrow> (False, doc, patch_error e (apos ''add: parent of ~'' @ path @ apos ''~ does not exist''), h)
      | (Some (parent, ptr, tok), h) \<Rightarrow>
          (case parent of
             VObject _ _ \<Rightarrow>
               (let (ok, parent, h) = nyxj_object_set h parent tok val
                in if ok then (True, map_option (\<lambda>d. pointer_put d ptr parent) doc, e, h)
                   else (False, doc, patch_error e (apos ''add: cannot add into ~'' @ path @ apos ''~''), h))
           | VArray _ xs _ \<Rightarrow>
               (let (ok, parent, h) = (case parse_index tok (length xs) True of
                      None \<Rightarrow> (False, parent, h) | Some i \<Rightarrow> nyxj_array_insert h parent i val)
                in if ok then (True, map_option (\<lambda>d. pointer_put d ptr parent) doc, e, h)
                   else (False, doc, patch_error e (apos ''add: invalid array index in ~'' @ path @ apos ''~''), h))
           | _ \<Rightarrow> (False, doc, patch_error e (apos ''add: cannot add into ~'' @ path @ apos ''~''), h)))"

text \<open>What \<open>op_detach\<close> takes out of the parent, and the parent without it.\<close>

definition detach_child :: "nyxj_value \<Rightarrow> string \<Rightarrow> nyxj_value option \<times> nyxj_value" where
  "detach_child parent tok =
     (case parent of
        VObject _ _ \<Rightarrow> nyxj_object_detach parent tok
      | VArray _ xs _ \<Rightarrow>
          (case parse_index tok (length xs) False of None \<Rightarrow> (None, parent) | Some i \<Rightarrow> nyxj_array_detach parent i)
      | _ \<Rightarrow> (None, parent))"

definition op_detach ::
    "heap \<Rightarrow> nyxj_value option \<Rightarrow> string \<Rightarrow> nyxj_error \<Rightarrow> string \<Rightarrow>
     nyxj_value option \<times> nyxj_value option \<times> nyxj_error \<times> heap" where
  "op_detach h doc path e opname =
     (let (target, h) = (if path \<noteq> [] then resolve_parent h doc path else (None, h));
          (out, doc) = (case target of
             Some (parent, ptr, tok) \<Rightarrow>
               (let (out, parent) = detach_child parent tok
                in (out, if out = None then doc else map_option (\<lambda>d. pointer_put d ptr parent) doc))
           | None \<Rightarrow> (None, doc))
      in (out, doc,
          if out = None then patch_error e (opname @ apos '': path ~'' @ path @ apos ''~ does not exist'') else e, h))"

text \<open>\<open>op_text\<close> is the start of the messages that name the operation's index.\<close>

definition op_text :: "nat \<Rightarrow> string" where
  "op_text i = ''operation '' @ dec_nat i @ '': ''"

definition rooted :: "string \<Rightarrow> bool" where
  "rooted path \<longleftrightarrow> path = [] \<or> hd path = CHR ''/''"

definition op_replace ::
    "heap \<Rightarrow> nyxj_value option \<Rightarrow> string \<Rightarrow> nyxj_value option \<Rightarrow> nyxj_error \<Rightarrow> patch_result" where
  "op_replace h doc path val e =
     (if nyxj_pointer_get doc (Some path) = None
      then (False, doc, patch_error e (apos ''replace: path ~'' @ path @ apos ''~ does not exist''), h)
      else let (doc, e, h) = (if path \<noteq> [] then snd (op_detach h doc path e ''replace'') else (doc, e, h));
               (v, h) = nyxj_clone h val
           in op_add h doc path v e)"

definition op_move :: "heap \<Rightarrow> nyxj_value option \<Rightarrow> string \<Rightarrow> string \<Rightarrow> nyxj_error \<Rightarrow> patch_result" where
  "op_move h doc from path e =
     (if from = path then (True, doc, e, h)
      else if starts_with from path \<and> length from < length path \<and> path ! length from = CHR ''/''
      then (False, doc, patch_error e (apos ''move: cannot move ~'' @ from @ apos ''~ into its own child''), h)
      else case (if from \<noteq> [] then op_detach h doc from e ''move'' else (None, doc, e, h)) of
        (None, doc, e, h) \<Rightarrow> (False, doc, e, h)
      | (Some v, doc, e, h) \<Rightarrow> op_add h doc path (Some v) e)"

definition op_copy :: "heap \<Rightarrow> nyxj_value option \<Rightarrow> string \<Rightarrow> string \<Rightarrow> nyxj_error \<Rightarrow> patch_result" where
  "op_copy h doc from path e =
     (case nyxj_clone h (nyxj_pointer_get doc (Some from)) of
        (None, h) \<Rightarrow> (False, doc, patch_error e (apos ''copy: path ~'' @ from @ apos ''~ does not exist''), h)
      | (Some v, h) \<Rightarrow> op_add h doc path (Some v) e)"

definition op_test :: "heap \<Rightarrow> nyxj_value option \<Rightarrow> string \<Rightarrow> nyxj_value option \<Rightarrow> nyxj_error \<Rightarrow> patch_result" where
  "op_test h doc path val e =
     (let cur = nyxj_pointer_get doc (Some path)
      in if val = None \<or> cur = None \<or> \<not> nyxj_equals False cur val
         then (False, doc, nyxj_error_set NYXJ_ERR_TEST_FAILED
                 (Some (apos ''test: value at ~'' @ path @ apos ''~ does not match'')) e, h)
         else (True, doc, e, h))"

definition apply_one ::
    "heap \<Rightarrow> nyxj_value option \<Rightarrow> nyxj_value \<Rightarrow> nat \<Rightarrow> nyxj_error \<Rightarrow> patch_result" where
  "apply_one h doc op i e =
     (case (nyxj_get_string (Some op) ''op'', nyxj_get_string (Some op) ''path'') of
        (Some name, Some path) \<Rightarrow>
          (let val = nyxj_get_member (Some op) ''value''; from = nyxj_get_string (Some op) ''from''
           in if \<not> rooted path
              then (False, doc, patch_error e (op_text i @ apos ''missing or invalid ~op~/~path~''), h)
              else if name = ''add''
              then if val = None then (False, doc, patch_error e (op_text i @ apos ''~add~ requires a value''), h)
                   else let (v, h) = nyxj_clone h val in op_add h doc path v e
              else if name = ''remove''
              then let (v, doc, e, h) = op_detach h doc path e ''remove'' in (v \<noteq> None, doc, e, h)
              else if name = ''replace''
              then if val = None then (False, doc, patch_error e (op_text i @ apos ''~replace~ requires a value''), h)
                   else op_replace h doc path val e
              else if name = ''move'' \<or> name = ''copy''
              then case from of
                     None \<Rightarrow> (False, doc, patch_error e (op_text i @ apos ''~'' @ name @ apos ''~ requires ~from~''), h)
                   | Some from \<Rightarrow>
                       if \<not> rooted from
                       then (False, doc, patch_error e (op_text i @ apos ''~'' @ name @ apos ''~ requires ~from~''), h)
                       else if name = ''move'' then op_move h doc from path e
                       else op_copy h doc from path e
              else if name = ''test'' then op_test h doc path val e
              else (False, doc, patch_error e (op_text i @ apos ''unknown op ~'' @ name @ apos ''~''), h))
      | _ \<Rightarrow> (False, doc, patch_error e (op_text i @ apos ''missing or invalid ~op~/~path~''), h))"

text \<open>The loop over the operations stops at the first that fails.\<close>

fun patch_ops :: "heap \<Rightarrow> nyxj_value option \<Rightarrow> nyxj_value list \<Rightarrow> nat \<Rightarrow> nyxj_error \<Rightarrow> patch_result" where
  "patch_ops h doc [] i e = (True, doc, e, h)"
| "patch_ops h doc (op # ops) i e =
     (let (ok, doc, e, h) = apply_one h doc op i e
      in if ok then patch_ops h doc ops (i + 1) e else (False, doc, e, h))"

text \<open>The operations change a copy, which replaces the document when all of them succeed.\<close>

definition nyxj_patch_apply :: "heap \<Rightarrow> nyxj_value option \<Rightarrow> nyxj_value option \<Rightarrow> patch_result" where
  "nyxj_patch_apply h doc patch =
     (case (doc, patch) of
        (Some _, Some (VArray _ ops _)) \<Rightarrow>
          (case nyxj_clone h doc of
             (None, h) \<Rightarrow> (False, doc, nyxj_error_set NYXJ_ERR_OUT_OF_MEMORY None no_error, h)
           | (Some work, h) \<Rightarrow>
               (let (ok, work, e, h) = patch_ops h (Some work) ops 0 no_error
                in (ok, if ok then work else doc, e, h)))
      | (Some _, Some _) \<Rightarrow> (False, doc, patch_error no_error ''patch must be an array of operations'', h)
      | _ \<Rightarrow> (False, doc, nyxj_error_set NYXJ_ERR_NULL_INPUT None no_error, h))"

subsection \<open>Diff\<close>

text \<open>One byte of a key, escaped; \<open>push_token\<close> appends the token to the path.\<close>

definition push_char :: "nyxj_buf \<Rightarrow> char \<Rightarrow> nyxj_buf" where
  "push_char path c =
     (if c = CHR ''~'' then nyxj_buf_append path ''~0''
      else if c = CHR ''/'' then nyxj_buf_append path ''~1''
      else nyxj_buf_putc path c)"

definition push_token :: "nyxj_buf \<Rightarrow> string \<Rightarrow> nyxj_buf" where
  "push_token path tok = foldl push_char (nyxj_buf_putc path (CHR ''/'')) tok"

text \<open>An operation is appended to \<open>ops\<close>. The values and the path share one allocator, \<open>buf_mem\<close>.\<close>

definition emit :: "nyxj_value \<Rightarrow> string \<Rightarrow> nyxj_buf \<Rightarrow> nyxj_value option \<Rightarrow> nyxj_value \<times> nyxj_buf" where
  "emit ops op path val =
     (case nyxj_new_object (buf_mem path) of
        (None, h) \<Rightarrow> (ops, path\<lparr>buf_mem := h\<rparr>)
      | (Some ob, h) \<Rightarrow>
          (let (_, ob, h) = nyxj_object_set_string h ob ''op'' (Some op);
               (_, ob, h) = nyxj_object_set_string h ob ''path'' (Some (buf_data path));
               (ob, h) = (if val \<noteq> None
                          then let (v, h) = nyxj_clone h val; (_, ob, h) = nyxj_object_set h ob ''value'' v in (ob, h)
                          else (ob, h));
               (_, ops, h) = nyxj_array_push h ops (Some ob)
           in (ops, path\<lparr>buf_mem := h\<rparr>)))"

text \<open>\<open>path->len = mark\<close>.\<close>

definition cut_path :: "nat \<Rightarrow> nyxj_value \<times> nyxj_buf \<Rightarrow> nyxj_value \<times> nyxj_buf" where
  "cut_path mark st = (fst st, (snd st)\<lparr>buf_data := take mark (buf_data (snd st))\<rparr>)"

text \<open>\<open>push_token\<close>, \<open>emit\<close> and the reset of the path.\<close>

definition emit_at :: "nat \<Rightarrow> string \<Rightarrow> string \<Rightarrow> nyxj_value option \<Rightarrow> nyxj_value \<times> nyxj_buf \<Rightarrow> nyxj_value \<times> nyxj_buf" where
  "emit_at mark op tok val st = cut_path mark (emit (fst st) op (push_token (snd st) tok) val)"

text \<open>The keys of \<open>a\<close> that \<open>b\<close> does not have.\<close>

fun diff_gone :: "nat \<Rightarrow> (string \<times> nyxj_value) list \<Rightarrow> nyxj_value \<Rightarrow> nyxj_value \<times> nyxj_buf \<Rightarrow> nyxj_value \<times> nyxj_buf" where
  "diff_gone mark [] b st = st"
| "diff_gone mark ((k, x) # ps) b st =
     diff_gone mark ps b (if nyxj_get_member (Some b) k = None then emit_at mark ''remove'' k None st else st)"

fun diff_added :: "nat \<Rightarrow> nat \<Rightarrow> nyxj_value list \<Rightarrow> nyxj_value \<times> nyxj_buf \<Rightarrow> nyxj_value \<times> nyxj_buf" where
  "diff_added mark i [] st = st"
| "diff_added mark i (y # ys) st = diff_added mark (i + 1) ys (emit_at mark ''add'' (snprintf 16 (dec_nat i)) (Some y) st)"

text \<open>The loop from \<open>na - 1\<close> down to \<open>common\<close>: \<open>i\<close> is one more than the index.\<close>

fun diff_removed :: "nat \<Rightarrow> nat \<Rightarrow> nat \<Rightarrow> nyxj_value \<times> nyxj_buf \<Rightarrow> nyxj_value \<times> nyxj_buf" where
  "diff_removed mark common 0 st = st"
| "diff_removed mark common (Suc i) st =
     (if common \<le> i then diff_removed mark common i (emit_at mark ''remove'' (snprintf 16 (dec_nat i)) None st) else st)"

text \<open>\<open>diff_rec\<close>, its loop over the members of \<open>b\<close> and its loop over the common items. \<open>nyxj_equals\<close>
  compares two different trees.\<close>

fun diff_rec :: "nyxj_value \<times> nyxj_buf \<Rightarrow> nyxj_value \<Rightarrow> nyxj_value \<Rightarrow> nyxj_value \<times> nyxj_buf"
  and diff_members :: "nat \<Rightarrow> nyxj_value \<Rightarrow> (string \<times> nyxj_value) list \<Rightarrow> nyxj_value \<times> nyxj_buf \<Rightarrow> nyxj_value \<times> nyxj_buf"
  and diff_items :: "nat \<Rightarrow> nat \<Rightarrow> nyxj_value list \<Rightarrow> nyxj_value list \<Rightarrow> nyxj_value \<times> nyxj_buf \<Rightarrow> nyxj_value \<times> nyxj_buf"
where
  "diff_rec st a b =
     (if nyxj_equals False (Some a) (Some b) then st
      else case (a, b) of
        (VObject f ps, VObject g qs) \<Rightarrow>
          (let mark = length (buf_data (snd st)) in diff_members mark a qs (diff_gone mark ps b st))
      | (VArray f xs m, VArray g ys n) \<Rightarrow>
          (let mark = length (buf_data (snd st)); common = min (length xs) (length ys)
           in diff_removed mark common (length xs)
                (diff_added mark common (drop common ys) (diff_items mark 0 xs ys st)))
      | _ \<Rightarrow> emit (fst st) ''replace'' (snd st) (Some b))"
| "diff_members mark a [] st = st"
| "diff_members mark a ((k, y) # qs) st =
     (let st = (case nyxj_get_member (Some a) k of
                  None \<Rightarrow> emit (fst st) ''add'' (push_token (snd st) k) (Some y)
                | Some x \<Rightarrow> diff_rec (fst st, push_token (snd st) k) x y)
      in diff_members mark a qs (cut_path mark st))"
| "diff_items mark i (x # xs) (y # ys) st =
     diff_items mark (i + 1) xs ys (cut_path mark (diff_rec (fst st, push_token (snd st) (snprintf 16 (dec_nat i))) x y))"
| "diff_items mark i xs ys st = st"

definition nyxj_diff :: "heap \<Rightarrow> nyxj_value option \<Rightarrow> nyxj_value option \<Rightarrow> nyxj_value option \<times> heap" where
  "nyxj_diff h from to =
     (case (from, to) of
        (Some a, Some b) \<Rightarrow>
          (case nyxj_new_array h of
             (None, h) \<Rightarrow> (None, h)
           | (Some ops, h) \<Rightarrow> (let (ops, path) = diff_rec (ops, nyxj_buf_init h 64) a b in (Some ops, buf_mem path)))
      | _ \<Rightarrow> (None, h))"

subsection \<open>Merge patch\<close>

text \<open>\<open>nyxj_merge_patch\<close> and its loop over the members of the patch; the target may be NULL.\<close>

fun merge_patch :: "heap \<Rightarrow> nyxj_value option \<Rightarrow> nyxj_value \<Rightarrow> nyxj_value option \<times> heap"
  and merge_members :: "heap \<Rightarrow> nyxj_value \<Rightarrow> (string \<times> nyxj_value) list \<Rightarrow> nyxj_value \<times> heap"
where
  "merge_patch h target patch =
     (case patch of
        VObject f ps \<Rightarrow>
          (case (case target of Some (VObject g qs) \<Rightarrow> (target, h) | _ \<Rightarrow> nyxj_new_object h) of
             (None, h) \<Rightarrow> (None, h)
           | (Some t, h) \<Rightarrow> (let (t, h) = merge_members h t ps in (Some t, h)))
      | _ \<Rightarrow> nyxj_clone h (Some patch))"
| "merge_members h t [] = (t, h)"
| "merge_members h t ((k, v) # ps) =
     (if value_type v = NYXJ_NULL then merge_members h (snd (nyxj_object_remove t k)) ps
      else let (cur, t) = nyxj_object_detach t k; (merged, h) = merge_patch h cur v;
               (t, h) = (if merged \<noteq> None then snd (nyxj_object_set h t k merged) else (t, h))
           in merge_members h t ps)"

definition nyxj_merge_patch :: "heap \<Rightarrow> nyxj_value option \<Rightarrow> nyxj_value option \<Rightarrow> nyxj_value option \<times> heap" where
  "nyxj_merge_patch h target patch =
     (case patch of None \<Rightarrow> (target, h) | Some p \<Rightarrow> merge_patch h target p)"

text \<open>\<open>nyxj_merge_diff\<close>: the keys that disappear, then the members of \<open>to\<close>.\<close>

fun merge_gone :: "heap \<Rightarrow> nyxj_value \<Rightarrow> (string \<times> nyxj_value) list \<Rightarrow> nyxj_value \<Rightarrow> nyxj_value \<times> heap" where
  "merge_gone h out [] to = (out, h)"
| "merge_gone h out ((k, x) # ps) to =
     (let (out, h) = (if nyxj_get_member (Some to) k = None then snd (nyxj_object_set_null h out k) else (out, h))
      in merge_gone h out ps to)"

fun merge_diff :: "heap \<Rightarrow> nyxj_value \<Rightarrow> nyxj_value \<Rightarrow> nyxj_value option \<times> heap"
  and merge_diff_members :: "heap \<Rightarrow> nyxj_value \<Rightarrow> nyxj_value \<Rightarrow> (string \<times> nyxj_value) list \<Rightarrow> nyxj_value \<times> heap"
where
  "merge_diff h from to =
     (case (from, to) of
        (VObject f ps, VObject g qs) \<Rightarrow>
          (case nyxj_new_object h of
             (None, h) \<Rightarrow> (None, h)
           | (Some out, h) \<Rightarrow>
               (let (out, h) = merge_gone h out ps to; (out, h) = merge_diff_members h out from qs in (Some out, h)))
      | _ \<Rightarrow> nyxj_clone h (Some to))"
| "merge_diff_members h out from [] = (out, h)"
| "merge_diff_members h out from ((k, y) # qs) =
     (let (out, h) =
        (case nyxj_get_member (Some from) k of
           None \<Rightarrow> (let (v, h) = nyxj_clone h (Some y) in snd (nyxj_object_set h out k v))
         | Some x \<Rightarrow>
             if nyxj_equals False (Some x) (Some y) then (out, h)
             else if value_type x = NYXJ_OBJECT \<and> value_type y = NYXJ_OBJECT
             then let (v, h) = merge_diff h x y in snd (nyxj_object_set h out k v)
             else let (v, h) = nyxj_clone h (Some y) in snd (nyxj_object_set h out k v))
      in merge_diff_members h out from qs)"

definition nyxj_merge_diff :: "heap \<Rightarrow> nyxj_value option \<Rightarrow> nyxj_value option \<Rightarrow> nyxj_value option \<times> heap" where
  "nyxj_merge_diff h from to = (case (from, to) of (Some a, Some b) \<Rightarrow> merge_diff h a b | _ \<Rightarrow> (None, h))"

end
