(* ===== verification/Patch_Facts.thy ===== *)
theory Patch_Facts
  imports Patch Value_Facts
begin

text \<open>
  What \<^verbatim>\<open>src/modules/patch.c\<close> guarantees: a JSON Pointer is the chain of its unescaped tokens, an array
  index has one spelling, a merge patch made by \<open>nyxj_merge_diff\<close> turns the first tree into the
  second, and a patch that fails leaves the document as it was.
\<close>

subsection \<open>Tokens\<close>

fun escape_token :: "string \<Rightarrow> string" where
  "escape_token [] = []"
| "escape_token (c # t) =
     (if c = CHR ''~'' then ''~0'' else if c = CHR ''/'' then ''~1'' else [c]) @ escape_token t"

definition pointer_text :: "string list \<Rightarrow> string" where
  "pointer_text toks = concat (map (\<lambda>t. CHR ''/'' # escape_token t) toks)"

lemma next_token_escape:
  "k + length t < n \<Longrightarrow> q = [] \<or> hd q = CHR ''/'' \<Longrightarrow> next_token n k (escape_token t @ q) = Some (t, q)"
proof (induction t arbitrary: k)
  case Nil
  then show ?case by (subst next_token.simps) auto
next
  case (Cons c t)
  have IH: "next_token n (k + 1) (escape_token t @ q) = Some (t, q)" using Cons by simp
  have "\<not> n \<le> k + 1" using Cons.prems by simp
  then show ?case using IH by (subst next_token.simps) simp
qed

lemma pointer_text_hd: "pointer_text toks = [] \<or> hd (pointer_text toks) = CHR ''/''"
  by (cases toks) (auto simp: pointer_text_def)

lemma pointer_loop_text:
  "list_all (\<lambda>t. length t < 512) toks \<Longrightarrow>
     pointer_loop v (pointer_text toks) = fold (\<lambda>t v. Option.bind v (\<lambda>v. pointer_step v t)) toks (Some v)"
proof (induction toks arbitrary: v)
  case Nil
  then show ?case by (subst pointer_loop.simps) (simp add: pointer_text_def)
next
  case (Cons t toks)
  have p: "pointer_text (t # toks) = CHR ''/'' # escape_token t @ pointer_text toks"
    by (simp add: pointer_text_def)
  have n: "next_token 512 0 (escape_token t @ pointer_text toks) = Some (t, pointer_text toks)"
    using Cons.prems pointer_text_hd [of toks] by (intro next_token_escape) auto
  have none: "fold (\<lambda>t v. Option.bind v (\<lambda>v. pointer_step v t)) toks None = None"
    by (induction toks) auto
  show ?case using Cons by (subst pointer_loop.simps) (auto simp: p n none split: option.split)
qed

text \<open>Array indices have one spelling.\<close>

lemma index_loop_step:
  "index_loop (c # t) a =
     (if is_digit_char c
      then let v = a * 10 + int (digit_val c) in if v > 0x7FFFFFFF then None else index_loop t v
      else None)"
  by (auto simp: is_digit_char_def digit_val_def char_le_byte Let_def)

lemma index_loop_Some:
  "index_loop t a = Some v \<Longrightarrow> a \<le> 0x7FFFFFFF \<Longrightarrow>
     list_all is_digit_char t \<and> v = a * 10 ^ length t + int (dec_val t) \<and> v \<le> 0x7FFFFFFF"
proof (induction t arbitrary: a)
  case (Cons c t)
  have c: "is_digit_char c" "a * 10 + int (digit_val c) \<le> 0x7FFFFFFF" "index_loop t (a * 10 + int (digit_val c)) = Some v"
    using Cons.prems(1) by (auto simp: index_loop_step Let_def simp del: index_loop.simps split: if_splits)
  show ?case using Cons.IH [OF c(3,2)] c(1) by (simp add: dec_val_Cons algebra_simps)
qed simp

lemma index_loop_value:
  "list_all is_digit_char t \<Longrightarrow> 0 \<le> a \<Longrightarrow> a * 10 ^ length t + int (dec_val t) \<le> 0x7FFFFFFF \<Longrightarrow>
     index_loop t a = Some (a * 10 ^ length t + int (dec_val t))"
proof (induction t arbitrary: a)
  case (Cons c t)
  define v where "v = a * 10 + int (digit_val c)"
  have v0: "0 \<le> v" using Cons.prems v_def by simp
  have e: "a * 10 ^ length (c # t) + int (dec_val (c # t)) = v * 10 ^ length t + int (dec_val t)"
    by (simp add: v_def dec_val_Cons algebra_simps)
  have "v * 1 \<le> v * 10 ^ length t" using v0 by (intro mult_left_mono) simp_all
  then have "v \<le> 0x7FFFFFFF" using Cons.prems(3) e by linarith
  moreover have "index_loop t v = Some (v * 10 ^ length t + int (dec_val t))"
    using Cons.prems(1,3) v0 e by (intro Cons.IH) simp_all
  moreover have "is_digit_char c" using Cons.prems(1) by simp
  ultimately show ?case unfolding e index_loop_step Let_def v_def [symmetric] by simp
qed simp

lemma digit_char_0: "digit_char 0 = CHR ''0''"
  by (rule byte_inj [THEN iffD1]) simp

lemma dec_nat_dec_val:
  "list_all is_digit_char t \<Longrightarrow> t \<noteq> [] \<Longrightarrow> \<not> (hd t = CHR ''0'' \<and> tl t \<noteq> []) \<Longrightarrow> dec_nat (dec_val t) = t"
proof (induction t rule: rev_induct)
  case (snoc c t)
  have c: "is_digit_char c" "digit_val c < 10" using snoc.prems digit_val_less by auto
  have dc: "digit_char (digit_val c) = c"
    using c(1) by (simp add: digit_char_def digit_val_def is_digit_char_def)
  show ?case
  proof (cases "t = []")
    case True
    then show ?thesis using c dc by (subst dec_nat.simps) (simp add: dec_val_def)
  next
    case False
    have "hd t \<noteq> CHR ''0''" using snoc.prems(3) False by auto
    then have IH: "dec_nat (dec_val t) = t" using snoc False by auto
    have "dec_val t \<noteq> 0"
    proof
      assume "dec_val t = 0"
      then have "t = [CHR ''0'']" using IH by (simp add: dec_nat_0 digit_char_0)
      then show False using \<open>hd t \<noteq> CHR ''0''\<close> by simp
    qed
    then show ?thesis using c dc IH by (subst dec_nat.simps) (simp add: dec_val_append1)
  qed
qed simp

lemma parse_index_iff:
  assumes "n \<le> 0x7FFFFFFF"
  shows "parse_index t n False = Some i \<longleftrightarrow> 0 \<le> i \<and> i < int n \<and> t = dec_nat (nat i)"
proof
  assume p: "parse_index t n False = Some i"
  then have l: "index_loop t 0 = Some i" and t: "t \<noteq> []" "\<not> (hd t = CHR ''0'' \<and> tl t \<noteq> [])" and i: "i < int n"
    by (auto simp: parse_index_def split: if_splits option.splits)
  have "list_all is_digit_char t" "i = int (dec_val t)" using index_loop_Some [OF l] by auto
  then show "0 \<le> i \<and> i < int n \<and> t = dec_nat (nat i)" using i t dec_nat_dec_val [of t] by simp
next
  assume r: "0 \<le> i \<and> i < int n \<and> t = dec_nat (nat i)"
  then have l: "index_loop t 0 = Some i"
    using index_loop_value [of t 0] dec_nat_digits [of "nat i"] assms by simp
  have z: "\<not> (hd t = CHR ''0'' \<and> tl t \<noteq> [])"
  proof (cases "nat i = 0")
    case True
    then show ?thesis using r by (simp add: dec_nat_0)
  next
    case False
    then show ?thesis using r hd_dec_nat [of "nat i"] by (simp add: digit_char_0)
  qed
  have "t \<noteq> []" using r by simp
  then show "parse_index t n False = Some i" using r l z by (auto simp: parse_index_def)
qed

subsection \<open>Merge patch\<close>

text \<open>No object that an object leads to has a null member.\<close>

fun no_nulls :: "nyxj_value \<Rightarrow> bool" where
  "no_nulls (VObject f ps) \<longleftrightarrow> (\<forall>(k, v) \<in> set ps. value_type v \<noteq> NYXJ_NULL \<and> no_nulls v)"
| "no_nulls v \<longleftrightarrow> True"

text \<open>Applying the patch \<open>p\<close> to \<open>x\<close> gives a tree equal to \<open>y\<close>.\<close>

definition patches :: "nyxj_value \<Rightarrow> nyxj_value option \<Rightarrow> nyxj_value \<Rightarrow> bool" where
  "patches p x y \<longleftrightarrow>
     value_type p \<noteq> NYXJ_NULL \<and>
     (\<forall>h. heap_total h \<longrightarrow> (\<exists>r h'. merge_patch h x p = (Some r, h') \<and> heap_total h' \<and> equals_value r y))"

lemma nyxj_new_object_total: "heap_total h \<Longrightarrow> \<exists>h'. nyxj_new_object h = (Some (VObject False []), h') \<and> heap_total h'"
  unfolding nyxj_new_object_def by (rule new_value_total)

lemma pairs_put_distinct: "distinct (map fst ps) \<Longrightarrow> distinct (map fst (pairs_put ps k v))"
  by (auto simp: pairs_put_keys)

text \<open>The members after the loop: those the patch does not name, and the merged ones.\<close>

definition merged :: "(string \<times> nyxj_value) list \<Rightarrow> (string \<times> nyxj_value) list \<Rightarrow> (string \<Rightarrow> nyxj_value) \<Rightarrow> (string \<times> nyxj_value) list \<Rightarrow> bool" where
  "merged qs ps Y rs \<longleftrightarrow> distinct (map fst rs) \<and>
     (\<forall>k. case map_of ps k of
            None \<Rightarrow> map_of rs k = map_of qs k
          | Some p \<Rightarrow> if value_type p = NYXJ_NULL then map_of rs k = None
                      else \<exists>r. map_of rs k = Some r \<and> equals_value r (Y k))"

lemma mergedD:
  assumes "merged qs ps Y rs"
  shows "distinct (map fst rs)" "map_of ps k = None \<Longrightarrow> map_of rs k = map_of qs k"
    "map_of ps k = Some p \<Longrightarrow> value_type p = NYXJ_NULL \<Longrightarrow> map_of rs k = None"
    "map_of ps k = Some p \<Longrightarrow> value_type p \<noteq> NYXJ_NULL \<Longrightarrow> \<exists>r. map_of rs k = Some r \<and> equals_value r (Y k)"
  using assms unfolding merged_def by (auto dest: spec [of _ k])

lemma merge_members_spec:
  assumes "distinct (map fst ps)" "\<forall>(k, p) \<in> set ps. no_nul k \<and> (value_type p = NYXJ_NULL \<or> patches p (map_of qs k) (Y k))"
    "distinct (map fst qs)" "heap_total h"
  shows "\<exists>rs h'. merge_members h (VObject False qs) ps = (VObject False rs, h') \<and> heap_total h' \<and> merged qs ps Y rs"
  using assms
proof (induction ps arbitrary: h qs)
  case Nil
  then show ?case by (simp add: merged_def)
next
  case (Cons p ps)
  obtain k v where p: "p = (k, v)" by fastforce
  have kps: "k \<notin> fst ` set ps" "distinct (map fst ps)" using Cons.prems(1) p by auto
  obtain cur qs1 where det: "nyxj_object_detach (VObject False qs) k = (cur, VObject False qs1)"
    by (cases "pairs_detach qs k") auto
  have qs1: "cur = map_of qs k" "distinct (map fst qs1)" "map_of qs1 j = (if j = k then None else map_of qs j)" for j
  proof -
    have none: "pairs_detach qs k = None \<longleftrightarrow> map_of qs k = None"
      by (simp add: pairs_detach_None map_of_eq_None_iff)
    show "cur = map_of qs k"
      using det pairs_detach_value [of qs k] none by (cases "pairs_detach qs k") auto
    have "map_of qs k = None \<Longrightarrow> map_of qs j = (if j = k then None else map_of qs j)" by simp
    then show "distinct (map fst qs1)" "map_of qs1 j = (if j = k then None else map_of qs j)"
      using det Cons.prems(3) map_of_pairs_detach [OF Cons.prems(3)] none
      by (cases "pairs_detach qs k"; fastforce)+
  qed
  show ?case
  proof (cases "value_type v = NYXJ_NULL")
    case True
    have "\<forall>(j, p) \<in> set ps. no_nul j \<and> (value_type p = NYXJ_NULL \<or> patches p (map_of qs1 j) (Y j))"
      using Cons.prems(2) p kps(1) by (force simp: qs1(3))
    then obtain rs h' where R: "merge_members h (VObject False qs1) ps = (VObject False rs, h')" "heap_total h'" "merged qs1 ps Y rs"
      using Cons.IH [OF kps(2) _ qs1(2) Cons.prems(4)] by blast
    have "merged qs (p # ps) Y rs"
      using R(3) kps(1) True p unfolding merged_def
      by (auto simp: qs1(3) map_of_eq_None_iff split: option.splits if_splits)
    then show ?thesis using R(1,2) True p det by (auto simp: nyxj_object_remove_def)
  next
    case False
    then have "patches v cur (Y k)" using Cons.prems(2) p qs1(1) by auto
    then obtain r h1 where r: "merge_patch h cur v = (Some r, h1)" "heap_total h1" "equals_value r (Y k)"
      using Cons.prems(4) unfolding patches_def by blast
    have "no_nul k" using Cons.prems(2) p by auto
    then obtain h2 where put: "nyxj_object_set h1 (VObject False qs1) k (Some r) = (True, VObject False (pairs_put qs1 k r), h2)" "heap_total h2"
      using nyxj_object_set_put [OF r(2)] by blast
    let ?qs2 = "pairs_put qs1 k r"
    have qs2: "distinct (map fst ?qs2)" "map_of ?qs2 j = (if j = k then Some r else map_of qs j)" for j
      using qs1 by (auto simp: pairs_put_distinct map_of_pairs_put)
    have "\<forall>(j, p) \<in> set ps. no_nul j \<and> (value_type p = NYXJ_NULL \<or> patches p (map_of ?qs2 j) (Y j))"
      using Cons.prems(2) p kps(1) by (force simp: qs2(2))
    then obtain rs h' where R: "merge_members h2 (VObject False ?qs2) ps = (VObject False rs, h')" "heap_total h'" "merged ?qs2 ps Y rs"
      using Cons.IH [OF kps(2) _ qs2(1) put(2)] by blast
    have "merged qs (p # ps) Y rs"
      using R(3) kps(1) False p r(3) unfolding merged_def
      by (auto simp: qs2(2) map_of_eq_None_iff split: option.splits if_splits)
    then show ?thesis using R(1,2) False p det r(1) put(1) by (auto simp del: merge_patch.simps)
  qed
qed

text \<open>Two objects are equal when the same keys have equal values.\<close>

lemma object_equal:
  assumes "distinct (map fst rs)" "distinct (map fst bs)" "\<forall>k. rel_option equals_value (map_of rs k) (map_of bs k)"
  shows "equals_value (VObject f rs) (VObject g bs)"
proof -
  have "fst ` set rs = fst ` set bs"
    using assms(3) by (metis dom_map_of_conv_image_fst map_of_eq_None_iff option.rel_distinct option.collapse set_eqI)
  then have len: "length rs = length bs"
    using distinct_card [OF assms(1)] distinct_card [OF assms(2)] by simp
  have "\<exists>y. map_of bs k = Some y \<and> equals_value x y" if "(k, x) \<in> set rs" for k x
  proof -
    have "map_of rs k = Some x" using assms(1) that by simp
    then have "rel_option equals_value (Some x) (map_of bs k)" using assms(3) by metis
    then show ?thesis by (cases "map_of bs k") auto
  qed
  then show ?thesis using len unfolding equals_object by auto
qed

text \<open>The conditions are conditions on the tree.\<close>

fun tree_comparable :: "json \<Rightarrow> bool" where
  "tree_comparable (JNumber d) \<longleftrightarrow> \<not> dbl_is_nan d"
| "tree_comparable (JArray xs) \<longleftrightarrow> (\<forall>x \<in> set xs. tree_comparable x)"
| "tree_comparable (JObject ps) \<longleftrightarrow> distinct (map fst ps) \<and> (\<forall>(k, v) \<in> set ps. tree_comparable v)"
| "tree_comparable v \<longleftrightarrow> True"

fun tree_no_nulls :: "json \<Rightarrow> bool" where
  "tree_no_nulls (JObject ps) \<longleftrightarrow> (\<forall>(k, v) \<in> set ps. v \<noteq> JNull \<and> tree_no_nulls v)"
| "tree_no_nulls v \<longleftrightarrow> True"

lemma abs_null: "abs_value v = JNull \<longleftrightarrow> value_type v = NYXJ_NULL"
  by (cases v) auto

lemma map_fst_map_prod [simp]: "map (fst \<circ> map_prod id f) ps = map fst ps"
  by auto

lemma comparable_tree: "comparable v \<longleftrightarrow> tree_comparable (abs_value v)"
proof (induction v)
  case (VObject f ps)
  have "(\<forall>(k, v) \<in> set ps. comparable v) \<longleftrightarrow> (\<forall>(k, v) \<in> set ps. tree_comparable (abs_value v))"
    using VObject by fastforce
  then show ?case by (auto simp: case_prod_beta)
qed auto

lemma no_nulls_tree: "no_nulls v \<longleftrightarrow> tree_no_nulls (abs_value v)"
proof (induction v)
  case (VObject f ps)
  have "(\<forall>(k, v) \<in> set ps. value_type v \<noteq> NYXJ_NULL \<and> no_nulls v) \<longleftrightarrow>
      (\<forall>(k, v) \<in> set ps. abs_value v \<noteq> JNull \<and> tree_no_nulls (abs_value v))"
    using VObject by (fastforce simp: abs_null)
  then show ?case by (auto simp: case_prod_beta)
qed auto

text \<open>A clone is as good a tree as its original.\<close>

definition good :: "nyxj_value \<Rightarrow> bool" where
  "good v \<longleftrightarrow> comparable v \<and> no_nulls v \<and> c_strings v"

lemma clone_good:
  assumes "good v" "heap_total h"
  shows "\<exists>w h'. nyxj_clone h (Some v) = (Some w, h') \<and> heap_total h' \<and> good w \<and> value_type w = value_type v \<and> equals_value w v \<and> equals_value v w"
proof -
  obtain w h' where c: "clone_value h v = (Some w, h')" "heap_total h'"
    using clone_total(1) assms unfolding good_def by blast
  have "abs_value w = abs_value v" "c_strings w" using clone_sound(1) [OF _ c(1)] assms(1) unfolding good_def by auto
  moreover from this(1) have "value_type w = value_type v" by (cases v; cases w; auto)
  moreover from calculation(1) have g: "comparable w" "no_nulls w"
    using assms(1) unfolding good_def comparable_tree no_nulls_tree by simp_all
  moreover have "equals_value v w" "equals_value w v"
    using equals_same_tree [of v w] equals_same_tree [of w v] calculation(1) g(1) assms(1) unfolding good_def by simp_all
  moreover have "nyxj_clone h (Some v) = (Some w, h')" using c(1) by (simp add: nyxj_clone_def)
  ultimately show ?thesis using c(2) unfolding good_def by blast
qed

lemma patches_trans: "patches p x y \<Longrightarrow> equals_value y z \<Longrightarrow> patches p x z"
  unfolding patches_def by (meson equals_trans)

lemma merge_patch_scalar: "value_type p \<noteq> NYXJ_OBJECT \<Longrightarrow> merge_patch h x p = nyxj_clone h (Some p)"
  by (cases p) auto

lemma scalar_patches:
  assumes "good p" "value_type p \<noteq> NYXJ_NULL" "value_type p \<noteq> NYXJ_OBJECT"
  shows "patches p x p"
  unfolding patches_def merge_patch_scalar [OF assms(3)]
  using clone_good [OF assms(1)] assms(2) by blast

lemma map_of_distinct_mem: "distinct (map fst ps) \<Longrightarrow> (k, v) \<in> set ps \<Longrightarrow> map_of ps k = Some v"
  by simp

text \<open>A patch without nulls replaces what it cannot be merged into.\<close>

lemma good_patches:
  "good p \<Longrightarrow> value_type p \<noteq> NYXJ_NULL \<Longrightarrow> (\<forall>g qs. x \<noteq> Some (VObject g qs)) \<or> value_type p \<noteq> NYXJ_OBJECT \<Longrightarrow> patches p x p"
proof (induction p arbitrary: x)
  case (VObject f ps)
  have mem: "good v" "value_type v \<noteq> NYXJ_NULL" "no_nul k" if "(k, v) \<in> set ps" for k v
    using VObject.prems(1) that by (auto simp: good_def)
  have d: "distinct (map fst ps)" using VObject.prems(1) by (simp add: good_def)
  have sub: "patches v None v" if "(k, v) \<in> set ps" for k v
    using VObject.IH [OF that, of v None] mem [OF that] by simp
  have all: "\<forall>(k, p) \<in> set ps. no_nul k \<and> (value_type p = NYXJ_NULL \<or> patches p (map_of [] k) (the (map_of ps k)))"
    using sub mem(3) map_of_distinct_mem [OF d] by fastforce
  show ?case unfolding patches_def
  proof (intro conjI allI impI)
    fix h :: heap
    assume h: "heap_total h"
    obtain h1 where new: "nyxj_new_object h = (Some (VObject False []), h1)" "heap_total h1"
      using nyxj_new_object_total [OF h] by blast
    obtain rs h2 where m: "merge_members h1 (VObject False []) ps = (VObject False rs, h2)" "heap_total h2"
        "merged [] ps (\<lambda>k. the (map_of ps k)) rs"
      using merge_members_spec [OF d all _ new(2)] by auto
    have "rel_option equals_value (map_of rs k) (map_of ps k)" for k
    proof (cases "map_of ps k")
      case (Some v)
      then have "value_type v \<noteq> NYXJ_NULL" using mem(2) map_of_SomeD by fastforce
      then show ?thesis using mergedD(4) [OF m(3) Some] Some by auto
    qed (use mergedD(2) [OF m(3)] in simp)
    then have "equals_value (VObject False rs) (VObject f ps)"
      using object_equal [OF mergedD(1) [OF m(3)] d] by blast
    moreover have "merge_patch h x (VObject f ps) = (Some (VObject False rs), h2)"
      using VObject.prems(3) new(1) m(1) by (auto split: option.splits nyxj_value.splits)
    ultimately show "\<exists>r h'. merge_patch h x (VObject f ps) = (Some r, h') \<and> heap_total h' \<and> equals_value r (VObject f ps)"
      using m(2) by blast
  qed simp
qed (rule scalar_patches; simp)+

text \<open>The first loop of \<open>nyxj_merge_diff\<close>.\<close>

lemma merge_gone_spec:
  assumes "heap_total h" "\<forall>(k, x) \<in> set ps. no_nul k" "distinct (map fst os)"
  shows "\<exists>gs h'. merge_gone h (VObject False os) ps to = (VObject False gs, h') \<and> heap_total h' \<and> distinct (map fst gs) \<and>
    (\<forall>k. map_of gs k = (if k \<in> fst ` set ps \<and> nyxj_get_member (Some to) k = None then Some (VNull False) else map_of os k))"
  using assms
proof (induction ps arbitrary: h os)
  case (Cons p ps)
  obtain k x where p: "p = (k, x)" by fastforce
  have k: "no_nul k" "\<forall>(k, x) \<in> set ps. no_nul k" using Cons.prems(2) p by auto
  show ?case
  proof (cases "nyxj_get_member (Some to) k = None")
    case True
    obtain h1 where n: "nyxj_new_null h = (Some (VNull False), h1)" "heap_total h1"
      using new_value_total [OF Cons.prems(1)] unfolding nyxj_new_null_def by blast
    obtain h2 where put: "nyxj_object_set h1 (VObject False os) k (Some (VNull False)) = (True, VObject False (pairs_put os k (VNull False)), h2)" "heap_total h2"
      using nyxj_object_set_put [OF n(2) k(1)] by blast
    have s: "nyxj_object_set_null h (VObject False os) k = (True, VObject False (pairs_put os k (VNull False)), h2)"
      using n(1) put(1) by (simp add: nyxj_object_set_null_def set_owned_def)
    show ?thesis
      using Cons.IH [OF put(2) k(2), of "pairs_put os k (VNull False)"] Cons.prems(3) pairs_put_distinct [of os k] True s p
      by (auto simp: map_of_pairs_put)
  next
    case False
    then show ?thesis using Cons.IH [OF Cons.prems(1) k(2) Cons.prems(3)] p by auto
  qed
qed auto

text \<open>What the diff holds for a key of \<open>to\<close>.\<close>

definition bridges :: "nyxj_value option \<Rightarrow> nyxj_value option \<Rightarrow> nyxj_value \<Rightarrow> bool" where
  "bridges d x y \<longleftrightarrow>
     (case d of None \<Rightarrow> (\<exists>x'. x = Some x' \<and> equals_value x' y) | Some p \<Rightarrow> patches p x y)"

definition diff_ok :: "nyxj_value \<Rightarrow> nyxj_value \<Rightarrow> bool" where
  "diff_ok a b \<longleftrightarrow>
     (\<forall>h. heap_total h \<longrightarrow> (\<exists>p h'. merge_diff h a b = (Some p, h') \<and> heap_total h' \<and> patches p (Some a) b))"

lemma merge_diff_step:
  assumes "heap_total h" "no_nul k" "distinct (map fst os)" "map_of os k = None" "good y" "value_type y \<noteq> NYXJ_NULL"
    "\<And>x. nyxj_get_member (Some a) k = Some x \<Longrightarrow> value_type x = NYXJ_OBJECT \<Longrightarrow> value_type y = NYXJ_OBJECT \<Longrightarrow> diff_ok x y"
  shows "\<exists>ds h'. heap_total h' \<and> distinct (map fst ds) \<and> bridges (map_of ds k) (nyxj_get_member (Some a) k) y \<and>
    (\<forall>j. j \<noteq> k \<longrightarrow> map_of ds j = map_of os j) \<and>
    (case nyxj_get_member (Some a) k of
       None \<Rightarrow> (let (v, h) = nyxj_clone h (Some y) in snd (nyxj_object_set h (VObject False os) k v))
     | Some x \<Rightarrow>
         if nyxj_equals False (Some x) (Some y) then (VObject False os, h)
         else if value_type x = NYXJ_OBJECT \<and> value_type y = NYXJ_OBJECT
         then let (v, h) = merge_diff h x y in snd (nyxj_object_set h (VObject False os) k v)
         else let (v, h) = nyxj_clone h (Some y) in snd (nyxj_object_set h (VObject False os) k v)) = (VObject False ds, h')"
proof -
  have put: "\<exists>h2. nyxj_object_set h1 (VObject False os) k (Some p) = (True, VObject False (pairs_put os k p), h2) \<and> heap_total h2"
    if "heap_total h1" for h1 p using nyxj_object_set_put [OF that assms(2)] by blast
  have ds: "distinct (map fst (pairs_put os k p))" "map_of (pairs_put os k p) k = Some p"
    "j \<noteq> k \<Longrightarrow> map_of (pairs_put os k p) j = map_of os j" for p j
    using pairs_put_distinct [OF assms(3)] by (simp_all add: map_of_pairs_put)
  obtain w h1 where w: "nyxj_clone h (Some y) = (Some w, h1)" "heap_total h1" "good w" "value_type w = value_type y" "equals_value w y"
    using clone_good [OF assms(5,1)] by blast
  obtain h2 where pw: "nyxj_object_set h1 (VObject False os) k (Some w) = (True, VObject False (pairs_put os k w), h2)" "heap_total h2"
    using put [OF w(2)] by blast
  have wp: "patches w x y" if "(\<forall>g qs. x \<noteq> Some (VObject g qs)) \<or> value_type y \<noteq> NYXJ_OBJECT" for x
    using patches_trans [OF good_patches [OF w(3)] w(5)] w(4) assms(6) that by simp
  show ?thesis
  proof (cases "nyxj_get_member (Some a) k")
    case None
    have "bridges (Some w) None y" using wp [of None] by (simp add: bridges_def)
    then show ?thesis using None w(1) pw by (intro exI [of _ "pairs_put os k w"] exI [of _ h2]) (simp add: ds del: nyxj_object_set.simps)
  next
    case (Some x)
    consider "equals_value x y" | "\<not> equals_value x y" "value_type x = NYXJ_OBJECT \<and> value_type y = NYXJ_OBJECT"
      | "\<not> equals_value x y" "\<not> (value_type x = NYXJ_OBJECT \<and> value_type y = NYXJ_OBJECT)" by blast
    then show ?thesis
    proof cases
      case 1
      then have "bridges None (Some x) y" by (simp add: bridges_def)
      then show ?thesis using Some 1 assms(1,3,4) by (intro exI [of _ os] exI [of _ h]) (simp add: nyxj_equals_def)
    next
      case 2
      then obtain p h3 where p: "merge_diff h x y = (Some p, h3)" "heap_total h3" "patches p (Some x) y"
        using assms(7) [OF Some] assms(1) unfolding diff_ok_def by blast
      obtain h4 where pp: "nyxj_object_set h3 (VObject False os) k (Some p) = (True, VObject False (pairs_put os k p), h4)" "heap_total h4"
        using put [OF p(2)] by blast
      show ?thesis using Some 2 p pp
        by (intro exI [of _ "pairs_put os k p"] exI [of _ h4])
          (simp add: ds bridges_def nyxj_equals_def del: merge_diff.simps nyxj_object_set.simps)
    next
      case 3
      then have "patches w (Some x) y" using wp by (cases x) auto
      then show ?thesis using Some 3 w(1) pw
        by (intro exI [of _ "pairs_put os k w"] exI [of _ h2])
          (auto simp add: ds bridges_def nyxj_equals_def simp del: nyxj_object_set.simps)
    qed
  qed
qed

lemma merge_diff_members_spec:
  assumes "heap_total h" "distinct (map fst os)" "distinct (map fst qs)" "\<forall>(k, y) \<in> set qs. map_of os k = None"
    "\<forall>(k, y) \<in> set qs. no_nul k \<and> good y \<and> value_type y \<noteq> NYXJ_NULL"
    "\<forall>(k, y) \<in> set qs. \<forall>x. nyxj_get_member (Some a) k = Some x \<longrightarrow> value_type x = NYXJ_OBJECT \<longrightarrow> value_type y = NYXJ_OBJECT \<longrightarrow> diff_ok x y"
  shows "\<exists>ds h'. merge_diff_members h (VObject False os) a qs = (VObject False ds, h') \<and> heap_total h' \<and> distinct (map fst ds) \<and>
    (\<forall>k. case map_of qs k of None \<Rightarrow> map_of ds k = map_of os k | Some y \<Rightarrow> bridges (map_of ds k) (nyxj_get_member (Some a) k) y)"
  using assms
proof (induction qs arbitrary: h os)
  case (Cons q qs)
  obtain k y where q: "q = (k, y)" by fastforce
  have k: "no_nul k" "good y" "value_type y \<noteq> NYXJ_NULL" "map_of os k = None" using Cons.prems(4,5) q by auto
  have sub: "diff_ok x y" if "nyxj_get_member (Some a) k = Some x" "value_type x = NYXJ_OBJECT" "value_type y = NYXJ_OBJECT" for x
    using Cons.prems(6) q that by simp
  note step = merge_diff_step [OF Cons.prems(1) k(1) Cons.prems(2) k(4) k(2,3) sub]
  obtain ds1 h1 where S: "heap_total h1" "distinct (map fst ds1)" "bridges (map_of ds1 k) (nyxj_get_member (Some a) k) y"
      "\<forall>j. j \<noteq> k \<longrightarrow> map_of ds1 j = map_of os j"
    and M: "merge_diff_members h (VObject False os) a (q # qs) = merge_diff_members h1 (VObject False ds1) a qs"
    using step unfolding q merge_diff_members.simps by (smt (verit, best) case_prod_conv)
  have kq: "k \<notin> fst ` set qs" using Cons.prems(3) q by auto
  then have kq': "map_of qs k = None" by (simp add: map_of_eq_None_iff)
  have "\<forall>(j, z) \<in> set qs. map_of ds1 j = None"
  proof (rule ballI, clarify)
    fix j z
    assume j: "(j, z) \<in> set qs"
    then have "j \<noteq> k" using kq by force
    then show "map_of ds1 j = None" using S(4) Cons.prems(4) j q by auto
  qed
  then obtain ds h' where R: "merge_diff_members h1 (VObject False ds1) a qs = (VObject False ds, h')" "heap_total h'" "distinct (map fst ds)"
    "\<forall>j. case map_of qs j of None \<Rightarrow> map_of ds j = map_of ds1 j | Some y \<Rightarrow> bridges (map_of ds j) (nyxj_get_member (Some a) j) y"
    using Cons.IH [OF S(1,2)] Cons.prems(3,5,6) q by auto
  have "case map_of (q # qs) j of None \<Rightarrow> map_of ds j = map_of os j | Some y \<Rightarrow> bridges (map_of ds j) (nyxj_get_member (Some a) j) y" for j
  proof (cases "j = k")
    case True
    then show ?thesis using R(4) [rule_format, of k] kq' S(3) q by simp
  next
    case False
    then show ?thesis using R(4) [rule_format, of j] S(4) q by (simp split: option.splits)
  qed
  then show ?case using R(1-3) M by auto
qed auto

lemma merge_diff_object:
  assumes "distinct (map fst ps)" "distinct (map fst qs)" "\<forall>(k, x) \<in> set ps. no_nul k"
    "\<forall>(k, y) \<in> set qs. no_nul k \<and> good y \<and> value_type y \<noteq> NYXJ_NULL"
    "\<forall>(k, y) \<in> set qs. \<forall>x. map_of ps k = Some x \<longrightarrow> diff_ok x y" "heap_total h"
  shows "\<exists>p h'. merge_diff h (VObject False ps) (VObject g qs) = (Some p, h') \<and> heap_total h' \<and>
    patches p (Some (VObject False ps)) (VObject g qs)"
proof -
  let ?a = "VObject False ps" and ?Y = "\<lambda>k. the (map_of qs k)"
  obtain h1 where new: "nyxj_new_object h = (Some (VObject False []), h1)" "heap_total h1"
    using nyxj_new_object_total [OF assms(6)] by blast
  obtain gs h2 where gone: "merge_gone h1 (VObject False []) ps (VObject g qs) = (VObject False gs, h2)" "heap_total h2" "distinct (map fst gs)"
      and gs: "map_of gs k = (if k \<in> fst ` set ps \<and> map_of qs k = None then Some (VNull False) else None)" for k
    using merge_gone_spec [OF new(2) assms(3), of "[]" "VObject g qs"] by auto
  have free: "\<forall>(k, y) \<in> set qs. map_of gs k = None" using assms(2) by (auto simp: gs)
  have sub: "\<forall>(k, y) \<in> set qs. \<forall>x. nyxj_get_member (Some ?a) k = Some x \<longrightarrow> value_type x = NYXJ_OBJECT \<longrightarrow>
      value_type y = NYXJ_OBJECT \<longrightarrow> diff_ok x y"
    using assms(5) by fastforce
  obtain ds h3 where D: "merge_diff_members h2 (VObject False gs) ?a qs = (VObject False ds, h3)" "heap_total h3" "distinct (map fst ds)"
    and ds: "\<forall>k. case map_of qs k of None \<Rightarrow> map_of ds k = map_of gs k | Some y \<Rightarrow> bridges (map_of ds k) (map_of ps k) y"
    using merge_diff_members_spec [OF gone(2,3) assms(2) free assms(4) sub] unfolding nyxj_get_member.simps by blast
  have keep: "no_nul k \<and> (value_type d = NYXJ_NULL \<or> patches d (map_of ps k) (?Y k))" if "(k, d) \<in> set ds" for k d
  proof (cases "map_of qs k")
    case None
    then have "map_of gs k = Some d" using ds map_of_distinct_mem [OF D(3) that] by (metis option.simps(4))
    then have "d = VNull False" "k \<in> fst ` set ps" by (auto simp: gs split: if_splits)
    then show ?thesis using assms(3) by auto
  next
    case (Some y)
    then have "bridges (map_of ds k) (map_of ps k) y" using ds by (metis option.simps(5))
    then have "patches d (map_of ps k) y" using map_of_distinct_mem [OF D(3) that] by (simp add: bridges_def)
    moreover have "no_nul k" using assms(4) map_of_SomeD [OF Some] by auto
    ultimately show ?thesis using Some by simp
  qed
  have "patches (VObject False ds) (Some ?a) (VObject g qs)"
    unfolding patches_def
  proof (intro conjI allI impI)
    fix h :: heap
    assume "heap_total h"
    then obtain rs h' where m: "merge_members h ?a ds = (VObject False rs, h')" "heap_total h'" "merged ps ds ?Y rs"
      using merge_members_spec [OF D(3) _ assms(1), of ?Y h] keep by fastforce
    have "rel_option equals_value (map_of rs k) (map_of qs k)" for k
    proof (cases "map_of ds k")
      case None
      then have rs: "map_of rs k = map_of ps k" by (rule mergedD(2) [OF m(3)])
      show ?thesis
      proof (cases "map_of qs k")
        case None
        then have "map_of gs k = None" using ds \<open>map_of ds k = None\<close> by (metis option.simps(4))
        then have "k \<notin> fst ` set ps" using None gs [of k] by (auto split: if_splits)
        then have "map_of ps k = None" by (simp add: map_of_eq_None_iff)
        then show ?thesis using rs None by simp
      next
        case (Some y)
        then have "bridges None (map_of ps k) y" using ds \<open>map_of ds k = None\<close> by (metis option.simps(5))
        then show ?thesis using rs Some by (auto simp: bridges_def)
      qed
    next
      case (Some d)
      show ?thesis
      proof (cases "map_of qs k")
        case None
        then have "map_of gs k = Some d" using ds Some by (metis option.simps(4))
        then have "d = VNull False" by (auto simp: gs split: if_splits)
        then show ?thesis using mergedD(3) [OF m(3) Some] None by simp
      next
        case y: (Some y)
        then have "bridges (map_of ds k) (map_of ps k) y" using ds by (metis option.simps(5))
        then have "patches d (map_of ps k) y" using Some by (simp add: bridges_def)
        then have "value_type d \<noteq> NYXJ_NULL" by (simp add: patches_def)
        then obtain r where "map_of rs k = Some r" "equals_value r (?Y k)" using mergedD(4) [OF m(3) Some] by blast
        then show ?thesis using y by simp
      qed
    qed
    then have "equals_value (VObject False rs) (VObject g qs)"
      using object_equal [OF mergedD(1) [OF m(3)] assms(2)] by blast
    moreover have "merge_patch h (Some ?a) (VObject False ds) = (Some (VObject False rs), h')" using m(1) by simp
    ultimately show "\<exists>r h'. merge_patch h (Some ?a) (VObject False ds) = (Some r, h') \<and> heap_total h' \<and> equals_value r (VObject g qs)"
      using m(2) by blast
  qed simp
  moreover have "merge_diff h ?a (VObject g qs) = (Some (VObject False ds), h3)"
    using new(1) gone(1) D(1) by simp
  ultimately show ?thesis using D(2) by blast
qed

lemma merge_diff_other:
  assumes "good b" "value_type b \<noteq> NYXJ_NULL" "value_type a \<noteq> NYXJ_OBJECT \<or> value_type b \<noteq> NYXJ_OBJECT"
  shows "diff_ok a b"
  unfolding diff_ok_def
proof (intro allI impI)
  fix h :: heap
  assume "heap_total h"
  then obtain w h' where w: "nyxj_clone h (Some b) = (Some w, h')" "heap_total h'" "good w" "value_type w = value_type b" "equals_value w b"
    using clone_good [OF assms(1)] by blast
  have "merge_diff h a b = nyxj_clone h (Some b)" using assms(3) by (cases a; cases b; simp)
  moreover have "patches w (Some a) b"
    using patches_trans [OF good_patches [OF w(3), of "Some a"] w(5)] assms(2,3) w(4) by (cases a) auto
  ultimately show "\<exists>p h'. merge_diff h a b = (Some p, h') \<and> heap_total h' \<and> patches p (Some a) b" using w(1,2) by auto
qed

text \<open>The diff of two trees turns the first into the second.\<close>

lemma merge_diff_ok:
  "comparable a \<Longrightarrow> c_strings a \<Longrightarrow> heap_owned a \<Longrightarrow> good b \<Longrightarrow> value_type b \<noteq> NYXJ_NULL \<Longrightarrow> diff_ok a b"
proof (induction b arbitrary: a)
  case (VObject g qs)
  show ?case
  proof (cases a)
    case a: (VObject f ps)
    have d: "distinct (map fst ps)" "distinct (map fst qs)" "\<forall>(k, x) \<in> set ps. no_nul k"
      using VObject.prems(1,2,4) a by (auto simp: good_def)
    have b: "\<forall>(k, y) \<in> set qs. no_nul k \<and> good y \<and> value_type y \<noteq> NYXJ_NULL"
      using VObject.prems(4) by (auto simp: good_def)
    have sub: "diff_ok x y" if "(k, y) \<in> set qs" "map_of ps k = Some x" for k x y
    proof (rule VObject.IH [OF that(1)])
      have x: "(k, x) \<in> set ps" using that(2) by (rule map_of_SomeD)
      show "comparable x" "c_strings x" "heap_owned x" using VObject.prems(1-3) a x by auto
      show "good y" "value_type y \<noteq> NYXJ_NULL" using b that(1) by auto
    qed simp
    have "f = False" using VObject.prems(3) a by simp
    then show ?thesis using merge_diff_object [OF d b] sub a unfolding diff_ok_def by blast
  qed (rule merge_diff_other [OF VObject.prems(4,5)]; simp)+
qed (rule merge_diff_other; simp)+

lemma merge_patch_diff_ok:
  assumes "comparable a" "c_strings a" "heap_owned a" "comparable b" "c_strings b" "no_nulls b" "value_type b \<noteq> NYXJ_NULL"
    "heap_total h"
  shows "\<exists>p h1 r h2. nyxj_merge_diff h (Some a) (Some b) = (Some p, h1) \<and>
    nyxj_merge_patch h1 (Some a) (Some p) = (Some r, h2) \<and> nyxj_equals False (Some r) (Some b)"
proof -
  have "diff_ok a b" using merge_diff_ok [OF assms(1-3) _ assms(7)] assms(4-6) by (simp add: good_def)
  then obtain p h1 where p: "merge_diff h a b = (Some p, h1)" "heap_total h1" "patches p (Some a) b"
    using assms(8) unfolding diff_ok_def by blast
  obtain r h2 where "merge_patch h1 (Some a) p = (Some r, h2)" "equals_value r b"
    using p(2,3) unfolding patches_def by blast
  then show ?thesis using p(1) by (simp add: nyxj_merge_diff_def nyxj_merge_patch_def nyxj_equals_def del: merge_diff.simps merge_patch.simps)
qed

subsection \<open>Failing patches\<close>

lemma code_error_set [simp]: "code (nyxj_error_set c f e) = c"
  by (simp add: nyxj_error_set_def)

lemma op_add_error: "op_add h doc path val e = (False, doc', e', h') \<Longrightarrow> code e' = NYXJ_ERR_PATCH_FAILED"
  unfolding op_add_def Let_def by (auto split: if_splits option.splits prod.splits nyxj_value.splits)

lemma op_detach_error: "op_detach h doc path e name = (None, doc', e', h') \<Longrightarrow> code e' = NYXJ_ERR_PATCH_FAILED"
  unfolding op_detach_def Let_def by (auto split: prod.splits)

lemma op_replace_error: "op_replace h doc path val e = (False, doc', e', h') \<Longrightarrow> code e' = NYXJ_ERR_PATCH_FAILED"
  unfolding op_replace_def Let_def by (auto split: if_splits prod.splits dest: op_add_error)

lemma op_move_error: "op_move h doc from path e = (False, doc', e', h') \<Longrightarrow> rooted path \<Longrightarrow> code e' = NYXJ_ERR_PATCH_FAILED"
  unfolding op_move_def Let_def rooted_def
  by (cases path; cases "from") (auto split: if_splits prod.splits option.splits dest: op_add_error op_detach_error)

lemma op_copy_error: "op_copy h doc from path e = (False, doc', e', h') \<Longrightarrow> code e' = NYXJ_ERR_PATCH_FAILED"
  unfolding op_copy_def by (auto split: prod.splits option.splits dest: op_add_error)

lemma op_test_error: "op_test h doc path val e = (False, doc', e', h') \<Longrightarrow> code e' = NYXJ_ERR_TEST_FAILED"
  unfolding op_test_def Let_def by (auto split: if_splits)

lemma apply_one_error:
  assumes one: "apply_one h doc op i e = (False, doc', e', h')"
  shows "code e' \<in> {NYXJ_ERR_PATCH_FAILED, NYXJ_ERR_TEST_FAILED}"
proof (cases "nyxj_get_string (Some op) ''op'' = None \<or> nyxj_get_string (Some op) ''path'' = None")
  case True
  then show ?thesis using one unfolding apply_one_def by (auto split: option.splits)
next
  case False
  then obtain name path where np: "nyxj_get_string (Some op) ''op'' = Some name" "nyxj_get_string (Some op) ''path'' = Some path"
    by (metis not_None_eq)
  define val src where "val = nyxj_get_member (Some op) ''value''" and "src = nyxj_get_string (Some op) ''from''"
  note one = one [unfolded apply_one_def np prod.case option.case Let_def, folded val_def src_def]
  consider (bad) "\<not> rooted path" | (add) "rooted path" "name = ''add''" | (remove) "rooted path" "name = ''remove''"
    | (replace) "rooted path" "name = ''replace''" | (move) "rooted path" "name = ''move''" | (copy) "rooted path" "name = ''copy''"
    | (test) "rooted path" "name = ''test''"
    | (unknown) "rooted path" "name \<noteq> ''add''" "name \<noteq> ''remove''" "name \<noteq> ''replace''" "name \<noteq> ''move''" "name \<noteq> ''copy''" "name \<noteq> ''test''"
    by metis
  then show ?thesis
  proof cases
    case bad
    then show ?thesis using one by auto
  next
    case add
    then show ?thesis using one op_add_error by (cases "nyxj_clone h val") (auto split: if_splits)
  next
    case remove
    then show ?thesis using one op_detach_error by (cases "op_detach h doc path e ''remove''") auto
  next
    case replace
    then show ?thesis using one op_replace_error by (auto split: if_splits)
  next
    case move
    then show ?thesis using one move op_move_error by (cases src) (auto split: if_splits)
  next
    case copy
    then show ?thesis using one op_copy_error by (cases src) (auto split: if_splits)
  next
    case test
    then show ?thesis using one op_test_error by simp
  next
    case unknown
    then show ?thesis using one by auto
  qed
qed

lemma patch_ops_error:
  "patch_ops h doc ops i e = (False, doc', e', h') \<Longrightarrow>
     code e' \<in> {NYXJ_ERR_PATCH_FAILED, NYXJ_ERR_TEST_FAILED}"
proof (induction ops arbitrary: h doc i e)
  case (Cons op ops)
  obtain ok d1 e1 h1 where one: "apply_one h doc op i e = (ok, d1, e1, h1)" by (metis prod_cases4)
  show ?case
  proof (cases ok)
    case True
    then show ?thesis using Cons one by auto
  next
    case False
    then have "e1 = e'" using Cons.prems one by simp
    then show ?thesis using False one apply_one_error [of h doc op i e d1 e1 h1] by auto
  qed
qed simp

lemma patch_apply_failure:
  assumes "nyxj_patch_apply h doc patch = (False, doc', e, h')"
  shows "doc' = doc \<and> code e \<noteq> NYXJ_OK"
proof -
  have main: "doc' = doc \<and> code e \<noteq> NYXJ_OK"
    if p: "doc = Some d" "patch = Some (VArray f ops n)" "nyxj_clone h doc = (Some w, h1)" for d f ops n w h1
  proof -
    obtain ok d1 e1 h2 where r: "patch_ops h1 (Some w) ops 0 no_error = (ok, d1, e1, h2)" by (metis prod_cases4)
    have "\<not> ok" "doc' = doc" "e1 = e" using assms p r by (auto simp: nyxj_patch_apply_def)
    then show ?thesis using patch_ops_error [of h1 "Some w" ops 0 no_error d1 e1 h2] r by auto
  qed
  show ?thesis
  proof (cases "\<exists>d f ops n w h1. doc = Some d \<and> patch = Some (VArray f ops n) \<and> nyxj_clone h doc = (Some w, h1)")
    case True
    then show ?thesis using main by fastforce
  next
    case False
    then show ?thesis using assms
      by (cases "nyxj_clone h doc") (auto simp: nyxj_patch_apply_def split: option.splits nyxj_value.splits)
  qed
qed

text \<open>When the copy of the new root is refused, the document becomes NULL and the patch succeeds.\<close>

lemma patch_root_refused:
  "let (ok, doc, e, h) = nyxj_patch_apply \<lparr>requests = 0, grants = (\<lambda>k n. k < 1)\<rparr> (Some (VNull False))
         (Some (VArray False [VObject False [(''op'', VString False ''add''), (''path'', VString False []), (''value'', VNull False)]] 4))
   in ok \<and> doc = None"
  by code_simp

end
