(* ===== verification/Msgpack.thy ===== *)
theory Msgpack
  imports Serializer Parser
begin

text \<open>
  \<^verbatim>\<open>src/modules/msgpack.c\<close>: the MessagePack encoder over the byte buffer, the decoder and the two
  conversions from and to JSON text.

  \<open>dctx\<close> holds the unread bytes, the size of the input, the error and the allocator. The depth counter
  goes up on entering a container and down on leaving it, and a failure ends the decoding, so it is an
  argument: \<open>left\<close> is how many more containers may be opened, \<open>MSGPACK_MAX_DEPTH - depth\<close>. A \<open>float\<close> is
  its 32-bit pattern.
\<close>

subsection \<open>Single precision\<close>

type_synonym float = "32 word"

definition flt_mag :: "float \<Rightarrow> nat" where
  "flt_mag f = unat f mod 2 ^ 31"

definition flt_sign :: "float \<Rightarrow> bool" where
  "flt_sign f \<longleftrightarrow> 2 ^ 31 \<le> unat f"

definition flt_inf_mag :: nat where
  "flt_inf_mag = 255 * 2 ^ 23"

text \<open>The value of a finite float in units of \<open>2 ^ -149\<close>.\<close>

definition flt_key :: "nat \<Rightarrow> nat" where
  "flt_key m = (let e = m div 2 ^ 23; f = m mod 2 ^ 23 in if e = 0 then f else (2 ^ 23 + f) * 2 ^ (e - 1))"

text \<open>\<open>(double)f\<close> is exact; a NaN keeps its payload and becomes quiet.\<close>

definition flt_to_dbl :: "float \<Rightarrow> double" where
  "flt_to_dbl f =
     (if flt_mag f < flt_inf_mag then dbl_of_ratio (flt_sign f) (flt_key (flt_mag f)) (2 ^ 149)
      else if flt_mag f = flt_inf_mag then dbl_pack (flt_sign f) inf_mag
      else dbl_pack (flt_sign f) (inf_mag OR 2 ^ 51 OR push_bit 29 (flt_mag f mod 2 ^ 23)))"

text \<open>\<open>(float)d\<close> rounds to nearest, ties to even, and overflows to infinity.\<close>

definition flt_of_ratio :: "nat \<Rightarrow> nat \<Rightarrow> nat" where
  "flt_of_ratio num den =
     (let q = num * 2 ^ 149; k = bits_of (q div den) - 24
      in min flt_inf_mag (k * 2 ^ 23 + round_half_even q (den * 2 ^ k)))"

definition dbl_to_flt :: "double \<Rightarrow> float" where
  "dbl_to_flt d =
     word_of_nat (of_bool (dbl_sign d) * 2 ^ 31 +
       (if dbl_is_nan d then flt_inf_mag OR 2 ^ 22 OR drop_bit 29 (dbl_mag d mod 2 ^ 52)
        else if dbl_is_inf d then flt_inf_mag
        else flt_of_ratio (mag_key (dbl_mag d)) (2 ^ 1074)))"

subsection \<open>Encoder\<close>

text \<open>The low \<open>n\<close> bytes of a 64-bit value, most significant first.\<close>

definition be_bytes :: "nat \<Rightarrow> nat \<Rightarrow> bytes" where
  "be_bytes v n = map (\<lambda>i. chr (drop_bit (8 * (n - 1 - i)) v mod 256)) [0..<n]"

definition put_be :: "nyxj_buf \<Rightarrow> nat \<Rightarrow> nat \<Rightarrow> nyxj_buf" where
  "put_be b v n = nyxj_buf_append b (be_bytes v n)"

definition put_tag :: "nyxj_buf \<Rightarrow> nat \<Rightarrow> nyxj_buf" where
  "put_tag b tag = nyxj_buf_putc b (chr tag)"

text \<open>\<open>t8\<close> is zero where the type has no 8-bit form.\<close>

definition encode_len :: "nyxj_buf \<Rightarrow> nat \<Rightarrow> nat \<Rightarrow> nat \<Rightarrow> nat \<Rightarrow> nat \<Rightarrow> nat \<Rightarrow> nyxj_buf" where
  "encode_len b n fix_base fix_max t8 t16 t32 =
     (if n \<le> fix_max \<and> fix_base \<noteq> 0 then put_tag b (fix_base OR n)
      else if t8 \<noteq> 0 \<and> n \<le> 0xFF then put_be (put_tag b t8) n 1
      else if n \<le> 0xFFFF then put_be (put_tag b t16) n 2
      else put_be (put_tag b t32) n 4)"

text \<open>The literals \<open>18446744073709551616.0\<close> and \<open>-9223372036854775808.0\<close> are \<open>2 ^ 64\<close> and \<open>- 2 ^ 63\<close>.\<close>

definition two_64 :: double where
  "two_64 = 0x43F0000000000000"

definition encode_unsigned :: "nyxj_buf \<Rightarrow> nat \<Rightarrow> nyxj_buf" where
  "encode_unsigned b u =
     (if u \<le> 0x7F then put_tag b u
      else if u \<le> 0xFF then put_be (put_tag b 0xCC) u 1
      else if u \<le> 0xFFFF then put_be (put_tag b 0xCD) u 2
      else if u \<le> 0xFFFFFFFF then put_be (put_tag b 0xCE) u 4
      else put_be (put_tag b 0xCF) u 8)"

text \<open>\<open>(uint64_t)i\<close>.\<close>

definition as_uint64 :: "int \<Rightarrow> nat" where
  "as_uint64 i = nat (i mod 2 ^ 64)"

definition encode_negative :: "nyxj_buf \<Rightarrow> int \<Rightarrow> nyxj_buf" where
  "encode_negative b i =
     (if - 32 \<le> i then put_tag b (nat (i mod 256))
      else if - 128 \<le> i then put_be (put_tag b 0xD0) (as_uint64 i) 1
      else if - 32768 \<le> i then put_be (put_tag b 0xD1) (as_uint64 i) 2
      else if - 2147483648 \<le> i then put_be (put_tag b 0xD2) (as_uint64 i) 4
      else put_be (put_tag b 0xD3) (as_uint64 i) 8)"

definition encode_number :: "nyxj_buf \<Rightarrow> double \<Rightarrow> nyxj_buf" where
  "encode_number b d =
     (if dbl_le 0 d \<and> dbl_less d two_64 \<and> dbl_eq d (dbl_of_nat (nat (dbl_trunc d)))
      then encode_unsigned b (nat (dbl_trunc d))
      else if dbl_less d 0 \<and> dbl_le (dbl_neg two_63) d \<and> dbl_eq d (dbl_of_int (dbl_trunc d))
      then encode_negative b (dbl_trunc d)
      else let f = dbl_to_flt d
           in if dbl_eq (flt_to_dbl f) d then put_be (put_tag b 0xCA) (unat f) 4
              else put_be (put_tag b 0xCB) (unat d) 8)"

definition encode_str :: "nyxj_buf \<Rightarrow> string \<Rightarrow> nyxj_buf" where
  "encode_str b s =
     (let n = length (cstr s) in nyxj_buf_append (encode_len b n 0xA0 31 0xD9 0xDA 0xDB) (take n s))"

fun encode_value :: "nyxj_buf \<Rightarrow> nyxj_value \<Rightarrow> nyxj_buf"
  and encode_items :: "nyxj_buf \<Rightarrow> nyxj_value list \<Rightarrow> nyxj_buf"
  and encode_members :: "nyxj_buf \<Rightarrow> (string \<times> nyxj_value) list \<Rightarrow> nyxj_buf"
where
  "encode_value b (VNull _) = put_tag b 0xC0"
| "encode_value b (VBool _ x) = put_tag b (if x then 0xC3 else 0xC2)"
| "encode_value b (VNumber _ n) = encode_number b n"
| "encode_value b (VString _ s) = encode_str b s"
| "encode_value b (VArray _ xs _) = encode_items (encode_len b (length xs) 0x90 15 0 0xDC 0xDD) xs"
| "encode_value b (VObject _ ps) = encode_members (encode_len b (length ps) 0x80 15 0 0xDE 0xDF) ps"
| "encode_items b [] = b"
| "encode_items b (x # xs) = encode_items (encode_value b x) xs"
| "encode_members b [] = b"
| "encode_members b ((k, x) # ps) = encode_members (encode_value (encode_str b k) x) ps"

definition nyxj_msgpack_encode :: "heap \<Rightarrow> nyxj_value option \<Rightarrow> bytes option \<times> heap" where
  "nyxj_msgpack_encode h v =
     (let b = nyxj_buf_init h 256;
          b = (case v of None \<Rightarrow> put_tag b 0xC0 | Some v \<Rightarrow> encode_value b v);
          (t, b) = nyxj_buf_detach b
      in (t, buf_mem b))"

subsection \<open>Decoder\<close>

definition MSGPACK_MAX_DEPTH :: nat where
  "MSGPACK_MAX_DEPTH = nat default_max_depth"

record dctx =
  unread :: bytes
  total :: nat
  derr :: nyxj_error
  dmem :: heap

text \<open>\<open>dfail\<close>: the first error is kept.\<close>

definition dfail :: "dctx \<Rightarrow> string \<Rightarrow> dctx" where
  "dfail c what =
     (if code (derr c) = NYXJ_OK
      then let n = total c - length (unread c)
           in c\<lparr>derr := (nyxj_error_set NYXJ_ERR_MSGPACK (Some (what @ '' at byte '' @ dec_nat n)) (derr c))\<lparr>offset := n\<rparr>\<rparr>
      else c)"

definition need :: "dctx \<Rightarrow> nat \<Rightarrow> bool" where
  "need c n \<longleftrightarrow> n \<le> length (unread c)"

definition be_value :: "bytes \<Rightarrow> nat" where
  "be_value s = foldl (\<lambda>v c. push_bit 8 v OR byte c) 0 s"

definition skip :: "nat \<Rightarrow> dctx \<Rightarrow> dctx" where
  "skip n c = c\<lparr>unread := drop n (unread c)\<rparr>"

definition get_be :: "dctx \<Rightarrow> nat \<Rightarrow> nat \<times> dctx" where
  "get_be c n = (be_value (take n (unread c)), skip n c)"

definition decode_raw :: "dctx \<Rightarrow> nat \<Rightarrow> string option \<times> dctx" where
  "decode_raw c n =
     (if \<not> need c n then (None, dfail c ''truncated string'')
      else case nyxj_strndup (dmem c) (unread c) n of
        (None, h) \<Rightarrow> (None, c\<lparr>dmem := h, derr := nyxj_error_set NYXJ_ERR_OUT_OF_MEMORY None (derr c)\<rparr>)
      | (Some s, h) \<Rightarrow> (Some s, skip n (c\<lparr>dmem := h\<rparr>)))"

definition read_len :: "dctx \<Rightarrow> nat \<Rightarrow> nat option \<times> dctx" where
  "read_len c n = (if \<not> need c n then (None, c) else (let (v, c) = get_be c n in (Some v, c)))"

text \<open>A value that needs no more than one allocation of a node.\<close>

definition with_mem :: "dctx \<Rightarrow> nyxj_value option \<times> heap \<Rightarrow> nyxj_value option \<times> dctx" where
  "with_mem c r = (fst r, c\<lparr>dmem := snd r\<rparr>)"

definition decode_string_n :: "dctx \<Rightarrow> nat \<Rightarrow> nyxj_value option \<times> dctx" where
  "decode_string_n c n =
     (case decode_raw c n of
        (None, c) \<Rightarrow> (None, c)
      | (Some s, c) \<Rightarrow>
          (case with_mem c (nyxj_new_null (dmem c)) of
             (None, c) \<Rightarrow> (None, c)
           | (Some _, c) \<Rightarrow> (Some (VString False s), c)))"

text \<open>\<open>(intN_t)\<close> of an N-bit value.\<close>

definition signed_of :: "nat \<Rightarrow> nat \<Rightarrow> int" where
  "signed_of bits v = (if v < 2 ^ (bits - 1) then int v else int v - 2 ^ bits)"

text \<open>The number cases of \<open>decode_value\<close>: how many bytes follow the tag, and what they mean.\<close>

definition number_tag :: "nat \<Rightarrow> (nat \<times> (nat \<Rightarrow> double)) option" where
  "number_tag t =
     (if t = 0xCA then Some (4, \<lambda>v. flt_to_dbl (word_of_nat v))
      else if t = 0xCB then Some (8, \<lambda>v. word_of_nat v)
      else if t = 0xCC then Some (1, dbl_of_nat)
      else if t = 0xCD then Some (2, dbl_of_nat)
      else if t = 0xCE then Some (4, dbl_of_nat)
      else if t = 0xCF then Some (8, dbl_of_nat)
      else if t = 0xD0 then Some (1, \<lambda>v. dbl_of_int (signed_of 8 v))
      else if t = 0xD1 then Some (2, \<lambda>v. dbl_of_int (signed_of 16 v))
      else if t = 0xD2 then Some (4, \<lambda>v. dbl_of_int (signed_of 32 v))
      else if t = 0xD3 then Some (8, \<lambda>v. dbl_of_int (signed_of 64 v))
      else None)"

text \<open>The length prefix of the string, array and map cases: its bytes.\<close>

definition length_tag :: "nat \<Rightarrow> (nyxj_type \<times> nat) option" where
  "length_tag t =
     (if t = 0xC4 \<or> t = 0xD9 then Some (NYXJ_STRING, 1)
      else if t = 0xC5 \<or> t = 0xDA then Some (NYXJ_STRING, 2)
      else if t = 0xC6 \<or> t = 0xDB then Some (NYXJ_STRING, 4)
      else if t = 0xDC then Some (NYXJ_ARRAY, 2)
      else if t = 0xDD then Some (NYXJ_ARRAY, 4)
      else if t = 0xDE then Some (NYXJ_OBJECT, 2)
      else if t = 0xDF then Some (NYXJ_OBJECT, 4)
      else None)"

text \<open>What a tag byte announces: a length to read, or the length in the tag itself.\<close>

definition fixed_tag :: "nat \<Rightarrow> (nyxj_type \<times> nat) option" where
  "fixed_tag t =
     (if t AND 0xF0 = 0x80 then Some (NYXJ_OBJECT, t AND 0x0F)
      else if t AND 0xF0 = 0x90 then Some (NYXJ_ARRAY, t AND 0x0F)
      else if t AND 0xE0 = 0xA0 then Some (NYXJ_STRING, t AND 0x1F)
      else None)"

text \<open>\<open>decode_container\<close> is \<open>decode_array_n\<close> and \<open>decode_map_n\<close>, which differ in their loop.\<close>

function (sequential) decode_value :: "nat \<Rightarrow> dctx \<Rightarrow> nyxj_value option \<times> dctx"
  and decode_container :: "nat \<Rightarrow> nyxj_type \<Rightarrow> nat \<Rightarrow> dctx \<Rightarrow> nyxj_value option \<times> dctx"
  and decode_items :: "nat \<Rightarrow> nat \<Rightarrow> nyxj_value \<Rightarrow> dctx \<Rightarrow> nyxj_value option \<times> dctx"
  and decode_members :: "nat \<Rightarrow> nat \<Rightarrow> nyxj_value \<Rightarrow> dctx \<Rightarrow> nyxj_value option \<times> dctx"
  and decode_key :: "nat \<Rightarrow> dctx \<Rightarrow> string option \<times> dctx"
where
  "decode_value left c =
     (if \<not> need c 1 then (None, dfail c ''unexpected end of data'')
      else let at_tag = c; t = byte (hd (unread c)); c = skip 1 c
           in if t \<le> 0x7F then with_mem c (nyxj_new_number (dmem c) (dbl_of_nat t))
              else if 0xE0 \<le> t then with_mem c (nyxj_new_number (dmem c) (dbl_of_int (signed_of 8 t)))
              else case fixed_tag t of
                Some (k, n) \<Rightarrow> (if k = NYXJ_STRING then decode_string_n c n else decode_container left k n c)
              | None \<Rightarrow>
                  if t = 0xC0 then with_mem c (nyxj_new_null (dmem c))
                  else if t = 0xC2 then with_mem c (nyxj_new_bool (dmem c) False)
                  else if t = 0xC3 then with_mem c (nyxj_new_bool (dmem c) True)
                  else case number_tag t of
                    Some (n, f) \<Rightarrow>
                      (if \<not> need c n then (None, dfail c ''truncated value'')
                       else let (v, c) = get_be c n in with_mem c (nyxj_new_number (dmem c) (f v)))
                  | None \<Rightarrow>
                      (case length_tag t of
                         Some (k, n) \<Rightarrow>
                           (case read_len c n of
                              (None, c) \<Rightarrow> (None, dfail c ''truncated value'')
                            | (Some n, c) \<Rightarrow> (if k = NYXJ_STRING then decode_string_n c n else decode_container left k n c))
                       | None \<Rightarrow>
                           (None, dfail at_tag (if t = 0xC1 then ''reserved type 0xC1'' else ''extension types are not supported''))))"
| "decode_container left k n c =
     (if length (unread c) < n
      then (None, dfail c (if k = NYXJ_ARRAY then ''array length exceeds the input'' else ''map length exceeds the input''))
      else case left of
        0 \<Rightarrow> (None, dfail c ''maximum nesting depth exceeded'')
      | Suc left \<Rightarrow>
          (case with_mem c (if k = NYXJ_ARRAY then nyxj_new_array (dmem c) else nyxj_new_object (dmem c)) of
             (None, c) \<Rightarrow> (None, c)
           | (Some v, c) \<Rightarrow> (if k = NYXJ_ARRAY then decode_items left n v c else decode_members left n v c)))"
| "decode_items left 0 arr c = (Some arr, c)"
| "decode_items left (Suc n) arr c =
     (case decode_value left c of
        (None, c) \<Rightarrow> (None, c)
      | (Some item, c) \<Rightarrow>
          (let (ok, arr, h) = nyxj_array_push (dmem c) arr (Some item); c = c\<lparr>dmem := h\<rparr>
           in if ok then decode_items left n arr c else (None, c)))"
| "decode_members left 0 ob c = (Some ob, c)"
| "decode_members left (Suc n) ob c =
     (case decode_key left c of
        (None, c) \<Rightarrow> (None, c)
      | (Some key, c) \<Rightarrow>
          (case decode_value left c of
             (None, c) \<Rightarrow> (None, c)
           | (Some val, c) \<Rightarrow>
               (let (ok, ob, h) = nyxj_object_set (dmem c) ob key (Some val); c = c\<lparr>dmem := h\<rparr>
                in if ok then decode_members left n ob c else (None, c))))"
| "decode_key left c =
     (if \<not> need c 1 then (None, dfail c ''truncated map key'')
      else let t = byte (hd (unread c))
           in if t AND 0xE0 = 0xA0 then decode_raw (skip 1 c) (t AND 0x1F)
              else case length_tag t of
                Some (NYXJ_STRING, n) \<Rightarrow>
                  (case read_len (skip 1 c) n of
                     (None, c) \<Rightarrow> (None, dfail c ''truncated map key'')
                   | (Some n, c) \<Rightarrow> decode_raw c n)
              | _ \<Rightarrow>
                  (case decode_value left c of
                     (None, c) \<Rightarrow> (None, c)
                   | (Some k, c) \<Rightarrow> (let (s, h) = nyxj_serialize (dmem c) (Some k) in (s, c\<lparr>dmem := h\<rparr>))))"
  by pat_completeness auto
termination
  by (relation "measures [
        \<lambda>x. case x of Inl (Inl (left, c)) \<Rightarrow> left | Inl (Inr (left, k, n, c)) \<Rightarrow> left
              | Inr (Inl (left, n, v, c)) \<Rightarrow> left | Inr (Inr (Inl (left, n, v, c))) \<Rightarrow> left | Inr (Inr (Inr (left, c))) \<Rightarrow> left,
        \<lambda>x. case x of Inl (Inl _) \<Rightarrow> 1 | Inl (Inr _) \<Rightarrow> 0 | Inr (Inl (left, n, v, c)) \<Rightarrow> n + 3
              | Inr (Inr (Inl (left, n, v, c))) \<Rightarrow> n + 3 | Inr (Inr (Inr _)) \<Rightarrow> 2]") auto

declare decode_value.simps [simp del] decode_container.simps [simp del] decode_key.simps [simp del]

text \<open>The tree and the error; the allocator afterwards is in the context.\<close>

definition decode_context :: "heap \<Rightarrow> bytes \<Rightarrow> dctx" where
  "decode_context h data = \<lparr>unread = data, total = length data, derr = no_error, dmem = h\<rparr>"

definition nyxj_msgpack_decode :: "heap \<Rightarrow> bytes option \<Rightarrow> nyxj_value option \<times> nyxj_error \<times> heap" where
  "nyxj_msgpack_decode h data =
     (case data of
        None \<Rightarrow> (None, nyxj_error_set NYXJ_ERR_NULL_INPUT None no_error, h)
      | Some data \<Rightarrow>
          (let (v, c) = decode_value MSGPACK_MAX_DEPTH (decode_context h data)
           in if v \<noteq> None \<and> unread c \<noteq> []
              then (None, derr (dfail c ''trailing bytes after the value''), dmem c)
              else (v, derr c, dmem c)))"

definition nyxj_json_to_msgpack :: "simd_backend \<Rightarrow> heap \<Rightarrow> bytes option \<Rightarrow> (nyxj_error + bytes option) \<times> heap" where
  "nyxj_json_to_msgpack b h json =
     (let r = nyxj_parse_ex b h json None
      in if \<not> is_valid r then (Inl (error r), heap_after r)
         else let (out, h) = nyxj_msgpack_encode (heap_after r) (root r) in (Inr out, h))"

definition nyxj_msgpack_to_json :: "heap \<Rightarrow> bytes option \<Rightarrow> bytes option \<times> nyxj_error \<times> heap" where
  "nyxj_msgpack_to_json h data =
     (case nyxj_msgpack_decode h data of
        (None, e, h) \<Rightarrow> (None, e, h)
      | (Some v, e, h) \<Rightarrow> (let (out, h) = nyxj_serialize h (Some v) in (out, e, h)))"

end
