(* ===== verification/Msgpack_Facts.thy ===== *)
theory Msgpack_Facts
  imports Msgpack Value_Facts Buf_Facts Text_Facts
begin

text \<open>
  What \<^verbatim>\<open>src/modules/msgpack.c\<close> guarantees: decoding an encoded tree gives the tree back, with the one
  change that a negative zero becomes a zero.
\<close>

subsection \<open>Big-endian numbers\<close>

lemma be_bytes_Suc: "be_bytes v (Suc n) = chr (v div 2 ^ (8 * n) mod 256) # be_bytes v n"
  by (simp add: be_bytes_def upt_conv_Cons map_Suc_upt [symmetric] drop_bit_eq_div o_def del: upt_Suc)

lemma be_bytes_0 [simp]: "be_bytes v 0 = []"
  by (simp add: be_bytes_def)

lemma length_be_bytes [simp]: "length (be_bytes v n) = n"
  by (simp add: be_bytes_def)

lemma be_value_Nil [simp]: "be_value [] = 0"
  by (simp add: be_value_def)

lemma push_or_byte: "push_bit 8 v OR byte c = v * 256 + byte c"
  using or_low_bits [of "byte c" 8 v] byte_less [of c] by (simp add: push_bit_eq_mult)

lemma foldl_be: "foldl (\<lambda>v c. push_bit 8 v OR byte c) a s = a * 256 ^ length s + be_value s"
proof (induction s arbitrary: a)
  case (Cons c s)
  have "be_value (c # s) = byte c * 256 ^ length s + be_value s"
    using Cons [of "byte c"] by (simp add: be_value_def)
  then show ?case using Cons [of "a * 256 + byte c"] by (simp only: foldl_Cons push_or_byte) (simp add: algebra_simps)
qed simp

lemma be_value_Cons: "be_value (c # s) = byte c * 256 ^ length s + be_value s"
  using foldl_be [of "byte c" s] by (simp add: be_value_def)

lemma be_value_bytes: "be_value (be_bytes v n) = v mod 2 ^ (8 * n)"
proof (induction n)
  case (Suc n)
  have p: "(2::nat) ^ (8 * Suc n) = 2 ^ (8 * n) * 256" "(256::nat) ^ n = 2 ^ (8 * n)" by (simp_all add: power_add power_mult)
  have b: "byte (chr (v div 2 ^ (8 * n) mod 256)) = v div 2 ^ (8 * n) mod 256" by simp
  show ?case unfolding be_bytes_Suc be_value_Cons Suc.IH length_be_bytes p b mod_mult2_eq by simp
qed simp

subsection \<open>What a text decodes to\<close>

definition decodes :: "nat \<Rightarrow> bytes \<Rightarrow> json \<Rightarrow> bool" where
  "decodes left t w \<longleftrightarrow> t \<noteq> [] \<and>
     (\<forall>c q. unread c = t @ q \<longrightarrow> heap_total (dmem c) \<longrightarrow>
        (\<exists>v h. decode_value left c = (Some v, c\<lparr>unread := q, dmem := h\<rparr>) \<and> heap_total h \<and> abs_value v = w))"

definition decodes_key :: "nat \<Rightarrow> bytes \<Rightarrow> string \<Rightarrow> bool" where
  "decodes_key left t s \<longleftrightarrow>
     (\<forall>c q. unread c = t @ q \<longrightarrow> heap_total (dmem c) \<longrightarrow>
        (\<exists>h. decode_key left c = (Some s, c\<lparr>unread := q, dmem := h\<rparr>) \<and> heap_total h))"

lemma with_mem_total:
  assumes "heap_total (dmem c)"
  shows "\<exists>h. with_mem c (new_value (dmem c) v) = (Some v, c\<lparr>dmem := h\<rparr>) \<and> heap_total h"
  using new_value_total [OF assms, of v] by (auto simp: with_mem_def)

lemma with_mem_unread:
  assumes "heap_total (dmem c)"
  shows "\<exists>w h. with_mem (c\<lparr>unread := q\<rparr>) (new_value (dmem (c\<lparr>unread := q\<rparr>)) v) = (Some w, c\<lparr>unread := q, dmem := h\<rparr>) \<and>
    heap_total h \<and> abs_value w = abs_value v"
  using with_mem_total [of "c\<lparr>unread := q\<rparr>" v] assms by auto

lemma skip_append [simp]: "unread c = x # q \<Longrightarrow> skip 1 c = c\<lparr>unread := q\<rparr>"
  by (simp add: skip_def)

lemma number_tag_tags: "number_tag t = Some x \<Longrightarrow> 0xCA \<le> t \<and> t \<le> 0xD3"
  by (auto simp: number_tag_def split: if_splits)

lemma tag_ranges:
  "\<forall>t \<in> set [0xC0..<0xE0]. fixed_tag t = None"
  "list_all (\<lambda>n. fixed_tag (0x80 OR n) = Some (NYXJ_OBJECT, n) \<and> fixed_tag (0x90 OR n) = Some (NYXJ_ARRAY, n) \<and>
     0x80 OR n = 128 + n \<and> 0x90 OR n = 144 + n) [0..<16]"
  "list_all (\<lambda>n. fixed_tag (0xA0 OR n) = Some (NYXJ_STRING, n) \<and> 0xA0 OR n = 160 + n \<and> (160 + n) AND 0xE0 = 0xA0 \<and> (160 + n) AND 0x1F = n) [0..<32]"
  by (simp_all add: fixed_tag_def upt_rec [of 0] upt_rec [of 1] Suc_1 del: One_nat_def flip: One_nat_def)

lemma fixed_tag_none: "0xC0 \<le> t \<Longrightarrow> t < 0xE0 \<Longrightarrow> fixed_tag t = None"
  using bspec [OF tag_ranges(1), of t] by (simp del: upt_rec_numeral)

lemma decodes_number_tag:
  assumes "number_tag t = Some (n, f)"
  shows "decodes left (chr t # be_bytes v n) (JNumber (f (v mod 2 ^ (8 * n))))"
  unfolding decodes_def
proof (intro conjI allI impI)
  fix c :: dctx and q
  assume c: "unread c = (chr t # be_bytes v n) @ q" "heap_total (dmem c)"
  have t: "0xCA \<le> t" "t \<le> 0xD3" using number_tag_tags [OF assms] by auto
  have b: "byte (chr t) = t" using t by simp
  let ?c = "c\<lparr>unread := be_bytes v n @ q\<rparr>"
  have s: "skip 1 c = ?c" "get_be ?c n = (v mod 2 ^ (8 * n), c\<lparr>unread := q\<rparr>)"
    using c by (simp_all add: skip_def get_be_def be_value_bytes)
  have "decode_value left c = with_mem (c\<lparr>unread := q\<rparr>) (nyxj_new_number (dmem (c\<lparr>unread := q\<rparr>)) (f (v mod 2 ^ (8 * n))))"
    using c t b s assms fixed_tag_none [of t] by (subst decode_value.simps) (simp add: need_def)
  then show "\<exists>w h. decode_value left c = (Some w, c\<lparr>unread := q, dmem := h\<rparr>) \<and> heap_total h \<and>
      abs_value w = JNumber (f (v mod 2 ^ (8 * n)))"
    using with_mem_unread [OF c(2)] unfolding nyxj_new_number_def by fastforce
qed simp

lemma decodes_small:
  assumes "t \<le> 0x7F"
  shows "decodes left [chr t] (JNumber (dbl_of_nat t))"
  unfolding decodes_def
proof (intro conjI allI impI)
  fix c :: dctx and q
  assume c: "unread c = [chr t] @ q" "heap_total (dmem c)"
  have b: "byte (chr t) = t" using assms by simp
  have "decode_value left c = with_mem (c\<lparr>unread := q\<rparr>) (nyxj_new_number (dmem (c\<lparr>unread := q\<rparr>)) (dbl_of_nat t))"
    using c b assms by (subst decode_value.simps) (simp add: need_def skip_def)
  then show "\<exists>w h. decode_value left c = (Some w, c\<lparr>unread := q, dmem := h\<rparr>) \<and> heap_total h \<and> abs_value w = JNumber (dbl_of_nat t)"
    using with_mem_unread [OF c(2)] unfolding nyxj_new_number_def by fastforce
qed simp

lemma decodes_small_negative:
  assumes "0xE0 \<le> t" "t < 256"
  shows "decodes left [chr t] (JNumber (dbl_of_int (signed_of 8 t)))"
  unfolding decodes_def
proof (intro conjI allI impI)
  fix c :: dctx and q
  assume c: "unread c = [chr t] @ q" "heap_total (dmem c)"
  have b: "byte (chr t) = t" using assms by simp
  have "decode_value left c = with_mem (c\<lparr>unread := q\<rparr>) (nyxj_new_number (dmem (c\<lparr>unread := q\<rparr>)) (dbl_of_int (signed_of 8 t)))"
    using c b assms by (subst decode_value.simps) (simp add: need_def skip_def)
  then show "\<exists>w h. decode_value left c = (Some w, c\<lparr>unread := q, dmem := h\<rparr>) \<and> heap_total h \<and>
      abs_value w = JNumber (dbl_of_int (signed_of 8 t))"
    using with_mem_unread [OF c(2)] unfolding nyxj_new_number_def by fastforce
qed simp

subsection \<open>Numbers\<close>

lemma emits_tag: "out.emits r (\<lambda>b. put_tag b t) [chr t]"
  unfolding put_tag_def by (rule emits_putc)

lemma emits_tagged: "out.emits r (\<lambda>b. put_be (put_tag b t) v n) (chr t # be_bytes v n)"
  unfolding put_be_def using out.emits_seq [OF emits_tag out.emits_put] by force

lemma tagged_ok:
  assumes "number_tag t = Some (n, f)" "f (v mod 2 ^ (8 * n)) = d"
  shows "\<exists>s. out.emits r (\<lambda>b. put_be (put_tag b t) v n) s \<and> decodes left s (JNumber d)"
  using emits_tagged decodes_number_tag [OF assms(1), of left v] assms(2) by blast

lemma emits_if:
  assumes "P \<Longrightarrow> \<exists>t. out.emits r f t \<and> D t" "\<not> P \<Longrightarrow> \<exists>t. out.emits r g t \<and> D t"
  shows "\<exists>t. out.emits r (\<lambda>b. if P then f b else g b) t \<and> D t"
  using assms by (cases P) simp_all

lemma encode_unsigned_ok:
  assumes "u < 2 ^ 64"
  shows "\<exists>t. out.emits r (\<lambda>b. encode_unsigned b u) t \<and> decodes left t (JNumber (dbl_of_nat u))"
proof -
  have small: "\<exists>t. out.emits r (\<lambda>b. put_tag b u) t \<and> decodes left t (JNumber (dbl_of_nat u))" if "u \<le> 0x7F"
    using emits_tag decodes_small [OF that] by blast
  have tag: "\<exists>s. out.emits r (\<lambda>b. put_be (put_tag b t) u n) s \<and> decodes left s (JNumber (dbl_of_nat u))"
    if "number_tag t = Some (n, dbl_of_nat)" "u < 2 ^ (8 * n)" for t n
    using that by (intro tagged_ok [OF that(1)]) simp
  show ?thesis
    unfolding encode_unsigned_def
    by (intro emits_if small tag) (use assms in \<open>simp_all add: number_tag_def\<close>)
qed

lemma signed_of_uint64:
  assumes "k \<in> {8, 16, 32, 64}" "- (2 ^ (k - 1)) \<le> i" "i < 0"
  shows "signed_of k (as_uint64 i mod 2 ^ k) = i"
proof -
  have "(2::int) ^ k dvd 2 ^ 64" using assms(1) by (intro le_imp_power_dvd) auto
  then have "int (as_uint64 i mod 2 ^ k) = i mod 2 ^ k"
    by (simp add: as_uint64_def nat_mod_distrib zmod_int mod_mod_cancel)
  moreover have "(2::int) ^ k = 2 * 2 ^ (k - 1)" using assms(1) by (auto simp: power_Suc [symmetric] simp del: power_Suc)
  moreover from this have "i mod 2 ^ k = i + 2 ^ k" using assms(2,3) by (intro int_mod_pos_eq [of _ _ "- 1", symmetric, THEN sym]) auto
  ultimately have e: "int (as_uint64 i mod 2 ^ k) = i + 2 ^ k" "(2::int) ^ k = 2 * 2 ^ (k - 1)" by simp_all
  then have "int (2 ^ (k - 1)) \<le> int (as_uint64 i mod 2 ^ k)" using assms(2) by simp
  then have "\<not> as_uint64 i mod 2 ^ k < 2 ^ (k - 1)" unfolding of_nat_le_iff by simp
  then show ?thesis using e(1) by (simp add: signed_of_def)
qed

lemma encode_negative_ok:
  assumes "- (2 ^ 63) \<le> i" "i < 0"
  shows "\<exists>t. out.emits r (\<lambda>b. encode_negative b i) t \<and> decodes left t (JNumber (dbl_of_int i))"
proof -
  have tag: "\<exists>s. out.emits r (\<lambda>b. put_be (put_tag b t) (as_uint64 i) n) s \<and> decodes left s (JNumber (dbl_of_int i))"
    if "number_tag t = Some (n, \<lambda>v. dbl_of_int (signed_of (8 * n) v))" "n \<in> {1, 2, 4, 8}" "- (2 ^ (8 * n - 1)) \<le> i" for t n
    using signed_of_uint64 [of "8 * n" i] that assms(2) by (intro tagged_ok [OF that(1)]) auto
  have small: "\<exists>t. out.emits r (\<lambda>b. put_tag b (nat (i mod 256))) t \<and> decodes left t (JNumber (dbl_of_int i))" if "- 32 \<le> i"
  proof -
    have "i mod 256 = i + 256" using that assms(2) by (intro int_mod_pos_eq [of _ _ "- 1", symmetric, THEN sym]) auto
    then have "0xE0 \<le> nat (i mod 256)" "nat (i mod 256) < 256" "signed_of 8 (nat (i mod 256)) = i"
      using that assms(2) by (auto simp: signed_of_def)
    then show ?thesis using emits_tag decodes_small_negative [of "nat (i mod 256)" left] by metis
  qed
  show ?thesis
    unfolding encode_negative_def
    by (intro emits_if small tag) (use assms in \<open>simp_all add: number_tag_def\<close>)
qed

lemma power_of_two_key:
  assumes "dbl_mag d = (e + 1023) * 2 ^ 52" "\<not> dbl_sign d"
  shows "dbl_key d = 2 ^ e * 2 ^ 1074"
proof -
  have f: "(e + 1023) * 2 ^ 52 div 2 ^ 52 = e + 1023" "(e + 1023) * 2 ^ 52 mod 2 ^ 52 = 0" by simp_all
  have "52 + (e + 1023 - 1) = e + 1074" by simp
  then have p: "(2::nat) ^ 52 * 2 ^ (e + 1023 - 1) = 2 ^ e * 2 ^ 1074" by (simp only: power_add [symmetric])
  have "mag_key (dbl_mag d) = (2 ^ 52 + 0) * 2 ^ (e + 1023 - 1)"
    unfolding assms(1) mag_key_def Let_def f by (simp only: add_eq_0_iff_both_eq_0 if_False) simp
  then have "mag_key (dbl_mag d) = 2 ^ e * 2 ^ 1074" using p by (simp only: add_0_right)
  then show ?thesis using assms(2) by (simp add: dbl_key_def)
qed

lemma key_two_64: "dbl_key two_64 = 2 ^ 64 * 2 ^ 1074"
  by (rule power_of_two_key) (simp_all add: two_64_def dbl_mag_def dbl_sign_def)

lemma key_neg: "dbl_key (dbl_neg d) = - dbl_key d"
  using dbl_mag_less [of d] by (simp add: dbl_neg_def dbl_key_def)

lemma key_two_63: "dbl_key (dbl_neg two_63) = - (2 ^ 63 * 2 ^ 1074)"
proof -
  have "dbl_key two_63 = 2 ^ 63 * 2 ^ 1074"
    by (rule power_of_two_key) (simp_all add: two_63_def dbl_mag_def dbl_sign_def)
  then show ?thesis unfolding key_neg by (simp only:)
qed

lemma key_zero: "dbl_key 0 = 0"
  by (simp add: dbl_key_def mag_key_def)

text \<open>A double is read back as itself, a zero as the positive zero.\<close>

lemma canon_eq:
  assumes "dbl_eq d e" "dbl_mag d = 0 \<Longrightarrow> e = 0"
  shows "e = canon_number d"
proof (cases "dbl_mag d = 0")
  case False
  have "dbl_eq e d" using assms(1) by (auto simp: dbl_eq_def)
  then show ?thesis using dbl_eq_nonzero [of e d] False by (simp add: canon_number_def)
qed (simp add: canon_number_def assms(2))

lemma dbl_of_nat_0: "dbl_of_nat 0 = 0"
  using dbl_of_int_0 by (simp add: dbl_of_int_def dbl_of_nat_def)

lemma trunc_zero: "dbl_mag d = 0 \<Longrightarrow> dbl_trunc d = 0"
  by (simp add: dbl_trunc_def mag_key_def Let_def)

lemma trunc_less:
  assumes "dbl_key d < 2 ^ k * 2 ^ 1074" "- (2 ^ k * 2 ^ 1074) \<le> dbl_key d"
  shows "dbl_trunc d < 2 ^ k" "- (2 ^ k) \<le> dbl_trunc d"
proof -
  define q where "q = mag_key (dbl_mag d) div 2 ^ 1074"
  have t: "dbl_trunc d = (if dbl_sign d then - int q else int q)" unfolding dbl_trunc_def Let_def q_def ..
  show "dbl_trunc d < 2 ^ k"
  proof (cases "dbl_sign d")
    case True
    then show ?thesis using t by (simp add: less_le_trans [of _ 1])
  next
    case False
    then have "int (mag_key (dbl_mag d)) < int (2 ^ k * 2 ^ 1074)" using assms(1) by (simp add: dbl_key_def)
    then have "mag_key (dbl_mag d) < 2 ^ k * 2 ^ 1074" unfolding of_nat_less_iff .
    then have "q < 2 ^ k" unfolding q_def by (rule less_mult_imp_div_less)
    then have "int q < int (2 ^ k)" unfolding of_nat_less_iff .
    then show ?thesis using t False by simp
  qed
  show "- (2 ^ k) \<le> dbl_trunc d"
  proof (cases "dbl_sign d")
    case True
    then have "int (mag_key (dbl_mag d)) \<le> int (2 ^ k * 2 ^ 1074)" using assms(2) by (simp add: dbl_key_def)
    then have "mag_key (dbl_mag d) \<le> 2 ^ k * 2 ^ 1074" unfolding of_nat_le_iff .
    then have "q \<le> 2 ^ k * 2 ^ 1074 div 2 ^ 1074" unfolding q_def by (rule div_le_mono)
    moreover have "(2::nat) ^ k * 2 ^ 1074 div 2 ^ 1074 = 2 ^ k" by (rule nonzero_mult_div_cancel_right) simp
    ultimately have "q \<le> 2 ^ k" by (simp only:)
    then have "int q \<le> int (2 ^ k)" unfolding of_nat_le_iff .
    then show ?thesis using t True by simp
  next
    case False
    then show ?thesis using t by (simp add: order_trans [of _ 0])
  qed
qed

lemma encode_number_ok:
  "\<exists>t. out.emits r (\<lambda>b. encode_number b d) t \<and> decodes left t (JNumber (canon_number d))"
proof -
  consider (nat) "dbl_le 0 d \<and> dbl_less d two_64 \<and> dbl_eq d (dbl_of_nat (nat (dbl_trunc d)))"
    | (neg) "\<not> (dbl_le 0 d \<and> dbl_less d two_64 \<and> dbl_eq d (dbl_of_nat (nat (dbl_trunc d))))"
        "dbl_less d 0 \<and> dbl_le (dbl_neg two_63) d \<and> dbl_eq d (dbl_of_int (dbl_trunc d))"
    | (flt) "\<not> (dbl_le 0 d \<and> dbl_less d two_64 \<and> dbl_eq d (dbl_of_nat (nat (dbl_trunc d))))"
        "\<not> (dbl_less d 0 \<and> dbl_le (dbl_neg two_63) d \<and> dbl_eq d (dbl_of_int (dbl_trunc d)))" by blast
  then show ?thesis
  proof cases
    case nat
    have e: "dbl_of_nat (nat (dbl_trunc d)) = canon_number d"
      using nat by (intro canon_eq) (simp_all add: trunc_zero dbl_of_nat_0)
    have "0 \<le> dbl_key d" "dbl_key d < 2 ^ 64 * 2 ^ 1074" using nat unfolding dbl_le_def dbl_less_def key_zero key_two_64 by blast+
    moreover have "- (2 ^ 64 * 2 ^ 1074) \<le> (0::int)" by simp
    ultimately have "dbl_trunc d < 2 ^ 64" by (intro trunc_less(1)) linarith+
    then have "nat (dbl_trunc d) < 2 ^ 64" by (simp add: nat_less_iff)
    then show ?thesis using encode_unsigned_ok [of "nat (dbl_trunc d)" r left] nat unfolding encode_number_def e by simp
  next
    case neg
    have nz: "dbl_key d < 0" using neg(2) unfolding dbl_less_def key_zero by blast
    have e: "dbl_of_int (dbl_trunc d) = canon_number d"
      using neg(2) by (intro canon_eq) (simp_all add: trunc_zero dbl_of_int_0)
    have "- (2 ^ 63 * 2 ^ 1074) \<le> dbl_key d" using neg(2) unfolding dbl_le_def key_two_63 by blast
    moreover have "(0::int) \<le> 2 ^ 63 * 2 ^ 1074" by simp
    ultimately have lo: "- (2 ^ 63) \<le> dbl_trunc d" using nz by (intro trunc_less(2)) linarith+
    have "dbl_trunc d \<noteq> 0"
    proof
      assume "dbl_trunc d = 0"
      then have "dbl_eq d 0" using neg(2) by (simp add: dbl_of_int_0)
      then show False using nz by (simp add: dbl_eq_def key_zero)
    qed
    moreover have "dbl_trunc d \<le> 0" using nz by (simp add: dbl_trunc_def dbl_key_def Let_def split: if_splits)
    ultimately have "dbl_trunc d < 0" by simp
    then show ?thesis
      unfolding encode_number_def if_not_P [OF neg(1)] if_P [OF neg(2)] using encode_negative_ok [OF lo, of r left] e by simp
  next
    case flt
    have nz: "dbl_mag d \<noteq> 0"
    proof
      assume z: "dbl_mag d = 0"
      then have k: "dbl_key d = 0" "\<not> dbl_is_nan d" by (simp_all add: dbl_key_def mag_key_def dbl_is_nan_def)
      have "dbl_key two_64 > 0" unfolding key_two_64 by simp
      moreover have "\<not> dbl_is_nan 0" "\<not> dbl_is_nan two_64"
        by (simp_all add: dbl_is_nan_def two_64_def dbl_mag_def inf_mag_def)
      ultimately show False using flt(1) k trunc_zero [OF z]
        by (simp add: dbl_le_def dbl_less_def dbl_eq_def key_zero dbl_of_nat_0)
    qed
    then have c: "canon_number d = d" by (simp add: canon_number_def)
    have f: "\<exists>s. out.emits r (\<lambda>b. put_be (put_tag b 0xCA) (unat (dbl_to_flt d)) 4) s \<and> decodes left s (JNumber d)"
      if "dbl_eq (flt_to_dbl (dbl_to_flt d)) d"
    proof (rule tagged_ok)
      show "number_tag 0xCA = Some (4, \<lambda>v. flt_to_dbl (word_of_nat v))" by (simp add: number_tag_def)
      have "unat (dbl_to_flt d) < 2 ^ LENGTH(32)" by (rule unsigned_less)
      then show "flt_to_dbl (word_of_nat (unat (dbl_to_flt d) mod 2 ^ (8 * 4))) = d"
        using dbl_eq_nonzero [OF that] nz by simp
    qed
    have g: "\<exists>s. out.emits r (\<lambda>b. put_be (put_tag b 0xCB) (unat d) 8) s \<and> decodes left s (JNumber d)"
    proof (rule tagged_ok)
      show "number_tag 0xCB = Some (8, \<lambda>v. word_of_nat v)" by (simp add: number_tag_def)
      have "unat d < 2 ^ LENGTH(64)" by (rule unsigned_less)
      then show "word_of_nat (unat d mod 2 ^ (8 * 8)) = d" by simp
    qed
    show ?thesis
      unfolding encode_number_def if_not_P [OF flt(1)] if_not_P [OF flt(2)] c Let_def by (intro emits_if f g)
  qed
qed

subsection \<open>Strings\<close>

lemma decode_raw_append:
  assumes "unread c = s @ q" "heap_total (dmem c)" "no_nul s"
  shows "\<exists>h. decode_raw c (length s) = (Some s, c\<lparr>unread := q, dmem := h\<rparr>) \<and> heap_total h"
proof -
  have "take (length s) (unread c) = s" using assms(1) by simp
  then obtain h where "nyxj_strndup (dmem c) (unread c) (length s) = (Some s, h)" "heap_total h"
    using nyxj_strndup_total [OF assms(2), of "unread c" "length s"] assms(3) by auto
  then show ?thesis using assms(1) by (intro exI [of _ h]) (simp add: decode_raw_def need_def skip_def)
qed

lemma decode_string_append:
  assumes "unread c = s @ q" "heap_total (dmem c)" "no_nul s"
  shows "\<exists>v h. decode_string_n c (length s) = (Some v, c\<lparr>unread := q, dmem := h\<rparr>) \<and> heap_total h \<and> abs_value v = JString s"
proof -
  obtain h where r: "decode_raw c (length s) = (Some s, c\<lparr>unread := q, dmem := h\<rparr>)" "heap_total h"
    using decode_raw_append [OF assms] by blast
  then show ?thesis using with_mem_total [of "c\<lparr>unread := q, dmem := h\<rparr>" "VNull False"]
    by (auto simp: decode_string_n_def nyxj_new_null_def)
qed

text \<open>A length: what follows the tag and the length bytes is the string, the items or the members.\<close>

lemma length_tag_tags: "length_tag t = Some (k, n) \<Longrightarrow> 0xC4 \<le> t \<and> t \<le> 0xDF \<and> number_tag t = None"
  by (auto simp: length_tag_def number_tag_def split: if_splits)

lemma decode_value_fixed:
  assumes "unread c = chr t # q" "fixed_tag t = Some (k, n)" "0x80 \<le> t" "t < 0xC0"
  shows "decode_value left c =
    (if k = NYXJ_STRING then decode_string_n (c\<lparr>unread := q\<rparr>) n else decode_container left k n (c\<lparr>unread := q\<rparr>))"
  using assms by (subst decode_value.simps) (simp add: need_def skip_def)

lemma decode_value_length:
  assumes "unread c = chr t # be_bytes n w @ q" "length_tag t = Some (k, w)" "n < 2 ^ (8 * w)"
  shows "decode_value left c =
    (if k = NYXJ_STRING then decode_string_n (c\<lparr>unread := q\<rparr>) n else decode_container left k n (c\<lparr>unread := q\<rparr>))"
proof -
  note t = length_tag_tags [OF assms(2)]
  have r: "read_len (c\<lparr>unread := be_bytes n w @ q\<rparr>) w = (Some n, c\<lparr>unread := q\<rparr>)"
    using assms(3) by (simp add: read_len_def need_def get_be_def skip_def be_value_bytes)
  show ?thesis
    using assms t r fixed_tag_none [of t] length_tag_def
    by (subst decode_value.simps) (auto simp: need_def skip_def Let_def)
qed

text \<open>What \<open>encode_len\<close> writes, and what the decoder makes of it.\<close>

definition announces :: "nyxj_type \<Rightarrow> bytes \<Rightarrow> nat \<Rightarrow> bool" where
  "announces k t n \<longleftrightarrow> t \<noteq> [] \<and>
     (\<forall>left c q. unread c = t @ q \<longrightarrow>
        decode_value left c =
          (if k = NYXJ_STRING then decode_string_n (c\<lparr>unread := q\<rparr>) n else decode_container left k n (c\<lparr>unread := q\<rparr>))) \<and>
     (k = NYXJ_STRING \<longrightarrow> (\<forall>left c q. unread c = t @ q \<longrightarrow> decode_key left c = decode_raw (c\<lparr>unread := q\<rparr>) n))"

lemma announces_tagged:
  assumes "length_tag t = Some (k, w)" "n < 2 ^ (8 * w)"
  shows "announces k (chr t # be_bytes n w) n"
  unfolding announces_def
proof (intro conjI allI impI)
  fix left :: nat and c :: dctx and q
  assume c: "unread c = (chr t # be_bytes n w) @ q"
  then show "decode_value left c =
      (if k = NYXJ_STRING then decode_string_n (c\<lparr>unread := q\<rparr>) n else decode_container left k n (c\<lparr>unread := q\<rparr>))"
    using decode_value_length [OF _ assms] by simp
  assume k: "k = NYXJ_STRING"
  have r: "read_len (c\<lparr>unread := be_bytes n w @ q\<rparr>) w = (Some n, c\<lparr>unread := q\<rparr>)"
    using assms(2) by (simp add: read_len_def need_def get_be_def skip_def be_value_bytes)
  have t: "t \<in> {0xC4, 0xC5, 0xC6, 0xD9, 0xDA, 0xDB}"
    using assms(1) k by (auto simp: length_tag_def split: if_splits)
  then have "t AND 0xE0 \<noteq> 0xA0" "t < 256" by auto
  then show "decode_key left c = decode_raw (c\<lparr>unread := q\<rparr>) n"
    using c assms(1) k r by (subst decode_key.simps) (simp add: need_def skip_def)
qed simp

lemma announces_fixed:
  assumes "fixed_tag t = Some (k, n)" "0x80 \<le> t" "t < 0xC0" "k = NYXJ_STRING \<Longrightarrow> t AND 0xE0 = 0xA0 \<and> t AND 0x1F = n"
  shows "announces k [chr t] n"
  unfolding announces_def
proof (intro conjI allI impI)
  fix left :: nat and c :: dctx and q
  assume c: "unread c = [chr t] @ q"
  then show "decode_value left c =
      (if k = NYXJ_STRING then decode_string_n (c\<lparr>unread := q\<rparr>) n else decode_container left k n (c\<lparr>unread := q\<rparr>))"
    using decode_value_fixed [OF _ assms(1-3)] by simp
  assume "k = NYXJ_STRING"
  then show "decode_key left c = decode_raw (c\<lparr>unread := q\<rparr>) n"
    using c assms by (subst decode_key.simps) (simp add: need_def skip_def)
qed simp

lemma encode_len_ok:
  assumes "n < 2 ^ 32"
  shows "\<exists>t. out.emits r (\<lambda>b. encode_len b n 0xA0 31 0xD9 0xDA 0xDB) t \<and> announces NYXJ_STRING t n"
    "\<exists>t. out.emits r (\<lambda>b. encode_len b n 0x90 15 0 0xDC 0xDD) t \<and> announces NYXJ_ARRAY t n"
    "\<exists>t. out.emits r (\<lambda>b. encode_len b n 0x80 15 0 0xDE 0xDF) t \<and> announces NYXJ_OBJECT t n"
proof -
  have tag: "\<exists>s. out.emits r (\<lambda>b. put_be (put_tag b t) n w) s \<and> announces k s n"
    if "length_tag t = Some (k, w)" "n < 2 ^ (8 * w)" for t k w
    using emits_tagged announces_tagged [OF that] by blast
  have fixed: "\<exists>s. out.emits r (\<lambda>b. put_tag b t) s \<and> announces k s n"
    if "fixed_tag t = Some (k, n)" "0x80 \<le> t" "t < 0xC0" "k = NYXJ_STRING \<Longrightarrow> t AND 0xE0 = 0xA0 \<and> t AND 0x1F = n" for t k
    using emits_tag announces_fixed [OF that] by blast
  have small: "fixed_tag (0x80 OR n) = Some (NYXJ_OBJECT, n) \<and> fixed_tag (0x90 OR n) = Some (NYXJ_ARRAY, n) \<and>
     0x80 OR n = 128 + n \<and> 0x90 OR n = 144 + n" if "n \<le> 15"
    using tag_ranges(2) that unfolding list_all_iff by (elim ballE [of _ _ n]) auto
  have str: "fixed_tag (0xA0 OR n) = Some (NYXJ_STRING, n) \<and> 0xA0 OR n = 160 + n \<and> (160 + n) AND 0xE0 = 0xA0 \<and> (160 + n) AND 0x1F = n"
    if "n \<le> 31"
    using tag_ranges(3) that unfolding list_all_iff by (elim ballE [of _ _ n]) auto
  show "\<exists>t. out.emits r (\<lambda>b. encode_len b n 0xA0 31 0xD9 0xDA 0xDB) t \<and> announces NYXJ_STRING t n"
    unfolding encode_len_def by (intro emits_if fixed tag) (use assms str in \<open>auto simp: length_tag_def\<close>)
  show "\<exists>t. out.emits r (\<lambda>b. encode_len b n 0x90 15 0 0xDC 0xDD) t \<and> announces NYXJ_ARRAY t n"
    unfolding encode_len_def by (intro emits_if fixed tag) (use assms small in \<open>auto simp: length_tag_def\<close>)
  show "\<exists>t. out.emits r (\<lambda>b. encode_len b n 0x80 15 0 0xDE 0xDF) t \<and> announces NYXJ_OBJECT t n"
    unfolding encode_len_def by (intro emits_if fixed tag) (use assms small in \<open>auto simp: length_tag_def\<close>)
qed

lemma encode_str_ok:
  assumes "no_nul s" "length s < 2 ^ 32"
  shows "\<exists>t. out.emits r (\<lambda>b. encode_str b s) t \<and> decodes left t (JString s) \<and> decodes_key left t s"
proof -
  obtain t where t: "out.emits r (\<lambda>b. encode_len b (length s) 0xA0 31 0xD9 0xDA 0xDB) t" "announces NYXJ_STRING t (length s)"
    using encode_len_ok(1) [OF assms(2)] by blast
  have e: "out.emits r (\<lambda>b. encode_str b s) (t @ s)"
    using out.emits_seq [OF t(1) out.emits_put [of r s]] assms(1) by (simp add: encode_str_def)
  have v: "decodes left (t @ s) (JString s)"
    unfolding decodes_def
  proof (intro conjI allI impI)
    fix c :: dctx and q
    assume c: "unread c = (t @ s) @ q" "heap_total (dmem c)"
    have "decode_value left c = decode_string_n (c\<lparr>unread := s @ q\<rparr>) (length s)"
      using t(2) c(1) unfolding announces_def by simp
    then show "\<exists>v h. decode_value left c = (Some v, c\<lparr>unread := q, dmem := h\<rparr>) \<and> heap_total h \<and> abs_value v = JString s"
      using decode_string_append [of "c\<lparr>unread := s @ q\<rparr>" s q] c(2) assms(1) by simp
  qed (use t(2) in \<open>simp add: announces_def\<close>)
  have k: "decodes_key left (t @ s) s"
    unfolding decodes_key_def
  proof (intro allI impI)
    fix c :: dctx and q
    assume c: "unread c = (t @ s) @ q" "heap_total (dmem c)"
    have "decode_key left c = decode_raw (c\<lparr>unread := s @ q\<rparr>) (length s)"
      using t(2) c(1) unfolding announces_def by simp
    then show "\<exists>h. decode_key left c = (Some s, c\<lparr>unread := q, dmem := h\<rparr>) \<and> heap_total h"
      using decode_raw_append [of "c\<lparr>unread := s @ q\<rparr>" s q] c(2) assms(1) by simp
  qed
  show ?thesis using e v k by blast
qed

subsection \<open>Trees\<close>

text \<open>Trees that MessagePack can hold, with at most \<open>d\<close> levels of containers.\<close>

fun packable :: "nat \<Rightarrow> nyxj_value \<Rightarrow> bool" where
  "packable d (VString _ s) \<longleftrightarrow> no_nul s \<and> length s < 2 ^ 32"
| "packable d (VArray _ xs _) \<longleftrightarrow> 0 < d \<and> length xs < 2 ^ 32 \<and> (\<forall>x \<in> set xs. packable (d - 1) x)"
| "packable d (VObject _ ps) \<longleftrightarrow> 0 < d \<and> length ps < 2 ^ 32 \<and> distinct (map fst ps) \<and>
     (\<forall>(k, v) \<in> set ps. no_nul k \<and> length k < 2 ^ 32 \<and> packable (d - 1) v)"
| "packable d v \<longleftrightarrow> True"

abbreviation packed :: "nyxj_value \<Rightarrow> json" where
  "packed v \<equiv> canon_tree (abs_value v)"

definition decodes_items :: "nat \<Rightarrow> bytes \<Rightarrow> json list \<Rightarrow> bool" where
  "decodes_items left t ws \<longleftrightarrow> length ws \<le> length t \<and>
     (\<forall>c q acc cap. unread c = t @ q \<longrightarrow> heap_total (dmem c) \<longrightarrow>
        (\<exists>ys cap' h. decode_items left (length ws) (VArray False acc cap) c =
             (Some (VArray False (acc @ ys) cap'), c\<lparr>unread := q, dmem := h\<rparr>) \<and> heap_total h \<and> map abs_value ys = ws))"

lemma decodes_items_Nil: "decodes_items left [] []"
  unfolding decodes_items_def
proof (intro conjI allI impI)
  fix c :: dctx and q :: bytes and acc cap
  assume "unread c = [] @ q" "heap_total (dmem c)"
  then show "\<exists>ys cap' h. decode_items left (length []) (VArray False acc cap) c =
      (Some (VArray False (acc @ ys) cap'), c\<lparr>unread := q, dmem := h\<rparr>) \<and> heap_total h \<and> map abs_value ys = []"
    by (intro exI [of _ "[]"] exI [of _ cap] exI [of _ "dmem c"]) simp
qed simp

lemma decodes_items_Cons:
  assumes "decodes left t w" "decodes_items left u ws"
  shows "decodes_items left (t @ u) (w # ws)"
  unfolding decodes_items_def
proof (intro conjI allI impI)
  show "length (w # ws) \<le> length (t @ u)" using assms unfolding decodes_def decodes_items_def by (cases t) auto
  fix c :: dctx and q :: bytes and acc cap
  assume c: "unread c = (t @ u) @ q" "heap_total (dmem c)"
  obtain y h where y: "decode_value left c = (Some y, c\<lparr>unread := u @ q, dmem := h\<rparr>)" "heap_total h" "abs_value y = w"
    using assms(1) c unfolding decodes_def by (metis append.assoc)
  obtain cap1 h1 where p: "nyxj_array_push h (VArray False acc cap) (Some y) = (True, VArray False (acc @ [y]) cap1, h1)" "heap_total h1"
    using nyxj_array_push_total [OF y(2)] by blast
  let ?c = "c\<lparr>unread := u @ q, dmem := h1\<rparr>"
  have "unread ?c = u @ q" "heap_total (dmem ?c)" using p(2) by simp_all
  then obtain ys cap' h' where r: "decode_items left (length ws) (VArray False (acc @ [y]) cap1) ?c =
      (Some (VArray False ((acc @ [y]) @ ys) cap'), ?c\<lparr>unread := q, dmem := h'\<rparr>)" "heap_total h'" "map abs_value ys = ws"
    using assms(2) unfolding decodes_items_def by blast
  show "\<exists>ys cap' h. decode_items left (length (w # ws)) (VArray False acc cap) c =
      (Some (VArray False (acc @ ys) cap'), c\<lparr>unread := q, dmem := h\<rparr>) \<and> heap_total h \<and> map abs_value ys = w # ws"
    using y p r by (intro exI [of _ "y # ys"] exI [of _ cap'] exI [of _ h']) simp
qed

lemma encode_items_ok:
  assumes "\<forall>x \<in> set xs. \<exists>t. out.emits r (\<lambda>b. encode_value b x) t \<and> decodes left t (packed x)"
  shows "\<exists>t. out.emits r (\<lambda>b. encode_items b xs) t \<and> decodes_items left t (map packed xs)"
  using assms
proof (induction xs)
  case Nil
  have "out.emits r (\<lambda>b. encode_items b []) []" using out.emits_id by simp
  then show ?case using decodes_items_Nil by auto
next
  case (Cons x xs)
  then obtain t u where t: "out.emits r (\<lambda>b. encode_value b x) t" "decodes left t (packed x)"
    and u: "out.emits r (\<lambda>b. encode_items b xs) u" "decodes_items left u (map packed xs)" by auto
  have "out.emits r (\<lambda>b. encode_items b (x # xs)) (t @ u)" using out.emits_seq [OF t(1) u(1)] by simp
  then show ?case using decodes_items_Cons [OF t(2) u(2)] by auto
qed

definition decodes_members :: "nat \<Rightarrow> bytes \<Rightarrow> (string \<times> json) list \<Rightarrow> bool" where
  "decodes_members left t ws \<longleftrightarrow> length ws \<le> length t \<and>
     (\<forall>c q acc. unread c = t @ q \<longrightarrow> heap_total (dmem c) \<longrightarrow> fst ` set acc \<inter> fst ` set ws = {} \<longrightarrow>
        (\<exists>ys h. decode_members left (length ws) (VObject False acc) c =
             (Some (VObject False (acc @ ys)), c\<lparr>unread := q, dmem := h\<rparr>) \<and> heap_total h \<and> map (map_prod id abs_value) ys = ws))"

lemma decodes_members_Nil: "decodes_members left [] []"
  unfolding decodes_members_def
proof (intro conjI allI impI)
  fix c :: dctx and q :: bytes and acc :: "(string \<times> nyxj_value) list"
  assume "unread c = [] @ q" "heap_total (dmem c)"
  then show "\<exists>ys h. decode_members left (length []) (VObject False acc) c =
      (Some (VObject False (acc @ ys)), c\<lparr>unread := q, dmem := h\<rparr>) \<and> heap_total h \<and> map (map_prod id abs_value) ys = []"
    by (intro exI [of _ "[]"] exI [of _ "dmem c"]) simp
qed simp

lemma decodes_members_Cons:
  assumes "decodes_key left s k" "decodes left t w" "decodes_members left u ws" "k \<notin> fst ` set ws" "no_nul k"
  shows "decodes_members left (s @ t @ u) ((k, w) # ws)"
  unfolding decodes_members_def
proof (intro conjI allI impI)
  show "length ((k, w) # ws) \<le> length (s @ t @ u)" using assms(2,3) unfolding decodes_def decodes_members_def by (cases t) auto
  fix c :: dctx and q :: bytes and acc :: "(string \<times> nyxj_value) list"
  assume c: "unread c = (s @ t @ u) @ q" "heap_total (dmem c)" "fst ` set acc \<inter> fst ` set ((k, w) # ws) = {}"
  have "unread c = s @ (t @ u @ q)" using c(1) by simp
  then obtain h0 where k: "decode_key left c = (Some k, c\<lparr>unread := t @ u @ q, dmem := h0\<rparr>)" "heap_total h0"
    using assms(1) c(2) unfolding decodes_key_def by blast
  let ?c0 = "c\<lparr>unread := t @ u @ q, dmem := h0\<rparr>"
  have "unread ?c0 = t @ (u @ q)" "heap_total (dmem ?c0)" using k(2) by simp_all
  then obtain y h where y: "decode_value left ?c0 = (Some y, ?c0\<lparr>unread := u @ q, dmem := h\<rparr>)" "heap_total h" "abs_value y = w"
    using assms(2) unfolding decodes_def by blast
  have "pairs_replace acc k y = None" using c(3) by (simp add: pairs_replace_None)
  then have "pairs_put acc k y = acc @ [(k, y)]" by (simp add: pairs_put_def)
  then obtain h1 where p: "nyxj_object_set h (VObject False acc) k (Some y) = (True, VObject False (acc @ [(k, y)]), h1)" "heap_total h1"
    using nyxj_object_set_put [OF y(2) assms(5), of acc y] by auto
  let ?c = "c\<lparr>unread := u @ q, dmem := h1\<rparr>"
  have "unread ?c = u @ q" "heap_total (dmem ?c)" "fst ` set (acc @ [(k, y)]) \<inter> fst ` set ws = {}"
    using p(2) c(3) assms(4) by auto
  then obtain ys h' where r: "decode_members left (length ws) (VObject False (acc @ [(k, y)])) ?c =
      (Some (VObject False ((acc @ [(k, y)]) @ ys)), ?c\<lparr>unread := q, dmem := h'\<rparr>)" "heap_total h'" "map (map_prod id abs_value) ys = ws"
    using assms(3) unfolding decodes_members_def by blast
  show "\<exists>ys h. decode_members left (length ((k, w) # ws)) (VObject False acc) c =
      (Some (VObject False (acc @ ys)), c\<lparr>unread := q, dmem := h\<rparr>) \<and> heap_total h \<and> map (map_prod id abs_value) ys = (k, w) # ws"
    using k y p r by (intro exI [of _ "(k, y) # ys"] exI [of _ h']) (simp del: nyxj_object_set.simps)
qed

lemma encode_members_ok:
  assumes "\<forall>(k, x) \<in> set ps. no_nul k \<and> length k < 2 ^ 32 \<and> (\<exists>t. out.emits r (\<lambda>b. encode_value b x) t \<and> decodes left t (packed x))"
    "distinct (map fst ps)"
  shows "\<exists>t. out.emits r (\<lambda>b. encode_members b ps) t \<and> decodes_members left t (map (map_prod id packed) ps)"
  using assms
proof (induction ps)
  case Nil
  have "out.emits r (\<lambda>b. encode_members b []) []" using out.emits_id by simp
  then show ?case using decodes_members_Nil by auto
next
  case (Cons p ps)
  obtain k x where p: "p = (k, x)" by fastforce
  obtain t where t: "no_nul k" "length k < 2 ^ 32" "out.emits r (\<lambda>b. encode_value b x) t" "decodes left t (packed x)"
    using Cons.prems(1) p by auto
  obtain s where s: "out.emits r (\<lambda>b. encode_str b k) s" "decodes_key left s k" using encode_str_ok [OF t(1,2)] by blast
  obtain u where u: "out.emits r (\<lambda>b. encode_members b ps) u" "decodes_members left u (map (map_prod id packed) ps)"
  proof -
    have "\<forall>(k, x) \<in> set ps. no_nul k \<and> length k < 2 ^ 32 \<and> (\<exists>t. out.emits r (\<lambda>b. encode_value b x) t \<and> decodes left t (packed x))"
      using Cons.prems(1) by simp
    moreover have "distinct (map fst ps)" using Cons.prems(2) by simp
    ultimately show thesis using Cons.IH that by blast
  qed
  have "out.emits r (\<lambda>b. encode_members b (p # ps)) (s @ t @ u)" using out.emits_seq3 [OF s(1) t(3) u(1)] p by simp
  moreover have "k \<notin> fst ` set (map (map_prod id packed) ps)" using Cons.prems(2) p by (auto simp: image_iff)
  moreover have "map (map_prod id packed) (p # ps) = (k, packed x) # map (map_prod id packed) ps"
    unfolding p list.map map_prod_simp id_apply ..
  ultimately show ?case using decodes_members_Cons [OF s(2) t(4) u(2) _ t(1)] by (metis (no_types))
qed

lemma abs_packed_map: "map (map_prod id packed) ps = map (map_prod id canon_tree) (map (map_prod id abs_value) ps)"
  by (induction ps) auto

lemma decodes_scalar:
  assumes "\<And>c q. unread c = t @ q \<Longrightarrow> decode_value left c = with_mem (c\<lparr>unread := q\<rparr>) (new_value (dmem (c\<lparr>unread := q\<rparr>)) v)" "t \<noteq> []"
  shows "decodes left t (abs_value v)"
  unfolding decodes_def
proof (intro conjI allI impI)
  fix c :: dctx and q
  assume c: "unread c = t @ q" "heap_total (dmem c)"
  show "\<exists>w h. decode_value left c = (Some w, c\<lparr>unread := q, dmem := h\<rparr>) \<and> heap_total h \<and> abs_value w = abs_value v"
    unfolding assms(1) [OF c(1)] by (rule with_mem_unread [OF c(2)])
qed (rule assms(2))

lemma scalar_tags:
  "decodes left [chr 0xC0] JNull" "decodes left [chr 0xC2] (JBool False)" "decodes left [chr 0xC3] (JBool True)"
proof -
  have "decodes left [chr 0xC0] (abs_value (VNull False))"
    by (rule decodes_scalar) (subst decode_value.simps, simp_all add: need_def skip_def nyxj_new_null_def fixed_tag_def)
  then show "decodes left [chr 0xC0] JNull" by simp
  have "decodes left [chr 0xC2] (abs_value (VBool False False))"
    by (rule decodes_scalar) (subst decode_value.simps, simp_all add: need_def skip_def nyxj_new_bool_def fixed_tag_def)
  then show "decodes left [chr 0xC2] (JBool False)" by simp
  have "decodes left [chr 0xC3] (abs_value (VBool False True))"
    by (rule decodes_scalar) (subst decode_value.simps, simp_all add: need_def skip_def nyxj_new_bool_def fixed_tag_def)
  then show "decodes left [chr 0xC3] (JBool True)" by simp
qed

lemma decodes_array:
  assumes "announces NYXJ_ARRAY t (length ws)" "decodes_items left u ws"
  shows "decodes (Suc left) (t @ u) (JArray ws)"
  unfolding decodes_def
proof (intro conjI allI impI)
  fix c :: dctx and q
  assume c: "unread c = (t @ u) @ q" "heap_total (dmem c)"
  let ?c = "c\<lparr>unread := u @ q\<rparr>"
  have d: "decode_value (Suc left) c = decode_container (Suc left) NYXJ_ARRAY (length ws) ?c"
    using assms(1) c(1) unfolding announces_def by simp
  have len: "length ws \<le> length (u @ q)" using assms(2) unfolding decodes_items_def by simp
  obtain h where n: "with_mem ?c (new_value (dmem ?c) (VArray False [] 0)) = (Some (VArray False [] 0), ?c\<lparr>dmem := h\<rparr>)" "heap_total h"
    using with_mem_total [of ?c] c(2) by auto
  let ?c1 = "?c\<lparr>dmem := h\<rparr>"
  have "unread ?c1 = u @ q" "heap_total (dmem ?c1)" using n(2) by simp_all
  then obtain ys cap' h' where r: "decode_items left (length ws) (VArray False [] 0) ?c1 =
      (Some (VArray False ([] @ ys) cap'), ?c1\<lparr>unread := q, dmem := h'\<rparr>)" "heap_total h'" "map abs_value ys = ws"
    using assms(2) unfolding decodes_items_def by blast
  have "decode_value (Suc left) c = (Some (VArray False ys cap'), c\<lparr>unread := q, dmem := h'\<rparr>)"
    unfolding d using len n(1) r(1) by (subst decode_container.simps) (simp add: nyxj_new_array_def)
  then show "\<exists>v h. decode_value (Suc left) c = (Some v, c\<lparr>unread := q, dmem := h\<rparr>) \<and> heap_total h \<and> abs_value v = JArray ws"
    using r(2,3) by auto
qed (use assms(1) in \<open>simp add: announces_def\<close>)

lemma decodes_object:
  assumes "announces NYXJ_OBJECT t (length ws)" "decodes_members left u ws"
  shows "decodes (Suc left) (t @ u) (JObject ws)"
  unfolding decodes_def
proof (intro conjI allI impI)
  fix c :: dctx and q
  assume c: "unread c = (t @ u) @ q" "heap_total (dmem c)"
  let ?c = "c\<lparr>unread := u @ q\<rparr>"
  have d: "decode_value (Suc left) c = decode_container (Suc left) NYXJ_OBJECT (length ws) ?c"
    using assms(1) c(1) unfolding announces_def by simp
  have len: "length ws \<le> length (u @ q)" using assms(2) unfolding decodes_members_def by simp
  obtain h where n: "with_mem ?c (new_value (dmem ?c) (VObject False [])) = (Some (VObject False []), ?c\<lparr>dmem := h\<rparr>)" "heap_total h"
    using with_mem_total [of ?c] c(2) by auto
  let ?c1 = "?c\<lparr>dmem := h\<rparr>"
  have "unread ?c1 = u @ q" "heap_total (dmem ?c1)" "fst ` set [] \<inter> fst ` set ws = {}" using n(2) by simp_all
  then obtain ys h' where r: "decode_members left (length ws) (VObject False []) ?c1 =
      (Some (VObject False ([] @ ys)), ?c1\<lparr>unread := q, dmem := h'\<rparr>)" "heap_total h'" "map (map_prod id abs_value) ys = ws"
    using assms(2) unfolding decodes_members_def by blast
  have "decode_value (Suc left) c = (Some (VObject False ys), c\<lparr>unread := q, dmem := h'\<rparr>)"
    unfolding d using len n(1) r(1) by (subst decode_container.simps) (simp add: nyxj_new_object_def)
  then show "\<exists>v h. decode_value (Suc left) c = (Some v, c\<lparr>unread := q, dmem := h\<rparr>) \<and> heap_total h \<and> abs_value v = JObject ws"
    using r(2,3) by auto
qed (use assms(1) in \<open>simp add: announces_def\<close>)

lemma encode_value_ok:
  "packable d v \<Longrightarrow> \<exists>t. out.emits r (\<lambda>b. encode_value b v) t \<and> decodes d t (packed v)"
proof (induction v arbitrary: d)
  case (VNull f)
  then show ?case using emits_tag [of r "0xC0"] scalar_tags(1) by auto
next
  case (VBool f b)
  then show ?case using emits_tag [of r "if b then 0xC3 else 0xC2"] scalar_tags(2,3) by (cases b) auto
next
  case (VNumber f n)
  then show ?case using encode_number_ok by simp
next
  case (VString f s)
  then show ?case using encode_str_ok [of s r d] by auto
next
  case (VArray f xs m)
  obtain e where d: "d = Suc e" using VArray.prems by (cases d) auto
  have len: "length xs < 2 ^ 32" using VArray.prems by simp
  have "\<forall>x \<in> set xs. \<exists>t. out.emits r (\<lambda>b. encode_value b x) t \<and> decodes e t (packed x)"
    using VArray.IH VArray.prems d by simp
  then obtain u where u: "out.emits r (\<lambda>b. encode_items b xs) u" "decodes_items e u (map packed xs)"
    using encode_items_ok by blast
  obtain t where t: "out.emits r (\<lambda>b. encode_len b (length xs) 0x90 15 0 0xDC 0xDD) t" "announces NYXJ_ARRAY t (length xs)"
    using encode_len_ok(2) len by blast
  have "out.emits r (\<lambda>b. encode_value b (VArray f xs m)) (t @ u)" using out.emits_seq [OF t(1) u(1)] by simp
  moreover have "decodes d (t @ u) (packed (VArray f xs m))"
    using decodes_array [of t "map packed xs" e u] t(2) u(2) d by (simp add: comp_def)
  ultimately show ?case by blast
next
  case (VObject f ps)
  obtain e where d: "d = Suc e" using VObject.prems by (cases d) auto
  have len: "length ps < 2 ^ 32" "distinct (map fst ps)" using VObject.prems by simp_all
  have "\<forall>(k, x) \<in> set ps. no_nul k \<and> length k < 2 ^ 32 \<and> (\<exists>t. out.emits r (\<lambda>b. encode_value b x) t \<and> decodes e t (packed x))"
  proof (rule ballI, clarify)
    fix k x
    assume kx: "(k, x) \<in> set ps"
    then have "no_nul k" "length k < 2 ^ 32" "packable e x" using VObject.prems d by auto
    then show "no_nul k \<and> length k < 2 ^ 32 \<and> (\<exists>t. out.emits r (\<lambda>b. encode_value b x) t \<and> decodes e t (packed x))"
      using VObject.IH [OF kx, of x] by simp
  qed
  then obtain u where u: "out.emits r (\<lambda>b. encode_members b ps) u" "decodes_members e u (map (map_prod id packed) ps)"
    using encode_members_ok len(2) by blast
  obtain t where t: "out.emits r (\<lambda>b. encode_len b (length ps) 0x80 15 0 0xDE 0xDF) t" "announces NYXJ_OBJECT t (length ps)"
    using encode_len_ok(3) len by blast
  have "out.emits r (\<lambda>b. encode_value b (VObject f ps)) (t @ u)" using out.emits_seq [OF t(1) u(1)] by simp
  moreover have "decodes d (t @ u) (packed (VObject f ps))"
    using decodes_object [of t "map (map_prod id packed) ps" e u] t(2) u(2) d abs_packed_map [of ps] by simp
  ultimately show ?case by blast
qed

text \<open>The whole round trip: the encoder writes the text in full or an allocation was refused.\<close>

lemma msgpack_encode_decode:
  assumes "packable MSGPACK_MAX_DEPTH v"
  shows "\<exists>t. fst (nyxj_msgpack_encode h (Some v)) \<in> {None, Some t} \<and>
    (heap_total h \<longrightarrow> fst (nyxj_msgpack_encode h (Some v)) = Some t) \<and>
    (\<forall>h'. heap_total h' \<longrightarrow> (\<exists>w h''. nyxj_msgpack_decode h' (Some t) = (Some w, no_error, h'') \<and> abs_value w = packed v))"
proof -
  obtain t where t: "out.emits False (\<lambda>b. encode_value b v) t" "decodes MSGPACK_MAX_DEPTH t (packed v)"
    using encode_value_ok [OF assms] by blast
  have e: "fst (nyxj_msgpack_encode h (Some v)) = fst (nyxj_buf_detach (encode_value (nyxj_buf_init h 256) v))"
    by (simp add: nyxj_msgpack_encode_def Let_def split: prod.split)
  have "\<exists>w h''. nyxj_msgpack_decode h' (Some t) = (Some w, no_error, h'') \<and> abs_value w = packed v" if "heap_total h'" for h'
  proof -
    let ?c = "decode_context h' t"
    have "unread ?c = t @ []" "heap_total (dmem ?c)" using that by (simp_all add: decode_context_def)
    then obtain w h'' where "decode_value MSGPACK_MAX_DEPTH ?c = (Some w, ?c\<lparr>unread := [], dmem := h''\<rparr>)" "abs_value w = packed v"
      using t(2) unfolding decodes_def by blast
    then show ?thesis by (auto simp: nyxj_msgpack_decode_def decode_context_def)
  qed
  then show ?thesis using nyxj_buf_detach_emits [OF t(1), of h 256] unfolding e by blast
qed

text \<open>A refused node ends the decoding without an error.\<close>

lemma msgpack_decode_silent:
  "let (v, e, h) = nyxj_msgpack_decode \<lparr>requests = 0, grants = (\<lambda>_ _. False)\<rparr> (Some [CHR 0xC0]) in v = None \<and> code e = NYXJ_OK"
  by code_simp

end
