(* ===== verification/Reliability.thy ===== *)
theory Reliability
  imports Parser
begin

text \<open>
  \<^verbatim>\<open>src/modules/reliability.c\<close>: the structural checksum, the parse that runs twice, and the three replicas
  with a majority vote.

  \<open>fnv\<close> is FNV-1a on 64-bit words. The shadow parse runs on another thread: what the allocator answers it
  is a second heap. A replica is a value; \<open>nyxj_tmr_free\<close> only releases memory.
\<close>

subsection \<open>Checksum\<close>

definition FNV_OFFSET :: "64 word" where
  "FNV_OFFSET = 0xcbf29ce484222325"

definition FNV_PRIME :: "64 word" where
  "FNV_PRIME = 0x100000001b3"

definition fnv :: "64 word \<Rightarrow> bytes \<Rightarrow> 64 word" where
  "fnv h d = foldl (\<lambda>h c. (h XOR word_of_nat (byte c)) * FNV_PRIME) h d"

text \<open>The bytes of an integer or a double in memory, least significant first.\<close>

definition le_bytes :: "nat \<Rightarrow> nat \<Rightarrow> bytes" where
  "le_bytes n v = map (\<lambda>i. chr (drop_bit (8 * i) v mod 256)) [0..<n]"

definition type_tag :: "nyxj_value \<Rightarrow> char" where
  "type_tag v =
     chr (case value_type v of NYXJ_NULL \<Rightarrow> 0 | NYXJ_BOOL \<Rightarrow> 1 | NYXJ_NUMBER \<Rightarrow> 2 | NYXJ_STRING \<Rightarrow> 3 | NYXJ_ARRAY \<Rightarrow> 4 | NYXJ_OBJECT \<Rightarrow> 5)"

fun checksum_rec :: "64 word \<Rightarrow> nyxj_value \<Rightarrow> 64 word"
  and checksum_items :: "64 word \<Rightarrow> nyxj_value list \<Rightarrow> 64 word"
  and checksum_pairs :: "64 word \<Rightarrow> (string \<times> nyxj_value) list \<Rightarrow> 64 word"
where
  "checksum_rec h (VNull f) = fnv h [type_tag (VNull f)]"
| "checksum_rec h (VBool f b) = fnv (fnv h [type_tag (VBool f b)]) [chr (of_bool b)]"
| "checksum_rec h (VNumber f d) = fnv (fnv h [type_tag (VNumber f d)]) (le_bytes 8 (unat d))"
| "checksum_rec h (VString f s) = fnv (fnv h [type_tag (VString f s)]) (cstr s @ [NUL])"
| "checksum_rec h (VArray f xs m) =
     checksum_items (fnv (fnv h [type_tag (VArray f xs m)]) (le_bytes 4 (length xs))) xs"
| "checksum_rec h (VObject f ps) =
     checksum_pairs (fnv (fnv h [type_tag (VObject f ps)]) (le_bytes 4 (length ps))) ps"
| "checksum_items h [] = h"
| "checksum_items h (x # xs) = checksum_items (checksum_rec h x) xs"
| "checksum_pairs h [] = h"
| "checksum_pairs h ((k, x) # ps) = checksum_pairs (checksum_rec (fnv h (cstr k @ [NUL])) x) ps"

definition nyxj_checksum :: "nyxj_value option \<Rightarrow> 64 word" where
  "nyxj_checksum v = (case v of None \<Rightarrow> fnv FNV_OFFSET [CHR 0xFF] | Some v \<Rightarrow> checksum_rec FNV_OFFSET v)"

subsection \<open>Shadow execution\<close>

definition results_agree :: "nyxj_result \<Rightarrow> nyxj_result \<Rightarrow> bool" where
  "results_agree primary shadow \<longleftrightarrow>
     is_valid primary = is_valid shadow \<and>
     (if is_valid primary
      then nyxj_checksum (root primary) = nyxj_checksum (root shadow) \<and> nyxj_equals False (root primary) (root shadow)
      else code (error primary) = code (error shadow) \<and> offset (error primary) = offset (error shadow))"

definition nyxj_parse_verified ::
    "simd_backend \<Rightarrow> heap \<Rightarrow> heap \<Rightarrow> bytes option \<Rightarrow> nyxj_parse_options option \<Rightarrow> nyxj_result" where
  "nyxj_parse_verified b h shadow_heap json opts =
     (let ops = (case opts of None \<Rightarrow> nyxj_parse_options_default | Some ops \<Rightarrow> ops)\<lparr>opt_arena := None\<rparr>;
          shadow = nyxj_parse_ex b shadow_heap json (Some ops);
          primary = nyxj_parse_ex b h json (Some ops)
      in if results_agree primary shadow then primary
         else failed_result
           (nyxj_error_set NYXJ_ERR_INTEGRITY (Some ''shadow execution produced diverging results'') no_error)
           None (heap_after primary))"

subsection \<open>Triple modular redundancy\<close>

record nyxj_tmr =
  replica :: "nyxj_value list"
  repairs :: nat

text \<open>\<open>n\<close> clones; \<open>None\<close> if one of them is refused.\<close>

fun clones :: "heap \<Rightarrow> nat \<Rightarrow> nyxj_value \<Rightarrow> nyxj_value list option \<times> heap" where
  "clones h 0 v = (Some [], h)"
| "clones h (Suc n) v =
     (case nyxj_clone h (Some v) of
        (None, h) \<Rightarrow> (None, h)
      | (Some w, h) \<Rightarrow> (case clones h n v of (None, h) \<Rightarrow> (None, h) | (Some ws, h) \<Rightarrow> (Some (w # ws), h)))"

text \<open>The size of \<open>nyxj_tmr\<close>.\<close>

definition tmr_bytes :: nat where "tmr_bytes = 32"

definition nyxj_tmr_create :: "heap \<Rightarrow> nyxj_value option \<Rightarrow> nyxj_tmr option \<times> heap" where
  "nyxj_tmr_create h v =
     (case v of
        None \<Rightarrow> (None, h)
      | Some v \<Rightarrow>
          (let (ok, h) = malloc h tmr_bytes
           in if \<not> ok then (None, h)
              else case clones h 3 v of
                (None, h) \<Rightarrow> (None, h)
              | (Some ws, h) \<Rightarrow> (Some \<lparr>replica = ws, repairs = 0\<rparr>, h)))"

text \<open>The comparison of two replicas in the vote.\<close>

definition replicas_agree :: "nyxj_value list \<Rightarrow> nat \<Rightarrow> nat \<Rightarrow> bool" where
  "replicas_agree rs i j \<longleftrightarrow>
     nyxj_checksum (Some (rs ! i)) = nyxj_checksum (Some (rs ! j)) \<and> nyxj_equals False (Some (rs ! i)) (Some (rs ! j))"

definition tmr_winner :: "nyxj_value list \<Rightarrow> nat option" where
  "tmr_winner rs =
     (if replicas_agree rs 0 1 then Some 0
      else if replicas_agree rs 0 2 then Some 0
      else if replicas_agree rs 1 2 then Some 1
      else None)"

text \<open>One round of the repair loop: \<open>h[]\<close> are the checksums before it. The boolean is \<open>*repaired\<close>.\<close>

definition tmr_repair :: "nat \<Rightarrow> nat \<Rightarrow> nyxj_tmr \<times> bool \<times> heap \<Rightarrow> nyxj_tmr \<times> bool \<times> heap" where
  "tmr_repair winner i st =
     (let (t, repaired, h) = st
      in if i = winner \<or> replicas_agree (replica t) i winner then st
         else case nyxj_clone h (Some (replica t ! winner)) of
           (None, h) \<Rightarrow> (t, repaired, h)
         | (Some fixed, h) \<Rightarrow> (\<lparr>replica = (replica t)[i := fixed], repairs = repairs t + 1\<rparr>, True, h))"

text \<open>The value read, whether a replica was repaired, the replicas afterwards.\<close>

definition nyxj_tmr_read :: "heap \<Rightarrow> nyxj_tmr option \<Rightarrow> nyxj_value option \<times> bool \<times> nyxj_tmr option \<times> heap" where
  "nyxj_tmr_read h t =
     (case t of
        None \<Rightarrow> (None, False, None, h)
      | Some t \<Rightarrow>
          (case tmr_winner (replica t) of
             None \<Rightarrow> (None, False, Some t, h)
           | Some w \<Rightarrow>
               (let (t, repaired, h) = tmr_repair w 2 (tmr_repair w 1 (tmr_repair w 0 (t, False, h)))
                in (Some (replica t ! w), repaired, Some t, h))))"

definition nyxj_tmr_write :: "heap \<Rightarrow> nyxj_tmr option \<Rightarrow> nyxj_value option \<Rightarrow> bool \<times> nyxj_tmr option \<times> heap" where
  "nyxj_tmr_write h t v =
     (case (t, v) of
        (Some t, Some v) \<Rightarrow>
          (case clones h 3 v of
             (None, h) \<Rightarrow> (False, Some t, h)
           | (Some ws, h) \<Rightarrow> (True, Some (t\<lparr>replica := ws\<rparr>), h))
      | _ \<Rightarrow> (False, t, h))"

end
