(* ===== verification/Reliability_Facts.thy ===== *)
theory Reliability_Facts
  imports Reliability Patch_Facts Parser_Complete
begin

text \<open>
  What \<^verbatim>\<open>src/modules/reliability.c\<close> guarantees: the checksum of a tree does not depend on where its nodes
  are, a read of three replicas restores the tree that two of them hold, and the verified parse
  accepts what the plain parse accepts as long as no object repeats a key.
\<close>

subsection \<open>Checksums\<close>

lemma checksum_same_tree:
  "abs_value v = abs_value w \<Longrightarrow> checksum_rec h v = checksum_rec h w"
  "map abs_value xs = map abs_value ys \<Longrightarrow> checksum_items h xs = checksum_items h ys"
  "map (map_prod id abs_value) ps = map (map_prod id abs_value) qs \<Longrightarrow> checksum_pairs h ps = checksum_pairs h qs"
proof (induction h v and h xs and h ps arbitrary: w and ys and qs rule: checksum_rec_checksum_items_checksum_pairs.induct)
  case (5 h f xs m)
  from 5(2) obtain g ys n where w: "w = VArray g ys n" "map abs_value xs = map abs_value ys" by (cases w) auto
  have "length xs = length ys" using w(2) by (metis length_map)
  then show ?case using 5(1) [OF w(2)] w(1) by (simp add: type_tag_def)
next
  case (6 h f ps)
  from 6(2) obtain g qs where w: "w = VObject g qs" "map (map_prod id abs_value) ps = map (map_prod id abs_value) qs" by (cases w) auto
  have "length ps = length qs" using w(2) by (metis length_map)
  then show ?case using 6(1) [OF w(2)] w(1) by (simp add: type_tag_def)
next
  case (8 h x xs)
  from 8(3) obtain y zs where ys: "ys = y # zs" "abs_value x = abs_value y" "map abs_value xs = map abs_value zs" by (cases ys) auto
  show ?case unfolding ys(1) checksum_items.simps 8(1) [OF ys(2), symmetric] by (rule 8(2) [OF ys(3)])
next
  case (10 h k x ps)
  obtain l y zs where q: "qs = (l, y) # zs" using 10(3) by (cases qs) auto
  have "(k, abs_value x) # map (map_prod id abs_value) ps = (l, abs_value y) # map (map_prod id abs_value) zs"
    using 10(3) unfolding q list.map map_prod_simp id_apply .
  then have qs: "qs = (k, y) # zs" "abs_value x = abs_value y" "map (map_prod id abs_value) ps = map (map_prod id abs_value) zs"
    using q by (simp_all only: list.inject prod.inject)
  show ?case unfolding qs(1) checksum_pairs.simps 10(1) [OF qs(2), symmetric] by (rule 10(2) [OF qs(3)])
next
  case (1 h f)
  then show ?case by (cases w) (auto simp: type_tag_def)
next
  case (2 h f b)
  then show ?case by (cases w) (auto simp: type_tag_def)
next
  case (3 h f d)
  then show ?case by (cases w) (auto simp: type_tag_def)
next
  case (4 h f s)
  then show ?case by (cases w) (auto simp: type_tag_def)
qed simp_all

lemma nyxj_checksum_same_tree: "abs_value v = abs_value w \<Longrightarrow> nyxj_checksum (Some v) = nyxj_checksum (Some w)"
  unfolding nyxj_checksum_def option.case by (rule checksum_same_tree(1))

lemma clone_same_tree:
  assumes "c_strings v" "heap_total h"
  shows "\<exists>w h'. nyxj_clone h (Some v) = (Some w, h') \<and> heap_total h' \<and> abs_value w = abs_value v \<and> c_strings w"
proof -
  obtain w h' where c: "clone_value h v = (Some w, h')" "heap_total h'" using clone_total(1) [OF assms(2,1)] by blast
  then show ?thesis using clone_sound(1) [OF assms(1) c(1)] unfolding nyxj_clone_def by simp
qed

subsection \<open>The vote\<close>

lemma same_tree_agree:
  "comparable (rs ! i) \<Longrightarrow> abs_value (rs ! j) = abs_value (rs ! i) \<Longrightarrow> replicas_agree rs i j"
  using equals_same_tree [of "rs ! i" "rs ! j"] nyxj_checksum_same_tree [of "rs ! i" "rs ! j"]
  by (simp add: replicas_agree_def nyxj_equals_def)

text \<open>What a round leaves: the winner as it was, and this replica with the checksum of the winner.\<close>

lemma tmr_repair_round:
  assumes "heap_total h" "length (replica t) = 3" "i < 3" "w < 3" "\<forall>v \<in> set (replica t). c_strings v"
  obtains t' r' h' where "tmr_repair w i (t, r, h) = (t', r', h')" "heap_total h'" "length (replica t') = 3"
    "\<forall>v \<in> set (replica t'). c_strings v" "\<forall>j < 3. j \<noteq> i \<longrightarrow> replica t' ! j = replica t ! j"
    "replica t' ! w = replica t ! w" "nyxj_checksum (Some (replica t' ! i)) = nyxj_checksum (Some (replica t ! w))"
proof (cases "i = w \<or> replicas_agree (replica t) i w")
  case True
  then show thesis using assms that by (auto simp: tmr_repair_def replicas_agree_def)
next
  case False
  have "c_strings (replica t ! w)" using assms(2,4,5) by simp
  then obtain v h' where v: "nyxj_clone h (Some (replica t ! w)) = (Some v, h')" "heap_total h'" "abs_value v = abs_value (replica t ! w)" "c_strings v"
    using clone_same_tree assms(1) by blast
  let ?t = "\<lparr>replica = (replica t)[i := v], repairs = repairs t + 1\<rparr>"
  have "tmr_repair w i (t, r, h) = (?t, True, h')" using False v(1) by (simp add: tmr_repair_def)
  moreover have "\<forall>x \<in> set (replica ?t). c_strings x" using assms(5) v(4) set_update_subset_insert [of "replica t" i v] by auto
  moreover have "nyxj_checksum (Some (replica ?t ! i)) = nyxj_checksum (Some (replica t ! w))"
    using nyxj_checksum_same_tree [OF v(3)] assms(2,3) by simp
  ultimately show thesis using that v(2) assms False by auto
qed

lemma tmr_winner_majority:
  assumes "length rs = 3" "i < 3" "j < 3" "i \<noteq> j" "comparable v" "abs_value (rs ! i) = abs_value v" "abs_value (rs ! j) = abs_value v"
  shows "\<exists>w. tmr_winner rs = Some w \<and> w < 3 \<and> equals_value (rs ! w) v"
proof -
  have c: "comparable (rs ! i)" "comparable (rs ! j)" using assms(5-7) by (simp_all add: comparable_tree)
  have a: "replicas_agree rs i j" "replicas_agree rs j i"
    using same_tree_agree [of rs i j] same_tree_agree [of rs j i] c assms(6,7) by simp_all
  have e: "equals_value (rs ! i) v" "equals_value (rs ! j) v"
    using equals_same_tree [OF c(1)] equals_same_tree [OF c(2)] assms(6,7) by simp_all
  have step: "equals_value (rs ! x) v" if "replicas_agree rs x y" "equals_value (rs ! y) v" for x y
    using that equals_trans [of "rs ! x" "rs ! y" v] by (simp add: replicas_agree_def nyxj_equals_def)
  have pair: "equals_value (rs ! x) v \<or> equals_value (rs ! y) v" if "x < 3" "y < 3" "x \<noteq> y" for x y
  proof -
    have "x = i \<or> x = j \<or> y = i \<or> y = j" using assms(2-4) that by linarith
    then show ?thesis using e by blast
  qed
  have good: "equals_value (rs ! x) v" if "replicas_agree rs x y" "x < 3" "y < 3" "x \<noteq> y" for x y
    using pair [OF that(2-4)] step [OF that(1)] by blast
  have "(i = 0 \<or> j = 0) \<and> (i = 1 \<or> j = 1) \<or> (i = 0 \<or> j = 0) \<and> (i = 2 \<or> j = 2) \<or> (i = 1 \<or> j = 1) \<and> (i = 2 \<or> j = 2)"
    using assms(2-4) by linarith
  then have some: "replicas_agree rs 0 1 \<or> replicas_agree rs 0 2 \<or> replicas_agree rs 1 2" using a assms(4) by auto
  consider (a) "tmr_winner rs = Some 0" "replicas_agree rs 0 1 \<or> replicas_agree rs 0 2"
    | (b) "tmr_winner rs = Some 1" "replicas_agree rs 1 2"
    using some unfolding tmr_winner_def by metis
  then show ?thesis
  proof cases
    case a
    then have "equals_value (rs ! 0) v" using good [of 0 1] good [of 0 2] by auto
    then show ?thesis using a(1) by simp
  next
    case b
    then have "equals_value (rs ! 1) v" using good [of 1 2] by simp
    then show ?thesis using b(1) by simp
  qed
qed

lemma tmr_read_majority:
  assumes "heap_total h" "length (replica t) = 3" "\<forall>v \<in> set (replica t). c_strings v"
    "i < 3" "j < 3" "i \<noteq> j" "comparable v" "abs_value (replica t ! i) = abs_value v" "abs_value (replica t ! j) = abs_value v"
  shows "\<exists>w fixed t' h'. nyxj_tmr_read h (Some t) = (Some w, fixed, Some t', h') \<and> equals_value w v \<and>
    length (replica t') = 3 \<and> (\<forall>r \<in> set (replica t'). nyxj_checksum (Some r) = nyxj_checksum (Some w))"
proof -
  obtain k where k: "tmr_winner (replica t) = Some k" "k < 3" "equals_value (replica t ! k) v"
    using tmr_winner_majority [OF assms(2) assms(4-9)] by blast
  obtain t0 r0 h0 where s0: "tmr_repair k 0 (t, False, h) = (t0, r0, h0)" "heap_total h0" "length (replica t0) = 3"
    "\<forall>v \<in> set (replica t0). c_strings v" "\<forall>j < 3. j \<noteq> 0 \<longrightarrow> replica t0 ! j = replica t ! j"
    "replica t0 ! k = replica t ! k" "nyxj_checksum (Some (replica t0 ! 0)) = nyxj_checksum (Some (replica t ! k))"
    by (rule tmr_repair_round [OF assms(1,2) _ k(2) assms(3), of 0]) auto
  obtain t1 r1 h1 where s1: "tmr_repair k 1 (t0, r0, h0) = (t1, r1, h1)" "heap_total h1" "length (replica t1) = 3"
    "\<forall>v \<in> set (replica t1). c_strings v" "\<forall>j < 3. j \<noteq> 1 \<longrightarrow> replica t1 ! j = replica t0 ! j"
    "replica t1 ! k = replica t0 ! k" "nyxj_checksum (Some (replica t1 ! 1)) = nyxj_checksum (Some (replica t0 ! k))"
    by (rule tmr_repair_round [OF s0(2,3) _ k(2) s0(4), of 1]) auto
  obtain t2 r2 h2 where s2: "tmr_repair k 2 (t1, r1, h1) = (t2, r2, h2)" "heap_total h2" "length (replica t2) = 3"
    "\<forall>v \<in> set (replica t2). c_strings v" "\<forall>j < 3. j \<noteq> 2 \<longrightarrow> replica t2 ! j = replica t1 ! j"
    "replica t2 ! k = replica t1 ! k" "nyxj_checksum (Some (replica t2 ! 2)) = nyxj_checksum (Some (replica t1 ! k))"
    by (rule tmr_repair_round [OF s1(2,3) _ k(2) s1(4), of 2]) auto
  have wk: "replica t2 ! k = replica t ! k" using s0(6) s1(6) s2(6) by simp
  have "nyxj_checksum (Some (replica t2 ! n)) = nyxj_checksum (Some (replica t2 ! k))" if "n < 3" for n
  proof -
    have "n = 0 \<or> n = 1 \<or> n = 2" using that by arith
    then show ?thesis by (elim disjE) (use s0 s1 s2 in simp_all)
  qed
  then have "\<forall>r \<in> set (replica t2). nyxj_checksum (Some r) = nyxj_checksum (Some (replica t2 ! k))"
    using s2(3) by (metis in_set_conv_nth)
  moreover have "nyxj_tmr_read h (Some t) = (Some (replica t2 ! k), r2, Some t2, h2)"
    using k(1) s0(1) s1(1) s2(1) by (simp add: nyxj_tmr_read_def)
  ultimately show ?thesis using wk k(3) s2(3) by auto
qed

subsection \<open>The verified parse\<close>

lemma dec_ratio_no_nan: "\<not> dbl_is_nan (dbl_of_ratio neg n d)"
proof -
  have "ratio_mag n d \<le> inf_mag" by (simp add: ratio_mag_def Let_def)
  moreover have "inf_mag < 2 ^ 63" by (simp add: inf_mag_def)
  ultimately have m: "ratio_mag n d \<le> inf_mag" "ratio_mag n d < 2 ^ 63" by linarith+
  have "dbl_mag (dbl_of_ratio neg n d) = ratio_mag n d" unfolding dbl_of_ratio_def using m(2) by simp
  then show ?thesis using m(1) by (simp add: dbl_is_nan_def)
qed

lemma strtod_no_nan: "\<not> dbl_is_nan (fst (strtod s))"
proof -
  have "\<not> dbl_is_nan 0" by (simp add: dbl_is_nan_def dbl_mag_def)
  then show ?thesis by (auto simp: strtod_def dec_ratio_def dec_ratio_no_nan Let_def split: prod.splits)
qed

lemma json_text_comparable:
  "json_text d u t v \<Longrightarrow> u \<longrightarrow> tree_comparable v"
  "json_items d u t vs \<Longrightarrow> u \<longrightarrow> (\<forall>v \<in> set vs. tree_comparable v)"
  "json_members d u t ms \<Longrightarrow> u \<longrightarrow> (\<forall>(k, v) \<in> set ms. tree_comparable v)"
  by (induction rule: json_text_json_items_json_members.inducts) (auto simp: strtod_no_nan)

lemma parse_ex_valid: "is_valid (nyxj_parse_ex b h json opts) \<longleftrightarrow> root (nyxj_parse_ex b h json opts) \<noteq> None"
  by (simp add: nyxj_parse_ex_def failed_result_def Let_def split: option.split presult.split)

lemma parse_verified_grammar:
  assumes "heap_total h" "heap_total h'" "plain_options opts" "reject_duplicate_keys (opt_flags opts)"
  shows "(\<exists>v. root (nyxj_parse_verified b h h' (Some json) (Some opts)) = Some v \<and> abs_value v = t) \<longleftrightarrow>
    json_document (depth_limit opts) True (after_bom json) t"
proof -
  let ?o = "opts\<lparr>opt_arena := None\<rparr>"
  have o: "plain_options ?o" "depth_limit ?o = depth_limit opts" "reject_duplicate_keys (opt_flags ?o)"
    using assms(3,4) by (simp_all add: plain_options_def depth_limit_def)
  have g: "(\<exists>v. root (nyxj_parse_ex b h (Some json) (Some ?o)) = Some v \<and> abs_value v = t) \<longleftrightarrow>
      json_document (depth_limit opts) True (after_bom json) t"
    and g': "(\<exists>v. root (nyxj_parse_ex b h' (Some json) (Some ?o)) = Some v \<and> abs_value v = t) \<longleftrightarrow>
      json_document (depth_limit opts) True (after_bom json) t" for t
    using parse_ex_grammar [OF assms(1) o(1)] parse_ex_grammar [OF assms(2) o(1)] o(2,3) by simp_all
  let ?p = "nyxj_parse_ex b h (Some json) (Some ?o)" and ?s = "nyxj_parse_ex b h' (Some json) (Some ?o)"
  have ver: "nyxj_parse_verified b h h' (Some json) (Some opts) = (if results_agree ?p ?s then ?p else
      failed_result (nyxj_error_set NYXJ_ERR_INTEGRITY (Some ''shadow execution produced diverging results'') no_error) None (heap_after ?p))"
    by (simp add: nyxj_parse_verified_def Let_def)
  show ?thesis
  proof (cases "root ?p")
    case None
    then have "\<not> json_document (depth_limit opts) True (after_bom json) t" using g [of t] by simp
    moreover have "root (nyxj_parse_verified b h h' (Some json) (Some opts)) = None"
      unfolding ver using None by (simp add: failed_result_def)
    ultimately show ?thesis by simp
  next
    case (Some v)
    then have d: "json_document (depth_limit opts) True (after_bom json) (abs_value v)" using g by blast
    then obtain w where w: "root ?s = Some w" "abs_value w = abs_value v" using g' by blast
    have c: "comparable v" using d json_text_comparable(1) unfolding comparable_tree json_document_def by blast
    have "results_agree ?p ?s"
      using Some w parse_ex_valid [of b h] parse_ex_valid [of b h'] equals_same_tree [OF c w(2)] nyxj_checksum_same_tree [OF w(2)]
      by (simp add: results_agree_def nyxj_equals_def)
    then show ?thesis unfolding ver using g [of t] by simp
  qed
qed

text \<open>A repeated key with two values makes the two parses disagree.\<close>

lemma parse_verified_duplicate:
  "code (error (nyxj_parse_verified Scalar roomy_heap roomy_heap (Some ''{\"a\":true,\"a\":false}'') None)) = NYXJ_ERR_INTEGRITY"
proof -
  let ?p = "nyxj_parse_ex Scalar roomy_heap (Some ''{\"a\":true,\"a\":false}'') (Some (nyxj_parse_options_default\<lparr>opt_arena := None\<rparr>))"
  have "map_option (\<lambda>v. equals_value v v) (root ?p) = Some False" by code_simp
  then obtain v where v: "root ?p = Some v" "\<not> equals_value v v" by auto
  then have "\<not> results_agree ?p ?p" using parse_ex_valid by (simp add: results_agree_def nyxj_equals_def)
  then show ?thesis
    unfolding nyxj_parse_verified_def Let_def option.case by (simp only: if_False failed_result_def nyxj_result.simps) simp
qed

end
