(* ===== verification/Sax.thy ===== *)
theory Sax
  imports Parser
begin

text \<open>
  \<^verbatim>\<open>src/modules/sax.c\<close>: the push parser, a state machine that is fed the input in chunks and calls a handler.

  The container stack and the element counters are one list with the innermost level first, so \<open>depth\<close> is its
  length; a counter has 32 bits. \<open>'u\<close> is what \<open>user\<close> points to: a callback returns its result and the new
  \<open>user\<close>, \<open>None\<close> stands for a NULL callback. A step returns whether it succeeded, and the parser. The last
  field of the parser is the allocator, which the conversion of a number uses.
\<close>

datatype sax_state =
    ST_VALUE
  | ST_ARRAY_FIRST
  | ST_OBJECT_FIRST
  | ST_KEY
  | ST_COLON
  | ST_AFTER_VALUE
  | ST_DONE
  | ST_STRING
  | ST_STRING_ESC
  | ST_STRING_U
  | ST_NUMBER
  | ST_LITERAL
  | ST_ERROR

record 'u sax_handler =
  on_object_start :: "('u \<Rightarrow> bool \<times> 'u) option"
  on_object_end :: "('u \<Rightarrow> bool \<times> 'u) option"
  on_array_start :: "('u \<Rightarrow> bool \<times> 'u) option"
  on_array_end :: "('u \<Rightarrow> bool \<times> 'u) option"
  on_key :: "(bytes \<Rightarrow> 'u \<Rightarrow> bool \<times> 'u) option"
  on_string :: "(bytes \<Rightarrow> 'u \<Rightarrow> bool \<times> 'u) option"
  on_number :: "(double \<Rightarrow> bytes \<Rightarrow> 'u \<Rightarrow> bool \<times> 'u) option"
  on_bool :: "(bool \<Rightarrow> 'u \<Rightarrow> bool \<times> 'u) option"
  on_null :: "('u \<Rightarrow> bool \<times> 'u) option"
  on_document_end :: "('u \<Rightarrow> bool \<times> 'u) option"

record sax_options =
  so_max_depth :: int
  so_max_token_size :: nat
  so_max_elements :: nat
  so_multi_document :: bool

record 'u nyxj_sax =
  sx_h :: "'u sax_handler"
  sx_user :: 'u
  sx_max_depth :: nat
  sx_max_token :: nat
  sx_max_elements :: nat
  sx_multi :: bool
  sx_state :: sax_state
  sx_stack :: "(char \<times> 32 word) list"
  sx_tok :: bytes
  sx_is_key :: bool
  sx_lit :: string
  sx_lit_pos :: nat
  sx_u_count :: nat
  sx_u_val :: nat
  sx_pending_high :: nat
  sx_utf8_need :: nat
  sx_utf8_lo :: nat
  sx_utf8_hi :: nat
  sx_bom_pos :: nat
  sx_offset :: nat
  sx_line :: nat
  sx_column :: nat
  sx_documents :: nat
  sx_err :: nyxj_error
  sx_heap :: heap

type_synonym 'u sax_step = "bool \<times> 'u nyxj_sax"

text \<open>\<open>sfail\<close>: the first failure is kept.\<close>

definition sfail :: "'u nyxj_sax \<Rightarrow> nyxj_error_code \<Rightarrow> string option \<Rightarrow> 'u sax_step" where
  "sfail s ec detail =
     (if sx_state s = ST_ERROR then (False, s)
      else (False, s\<lparr>sx_state := ST_ERROR,
              sx_err := \<lparr>code = ec, offset = sx_offset s, line = sx_line s, column = sx_column s,
                message = snprintf 160 (error_text ec [] (sx_line s) (sx_column s) detail)\<rparr>\<rparr>))"

text \<open>\<open>a && b\<close>.\<close>

definition and_then :: "'u sax_step \<Rightarrow> ('u nyxj_sax \<Rightarrow> 'u sax_step) \<Rightarrow> 'u sax_step" where
  "and_then r f = (let (ok, s) = r in if ok then f s else (False, s))"

text \<open>The macros \<open>CB\<close> and \<open>CB0\<close>.\<close>

definition callback :: "('u \<Rightarrow> bool \<times> 'u) option \<Rightarrow> 'u nyxj_sax \<Rightarrow> 'u sax_step" where
  "callback f s =
     (case f of
        None \<Rightarrow> (True, s)
      | Some f \<Rightarrow>
          (let (ok, u) = f (sx_user s); s = s\<lparr>sx_user := u\<rparr>
           in if ok then (True, s) else sfail s NYXJ_ERR_INVALID_ARGUMENT (Some ''aborted by handler'')))"

definition nyxj_sax_reset :: "'u nyxj_sax \<Rightarrow> 'u nyxj_sax" where
  "nyxj_sax_reset s =
     s\<lparr>sx_state := ST_VALUE, sx_stack := [], sx_tok := [], sx_pending_high := 0, sx_utf8_need := 0, sx_bom_pos := 0,
       sx_offset := 0, sx_line := 1, sx_column := 1, sx_documents := 0, sx_err := no_error\<rparr>"

definition empty_handler :: "'u sax_handler" where
  "empty_handler =
     \<lparr>on_object_start = None, on_object_end = None, on_array_start = None, on_array_end = None, on_key = None,
      on_string = None, on_number = None, on_bool = None, on_null = None, on_document_end = None\<rparr>"

definition sax_options_zero :: sax_options where
  "sax_options_zero = \<lparr>so_max_depth = 0, so_max_token_size = 0, so_max_elements = 0, so_multi_document = False\<rparr>"

text \<open>The size of \<open>struct nyxj_sax\<close> is a parameter of the platform.\<close>

definition nyxj_sax_create ::
    "heap \<Rightarrow> nat \<Rightarrow> 'u sax_handler option \<Rightarrow> 'u \<Rightarrow> sax_options option \<Rightarrow> 'u nyxj_sax option \<times> heap" where
  "nyxj_sax_create hp sax_bytes handler user opts =
     (let (ok0, hp) = malloc hp sax_bytes
      in if \<not> ok0 then (None, hp)
         else let ops = (case opts of None \<Rightarrow> sax_options_zero | Some ops \<Rightarrow> ops);
                  depth_max = nat (if so_max_depth ops \<le> 0 then default_max_depth else so_max_depth ops);
                  token_max = (if so_max_token_size ops = 0 then 64 * 1024 else so_max_token_size ops);
                  (ok1, hp) = malloc hp depth_max;
                  (ok2, hp) = malloc hp (4 * depth_max);
                  (ok3, hp) = malloc hp (token_max + 1)
              in if \<not> ok1 \<or> \<not> ok2 \<or> \<not> ok3 then (None, hp)
                 else (Some (nyxj_sax_reset
                   \<lparr>sx_h = (case handler of None \<Rightarrow> empty_handler | Some h \<Rightarrow> h), sx_user = user,
                    sx_max_depth = depth_max, sx_max_token = token_max, sx_max_elements = so_max_elements ops,
                    sx_multi = so_multi_document ops, sx_state = ST_VALUE, sx_stack = [], sx_tok = [], sx_is_key = False,
                    sx_lit = [], sx_lit_pos = 0, sx_u_count = 0, sx_u_val = 0, sx_pending_high = 0, sx_utf8_need = 0,
                    sx_utf8_lo = 0, sx_utf8_hi = 0, sx_bom_pos = 0, sx_offset = 0, sx_line = 0, sx_column = 0,
                    sx_documents = 0, sx_err = no_error, sx_heap = hp\<rparr>), hp))"

definition nyxj_sax_memory :: "nat \<Rightarrow> 'u nyxj_sax \<Rightarrow> nat" where
  "nyxj_sax_memory sax_bytes s = sax_bytes + sx_max_depth s * (1 + 4) + sx_max_token s + 1"

subsection \<open>Tokens and containers\<close>

definition tok_put :: "'u nyxj_sax \<Rightarrow> char \<Rightarrow> 'u sax_step" where
  "tok_put s c =
     (if sx_max_token s \<le> length (sx_tok s)
      then sfail s NYXJ_ERR_STRING_LIMIT (Some ''token larger than max_token_size'')
      else (True, s\<lparr>sx_tok := sx_tok s @ [c]\<rparr>))"

fun tok_put_all :: "'u nyxj_sax \<Rightarrow> bytes \<Rightarrow> 'u sax_step" where
  "tok_put_all s [] = (True, s)"
| "tok_put_all s (c # cs) = and_then (tok_put s c) (\<lambda>s. tok_put_all s cs)"

definition tok_put_cp :: "'u nyxj_sax \<Rightarrow> nat \<Rightarrow> 'u sax_step" where
  "tok_put_cp s cp = tok_put_all s (nyxj_utf8_encode cp)"

text \<open>The counter is only touched when there is a limit.\<close>

definition end_value :: "'u nyxj_sax \<Rightarrow> 'u sax_step" where
  "end_value s =
     (case sx_stack s of
        [] \<Rightarrow>
          (let s = s\<lparr>sx_documents := sx_documents s + 1, sx_state := ST_DONE\<rparr> in callback (on_document_end (sx_h s)) s)
      | (k, n) # levels \<Rightarrow>
          (if sx_max_elements s \<noteq> 0
           then let s = s\<lparr>sx_stack := (k, n + 1) # levels\<rparr>
                in if unat (n + 1) > sx_max_elements s then sfail s NYXJ_ERR_ELEMENT_LIMIT None
                   else (True, s\<lparr>sx_state := ST_AFTER_VALUE\<rparr>)
           else (True, s\<lparr>sx_state := ST_AFTER_VALUE\<rparr>)))"

definition push :: "'u nyxj_sax \<Rightarrow> char \<Rightarrow> 'u sax_step" where
  "push s kind =
     (if sx_max_depth s \<le> length (sx_stack s) then sfail s NYXJ_ERR_DEPTH_LIMIT None
      else (True, s\<lparr>sx_stack := (kind, 0) # sx_stack s\<rparr>))"

definition close_container :: "'u nyxj_sax \<Rightarrow> char \<Rightarrow> 'u sax_step" where
  "close_container s kind =
     (if sx_stack s = [] \<or> fst (hd (sx_stack s)) \<noteq> kind
      then sfail s NYXJ_ERR_UNEXPECTED_CHAR (Some ''mismatched closing bracket'')
      else let s = s\<lparr>sx_stack := tl (sx_stack s)\<rparr>
           in and_then (callback (if kind = CHR ''O'' then on_object_end (sx_h s) else on_array_end (sx_h s)) s) end_value)"

definition start_literal :: "'u nyxj_sax \<Rightarrow> string \<Rightarrow> 'u sax_step" where
  "start_literal s w = (True, s\<lparr>sx_lit := w, sx_lit_pos := 1, sx_state := ST_LITERAL\<rparr>)"

definition begin_value :: "'u nyxj_sax \<Rightarrow> char \<Rightarrow> 'u sax_step" where
  "begin_value s ch =
     (if ch = CHR ''{''
      then and_then (and_then (push s (CHR ''O'')) (\<lambda>s. callback (on_object_start (sx_h s)) s))
             (\<lambda>s. (True, s\<lparr>sx_state := ST_OBJECT_FIRST\<rparr>))
      else if ch = CHR ''[''
      then and_then (and_then (push s (CHR ''A'')) (\<lambda>s. callback (on_array_start (sx_h s)) s))
             (\<lambda>s. (True, s\<lparr>sx_state := ST_ARRAY_FIRST\<rparr>))
      else if ch = CHR 0x22 then (True, s\<lparr>sx_is_key := False, sx_tok := [], sx_state := ST_STRING\<rparr>)
      else if ch = CHR ''t'' then start_literal s ''true''
      else if ch = CHR ''f'' then start_literal s ''false''
      else if ch = CHR ''n'' then start_literal s ''null''
      else if ch = CHR ''-'' \<or> nyxj_is_digit ch then tok_put (s\<lparr>sx_tok := [], sx_state := ST_NUMBER\<rparr>) ch
      else sfail s NYXJ_ERR_UNEXPECTED_CHAR (Some ''expected a value''))"

definition finish_number :: "'u nyxj_sax \<Rightarrow> 'u sax_step" where
  "finish_number s =
     (if nyxj_scan_number (sx_tok s) \<noteq> Some [] then sfail s NYXJ_ERR_INVALID_NUMBER None
      else let (v, hp) = nyxj_number_value (sx_heap s) (sx_tok s); s = s\<lparr>sx_heap := hp\<rparr>
           in and_then (callback (map_option (\<lambda>f. f v (sx_tok s)) (on_number (sx_h s))) s) end_value)"

definition finish_string :: "'u nyxj_sax \<Rightarrow> 'u sax_step" where
  "finish_string s =
     (if sx_is_key s
      then and_then (callback (map_option (\<lambda>f. f (sx_tok s)) (on_key (sx_h s))) s)
             (\<lambda>s. (True, s\<lparr>sx_state := ST_COLON\<rparr>))
      else and_then (callback (map_option (\<lambda>f. f (sx_tok s)) (on_string (sx_h s))) s) end_value)"

subsection \<open>The bytes of a string\<close>

text \<open>How many continuation bytes a lead byte asks for, and the range of the first of them.\<close>

definition lead_byte :: "nat \<Rightarrow> (nat \<times> nat \<times> nat) option" where
  "lead_byte b =
     (if 0xC2 \<le> b \<and> b \<le> 0xDF then Some (1, 0x80, 0xBF)
      else if b = 0xE0 then Some (2, 0xA0, 0xBF)
      else if 0xE1 \<le> b \<and> b \<le> 0xEC \<or> b = 0xEE \<or> b = 0xEF then Some (2, 0x80, 0xBF)
      else if b = 0xED then Some (2, 0x80, 0x9F)
      else if b = 0xF0 then Some (3, 0x90, 0xBF)
      else if 0xF1 \<le> b \<and> b \<le> 0xF3 then Some (3, 0x80, 0xBF)
      else if b = 0xF4 then Some (3, 0x80, 0x8F)
      else None)"

definition string_byte :: "'u nyxj_sax \<Rightarrow> char \<Rightarrow> 'u sax_step" where
  "string_byte s ch =
     (if sx_pending_high s \<noteq> 0
      then if ch \<noteq> CHR 0x5C then sfail s NYXJ_ERR_INVALID_UNICODE (Some ''high surrogate without low surrogate'')
           else (True, s\<lparr>sx_state := ST_STRING_ESC\<rparr>)
      else if sx_utf8_need s > 0
      then if byte ch < sx_utf8_lo s \<or> byte ch > sx_utf8_hi s then sfail s NYXJ_ERR_INVALID_UTF8 None
           else tok_put (s\<lparr>sx_utf8_need := sx_utf8_need s - 1, sx_utf8_lo := 0x80, sx_utf8_hi := 0xBF\<rparr>) ch
      else if ch = CHR 0x22 then finish_string s
      else if ch = CHR 0x5C then (True, s\<lparr>sx_state := ST_STRING_ESC\<rparr>)
      else if byte ch < 0x20 then sfail s NYXJ_ERR_CONTROL_CHAR None
      else if byte ch \<ge> 0x80
      then case lead_byte (byte ch) of
             None \<Rightarrow> sfail (s\<lparr>sx_utf8_lo := 0x80, sx_utf8_hi := 0xBF\<rparr>) NYXJ_ERR_INVALID_UTF8 None
           | Some (need, lo, hi) \<Rightarrow> tok_put (s\<lparr>sx_utf8_need := need, sx_utf8_lo := lo, sx_utf8_hi := hi\<rparr>) ch
      else tok_put s ch)"

definition escape_byte :: "'u nyxj_sax \<Rightarrow> char \<Rightarrow> 'u sax_step" where
  "escape_byte s ch =
     (if sx_pending_high s \<noteq> 0 \<and> ch \<noteq> CHR ''u''
      then sfail s NYXJ_ERR_INVALID_UNICODE (Some ''high surrogate without low surrogate'')
      else if ch = CHR ''u'' then (True, s\<lparr>sx_u_count := 0, sx_u_val := 0, sx_state := ST_STRING_U\<rparr>)
      else case single_escape ch of
             None \<Rightarrow> sfail s NYXJ_ERR_INVALID_ESCAPE None
           | Some d \<Rightarrow> tok_put (s\<lparr>sx_state := ST_STRING\<rparr>) d)"

text \<open>The low four bits of the shifted accumulator are clear, so the sum is the disjunction.\<close>

definition unicode_byte :: "'u nyxj_sax \<Rightarrow> char \<Rightarrow> 'u sax_step" where
  "unicode_byte s ch =
     (case (if nyxj_is_digit ch then Some (byte ch - byte (CHR ''0''))
            else if byte (CHR ''a'') \<le> byte ch \<and> byte ch \<le> byte (CHR ''f'') then Some (byte ch - byte (CHR ''a'') + 10)
            else if byte (CHR ''A'') \<le> byte ch \<and> byte ch \<le> byte (CHR ''F'') then Some (byte ch - byte (CHR ''A'') + 10)
            else None) of
        None \<Rightarrow> sfail s NYXJ_ERR_INVALID_UNICODE None
      | Some d \<Rightarrow>
          let s = s\<lparr>sx_u_val := sx_u_val s * 16 + d, sx_u_count := sx_u_count s + 1\<rparr>
          in if sx_u_count s < 4 then (True, s)
             else let s = s\<lparr>sx_state := ST_STRING\<rparr>; u = sx_u_val s; high = sx_pending_high s
                  in if high \<noteq> 0
                     then if u < 0xDC00 \<or> u > 0xDFFF then sfail s NYXJ_ERR_INVALID_UNICODE None
                          else tok_put_cp (s\<lparr>sx_pending_high := 0\<rparr>) (0x10000 + (high - 0xD800) * 1024 + (u - 0xDC00))
                     else if u \<ge> 0xD800 \<and> u \<le> 0xDBFF then (True, s\<lparr>sx_pending_high := u\<rparr>)
                     else if u \<ge> 0xDC00 \<and> u \<le> 0xDFFF then sfail s NYXJ_ERR_INVALID_UNICODE None
                     else tok_put_cp s u)"

definition is_number_char :: "char \<Rightarrow> bool" where
  "is_number_char ch \<longleftrightarrow> nyxj_is_digit ch \<or> ch \<in> {CHR ''-'', CHR ''+'', CHR ''.'', CHR ''e'', CHR ''E''}"

subsection \<open>The state machine\<close>

definition literal_byte :: "'u nyxj_sax \<Rightarrow> char \<Rightarrow> 'u sax_step" where
  "literal_byte s ch =
     (if ch \<noteq> sx_lit s ! sx_lit_pos s then sfail s NYXJ_ERR_INVALID_LITERAL None
      else let s = s\<lparr>sx_lit_pos := sx_lit_pos s + 1\<rparr>
           in if sx_lit_pos s = length (sx_lit s)
              then and_then
                (if hd (sx_lit s) = CHR ''n'' then callback (on_null (sx_h s)) s
                 else callback (map_option (\<lambda>f. f (hd (sx_lit s) = CHR ''t'')) (on_bool (sx_h s))) s)
                end_value
              else (True, s))"

text \<open>The \<open>switch\<close> of \<open>nyxj_sax_feed\<close>, apart from \<open>ST_NUMBER\<close> at a delimiter, which the loop handles.\<close>

definition state_byte :: "'u nyxj_sax \<Rightarrow> char \<Rightarrow> 'u sax_step" where
  "state_byte s ch =
     (let ws = nyxj_is_ws ch in
      case sx_state s of
        ST_VALUE \<Rightarrow> if ws then (True, s) else begin_value s ch
      | ST_ARRAY_FIRST \<Rightarrow>
          if ws then (True, s) else if ch = CHR '']'' then close_container s (CHR ''A'') else begin_value s ch
      | ST_OBJECT_FIRST \<Rightarrow>
          if ws then (True, s)
          else if ch = CHR 0x22 then (True, s\<lparr>sx_is_key := True, sx_tok := [], sx_state := ST_STRING\<rparr>)
          else if ch = CHR ''}'' then close_container s (CHR ''O'')
          else sfail s NYXJ_ERR_UNEXPECTED_CHAR (Some ''expected a string key'')
      | ST_KEY \<Rightarrow>
          if ws then (True, s)
          else if ch = CHR 0x22 then (True, s\<lparr>sx_is_key := True, sx_tok := [], sx_state := ST_STRING\<rparr>)
          else sfail s NYXJ_ERR_UNEXPECTED_CHAR (Some ''expected a string key'')
      | ST_COLON \<Rightarrow>
          if ws then (True, s)
          else if ch = CHR '':'' then (True, s\<lparr>sx_state := ST_VALUE\<rparr>)
          else sfail s NYXJ_ERR_UNEXPECTED_CHAR (Some (quoted ''expected ~:~''))
      | ST_AFTER_VALUE \<Rightarrow>
          if ws then (True, s)
          else if ch = CHR '',''
          then (True, s\<lparr>sx_state := (if fst (hd (sx_stack s)) = CHR ''O'' then ST_KEY else ST_VALUE)\<rparr>)
          else if ch = CHR ''}'' then close_container s (CHR ''O'')
          else if ch = CHR '']'' then close_container s (CHR ''A'')
          else sfail s NYXJ_ERR_UNEXPECTED_CHAR (Some (quoted ''expected ~,~ or a closing bracket''))
      | ST_DONE \<Rightarrow>
          if ws then (True, s)
          else if sx_multi s then begin_value s ch
          else sfail s NYXJ_ERR_TRAILING_DATA None
      | ST_STRING \<Rightarrow> string_byte s ch
      | ST_STRING_ESC \<Rightarrow> escape_byte s ch
      | ST_STRING_U \<Rightarrow> unicode_byte s ch
      | ST_NUMBER \<Rightarrow> tok_put s ch
      | ST_LITERAL \<Rightarrow> literal_byte s ch
      | ST_ERROR \<Rightarrow> (False, s))"

definition advance :: "'u nyxj_sax \<Rightarrow> char \<Rightarrow> 'u nyxj_sax" where
  "advance s ch =
     (let s = s\<lparr>sx_offset := sx_offset s + 1\<rparr>
      in if ch = CHR 0x0A then s\<lparr>sx_line := sx_line s + 1, sx_column := 1\<rparr> else s\<lparr>sx_column := sx_column s + 1\<rparr>)"

definition bom_expected :: "'u nyxj_sax \<Rightarrow> bool" where
  "bom_expected s \<longleftrightarrow> sx_offset s < 3 \<and> sx_bom_pos s = sx_offset s \<and> sx_state s = ST_VALUE \<and> sx_stack s = []"

definition bom_byte :: "nat \<Rightarrow> char" where
  "bom_byte k = [CHR 0xEF, CHR 0xBB, CHR 0xBF] ! k"

lemma sfail_False [simp]: "sfail s ec d \<noteq> (True, s')"
  by (simp add: sfail_def)

lemma finish_number_leaves: "finish_number s = (True, s') \<Longrightarrow> sx_state s' \<noteq> ST_NUMBER"
  by (auto simp: finish_number_def and_then_def callback_def end_value_def Let_def
      split: if_splits option.splits prod.splits list.splits)

text \<open>One turn of the loop handles a byte, or finishes a number and looks at the delimiter again.\<close>

function feed_loop :: "'u nyxj_sax \<Rightarrow> bytes \<Rightarrow> 'u sax_step" where
  "feed_loop s [] = (True, s)"
| "feed_loop s (ch # rest) =
     (if bom_expected s \<and> ch = bom_byte (sx_bom_pos s)
      then feed_loop (s\<lparr>sx_bom_pos := sx_bom_pos s + 1, sx_offset := sx_offset s + 1\<rparr>) rest
      else if bom_expected s \<and> sx_bom_pos s > 0
      then sfail s NYXJ_ERR_INVALID_UTF8 (Some ''truncated byte order mark'')
      else if sx_state s = ST_NUMBER \<and> \<not> is_number_char ch
      then (case finish_number s of (ok, s') \<Rightarrow> if ok then feed_loop s' (ch # rest) else (False, s'))
      else (case state_byte s ch of (ok, s') \<Rightarrow> if ok then feed_loop (advance s' ch) rest else (False, s')))"
  by pat_completeness auto
termination
  by (relation "measure (\<lambda>(s, t). 2 * length t + (if sx_state s = ST_NUMBER then 1 else 0))")
    (auto dest!: finish_number_leaves sym [of "(True, _)"])

declare feed_loop.simps [simp del]

definition nyxj_sax_feed :: "'u nyxj_sax \<Rightarrow> bytes \<Rightarrow> 'u sax_step" where
  "nyxj_sax_feed s txt = (if sx_state s = ST_ERROR then (False, s) else feed_loop s txt)"

definition nyxj_sax_finish :: "'u nyxj_sax \<Rightarrow> 'u sax_step" where
  "nyxj_sax_finish s =
     (if sx_state s = ST_ERROR then (False, s)
      else and_then (if sx_state s = ST_NUMBER then finish_number s else (True, s))
        (\<lambda>s. if sx_state s = ST_DONE then (True, s)
             else if sx_multi s \<and> sx_state s = ST_VALUE \<and> sx_stack s = [] then (True, s)
             else sfail s NYXJ_ERR_UNEXPECTED_EOF None))"

text \<open>\<open>nyxj_sax_validate\<close> returns the verdict and the error, which is clear when the text is valid.\<close>

definition nyxj_sax_validate :: "heap \<Rightarrow> nat \<Rightarrow> bytes \<Rightarrow> sax_options option \<Rightarrow> bool \<times> nyxj_error \<times> heap" where
  "nyxj_sax_validate hp sax_bytes txt opts =
     (let ops = (case opts of None \<Rightarrow> sax_options_zero | Some ops \<Rightarrow> ops);
          ops = (if so_max_token_size ops = 0
                 then ops\<lparr>so_max_token_size := min (length txt + 1) (64 * 2 ^ 20)\<rparr> else ops)
      in case nyxj_sax_create hp sax_bytes (None :: unit sax_handler option) () (Some ops) of
           (None, hp) \<Rightarrow> (False, nyxj_error_set NYXJ_ERR_OUT_OF_MEMORY None no_error, hp)
         | (Some s, hp) \<Rightarrow>
             (let (ok, s) = and_then (nyxj_sax_feed s txt) nyxj_sax_finish
              in (ok, if ok then no_error else sx_err s, sx_heap s)))"

end
