(* ===== verification/Gate.thy ===== *)
theory Gate
  imports Sax
begin

text \<open>
  \<^verbatim>\<open>src/modules/gate.c\<close>: the payload filter in front of the parser. The payload is \<open>buf\<close> and its length
  \<open>len\<close>, which is the length of \<open>buf\<close> when that is not NULL.
\<close>

record nyxj_gate_policy =
  gp_max_size :: nat
  gp_max_depth :: int
  gp_max_string_length :: nat
  gp_max_elements :: nat
  gp_require_object_root :: bool
  gp_allow_empty :: bool

record nyxj_gate_verdict =
  allowed :: bool
  gv_error :: nyxj_error
  reason :: "string option"
  body_offset :: nat

definition nyxj_gate_policy_default :: nyxj_gate_policy where
  "nyxj_gate_policy_default =
     \<lparr>gp_max_size = 1024 * 1024, gp_max_depth = 64, gp_max_string_length = 64 * 1024, gp_max_elements = 10000,
      gp_require_object_root = False, gp_allow_empty = False\<rparr>"

definition nyxj_gate_policy_strict :: nyxj_gate_policy where
  "nyxj_gate_policy_strict =
     \<lparr>gp_max_size = 64 * 1024, gp_max_depth = 16, gp_max_string_length = 4096, gp_max_elements = 1000,
      gp_require_object_root = True, gp_allow_empty = False\<rparr>"

definition reason_for :: "nyxj_error_code \<Rightarrow> string" where
  "reason_for ec =
     (case ec of
        NYXJ_ERR_SIZE_LIMIT \<Rightarrow> ''size_limit''
      | NYXJ_ERR_DEPTH_LIMIT \<Rightarrow> ''depth_limit''
      | NYXJ_ERR_STRING_LIMIT \<Rightarrow> ''string_limit''
      | NYXJ_ERR_ELEMENT_LIMIT \<Rightarrow> ''element_limit''
      | NYXJ_ERR_INVALID_UTF8 \<Rightarrow> ''invalid_utf8''
      | NYXJ_ERR_CONTROL_CHAR \<Rightarrow> ''control_char''
      | NYXJ_ERR_TYPE_MISMATCH \<Rightarrow> ''root_type''
      | NYXJ_ERR_UNEXPECTED_EOF \<Rightarrow> ''empty_or_truncated''
      | _ \<Rightarrow> ''malformed'')"

definition deny :: "nyxj_gate_verdict \<Rightarrow> nyxj_error_code \<Rightarrow> string option \<Rightarrow> nyxj_gate_verdict" where
  "deny v ec msg =
     (let v = v\<lparr>allowed := False\<rparr>;
          v = (if code (gv_error v) = NYXJ_OK
               then v\<lparr>gv_error := nyxj_error_set ec (Some (case msg of None \<Rightarrow> nyxj_strerror ec | Some m \<Rightarrow> m)) (gv_error v)\<rparr>
               else v)
      in v\<lparr>reason := Some (reason_for (code (gv_error v)))\<rparr>)"

definition gate_options :: "nyxj_gate_policy \<Rightarrow> sax_options" where
  "gate_options p =
     sax_options_zero\<lparr>so_max_depth := (if gp_max_depth p > 0 then gp_max_depth p else default_max_depth),
       so_max_token_size := (if gp_max_string_length p \<noteq> 0 then gp_max_string_length p else 64 * 1024),
       so_max_elements := gp_max_elements p\<rparr>"

text \<open>The body after the size and byte order mark checks, which has \<open>gate_body\<close> for the rest.\<close>

definition gate_body ::
    "simd_backend \<Rightarrow> heap \<Rightarrow> nat \<Rightarrow> nyxj_gate_policy \<Rightarrow> bytes \<Rightarrow> nyxj_gate_verdict \<Rightarrow> nyxj_gate_verdict \<times> heap" where
  "gate_body be hp sax_bytes p body v =
     (let first = nyxj_scan_ws be body
      in if first = []
         then if gp_allow_empty p then (v\<lparr>allowed := True, reason := Some ''ok''\<rparr>, hp)
              else (deny v NYXJ_ERR_UNEXPECTED_EOF (Some ''empty payload''), hp)
         else if NUL \<in> set body then (deny v NYXJ_ERR_CONTROL_CHAR (Some ''payload contains NUL bytes''), hp)
         else if gp_require_object_root p \<and> hd first \<noteq> CHR ''{''
         then (deny v NYXJ_ERR_TYPE_MISMATCH (Some ''payload root must be a JSON object''), hp)
         else (case nyxj_sax_validate hp sax_bytes body (Some (gate_options p)) of
                 (ok, e, hp) \<Rightarrow>
                   if \<not> ok
                   then let e = (if code e = NYXJ_OK then e\<lparr>code := NYXJ_ERR_UNEXPECTED_CHAR\<rparr> else e);
                            v = v\<lparr>gv_error := e\<lparr>offset := offset e + body_offset v\<rparr>\<rparr>
                        in (deny v (code (gv_error v)) None, hp)
                   else (v\<lparr>allowed := True, reason := Some ''ok''\<rparr>, hp)))"

definition nyxj_gate_check ::
    "simd_backend \<Rightarrow> heap \<Rightarrow> nat \<Rightarrow> bytes option \<Rightarrow> nat \<Rightarrow> nyxj_gate_policy option \<Rightarrow> nyxj_gate_verdict \<times> heap" where
  "nyxj_gate_check be hp sax_bytes buf len policy =
     (let v = \<lparr>allowed = False, gv_error = no_error, reason = None, body_offset = 0\<rparr>;
          p = (case policy of None \<Rightarrow> nyxj_gate_policy_default | Some p \<Rightarrow> p)
      in if buf = None \<and> len \<noteq> 0 then (deny v NYXJ_ERR_NULL_INPUT None, hp)
         else if gp_max_size p \<noteq> 0 \<and> len > gp_max_size p
         then (deny v NYXJ_ERR_SIZE_LIMIT (Some ''payload exceeds the maximum size''), hp)
         else let buf = (case buf of None \<Rightarrow> [] | Some b \<Rightarrow> b);
                  first = (if len \<ge> 3 \<and> take 3 buf = [CHR 0xEF, CHR 0xBB, CHR 0xBF] then 3 else 0)
              in gate_body be hp sax_bytes p (drop first buf) (v\<lparr>body_offset := first\<rparr>))"

end
