(* ===== verification/Sax_Facts.thy ===== *)
theory Sax_Facts
  imports Gate
begin

text \<open>
  The push parser as a state machine: feeding chunks one after the other is feeding their concatenation, the
  token buffer and the container stack stay within their limits, an error is final.
\<close>

lemmas sax_steps =
  sfail_def callback_def and_then_def end_value_def push_def close_container_def start_literal_def begin_value_def
  finish_number_def finish_string_def string_byte_def escape_byte_def unicode_byte_def literal_byte_def tok_put_def

lemma and_then_simps [simp]:
  "and_then (True, s) f = f s"
  "and_then (False, s) f = (False, s)"
  by (simp_all add: and_then_def)

lemma and_then_assoc: "and_then (and_then r f) g = and_then r (\<lambda>s. and_then (f s) g)"
  by (simp add: and_then_def split: prod.split)

lemma and_then_True_iff: "and_then r f = (True, t) \<longleftrightarrow> (\<exists>s. r = (True, s) \<and> f s = (True, t))"
  by (cases r) (auto simp: and_then_def)

lemma fst_sfail [simp]: "fst (sfail s ec d) = False"
  by (simp add: sfail_def)

subsection \<open>Chunks\<close>

lemma and_then_case: "(case r of (ok, s) \<Rightarrow> if ok then f s else (False, s)) = and_then r f"
  by (cases r) simp

lemma and_then_sfail [simp]: "and_then (sfail s ec d) f = sfail s ec d"
  by (simp add: sfail_def)

text \<open>The four turns of the loop.\<close>

lemma feed_Nil [simp]: "feed_loop s [] = (True, s)"
  by (simp add: feed_loop.simps)

lemma feed_bom:
  "bom_expected s \<and> ch = bom_byte (sx_bom_pos s) \<Longrightarrow>
   feed_loop s (ch # rest) = feed_loop (s\<lparr>sx_bom_pos := sx_bom_pos s + 1, sx_offset := sx_offset s + 1\<rparr>) rest"
  by (subst feed_loop.simps(2)) simp

lemma feed_bad_bom:
  "\<not> (bom_expected s \<and> ch = bom_byte (sx_bom_pos s)) \<Longrightarrow> bom_expected s \<and> sx_bom_pos s > 0 \<Longrightarrow>
   feed_loop s (ch # rest) = sfail s NYXJ_ERR_INVALID_UTF8 (Some ''truncated byte order mark'')"
  by (subst feed_loop.simps(2)) simp

lemma feed_number:
  "\<not> (bom_expected s \<and> ch = bom_byte (sx_bom_pos s)) \<Longrightarrow> \<not> (bom_expected s \<and> sx_bom_pos s > 0) \<Longrightarrow>
   sx_state s = ST_NUMBER \<and> \<not> is_number_char ch \<Longrightarrow>
   feed_loop s (ch # rest) = and_then (finish_number s) (\<lambda>s. feed_loop s (ch # rest))"
  by (subst feed_loop.simps(2)) (simp only: if_False if_True and_then_case simp_thms)

lemma feed_byte:
  "\<not> (bom_expected s \<and> ch = bom_byte (sx_bom_pos s)) \<Longrightarrow> \<not> (bom_expected s \<and> sx_bom_pos s > 0) \<Longrightarrow>
   \<not> (sx_state s = ST_NUMBER \<and> \<not> is_number_char ch) \<Longrightarrow>
   feed_loop s (ch # rest) = and_then (state_byte s ch) (\<lambda>s. feed_loop (advance s ch) rest)"
  by (subst feed_loop.simps(2)) (simp only: if_False if_True and_then_case simp_thms)

lemma feed_induct [case_names Nil bom bad_bom number byte]:
  fixes s :: "'u nyxj_sax"
  assumes nil: "\<And>s. P s []"
    and bom: "\<And>s ch rest. bom_expected s \<and> ch = bom_byte (sx_bom_pos s) \<Longrightarrow>
      P (s\<lparr>sx_bom_pos := sx_bom_pos s + 1, sx_offset := sx_offset s + 1\<rparr>) rest \<Longrightarrow> P s (ch # rest)"
    and bad: "\<And>s ch rest. \<not> (bom_expected s \<and> ch = bom_byte (sx_bom_pos s)) \<Longrightarrow>
      bom_expected s \<and> sx_bom_pos s > 0 \<Longrightarrow> P s (ch # rest)"
    and num: "\<And>s ch rest. \<not> (bom_expected s \<and> ch = bom_byte (sx_bom_pos s)) \<Longrightarrow>
      \<not> (bom_expected s \<and> sx_bom_pos s > 0) \<Longrightarrow> sx_state s = ST_NUMBER \<and> \<not> is_number_char ch \<Longrightarrow>
      (\<And>s'. finish_number s = (True, s') \<Longrightarrow> P s' (ch # rest)) \<Longrightarrow> P s (ch # rest)"
    and byte: "\<And>s ch rest. \<not> (bom_expected s \<and> ch = bom_byte (sx_bom_pos s)) \<Longrightarrow>
      \<not> (bom_expected s \<and> sx_bom_pos s > 0) \<Longrightarrow> \<not> (sx_state s = ST_NUMBER \<and> \<not> is_number_char ch) \<Longrightarrow>
      (\<And>s'. state_byte s ch = (True, s') \<Longrightarrow> P (advance s' ch) rest) \<Longrightarrow> P s (ch # rest)"
  shows "P s xs"
proof (induction s xs rule: feed_loop.induct)
  case (1 s)
  then show ?case by (rule nil)
next
  case (2 s ch rest)
  show ?case
  proof (cases "bom_expected s \<and> ch = bom_byte (sx_bom_pos s)")
    case True
    then show ?thesis using 2(1) bom by blast
  next
    case a: False
    show ?thesis
    proof (cases "bom_expected s \<and> sx_bom_pos s > 0")
      case True
      then show ?thesis using a by (rule bad [rotated])
    next
      case b: False
      show ?thesis
        using 2(2) [OF a b _ sym] 2(3) [OF a b _ sym] num [OF a b] byte [OF a b] by blast
    qed
  qed
qed

lemma feed_loop_append: "feed_loop s (xs @ ys) = and_then (feed_loop s xs) (\<lambda>s. feed_loop s ys)"
proof (induction s xs rule: feed_induct)
  case (number s ch rest)
  show ?case
    using number(4)
    by (cases "finish_number s"; cases "fst (finish_number s)")
      (simp_all add: feed_number [OF number(1-3)])
next
  case (byte s ch rest)
  show ?case
    using byte(4)
    by (cases "state_byte s ch"; cases "fst (state_byte s ch)")
      (simp_all add: feed_byte [OF byte(1-3)])
qed (simp_all add: feed_bom feed_bad_bom)

subsection \<open>Invariants\<close>

definition sax_bounded :: "'u nyxj_sax \<Rightarrow> bool" where
  "sax_bounded s \<longleftrightarrow> length (sx_tok s) \<le> sx_max_token s \<and> length (sx_stack s) \<le> sx_max_depth s"

text \<open>What every step keeps: the limits, the handler, the bounds; the offset grows, and no slower than the bytes of
  the byte order mark. A refusal leaves an error, success none.\<close>

definition keeps :: "'u nyxj_sax \<Rightarrow> 'u sax_step \<Rightarrow> bool" where
  "keeps s r \<longleftrightarrow>
     sx_max_token (snd r) = sx_max_token s \<and> sx_max_depth (snd r) = sx_max_depth s \<and>
     sx_max_elements (snd r) = sx_max_elements s \<and> sx_multi (snd r) = sx_multi s \<and> sx_h (snd r) = sx_h s \<and>
     sx_offset s \<le> sx_offset (snd r) \<and>
     int (sx_offset s) - int (sx_bom_pos s) \<le> int (sx_offset (snd r)) - int (sx_bom_pos (snd r)) \<and>
     (sax_bounded s \<longrightarrow> sax_bounded (snd r)) \<and>
     (sx_state s \<noteq> ST_ERROR \<longrightarrow>
        (if fst r then sx_state (snd r) \<noteq> ST_ERROR
         else sx_state (snd r) = ST_ERROR \<and> code (sx_err (snd r)) \<noteq> NYXJ_OK))"

lemma keeps_if: "(b \<Longrightarrow> keeps s q) \<Longrightarrow> (\<not> b \<Longrightarrow> keeps s r) \<Longrightarrow> keeps s (if b then q else r)"
  by simp

lemma keeps_and_then:
  assumes "keeps s r" and "\<And>t. r = (True, t) \<Longrightarrow> keeps t (f t)"
  shows "keeps s (and_then r f)"
proof (cases r)
  case (Pair ok t)
  then show ?thesis
    using assms by (cases ok) (auto simp: keeps_def)
qed

lemma keeps_sfail [simp]: "ec \<noteq> NYXJ_OK \<Longrightarrow> keeps s (sfail s ec d)"
  by (simp add: keeps_def sfail_def sax_bounded_def)

lemma keeps_trans: "keeps s (True, t) \<Longrightarrow> keeps t r \<Longrightarrow> keeps s r"
  by (auto simp: keeps_def)

lemma keeps_callback [simp]: "keeps s (callback f s)"
  by (auto simp: callback_def keeps_def sfail_def sax_bounded_def Let_def split: option.splits prod.splits)

lemma keeps_callback_in: "keeps s (True, t) \<Longrightarrow> keeps s (callback f t)"
  using keeps_trans keeps_callback by blast

lemma keeps_tok_put [simp]: "keeps s (tok_put s c)"
  by (auto simp: tok_put_def keeps_def sfail_def sax_bounded_def)

lemma keeps_True: "keeps s (True, s)"
  by (simp add: keeps_def)

lemma keeps_tok_put_all [simp]: "keeps s (tok_put_all s cs)"
proof (induction cs arbitrary: s)
  case (Cons c cs)
  then show ?case by (simp add: keeps_and_then)
qed (simp add: keeps_True)

lemma keeps_update:
  "keeps s (True, s\<lparr>sx_state := st\<rparr>)" if "st \<noteq> ST_ERROR"
  using that by (simp add: keeps_def sax_bounded_def)

lemmas keeps_intros = keeps_if keeps_and_then keeps_update keeps_True keeps_callback keeps_sfail

lemma keeps_end_value [simp]: "keeps s (end_value s)"
proof (cases "sx_stack s")
  case Nil
  have "keeps s (True, s\<lparr>sx_documents := sx_documents s + 1, sx_state := ST_DONE\<rparr>)"
    by (simp add: keeps_def sax_bounded_def)
  then show ?thesis using Nil by (simp add: end_value_def Let_def keeps_callback_in)
next
  case (Cons a levels)
  then show ?thesis
    by (cases a) (auto simp: end_value_def Let_def keeps_def sax_bounded_def sfail_def)
qed

lemma keeps_push [simp]: "keeps s (push s k)"
  by (auto simp: push_def keeps_def sfail_def sax_bounded_def)

lemma keeps_close_container [simp]: "keeps s (close_container s k)"
proof -
  have "keeps s (True, s\<lparr>sx_stack := tl (sx_stack s)\<rparr>)"
    by (auto simp: keeps_def sax_bounded_def)
  then show ?thesis
    unfolding close_container_def Let_def by (intro keeps_if keeps_and_then keeps_callback_in) simp_all
qed

lemma keeps_start_literal [simp]: "keeps s (start_literal s w)"
  by (simp add: start_literal_def keeps_def sax_bounded_def)

lemma keeps_tok_put_in:
  "keeps s (True, t) \<Longrightarrow> keeps s (tok_put t c)"
  using keeps_trans keeps_tok_put by blast

lemma keeps_begin_value [simp]: "keeps s (begin_value s ch)"
proof -
  have put: "keeps s (tok_put (s\<lparr>sx_tok := [], sx_state := ST_NUMBER\<rparr>) ch)"
    by (rule keeps_tok_put_in) (simp add: keeps_def sax_bounded_def)
  have str: "keeps s (True, s\<lparr>sx_is_key := False, sx_tok := [], sx_state := ST_STRING\<rparr>)"
    by (simp add: keeps_def sax_bounded_def)
  show ?thesis
    unfolding begin_value_def by (intro keeps_intros put str) simp_all
qed

lemma keeps_finish_number [simp]: "keeps s (finish_number s)"
proof -
  have "keeps s (True, s\<lparr>sx_heap := h\<rparr>)" for h by (simp add: keeps_def sax_bounded_def)
  then show ?thesis
    unfolding finish_number_def Let_def by (intro keeps_if) (auto intro!: keeps_and_then keeps_callback_in split: prod.split)
qed

lemma keeps_finish_string [simp]: "keeps s (finish_string s)"
  unfolding finish_string_def by (intro keeps_intros) simp_all

lemma keeps_string_byte [simp]: "keeps s (string_byte s ch)"
proof -
  have put: "keeps s (tok_put (s\<lparr>sx_utf8_need := n, sx_utf8_lo := l, sx_utf8_hi := h\<rparr>) ch)" for n l h
    by (rule keeps_tok_put_in) (simp add: keeps_def sax_bounded_def)
  have bad: "keeps s (sfail (s\<lparr>sx_utf8_lo := l, sx_utf8_hi := h\<rparr>) NYXJ_ERR_INVALID_UTF8 None)" for l h
    by (simp add: keeps_def sfail_def sax_bounded_def)
  show ?thesis
    unfolding string_byte_def by (intro keeps_intros) (auto intro: put bad split: option.split)
qed

lemma keeps_escape_byte [simp]: "keeps s (escape_byte s ch)"
proof -
  have put: "keeps s (tok_put (s\<lparr>sx_state := ST_STRING\<rparr>) c)" for c
    by (rule keeps_tok_put_in) (simp add: keeps_update)
  have u: "keeps s (True, s\<lparr>sx_u_count := 0, sx_u_val := 0, sx_state := ST_STRING_U\<rparr>)"
    by (simp add: keeps_def sax_bounded_def)
  show ?thesis
    unfolding escape_byte_def by (intro keeps_intros u) (auto intro: put split: option.split)
qed

lemma keeps_unicode_byte [simp]: "keeps s (unicode_byte s ch)"
proof -
  have upd: "keeps s (True, s\<lparr>sx_u_val := v, sx_u_count := n\<rparr>)"
    "keeps s (True, s\<lparr>sx_u_val := v, sx_u_count := n, sx_state := ST_STRING\<rparr>)"
    "keeps s (True, s\<lparr>sx_u_val := v, sx_u_count := n, sx_state := ST_STRING, sx_pending_high := p\<rparr>)" for v n p
    by (simp_all add: keeps_def sax_bounded_def)
  note in_put = keeps_trans [OF upd(2) keeps_tok_put_all] keeps_trans [OF upd(3) keeps_tok_put_all]
    keeps_trans [OF upd(2) keeps_sfail]
  show ?thesis
    unfolding unicode_byte_def Let_def tok_put_cp_def
    by (split option.split, intro conjI allI impI keeps_if in_put upd keeps_sfail) simp_all
qed

lemma keeps_literal_byte [simp]: "keeps s (literal_byte s ch)"
proof -
  have upd: "keeps s (True, s\<lparr>sx_lit_pos := p\<rparr>)" for p
    by (simp add: keeps_def sax_bounded_def)
  note in_call = keeps_trans [OF upd keeps_callback]
  show ?thesis
    unfolding literal_byte_def Let_def by (intro keeps_if keeps_and_then in_call upd) simp_all
qed

lemma keeps_state_byte: "sx_state s \<noteq> ST_ERROR \<Longrightarrow> keeps s (state_byte s ch)"
proof -
  assume ok: "sx_state s \<noteq> ST_ERROR"
  have same: "keeps s (True, s)" and key: "keeps s (True, s\<lparr>sx_is_key := True, sx_tok := [], sx_state := ST_STRING\<rparr>)"
    by (simp_all add: keeps_def sax_bounded_def)
  show ?thesis
    unfolding state_byte_def Let_def
    by (insert ok, cases "sx_state s"; simp only: sax_state.case simp_thms; (intro keeps_intros key)?; simp)
qed

lemma keeps_advance: "keeps s (True, advance s ch)"
  by (auto simp: advance_def keeps_def sax_bounded_def Let_def)

lemma keeps_feed_loop: "sx_state s \<noteq> ST_ERROR \<Longrightarrow> keeps s (feed_loop s xs)"
proof (induction s xs rule: feed_induct)
  case (Nil s)
  then show ?case by (simp add: keeps_def)
next
  case (bom s ch rest)
  moreover have "keeps s (True, s\<lparr>sx_bom_pos := sx_bom_pos s + 1, sx_offset := sx_offset s + 1\<rparr>)"
    by (simp add: keeps_def sax_bounded_def)
  ultimately show ?case using keeps_trans by (fastforce simp: feed_bom)
next
  case (bad_bom s ch rest)
  then show ?case by (simp add: feed_bad_bom)
next
  case (number s ch rest)
  have "keeps s' (feed_loop s' (ch # rest))" if "finish_number s = (True, s')" for s'
    using number(4) [OF that] keeps_finish_number [of s] that number(5) by (simp add: keeps_def)
  then show ?case unfolding feed_number [OF number(1-3)] by (intro keeps_and_then) simp_all
next
  case (byte s ch rest)
  have "keeps s' (feed_loop (advance s' ch) rest)" if "state_byte s ch = (True, s')" for s'
  proof -
    have "sx_state s' \<noteq> ST_ERROR"
      using keeps_state_byte [OF byte(5), of ch] that byte(5) by (simp add: keeps_def)
    then have "sx_state (advance s' ch) \<noteq> ST_ERROR" by (simp add: advance_def Let_def)
    then show ?thesis using byte(4) [OF that] keeps_advance keeps_trans by blast
  qed
  then show ?case
    using keeps_state_byte [OF byte(5)] unfolding feed_byte [OF byte(1-3)] by (intro keeps_and_then) simp_all
qed

lemma keeps_finish: "sx_state s \<noteq> ST_ERROR \<Longrightarrow> keeps s (nyxj_sax_finish s)"
proof -
  assume "sx_state s \<noteq> ST_ERROR"
  then show ?thesis
    unfolding nyxj_sax_finish_def by (subst if_not_P, simp, intro keeps_intros) simp_all
qed

end
