(* ===== verification/Slots.thy ===== *)
theory Slots
  imports Parser_Complete
begin

text \<open>
  Unfinished documents. The grammar of \<open>Grammar\<close> describes whole texts; the push parser and the repairer work from
  left to right, so their invariants speak about the prefix of a document. The open containers of a prefix are a
  list of booleans, \<open>True\<close> for an object, the innermost first.

  \<^item> \<open>slot\<close>: a value may follow;
  \<^item> \<open>after_value\<close>: a value has just ended;
  \<^item> \<open>opened\<close>: a container has just been opened;
  \<^item> \<open>key_slot\<close>: a key may follow;
  \<^item> \<open>colon_slot\<close>: a key has just ended.
\<close>

definition open_char :: "bool \<Rightarrow> char" where
  "open_char obj = (if obj then CHR ''{'' else CHR ''['')"

definition close_char :: "bool \<Rightarrow> char" where
  "close_char obj = (if obj then CHR ''}'' else CHR '']'')"

text \<open>The inside of an object before a key, of a container before a value, of a container after a value.\<close>

definition key_lead :: "nat \<Rightarrow> bytes \<Rightarrow> bool" where
  "key_lead d p \<longleftrightarrow> blank p \<or> (\<exists>r ms w. json_members d False r ms \<and> blank w \<and> p = r @ CHR '','' # w)"

definition item_lead :: "nat \<Rightarrow> bytes \<Rightarrow> bool" where
  "item_lead d p \<longleftrightarrow> blank p \<or> (\<exists>r vs w. json_items d False r vs \<and> blank w \<and> p = r @ CHR '','' # w)"

definition colon_lead :: "nat \<Rightarrow> bytes \<Rightarrow> bool" where
  "colon_lead d p \<longleftrightarrow> (\<exists>q k s x. p = q @ k @ x \<and> key_lead d q \<and> json_string k s \<and> blank x)"

definition lead :: "bool \<Rightarrow> nat \<Rightarrow> bytes \<Rightarrow> bool" where
  "lead obj d p \<longleftrightarrow>
     (if obj then \<exists>q y. p = q @ CHR '':'' # y \<and> colon_lead d q \<and> blank y else item_lead d p)"

definition full :: "bool \<Rightarrow> nat \<Rightarrow> bytes \<Rightarrow> bool" where
  "full obj d r \<longleftrightarrow> (if obj then \<exists>ms. json_members d False r ms else \<exists>vs. json_items d False r vs)"

fun inside :: "(bool \<Rightarrow> nat \<Rightarrow> bytes \<Rightarrow> bool) \<Rightarrow> nat \<Rightarrow> bool list \<Rightarrow> bytes \<Rightarrow> bool"
  and slot :: "nat \<Rightarrow> bool list \<Rightarrow> bytes \<Rightarrow> bool"
where
  "inside P D [] t \<longleftrightarrow> False"
| "inside P D (b # fs) t \<longleftrightarrow>
     length fs < D \<and> (\<exists>q p. t = q @ open_char b # p \<and> slot D fs q \<and> P b (D - Suc (length fs)) p)"
| "slot D [] t \<longleftrightarrow> blank t"
| "slot D (b # fs) t \<longleftrightarrow>
     length fs < D \<and> (\<exists>q p. t = q @ open_char b # p \<and> slot D fs q \<and> lead b (D - Suc (length fs)) p)"

definition after_value :: "nat \<Rightarrow> bool list \<Rightarrow> bytes \<Rightarrow> bool" where
  "after_value D fs t \<longleftrightarrow> (if fs = [] then \<exists>v. json_document D False t v else inside full D fs t)"

definition opened :: "nat \<Rightarrow> bool list \<Rightarrow> bytes \<Rightarrow> bool" where
  "opened D fs t \<longleftrightarrow> inside (\<lambda>b d p. blank p) D fs t"

definition key_slot :: "nat \<Rightarrow> bool list \<Rightarrow> bytes \<Rightarrow> bool" where
  "key_slot D fs t \<longleftrightarrow> inside (\<lambda>b d p. b \<and> key_lead d p) D fs t"

definition colon_slot :: "nat \<Rightarrow> bool list \<Rightarrow> bytes \<Rightarrow> bool" where
  "colon_slot D fs t \<longleftrightarrow> inside (\<lambda>b d p. b \<and> colon_lead d p) D fs t"

lemma slot_inside: "fs \<noteq> [] \<Longrightarrow> slot D fs t \<longleftrightarrow> inside lead D fs t"
  by (cases fs) auto

text \<open>A step that rewrites the inside of the innermost container.\<close>

lemma inside_append:
  "inside P D fs t \<Longrightarrow> (\<And>b d p. fs \<noteq> [] \<Longrightarrow> b = hd fs \<Longrightarrow> P b d p \<Longrightarrow> Q b d (p @ x)) \<Longrightarrow> inside Q D fs (t @ x)"
  by (cases fs) (auto, metis append.assoc append_Cons)

lemma inside_mono: "inside P D fs t \<Longrightarrow> (\<And>d p. fs \<noteq> [] \<Longrightarrow> P (hd fs) d p \<Longrightarrow> Q (hd fs) d p) \<Longrightarrow> inside Q D fs t"
  by (cases fs) auto

subsection \<open>Growing the inside of a container\<close>

lemmas item_rule = item and items_rule = items and member_rule = member and members_rule = members

lemma items_end_blank: "json_items d u r vs \<Longrightarrow> blank w \<Longrightarrow> json_items d u (r @ w) vs"
proof (induction vs arbitrary: r)
  case Nil
  then show ?case by (auto elim: json_items.cases)
next
  case (Cons v vs)
  from Cons.prems(1) show ?case
  proof (cases rule: json_items.cases)
    case (item w' t x)
    then show ?thesis using item_rule [of w' d u t v "x @ w"] Cons.prems(2) by simp
  next
    case (items w' t x r')
    then show ?thesis using Cons.IH [of r'] items_rule [of w' d u t v x "r' @ w" vs] Cons.prems(2) by simp
  qed
qed

lemma items_snoc:
  "json_items d u r vs \<Longrightarrow> blank w \<Longrightarrow> json_text d u t v \<Longrightarrow> json_items d u (r @ CHR '','' # w @ t) (vs @ [v])"
proof (induction vs arbitrary: r)
  case Nil
  then show ?case by (auto elim: json_items.cases)
next
  case (Cons v' vs)
  have last: "json_items d u (w @ t) [v]"
    using item_rule [of w d u t v "[]"] Cons.prems by simp
  from Cons.prems(1) show ?case
  proof (cases rule: json_items.cases)
    case (item w' t' x)
    then show ?thesis using items_rule [OF item(3,4,5) last] by simp
  next
    case (items w' t' x r')
    then show ?thesis
      using Cons.IH [of r'] items_rule [of w' d u t' v' x "r' @ CHR '','' # w @ t" "vs @ [v]"] Cons.prems(2,3) by simp
  qed
qed

lemma members_end_blank: "json_members d u r ms \<Longrightarrow> blank w \<Longrightarrow> json_members d u (r @ w) ms"
proof (induction ms arbitrary: r)
  case Nil
  then show ?case by (auto elim: json_members.cases)
next
  case (Cons m ms)
  from Cons.prems(1) show ?case
  proof (cases rule: json_members.cases)
    case (member w' k s x y t v z)
    then show ?thesis using member_rule [of w' k s x y d u t v "z @ w"] Cons.prems(2) by simp
  next
    case (members w' k s x y t v z r')
    then show ?thesis
      using Cons.IH [of r'] members_rule [of w' k s x y d u t v z "r' @ w" ms] Cons.prems(2) by simp
  qed
qed

lemma members_snoc:
  "json_members d u r ms \<Longrightarrow> json_members d u m [p] \<Longrightarrow> json_members d u (r @ CHR '','' # m) (ms @ [p])"
proof (induction ms arbitrary: r)
  case Nil
  then show ?case by (auto elim: json_members.cases)
next
  case (Cons q ms)
  from Cons.prems(1) show ?case
  proof (cases rule: json_members.cases)
    case (member w' k s x y t v z)
    then show ?thesis using members_rule [OF member(4-9) Cons.prems(2)] by simp
  next
    case (members w' k s x y t v z r')
    then show ?thesis
      using Cons.IH [of r'] members_rule [of w' k s x y d u t v z "r' @ CHR '','' # m" "ms @ [p]"] Cons.prems(2)
      by simp
  qed
qed

text \<open>A value at its place.\<close>

lemma full_fill: "lead obj d p \<Longrightarrow> json_text d False t v \<Longrightarrow> full obj d (p @ t)"
proof (cases obj)
  case True
  assume "lead obj d p" and v: "json_text d False t v"
  then obtain q k s x y where p: "p = q @ k @ x @ CHR '':'' # y" and q: "key_lead d q" and k: "json_string k s"
    and b: "blank x" "blank y"
    using True by (auto simp: lead_def colon_lead_def)
  have m: "json_members d False (w @ k @ x @ CHR '':'' # y @ t) [(cstr s, v)]" if "blank w" for w
    using member_rule [OF that k b v, of "[]"] by simp
  show ?thesis
    using q unfolding key_lead_def
  proof (elim disjE exE conjE)
    assume "blank q"
    then show ?thesis using m [of q] True p by (auto simp: full_def)
  next
    fix r ms w
    assume "json_members d False r ms" "blank w" "q = r @ CHR '','' # w"
    then show ?thesis using members_snoc [OF _ m [of w], of r ms] True p by (auto simp: full_def)
  qed
next
  case False
  assume "lead obj d p" and v: "json_text d False t v"
  then have "item_lead d p" using False by (simp add: lead_def)
  then show ?thesis
    unfolding item_lead_def
  proof (elim disjE exE conjE)
    assume "blank p"
    then show ?thesis using item_rule [OF _ v, of p "[]"] False by (auto simp: full_def)
  next
    fix r vs w
    assume "json_items d False r vs" "blank w" "p = r @ CHR '','' # w"
    then show ?thesis using items_snoc [OF _ _ v, of r vs w] False by (auto simp: full_def)
  qed
qed

lemma full_blank: "full obj d r \<Longrightarrow> blank w \<Longrightarrow> full obj d (r @ w)"
  by (auto simp: full_def split: if_splits dest: items_end_blank members_end_blank)

lemma key_lead_blank: "key_lead d p \<Longrightarrow> blank w \<Longrightarrow> key_lead d (p @ w)"
  unfolding key_lead_def by (elim disjE exE conjE) (simp, metis append.assoc append_Cons blank_simps(2))

lemma item_lead_blank: "item_lead d p \<Longrightarrow> blank w \<Longrightarrow> item_lead d (p @ w)"
  unfolding item_lead_def by (elim disjE exE conjE) (simp, metis append.assoc append_Cons blank_simps(2))

lemma colon_lead_blank: "colon_lead d p \<Longrightarrow> blank w \<Longrightarrow> colon_lead d (p @ w)"
  unfolding colon_lead_def by (metis append.assoc blank_simps(2))

lemma lead_blank: "lead obj d p \<Longrightarrow> blank w \<Longrightarrow> lead obj d (p @ w)"
proof (cases obj)
  case True
  assume "lead obj d p" "blank w"
  then obtain q y where "p @ w = q @ CHR '':'' # (y @ w)" "colon_lead d q" "blank (y @ w)"
    using True by (auto simp: lead_def)
  then show ?thesis using True unfolding lead_def by metis
qed (simp add: lead_def item_lead_blank)

lemma full_closes: "full obj d r \<Longrightarrow> \<exists>v. json_text (Suc d) False (open_char obj # r @ [close_char obj]) v"
  using array [of d False r] object [of d False r]
  by (auto simp: full_def open_char_def close_char_def split: if_splits)

lemma blank_closes: "blank w \<Longrightarrow> \<exists>v. json_text (Suc d) False (open_char obj # w @ [close_char obj]) v"
  using empty_array [of w d False] empty_object [of w d False]
  by (auto simp: open_char_def close_char_def)

subsection \<open>The steps\<close>

lemma slot_blank: "slot D fs t \<Longrightarrow> blank w \<Longrightarrow> slot D fs (t @ w)"
  by (cases "fs = []") (auto simp: slot_inside elim!: inside_append intro: lead_blank)

lemma opened_blank: "opened D fs t \<Longrightarrow> blank w \<Longrightarrow> opened D fs (t @ w)"
  unfolding opened_def by (erule inside_append) simp

lemma key_slot_blank: "key_slot D fs t \<Longrightarrow> blank w \<Longrightarrow> key_slot D fs (t @ w)"
  unfolding key_slot_def by (erule inside_append) (simp add: key_lead_blank)

lemma colon_slot_blank: "colon_slot D fs t \<Longrightarrow> blank w \<Longrightarrow> colon_slot D fs (t @ w)"
  unfolding colon_slot_def by (erule inside_append) (simp add: colon_lead_blank)

lemma after_blank: "after_value D fs t \<Longrightarrow> blank w \<Longrightarrow> after_value D fs (t @ w)"
proof (cases "fs = []")
  case True
  assume "after_value D fs t" "blank w"
  then obtain v a b c where "t @ w = a @ b @ (c @ w)" "blank a" "json_text D False b v" "blank (c @ w)"
    using True by (auto simp: after_value_def json_document_def)
  then show ?thesis using True unfolding after_value_def json_document_def by metis
next
  case False
  assume "after_value D fs t" "blank w"
  then show ?thesis using False unfolding after_value_def by (auto elim!: inside_append intro: full_blank)
qed

lemma slot_value: "slot D fs t \<Longrightarrow> json_text (D - length fs) False x v \<Longrightarrow> after_value D fs (t @ x)"
proof (cases fs)
  case Nil
  assume "slot D fs t" "json_text (D - length fs) False x v"
  then show ?thesis
    using Nil unfolding after_value_def json_document_def by (metis append_Nil2 blank_simps(1) diff_zero list.size(3) slot.simps(1))
next
  case (Cons b fs')
  assume "slot D fs t" and x: "json_text (D - length fs) False x v"
  then have "inside lead D fs t" using Cons by (simp add: slot_inside)
  then obtain q p where "length fs' < D" "t = q @ open_char b # p" "slot D fs' q" "lead b (D - Suc (length fs')) p"
    using Cons by auto
  moreover have "json_text (D - Suc (length fs')) False x v" using x Cons by simp
  ultimately have "t @ x = q @ open_char b # (p @ x)" "full b (D - Suc (length fs')) (p @ x)"
    using full_fill by simp_all
  then show ?thesis
    using Cons \<open>length fs' < D\<close> \<open>slot D fs' q\<close> unfolding after_value_def by auto
qed

lemma slot_open: "slot D fs t \<Longrightarrow> length fs < D \<Longrightarrow> opened D (b # fs) (t @ [open_char b])"
  unfolding opened_def inside.simps by (metis blank_simps(1))

lemma opened_slot: "opened D (False # fs) t \<Longrightarrow> slot D (False # fs) t"
  by (auto simp: opened_def lead_def item_lead_def)

lemma opened_key_slot: "opened D (True # fs) t \<Longrightarrow> key_slot D (True # fs) t"
  unfolding opened_def key_slot_def by (erule inside_mono) (simp add: key_lead_def)

lemma inside_closes:
  assumes "inside P D (b # fs) t" "\<And>d p. P b d p \<Longrightarrow> \<exists>v. json_text (Suc d) False (open_char b # p @ [close_char b]) v"
  shows "after_value D fs (t @ [close_char b])"
proof -
  obtain q p where t: "t = q @ open_char b # p" and q: "slot D fs q" and l: "length fs < D"
    and p: "P b (D - Suc (length fs)) p"
    using assms(1) by auto
  from assms(2) [OF p] obtain v where "json_text (D - length fs) False (open_char b # p @ [close_char b]) v"
    using l by (auto simp: Suc_diff_Suc)
  from slot_value [OF q this] show ?thesis by (simp add: t)
qed

lemma opened_close: "opened D (b # fs) t \<Longrightarrow> after_value D fs (t @ [close_char b])"
  unfolding opened_def by (erule inside_closes) (rule blank_closes)

lemma after_close: "after_value D (b # fs) t \<Longrightarrow> after_value D fs (t @ [close_char b])"
  unfolding after_value_def [of D "b # fs"] by (simp, rule inside_closes [of full]) (auto intro: full_closes)

lemma after_comma_slot: "after_value D (False # fs) t \<Longrightarrow> slot D (False # fs) (t @ '','')"
  unfolding slot_inside [OF list.distinct(2)] after_value_def
  by (simp only: list.distinct if_False, erule inside_append) (auto simp: full_def lead_def item_lead_def)

lemma after_comma_key: "after_value D (True # fs) t \<Longrightarrow> key_slot D (True # fs) (t @ '','')"
  unfolding key_slot_def after_value_def
  by (simp only: list.distinct if_False, erule inside_append) (auto simp: full_def key_lead_def)

lemma key_slot_key: "key_slot D fs t \<Longrightarrow> json_string k s \<Longrightarrow> colon_slot D fs (t @ k)"
  unfolding key_slot_def colon_slot_def
  by (erule inside_append, unfold colon_lead_def) (metis append_Nil2 blank_simps(1))

lemma colon_slot_colon: "colon_slot D fs t \<Longrightarrow> slot D fs (t @ '':'')"
proof (cases "fs = []")
  case False
  have "lead b d (p @ '':'')" if "b \<and> colon_lead d p" for b d p
    using that unfolding lead_def by (simp only: if_True) (metis blank_simps(1))
  moreover assume "colon_slot D fs t"
  ultimately show ?thesis
    unfolding colon_slot_def slot_inside [OF False] by (blast intro: inside_append)
qed (simp add: colon_slot_def)

end
