(* ===== verification/Sax_Sound.thy ===== *)
theory Sax_Sound
  imports Sax_Facts Slots
begin

text \<open>
  Soundness of the push parser: what it accepts as one document is a text of the grammar. The invariant relates
  the state of the machine to the text read so far, with the prefixes of \<open>Slots\<close>.
\<close>

subsection \<open>Strings in progress\<close>

text \<open>\<open>u\<close> is the beginning of a UTF-8 sequence of which \<open>need\<close> bytes are missing.\<close>

definition utf8_wait :: "bytes \<Rightarrow> nat \<Rightarrow> nat \<Rightarrow> nat \<Rightarrow> bool" where
  "utf8_wait u need lo hi \<longleftrightarrow>
     (if need = 0 then u = []
      else \<forall>q. length q = need \<longrightarrow> lo \<le> byte (q ! 0) \<and> byte (q ! 0) \<le> hi \<longrightarrow>
        (\<forall>k \<in> {1 ..< need}. 0x80 \<le> byte (q ! k) \<and> byte (q ! k) \<le> 0xBF) \<longrightarrow>
        utf8_head (u @ q) = Some (length (u @ q)))"

lemma lead_byte_utf8: "lead_byte b = utf8_need b"
  unfolding lead_byte_def utf8_need_def by simp

lemma utf8_waitD:
  assumes "utf8_wait u need lo hi" "need \<noteq> 0" "length q = need" "lo \<le> byte (q ! 0)" "byte (q ! 0) \<le> hi"
    "\<And>k. 1 \<le> k \<Longrightarrow> k < need \<Longrightarrow> 0x80 \<le> byte (q ! k) \<and> byte (q ! k) \<le> 0xBF"
  shows "utf8_head (u @ q) = Some (length (u @ q))"
  using assms(1) unfolding utf8_wait_def if_not_P [OF assms(2)]
  by (elim allE [of _ q] impE) (use assms(3-6) in simp_all)

lemma utf8_waitI:
  assumes "need \<noteq> 0"
    "\<And>q. length q = need \<Longrightarrow> lo \<le> byte (q ! 0) \<Longrightarrow> byte (q ! 0) \<le> hi \<Longrightarrow>
      (\<And>k. 1 \<le> k \<Longrightarrow> k < need \<Longrightarrow> 0x80 \<le> byte (q ! k) \<and> byte (q ! k) \<le> 0xBF) \<Longrightarrow>
      utf8_head (u @ q) = Some (length (u @ q))"
  shows "utf8_wait u need lo hi"
  unfolding utf8_wait_def if_not_P [OF assms(1)] by (intro allI impI) (rule assms(2), simp_all)

lemma utf8_wait_lead:
  assumes "lead_byte (byte ch) = Some (need, lo, hi)"
  shows "utf8_wait [ch] need lo hi"
proof (rule utf8_waitI)
  have n: "utf8_need (byte ch) = Some (need, lo, hi)" using assms by (simp add: lead_byte_utf8)
  then show "need \<noteq> 0" by (auto elim: utf8_need_cases)
  fix q :: bytes
  assume q: "length q = need" "lo \<le> byte (q ! 0)" "byte (q ! 0) \<le> hi"
    and c: "\<And>k. 1 \<le> k \<Longrightarrow> k < need \<Longrightarrow> 0x80 \<le> byte (q ! k) \<and> byte (q ! k) \<le> 0xBF"
  have "\<not> (\<exists>k \<in> set [1 ..< need]. byte (q ! k) < 0x80 \<or> 0xBF < byte (q ! k))"
    using c by (auto simp: not_less)
  then show "utf8_head ([ch] @ q) = Some (length ([ch] @ q))"
    using q n by (simp add: utf8_head_Cons not_less del: set_upt)
qed

lemma utf8_wait_next:
  assumes "utf8_wait u (Suc need) lo hi" "lo \<le> byte ch" "byte ch \<le> hi" "need \<noteq> 0"
  shows "utf8_wait (u @ [ch]) need 0x80 0xBF"
proof (rule utf8_waitI [OF assms(4)])
  fix q :: bytes
  assume q: "length q = need" "0x80 \<le> byte (q ! 0)" "byte (q ! 0) \<le> 0xBF"
    and c: "\<And>k. 1 \<le> k \<Longrightarrow> k < need \<Longrightarrow> 0x80 \<le> byte (q ! k) \<and> byte (q ! k) \<le> 0xBF"
  have "0x80 \<le> byte ((ch # q) ! k) \<and> byte ((ch # q) ! k) \<le> 0xBF" if "1 \<le> k" "k < Suc need" for k
  proof -
    from that have "(ch # q) ! k = q ! (k - 1)" "k - 1 < need" by auto
    then show ?thesis using q(2,3) c [of "k - 1"] by (cases "k - 1") auto
  qed
  then have "utf8_head (u @ (ch # q)) = Some (length (u @ (ch # q)))"
    by (intro utf8_waitD [OF assms(1)]) (use assms(2,3) q(1) in simp_all)
  then show "utf8_head ((u @ [ch]) @ q) = Some (length ((u @ [ch]) @ q))" by simp
qed

lemma utf8_wait_last:
  assumes "utf8_wait u 1 lo hi" "lo \<le> byte ch" "byte ch \<le> hi"
  obtains cp where "is_scalar cp" "0x80 \<le> cp" "u @ [ch] = nyxj_utf8_encode cp"
proof -
  have "utf8_head (u @ [ch]) = Some (length (u @ [ch]))"
    by (rule utf8_waitD [OF assms(1)]) (use assms(2,3) in simp_all)
  then show thesis by (rule utf8_head_sound) (use that in auto)
qed

text \<open>The characters of a literal grow at their end.\<close>

lemma json_chars_append: "json_chars t s \<Longrightarrow> json_chars t' s' \<Longrightarrow> json_chars (t @ t') (s @ s')"
  by (induction rule: json_chars.induct) (auto intro: json_chars.intros)

lemma json_chars_char:
  "json_chars t s \<Longrightarrow> is_scalar cp \<Longrightarrow> 0x20 \<le> cp \<Longrightarrow> cp \<noteq> 0x22 \<Longrightarrow> cp \<noteq> 0x5C \<Longrightarrow>
   json_chars (t @ nyxj_utf8_encode cp) (s @ nyxj_utf8_encode cp)"
  using json_chars.plain [of cp "[]" "[]"] json_chars.none by (intro json_chars_append) simp_all

lemma json_chars_escape: "json_chars t s \<Longrightarrow> json_escape e d \<Longrightarrow> json_chars (t @ e) (s @ d)"
  using json_chars.escape [of e d "[]" "[]"] json_chars.none by (intro json_chars_append) simp_all

text \<open>A high surrogate that waits for its other half, and the digits of an escape.\<close>

definition pending :: "nat \<Rightarrow> bytes \<Rightarrow> bool" where
  "pending p e \<longleftrightarrow>
     (if p = 0 then e = [] else \<exists>h. e = CHR 0x5C # CHR ''u'' # h \<and> hex_quad h p \<and> high_surrogate p)"

definition hex_sum :: "bytes \<Rightarrow> nat option" where
  "hex_sum ds = foldl (\<lambda>n c. case (n, hex_digit c) of (Some n, Some d) \<Rightarrow> Some (n * 16 + d) | _ \<Rightarrow> None) (Some 0) ds"

lemma hex_sum_snoc: "hex_sum ds = Some n \<Longrightarrow> hex_digit c = Some d \<Longrightarrow> hex_sum (ds @ [c]) = Some (n * 16 + d)"
  by (simp add: hex_sum_def)

lemma hex_sum_quad:
  assumes "hex_sum ds = Some n" "length ds = 4"
  shows "hex_quad ds n"
proof -
  obtain a b c d where ds: "ds = [a, b, c, d]"
    using assms(2) by (auto simp: length_Suc_conv numeral_eq_Suc)
  show ?thesis
    using assms(1) unfolding ds hex_quad_def hex_sum_def by (auto split: option.splits)
qed

definition string_part :: "sax_state \<Rightarrow> nat \<Rightarrow> nat \<times> nat \<times> nat \<Rightarrow> nat \<times> nat \<Rightarrow> bytes \<Rightarrow> bool" where
  "string_part st p need uv raw \<longleftrightarrow>
     (case (need, uv) of ((need, lo, hi), (count, val)) \<Rightarrow>
        \<exists>r d e x. raw = r @ e @ x \<and> json_chars r d \<and> pending p e \<and>
          (case st of
             ST_STRING \<Rightarrow> utf8_wait x need lo hi \<and> (p \<noteq> 0 \<longrightarrow> need = 0)
           | ST_STRING_ESC \<Rightarrow> need = 0 \<and> x = [CHR 0x5C]
           | ST_STRING_U \<Rightarrow> need = 0 \<and> (\<exists>ds. x = CHR 0x5C # CHR ''u'' # ds \<and> hex_sum ds = Some val \<and> length ds = count \<and> count < 4)
           | _ \<Rightarrow> False))"

subsection \<open>The invariant\<close>

definition kinds_of :: "'u nyxj_sax \<Rightarrow> bool list" where
  "kinds_of s = map (\<lambda>(k, n). k = CHR ''O'') (sx_stack s)"

definition stack_ok :: "'u nyxj_sax \<Rightarrow> bool" where
  "stack_ok s \<longleftrightarrow> (\<forall>(k, n) \<in> set (sx_stack s). k = CHR ''O'' \<or> k = CHR ''A'') \<and> \<not> sx_multi s"

definition string_in :: "'u nyxj_sax \<Rightarrow> bytes \<Rightarrow> bool" where
  "string_in s t \<longleftrightarrow>
     (\<exists>q raw. t = q @ CHR 0x22 # raw \<and>
        (if sx_is_key s then key_slot (sx_max_depth s) (kinds_of s) q else slot (sx_max_depth s) (kinds_of s) q) \<and>
        string_part (sx_state s) (sx_pending_high s) (sx_utf8_need s, sx_utf8_lo s, sx_utf8_hi s) (sx_u_count s, sx_u_val s) raw)"

definition literal_in :: "'u nyxj_sax \<Rightarrow> bytes \<Rightarrow> bool" where
  "literal_in s t \<longleftrightarrow>
     (\<exists>q. t = q @ take (sx_lit_pos s) (sx_lit s) \<and> slot (sx_max_depth s) (kinds_of s) q \<and>
        sx_lit s \<in> {''true'', ''false'', ''null''} \<and> sx_lit_pos s < length (sx_lit s))"

definition idle :: "'u nyxj_sax \<Rightarrow> bool" where
  "idle s \<longleftrightarrow> sx_pending_high s = 0 \<and> sx_utf8_need s = 0"

definition sax_at :: "'u nyxj_sax \<Rightarrow> bytes \<Rightarrow> bool" where
  "sax_at s t \<longleftrightarrow> stack_ok s \<and>
     (let D = sx_max_depth s; fs = kinds_of s in
      case sx_state s of
        ST_VALUE \<Rightarrow> idle s \<and> slot D fs t
      | ST_ARRAY_FIRST \<Rightarrow> idle s \<and> opened D fs t \<and> fs \<noteq> [] \<and> \<not> hd fs
      | ST_OBJECT_FIRST \<Rightarrow> idle s \<and> opened D fs t \<and> fs \<noteq> [] \<and> hd fs
      | ST_KEY \<Rightarrow> idle s \<and> key_slot D fs t
      | ST_COLON \<Rightarrow> idle s \<and> colon_slot D fs t
      | ST_AFTER_VALUE \<Rightarrow> idle s \<and> after_value D fs t \<and> fs \<noteq> []
      | ST_DONE \<Rightarrow> idle s \<and> after_value D [] t \<and> fs = []
      | ST_NUMBER \<Rightarrow> idle s \<and> (\<exists>q. t = q @ sx_tok s \<and> slot D fs q)
      | ST_LITERAL \<Rightarrow> idle s \<and> literal_in s t
      | ST_ERROR \<Rightarrow> False
      | _ \<Rightarrow> string_in s t)"

text \<open>What the invariant does not look at.\<close>

lemma kinds_of_simps [simp]:
  "kinds_of (s\<lparr>sx_user := u\<rparr>) = kinds_of s" "kinds_of (s\<lparr>sx_heap := h\<rparr>) = kinds_of s"
  "kinds_of (s\<lparr>sx_tok := k\<rparr>) = kinds_of s" "kinds_of (s\<lparr>sx_state := st\<rparr>) = kinds_of s"
  "kinds_of (s\<lparr>sx_is_key := b\<rparr>) = kinds_of s" "kinds_of (s\<lparr>sx_documents := n\<rparr>) = kinds_of s"
  "kinds_of (s\<lparr>sx_lit_pos := n\<rparr>) = kinds_of s" "kinds_of (s\<lparr>sx_lit := w\<rparr>) = kinds_of s"
  "kinds_of (s\<lparr>sx_utf8_need := n\<rparr>) = kinds_of s" "kinds_of (s\<lparr>sx_utf8_lo := n\<rparr>) = kinds_of s"
  "kinds_of (s\<lparr>sx_utf8_hi := n\<rparr>) = kinds_of s" "kinds_of (s\<lparr>sx_u_count := n\<rparr>) = kinds_of s"
  "kinds_of (s\<lparr>sx_u_val := n\<rparr>) = kinds_of s" "kinds_of (s\<lparr>sx_pending_high := n\<rparr>) = kinds_of s"
  "kinds_of (s\<lparr>sx_offset := n\<rparr>) = kinds_of s" "kinds_of (s\<lparr>sx_line := n\<rparr>) = kinds_of s"
  "kinds_of (s\<lparr>sx_column := n\<rparr>) = kinds_of s" "kinds_of (s\<lparr>sx_bom_pos := n\<rparr>) = kinds_of s"
  by (simp_all add: kinds_of_def)

lemma callback_True: "callback f s = (True, t) \<Longrightarrow> \<exists>u. t = s\<lparr>sx_user := u\<rparr>"
proof (cases f)
  case None
  assume "callback f s = (True, t)"
  then have "t = s\<lparr>sx_user := sx_user s\<rparr>" using None by (simp add: callback_def)
  then show ?thesis ..
next
  case (Some g)
  assume "callback f s = (True, t)"
  then show ?thesis using Some by (cases "g (sx_user s)") (auto simp: callback_def Let_def split: if_splits)
qed

lemma tok_put_True: "tok_put s c = (True, t) \<Longrightarrow> t = s\<lparr>sx_tok := sx_tok s @ [c]\<rparr>"
  by (auto simp: tok_put_def split: if_splits)

lemma tok_put_all_True: "tok_put_all s cs = (True, t) \<Longrightarrow> t = s\<lparr>sx_tok := sx_tok s @ cs\<rparr>"
proof (induction cs arbitrary: s)
  case (Cons c cs)
  then obtain r where "tok_put s c = (True, r)" "tok_put_all r cs = (True, t)"
    by (auto simp: and_then_True_iff)
  then show ?case using Cons.IH tok_put_True by fastforce
qed simp

subsection \<open>Values\<close>

text \<open>The end of a value, with the containers that are left.\<close>

lemma end_value_at:
  assumes "end_value s = (True, s')" "stack_ok s" "idle s" "after_value (sx_max_depth s) (kinds_of s) t"
  shows "sax_at s' t"
proof (cases "sx_stack s")
  case Nil
  then obtain u where "s' = s\<lparr>sx_documents := sx_documents s + 1, sx_state := ST_DONE, sx_user := u\<rparr>"
    using assms(1) by (auto simp: end_value_def Let_def dest!: callback_True)
  then show ?thesis
    using assms(2-4) Nil by (simp add: sax_at_def stack_ok_def idle_def) (simp add: kinds_of_def)
next
  case (Cons a levels)
  then have "sx_state s' = ST_AFTER_VALUE \<and> kinds_of s' = kinds_of s \<and> stack_ok s' \<and> idle s' \<and>
      sx_max_depth s' = sx_max_depth s"
    using assms(1-3)
    by (cases a) (auto simp: end_value_def Let_def sfail_def stack_ok_def idle_def kinds_of_def split: if_splits)
  then show ?thesis
    using assms(4) Cons by (simp add: sax_at_def) (simp add: kinds_of_def)
qed

lemma number_text: "nyxj_scan_number tok = Some [] \<Longrightarrow> json_text d u tok (JNumber (fst (strtod tok)))"
  by (rule number) (simp add: nyxj_scan_number_all [symmetric])

lemma finish_number_at:
  assumes "finish_number s = (True, s')" "sax_at s t" "sx_state s = ST_NUMBER"
  shows "sax_at s' t"
proof -
  obtain q where t: "t = q @ sx_tok s" and q: "slot (sx_max_depth s) (kinds_of s) q" and i: "idle s" "stack_ok s"
    using assms(2,3) by (auto simp: sax_at_def)
  have n: "nyxj_scan_number (sx_tok s) = Some []"
    using assms(1) by (auto simp: finish_number_def split: if_splits)
  obtain u h where "end_value (s\<lparr>sx_heap := h, sx_user := u\<rparr>) = (True, s')"
    using assms(1) n
    by (auto simp: finish_number_def Let_def and_then_True_iff split: prod.splits dest!: callback_True)
  then show ?thesis
    by (rule end_value_at) (use i slot_value [OF q number_text [OF n]] t in \<open>simp_all add: stack_ok_def idle_def\<close>)
qed

lemma close_container_at:
  assumes "close_container s k = (True, s')" "stack_ok s" "idle s" "k = CHR ''O'' \<or> k = CHR ''A''"
    "\<And>b fs. kinds_of s = b # fs \<Longrightarrow> b = (k = CHR ''O'') \<Longrightarrow> after_value (sx_max_depth s) fs t"
  shows "sax_at s' t"
proof -
  obtain n levels where st: "sx_stack s = (k, n) # levels"
    using assms(1) by (cases "sx_stack s") (auto simp: close_container_def sfail_def split: if_splits)
  obtain u where "end_value (s\<lparr>sx_stack := levels, sx_user := u\<rparr>) = (True, s')"
    using assms(1) st
    by (auto simp: close_container_def Let_def and_then_True_iff split: if_splits dest!: callback_True)
  then show ?thesis
    by (rule end_value_at)
      (use assms(2,3,5) st in \<open>auto simp: stack_ok_def idle_def kinds_of_def\<close>)
qed

lemma push_True: "push s k = (True, t) \<Longrightarrow> t = s\<lparr>sx_stack := (k, 0) # sx_stack s\<rparr> \<and> length (sx_stack s) < sx_max_depth s"
  by (auto simp: push_def sfail_def split: if_splits)

lemma length_kinds_of [simp]: "length (kinds_of s) = length (sx_stack s)"
  by (simp add: kinds_of_def)

lemma opening_at:
  assumes "and_then (and_then (push s k) (\<lambda>s. callback (f s) s)) (\<lambda>s. (True, s\<lparr>sx_state := st\<rparr>)) = (True, s')"
    "stack_ok s" "idle s" "slot (sx_max_depth s) (kinds_of s) t"
    "k = CHR ''O'' \<and> st = ST_OBJECT_FIRST \<or> k = CHR ''A'' \<and> st = ST_ARRAY_FIRST"
  shows "sax_at s' (t @ [open_char (k = CHR ''O'')])"
proof -
  obtain u where s': "s' = s\<lparr>sx_stack := (k, 0) # sx_stack s, sx_user := u, sx_state := st\<rparr>"
    and l: "length (sx_stack s) < sx_max_depth s"
    using assms(1) by (auto simp: and_then_True_iff dest!: push_True callback_True)
  have "opened (sx_max_depth s) ((k = CHR ''O'') # kinds_of s) (t @ [open_char (k = CHR ''O'')])"
    using slot_open [OF assms(4)] l by simp
  moreover have "kinds_of s' = (k = CHR ''O'') # kinds_of s" by (simp add: s' kinds_of_def)
  moreover have "stack_ok s'" "idle s'" using assms(2,3,5) by (auto simp: s' stack_ok_def idle_def)
  ultimately show ?thesis using assms(5) s' by (elim disjE conjE) (simp_all add: sax_at_def)
qed

lemma string_starts:
  assumes "stack_ok s" "idle s" "if b then key_slot (sx_max_depth s) (kinds_of s) t else slot (sx_max_depth s) (kinds_of s) t"
  shows "sax_at (s\<lparr>sx_is_key := b, sx_tok := [], sx_state := ST_STRING\<rparr>) (t @ [CHR 0x22])"
proof -
  have "string_part ST_STRING 0 (0, lo, hi) uv []" for lo hi uv
    unfolding string_part_def
    by (cases uv) (auto simp: pending_def utf8_wait_def intro!: exI [of _ "[]"] json_chars.none)
  then have "string_in (s\<lparr>sx_is_key := b, sx_tok := [], sx_state := ST_STRING\<rparr>) (t @ [CHR 0x22])"
    unfolding string_in_def
    by (intro exI [of _ t] exI [of _ "[]"]) (use assms(2,3) in \<open>simp add: idle_def\<close>)
  then show ?thesis
    using assms(1) by (simp add: sax_at_def stack_ok_def)
qed

lemma begin_value_at:
  assumes "begin_value s ch = (True, s')" "stack_ok s" "idle s" "slot (sx_max_depth s) (kinds_of s) t"
  shows "sax_at s' (t @ [ch])"
proof -
  have lit: "sax_at (s\<lparr>sx_lit := w, sx_lit_pos := 1, sx_state := ST_LITERAL\<rparr>) (t @ take 1 w)"
    if "w \<in> {''true'', ''false'', ''null''}" for w
    using assms(2-4) that
    by (auto simp: sax_at_def literal_in_def idle_def stack_ok_def kinds_of_def)
  consider "ch = CHR ''{''" | "ch = CHR ''[''" | "ch = CHR 0x22" | "ch = CHR ''t''" | "ch = CHR ''f''" | "ch = CHR ''n''"
    | "ch \<noteq> CHR ''{''" "ch \<noteq> CHR ''[''" "ch \<noteq> CHR 0x22" "ch \<noteq> CHR ''t''" "ch \<noteq> CHR ''f''" "ch \<noteq> CHR ''n''" by blast
  then show ?thesis
  proof cases
    case 1
    show ?thesis
      using opening_at [of s "CHR ''O''" "\<lambda>s. on_object_start (sx_h s)" ST_OBJECT_FIRST s' t] assms 1
      by (simp add: begin_value_def open_char_def)
  next
    case 2
    show ?thesis
      using opening_at [of s "CHR ''A''" "\<lambda>s. on_array_start (sx_h s)" ST_ARRAY_FIRST s' t] assms 2
      by (simp add: begin_value_def open_char_def)
  next
    case 3
    then show ?thesis using string_starts [of s False t] assms by (simp add: begin_value_def)
  next
    case 4
    then show ?thesis using lit [of "''true''"] assms(1) by (simp add: begin_value_def start_literal_def)
  next
    case 5
    then show ?thesis using lit [of "''false''"] assms(1) by (simp add: begin_value_def start_literal_def)
  next
    case 6
    then show ?thesis using lit [of "''null''"] assms(1) by (simp add: begin_value_def start_literal_def)
  next
    case 7
    then have "tok_put (s\<lparr>sx_tok := [], sx_state := ST_NUMBER\<rparr>) ch = (True, s')"
      using assms(1) by (auto simp: begin_value_def sfail_def split: if_splits)
    then have "s' = s\<lparr>sx_tok := [ch], sx_state := ST_NUMBER\<rparr>" by (auto dest!: tok_put_True)
    then show ?thesis using assms(2-4) by (auto simp: sax_at_def idle_def stack_ok_def)
  qed
qed

subsection \<open>Strings\<close>

lemma string_in_step:
  assumes "string_in s t" "kinds_of s' = kinds_of s" "sx_is_key s' = sx_is_key s" "sx_max_depth s' = sx_max_depth s"
    "\<And>raw. string_part (sx_state s) (sx_pending_high s) (sx_utf8_need s, sx_utf8_lo s, sx_utf8_hi s) (sx_u_count s, sx_u_val s) raw \<Longrightarrow>
      string_part (sx_state s') (sx_pending_high s') (sx_utf8_need s', sx_utf8_lo s', sx_utf8_hi s') (sx_u_count s', sx_u_val s') (raw @ [ch])"
  shows "string_in s' (t @ [ch])"
proof -
  obtain q raw where t: "t = q @ CHR 0x22 # raw"
    and q: "if sx_is_key s then key_slot (sx_max_depth s) (kinds_of s) q else slot (sx_max_depth s) (kinds_of s) q"
    and p: "string_part (sx_state s) (sx_pending_high s) (sx_utf8_need s, sx_utf8_lo s, sx_utf8_hi s) (sx_u_count s, sx_u_val s) raw"
    using assms(1) unfolding string_in_def by blast
  show ?thesis
    unfolding string_in_def
    by (intro exI [of _ q] exI [of _ "raw @ [ch]"]) (use t q assms(2-4) assms(5) [OF p] in simp)
qed

lemma string_part_string [simp]:
  "string_part ST_STRING p (need, lo, hi) (n, v) raw \<longleftrightarrow>
     (\<exists>r d e x. raw = r @ e @ x \<and> json_chars r d \<and> pending p e \<and> utf8_wait x need lo hi \<and> (p \<noteq> 0 \<longrightarrow> need = 0))"
  "string_part ST_STRING_ESC p (need, lo, hi) (n, v) raw \<longleftrightarrow>
     need = 0 \<and> (\<exists>r d e. raw = r @ e @ [CHR 0x5C] \<and> json_chars r d \<and> pending p e)"
  "string_part ST_STRING_U p (need, lo, hi) (n, v) raw \<longleftrightarrow>
     need = 0 \<and> n < 4 \<and> (\<exists>r d e ds. raw = r @ e @ CHR 0x5C # CHR ''u'' # ds \<and> json_chars r d \<and> pending p e \<and>
       hex_sum ds = Some v \<and> length ds = n)"
  unfolding string_part_def prod.case sax_state.case by blast+

lemma pending_0 [simp]: "pending 0 e \<longleftrightarrow> e = []"
  by (simp add: pending_def)

lemma utf8_wait_0 [simp]: "utf8_wait x 0 lo hi \<longleftrightarrow> x = []"
  by (simp add: utf8_wait_def)

lemma finish_string_at:
  assumes "finish_string s = (True, s')" "sax_at s t" "sx_state s = ST_STRING" "sx_pending_high s = 0" "sx_utf8_need s = 0"
  shows "sax_at s' (t @ [CHR 0x22])"
proof -
  have ok: "stack_ok s" "idle s" using assms(2,4,5) by (simp_all add: sax_at_def idle_def)
  obtain q r d where t: "t = q @ CHR 0x22 # r" and c: "json_chars r d"
    and q: "if sx_is_key s then key_slot (sx_max_depth s) (kinds_of s) q else slot (sx_max_depth s) (kinds_of s) q"
    using assms(2-5) by (auto simp: sax_at_def string_in_def)
  have j: "json_string (CHR 0x22 # r @ [CHR 0x22]) d" using c by (auto simp: json_string_def)
  have t': "t @ [CHR 0x22] = q @ CHR 0x22 # r @ [CHR 0x22]" by (simp add: t)
  show ?thesis
  proof (cases "sx_is_key s")
    case True
    then obtain u where "s' = s\<lparr>sx_user := u, sx_state := ST_COLON\<rparr>"
      using assms(1) by (auto simp: finish_string_def and_then_True_iff dest!: callback_True)
    then show ?thesis
      using ok key_slot_key [OF _ j] q True unfolding t' by (simp add: sax_at_def idle_def stack_ok_def)
  next
    case False
    then obtain u where "end_value (s\<lparr>sx_user := u\<rparr>) = (True, s')"
      using assms(1) by (auto simp: finish_string_def and_then_True_iff dest!: callback_True)
    then show ?thesis
      by (rule end_value_at)
        (use ok slot_value [OF _ string [OF j]] q False t' in \<open>simp_all add: stack_ok_def idle_def\<close>)
  qed
qed

lemma sax_at_string: "sx_state s \<in> {ST_STRING, ST_STRING_ESC, ST_STRING_U} \<Longrightarrow> sax_at s t \<longleftrightarrow> stack_ok s \<and> string_in s t"
  by (auto simp: sax_at_def)

text \<open>A step inside a literal that only touches the fields of the token.\<close>

lemma string_step:
  assumes "sax_at s t" "sx_state s \<in> {ST_STRING, ST_STRING_ESC, ST_STRING_U}"
    "sx_state s' \<in> {ST_STRING, ST_STRING_ESC, ST_STRING_U}" "sx_stack s' = sx_stack s" "sx_multi s' = sx_multi s"
    "sx_is_key s' = sx_is_key s" "sx_max_depth s' = sx_max_depth s"
    "\<And>raw. string_part (sx_state s) (sx_pending_high s) (sx_utf8_need s, sx_utf8_lo s, sx_utf8_hi s) (sx_u_count s, sx_u_val s) raw \<Longrightarrow>
      string_part (sx_state s') (sx_pending_high s') (sx_utf8_need s', sx_utf8_lo s', sx_utf8_hi s') (sx_u_count s', sx_u_val s') (raw @ [ch])"
  shows "sax_at s' (t @ [ch])"
proof -
  have "kinds_of s' = kinds_of s" "stack_ok s'" "string_in s t"
    using assms(1,4,5) assms(2) by (auto simp: kinds_of_def stack_ok_def sax_at_string)
  then show ?thesis
    using string_in_step [of s t s' ch] assms(3,6-8) by (simp add: sax_at_string)
qed

lemma ascii_char:
  assumes "json_chars r d" "\<not> byte ch < 0x20" "\<not> 0x80 \<le> byte ch" "ch \<noteq> CHR 0x22" "ch \<noteq> CHR 0x5C"
  shows "\<exists>d. json_chars (r @ [ch]) d"
proof -
  have "nyxj_utf8_encode (byte ch) = [ch]" "is_scalar (byte ch)" using assms(3) by (simp_all add: nyxj_utf8_encode_def is_scalar_def)
  moreover have "byte ch \<noteq> 0x22" "byte ch \<noteq> 0x5C"
    using assms(4,5) byte_inj [of ch "CHR 0x22"] byte_inj [of ch "CHR 0x5C"] by simp_all
  ultimately show ?thesis using json_chars_char [OF assms(1), of "byte ch"] assms(2) by auto
qed

lemma string_byte_at:
  assumes "string_byte s ch = (True, s')" "sax_at s t" "sx_state s = ST_STRING"
  shows "sax_at s' (t @ [ch])"
proof -
  note step = string_step [OF assms(2), of s' ch, unfolded assms(3)]
  show ?thesis
  proof (cases "sx_pending_high s = 0")
    case False
    then have s': "s' = s\<lparr>sx_state := ST_STRING_ESC\<rparr>" and ch: "ch = CHR 0x5C"
      using assms(1) by (auto simp: string_byte_def sfail_def split: if_splits)
    show ?thesis
    proof (rule step)
      fix raw
      assume "string_part ST_STRING (sx_pending_high s) (sx_utf8_need s, sx_utf8_lo s, sx_utf8_hi s) (sx_u_count s, sx_u_val s) raw"
      then obtain r d e where "raw = r @ e" "json_chars r d" "pending (sx_pending_high s) e" "sx_utf8_need s = 0"
        using False by auto
      then show "string_part (sx_state s') (sx_pending_high s') (sx_utf8_need s', sx_utf8_lo s', sx_utf8_hi s')
          (sx_u_count s', sx_u_val s') (raw @ [ch])"
        unfolding s' ch by auto
    qed (simp_all add: s')
  next
    case p: True
    show ?thesis
    proof (cases "sx_utf8_need s = 0")
      case False
      then obtain m where m: "sx_utf8_need s = Suc m" by (cases "sx_utf8_need s") auto
      have s': "s' = s\<lparr>sx_utf8_need := m, sx_utf8_lo := 0x80, sx_utf8_hi := 0xBF, sx_tok := sx_tok s @ [ch]\<rparr>"
        and ch: "sx_utf8_lo s \<le> byte ch" "byte ch \<le> sx_utf8_hi s"
        using assms(1) p m by (auto simp: string_byte_def sfail_def split: if_splits dest!: tok_put_True)
      show ?thesis
      proof (rule step)
        fix raw
        assume "string_part ST_STRING (sx_pending_high s) (sx_utf8_need s, sx_utf8_lo s, sx_utf8_hi s) (sx_u_count s, sx_u_val s) raw"
        then obtain r d x where raw: "raw = r @ x" and c: "json_chars r d" and w: "utf8_wait x (Suc m) (sx_utf8_lo s) (sx_utf8_hi s)"
          using p m by auto
        have "\<exists>r d x'. raw @ [ch] = r @ x' \<and> json_chars r d \<and> utf8_wait x' m 0x80 0xBF"
        proof (cases "m = 0")
          case True
          then obtain cp where cp: "is_scalar cp" "0x80 \<le> cp" "x @ [ch] = nyxj_utf8_encode cp"
            using utf8_wait_last [of x "sx_utf8_lo s" "sx_utf8_hi s" ch] w ch by auto
          have "json_chars (r @ x @ [ch]) (d @ x @ [ch])"
            using json_chars_char [OF c cp(1)] cp by simp
          then show ?thesis using raw True
            by (intro exI [of _ "r @ x @ [ch]"] exI [of _ "d @ x @ [ch]"] exI [of _ "[]"]) simp
        next
          case False
          then show ?thesis using utf8_wait_next [OF w ch] raw c by auto
        qed
        then show "string_part (sx_state s') (sx_pending_high s') (sx_utf8_need s', sx_utf8_lo s', sx_utf8_hi s') (sx_u_count s', sx_u_val s') (raw @ [ch])"
          using p assms(3) by (simp add: s')
      qed (simp_all add: s' assms(3))
    next
      case n: True
      consider "ch = CHR 0x22" | "ch = CHR 0x5C" | "ch \<noteq> CHR 0x22" "ch \<noteq> CHR 0x5C" "\<not> byte ch < 0x20" "0x80 \<le> byte ch"
        | "ch \<noteq> CHR 0x22" "ch \<noteq> CHR 0x5C" "\<not> byte ch < 0x20" "\<not> 0x80 \<le> byte ch"
        using assms(1) p n by (auto simp: string_byte_def sfail_def split: if_splits)
      then show ?thesis
      proof cases
        case 1
        then have "finish_string s = (True, s')" using assms(1) p n by (simp add: string_byte_def)
        then show ?thesis using finish_string_at [OF _ assms(2,3) p n] 1 by simp
      next
        case 2
        then have s': "s' = s\<lparr>sx_state := ST_STRING_ESC\<rparr>" using assms(1) p n by (simp add: string_byte_def)
        show ?thesis by (rule step) (use p n 2 in \<open>auto simp: s'\<close>)
      next
        case 3
        then obtain need lo hi where l: "lead_byte (byte ch) = Some (need, lo, hi)"
          and s': "s' = s\<lparr>sx_utf8_need := need, sx_utf8_lo := lo, sx_utf8_hi := hi, sx_tok := sx_tok s @ [ch]\<rparr>"
          using assms(1) p n by (auto simp: string_byte_def split: option.splits dest!: tok_put_True)
        show ?thesis
          by (rule step) (use p n utf8_wait_lead [OF l] assms(3) in \<open>auto simp: s'\<close>)
      next
        case 4
        then have s': "s' = s\<lparr>sx_tok := sx_tok s @ [ch]\<rparr>"
          using assms(1) p n by (auto simp: string_byte_def dest!: tok_put_True)
        show ?thesis
          by (rule step) (use p n ascii_char [OF _ 4(3,4,1,2)] assms(3) in \<open>auto simp: s'\<close>)
      qed
    qed
  qed
qed

lemma escape_byte_at:
  assumes "escape_byte s ch = (True, s')" "sax_at s t" "sx_state s = ST_STRING_ESC"
  shows "sax_at s' (t @ [ch])"
proof -
  note step = string_step [OF assms(2), of s' ch, unfolded assms(3)]
  show ?thesis
  proof (cases "ch = CHR ''u''")
    case True
    then have s': "s' = s\<lparr>sx_u_count := 0, sx_u_val := 0, sx_state := ST_STRING_U\<rparr>"
      using assms(1) by (simp add: escape_byte_def)
    show ?thesis by (rule step) (use True in \<open>auto simp: s' hex_sum_def\<close>)
  next
    case False
    then have p: "sx_pending_high s = 0"
      using assms(1) by (auto simp: escape_byte_def sfail_def split: if_splits)
    obtain d where d: "single_escape ch = Some d" and s': "s' = s\<lparr>sx_state := ST_STRING, sx_tok := sx_tok s @ [d]\<rparr>"
      using assms(1) False p by (auto simp: escape_byte_def split: option.splits dest!: tok_put_True)
    have "\<exists>d'. json_chars (r @ [CHR 0x5C, ch]) d'" if "json_chars r d'" for r d'
      using json_chars_escape [OF that json_escape.single [OF d]] by blast
    then show ?thesis by (intro step) (use p in \<open>auto simp: s'\<close>)
  qed
qed

lemma hex_value:
  "(if nyxj_is_digit ch then Some (byte ch - byte (CHR ''0''))
    else if byte (CHR ''a'') \<le> byte ch \<and> byte ch \<le> byte (CHR ''f'') then Some (byte ch - byte (CHR ''a'') + 10)
    else if byte (CHR ''A'') \<le> byte ch \<and> byte ch \<le> byte (CHR ''F'') then Some (byte ch - byte (CHR ''A'') + 10)
    else None) = hex_digit ch"
  by (auto simp: hex_digit_def nyxj_is_digit_def)

text \<open>The state after the fourth digit of an escape with the value \<open>u\<close>.\<close>

definition unicode_end :: "'u nyxj_sax \<Rightarrow> nat \<Rightarrow> 'u sax_step" where
  "unicode_end s u =
     (if sx_pending_high s \<noteq> 0
      then if u < 0xDC00 \<or> u > 0xDFFF then sfail s NYXJ_ERR_INVALID_UNICODE None
           else tok_put_cp (s\<lparr>sx_pending_high := 0\<rparr>) (0x10000 + (sx_pending_high s - 0xD800) * 1024 + (u - 0xDC00))
      else if u \<ge> 0xD800 \<and> u \<le> 0xDBFF then (True, s\<lparr>sx_pending_high := u\<rparr>)
      else if u \<ge> 0xDC00 \<and> u \<le> 0xDFFF then sfail s NYXJ_ERR_INVALID_UNICODE None
      else tok_put_cp s u)"

lemma unicode_byte_digit:
  assumes "hex_digit ch = Some d"
  shows "unicode_byte s ch =
    (let u = sx_u_val s * 16 + d; s = s\<lparr>sx_u_val := u, sx_u_count := sx_u_count s + 1\<rparr>
     in if sx_u_count s < 4 then (True, s) else unicode_end (s\<lparr>sx_state := ST_STRING\<rparr>) u)"
  unfolding unicode_byte_def hex_value assms option.case Let_def unicode_end_def by simp

lemma unicode_end_at:
  assumes "unicode_end s u = (True, s')" "json_chars r d" "pending (sx_pending_high s) e" "hex_quad h u"
    "sx_state s = ST_STRING" "sx_utf8_need s = 0"
  shows "string_part ST_STRING (sx_pending_high s') (sx_utf8_need s', lo, hi) uv (r @ e @ CHR 0x5C # CHR ''u'' # h) \<and>
    sx_state s' = ST_STRING \<and> sx_stack s' = sx_stack s \<and> sx_multi s' = sx_multi s \<and> sx_is_key s' = sx_is_key s \<and>
    sx_max_depth s' = sx_max_depth s"
proof (cases "sx_pending_high s = 0")
  case False
  then have low: "low_surrogate u"
    and s': "\<exists>k. s' = s\<lparr>sx_pending_high := 0, sx_tok := k\<rparr>"
    using assms(1) by (auto simp: unicode_end_def low_surrogate_def tok_put_cp_def split: if_splits dest!: tok_put_all_True)
  obtain g where e: "e = CHR 0x5C # CHR ''u'' # g" "hex_quad g (sx_pending_high s)" "high_surrogate (sx_pending_high s)"
    using assms(3) False by (auto simp: pending_def)
  have "\<exists>d. json_chars (r @ e @ CHR 0x5C # CHR ''u'' # h) d"
    using json_chars_escape [OF assms(2) json_escape.pair [OF e(2,3) assms(4) low]] e(1) by auto
  then show ?thesis using s' assms(5,6) by (cases uv) auto
next
  case p: True
  then have e: "e = []" using assms(3) by simp
  show ?thesis
  proof (cases "high_surrogate u")
    case True
    then have s': "s' = s\<lparr>sx_pending_high := u\<rparr>" using assms(1) p by (simp add: unicode_end_def high_surrogate_def)
    have "pending u (CHR 0x5C # CHR ''u'' # h)" using True assms(4) by (auto simp: pending_def high_surrogate_def)
    then show ?thesis using s' assms(2,5,6) e by (cases uv) auto
  next
    case False
    then have low: "\<not> low_surrogate u" and s': "\<exists>k. s' = s\<lparr>sx_tok := k\<rparr>"
      using assms(1) p
      by (auto simp: unicode_end_def low_surrogate_def high_surrogate_def tok_put_cp_def split: if_splits dest!: tok_put_all_True)
    have "\<exists>d. json_chars (r @ CHR 0x5C # CHR ''u'' # h) d"
      using json_chars_escape [OF assms(2) json_escape.bmp [OF assms(4) False low]] by auto
    then show ?thesis using s' assms(5,6) p e by (cases uv) auto
  qed
qed

lemma unicode_byte_at:
  assumes "unicode_byte s ch = (True, s')" "sax_at s t" "sx_state s = ST_STRING_U"
  shows "sax_at s' (t @ [ch])"
proof -
  obtain d where d: "hex_digit ch = Some d"
    using assms(1) unfolding unicode_byte_def hex_value by (cases "hex_digit ch") simp_all
  obtain q raw where t: "t = q @ CHR 0x22 # raw"
    and q: "if sx_is_key s then key_slot (sx_max_depth s) (kinds_of s) q else slot (sx_max_depth s) (kinds_of s) q"
    and p: "string_part ST_STRING_U (sx_pending_high s) (sx_utf8_need s, sx_utf8_lo s, sx_utf8_hi s) (sx_u_count s, sx_u_val s) raw"
    and ok: "stack_ok s"
    using assms(2,3) unfolding sax_at_string [of s, unfolded assms(3), simplified] string_in_def assms(3) by blast
  from p obtain r b e ds where raw: "raw = r @ e @ CHR 0x5C # CHR ''u'' # ds" and c: "json_chars r b"
    and e: "pending (sx_pending_high s) e" and h: "hex_sum ds = Some (sx_u_val s)" "length ds = sx_u_count s"
    and z: "sx_utf8_need s = 0" "sx_u_count s < 4"
    by auto
  have h': "hex_sum (ds @ [ch]) = Some (sx_u_val s * 16 + d)" by (rule hex_sum_snoc [OF h(1) d])
  show ?thesis
  proof (cases "sx_u_count s + 1 < 4")
    case True
    then have s': "s' = s\<lparr>sx_u_val := sx_u_val s * 16 + d, sx_u_count := sx_u_count s + 1\<rparr>"
      using assms(1) by (simp add: unicode_byte_digit [OF d])
    have "string_part ST_STRING_U (sx_pending_high s) (sx_utf8_need s, sx_utf8_lo s, sx_utf8_hi s)
        (sx_u_count s + 1, sx_u_val s * 16 + d) (raw @ [ch])"
      unfolding string_part_string
      by (intro conjI exI [of _ r] exI [of _ b] exI [of _ e] exI [of _ "ds @ [ch]"])
        (use raw c e h h' z True in simp_all)
    then have "string_in s' (t @ [ch])"
      unfolding string_in_def
      by (intro exI [of _ q] exI [of _ "raw @ [ch]"]) (use t q assms(3) s' in simp)
    then show ?thesis using ok assms(3) s' by (simp add: sax_at_def stack_ok_def)
  next
    case False
    let ?s = "s\<lparr>sx_u_val := sx_u_val s * 16 + d, sx_u_count := sx_u_count s + 1, sx_state := ST_STRING\<rparr>"
    have u: "unicode_end ?s (sx_u_val s * 16 + d) = (True, s')"
      using assms(1) False by (simp add: unicode_byte_digit [OF d] Let_def)
    have "hex_quad (ds @ [ch]) (sx_u_val s * 16 + d)"
      using hex_sum_quad [OF h'] h(2) z(2) False by simp
    from unicode_end_at [OF u c _ this, of e "sx_utf8_lo s'" "sx_utf8_hi s'" "(sx_u_count s', sx_u_val s')"] e z(1)
    have s': "string_part ST_STRING (sx_pending_high s') (sx_utf8_need s', sx_utf8_lo s', sx_utf8_hi s')
        (sx_u_count s', sx_u_val s') (raw @ [ch])"
      "sx_state s' = ST_STRING" "sx_stack s' = sx_stack s" "sx_multi s' = sx_multi s" "sx_is_key s' = sx_is_key s"
      "sx_max_depth s' = sx_max_depth s"
      unfolding raw by simp_all
    have k: "kinds_of s' = kinds_of s" using s'(3) by (simp add: kinds_of_def)
    have "string_in s' (t @ [ch])"
      unfolding string_in_def
      by (intro exI [of _ q] exI [of _ "raw @ [ch]"]) (use t q s' k in simp)
    then show ?thesis using ok s' by (simp add: sax_at_def stack_ok_def)
  qed
qed

lemma literal_byte_at:
  assumes "literal_byte s ch = (True, s')" "sax_at s t" "sx_state s = ST_LITERAL"
  shows "sax_at s' (t @ [ch])"
proof -
  obtain q where t: "t = q @ take (sx_lit_pos s) (sx_lit s)" and q: "slot (sx_max_depth s) (kinds_of s) q"
    and w: "sx_lit s \<in> {''true'', ''false'', ''null''}" and l: "sx_lit_pos s < length (sx_lit s)"
    and ok: "idle s" "stack_ok s"
    using assms(2,3) by (auto simp: sax_at_def literal_in_def)
  have ch: "ch = sx_lit s ! sx_lit_pos s" using assms(1) by (auto simp: literal_byte_def split: if_splits)
  have t': "t @ [ch] = q @ take (sx_lit_pos s + 1) (sx_lit s)" using l by (simp add: t ch take_Suc_conv_app_nth)
  show ?thesis
  proof (cases "sx_lit_pos s + 1 = length (sx_lit s)")
    case False
    then have "s' = s\<lparr>sx_lit_pos := sx_lit_pos s + 1\<rparr>" using assms(1) ch by (simp add: literal_byte_def)
    then show ?thesis
      using False t' q w l ok assms(3) by (auto simp: sax_at_def literal_in_def idle_def stack_ok_def)
  next
    case True
    obtain u where "end_value (s\<lparr>sx_lit_pos := sx_lit_pos s + 1, sx_user := u\<rparr>) = (True, s')"
      using assms(1) ch True
      by (auto simp: literal_byte_def and_then_True_iff Let_def split: if_splits dest!: callback_True)
    moreover have "\<exists>v. json_text d False (sx_lit s) v" for d
      using w null [of d False] false [of d False] true [of d False] by auto
    then have "after_value (sx_max_depth s) (kinds_of s) (q @ sx_lit s)"
      using slot_value [OF q] by blast
    ultimately show ?thesis
      using True t' ok by (elim end_value_at) (simp_all add: stack_ok_def idle_def)
  qed
qed

subsection \<open>A byte\<close>

lemma blank_one: "blank [ch] \<longleftrightarrow> nyxj_is_ws ch"
  by (simp add: blank_def)

lemma state_byte_at:
  assumes "state_byte s ch = (True, s')" "sax_at s t"
  shows "sax_at s' (t @ [ch])"
proof -
  let ?D = "sx_max_depth s" and ?fs = "kinds_of s"
  have ok: "stack_ok s" using assms(2) by (simp add: sax_at_def Let_def)
  then have multi: "\<not> sx_multi s" by (simp add: stack_ok_def)
  show ?thesis
  proof (cases "sx_state s")
    case ST_VALUE
    then have at: "idle s" "slot ?D ?fs t" using assms(2) by (simp_all add: sax_at_def Let_def)
    show ?thesis
    proof (cases "nyxj_is_ws ch")
      case True
      then show ?thesis
        using assms(1) ST_VALUE ok at slot_blank [OF at(2), of "[ch]"] blank_one
        by (simp add: state_byte_def sax_at_def Let_def)
    next
      case False
      then show ?thesis using assms(1) ST_VALUE begin_value_at [OF _ ok at] by (simp add: state_byte_def)
    qed
  next
    case ST_ARRAY_FIRST
    then have at: "idle s" "opened ?D ?fs t" "?fs \<noteq> []" "\<not> hd ?fs" using assms(2) by (simp_all add: sax_at_def Let_def)
    then obtain fs where fs: "?fs = False # fs" by (cases ?fs) auto
    consider "nyxj_is_ws ch" | "\<not> nyxj_is_ws ch" "ch = CHR '']''" | "\<not> nyxj_is_ws ch" "ch \<noteq> CHR '']''" by blast
    then show ?thesis
    proof cases
      case 1
      then show ?thesis
        using assms(1) ST_ARRAY_FIRST ok at opened_blank [OF at(2), of "[ch]"] blank_one
        by (simp add: state_byte_def sax_at_def Let_def)
    next
      case 2
      then have c: "close_container s (CHR ''A'') = (True, s')" using assms(1) ST_ARRAY_FIRST by (simp add: state_byte_def)
      show ?thesis
        by (rule close_container_at [OF c ok at(1)])
          (use opened_close [of ?D False fs t] at(2) fs 2 in \<open>simp_all add: close_char_def\<close>)
    next
      case 3
      have "slot ?D ?fs t" using opened_slot at(2) fs by simp
      then show ?thesis using assms(1) ST_ARRAY_FIRST 3 begin_value_at [OF _ ok at(1)] by (simp add: state_byte_def)
    qed
  next
    case ST_OBJECT_FIRST
    then have at: "idle s" "opened ?D ?fs t" "?fs \<noteq> []" "hd ?fs" using assms(2) by (simp_all add: sax_at_def Let_def)
    then obtain fs where fs: "?fs = True # fs" by (cases ?fs) auto
    consider "nyxj_is_ws ch" | "\<not> nyxj_is_ws ch" "ch = CHR 0x22" | "\<not> nyxj_is_ws ch" "ch = CHR ''}''"
      using assms(1) ST_OBJECT_FIRST by (auto simp: state_byte_def split: if_splits)
    then show ?thesis
    proof cases
      case 1
      then show ?thesis
        using assms(1) ST_OBJECT_FIRST ok at opened_blank [OF at(2), of "[ch]"] blank_one
        by (simp add: state_byte_def sax_at_def Let_def)
    next
      case 2
      have "key_slot ?D ?fs t" using opened_key_slot at(2) fs by simp
      then show ?thesis
        using assms(1) ST_OBJECT_FIRST 2 string_starts [OF ok at(1), of True t] by (simp add: state_byte_def)
    next
      case 3
      then have c: "close_container s (CHR ''O'') = (True, s')" using assms(1) ST_OBJECT_FIRST by (simp add: state_byte_def)
      show ?thesis
        by (rule close_container_at [OF c ok at(1)])
          (use opened_close [of ?D True fs t] at(2) fs 3 in \<open>simp_all add: close_char_def\<close>)
    qed
  next
    case ST_KEY
    then have at: "idle s" "key_slot ?D ?fs t" using assms(2) by (simp_all add: sax_at_def Let_def)
    show ?thesis
    proof (cases "nyxj_is_ws ch")
      case True
      then show ?thesis
        using assms(1) ST_KEY ok at key_slot_blank [OF at(2), of "[ch]"] blank_one
        by (simp add: state_byte_def sax_at_def Let_def)
    next
      case False
      then have "ch = CHR 0x22" "s' = s\<lparr>sx_is_key := True, sx_tok := [], sx_state := ST_STRING\<rparr>"
        using assms(1) ST_KEY by (auto simp: state_byte_def split: if_splits)
      then show ?thesis using string_starts [OF ok at(1), of True t] at(2) by simp
    qed
  next
    case ST_COLON
    then have at: "idle s" "colon_slot ?D ?fs t" using assms(2) by (simp_all add: sax_at_def Let_def)
    show ?thesis
    proof (cases "nyxj_is_ws ch")
      case True
      then show ?thesis
        using assms(1) ST_COLON ok at colon_slot_blank [OF at(2), of "[ch]"] blank_one
        by (simp add: state_byte_def sax_at_def Let_def)
    next
      case False
      then have "ch = CHR '':''" "s' = s\<lparr>sx_state := ST_VALUE\<rparr>"
        using assms(1) ST_COLON by (auto simp: state_byte_def split: if_splits)
      then show ?thesis using colon_slot_colon [OF at(2)] ok at(1) by (simp add: sax_at_def stack_ok_def idle_def Let_def)
    qed
  next
    case ST_AFTER_VALUE
    then have at: "idle s" "after_value ?D ?fs t" "?fs \<noteq> []" using assms(2) by (simp_all add: sax_at_def Let_def)
    then obtain b fs where fs: "?fs = b # fs" by (cases ?fs) auto
    have b: "fst (hd (sx_stack s)) = CHR ''O'' \<longleftrightarrow> b"
      using fs by (cases "sx_stack s") (auto simp: kinds_of_def)
    consider "nyxj_is_ws ch" | "\<not> nyxj_is_ws ch" "ch = CHR '',''" | "\<not> nyxj_is_ws ch" "ch = CHR ''}''"
      | "\<not> nyxj_is_ws ch" "ch = CHR '']''"
      using assms(1) ST_AFTER_VALUE by (auto simp: state_byte_def split: if_splits)
    then show ?thesis
    proof cases
      case 1
      then show ?thesis
        using assms(1) ST_AFTER_VALUE ok at after_blank [OF at(2), of "[ch]"] blank_one
        by (simp add: state_byte_def sax_at_def Let_def)
    next
      case 2
      then have s': "s' = s\<lparr>sx_state := (if b then ST_KEY else ST_VALUE)\<rparr>"
        using assms(1) ST_AFTER_VALUE b by (simp add: state_byte_def)
      show ?thesis
        using s' 2 ok at(1,2) fs after_comma_slot [of ?D fs t] after_comma_key [of ?D fs t]
        by (cases b) (simp_all add: sax_at_def stack_ok_def idle_def Let_def)
    next
      case 3
      then have c: "close_container s (CHR ''O'') = (True, s')" using assms(1) ST_AFTER_VALUE by (simp add: state_byte_def)
      show ?thesis
        by (rule close_container_at [OF c ok at(1)])
          (use after_close [of ?D True] at(2) 3 in \<open>auto simp: close_char_def\<close>)
    next
      case 4
      then have c: "close_container s (CHR ''A'') = (True, s')" using assms(1) ST_AFTER_VALUE by (simp add: state_byte_def)
      show ?thesis
        by (rule close_container_at [OF c ok at(1)])
          (use after_close [of ?D False] at(2) 4 in \<open>auto simp: close_char_def\<close>)
    qed
  next
    case ST_DONE
    then have at: "idle s" "after_value ?D [] t" "?fs = []" using assms(2) by (simp_all add: sax_at_def Let_def)
    have "nyxj_is_ws ch" "s' = s" using assms(1) ST_DONE multi by (auto simp: state_byte_def split: if_splits)
    then show ?thesis using ST_DONE ok at after_blank [OF at(2), of "[ch]"] blank_one by (simp add: sax_at_def Let_def)
  next
    case ST_STRING
    then show ?thesis using assms string_byte_at by (simp add: state_byte_def)
  next
    case ST_STRING_ESC
    then show ?thesis using assms escape_byte_at by (simp add: state_byte_def)
  next
    case ST_STRING_U
    then show ?thesis using assms unicode_byte_at by (simp add: state_byte_def)
  next
    case ST_NUMBER
    then have "s' = s\<lparr>sx_tok := sx_tok s @ [ch]\<rparr>" using assms(1) by (auto simp: state_byte_def dest!: tok_put_True)
    then show ?thesis using ST_NUMBER assms(2) by (auto simp: sax_at_def stack_ok_def idle_def)
  next
    case ST_LITERAL
    then show ?thesis using assms literal_byte_at by (simp add: state_byte_def)
  next
    case ST_ERROR
    then show ?thesis using assms(2) by (simp add: sax_at_def Let_def)
  qed
qed

subsection \<open>The loop\<close>

lemma sax_at_advance [simp]: "sax_at (advance s ch) t = sax_at s t"
  by (simp add: advance_def Let_def sax_at_def stack_ok_def idle_def string_in_def literal_in_def split: sax_state.split)

text \<open>No byte order mark is expected any more.\<close>

definition bom_over :: "'u nyxj_sax \<Rightarrow> bool" where
  "bom_over s \<longleftrightarrow> 3 \<le> sx_offset s \<or> sx_bom_pos s < sx_offset s"

lemma bom_over_not_expected: "bom_over s \<Longrightarrow> \<not> bom_expected s"
  by (auto simp: bom_over_def bom_expected_def)

lemma bom_over_keeps: "keeps s (ok, t) \<Longrightarrow> bom_over s \<Longrightarrow> bom_over t"
  by (auto simp: keeps_def bom_over_def)

lemma bom_over_advance: "sx_bom_pos s \<le> sx_offset s \<Longrightarrow> bom_over (advance s ch)"
  by (simp add: bom_over_def advance_def Let_def)

lemma sax_at_not_error: "sax_at s t \<Longrightarrow> sx_state s \<noteq> ST_ERROR"
  by (auto simp: sax_at_def)

lemma feed_loop_at:
  "feed_loop s xs = (True, s') \<Longrightarrow> bom_over s \<Longrightarrow> sax_at s t \<Longrightarrow> sax_at s' (t @ xs)"
proof (induction s xs arbitrary: t rule: feed_induct)
  case (bom s ch rest)
  then show ?case using bom_over_not_expected by blast
next
  case (bad_bom s ch rest)
  then show ?case using bom_over_not_expected by blast
next
  case (number s ch rest)
  obtain r where r: "finish_number s = (True, r)" "feed_loop r (ch # rest) = (True, s')"
    using number(5) unfolding feed_number [OF number(1-3)] and_then_True_iff by blast
  have "bom_over r" using bom_over_keeps [of s True r] keeps_finish_number [of s] r(1) number(6) by simp
  moreover have "sax_at r t" using finish_number_at [OF r(1) number(7)] number(3) by simp
  ultimately show ?case using number(4) [OF r(1,2)] by simp
next
  case (byte s ch rest)
  obtain r where r: "state_byte s ch = (True, r)" "feed_loop (advance r ch) rest = (True, s')"
    using byte(5) unfolding feed_byte [OF byte(1-3)] and_then_True_iff by blast
  have "keeps s (True, r)" using keeps_state_byte [OF sax_at_not_error [OF byte(7)], of ch] r(1) by simp
  then have "bom_over (advance r ch)"
    using bom_over_keeps [OF keeps_advance] bom_over_keeps byte(6) by blast
  moreover have "sax_at (advance r ch) (t @ [ch])" using state_byte_at [OF r(1) byte(7)] by simp
  ultimately have "sax_at s' ((t @ [ch]) @ rest)" by (rule byte(4) [OF r])
  then show ?case by simp
qed simp

text \<open>A parser before its first byte, in single-document mode.\<close>

definition fresh :: "'u nyxj_sax \<Rightarrow> bool" where
  "fresh s \<longleftrightarrow> sx_state s = ST_VALUE \<and> sx_stack s = [] \<and> sx_offset s = 0 \<and> sx_bom_pos s = 0 \<and> idle s \<and> \<not> sx_multi s"

lemma fresh_at: "fresh s \<Longrightarrow> sax_at (s\<lparr>sx_bom_pos := k, sx_offset := n\<rparr>) []"
  by (simp add: fresh_def sax_at_def stack_ok_def idle_def kinds_of_def)

lemma bom_expected_fresh: "fresh s \<Longrightarrow> bom_expected (s\<lparr>sx_bom_pos := k, sx_offset := n\<rparr>) \<longleftrightarrow> k = n \<and> n < 3"
  by (auto simp: fresh_def bom_expected_def)

lemma fresh_feed:
  assumes "fresh s" "feed_loop s inp = (True, s')"
  shows "sax_at s' (after_bom inp) \<or> sx_state s' = ST_VALUE"
proof -
  let ?s = "\<lambda>k. s\<lparr>sx_bom_pos := k, sx_offset := k\<rparr>"
  have s0: "?s 0 = s" using assms(1) by (simp add: fresh_def)
  have expect: "bom_expected (?s k)" if "k < 3" for k using bom_expected_fresh [OF assms(1)] that by simp
  have go: "feed_loop (?s k) (bom_byte k # rest) = feed_loop (?s (k + 1)) rest" if "k < 3" for k rest
    using feed_bom [of "?s k" "bom_byte k" rest] expect [OF that] by simp
  have bad: "feed_loop (?s k) (ch # rest) \<noteq> (True, s')" if "0 < k" "k < 3" "ch \<noteq> bom_byte k" for k ch rest
    using feed_bad_bom [of "?s k" ch rest] expect [OF that(2)] that by simp
  have ends: "sx_state s' = ST_VALUE" if "feed_loop (?s k) [] = (True, s')" for k
    using that assms(1) by (auto simp: fresh_def)
  have b: "bom_byte 0 = CHR 0xEF" "bom_byte 1 = CHR 0xBB" "bom_byte 2 = CHR 0xBF" by (simp_all add: bom_byte_def numeral_2_eq_2)
  show ?thesis
  proof (cases inp)
    case Nil
    then show ?thesis using assms by (auto simp: fresh_def)
  next
    case (Cons c0 t0)
    show ?thesis
    proof (cases "c0 = bom_byte 0")
      case False
      have n: "\<not> (bom_expected s \<and> c0 = bom_byte (sx_bom_pos s))" "\<not> (bom_expected s \<and> sx_bom_pos s > 0)"
        "\<not> (sx_state s = ST_NUMBER \<and> \<not> is_number_char c0)"
        using False assms(1) by (auto simp: fresh_def)
      obtain r where r: "state_byte s c0 = (True, r)" "feed_loop (advance r c0) t0 = (True, s')"
        using assms(2) unfolding Cons feed_byte [OF n] and_then_True_iff by blast
      have at: "sax_at s []" using fresh_at [OF assms(1), of 0 0] s0 by simp
      have "keeps s (True, r)" using keeps_state_byte [OF sax_at_not_error [OF at], of c0] r(1) by simp
      then have "sx_bom_pos r \<le> sx_offset r" using assms(1) by (auto simp: keeps_def fresh_def)
      then have "sax_at s' ([c0] @ t0)"
        using state_byte_at [OF r(1) at] by (intro feed_loop_at [OF r(2) bom_over_advance]) simp_all
      moreover have "after_bom inp = inp" using False Cons b by (auto simp: after_bom_def)
      ultimately show ?thesis using Cons by simp
    next
      case c0: True
      have f1: "feed_loop (?s 1) t0 = (True, s')" using assms(2) go [of 0 t0] c0 Cons s0 by simp
      show ?thesis
      proof (cases t0)
        case Nil
        then show ?thesis using ends f1 by blast
      next
        case (Cons c1 t1)
        then have c1: "c1 = bom_byte 1" using bad [of 1 c1 t1] f1 by auto
        then have f2: "feed_loop (?s 2) t1 = (True, s')" using f1 go [of 1 t1] Cons by (simp add: numeral_2_eq_2)
        show ?thesis
        proof (cases t1)
          case Nil
          then show ?thesis using ends f2 by blast
        next
          case (Cons c2 t2)
          then have c2: "c2 = bom_byte 2" using bad [of 2 c2 t2] f2 by auto
          then have f3: "feed_loop (?s 3) t2 = (True, s')" using f2 go [of 2 t2] Cons by (simp add: numeral_3_eq_3)
          have "after_bom inp = t2"
            using \<open>inp = c0 # t0\<close> \<open>t0 = c1 # t1\<close> Cons c0 c1 c2 b by (simp add: after_bom_def)
          moreover have "sax_at s' ([] @ t2)"
            by (rule feed_loop_at [OF f3 _ fresh_at [OF assms(1)]]) (simp add: bom_over_def)
          ultimately show ?thesis by simp
        qed
      qed
    qed
  qed
qed

lemma finish_at:
  assumes "nyxj_sax_finish s = (True, s')" "sax_at s t"
  shows "\<exists>v. json_document (sx_max_depth s) False t v"
proof -
  have m: "\<not> sx_multi s" using assms(2) by (simp add: sax_at_def stack_ok_def)
  obtain r where r: "(if sx_state s = ST_NUMBER then finish_number s else (True, s)) = (True, r)"
    and d: "sx_state r = ST_DONE \<or> sx_multi r"
    using assms(1) by (auto simp: nyxj_sax_finish_def and_then_True_iff split: if_splits)
  have "sax_at r t" using r assms(2) finish_number_at by (auto split: if_splits)
  moreover have "keeps s (True, r)" unfolding r [symmetric] by (simp add: keeps_True)
  ultimately show ?thesis using d m by (auto simp: keeps_def sax_at_def after_value_def)
qed

lemma finish_value: "sx_state s = ST_VALUE \<Longrightarrow> \<not> sx_multi s \<Longrightarrow> nyxj_sax_finish s \<noteq> (True, s')"
  by (simp add: nyxj_sax_finish_def)

theorem sax_accepts_grammar:
  assumes "fresh s" "and_then (nyxj_sax_feed s inp) nyxj_sax_finish = (True, s')"
  shows "\<exists>v. json_document (sx_max_depth s) False (after_bom inp) v"
proof -
  obtain r where r: "feed_loop s inp = (True, r)" "nyxj_sax_finish r = (True, s')"
    using assms by (auto simp: and_then_True_iff nyxj_sax_feed_def fresh_def)
  have "keeps s (True, r)" using keeps_feed_loop [of s inp] r(1) assms(1) by (simp add: fresh_def)
  then have k: "sx_multi r = sx_multi s" "sx_max_depth r = sx_max_depth s" by (simp_all add: keeps_def)
  then have "sax_at r (after_bom inp)"
    using fresh_feed [OF assms(1) r(1)] finish_value [of r] r(2) assms(1) by (auto simp: fresh_def)
  then show ?thesis using finish_at [OF r(2)] k(2) by simp
qed

end
