(* ===== verification/Sax_Complete.thy ===== *)
theory Sax_Complete
  imports Sax_Sound
begin

text \<open>
  Completeness of the push parser: without callbacks and element limit, and with a token buffer as long as the
  text, it accepts every text of the grammar whose nesting fits.
\<close>

subsection \<open>A parser that refuses nothing it need not\<close>

definition bom_clear :: "'u nyxj_sax \<Rightarrow> bool" where
  "bom_clear s \<longleftrightarrow> sx_bom_pos s = 0 \<or> 3 \<le> sx_offset s"

definition eager :: "unit nyxj_sax \<Rightarrow> bool" where
  "eager s \<longleftrightarrow> sx_h s = empty_handler \<and> sx_max_elements s = 0 \<and> \<not> sx_multi s \<and> bom_clear s"

text \<open>In a state, with a stack, and with the limits \<open>T\<close> on tokens and \<open>D\<close> on the depth.\<close>

definition sat :: "nat \<Rightarrow> nat \<Rightarrow> sax_state \<Rightarrow> (char \<times> 32 word) list \<Rightarrow> unit nyxj_sax \<Rightarrow> bool" where
  "sat T D st stk s \<longleftrightarrow>
     eager s \<and> idle s \<and> sx_max_token s = T \<and> sx_max_depth s = D \<and> sx_state s = st \<and> sx_stack s = stk"

lemmas sat_defs = sat_def eager_def idle_def bom_clear_def

lemma callback_empty [simp]: "callback None s = (True, s)"
  by (simp add: callback_def)

lemma empty_handler_simps [simp]:
  "on_object_start empty_handler = None" "on_object_end empty_handler = None" "on_array_start empty_handler = None"
  "on_array_end empty_handler = None" "on_key empty_handler = None" "on_string empty_handler = None"
  "on_number empty_handler = None" "on_bool empty_handler = None" "on_null empty_handler = None"
  "on_document_end empty_handler = None"
  by (simp_all add: empty_handler_def)

lemma advance_simps [simp]:
  "sx_h (advance s ch) = sx_h s" "sx_max_elements (advance s ch) = sx_max_elements s" "sx_multi (advance s ch) = sx_multi s"
  "sx_pending_high (advance s ch) = sx_pending_high s" "sx_utf8_need (advance s ch) = sx_utf8_need s"
  "sx_utf8_lo (advance s ch) = sx_utf8_lo s" "sx_utf8_hi (advance s ch) = sx_utf8_hi s"
  "sx_max_token (advance s ch) = sx_max_token s" "sx_max_depth (advance s ch) = sx_max_depth s"
  "sx_state (advance s ch) = sx_state s" "sx_stack (advance s ch) = sx_stack s" "sx_tok (advance s ch) = sx_tok s"
  "sx_is_key (advance s ch) = sx_is_key s" "sx_lit (advance s ch) = sx_lit s" "sx_lit_pos (advance s ch) = sx_lit_pos s"
  "sx_u_count (advance s ch) = sx_u_count s" "sx_u_val (advance s ch) = sx_u_val s"
  "sx_offset (advance s ch) = sx_offset s + 1" "sx_bom_pos (advance s ch) = sx_bom_pos s"
  by (simp_all add: advance_def Let_def)

lemma sat_advance: "sat T D st stk s \<Longrightarrow> sat T D st stk (advance s ch)"
  by (auto simp: sat_defs)

lemma feed_one:
  assumes "state_byte s ch = (True, r)" "bom_clear s" "sx_state s = ST_VALUE \<Longrightarrow> ch \<noteq> CHR 0xEF"
    "sx_state s \<noteq> ST_NUMBER \<or> is_number_char ch"
  shows "feed_loop s (ch # rest) = feed_loop (advance r ch) rest"
proof -
  have "\<not> (bom_expected s \<and> ch = bom_byte (sx_bom_pos s))" "\<not> (bom_expected s \<and> sx_bom_pos s > 0)"
    using assms(2,3) by (auto simp: bom_expected_def bom_clear_def bom_byte_def)
  then show ?thesis using assms(1,4) by (subst feed_byte) auto
qed

text \<open>The first byte of a value.\<close>

lemma value_step:
  assumes "sat T D st stk s" "st \<in> {ST_VALUE, ST_ARRAY_FIRST}" "\<not> nyxj_is_ws c" "c \<noteq> CHR '']''" "c \<noteq> CHR 0xEF"
    "begin_value s c = (True, r)"
  shows "feed_loop s (c # rest) = feed_loop (advance r c) rest"
proof (rule feed_one)
  have "sx_state s = ST_VALUE \<or> sx_state s = ST_ARRAY_FIRST" using assms(1,2) by (auto simp: sat_def)
  then have "state_byte s c = begin_value s c"
    unfolding state_byte_def Let_def using assms(3,4) by (elim disjE) (simp_all only: sax_state.case if_False)
  then show "state_byte s c = (True, r)" using assms(6) by simp
qed (use assms in \<open>auto simp: sat_def eager_def\<close>)

text \<open>The state of a finished value.\<close>

definition after_state :: "(char \<times> 32 word) list \<Rightarrow> sax_state" where
  "after_state stk = (if stk = [] then ST_DONE else ST_AFTER_VALUE)"

lemma end_value_sat:
  assumes "sat T D st stk s"
  obtains r where "end_value s = (True, r)" "sat T D (after_state stk) stk r"
  using assms that
  by (cases stk) (auto simp: end_value_def Let_def sat_defs after_state_def)

lemma tok_put_all_fits:
  "length (sx_tok s) + length cs \<le> sx_max_token s \<Longrightarrow> tok_put_all s cs = (True, s\<lparr>sx_tok := sx_tok s @ cs\<rparr>)"
  by (induction cs arbitrary: s) (simp_all add: tok_put_def)

subsection \<open>Blanks\<close>

lemma blank_run:
  "sat T D st stk s \<Longrightarrow> blank w \<Longrightarrow>
   st \<in> {ST_VALUE, ST_ARRAY_FIRST, ST_OBJECT_FIRST, ST_KEY, ST_COLON, ST_AFTER_VALUE, ST_DONE} \<Longrightarrow>
   \<exists>s'. sat T D st stk s' \<and> (\<forall>rest. feed_loop s (w @ rest) = feed_loop s' rest)"
proof (induction w arbitrary: s)
  case (Cons c w)
  have c: "nyxj_is_ws c" "blank w" using Cons.prems(2) by (simp_all add: blank_def)
  have "c \<noteq> CHR 0xEF" using c(1) by (auto simp: nyxj_is_ws_def)
  moreover have "state_byte s c = (True, s)" "bom_clear s" "sx_state s \<noteq> ST_NUMBER"
    using Cons.prems(1,3) c(1) by (auto simp: state_byte_def sat_defs)
  ultimately have "feed_loop s (c # w @ rest) = feed_loop (advance s c) (w @ rest)" for rest
    by (intro feed_one) simp_all
  then show ?case using Cons.IH [OF sat_advance [OF Cons.prems(1)] c(2) Cons.prems(3)] by simp
qed auto

subsection \<open>Strings\<close>

lemma string_one:
  assumes "sx_state s = ST_STRING" "bom_clear s" "string_byte s ch = (True, r)"
  shows "feed_loop s (ch # rest) = feed_loop (advance r ch) rest"
  using assms by (intro feed_one) (simp_all add: state_byte_def)

text \<open>The continuation bytes of a sequence.\<close>

definition in_string :: "nat \<Rightarrow> nat \<Rightarrow> (char \<times> 32 word) list \<Rightarrow> bool \<Rightarrow> nat \<Rightarrow> unit nyxj_sax \<Rightarrow> bool" where
  "in_string T D stk key room s \<longleftrightarrow>
     eager s \<and> sx_max_token s = T \<and> sx_max_depth s = D \<and> sx_state s = ST_STRING \<and> sx_stack s = stk \<and>
     sx_is_key s = key \<and> sx_pending_high s = 0 \<and> length (sx_tok s) + room \<le> T"

lemma cont_run:
  "in_string T D stk key (length q + room) s \<Longrightarrow> sx_utf8_need s = length q \<Longrightarrow>
   (\<And>k. k < length q \<Longrightarrow> (if k = 0 then sx_utf8_lo s else 0x80) \<le> byte (q ! k) \<and> byte (q ! k) \<le> (if k = 0 then sx_utf8_hi s else 0xBF)) \<Longrightarrow>
   \<exists>s'. in_string T D stk key room s' \<and> sx_utf8_need s' = 0 \<and> (\<forall>rest. feed_loop s (q @ rest) = feed_loop s' rest)"
proof (induction q arbitrary: s)
  case Nil
  then show ?case by (auto intro!: exI [of _ s])
next
  case (Cons c q)
  let ?r = "s\<lparr>sx_utf8_need := length q, sx_utf8_lo := 0x80, sx_utf8_hi := 0xBF, sx_tok := sx_tok s @ [c]\<rparr>"
  have c: "sx_utf8_lo s \<le> byte c" "byte c \<le> sx_utf8_hi s" using Cons.prems(3) [of 0] by auto
  have "string_byte s c = (True, ?r)"
    using Cons.prems(1,2) c by (simp add: string_byte_def tok_put_def in_string_def)
  then have f: "feed_loop s (c # q @ rest) = feed_loop (advance ?r c) (q @ rest)" for rest
    using Cons.prems(1) by (intro string_one) (simp_all add: in_string_def eager_def)
  have "\<exists>s'. in_string T D stk key room s' \<and> sx_utf8_need s' = 0 \<and> (\<forall>rest. feed_loop (advance ?r c) (q @ rest) = feed_loop s' rest)"
  proof (rule Cons.IH)
    show "in_string T D stk key (length q + room) (advance ?r c)"
      using Cons.prems(1) by (auto simp: in_string_def eager_def bom_clear_def)
    fix k
    assume "k < length q"
    then show "(if k = 0 then sx_utf8_lo (advance ?r c) else 0x80) \<le> byte (q ! k) \<and>
        byte (q ! k) \<le> (if k = 0 then sx_utf8_hi (advance ?r c) else 0xBF)"
      using Cons.prems(3) [of "Suc k"] by (cases "k = 0") simp_all
  qed simp
  then show ?case using f by simp
qed

lemma char_run:
  assumes "in_string T D stk key (length (nyxj_utf8_encode cp) + room) s" "sx_utf8_need s = 0"
    "is_scalar cp" "0x20 \<le> cp" "cp \<noteq> 0x22" "cp \<noteq> 0x5C"
  shows "\<exists>s'. in_string T D stk key room s' \<and> sx_utf8_need s' = 0 \<and>
    (\<forall>rest. feed_loop s (nyxj_utf8_encode cp @ rest) = feed_loop s' rest)"
proof (cases "cp < 0x80")
  case True
  let ?c = "chr cp" and ?r = "s\<lparr>sx_tok := sx_tok s @ [chr cp]\<rparr>"
  have b: "byte ?c = cp" using True by simp
  then have c: "?c \<noteq> CHR 0x22" "?c \<noteq> CHR 0x5C"
    using assms(5,6) byte_inj [of ?c "CHR 0x22"] byte_inj [of ?c "CHR 0x5C"] by simp_all
  have e: "nyxj_utf8_encode cp = [?c]" using True by (simp add: nyxj_utf8_encode_def)
  have "string_byte s ?c = (True, ?r)"
    using assms(1,2,4) c b True e by (simp add: string_byte_def tok_put_def in_string_def)
  then have "feed_loop s (?c # rest) = feed_loop (advance ?r ?c) rest" for rest
    using assms(1) by (intro string_one) (simp_all add: in_string_def eager_def)
  moreover have "in_string T D stk key room (advance ?r ?c)"
    using assms(1) e by (auto simp: in_string_def eager_def bom_clear_def)
  ultimately show ?thesis using e assms(2) by (intro exI [of _ "advance ?r ?c"]) simp
next
  case False
  have h: "utf8_head (nyxj_utf8_encode cp @ []) = Some (length (nyxj_utf8_encode cp))"
    using utf8_head_complete [OF assms(3), of "[]"] False by simp
  then obtain c q where e: "nyxj_utf8_encode cp = c # q"
    by (cases "nyxj_utf8_encode cp") (auto simp: utf8_head_def utf8_seq_at_def split: option.splits if_splits)
  obtain need lo hi where n: "utf8_need (byte c) = Some (need, lo, hi)" and len: "length q = need"
    and b0: "lo \<le> byte (q ! 0)" "byte (q ! 0) \<le> hi"
    and bk: "\<not> (\<exists>k \<in> set [1 ..< need]. byte (q ! k) < 0x80 \<or> 0xBF < byte (q ! k))"
    using h unfolding e append_Nil2 utf8_head_Cons by (auto simp: not_less split: option.splits if_splits)
  have c: "0x80 \<le> byte c" "need \<noteq> 0" using n by (auto elim: utf8_need_cases)
  then have nc: "c \<noteq> CHR 0x22" "c \<noteq> CHR 0x5C" by auto
  let ?r = "s\<lparr>sx_utf8_need := need, sx_utf8_lo := lo, sx_utf8_hi := hi, sx_tok := sx_tok s @ [c]\<rparr>"
  have "string_byte s c = (True, ?r)"
    using assms(1,2) c nc n e by (simp add: string_byte_def tok_put_def in_string_def lead_byte_utf8)
  then have f: "feed_loop s (c # rest) = feed_loop (advance ?r c) rest" for rest
    using assms(1) by (intro string_one) (simp_all add: in_string_def eager_def)
  have "\<exists>s'. in_string T D stk key room s' \<and> sx_utf8_need s' = 0 \<and> (\<forall>rest. feed_loop (advance ?r c) (q @ rest) = feed_loop s' rest)"
  proof (rule cont_run)
    show "in_string T D stk key (length q + room) (advance ?r c)"
      using assms(1) e by (auto simp: in_string_def eager_def bom_clear_def)
    fix k
    assume k: "k < length q"
    then have "k = 0 \<or> k \<in> set [1 ..< need]" using len by auto
    then show "(if k = 0 then sx_utf8_lo (advance ?r c) else 0x80) \<le> byte (q ! k) \<and>
        byte (q ! k) \<le> (if k = 0 then sx_utf8_hi (advance ?r c) else 0xBF)"
      using b0 bk by (auto simp: not_less)
  qed (simp add: len)
  then show ?thesis using f e by simp
qed

text \<open>Escapes. With a high surrogate pending the state is otherwise that of a string.\<close>

definition in_escape :: "sax_state \<Rightarrow> nat \<Rightarrow> nat \<Rightarrow> nat \<Rightarrow> (char \<times> 32 word) list \<Rightarrow> bool \<Rightarrow> nat \<Rightarrow> unit nyxj_sax \<Rightarrow> bool" where
  "in_escape st p T D stk key room s \<longleftrightarrow>
     eager s \<and> sx_max_token s = T \<and> sx_max_depth s = D \<and> sx_state s = st \<and> sx_stack s = stk \<and> sx_is_key s = key \<and>
     sx_pending_high s = p \<and> sx_utf8_need s = 0 \<and> length (sx_tok s) + room \<le> T"

lemmas escape_defs = in_escape_def eager_def bom_clear_def

lemma in_escape_string: "in_escape ST_STRING 0 T D stk key room s \<longleftrightarrow> in_string T D stk key room s \<and> sx_utf8_need s = 0"
  by (auto simp: in_escape_def in_string_def)

lemma in_escape_advance: "in_escape st p T D stk key room s \<Longrightarrow> in_escape st p T D stk key room (advance s ch)"
  by (auto simp: escape_defs)

lemma backslash_run:
  assumes "in_escape ST_STRING p T D stk key room s"
  shows "\<exists>s'. in_escape ST_STRING_ESC p T D stk key room s' \<and> (\<forall>rest. feed_loop s (CHR 0x5C # rest) = feed_loop s' rest)"
proof -
  let ?r = "s\<lparr>sx_state := ST_STRING_ESC\<rparr>"
  have "string_byte s (CHR 0x5C) = (True, ?r)" using assms by (simp add: string_byte_def in_escape_def)
  then have "feed_loop s (CHR 0x5C # rest) = feed_loop (advance ?r (CHR 0x5C)) rest" for rest
    using assms by (intro string_one) (simp_all add: in_escape_def eager_def)
  moreover have "in_escape ST_STRING_ESC p T D stk key room (advance ?r (CHR 0x5C))" using assms by (auto simp: escape_defs)
  ultimately show ?thesis by blast
qed

lemma u_run:
  assumes "in_escape ST_STRING p T D stk key room s"
  shows "\<exists>s'. in_escape ST_STRING_U p T D stk key room s' \<and> sx_u_count s' = 0 \<and> sx_u_val s' = 0 \<and>
    (\<forall>rest. feed_loop s (CHR 0x5C # CHR ''u'' # rest) = feed_loop s' rest)"
proof -
  obtain s1 where s1: "in_escape ST_STRING_ESC p T D stk key room s1"
    "\<And>rest. feed_loop s (CHR 0x5C # rest) = feed_loop s1 rest"
    using backslash_run [OF assms] by blast
  let ?r = "s1\<lparr>sx_u_count := 0, sx_u_val := 0, sx_state := ST_STRING_U\<rparr>"
  have "state_byte s1 (CHR ''u'') = (True, ?r)" using s1(1) by (simp add: state_byte_def escape_byte_def in_escape_def)
  then have "feed_loop s1 (CHR ''u'' # rest) = feed_loop (advance ?r (CHR ''u'')) rest" for rest
    using s1(1) by (intro feed_one) (simp_all add: in_escape_def eager_def)
  moreover have "in_escape ST_STRING_U p T D stk key room (advance ?r (CHR ''u''))" using s1(1) by (auto simp: escape_defs)
  ultimately show ?thesis using s1(2) by (intro exI [of _ "advance ?r (CHR ''u'')"]) simp
qed

lemma digit_run:
  assumes "in_escape ST_STRING_U p T D stk key room s" "hex_digit c = Some d" "sx_u_count s < 3"
  shows "\<exists>s'. in_escape ST_STRING_U p T D stk key room s' \<and> sx_u_count s' = sx_u_count s + 1 \<and>
    sx_u_val s' = sx_u_val s * 16 + d \<and> (\<forall>rest. feed_loop s (c # rest) = feed_loop s' rest)"
proof -
  let ?r = "s\<lparr>sx_u_val := sx_u_val s * 16 + d, sx_u_count := sx_u_count s + 1\<rparr>"
  have "state_byte s c = (True, ?r)"
    using assms by (simp add: state_byte_def in_escape_def unicode_byte_digit Let_def)
  then have "feed_loop s (c # rest) = feed_loop (advance ?r c) rest" for rest
    using assms(1) by (intro feed_one) (simp_all add: in_escape_def eager_def)
  moreover have "in_escape ST_STRING_U p T D stk key room (advance ?r c)" using assms(1) by (auto simp: escape_defs)
  ultimately show ?thesis by (intro exI [of _ "advance ?r c"]) simp
qed

lemma last_digit_run:
  assumes "in_escape ST_STRING_U p T D stk key room s" "hex_digit c = Some d" "sx_u_count s = 3"
  shows "\<exists>s1. in_escape ST_STRING p T D stk key room s1 \<and>
    (\<forall>s2 rest. unicode_end s1 (sx_u_val s * 16 + d) = (True, s2) \<longrightarrow> feed_loop s (c # rest) = feed_loop (advance s2 c) rest)"
proof -
  let ?r = "s\<lparr>sx_u_val := sx_u_val s * 16 + d, sx_u_count := sx_u_count s + 1, sx_state := ST_STRING\<rparr>"
  have b: "state_byte s c = unicode_end ?r (sx_u_val s * 16 + d)"
    using assms by (simp add: state_byte_def in_escape_def unicode_byte_digit Let_def)
  have "feed_loop s (c # rest) = feed_loop (advance s2 c) rest" if "unicode_end ?r (sx_u_val s * 16 + d) = (True, s2)" for s2 rest
    using assms(1) that b by (intro feed_one) (simp_all add: in_escape_def eager_def)
  moreover have "in_escape ST_STRING p T D stk key room ?r" using assms(1) by (auto simp: escape_defs)
  ultimately show ?thesis by blast
qed

lemma quad_run:
  assumes "in_escape ST_STRING p T D stk key room s" "hex_quad h v"
  shows "\<exists>s1 c. in_escape ST_STRING p T D stk key room s1 \<and>
    (\<forall>s2 rest. unicode_end s1 v = (True, s2) \<longrightarrow>
      feed_loop s (CHR 0x5C # CHR ''u'' # h @ rest) = feed_loop (advance s2 c) rest)"
proof -
  obtain a b c d w x y z where h: "h = [a, b, c, d]" and hx: "hex_digit a = Some w" "hex_digit b = Some x"
    "hex_digit c = Some y" "hex_digit d = Some z" and v: "v = ((w * 16 + x) * 16 + y) * 16 + z"
    using assms(2) by (auto simp: hex_quad_def)
  obtain s0 where s0: "in_escape ST_STRING_U p T D stk key room s0" "sx_u_count s0 = 0" "sx_u_val s0 = 0"
    "\<And>rest. feed_loop s (CHR 0x5C # CHR ''u'' # rest) = feed_loop s0 rest"
    using u_run [OF assms(1)] by blast
  obtain sa where sa: "in_escape ST_STRING_U p T D stk key room sa" "sx_u_count sa = 1" "sx_u_val sa = w"
    "\<And>rest. feed_loop s0 (a # rest) = feed_loop sa rest"
    using digit_run [OF s0(1) hx(1)] s0(2,3) by auto
  obtain sb where sb: "in_escape ST_STRING_U p T D stk key room sb" "sx_u_count sb = 2" "sx_u_val sb = w * 16 + x"
    "\<And>rest. feed_loop sa (b # rest) = feed_loop sb rest"
    using digit_run [OF sa(1) hx(2)] sa(2,3) by auto
  obtain sc where sc: "in_escape ST_STRING_U p T D stk key room sc" "sx_u_count sc = 3" "sx_u_val sc = (w * 16 + x) * 16 + y"
    "\<And>rest. feed_loop sb (c # rest) = feed_loop sc rest"
    using digit_run [OF sb(1) hx(3)] sb(2,3) by auto
  obtain s1 where s1: "in_escape ST_STRING p T D stk key room s1"
    "\<And>s2 rest. unicode_end s1 (sx_u_val sc * 16 + z) = (True, s2) \<Longrightarrow> feed_loop sc (d # rest) = feed_loop (advance s2 d) rest"
    using last_digit_run [OF sc(1) hx(4) sc(2)] by blast
  note last_step = s1(2) [unfolded sc(3), folded v]
  show ?thesis
    by (intro exI [of _ s1] exI [of _ d]) (simp add: h s0(4) sa(4) sb(4) sc(4) s1(1) last_step)
qed

lemma tok_put_cp_fits:
  assumes "in_escape ST_STRING p T D stk key (length (nyxj_utf8_encode cp) + room) s"
  shows "tok_put_cp (s\<lparr>sx_pending_high := 0\<rparr>) cp = (True, s\<lparr>sx_pending_high := 0, sx_tok := sx_tok s @ nyxj_utf8_encode cp\<rparr>)"
    "in_escape ST_STRING 0 T D stk key room (s\<lparr>sx_pending_high := 0, sx_tok := sx_tok s @ nyxj_utf8_encode cp\<rparr>)"
proof -
  show "tok_put_cp (s\<lparr>sx_pending_high := 0\<rparr>) cp = (True, s\<lparr>sx_pending_high := 0, sx_tok := sx_tok s @ nyxj_utf8_encode cp\<rparr>)"
    using assms tok_put_all_fits [of "s\<lparr>sx_pending_high := 0\<rparr>" "nyxj_utf8_encode cp"]
    by (simp add: tok_put_cp_def in_escape_def)
qed (use assms in \<open>auto simp: escape_defs\<close>)

lemma pending_same: "sx_pending_high s = 0 \<Longrightarrow> s\<lparr>sx_pending_high := 0\<rparr> = s"
  by simp

lemma escape_run:
  assumes "json_escape e d" "in_string T D stk key (length d + room) s" "sx_utf8_need s = 0"
  shows "\<exists>s'. in_string T D stk key room s' \<and> sx_utf8_need s' = 0 \<and> (\<forall>rest. feed_loop s (e @ rest) = feed_loop s' rest)"
proof -
  have s: "in_escape ST_STRING 0 T D stk key (length d + room) s" using assms(2,3) by (simp add: in_escape_string)
  have "\<exists>s'. in_escape ST_STRING 0 T D stk key room s' \<and> (\<forall>rest. feed_loop s (e @ rest) = feed_loop s' rest)"
    using assms(1) s
  proof cases
    case (single c b)
    obtain s1 where s1: "in_escape ST_STRING_ESC 0 T D stk key (1 + room) s1"
      "\<And>rest. feed_loop s (CHR 0x5C # rest) = feed_loop s1 rest"
      using backslash_run [OF s] single by auto
    let ?r = "s1\<lparr>sx_state := ST_STRING, sx_tok := sx_tok s1 @ [b]\<rparr>"
    have "c \<noteq> CHR ''u''" using single by (auto simp: single_escape_def)
    then have "state_byte s1 c = (True, ?r)"
      using s1(1) single by (simp add: state_byte_def escape_byte_def in_escape_def tok_put_def)
    then have "feed_loop s1 (c # rest) = feed_loop (advance ?r c) rest" for rest
      using s1(1) by (intro feed_one) (simp_all add: in_escape_def eager_def)
    moreover have "in_escape ST_STRING 0 T D stk key room (advance ?r c)" using s1(1) by (auto simp: escape_defs)
    ultimately show ?thesis using s1(2) single by (intro exI [of _ "advance ?r c"]) simp
  next
    case (bmp h v)
    obtain s1 c where s1: "in_escape ST_STRING 0 T D stk key (length d + room) s1"
      "\<And>s2 rest. unicode_end s1 v = (True, s2) \<Longrightarrow> feed_loop s (CHR 0x5C # CHR ''u'' # h @ rest) = feed_loop (advance s2 c) rest"
      using quad_run [OF s bmp(3)] by blast
    note fits = tok_put_cp_fits [OF s1(1) [unfolded bmp(2)]]
    have "unicode_end s1 v = tok_put_cp (s1\<lparr>sx_pending_high := 0\<rparr>) v"
      using s1(1) bmp(4,5) by (auto simp: unicode_end_def in_escape_def high_surrogate_def low_surrogate_def pending_same)
    then show ?thesis using s1(2) [of _] fits(1) in_escape_advance [OF fits(2)] bmp(1) by auto
  next
    case (pair h v g u)
    obtain s1 c where s1: "in_escape ST_STRING 0 T D stk key (length d + room) s1"
      "\<And>s2 rest. unicode_end s1 v = (True, s2) \<Longrightarrow> feed_loop s (CHR 0x5C # CHR ''u'' # h @ rest) = feed_loop (advance s2 c) rest"
      using quad_run [OF s pair(3)] by blast
    let ?s2 = "s1\<lparr>sx_pending_high := v\<rparr>"
    have "unicode_end s1 v = (True, ?s2)"
      using s1(1) pair(4) by (simp add: unicode_end_def in_escape_def high_surrogate_def)
    note f1 = s1(2) [OF this]
    have s2: "in_escape ST_STRING v T D stk key (length d + room) (advance ?s2 c)"
      using s1(1) by (auto simp: escape_defs)
    obtain s3 c' where s3: "in_escape ST_STRING v T D stk key (length d + room) s3"
      "\<And>s2' rest. unicode_end s3 u = (True, s2') \<Longrightarrow> feed_loop (advance ?s2 c) (CHR 0x5C # CHR ''u'' # g @ rest) = feed_loop (advance s2' c') rest"
      using quad_run [OF s2 pair(5)] by blast
    note fits = tok_put_cp_fits [OF s3(1) [unfolded pair(2)]]
    have "unicode_end s3 u = tok_put_cp (s3\<lparr>sx_pending_high := 0\<rparr>) (0x10000 + (v - 0xD800) * 1024 + (u - 0xDC00))"
      using s3(1) pair(4,6) by (simp add: unicode_end_def in_escape_def high_surrogate_def low_surrogate_def)
    then show ?thesis using s3(2) [of _] fits(1) in_escape_advance [OF fits(2)] pair(1) f1 by auto
  qed
  then show ?thesis by (simp add: in_escape_string)
qed

lemma chars_run:
  "json_chars t b \<Longrightarrow> in_string T D stk key (length b) s \<Longrightarrow> sx_utf8_need s = 0 \<Longrightarrow>
   \<exists>s'. in_string T D stk key 0 s' \<and> sx_utf8_need s' = 0 \<and> (\<forall>rest. feed_loop s (t @ rest) = feed_loop s' rest)"
proof (induction arbitrary: s rule: json_chars.induct)
  case (plain cp t b)
  obtain s1 where "in_string T D stk key (length b) s1" "sx_utf8_need s1 = 0"
    "\<And>rest. feed_loop s (nyxj_utf8_encode cp @ rest) = feed_loop s1 rest"
    using char_run [of T D stk key cp "length b" s] plain by auto
  then show ?case using plain.IH by simp
next
  case (escape e d t b)
  obtain s1 where "in_string T D stk key (length b) s1" "sx_utf8_need s1 = 0" "\<And>rest. feed_loop s (e @ rest) = feed_loop s1 rest"
    using escape_run [of e d T D stk key "length b" s] escape by auto
  then show ?case using escape.IH by simp
qed auto

subsection \<open>Tokens\<close>

lemma chars_length: "json_chars t b \<Longrightarrow> length b \<le> length t"
proof (induction rule: json_chars.induct)
  case (escape e d t s)
  have "length d \<le> length e"
    using escape.hyps(1)
  proof cases
    case (bmp h v)
    then show ?thesis using nyxj_utf8_encode_length(2) [of v] hex_quad_props by fastforce
  next
    case (pair h v l w)
    then show ?thesis
      using nyxj_utf8_encode_length(2) [of "0x10000 + (v - 0xD800) * 1024 + (w - 0xDC00)"] by simp
  qed simp
  then show ?case using escape.IH by simp
qed simp_all

lemma quote_run:
  assumes "in_string T D stk key 0 s" "sx_utf8_need s = 0" "sat T D st stk r" "finish_string s = (True, r)"
  shows "feed_loop s (CHR 0x22 # rest) = feed_loop (advance r (CHR 0x22)) rest"
  using assms by (intro string_one) (simp_all add: in_string_def eager_def string_byte_def)

lemma literal_chars_run:
  assumes "json_string t b" "length t \<le> T" "sat T D st stk s"
    "state_byte s (CHR 0x22) = (True, s\<lparr>sx_is_key := key, sx_tok := [], sx_state := ST_STRING\<rparr>)"
    "st \<in> {ST_VALUE, ST_ARRAY_FIRST, ST_OBJECT_FIRST, ST_KEY}"
  shows "\<exists>s'. in_string T D stk key 0 s' \<and> sx_utf8_need s' = 0 \<and> (\<forall>rest. feed_loop s (t @ rest) = feed_loop s' (CHR 0x22 # rest))"
proof -
  obtain q where t: "t = CHR 0x22 # q @ [CHR 0x22]" and q: "json_chars q b" using assms(1) by (auto simp: json_string_def)
  let ?r = "advance (s\<lparr>sx_is_key := key, sx_tok := [], sx_state := ST_STRING\<rparr>) (CHR 0x22)"
  have f: "feed_loop s (CHR 0x22 # rest) = feed_loop ?r rest" for rest
    using assms(3-5) by (intro feed_one) (auto simp: sat_def eager_def)
  have "in_string T D stk key (length b) ?r" "sx_utf8_need ?r = 0"
    using assms(2,3) chars_length [OF q] t by (auto simp: sat_defs in_string_def)
  then obtain s' where "in_string T D stk key 0 s'" "sx_utf8_need s' = 0"
    "\<And>rest. feed_loop ?r (q @ rest) = feed_loop s' rest"
    using chars_run [OF q] by blast
  then show ?thesis using f t by (intro exI [of _ s']) simp
qed

lemma string_run:
  assumes "json_string t b" "length t \<le> T" "sat T D st stk s" "st \<in> {ST_VALUE, ST_ARRAY_FIRST}"
  shows "\<exists>s'. sat T D (after_state stk) stk s' \<and> (\<forall>rest. feed_loop s (t @ rest) = feed_loop s' rest)"
proof -
  have "state_byte s (CHR 0x22) = (True, s\<lparr>sx_is_key := False, sx_tok := [], sx_state := ST_STRING\<rparr>)"
    using assms(3,4) by (auto simp: state_byte_def sat_def begin_value_def nyxj_is_ws_def)
  then obtain s1 where s1: "in_string T D stk False 0 s1" "sx_utf8_need s1 = 0"
    "\<And>rest. feed_loop s (t @ rest) = feed_loop s1 (CHR 0x22 # rest)"
    using literal_chars_run [OF assms(1-3)] assms(4) by blast
  have "sat T D ST_STRING stk s1" using s1(1,2) by (simp add: in_string_def sat_def idle_def)
  then obtain r where r: "end_value s1 = (True, r)" "sat T D (after_state stk) stk r" by (rule end_value_sat)
  have "finish_string s1 = (True, r)"
    using s1(1) r(1) by (simp add: finish_string_def in_string_def eager_def and_then_def)
  from quote_run [OF s1(1,2) r(2) this] show ?thesis using s1(3) sat_advance [OF r(2)] by auto
qed

lemma key_run:
  assumes "json_string t b" "length t \<le> T" "sat T D st stk s" "st \<in> {ST_KEY, ST_OBJECT_FIRST}"
  shows "\<exists>s'. sat T D ST_COLON stk s' \<and> (\<forall>rest. feed_loop s (t @ rest) = feed_loop s' rest)"
proof -
  have "state_byte s (CHR 0x22) = (True, s\<lparr>sx_is_key := True, sx_tok := [], sx_state := ST_STRING\<rparr>)"
    using assms(3,4) by (auto simp: state_byte_def sat_def nyxj_is_ws_def)
  then obtain s1 where s1: "in_string T D stk True 0 s1" "sx_utf8_need s1 = 0"
    "\<And>rest. feed_loop s (t @ rest) = feed_loop s1 (CHR 0x22 # rest)"
    using literal_chars_run [OF assms(1-3)] assms(4) by blast
  let ?r = "s1\<lparr>sx_state := ST_COLON\<rparr>"
  have r: "sat T D ST_COLON stk ?r" using s1(1,2) by (simp add: in_string_def sat_defs)
  have "finish_string s1 = (True, ?r)"
    using s1(1) by (simp add: finish_string_def in_string_def eager_def and_then_def)
  from quote_run [OF s1(1,2) r this] show ?thesis using s1(3) sat_advance [OF r] by auto
qed

text \<open>The literals.\<close>

lemma literal_run:
  "sat T D ST_LITERAL stk s \<Longrightarrow> sx_lit s = p @ q \<Longrightarrow> sx_lit_pos s = length p \<Longrightarrow> q \<noteq> [] \<Longrightarrow>
   \<exists>s'. sat T D (after_state stk) stk s' \<and> (\<forall>rest. feed_loop s (q @ rest) = feed_loop s' rest)"
proof (induction q arbitrary: s p rule: list.induct)
  case (Cons c q)
  let ?r = "s\<lparr>sx_lit_pos := sx_lit_pos s + 1\<rparr>"
  have sat: "sat T D ST_LITERAL stk ?r" using Cons.prems(1) by (simp add: sat_defs)
  have h: "sx_h s = empty_handler" and st: "sx_state s = ST_LITERAL" and b: "bom_clear s"
    using Cons.prems(1) by (simp_all add: sat_def eager_def)
  show ?case
  proof (cases "q = []")
    case True
    obtain r where r: "end_value ?r = (True, r)" "sat T D (after_state stk) stk r" using sat by (rule end_value_sat)
    have "state_byte s c = (True, r)"
      using Cons.prems(2,3) True h st r(1) by (simp add: state_byte_def literal_byte_def and_then_def Let_def nth_append)
    then have "feed_loop s (c # rest) = feed_loop (advance r c) rest" for rest
      using b st by (intro feed_one) simp_all
    then show ?thesis using True sat_advance [OF r(2)] by auto
  next
    case False
    have "state_byte s c = (True, ?r)"
      using Cons.prems(2,3) False st by (simp add: state_byte_def literal_byte_def Let_def nth_append)
    then have f: "feed_loop s (c # rest) = feed_loop (advance ?r c) rest" for rest
      using b st by (intro feed_one) simp_all
    show ?thesis
      using Cons.IH [OF sat_advance [OF sat, of c], of "p @ [c]"] Cons.prems(2,3) False f by simp
  qed
qed simp

lemma literal_value_run:
  assumes "sat T D st stk s" "st \<in> {ST_VALUE, ST_ARRAY_FIRST}" "w \<in> {''true'', ''false'', ''null''}"
  shows "\<exists>s'. sat T D (after_state stk) stk s' \<and> (\<forall>rest. feed_loop s (w @ rest) = feed_loop s' rest)"
proof -
  obtain c q where w: "w = c # q" "q \<noteq> []" using assms(3) by auto
  let ?r = "s\<lparr>sx_lit := w, sx_lit_pos := 1, sx_state := ST_LITERAL\<rparr>"
  have "begin_value s (hd w) = (True, ?r)"
    using assms(3) by (elim insertE emptyE) (simp_all add: begin_value_def start_literal_def)
  moreover have "\<not> nyxj_is_ws (hd w)" "hd w \<noteq> CHR '']''" "hd w \<noteq> CHR 0xEF"
    using assms(3) by (elim insertE emptyE; simp add: nyxj_is_ws_def)+
  ultimately have f: "feed_loop s (c # rest) = feed_loop (advance ?r c) rest" for rest
    using w by (intro value_step [OF assms(1,2)]) simp_all
  have "sat T D ST_LITERAL stk (advance ?r c)" using assms(1) by (auto simp: sat_defs)
  from literal_run [OF this, of "[c]" q] show ?thesis using f w by simp
qed

text \<open>Numbers.\<close>

definition in_number :: "nat \<Rightarrow> nat \<Rightarrow> (char \<times> 32 word) list \<Rightarrow> bytes \<Rightarrow> unit nyxj_sax \<Rightarrow> bool" where
  "in_number T D stk tok s \<longleftrightarrow> sat T D ST_NUMBER stk s \<and> sx_tok s = tok"

lemma number_chars_run:
  "in_number T D stk tok s \<Longrightarrow> list_all is_number_char q \<Longrightarrow> length (tok @ q) \<le> T \<Longrightarrow>
   \<exists>s'. in_number T D stk (tok @ q) s' \<and> (\<forall>rest. feed_loop s (q @ rest) = feed_loop s' rest)"
proof (induction q arbitrary: tok s)
  case (Cons c q)
  let ?r = "s\<lparr>sx_tok := sx_tok s @ [c]\<rparr>"
  have "state_byte s c = (True, ?r)"
    using Cons.prems by (simp add: state_byte_def in_number_def sat_def tok_put_def)
  then have f: "feed_loop s (c # rest) = feed_loop (advance ?r c) rest" for rest
    using Cons.prems by (intro feed_one) (simp_all add: in_number_def sat_def eager_def)
  have "in_number T D stk (tok @ [c]) (advance ?r c)" using Cons.prems(1) by (auto simp: in_number_def sat_defs)
  from Cons.IH [OF this] show ?case using Cons.prems(2,3) f by simp
qed auto

lemma json_number_chars: "json_number tok \<Longrightarrow> list_all is_number_char tok"
proof -
  have "list_all is_number_char ds" if "digits ds" for ds
    using that by (induction ds) (auto simp: is_number_char_def nyxj_is_digit_def is_digit_char_def)
  then show "json_number tok \<Longrightarrow> list_all is_number_char tok"
    by (auto simp: json_number_def number_token_def json_int_def sign_text_def frac_text_def exp_part_def is_number_char_def
        nyxj_is_digit_def)
qed

lemma number_run:
  assumes "json_number tok" "length tok \<le> T" "sat T D st stk s" "st \<in> {ST_VALUE, ST_ARRAY_FIRST}"
  shows "\<exists>s'. in_number T D stk tok s' \<and> (\<forall>rest. feed_loop s (tok @ rest) = feed_loop s' rest)"
proof -
  obtain c q where t: "tok = c # q" "c = CHR ''-'' \<or> nyxj_is_digit c"
    using json_number_hd [OF assms(1)] by (cases tok) (auto simp: nyxj_is_digit_def is_digit_char_def)
  let ?r = "s\<lparr>sx_tok := [c], sx_state := ST_NUMBER\<rparr>"
  have T: "0 < T" using assms(2) t by auto
  have cn: "c \<notin> {CHR ''{'', CHR ''['', CHR 0x22, CHR ''t'', CHR ''f'', CHR ''n'', CHR '']'', CHR 0xEF}" "\<not> nyxj_is_ws c"
    using t(2) by (auto simp: nyxj_is_ws_def nyxj_is_digit_def)
  have "begin_value s c = (True, ?r)"
    using assms(3) t(2) T cn(1) by (simp add: begin_value_def tok_put_def sat_def)
  then have f: "feed_loop s (c # rest) = feed_loop (advance ?r c) rest" for rest
    using cn by (intro value_step [OF assms(3,4)]) simp_all
  have "in_number T D stk [c] (advance ?r c)" using assms(3) by (auto simp: in_number_def sat_defs)
  from number_chars_run [OF this, of q] show ?thesis
    using assms(2) t json_number_chars [OF assms(1)] f by simp
qed

lemma number_settles:
  assumes "in_number T D stk tok s" "json_number tok"
  obtains s' where "sat T D (after_state stk) stk s'" "finish_number s = (True, s')"
    "\<And>c rest. \<not> is_number_char c \<Longrightarrow> feed_loop s (c # rest) = feed_loop s' (c # rest)"
proof -
  obtain v hp where v: "nyxj_number_value (sx_heap s) tok = (v, hp)" by (cases "nyxj_number_value (sx_heap s) tok")
  have "sat T D ST_NUMBER stk (s\<lparr>sx_heap := hp\<rparr>)" using assms(1) by (auto simp: in_number_def sat_defs)
  then obtain r where r: "end_value (s\<lparr>sx_heap := hp\<rparr>) = (True, r)" "sat T D (after_state stk) stk r" by (rule end_value_sat)
  have fin: "finish_number s = (True, r)"
    using assms v r(1) nyxj_scan_number_all [of tok]
    by (simp add: finish_number_def in_number_def sat_def eager_def and_then_def Let_def)
  have "feed_loop s (c # rest) = feed_loop r (c # rest)" if c: "\<not> is_number_char c" for c rest
  proof -
    have n: "\<not> (bom_expected s \<and> c = bom_byte (sx_bom_pos s))" "\<not> (bom_expected s \<and> sx_bom_pos s > 0)"
      "sx_state s = ST_NUMBER \<and> \<not> is_number_char c"
      using assms(1) c by (auto simp: bom_expected_def in_number_def sat_def)
    show ?thesis using feed_number [OF n] fin by (simp add: and_then_def)
  qed
  then show thesis using that r(2) fin by blast
qed

subsection \<open>Values\<close>

text \<open>After the text of a value; the end of a number shows only with the next byte.\<close>

definition ended :: "nat \<Rightarrow> nat \<Rightarrow> (char \<times> 32 word) list \<Rightarrow> unit nyxj_sax \<Rightarrow> bool" where
  "ended T D stk s \<longleftrightarrow> sat T D (after_state stk) stk s \<or> (\<exists>tok. json_number tok \<and> in_number T D stk tok s)"

lemma ended_sat: "sat T D (after_state stk) stk s \<Longrightarrow> ended T D stk s"
  by (simp add: ended_def)

lemma ended_settles:
  assumes "ended T D stk s" "\<not> is_number_char c"
  obtains s' where "sat T D (after_state stk) stk s'" "\<And>rest. feed_loop s (c # rest) = feed_loop s' (c # rest)"
  using assms number_settles unfolding ended_def by metis

lemma ws_not_number: "nyxj_is_ws c \<Longrightarrow> \<not> is_number_char c"
  by (auto simp: nyxj_is_ws_def is_number_char_def nyxj_is_digit_def)

lemma ended_blank:
  assumes "ended T D stk s" "blank w"
  shows "\<exists>s'. ended T D stk s' \<and> (\<forall>rest. feed_loop s (w @ rest) = feed_loop s' rest)"
proof (cases w)
  case (Cons c q)
  then have "\<not> is_number_char c" using assms(2) ws_not_number by (simp add: blank_def)
  then obtain s1 where s1: "sat T D (after_state stk) stk s1" "\<And>rest. feed_loop s (c # rest) = feed_loop s1 (c # rest)"
    using ended_settles assms(1) by blast
  have "after_state stk \<in> {ST_AFTER_VALUE, ST_DONE}" by (simp add: after_state_def)
  then obtain s2 where "sat T D (after_state stk) stk s2" "\<And>rest. feed_loop s1 (w @ rest) = feed_loop s2 rest"
    using blank_run [OF s1(1) assms(2)] by blast
  then show ?thesis using s1(2) Cons ended_sat by (intro exI [of _ s2]) simp
qed (use assms in auto)

definition kind_char :: "bool \<Rightarrow> char" where
  "kind_char obj = (if obj then CHR ''O'' else CHR ''A'')"

definition first_state :: "bool \<Rightarrow> sax_state" where
  "first_state obj = (if obj then ST_OBJECT_FIRST else ST_ARRAY_FIRST)"

definition next_state :: "bool \<Rightarrow> sax_state" where
  "next_state obj = (if obj then ST_KEY else ST_VALUE)"

lemma open_run:
  assumes "sat T D st stk s" "st \<in> {ST_VALUE, ST_ARRAY_FIRST}" "length stk < D"
  shows "\<exists>s'. sat T D (first_state obj) ((kind_char obj, 0) # stk) s' \<and>
    (\<forall>rest. feed_loop s (open_char obj # rest) = feed_loop s' rest)"
proof -
  let ?r = "s\<lparr>sx_stack := (kind_char obj, 0) # stk, sx_state := first_state obj\<rparr>"
  have p: "push s k = (True, s\<lparr>sx_stack := (k, 0) # stk\<rparr>)" for k
    using assms(1,3) by (simp add: push_def sat_def)
  have "begin_value s (open_char obj) = (True, ?r)"
    using assms(1) p by (cases obj) (simp_all add: begin_value_def open_char_def kind_char_def first_state_def and_then_def sat_def eager_def)
  then have "feed_loop s (open_char obj # rest) = feed_loop (advance ?r (open_char obj)) rest" for rest
    by (intro value_step [OF assms(1,2)]) (cases obj; simp add: open_char_def nyxj_is_ws_def)+
  moreover have "sat T D (first_state obj) ((kind_char obj, 0) # stk) (advance ?r (open_char obj))"
    using assms(1) by (auto simp: sat_defs)
  ultimately show ?thesis by blast
qed

lemma close_run:
  assumes "sat T D st ((kind_char obj, n) # stk) s" "st = ST_AFTER_VALUE \<or> st = first_state obj"
  shows "\<exists>s'. sat T D (after_state stk) stk s' \<and> (\<forall>rest. feed_loop s (close_char obj # rest) = feed_loop s' rest)"
proof -
  have "sat T D st stk (s\<lparr>sx_stack := stk\<rparr>)" using assms(1) by (auto simp: sat_defs)
  then obtain r where r: "end_value (s\<lparr>sx_stack := stk\<rparr>) = (True, r)" "sat T D (after_state stk) stk r" by (rule end_value_sat)
  have c: "close_container s (kind_char obj) = (True, r)"
    using assms(1) r(1) by (cases obj) (simp_all add: close_container_def sat_def eager_def and_then_def kind_char_def Let_def)
  have "sx_state s = ST_AFTER_VALUE \<or> sx_state s = first_state obj" using assms by (auto simp: sat_def)
  then have b: "state_byte s (close_char obj) = (True, r)"
    using c by (cases obj; elim disjE)
      (simp_all add: state_byte_def first_state_def close_char_def kind_char_def nyxj_is_ws_def)
  have "feed_loop s (close_char obj # rest) = feed_loop (advance r (close_char obj)) rest" for rest
    using assms by (intro feed_one [OF b]) (auto simp: sat_def eager_def first_state_def split: if_splits)
  then show ?thesis using sat_advance [OF r(2)] by blast
qed

lemma close_not_number: "\<not> is_number_char (close_char obj)"
  by (simp add: close_char_def is_number_char_def nyxj_is_digit_def)

lemma ended_close:
  assumes "ended T D ((kind_char obj, n) # stk) s"
  shows "\<exists>s'. sat T D (after_state stk) stk s' \<and> (\<forall>rest. feed_loop s (close_char obj # rest) = feed_loop s' rest)"
proof -
  obtain s1 where s1: "sat T D ST_AFTER_VALUE ((kind_char obj, n) # stk) s1"
    "\<And>rest. feed_loop s (close_char obj # rest) = feed_loop s1 (close_char obj # rest)"
    using ended_settles [OF assms close_not_number, of obj] unfolding after_state_def by auto
  then show ?thesis using close_run [OF s1(1)] by auto
qed

lemma comma_run:
  assumes "ended T D ((kind_char obj, n) # stk) s"
  shows "\<exists>s'. sat T D (next_state obj) ((kind_char obj, n) # stk) s' \<and>
    (\<forall>rest. feed_loop s (CHR '','' # rest) = feed_loop s' rest)"
proof -
  have "\<not> is_number_char (CHR '','')" by (simp add: is_number_char_def nyxj_is_digit_def)
  from ended_settles [OF assms this] obtain s1 where s1: "sat T D ST_AFTER_VALUE ((kind_char obj, n) # stk) s1"
    "\<And>rest. feed_loop s (CHR '','' # rest) = feed_loop s1 (CHR '','' # rest)"
    unfolding after_state_def by auto
  let ?r = "s1\<lparr>sx_state := next_state obj\<rparr>"
  have b: "state_byte s1 (CHR '','') = (True, ?r)"
    using s1(1) by (cases obj) (simp_all add: state_byte_def sat_def kind_char_def next_state_def nyxj_is_ws_def)
  have "feed_loop s1 (CHR '','' # rest) = feed_loop (advance ?r (CHR '','')) rest" for rest
    using s1(1) by (intro feed_one [OF b]) (simp_all add: sat_def eager_def)
  moreover have "sat T D (next_state obj) ((kind_char obj, n) # stk) (advance ?r (CHR '',''))"
    using s1(1) by (auto simp: sat_defs)
  ultimately show ?thesis using s1(2) by auto
qed

lemma colon_run:
  assumes "sat T D ST_COLON stk s"
  shows "\<exists>s'. sat T D ST_VALUE stk s' \<and> (\<forall>rest. feed_loop s (CHR '':'' # rest) = feed_loop s' rest)"
proof -
  let ?r = "s\<lparr>sx_state := ST_VALUE\<rparr>"
  have b: "state_byte s (CHR '':'') = (True, ?r)" using assms by (simp add: state_byte_def sat_def nyxj_is_ws_def)
  have "feed_loop s (CHR '':'' # rest) = feed_loop (advance ?r (CHR '':'')) rest" for rest
    using assms by (intro feed_one [OF b]) (simp_all add: sat_def eager_def)
  moreover have "sat T D ST_VALUE stk (advance ?r (CHR '':''))" using assms by (auto simp: sat_defs)
  ultimately show ?thesis by blast
qed

text \<open>Composition of runs.\<close>

definition takes_to :: "unit nyxj_sax \<Rightarrow> bytes \<Rightarrow> (unit nyxj_sax \<Rightarrow> bool) \<Rightarrow> bool" where
  "takes_to s t P \<longleftrightarrow> (\<exists>s'. P s' \<and> (\<forall>rest. feed_loop s (t @ rest) = feed_loop s' rest))"

lemma takes_to_append: "takes_to s t P \<Longrightarrow> (\<And>s'. P s' \<Longrightarrow> takes_to s' u Q) \<Longrightarrow> takes_to s (t @ u) Q"
  unfolding takes_to_def by (metis append.assoc)

lemma takes_to_mono: "takes_to s t P \<Longrightarrow> (\<And>s'. P s' \<Longrightarrow> Q s') \<Longrightarrow> takes_to s t Q"
  unfolding takes_to_def by blast

lemma takes_to_one: "\<exists>s'. P s' \<and> (\<forall>rest. feed_loop s (c # rest) = feed_loop s' rest) \<Longrightarrow> takes_to s [c] P"
  by (simp add: takes_to_def)

lemmas takes_open = takes_to_one [OF open_run]
  and takes_close = takes_to_one [OF close_run]
  and takes_ended_close = takes_to_one [OF ended_close]
  and takes_comma = takes_to_one [OF comma_run]
  and takes_colon = takes_to_one [OF colon_run]
  and takes_blank = blank_run [folded takes_to_def]
  and takes_ended_blank = ended_blank [folded takes_to_def]
  and takes_key = key_run [folded takes_to_def]
  and takes_string = string_run [folded takes_to_def]
  and takes_literal = literal_value_run [folded takes_to_def]
  and takes_number = number_run [folded takes_to_def]

lemma takes_empty:
  assumes "sat T D st stk s" "st \<in> {ST_VALUE, ST_ARRAY_FIRST}" "length stk < D" "blank w"
  shows "takes_to s (open_char obj # w @ [close_char obj]) (ended T D stk)"
proof -
  have "takes_to s ([open_char obj] @ w @ [close_char obj]) (sat T D (after_state stk) stk)"
  proof (intro takes_to_append [OF takes_open [OF assms(1-3)]])
    fix s1
    assume s1: "sat T D (first_state obj) ((kind_char obj, 0) # stk) s1"
    show "takes_to s1 (w @ [close_char obj]) (sat T D (after_state stk) stk)"
      by (rule takes_to_append [OF takes_blank [OF s1 assms(4)] takes_close])
        (auto simp: first_state_def)
  qed
  then show ?thesis by (auto intro: takes_to_mono ended_sat)
qed

lemma takes_body:
  assumes "sat T D st stk s" "st \<in> {ST_VALUE, ST_ARRAY_FIRST}" "length stk < D"
    "\<And>s n. sat T D (first_state obj) ((kind_char obj, n) # stk) s \<Longrightarrow> takes_to s t (ended T D ((kind_char obj, n) # stk))"
  shows "takes_to s (open_char obj # t @ [close_char obj]) (ended T D stk)"
proof -
  have "takes_to s ([open_char obj] @ t @ [close_char obj]) (sat T D (after_state stk) stk)"
    by (intro takes_to_append [OF takes_open [OF assms(1-3)]] takes_to_append [OF assms(4)] takes_ended_close)
  then show ?thesis by (auto intro: takes_to_mono ended_sat)
qed

lemma values_run:
  "json_text d u t v \<Longrightarrow> length t \<le> T \<Longrightarrow> d + length stk \<le> D \<Longrightarrow> sat T D st stk s \<Longrightarrow>
    st \<in> {ST_VALUE, ST_ARRAY_FIRST} \<Longrightarrow> takes_to s t (ended T D stk)"
  "json_items d u t vs \<Longrightarrow> length t \<le> T \<Longrightarrow> d + length stk \<le> D \<Longrightarrow> sat T D st stk s \<Longrightarrow>
    st \<in> {ST_VALUE, ST_ARRAY_FIRST} \<Longrightarrow> stk = (kind_char False, n) # fs \<Longrightarrow> takes_to s t (ended T D stk)"
  "json_members d u t ms \<Longrightarrow> length t \<le> T \<Longrightarrow> d + length stk \<le> D \<Longrightarrow> sat T D st stk s \<Longrightarrow>
    st \<in> {ST_KEY, ST_OBJECT_FIRST} \<Longrightarrow> stk = (kind_char True, n) # fs \<Longrightarrow> takes_to s t (ended T D stk)"
proof (induction arbitrary: stk st s and stk st s n fs and stk st s n fs rule: json_text_json_items_json_members.inducts)
  case (number tok d u)
  show ?case
    by (rule takes_to_mono [OF takes_number [OF number.hyps number.prems(1,3,4)]])
      (use number.hyps in \<open>auto simp: ended_def\<close>)
next
  case (string t b d u)
  show ?case by (rule takes_to_mono [OF takes_string [OF string.hyps string.prems(1,3,4)] ended_sat])
next
  case (empty_array w d u)
  then show ?case using takes_empty [of T D st stk s w False] by (simp add: open_char_def close_char_def)
next
  case (empty_object w d u)
  then show ?case using takes_empty [of T D st stk s w True] by (simp add: open_char_def close_char_def)
next
  case (array d u t vs)
  have "takes_to s (open_char False # t @ [close_char False]) (ended T D stk)"
  proof (rule takes_body [OF array.prems(3,4)])
    fix s n
    assume "sat T D (first_state False) ((kind_char False, n) # stk) s"
    then show "takes_to s t (ended T D ((kind_char False, n) # stk))"
      using array.prems(1,2) by (intro array.IH) (auto simp: first_state_def)
  qed (use array.prems(2) in simp)
  then show ?case by (simp add: open_char_def close_char_def)
next
  case (object d u t ms)
  have "takes_to s (open_char True # t @ [close_char True]) (ended T D stk)"
  proof (rule takes_body [OF object.prems(3,4)])
    fix s n
    assume "sat T D (first_state True) ((kind_char True, n) # stk) s"
    then show "takes_to s t (ended T D ((kind_char True, n) # stk))"
      using object.prems(1,2) by (intro object.IH(1)) (auto simp: first_state_def)
  qed (use object.prems(2) in simp)
  then show ?case by (simp add: open_char_def close_char_def)
next
  case (item w d u t v x)
  show ?case
    by (intro takes_to_append [OF takes_blank [OF item.prems(3) item.hyps(1)]]
        takes_to_append [OF item.IH] takes_ended_blank item.hyps)
      (use item.prems in auto)
next
  case (items w d u t v x r vs)
  have r: "takes_to s1 r (ended T D stk)" if "sat T D (next_state False) stk s1" for s1
    using items.prems items.IH(2) [of stk ST_VALUE s1 n fs] that by (simp add: next_state_def)
  have "takes_to s (w @ t @ x @ [CHR '',''] @ r) (ended T D stk)"
    by (intro takes_to_append [OF takes_blank [OF items.prems(3) items.hyps(1)]] takes_to_append [OF items.IH(1)]
        takes_to_append [OF takes_ended_blank] takes_to_append [OF takes_comma [where n = n, folded items.prems(5)]] r)
      (use items.prems items.hyps in auto)
  then show ?case by simp
next
  case (member w k b x y d u t v z)
  have "takes_to s (w @ k @ x @ [CHR '':''] @ y @ t @ z) (ended T D stk)"
    by (intro takes_to_append [OF takes_blank [OF member.prems(3) member.hyps(1)]]
        takes_to_append [OF takes_key [OF member.hyps(2)]] takes_to_append [OF takes_blank [OF _ member.hyps(3)]]
        takes_to_append [OF takes_colon] takes_to_append [OF takes_blank [OF _ member.hyps(4)]]
        takes_to_append [OF member.IH] takes_ended_blank member.hyps)
      (use member.prems in auto)
  then show ?case by simp
next
  case (members w k b x y d u t v z r ms)
  have r: "takes_to s1 r (ended T D stk)" if "sat T D (next_state True) stk s1" for s1
    using members.prems members.IH(2) [of stk ST_KEY s1 n fs] that by (simp add: next_state_def)
  have "takes_to s (w @ k @ x @ [CHR '':''] @ y @ t @ z @ [CHR '',''] @ r) (ended T D stk)"
    by (intro takes_to_append [OF takes_blank [OF members.prems(3) members.hyps(1)]]
        takes_to_append [OF takes_key [OF members.hyps(2)]] takes_to_append [OF takes_blank [OF _ members.hyps(3)]]
        takes_to_append [OF takes_colon] takes_to_append [OF takes_blank [OF _ members.hyps(4)]]
        takes_to_append [OF members.IH(1)] takes_to_append [OF takes_ended_blank]
        takes_to_append [OF takes_comma [where n = n, folded members.prems(5)]] r)
      (use members.prems members.hyps in auto)
  then show ?case by simp
qed (rule takes_to_mono [OF takes_literal ended_sat]; simp)+

subsection \<open>Documents\<close>

lemma document_run:
  assumes "json_document D u t v" "length t \<le> T" "sat T D ST_VALUE [] s"
  shows "\<exists>s'. ended T D [] s' \<and> feed_loop s t = (True, s')"
proof -
  obtain w x y where t: "t = w @ x @ y" and w: "blank w" and x: "json_text D u x v" and y: "blank y"
    using assms(1) by (auto simp: json_document_def)
  have "takes_to s (w @ x @ y) (ended T D [])"
    by (intro takes_to_append [OF takes_blank [OF assms(3) w]] takes_to_append [OF values_run(1) [OF x]]
        takes_ended_blank y)
      (use assms(2) t in auto)
  then obtain s' where "ended T D [] s'" "feed_loop s (t @ []) = feed_loop s' []" unfolding takes_to_def t by blast
  then show ?thesis by auto
qed

lemma finish_ended:
  assumes "ended T D [] s"
  shows "fst (nyxj_sax_finish s)"
proof -
  have fin: "sx_state r = ST_DONE" if "sat T D (after_state []) [] r" for r
    using that by (simp add: sat_def after_state_def)
  show ?thesis
    using assms unfolding ended_def
  proof (elim disjE exE conjE)
    fix tok
    assume n: "json_number tok" "in_number T D [] tok s"
    obtain r where "sat T D (after_state []) [] r" "finish_number s = (True, r)" by (rule number_settles [OF n(2,1)])
    then show ?thesis using fin n(2) by (simp add: nyxj_sax_finish_def in_number_def sat_def and_then_def)
  qed (use fin [of s] in \<open>simp add: nyxj_sax_finish_def and_then_def\<close>)
qed

lemma bom_run:
  fixes s :: "unit nyxj_sax"
  assumes "fresh s"
  shows "feed_loop s ([CHR 0xEF, CHR 0xBB, CHR 0xBF] @ rest) = feed_loop (s\<lparr>sx_bom_pos := 3, sx_offset := 3\<rparr>) rest"
proof -
  have b: "bom_byte 0 = CHR 0xEF" "bom_byte 1 = CHR 0xBB" "bom_byte 2 = CHR 0xBF" by (simp_all add: bom_byte_def numeral_2_eq_2)
  have go: "feed_loop (s\<lparr>sx_bom_pos := k, sx_offset := k\<rparr>) (bom_byte k # rest) =
      feed_loop (s\<lparr>sx_bom_pos := k + 1, sx_offset := k + 1\<rparr>) rest" if "k < 3" for k rest
    using feed_bom [of "s\<lparr>sx_bom_pos := k, sx_offset := k\<rparr>" "bom_byte k" rest] bom_expected_fresh [OF assms] that by simp
  have "s\<lparr>sx_bom_pos := 0, sx_offset := 0\<rparr> = s" using assms by (simp add: fresh_def)
  then show ?thesis using go [of 0] go [of 1] go [of 2] b by (simp add: numeral_3_eq_3 numeral_2_eq_2)
qed

lemma sax_takes_grammar:
  fixes s :: "unit nyxj_sax"
  assumes "fresh s" "sx_h s = empty_handler" "sx_max_elements s = 0" "length inp \<le> sx_max_token s"
    "json_document (sx_max_depth s) u (after_bom inp) v"
  shows "fst (and_then (nyxj_sax_feed s inp) nyxj_sax_finish)"
proof -
  let ?T = "sx_max_token s" and ?D = "sx_max_depth s"
  have "\<exists>s'. ended ?T ?D [] s' \<and> feed_loop s inp = (True, s')"
  proof (cases "after_bom inp = inp")
    case True
    have "sat ?T ?D ST_VALUE [] s" using assms(1-3) by (auto simp: sat_defs fresh_def)
    then show ?thesis using document_run [OF _ assms(4)] assms(5) True by simp
  next
    case False
    then have b: "inp = [CHR 0xEF, CHR 0xBB, CHR 0xBF] @ after_bom inp"
      by (auto simp: after_bom_def starts_with_iff split: if_splits)
    have len: "length (after_bom inp) \<le> ?T" using assms(4) by (auto simp: after_bom_def)
    have "sat ?T ?D ST_VALUE [] (s\<lparr>sx_bom_pos := 3, sx_offset := 3\<rparr>)"
      using assms(1-3) by (auto simp: sat_defs fresh_def)
    from document_run [OF assms(5) len this] show ?thesis
      using bom_run [OF assms(1), of "after_bom inp"] b by simp
  qed
  then obtain s' where s': "ended ?T ?D [] s'" "feed_loop s inp = (True, s')" by blast
  then show ?thesis using finish_ended [OF s'(1)] assms(1) by (simp add: nyxj_sax_feed_def fresh_def and_then_def)
qed

subsection \<open>Validation\<close>

definition sax_depth :: "sax_options \<Rightarrow> nat" where
  "sax_depth ops = nat (if so_max_depth ops \<le> 0 then default_max_depth else so_max_depth ops)"

definition validate_options :: "sax_options \<Rightarrow> bytes \<Rightarrow> sax_options" where
  "validate_options ops inp =
     (if so_max_token_size ops = 0 then ops\<lparr>so_max_token_size := min (length inp + 1) (64 * 2 ^ 20)\<rparr> else ops)"

lemma create_props:
  assumes "nyxj_sax_create h n handler u (Some ops) = (Some s, h')" "\<not> so_multi_document ops"
  shows "fresh s" "sx_max_depth s = sax_depth ops" "sx_max_elements s = so_max_elements ops"
    "sx_h s = (case handler of None \<Rightarrow> empty_handler | Some h \<Rightarrow> h)"
    "so_max_token_size ops \<noteq> 0 \<Longrightarrow> sx_max_token s = so_max_token_size ops"
  using assms
  by (auto simp: nyxj_sax_create_def nyxj_sax_reset_def fresh_def idle_def sax_depth_def Let_def split: prod.splits if_splits)

lemma create_total:
  "heap_total h \<Longrightarrow> \<exists>s h'. nyxj_sax_create h n handler u opts = (Some s, h')"
  by (simp add: nyxj_sax_create_def malloc_def heap_total_def Let_def)

lemma validate_as_feed:
  "fst (nyxj_sax_validate h n inp (Some ops)) \<longleftrightarrow>
     (\<exists>s h'. nyxj_sax_create h n (None :: unit sax_handler option) () (Some (validate_options ops inp)) = (Some s, h') \<and>
        fst (and_then (nyxj_sax_feed s inp) nyxj_sax_finish))"
  by (auto simp: nyxj_sax_validate_def validate_options_def Let_def split: prod.splits option.splits)

lemma validate_options_simps [simp]:
  "so_multi_document (validate_options ops inp) = so_multi_document ops"
  "so_max_elements (validate_options ops inp) = so_max_elements ops"
  "sax_depth (validate_options ops inp) = sax_depth ops"
  by (simp_all add: validate_options_def sax_depth_def)

lemma validate_sound:
  assumes "fst (nyxj_sax_validate h n inp (Some ops))" "\<not> so_multi_document ops"
  shows "\<exists>v. json_document (sax_depth ops) False (after_bom inp) v"
proof -
  obtain s h' where s: "nyxj_sax_create h n (None :: unit sax_handler option) () (Some (validate_options ops inp)) = (Some s, h')"
    "fst (and_then (nyxj_sax_feed s inp) nyxj_sax_finish)"
    using assms(1) unfolding validate_as_feed by blast
  have p: "fresh s" "sx_max_depth s = sax_depth ops" using create_props [OF s(1)] assms(2) by simp_all
  obtain s' where "and_then (nyxj_sax_feed s inp) nyxj_sax_finish = (True, s')"
    using s(2) by (cases "and_then (nyxj_sax_feed s inp) nyxj_sax_finish") auto
  then show ?thesis using sax_accepts_grammar [OF p(1)] p(2) by auto
qed

lemma validate_complete:
  assumes "heap_total h" "\<not> so_multi_document ops" "so_max_elements ops = 0"
    "length inp \<le> so_max_token_size ops \<or> so_max_token_size ops = 0 \<and> length inp < 64 * 2 ^ 20"
    "json_document (sax_depth ops) u (after_bom inp) v"
  shows "fst (nyxj_sax_validate h n inp (Some ops))"
proof -
  let ?ops = "validate_options ops inp"
  obtain s h' where s: "nyxj_sax_create h n (None :: unit sax_handler option) () (Some ?ops) = (Some s, h')"
    using create_total [OF assms(1), of n "None :: unit sax_handler option" "()" "Some ?ops"] by blast
  have "inp \<noteq> []" using assms(5) json_text_hd by (fastforce simp: json_document_def after_bom_def)
  then have "so_max_token_size ?ops \<noteq> 0 \<and> length inp \<le> so_max_token_size ?ops"
    using assms(4) by (auto simp: validate_options_def)
  then show ?thesis
    using create_props [OF s] assms(2,3,5) sax_takes_grammar [of s inp u v] s unfolding validate_as_feed by auto
qed

end
