(* ===== verification/Gate_Facts.thy ===== *)
theory Gate_Facts
  imports Gate Sax_Complete
begin

text \<open>
  What the gate promises to the code behind it: an allowed payload has an acceptable size, no NUL byte, and a body
  that is a JSON document within the depth of the policy, so the parser accepts it.
\<close>

subsection \<open>Deeper limits accept more\<close>

lemma grammar_mono:
  "json_text d u t v \<Longrightarrow> d \<le> e \<Longrightarrow> json_text e u t v"
  "json_items d u t vs \<Longrightarrow> d \<le> e \<Longrightarrow> json_items e u t vs"
  "json_members d u t ms \<Longrightarrow> d \<le> e \<Longrightarrow> json_members e u t ms"
proof (induction arbitrary: e and e and e rule: json_text_json_items_json_members.inducts)
  case (empty_array w d u)
  then show ?case by (cases e) (auto intro: json_text_json_items_json_members.empty_array)
next
  case (array d u t vs)
  then show ?case by (cases e) (auto intro: json_text_json_items_json_members.array)
next
  case (empty_object w d u)
  then show ?case by (cases e) (auto intro: json_text_json_items_json_members.empty_object)
next
  case (object d u t ms)
  then show ?case by (cases e) (auto intro: json_text_json_items_json_members.object)
qed (auto intro: json_text_json_items_json_members.intros)

lemma document_mono: "json_document d u t v \<Longrightarrow> d \<le> e \<Longrightarrow> json_document e u t v"
  unfolding json_document_def using grammar_mono(1) by blast

subsection \<open>The checks\<close>

lemma deny_denies [simp]: "\<not> allowed (deny v ec msg)"
  by (simp add: deny_def Let_def)

text \<open>What an allowed body has, apart from blank bodies.\<close>

lemma gate_body_allowed:
  assumes "gate_body be hp n p body v = (w, hp')" "allowed w" "\<not> allowed v"
  shows "blank body \<and> gp_allow_empty p \<or>
    NUL \<notin> set body \<and> (gp_require_object_root p \<longrightarrow> hd (dropWhile nyxj_is_ws body) = CHR ''{'') \<and>
    fst (nyxj_sax_validate hp n body (Some (gate_options p)))"
  using assms
  by (auto simp: gate_body_def nyxj_scan_ws_eq blank_def list_all_iff dropWhile_eq_Nil_conv Let_def
      split: if_splits prod.splits)

lemma gate_body_allows:
  assumes "dropWhile nyxj_is_ws body \<noteq> []" "NUL \<notin> set body"
    "gp_require_object_root p \<Longrightarrow> hd (dropWhile nyxj_is_ws body) = CHR ''{''"
    "fst (nyxj_sax_validate hp n body (Some (gate_options p)))"
  shows "allowed (fst (gate_body be hp n p body v))"
  using assms by (auto simp: gate_body_def nyxj_scan_ws_eq Let_def split: prod.splits)

lemma after_bom_drop:
  "drop (if length buf \<ge> 3 \<and> take 3 buf = [CHR 0xEF, CHR 0xBB, CHR 0xBF] then 3 else 0) buf = after_bom buf"
proof -
  have "take 3 buf = [x, y, z] \<longleftrightarrow> starts_with [x, y, z] buf" for x y z
    unfolding starts_with_iff using append_take_drop_id [of 3 buf] by (metis append_eq_conv_conj length_Cons list.size(3) numeral_3_eq_3)
  then show ?thesis unfolding after_bom_def by simp
qed

lemma gate_check_body:
  "\<exists>v. \<not> allowed v \<and>
    nyxj_gate_check be hp n (Some buf) (length buf) (Some p) =
      (if gp_max_size p \<noteq> 0 \<and> length buf > gp_max_size p
       then (deny \<lparr>allowed = False, gv_error = no_error, reason = None, body_offset = 0\<rparr> NYXJ_ERR_SIZE_LIMIT
              (Some ''payload exceeds the maximum size''), hp)
       else gate_body be hp n p (after_bom buf) v)"
proof -
  define k where "k = (if length buf \<ge> 3 \<and> take 3 buf = [CHR 0xEF, CHR 0xBB, CHR 0xBF] then 3 else 0 :: nat)"
  define v where "v = \<lparr>allowed = False, gv_error = no_error, reason = None, body_offset = 0\<rparr>"
  have k: "drop k buf = after_bom buf" unfolding k_def by (rule after_bom_drop)
  have "nyxj_gate_check be hp n (Some buf) (length buf) (Some p) =
      (if gp_max_size p \<noteq> 0 \<and> length buf > gp_max_size p
       then (deny v NYXJ_ERR_SIZE_LIMIT (Some ''payload exceeds the maximum size''), hp)
       else gate_body be hp n p (drop k buf) (v\<lparr>body_offset := k\<rparr>))"
    unfolding nyxj_gate_check_def Let_def option.case k_def [symmetric] v_def [symmetric] by simp
  moreover have "\<not> allowed (v\<lparr>body_offset := k\<rparr>)" by (simp add: v_def)
  ultimately show ?thesis unfolding k v_def by blast
qed

lemma gate_depth [simp]: "sax_depth (gate_options p) = nat (if gp_max_depth p > 0 then gp_max_depth p else default_max_depth)"
  by (simp add: sax_depth_def gate_options_def default_max_depth_def)

lemma gate_single [simp]: "so_multi_document (gate_options p) = False"
  by (simp add: gate_options_def sax_options_zero_def)

lemma gate_check_allowed:
  assumes "allowed (fst (nyxj_gate_check be hp n (Some buf) (length buf) (Some p)))"
  shows "(gp_max_size p \<noteq> 0 \<longrightarrow> length buf \<le> gp_max_size p) \<and>
    (blank (after_bom buf) \<and> gp_allow_empty p \<or>
     NUL \<notin> set (after_bom buf) \<and>
     (gp_require_object_root p \<longrightarrow> hd (dropWhile nyxj_is_ws (after_bom buf)) = CHR ''{'') \<and>
     (\<exists>t. json_document (sax_depth (gate_options p)) False (after_bom (after_bom buf)) t))"
proof -
  obtain v where v: "\<not> allowed v" "nyxj_gate_check be hp n (Some buf) (length buf) (Some p) =
      (if gp_max_size p \<noteq> 0 \<and> length buf > gp_max_size p
       then (deny \<lparr>allowed = False, gv_error = no_error, reason = None, body_offset = 0\<rparr> NYXJ_ERR_SIZE_LIMIT
              (Some ''payload exceeds the maximum size''), hp)
       else gate_body be hp n p (after_bom buf) v)"
    using gate_check_body by blast
  show ?thesis
  proof (cases "gp_max_size p \<noteq> 0 \<and> length buf > gp_max_size p")
    case False
    have a: "allowed (fst (gate_body be hp n p (after_bom buf) v))" using assms False v(2) by auto
    obtain w hp' where "gate_body be hp n p (after_bom buf) v = (w, hp')" by fastforce
    from gate_body_allowed [OF this _ v(1)] a this
    show ?thesis using False validate_sound [of hp n "after_bom buf" "gate_options p"] by auto
  qed (use assms v(2) in simp)
qed

text \<open>A document whose first byte after the blanks is a brace is an object, and has no byte order mark.\<close>

lemma object_document:
  assumes "json_document d u (after_bom body) t" "hd (dropWhile nyxj_is_ws body) = CHR ''{''" "dropWhile nyxj_is_ws body \<noteq> []"
  shows "after_bom body = body \<and> (\<exists>ms. t = JObject ms)"
proof -
  have b: "after_bom body = body"
    using assms(2) by (auto simp: after_bom_def starts_with_iff nyxj_is_ws_def)
  then obtain w x y where t: "body = w @ x @ y" "blank w" "json_text d u x t" using assms(1) by (auto simp: json_document_def)
  have "hd x = CHR ''{''" "x \<noteq> []"
    using assms(2) json_text_hd [OF t(3)] dropWhile_text [OF t(3,2), of y] t(1) by simp_all
  with t(3) have "\<exists>ms. t = JObject ms"
  proof (cases rule: json_text.cases)
    case number
    then show ?thesis using json_number_hd(2) [of x] \<open>hd x = _\<close> by (auto simp: is_digit_char_def)
  qed (auto simp: json_string_def)
  then show ?thesis using b by blast
qed

lemma gate_object:
  assumes "allowed (fst (nyxj_gate_check be hp n (Some buf) (length buf) (Some p)))" "gp_require_object_root p"
    "\<not> gp_allow_empty p"
  shows "\<exists>ms. json_document (sax_depth (gate_options p)) False (after_bom buf) (JObject ms)"
proof -
  obtain t where t: "json_document (sax_depth (gate_options p)) False (after_bom (after_bom buf)) t"
    "hd (dropWhile nyxj_is_ws (after_bom buf)) = CHR ''{''"
    using gate_check_allowed [OF assms(1)] assms(2,3) by auto
  have "after_bom (after_bom buf) \<noteq> [] \<and> dropWhile nyxj_is_ws (after_bom (after_bom buf)) \<noteq> []"
    using t(1) dropWhile_text json_text_hd by (fastforce simp: json_document_def)
  then have "dropWhile nyxj_is_ws (after_bom buf) \<noteq> []"
    by (cases "after_bom (after_bom buf) = after_bom buf")
      (auto simp: after_bom_def starts_with_iff nyxj_is_ws_def split: if_splits)
  from object_document [OF t this] show ?thesis using t(1) by auto
qed

text \<open>The parser takes every object the gate lets through.\<close>

lemma gate_then_parse:
  assumes "allowed (fst (nyxj_gate_check be hp n (Some buf) (length buf) (Some p)))" "gp_require_object_root p"
    "\<not> gp_allow_empty p" "heap_total h" "plain_options opts" "\<not> reject_duplicate_keys (opt_flags opts)"
    "sax_depth (gate_options p) \<le> depth_limit opts"
  shows "\<exists>v ms. root (nyxj_parse_ex b h (Some buf) (Some opts)) = Some v \<and> abs_value v = JObject ms"
proof -
  obtain ms where "json_document (sax_depth (gate_options p)) False (after_bom buf) (JObject ms)"
    using gate_object [OF assms(1-3)] by blast
  from document_mono [OF this assms(7)] show ?thesis
    using parse_ex_grammar [OF assms(4,5), of b buf "JObject ms"] assms(6) by auto
qed

text \<open>Conversely the gate lets through a document without NUL bytes that fits its limits.\<close>

lemma gate_check_allows:
  assumes "heap_total hp" "gp_max_size p = 0 \<or> length buf \<le> gp_max_size p" "NUL \<notin> set (after_bom buf)"
    "gp_require_object_root p \<Longrightarrow> hd (dropWhile nyxj_is_ws (after_bom buf)) = CHR ''{''"
    "gp_max_elements p = 0" "length (after_bom buf) \<le> so_max_token_size (gate_options p)"
    "json_document (sax_depth (gate_options p)) False (after_bom (after_bom buf)) t"
  shows "allowed (fst (nyxj_gate_check be hp n (Some buf) (length buf) (Some p)))"
proof -
  let ?body = "after_bom buf"
  obtain v where v: "nyxj_gate_check be hp n (Some buf) (length buf) (Some p) =
      (if gp_max_size p \<noteq> 0 \<and> length buf > gp_max_size p
       then (deny \<lparr>allowed = False, gv_error = no_error, reason = None, body_offset = 0\<rparr> NYXJ_ERR_SIZE_LIMIT
              (Some ''payload exceeds the maximum size''), hp)
       else gate_body be hp n p ?body v)"
    using gate_check_body by blast
  have "dropWhile nyxj_is_ws (after_bom ?body) \<noteq> []"
    using assms(7) dropWhile_text json_text_hd by (fastforce simp: json_document_def)
  then have "dropWhile nyxj_is_ws ?body \<noteq> []"
    by (cases "after_bom ?body = ?body") (auto simp: after_bom_def starts_with_iff nyxj_is_ws_def split: if_splits)
  moreover have "fst (nyxj_sax_validate hp n ?body (Some (gate_options p)))"
    by (rule validate_complete [OF assms(1) _ _ _ assms(7)])
      (use assms(5,6) in \<open>simp_all add: gate_options_def sax_options_zero_def\<close>)
  ultimately have "allowed (fst (gate_body be hp n p ?body v))"
    using assms(3,4) by (intro gate_body_allows) auto
  then show ?thesis using v assms(2) by auto
qed

text \<open>
  The gate removes a byte order mark, and the validation removes one of its own: of a payload with two marks the
  gate lets through what the parser refuses.
\<close>

definition double_bom :: bytes where
  "double_bom = [CHR 0xEF, CHR 0xBB, CHR 0xBF, CHR 0xEF, CHR 0xBB, CHR 0xBF, CHR ''1'']"

lemma double_bom_length: "length double_bom = 7"
  by (simp add: double_bom_def)

lemma gate_double_bom:
  "heap_total hp \<Longrightarrow>
    allowed (fst (nyxj_gate_check be hp n (Some double_bom) (length double_bom)
      (Some (nyxj_gate_policy_default\<lparr>gp_max_elements := 0\<rparr>))))"
  "\<not> json_document d u (after_bom double_bom) t"
proof -
  let ?p = "nyxj_gate_policy_default\<lparr>gp_max_elements := 0\<rparr>"
  let ?body = "[CHR 0xEF, CHR 0xBB, CHR 0xBF, CHR ''1'']"
  have b: "after_bom double_bom = ?body" "after_bom ?body = ''1''" by (simp_all add: after_bom_def double_bom_def)
  show "\<not> json_document d u (after_bom double_bom) t"
  proof
    assume "json_document d u (after_bom double_bom) t"
    then obtain w x y where t: "?body = w @ x @ y" "blank w" "json_text d u x t" by (auto simp: json_document_def b)
    have "w = []" using t(1,2) by (cases w) (auto simp: blank_def nyxj_is_ws_def)
    then show False using t(1) json_text_hd [OF t(3)] json_text_not_bom [OF t(3)] by (cases x) auto
  qed
  assume h: "heap_total hp"
  have "json_number ''1''"
    unfolding nyxj_scan_number_all [symmetric] by (simp add: nyxj_scan_number_def nyxj_is_digit_def scan_fraction_def scan_exponent_def)
  then have "json_document e False ''1'' (JNumber (fst (strtod ''1'')))" for e
    unfolding json_document_def by (intro exI [of _ "[]"] exI [of _ "''1''"]) (simp add: blank_def json_text_json_items_json_members.number)
  then show "allowed (fst (nyxj_gate_check be hp n (Some double_bom) (length double_bom) (Some ?p)))"
    using h b by (intro gate_check_allows [where t = "JNumber (fst (strtod ''1''))"])
      (auto simp: nyxj_gate_policy_default_def gate_options_def NUL_def double_bom_length)
qed

end
