(* ===== verification/Repair.thy ===== *)
theory Repair
  imports Buf_Facts Parser
begin

text \<open>
  \<^verbatim>\<open>src/modules/repair.c\<close>: turning almost-JSON into JSON. The frames are a list with the innermost first, so
  \<open>top_frame\<close> is its head. The output buffer holds the allocator.
\<close>

datatype fstate = S_KEY | S_COLON | S_VALUE | S_AFTER

record frame =
  is_object :: bool
  fr_st :: fstate
  comma_seen :: bool

record nyxj_repair_report =
  fixes_made :: nat
  kinds :: "32 word"

record rctx =
  rp :: bytes
  r_out :: nyxj_buf
  frames :: "frame list"
  r_max_depth :: nat
  top_done :: bool
  stop :: bool
  rep :: nyxj_repair_report

definition NYXJ_FIX_COMMENT :: "32 word" where "NYXJ_FIX_COMMENT = push_bit 0 1"
definition NYXJ_FIX_QUOTES :: "32 word" where "NYXJ_FIX_QUOTES = push_bit 1 1"
definition NYXJ_FIX_UNQUOTED_KEY :: "32 word" where "NYXJ_FIX_UNQUOTED_KEY = push_bit 2 1"
definition NYXJ_FIX_TRAILING_COMMA :: "32 word" where "NYXJ_FIX_TRAILING_COMMA = push_bit 3 1"
definition NYXJ_FIX_MISSING_COMMA :: "32 word" where "NYXJ_FIX_MISSING_COMMA = push_bit 4 1"
definition NYXJ_FIX_MISSING_COLON :: "32 word" where "NYXJ_FIX_MISSING_COLON = push_bit 5 1"
definition NYXJ_FIX_UNCLOSED :: "32 word" where "NYXJ_FIX_UNCLOSED = push_bit 6 1"
definition NYXJ_FIX_LITERAL :: "32 word" where "NYXJ_FIX_LITERAL = push_bit 7 1"
definition NYXJ_FIX_NUMBER :: "32 word" where "NYXJ_FIX_NUMBER = push_bit 8 1"
definition NYXJ_FIX_ESCAPE :: "32 word" where "NYXJ_FIX_ESCAPE = push_bit 9 1"
definition NYXJ_FIX_GARBAGE :: "32 word" where "NYXJ_FIX_GARBAGE = push_bit 10 1"
definition NYXJ_FIX_MISSING_VALUE :: "32 word" where "NYXJ_FIX_MISSING_VALUE = push_bit 11 1"
definition NYXJ_FIX_TRAILING_DATA :: "32 word" where "NYXJ_FIX_TRAILING_DATA = push_bit 12 1"
definition NYXJ_FIX_BRACKET :: "32 word" where "NYXJ_FIX_BRACKET = push_bit 13 1"
definition NYXJ_FIX_BOM :: "32 word" where "NYXJ_FIX_BOM = push_bit 14 1"
definition NYXJ_FIX_CODE_FENCE :: "32 word" where "NYXJ_FIX_CODE_FENCE = push_bit 15 1"
definition NYXJ_FIX_KIND_COUNT :: nat where "NYXJ_FIX_KIND_COUNT = 16"

definition empty_report :: nyxj_repair_report where
  "empty_report = \<lparr>fixes_made = 0, kinds = 0\<rparr>"

text \<open>\<open>fix\<close>.\<close>

definition note_fix :: "rctx \<Rightarrow> 32 word \<Rightarrow> rctx" where
  "note_fix c kind = c\<lparr>rep := \<lparr>fixes_made = fixes_made (rep c) + 1, kinds = kinds (rep c) OR kind\<rparr>\<rparr>"

definition top_frame :: "rctx \<Rightarrow> frame option" where
  "top_frame c = (case frames c of [] \<Rightarrow> None | f # fs \<Rightarrow> Some f)"

definition set_top :: "rctx \<Rightarrow> frame \<Rightarrow> rctx" where
  "set_top c f = c\<lparr>frames := f # tl (frames c)\<rparr>"

definition put :: "rctx \<Rightarrow> bytes \<Rightarrow> rctx" where
  "put c s = c\<lparr>r_out := nyxj_buf_append (r_out c) s\<rparr>"

definition put_ch :: "rctx \<Rightarrow> char \<Rightarrow> rctx" where
  "put_ch c ch = c\<lparr>r_out := nyxj_buf_putc (r_out c) ch\<rparr>"

definition at_key_position :: "rctx \<Rightarrow> bool" where
  "at_key_position c =
     (case top_frame c of None \<Rightarrow> False | Some f \<Rightarrow> is_object f \<and> (fr_st f = S_KEY \<or> fr_st f = S_AFTER))"

subsection \<open>Separators\<close>

definition prepare_value :: "rctx \<Rightarrow> bool \<times> rctx" where
  "prepare_value c =
     (case top_frame c of
        None \<Rightarrow>
          if top_done c then (False, (note_fix c NYXJ_FIX_TRAILING_DATA)\<lparr>stop := True\<rparr>) else (True, c)
      | Some f \<Rightarrow>
          let (f, c) =
                (if fr_st f = S_AFTER
                 then let c = (if \<not> comma_seen f then note_fix c NYXJ_FIX_MISSING_COMMA else c)
                      in (f\<lparr>fr_st := (if is_object f then S_KEY else S_VALUE)\<rparr>, put_ch c (CHR '',''))
                 else (f, c));
              c = (if is_object f
                   then if fr_st f = S_KEY
                        then put (note_fix c NYXJ_FIX_GARBAGE) [CHR 0x22, CHR 0x22, CHR '':'']
                        else if fr_st f = S_COLON then put_ch (note_fix c NYXJ_FIX_MISSING_COLON) (CHR '':'')
                        else c
                   else c)
          in (True, set_top c (f\<lparr>fr_st := S_VALUE\<rparr>)))"

definition value_done :: "rctx \<Rightarrow> rctx" where
  "value_done c =
     (case top_frame c of
        None \<Rightarrow> c\<lparr>top_done := True\<rparr>
      | Some f \<Rightarrow> set_top c (f\<lparr>fr_st := S_AFTER, comma_seen := False\<rparr>))"

text \<open>Called at a key position only, where there is a top frame.\<close>

definition prepare_key :: "rctx \<Rightarrow> rctx" where
  "prepare_key c =
     (let f = hd (frames c);
          c = (if fr_st f = S_AFTER
               then put_ch (if \<not> comma_seen f then note_fix c NYXJ_FIX_MISSING_COMMA else c) (CHR '','') else c)
      in set_top c (f\<lparr>fr_st := S_COLON\<rparr>))"

definition close_pending_member :: "rctx \<Rightarrow> frame \<Rightarrow> rctx" where
  "close_pending_member c f =
     (if \<not> is_object f then c
      else if fr_st f = S_COLON then put (note_fix c NYXJ_FIX_MISSING_VALUE) '':null''
      else if fr_st f = S_VALUE then put (note_fix c NYXJ_FIX_MISSING_VALUE) ''null''
      else c)"

definition bracket_of :: "frame \<Rightarrow> char" where
  "bracket_of f = (if is_object f then CHR ''}'' else CHR '']'')"

text \<open>The end of \<open>repair_close_container\<close> is also a turn of the last loop of \<open>nyxj_repair\<close>.\<close>

definition finish_frame :: "rctx \<Rightarrow> frame \<Rightarrow> rctx" where
  "finish_frame c f =
     (let c = (if fr_st f = S_AFTER \<and> comma_seen f then note_fix c NYXJ_FIX_TRAILING_COMMA else c);
          c = close_pending_member c f;
          c = put_ch c (bracket_of f)
      in value_done (c\<lparr>frames := tl (frames c)\<rparr>))"

definition repair_close_container :: "rctx \<Rightarrow> char \<Rightarrow> rctx" where
  "repair_close_container c ch =
     (case top_frame c of
        None \<Rightarrow> note_fix c NYXJ_FIX_GARBAGE
      | Some f \<Rightarrow> finish_frame (if ch \<noteq> bracket_of f then note_fix c NYXJ_FIX_BRACKET else c) f)"

definition repair_open_container :: "rctx \<Rightarrow> bool \<Rightarrow> rctx" where
  "repair_open_container c obj =
     (let (ok, c) = prepare_value c
      in if \<not> ok then c
         else if r_max_depth c \<le> length (frames c) then c\<lparr>stop := True\<rparr>
         else put_ch
           (c\<lparr>frames := \<lparr>is_object = obj, fr_st = (if obj then S_KEY else S_VALUE), comma_seen = False\<rparr> # frames c\<rparr>)
           (if obj then CHR ''{'' else CHR ''[''))"

subsection \<open>Strings\<close>

definition emit_escaped_control :: "rctx \<Rightarrow> char \<Rightarrow> rctx" where
  "emit_escaped_control c ch =
     (if ch = CHR 0x0A then put c [CHR 0x5C, CHR ''n'']
      else if ch = CHR 0x0D then put c [CHR 0x5C, CHR ''r'']
      else if ch = CHR 0x09 then put c [CHR 0x5C, CHR ''t'']
      else if ch = CHR 0x08 then put c [CHR 0x5C, CHR ''b'']
      else if ch = CHR 0x0C then put c [CHR 0x5C, CHR ''f'']
      else c\<lparr>r_out := nyxj_buf_puts (r_out c)
             [CHR 0x5C, CHR ''u'', CHR ''0'', CHR ''0'', hex_lower (byte ch div 16), hex_lower (byte ch mod 16)]\<rparr>)"

text \<open>The loop of \<open>copy_string\<close> over the bytes after the opening quote.\<close>

function copy_loop :: "char \<Rightarrow> bytes \<Rightarrow> rctx \<Rightarrow> rctx" where
  "copy_loop quote [] c = put_ch ((note_fix c NYXJ_FIX_UNCLOSED)\<lparr>rp := []\<rparr>) (CHR 0x22)"
| "copy_loop quote (ch # p) c =
     (if ch = quote then put_ch (c\<lparr>rp := p\<rparr>) (CHR 0x22)
      else if ch = CHR 0x5C
      then if p = [] then copy_loop quote p (note_fix c NYXJ_FIX_ESCAPE)
           else let n = hd p
                in if single_escape n \<noteq> None then copy_loop quote (drop 1 p) (put c [ch, n])
                   else if n = CHR ''u'' \<and> 5 \<le> length p \<and> nyxj_hex4 (tl p) \<ge> 0
                   then copy_loop quote (drop 5 p) (put c (take 6 (ch # p)))
                   else if n = quote then copy_loop quote (drop 1 p) (put_ch c n)
                   else if n = CHR 0x0A then copy_loop quote (drop 1 p) (note_fix c NYXJ_FIX_ESCAPE)
                   else copy_loop quote p (put (note_fix c NYXJ_FIX_ESCAPE) [CHR 0x5C, CHR 0x5C])
      else if ch = CHR 0x22 then copy_loop quote p (put c [CHR 0x5C, CHR 0x22])
      else if byte ch < 0x20 then copy_loop quote p (emit_escaped_control (note_fix c NYXJ_FIX_ESCAPE) ch)
      else copy_loop quote p (put_ch c ch))"
  by pat_completeness auto
termination
  by (relation "measure (\<lambda>(quote, p, c). length p)") auto

definition copy_string :: "rctx \<Rightarrow> rctx" where
  "copy_string c =
     (let quote = hd (rp c); c = c\<lparr>rp := tl (rp c)\<rparr>;
          c = (if quote \<noteq> CHR 0x22 then note_fix c NYXJ_FIX_QUOTES else c)
      in copy_loop quote (rp c) (put_ch c (CHR 0x22)))"

text \<open>The temporary copy asks the allocator first.\<close>

definition emit_string_n :: "rctx \<Rightarrow> bytes \<Rightarrow> rctx" where
  "emit_string_n c s =
     (let (ok, h) = malloc (buf_mem (r_out c)) (length s + 1); out = (r_out c)\<lparr>buf_mem := h\<rparr>
      in c\<lparr>r_out := (if \<not> ok then out\<lparr>buf_oom := True\<rparr> else nyxj_buf_json_string out (Some s) False)\<rparr>)"

subsection \<open>Words and numbers\<close>

definition is_word_start :: "char \<Rightarrow> bool" where
  "is_word_start ch \<longleftrightarrow> isalpha ch \<or> ch = CHR ''_'' \<or> ch = CHR ''$'' \<or> 0x80 \<le> byte ch"

definition is_word_char :: "char \<Rightarrow> bool" where
  "is_word_char ch \<longleftrightarrow>
     isalnum ch \<or> ch = CHR ''_'' \<or> ch = CHR ''$'' \<or> ch = CHR ''-'' \<or> ch = CHR ''.'' \<or> 0x80 \<le> byte ch"

definition unquoted_key :: "rctx \<Rightarrow> bytes \<Rightarrow> rctx" where
  "unquoted_key c s = emit_string_n (note_fix (prepare_key c) NYXJ_FIX_UNQUOTED_KEY) s"

definition word_value :: "rctx \<Rightarrow> bytes \<Rightarrow> rctx" where
  "word_value c s =
     (if s = ''true'' \<or> s = ''false'' \<or> s = ''null'' then put c s
      else if s = ''True'' \<or> s = ''TRUE'' then put (note_fix c NYXJ_FIX_LITERAL) ''true''
      else if s = ''False'' \<or> s = ''FALSE'' then put (note_fix c NYXJ_FIX_LITERAL) ''false''
      else if s \<in> {''None'', ''NULL'', ''Null'', ''nil'', ''undefined'', ''NaN'', ''Infinity''}
      then put (note_fix c NYXJ_FIX_LITERAL) ''null''
      else emit_string_n (note_fix c NYXJ_FIX_QUOTES) s)"

definition handle_word :: "rctx \<Rightarrow> rctx" where
  "handle_word c =
     (let s = takeWhile is_word_char (rp c); c = c\<lparr>rp := dropWhile is_word_char (rp c)\<rparr>
      in if at_key_position c then unquoted_key c s
         else let (ok, c) = prepare_value c in if \<not> ok then c else value_done (word_value c s))"

definition is_number_byte :: "char \<Rightarrow> bool" where
  "is_number_byte ch \<longleftrightarrow> isalnum ch \<or> ch = CHR ''+'' \<or> ch = CHR ''-'' \<or> ch = CHR ''.''"

text \<open>C's \<open>strtoull (s, \<dots>, 16)\<close> on a text without blanks: the value, saturated and negated modulo \<open>2 ^ 64\<close>, and whether
  the whole text was read.\<close>

definition hex_prefix :: "bytes \<Rightarrow> bytes" where
  "hex_prefix s =
     (if 3 \<le> length s \<and> s ! 0 = CHR ''0'' \<and> (s ! 1 = CHR ''x'' \<or> s ! 1 = CHR ''X'') \<and> hex_digit (s ! 2) \<noteq> None
      then drop 2 s else s)"

definition hex_run :: "bytes \<Rightarrow> nat" where
  "hex_run s = foldl (\<lambda>n ch. 16 * n + the (hex_digit ch)) 0 (takeWhile (\<lambda>ch. hex_digit ch \<noteq> None) s)"

definition strtoull16 :: "bytes \<Rightarrow> nat \<times> bool" where
  "strtoull16 s =
     (let neg = (s \<noteq> [] \<and> hd s = CHR ''-'');
          digits = hex_prefix (if s \<noteq> [] \<and> (hd s = CHR ''-'' \<or> hd s = CHR ''+'') then tl s else s);
          rest = dropWhile (\<lambda>ch. hex_digit ch \<noteq> None) digits;
          v = hex_run digits;
          v = (if v \<ge> 2 ^ 64 then 2 ^ 64 - 1 else if neg then (2 ^ 64 - v) mod 2 ^ 64 else v)
      in if length rest = length digits then (0, s = []) else (v, rest = []))"

text \<open>The loop that copies into \<open>norm[96]\<close>; \<open>k\<close> bytes are in it.\<close>

fun norm_loop :: "nat \<Rightarrow> bytes \<Rightarrow> bytes" where
  "norm_loop k [] = []"
| "norm_loop k (ch # q) =
     (if k + 2 < 96
      then if ch = CHR ''.'' \<and> (q = [] \<or> \<not> nyxj_is_digit (hd q)) then norm_loop k q
           else ch # norm_loop (k + 1) q
      else [])"

fun strip_zeros :: "bytes \<Rightarrow> bytes" where
  "strip_zeros (ch # d # q) = (if ch = CHR ''0'' \<and> nyxj_is_digit d then strip_zeros (d # q) else ch # d # q)"
| "strip_zeros q = q"

definition normal_number :: "bool \<Rightarrow> bytes \<Rightarrow> bytes" where
  "normal_number neg q =
     (let q = strip_zeros q;
          lead = (if neg then ''-'' else []) @ (if q \<noteq> [] \<and> hd q = CHR ''.'' then ''0'' else [])
      in lead @ norm_loop (length lead) q)"

text \<open>The value of a number token that is not JSON's: \<open>q\<close> is the token after its sign.\<close>

definition sloppy_number :: "rctx \<Rightarrow> bytes \<Rightarrow> rctx" where
  "sloppy_number c s =
     (let neg = (s \<noteq> [] \<and> hd s = CHR ''-'');
          q = (if s \<noteq> [] \<and> (hd s = CHR ''+'' \<or> hd s = CHR ''-'') then tl s else s);
          hex = strtoull16 (take 31 (drop 2 q));
          norm = normal_number neg q
      in if q = ''Infinity'' then put (note_fix c NYXJ_FIX_LITERAL) ''null''
         else if length q > 2 \<and> q ! 0 = CHR ''0'' \<and> (q ! 1 = CHR ''x'' \<or> q ! 1 = CHR ''X'') \<and> snd hex
         then (note_fix c NYXJ_FIX_NUMBER)\<lparr>r_out := nyxj_buf_printf (r_out c) ((if neg then ''-'' else []) @ dec_nat (fst hex))\<rparr>
         else if norm \<noteq> [] \<and> nyxj_scan_number norm = Some [] then put (note_fix c NYXJ_FIX_NUMBER) norm
         else emit_string_n (note_fix c NYXJ_FIX_QUOTES) s)"

definition handle_number :: "rctx \<Rightarrow> rctx" where
  "handle_number c =
     (let s = takeWhile is_number_byte (rp c); c = c\<lparr>rp := dropWhile is_number_byte (rp c)\<rparr>
      in if at_key_position c then unquoted_key c s
         else let (ok, c) = prepare_value c
              in if \<not> ok then c
                 else value_done (if nyxj_scan_number s = Some [] then put c s else sloppy_number c s))"

subsection \<open>The main loop\<close>

definition skip_line :: "rctx \<Rightarrow> rctx" where
  "skip_line c = c\<lparr>rp := dropWhile (\<lambda>ch. ch \<noteq> CHR 0x0A) (rp c)\<rparr>"

fun comment_end :: "bytes \<Rightarrow> bytes" where
  "comment_end (a # b # p) = (if a = CHR ''*'' \<and> b = CHR ''/'' then p else comment_end (b # p))"
| "comment_end p = []"

definition comma :: "rctx \<Rightarrow> rctx" where
  "comma c =
     (case top_frame c of
        None \<Rightarrow> note_fix c NYXJ_FIX_GARBAGE
      | Some f \<Rightarrow>
          if is_object f \<and> (fr_st f = S_COLON \<or> fr_st f = S_VALUE)
          then set_top (close_pending_member c f) (f\<lparr>fr_st := S_AFTER, comma_seen := True\<rparr>)
          else if fr_st f = S_AFTER \<and> \<not> comma_seen f then set_top c (f\<lparr>comma_seen := True\<rparr>)
          else note_fix c NYXJ_FIX_GARBAGE)"

definition colon :: "rctx \<Rightarrow> char \<Rightarrow> rctx" where
  "colon c ch =
     (case top_frame c of
        None \<Rightarrow> note_fix c NYXJ_FIX_GARBAGE
      | Some f \<Rightarrow>
          if is_object f \<and> fr_st f = S_COLON
          then set_top (put_ch (if ch = CHR ''='' then note_fix c NYXJ_FIX_MISSING_COLON else c) (CHR '':''))
            (f\<lparr>fr_st := S_VALUE\<rparr>)
          else note_fix c NYXJ_FIX_GARBAGE)"

definition handle_string :: "rctx \<Rightarrow> rctx" where
  "handle_string c =
     (if at_key_position c then copy_string (prepare_key c)
      else let (ok, c) = prepare_value c in if \<not> ok then c else value_done (copy_string c))"

text \<open>One turn of the loop on a byte that is not blank; \<open>True\<close> is the \<open>break\<close>.\<close>

definition repair_step :: "rctx \<Rightarrow> bool \<times> rctx" where
  "repair_step c =
     (let p = rp c; ch = hd p; skip = c\<lparr>rp := tl p\<rparr> in
      if nyxj_is_ws ch then (False, skip)
      else if starts_with ''```'' p
      then let c = note_fix c NYXJ_FIX_CODE_FENCE
           in if top_done c \<and> frames c = [] then (True, c) else (False, skip_line c)
      else if starts_with ''//'' p \<or> ch = CHR ''#'' then (False, skip_line (note_fix c NYXJ_FIX_COMMENT))
      else if starts_with ''/*'' p then (False, (note_fix c NYXJ_FIX_COMMENT)\<lparr>rp := comment_end (drop 2 p)\<rparr>)
      else (False,
        if ch = CHR ''{'' then repair_open_container skip True
        else if ch = CHR ''['' then repair_open_container skip False
        else if ch = CHR ''}'' \<or> ch = CHR '']'' then repair_close_container skip ch
        else if ch = CHR '','' then comma skip
        else if ch = CHR '':'' \<or> ch = CHR ''='' then colon skip ch
        else if ch = CHR 0x22 \<or> ch = CHR 0x27 \<or> ch = CHR 0x60 then handle_string c
        else if ch = CHR ''-'' \<or> ch = CHR ''+'' \<or> ch = CHR ''.'' \<or> nyxj_is_digit ch then handle_number c
        else if is_word_start ch then handle_word c
        else note_fix skip NYXJ_FIX_GARBAGE))"

text \<open>The operations that only write and those that move the position.\<close>

lemma rp_writers [simp]:
  "rp (note_fix c k) = rp c" "rp (set_top c f) = rp c" "rp (put c s) = rp c" "rp (put_ch c ch) = rp c"
  "rp (emit_string_n c s) = rp c" "rp (emit_escaped_control c ch) = rp c"
  by (simp_all add: note_fix_def set_top_def put_def put_ch_def emit_string_n_def emit_escaped_control_def
      Let_def split: prod.split)

lemma rp_moves [simp]:
  "rp (close_pending_member c f) = rp c" "rp (value_done c) = rp c" "rp (prepare_key c) = rp c"
  "rp (snd (prepare_value c)) = rp c"
  by (auto simp: close_pending_member_def value_done_def prepare_key_def prepare_value_def Let_def split: option.splits)

lemma rp_prepared: "prepare_value c = (ok, d) \<Longrightarrow> rp d = rp c"
  using rp_moves(4) [of c] by simp

lemma rp_containers [simp]:
  "rp (finish_frame c f) = rp c" "rp (repair_close_container c ch) = rp c" "rp (comma c) = rp c" "rp (colon c ch) = rp c"
  "rp (repair_open_container c b) = rp c"
  by (auto simp: finish_frame_def repair_close_container_def comma_def colon_def repair_open_container_def Let_def
      split: option.splits prod.splits dest: rp_prepared)

lemma rp_values [simp]:
  "rp (unquoted_key c s) = rp c" "rp (word_value c s) = rp c" "rp (sloppy_number c s) = rp c"
  by (simp_all add: unquoted_key_def word_value_def sloppy_number_def Let_def)

lemma copy_loop_shrinks: "length (rp (copy_loop quote p c)) \<le> length p"
proof (induction quote p c rule: copy_loop.induct)
  case (1 quote c)
  then show ?case by simp
next
  case (2 quote ch p c)
  consider "ch = quote" | "ch \<noteq> quote" "ch = CHR 0x5C" | "ch \<noteq> quote" "ch \<noteq> CHR 0x5C" by blast
  then show ?case
  proof cases
    case 1
    then show ?thesis by simp
  next
    case a: 2
    note IH = 2(1-6) [OF a]
    show ?thesis
    proof (cases "p = []")
      case True
      then show ?thesis using IH(1) a by simp
    next
      case p: False
      note IH' = IH(2-6) [OF p refl]
      consider "single_escape (hd p) \<noteq> None"
        | "single_escape (hd p) = None" "hd p = CHR ''u'' \<and> 5 \<le> length p \<and> 0 \<le> nyxj_hex4 (tl p)"
        | "single_escape (hd p) = None" "\<not> (hd p = CHR ''u'' \<and> 5 \<le> length p \<and> 0 \<le> nyxj_hex4 (tl p))" "hd p = quote"
        | "single_escape (hd p) = None" "\<not> (hd p = CHR ''u'' \<and> 5 \<le> length p \<and> 0 \<le> nyxj_hex4 (tl p))" "hd p \<noteq> quote"
          "hd p = CHR 0x0A"
        | "single_escape (hd p) = None" "\<not> (hd p = CHR ''u'' \<and> 5 \<le> length p \<and> 0 \<le> nyxj_hex4 (tl p))" "hd p \<noteq> quote"
          "hd p \<noteq> CHR 0x0A"
        by blast
      then show ?thesis
      proof cases
        case 1
        then show ?thesis using IH'(1) a p by (simp add: Let_def)
      next
        case b: 2
        then show ?thesis using IH'(2) a p by (simp add: Let_def)
      next
        case b: 3
        then have "copy_loop quote (ch # p) c = copy_loop quote (drop 1 p) (put_ch c (hd p))"
          using a p by (simp only: copy_loop.simps Let_def if_False if_True refl simp_thms)
        then show ?thesis using IH'(3) b by simp
      next
        case b: 4
        then have "copy_loop quote (ch # p) c = copy_loop quote (drop 1 p) (note_fix c NYXJ_FIX_ESCAPE)"
          using a p by (simp only: copy_loop.simps Let_def if_False if_True refl simp_thms)
        then show ?thesis using IH'(4) b by simp
      next
        case b: 5
        then have "copy_loop quote (ch # p) c = copy_loop quote p (put (note_fix c NYXJ_FIX_ESCAPE) [CHR 0x5C, CHR 0x5C])"
          using a p by (simp only: copy_loop.simps Let_def if_False if_True refl simp_thms)
        then show ?thesis using IH'(5) b by simp
      qed
    qed
  next
    case a: 3
    show ?thesis
    proof (cases "ch = CHR 0x22")
      case True
      then show ?thesis using 2(7) a by simp
    next
      case b: False
      then show ?thesis using 2(8,9) [OF a b] a by (cases "byte ch < 0x20") simp_all
    qed
  qed
qed

lemma copy_string_shrinks: "rp c \<noteq> [] \<Longrightarrow> length (rp (copy_string c)) < length (rp c)"
  using copy_loop_shrinks
  by (cases "rp c") (auto simp: copy_string_def Let_def intro: le_less_trans)

lemma skip_line_shrinks: "rp c \<noteq> [] \<Longrightarrow> hd (rp c) \<noteq> CHR 0x0A \<Longrightarrow> length (rp (skip_line c)) < length (rp c)"
  by (cases "rp c") (auto simp: skip_line_def length_dropWhile_le le_imp_less_Suc)

lemma comment_end_length: "length (comment_end p) \<le> length p"
  by (induction p rule: comment_end.induct) auto

lemma number_bytes_end: "is_number_byte ch \<Longrightarrow> length (dropWhile is_number_byte (ch # p)) < length (ch # p)"
  by (simp add: length_dropWhile_le le_imp_less_Suc)

lemma prepare_value_stops: "prepare_value c = (False, d) \<Longrightarrow> stop d"
  by (auto simp: prepare_value_def Let_def split: option.splits if_splits)

lemma repair_step_shrinks:
  assumes "rp c \<noteq> []"
  shows "fst (repair_step c) \<or> stop (snd (repair_step c)) \<or> length (rp (snd (repair_step c))) < length (rp c)"
proof -
  obtain ch p where c: "rp c = ch # p" using assms by (cases "rp c") auto
  have num: "length (rp (handle_number c)) < length (rp c)"
    if "ch = CHR ''-'' \<or> ch = CHR ''+'' \<or> ch = CHR ''.'' \<or> nyxj_is_digit ch"
  proof -
    have "is_number_byte ch" using that by (auto simp: is_number_byte_def isalnum_def)
    then show ?thesis
      using number_bytes_end [of ch p] c
      by (auto simp: handle_number_def Let_def rp_prepared split: prod.split dest: rp_prepared)
  qed
  have word: "length (rp (handle_word c)) < length (rp c)" if "is_word_start ch"
  proof -
    have "is_word_char ch" using that by (auto simp: is_word_start_def is_word_char_def isalnum_def)
    then have "length (dropWhile is_word_char (rp c)) < length (rp c)"
      by (simp add: c length_dropWhile_le le_imp_less_Suc)
    then show ?thesis
      by (auto simp: handle_word_def Let_def rp_prepared split: prod.split dest: rp_prepared)
  qed
  have str: "stop (handle_string c) \<or> length (rp (handle_string c)) < length (rp c)"
  proof (cases "at_key_position c")
    case True
    then show ?thesis using copy_string_shrinks [of "prepare_key c"] c by (simp add: handle_string_def)
  next
    case False
    obtain ok d where d: "prepare_value c = (ok, d)" by force
    then have "rp d = rp c" by (rule rp_prepared)
    then show ?thesis
      using False d copy_string_shrinks [of d] prepare_value_stops [of c d] c
      by (cases ok) (simp_all add: handle_string_def)
  qed
  have comment: "length (rp (skip_line (note_fix c k))) < length (rp c)" if "ch \<noteq> CHR 0x0A" for k
    using skip_line_shrinks [of "note_fix c k"] that c by simp
  have block: "length (comment_end (drop 2 (rp c))) < length (rp c)"
    using comment_end_length [of "drop 2 (rp c)"] c by (auto simp: le_less_trans)
  have fence: "ch \<noteq> CHR 0x0A" if "starts_with ''```'' (rp c) \<or> starts_with ''//'' (rp c) \<or> ch = CHR ''#''"
    using that c by auto
  define rest where "rest = (
        if ch = CHR ''{'' then repair_open_container (c\<lparr>rp := p\<rparr>) True
        else if ch = CHR ''['' then repair_open_container (c\<lparr>rp := p\<rparr>) False
        else if ch = CHR ''}'' \<or> ch = CHR '']'' then repair_close_container (c\<lparr>rp := p\<rparr>) ch
        else if ch = CHR '','' then comma (c\<lparr>rp := p\<rparr>)
        else if ch = CHR '':'' \<or> ch = CHR ''='' then colon (c\<lparr>rp := p\<rparr>) ch
        else if ch = CHR 0x22 \<or> ch = CHR 0x27 \<or> ch = CHR 0x60 then handle_string c
        else if ch = CHR ''-'' \<or> ch = CHR ''+'' \<or> ch = CHR ''.'' \<or> nyxj_is_digit ch then handle_number c
        else if is_word_start ch then handle_word c
        else note_fix (c\<lparr>rp := p\<rparr>) NYXJ_FIX_GARBAGE)"
  have rest: "stop rest \<or> length (rp rest) < length (rp c)"
  proof -
    define shrunk where "shrunk d \<longleftrightarrow> stop d \<or> length (rp d) < length (rp c)" for d :: rctx
    have choose: "shrunk (if b then d else e)" if "b \<Longrightarrow> shrunk d" "\<not> b \<Longrightarrow> shrunk e" for b and d e :: rctx
      using that by simp
    have len: "length p < length (rp c)" by (simp add: c)
    have "shrunk rest"
      unfolding rest_def by (intro choose) (use len str num word in \<open>simp_all add: shrunk_def\<close>)
    then show ?thesis by (simp add: shrunk_def)
  qed
  show ?thesis
    using rest comment [OF fence] block c
    unfolding repair_step_def Let_def c list.sel rest_def [symmetric]
    by auto
qed

function repair_loop :: "rctx \<Rightarrow> rctx" where
  "repair_loop c =
     (if rp c = [] \<or> stop c then c
      else let (brk, c) = repair_step c in if brk then c else repair_loop c)"
  by pat_completeness auto
termination
proof (relation "measure (\<lambda>c. if stop c then 0 else Suc (length (rp c)))")
  fix c brk d and x :: "bool \<times> rctx"
  assume "\<not> (rp c = [] \<or> stop c)" "x = repair_step c" "(brk, d) = x" "\<not> brk"
  then show "(d, c) \<in> measure (\<lambda>c. if stop c then 0 else Suc (length (rp c)))"
    using repair_step_shrinks [of c] by (auto dest: sym)
qed simp

declare repair_loop.simps [simp del]

text \<open>The loop that closes what is still open, innermost first.\<close>

fun close_all :: "frame list \<Rightarrow> rctx \<Rightarrow> rctx" where
  "close_all [] c = c"
| "close_all (f # fs) c = close_all fs (finish_frame c (hd (frames c)))"

definition start_context :: "nyxj_buf \<Rightarrow> bytes \<Rightarrow> rctx" where
  "start_context out txt =
     \<lparr>rp = txt, r_out = out, frames = [], r_max_depth = nat default_max_depth, top_done = False, stop = False,
      rep = empty_report\<rparr>"

text \<open>\<open>frame_bytes\<close> is the size of a \<open>frame\<close>. The result is the repaired text and the report.\<close>

definition frame_bytes :: nat where
  "frame_bytes = 12"

definition nyxj_repair :: "heap \<Rightarrow> bytes option \<Rightarrow> bytes option \<times> nyxj_repair_report \<times> heap" where
  "nyxj_repair h txt =
     (case txt of
        None \<Rightarrow> (None, empty_report, h)
      | Some txt \<Rightarrow>
          let (ok, h) = malloc h (frame_bytes * nat default_max_depth)
          in if \<not> ok then (None, empty_report, h)
             else let c = start_context (nyxj_buf_init h (length txt + 16)) txt;
                      c = (if 3 \<le> length txt \<and> starts_with [CHR 0xEF, CHR 0xBB, CHR 0xBF] txt
                           then note_fix (c\<lparr>rp := drop 3 txt\<rparr>) NYXJ_FIX_BOM else c);
                      c = repair_loop c;
                      c = (if frames c \<noteq> [] then note_fix c NYXJ_FIX_UNCLOSED else c);
                      c = close_all (frames c) c
                  in if \<not> top_done c \<or> buf_oom (r_out c) then (None, rep c, buf_mem (r_out c))
                     else let (txt, out) = nyxj_buf_detach (r_out c) in (txt, rep c, buf_mem out))"

definition nyxj_parse_lenient ::
    "simd_backend \<Rightarrow> heap \<Rightarrow> bytes option \<Rightarrow> nyxj_result \<times> nyxj_repair_report" where
  "nyxj_parse_lenient b h txt =
     (let strict = nyxj_parse_ex b h txt None
      in if is_valid strict then (strict, empty_report)
         else case nyxj_repair (heap_after strict) txt of
           (None, report, h) \<Rightarrow> (strict\<lparr>heap_after := h\<rparr>, report)
         | (Some fixed, report, h) \<Rightarrow>
             let r = nyxj_parse_ex b h (Some fixed) None
             in (if is_valid r then r else strict\<lparr>heap_after := heap_after r\<rparr>, report))"

definition kind_names :: "string list" where
  "kind_names =
     [''comment'', ''quotes'', ''unquoted_key'', ''trailing_comma'', ''missing_comma'', ''missing_colon'',
      ''unclosed'', ''literal'', ''number'', ''escape'', ''garbage'', ''missing_value'',
      ''trailing_data'', ''bracket'', ''bom'', ''code_fence'']"

definition nyxj_repair_kind_name :: "32 word \<Rightarrow> string" where
  "nyxj_repair_kind_name kind_bit =
     (case filter (\<lambda>i. kind_bit = push_bit i 1) [0 ..< NYXJ_FIX_KIND_COUNT] of
        [] \<Rightarrow> ''unknown'' | i # _ \<Rightarrow> kind_names ! i)"

fun push_kinds :: "heap \<Rightarrow> nat list \<Rightarrow> 32 word \<Rightarrow> nyxj_value \<Rightarrow> nyxj_value \<times> heap" where
  "push_kinds h [] ks arr = (arr, h)"
| "push_kinds h (i # is) ks arr =
     (if ks AND push_bit i 1 \<noteq> 0
      then let (s, h) = nyxj_new_string h (Some (kind_names ! i)); (_, arr, h) = nyxj_array_push h arr s
           in push_kinds h is ks arr
      else push_kinds h is ks arr)"

definition nyxj_repair_report_to_value :: "heap \<Rightarrow> nyxj_repair_report option \<Rightarrow> nyxj_value option \<times> heap" where
  "nyxj_repair_report_to_value h report =
     (case nyxj_new_object h of
        (None, h) \<Rightarrow> (None, h)
      | (Some obj, h) \<Rightarrow>
          let (_, obj, h) = nyxj_object_set_number h obj ''fixes'' (case report of None \<Rightarrow> 0 | Some r \<Rightarrow> dbl_of_nat (fixes_made r))
          in case nyxj_new_array h of
               (None, h) \<Rightarrow> (Some obj, h)
             | (Some arr, h) \<Rightarrow>
                 let (arr, h) = (case report of
                       None \<Rightarrow> (arr, h)
                     | Some r \<Rightarrow> push_kinds h [0 ..< NYXJ_FIX_KIND_COUNT] (kinds r) arr);
                     (_, obj, h) = nyxj_object_set h obj ''kinds'' (Some arr)
                 in (Some obj, h))"

end
