(* ===== verification/View.thy ===== *)
theory View
  imports Parser
begin

text \<open>
  \<^verbatim>\<open>src/modules/view.c\<close>: the tokenizer that indexes a text without copying it, and the navigation over its
  token array. The array holds the tokens in the order they were found; a token of a container is followed by
  the tokens of its members, and \<open>tok_next\<close> is the first token after them. The fields of a token have 32 bits
  (\<open>u32\<close>). A NULL array is the empty list.
\<close>

datatype nyxj_tok_type =
    NYXJ_TOK_NONE
  | NYXJ_TOK_OBJECT
  | NYXJ_TOK_ARRAY
  | NYXJ_TOK_STRING
  | NYXJ_TOK_NUMBER
  | NYXJ_TOK_TRUE
  | NYXJ_TOK_FALSE
  | NYXJ_TOK_NULL

record nyxj_tok =
  tok_type :: nyxj_tok_type
  tok_start :: nat
  tok_end :: nat
  tok_size :: nat
  tok_next :: nat
  tok_escaped :: bool

record nyxj_view =
  vw_json :: bytes
  vw_tokens :: "nyxj_tok list"
  vw_capacity :: nat
  vw_owns :: bool
  vw_max_depth :: int

record tctx =
  tc_simd :: simd_backend
  tc_p :: bytes
  tc_view :: nyxj_view
  tc_depth :: nat
  tc_heap :: heap
  tc_err :: nyxj_error

datatype 'a tresult = TDone 'a tctx | TFail tctx | TFuel

definition tbind :: "'a tresult \<Rightarrow> ('a \<Rightarrow> tctx \<Rightarrow> 'b tresult) \<Rightarrow> 'b tresult" where
  "tbind r f = (case r of TDone x c \<Rightarrow> f x c | TFail c \<Rightarrow> TFail c | TFuel \<Rightarrow> TFuel)"

lemma tbind_simps [simp]:
  "tbind (TDone x c) f = f x c"
  "tbind (TFail c) f = TFail c"
  "tbind TFuel f = TFuel"
  by (simp_all add: tbind_def)

lemma tbind_cong [fundef_cong]:
  "r = r' \<Longrightarrow> (\<And>x c. r' = TDone x c \<Longrightarrow> f x c = g x c) \<Longrightarrow> tbind r f = tbind r' g"
  by (cases r') simp_all

definition u32 :: "nat \<Rightarrow> nat" where
  "u32 n = n mod 4294967296"

definition tfail :: "tctx \<Rightarrow> nyxj_error_code \<Rightarrow> bytes \<Rightarrow> string option \<Rightarrow> tctx" where
  "tfail c ec at detail =
     (if code (tc_err c) \<noteq> NYXJ_OK then c
      else let e = nyxj_locate (vw_json (tc_view c)) at ((tc_err c)\<lparr>code := ec\<rparr>)
           in c\<lparr>tc_err := e\<lparr>message := snprintf 160 (error_text ec [] (line e) (column e) detail)\<rparr>\<rparr>)"

abbreviation tfails :: "tctx \<Rightarrow> nyxj_error_code \<Rightarrow> bytes \<Rightarrow> string option \<Rightarrow> 'a tresult" where
  "tfails c ec at detail \<equiv> TFail (tfail c ec at detail)"

text \<open>The offset of a pointer into the text.\<close>

definition offset_of :: "tctx \<Rightarrow> bytes \<Rightarrow> nat" where
  "offset_of c p = u32 (length (vw_json (tc_view c)) - length p)"

definition tok_bytes :: nat where
  "tok_bytes = 24"

text \<open>\<open>emit\<close> returns the index of the new token.\<close>

definition emit_room :: "tctx \<Rightarrow> bytes \<Rightarrow> unit tresult" where
  "emit_room c s =
     (let v = tc_view c
      in if length (vw_tokens v) \<noteq> vw_capacity v then TDone () c
         else if \<not> vw_owns v then tfails c NYXJ_ERR_ELEMENT_LIMIT s (Some ''token buffer is full'')
         else let ncap = (if vw_capacity v \<noteq> 0 then vw_capacity v * 2 else 64);
                  (ok, h) = malloc (tc_heap c) (tok_bytes * ncap); c = c\<lparr>tc_heap := h\<rparr>
              in if \<not> ok then tfails c NYXJ_ERR_OUT_OF_MEMORY s None
                 else TDone () (c\<lparr>tc_view := v\<lparr>vw_capacity := ncap\<rparr>\<rparr>))"

definition emit_tok :: "tctx \<Rightarrow> nyxj_tok_type \<Rightarrow> bytes \<Rightarrow> bytes \<Rightarrow> nat tresult" where
  "emit_tok c ty s e =
     tbind (emit_room c s)
       (\<lambda>_ c. let v = tc_view c; n = length (vw_tokens v);
                  t = \<lparr>tok_type = ty, tok_start = offset_of c s, tok_end = offset_of c e, tok_size = 0,
                       tok_next = u32 (n + 1), tok_escaped = False\<rparr>
              in TDone n (c\<lparr>tc_view := v\<lparr>vw_tokens := vw_tokens v @ [t]\<rparr>\<rparr>))"

definition set_tok :: "tctx \<Rightarrow> nat \<Rightarrow> (nyxj_tok \<Rightarrow> nyxj_tok) \<Rightarrow> tctx" where
  "set_tok c i f = (let v = tc_view c in c\<lparr>tc_view := v\<lparr>vw_tokens := (vw_tokens v)[i := f (vw_tokens v ! i)]\<rparr>\<rparr>)"

text \<open>The loop of \<open>tok_string\<close>: the place of the closing quote and whether an escape was seen, or the error with
  its place, where \<open>None\<close> is the opening quote.\<close>

function string_close :: "simd_backend \<Rightarrow> bytes \<Rightarrow> bool \<Rightarrow> (nyxj_error_code \<times> bytes option) + bytes \<times> bool" where
  "string_close b r escaped =
     (let r = nyxj_scan_string_special b r
      in if r = [] then Inl (NYXJ_ERR_INVALID_STRING, None)
         else if hd r = CHR 0x22 then Inr (r, escaped)
         else if hd r = CHR 0x5C
         then (case nyxj_decode_escape r of
                 Inl ec \<Rightarrow> Inl (ec, Some r)
               | Inr (used, out) \<Rightarrow> string_close b (drop used r) True)
         else Inl (NYXJ_ERR_CONTROL_CHAR, Some r))"
  by pat_completeness auto
termination
proof (relation "measure (\<lambda>(b, r, _). length r)")
  fix b :: simd_backend and r r' :: bytes and escaped :: bool and used :: nat and d :: bytes and p
  assume *: "r' = nyxj_scan_string_special b r" "r' \<noteq> []" "nyxj_decode_escape r' = Inr p" "(used, d) = p"
  have "length r' \<le> length r"
    by (simp add: * nyxj_scan_string_special_eq length_dropWhile_le)
  moreover have "2 \<le> used"
    using * nyxj_decode_escape_used [of r' used d] by simp
  ultimately show "((b, drop used r', True), (b, r, escaped)) \<in> measure (\<lambda>(b, r, _). length r)"
    using * by (cases r) auto
qed simp

declare string_close.simps [simp del]

definition tok_string :: "tctx \<Rightarrow> unit tresult" where
  "tok_string c =
     (let quote = tc_p c; s = tl quote
      in case string_close (tc_simd c) s False of
           Inl (ec, None) \<Rightarrow> tfails c ec quote (Some ''unterminated string'')
         | Inl (ec, Some at) \<Rightarrow> tfails c ec at None
         | Inr (r, escaped) \<Rightarrow>
             let n = length s - length r; bad = nyxj_utf8_invalid_at (take n s)
             in if bad \<noteq> n then tfails c NYXJ_ERR_INVALID_UTF8 (drop bad s) None
                else tbind (emit_tok c NYXJ_TOK_STRING s r)
                  (\<lambda>i c. TDone () ((set_tok c i (\<lambda>t. t\<lparr>tok_escaped := escaped\<rparr>))\<lparr>tc_p := tl r\<rparr>)))"

definition tskip_ws :: "tctx \<Rightarrow> tctx" where
  "tskip_ws c = c\<lparr>tc_p := nyxj_scan_ws (tc_simd c) (tc_p c)\<rparr>"

definition tok_literal :: "tctx \<Rightarrow> string \<Rightarrow> nyxj_tok_type \<Rightarrow> unit tresult" where
  "tok_literal c word ty =
     (if length (tc_p c) < length word \<or> \<not> starts_with word (tc_p c)
      then tfails c NYXJ_ERR_INVALID_LITERAL (tc_p c) None
      else tbind (emit_tok c ty (tc_p c) (drop (length word) (tc_p c)))
        (\<lambda>_ c. TDone () (c\<lparr>tc_p := drop (length word) (tc_p c)\<rparr>)))"

definition tok_number :: "tctx \<Rightarrow> unit tresult" where
  "tok_number c =
     (let ch = hd (tc_p c)
      in case nyxj_scan_number (tc_p c) of
           None \<Rightarrow>
             tfails c (if ch = CHR ''-'' \<or> nyxj_is_digit ch then NYXJ_ERR_INVALID_NUMBER else NYXJ_ERR_UNEXPECTED_CHAR)
               (tc_p c) None
         | Some e \<Rightarrow> tbind (emit_tok c NYXJ_TOK_NUMBER (tc_p c) e) (\<lambda>_ c. TDone () (c\<lparr>tc_p := e\<rparr>)))"

text \<open>The key of a member and the colon after it.\<close>

definition tok_key :: "tctx \<Rightarrow> unit tresult" where
  "tok_key c =
     (if tc_p c = [] \<or> hd (tc_p c) \<noteq> CHR 0x22
      then tfails c (if tc_p c = [] then NYXJ_ERR_UNEXPECTED_EOF else NYXJ_ERR_UNEXPECTED_CHAR) (tc_p c)
        (Some ''expected a string key'')
      else tbind (tok_string c)
        (\<lambda>_ c. let c = tskip_ws c
               in if tc_p c = [] \<or> hd (tc_p c) \<noteq> CHR '':''
                  then tfails c (if tc_p c = [] then NYXJ_ERR_UNEXPECTED_EOF else NYXJ_ERR_UNEXPECTED_CHAR) (tc_p c)
                    (Some (quoted ''expected ~:~''))
                  else TDone () (c\<lparr>tc_p := tl (tc_p c)\<rparr>)))"

fun tok_value :: "nat \<Rightarrow> tctx \<Rightarrow> unit tresult"
  and tok_container :: "nat \<Rightarrow> bool \<Rightarrow> tctx \<Rightarrow> unit tresult"
  and tok_members :: "nat \<Rightarrow> bool \<Rightarrow> nat \<Rightarrow> tctx \<Rightarrow> nat tresult"
where
  "tok_value 0 c = TFuel"
| "tok_value (Suc n) c =
     (let c = tskip_ws c
      in if tc_p c = [] then tfails c NYXJ_ERR_UNEXPECTED_EOF (tc_p c) (Some ''expected a value'')
         else let ch = hd (tc_p c)
              in if ch = CHR ''{'' then tok_container n True c
                 else if ch = CHR ''['' then tok_container n False c
                 else if ch = CHR 0x22 then tok_string c
                 else if ch = CHR ''t'' then tok_literal c ''true'' NYXJ_TOK_TRUE
                 else if ch = CHR ''f'' then tok_literal c ''false'' NYXJ_TOK_FALSE
                 else if ch = CHR ''n'' then tok_literal c ''null'' NYXJ_TOK_NULL
                 else tok_number c)"
| "tok_container 0 is_object c = TFuel"
| "tok_container (Suc n) is_object c =
     (let open_at = tc_p c; c = c\<lparr>tc_depth := tc_depth c + 1\<rparr>
      in if int (tc_depth c) > vw_max_depth (tc_view c) then tfails c NYXJ_ERR_DEPTH_LIMIT open_at None
         else tbind (emit_tok c (if is_object then NYXJ_TOK_OBJECT else NYXJ_TOK_ARRAY) open_at open_at)
           (\<lambda>i c. let c = tskip_ws (c\<lparr>tc_p := tl (tc_p c)\<rparr>)
                  in tbind (if tc_p c \<noteq> [] \<and> hd (tc_p c) = (if is_object then CHR ''}'' else CHR '']'')
                            then TDone 0 (c\<lparr>tc_p := tl (tc_p c)\<rparr>) else tok_members n is_object 0 c)
                       (\<lambda>cnt c.
                          let c = set_tok c i (\<lambda>t. t\<lparr>tok_end := offset_of c (tc_p c), tok_size := cnt,
                                                    tok_next := u32 (length (vw_tokens (tc_view c)))\<rparr>)
                          in TDone () (c\<lparr>tc_depth := tc_depth c - 1\<rparr>))))"
| "tok_members 0 is_object cnt c = TFuel"
| "tok_members (Suc n) is_object cnt c =
     tbind (let c = tskip_ws c in if is_object then tok_key c else TDone () c)
       (\<lambda>_ c. tbind (tok_value n c)
          (\<lambda>_ c.
             let cnt = u32 (cnt + 1); c = tskip_ws c; close = (if is_object then CHR ''}'' else CHR '']'')
             in if tc_p c = [] then tfails c NYXJ_ERR_UNEXPECTED_EOF (tc_p c) None
                else if hd (tc_p c) = CHR '','' then tok_members n is_object cnt (c\<lparr>tc_p := tl (tc_p c)\<rparr>)
                else if hd (tc_p c) = close then TDone cnt (c\<lparr>tc_p := tl (tc_p c)\<rparr>)
                else tfails c NYXJ_ERR_UNEXPECTED_CHAR (tc_p c)
                  (Some (quoted (if is_object then ''expected ~,~ or ~}~'' else ''expected ~,~ or ~]~'')))))"

text \<open>\<open>nyxj_view_parse\<close> with a caller's array of a capacity, or \<open>None\<close> for an array of its own. The recursion bound
  is that of the parser.\<close>

record view_result =
  vr_ok :: bool
  vr_view :: nyxj_view
  vr_err :: nyxj_error
  vr_heap :: heap

definition empty_view :: "int \<Rightarrow> nyxj_view" where
  "empty_view d = \<lparr>vw_json = [], vw_tokens = [], vw_capacity = 0, vw_owns = False, vw_max_depth = d\<rparr>"

definition view_context :: "simd_backend \<Rightarrow> heap \<Rightarrow> nyxj_view \<Rightarrow> bytes \<Rightarrow> nat option \<Rightarrow> tctx" where
  "view_context b h v json buffer =
     \<lparr>tc_simd = b,
      tc_p = (if 3 \<le> length json \<and> starts_with [CHR 0xEF, CHR 0xBB, CHR 0xBF] json then drop 3 json else json),
      tc_view = v\<lparr>vw_json := json, vw_capacity := (case buffer of None \<Rightarrow> 0 | Some n \<Rightarrow> n), vw_owns := buffer = None\<rparr>,
      tc_depth = 0, tc_heap = h, tc_err = no_error\<rparr>"

definition view_root :: "tctx \<Rightarrow> unit tresult" where
  "view_root c =
     tbind (tok_value (parse_fuel (vw_json (tc_view c))) c)
       (\<lambda>_ c. let c = tskip_ws c in if tc_p c \<noteq> [] then tfails c NYXJ_ERR_TRAILING_DATA (tc_p c) None else TDone () c)"

definition nyxj_view_parse ::
    "simd_backend \<Rightarrow> heap \<Rightarrow> nyxj_view \<Rightarrow> bytes option \<Rightarrow> nat option \<Rightarrow> view_result" where
  "nyxj_view_parse b h view json buffer =
     (case json of
        None \<Rightarrow> \<lparr>vr_ok = False, vr_view = view, vr_err = nyxj_error_set NYXJ_ERR_NULL_INPUT None no_error, vr_heap = h\<rparr>
      | Some json \<Rightarrow>
          let v = empty_view (if vw_max_depth view > 0 then vw_max_depth view else default_max_depth)
          in if length json > 0xFFFFFFF0
             then \<lparr>vr_ok = False, vr_view = v,
                   vr_err = nyxj_error_set NYXJ_ERR_SIZE_LIMIT (Some ''views are limited to 4 GiB inputs'') no_error,
                   vr_heap = h\<rparr>
             else case view_root (view_context b h v json buffer) of
               TDone _ c \<Rightarrow> \<lparr>vr_ok = True, vr_view = tc_view c, vr_err = tc_err c, vr_heap = tc_heap c\<rparr>
             | TFail c \<Rightarrow>
                 \<lparr>vr_ok = False, vr_view = (tc_view c)\<lparr>vw_tokens := []\<rparr>, vr_err = tc_err c, vr_heap = tc_heap c\<rparr>
             | TFuel \<Rightarrow> \<lparr>vr_ok = False, vr_view = v, vr_err = no_error, vr_heap = h\<rparr>)"

definition nyxj_view_free :: "nyxj_view \<Rightarrow> nyxj_view" where
  "nyxj_view_free v = v\<lparr>vw_tokens := [], vw_capacity := 0\<rparr>"

subsection \<open>Navigation\<close>

text \<open>A view pointer is never NULL here.\<close>

definition valid_tok :: "nyxj_view \<Rightarrow> nat \<Rightarrow> bool" where
  "valid_tok v t \<longleftrightarrow> t < length (vw_tokens v)"

definition tok_text :: "nyxj_view \<Rightarrow> nyxj_tok \<Rightarrow> bytes" where
  "tok_text v t = take (tok_end t - tok_start t) (drop (tok_start t) (vw_json v))"

text \<open>The bytes of the token, whose number is stored through \<open>len\<close>.\<close>

definition nyxj_view_raw :: "nyxj_view \<Rightarrow> nat \<Rightarrow> bytes option" where
  "nyxj_view_raw v t = (if \<not> valid_tok v t then None else Some (tok_text v (vw_tokens v ! t)))"

text \<open>The decoding loop of \<open>nyxj_view_string\<close>: all the bytes it produces.\<close>

function decode_text :: "bytes \<Rightarrow> bytes" where
  "decode_text [] = []"
| "decode_text (c # s) =
     (if c = CHR 0x5C
      then (case nyxj_decode_escape (c # s) of
              Inl ec \<Rightarrow> []
            | Inr (used, d) \<Rightarrow> d @ decode_text (drop used (c # s)))
      else c # decode_text s)"
  by pat_completeness auto
termination
  by (relation "measure length") (auto dest!: nyxj_decode_escape_used [OF sym] nyxj_decode_escape_used)

text \<open>The decoded length, and what is stored in a buffer of \<open>out_size\<close> bytes.\<close>

definition nyxj_view_string :: "nyxj_view \<Rightarrow> nat \<Rightarrow> nat \<Rightarrow> nat \<times> bytes" where
  "nyxj_view_string v t out_size =
     (if \<not> valid_tok v t \<or> tok_type (vw_tokens v ! t) \<noteq> NYXJ_TOK_STRING then (0, [])
      else let d = decode_text (tok_text v (vw_tokens v ! t))
           in (length d, if out_size = 0 then [] else take (out_size - 1) d @ [NUL]))"

definition nyxj_view_eq :: "heap \<Rightarrow> nyxj_view \<Rightarrow> nat \<Rightarrow> string \<Rightarrow> bool \<times> heap" where
  "nyxj_view_eq h v t s =
     (if \<not> valid_tok v t \<or> tok_type (vw_tokens v ! t) \<noteq> NYXJ_TOK_STRING then (False, h)
      else let k = vw_tokens v ! t; n = length s
           in if \<not> tok_escaped k
              then (tok_end k - tok_start k = n \<and> take n (drop (tok_start k) (vw_json v)) = s, h)
              else let (ok, h) = (if n + 2 \<le> 256 then (True, h) else malloc h (n + 2))
                   in if \<not> ok then (False, h)
                      else let (got, buf) = nyxj_view_string v t (n + 2) in (got = n \<and> take n buf = s, h))"

fun find_member :: "heap \<Rightarrow> nyxj_view \<Rightarrow> nat \<Rightarrow> nat \<Rightarrow> string \<Rightarrow> nat option \<times> heap" where
  "find_member h v 0 child key = (None, h)"
| "find_member h v (Suc n) child key =
     (let (eq, h) = nyxj_view_eq h v child key
      in if eq then (Some (child + 1), h) else find_member h v n (tok_next (vw_tokens v ! (child + 1))) key)"

text \<open>\<open>NYXJ_VIEW_NONE\<close> is \<open>None\<close>.\<close>

definition nyxj_view_find :: "heap \<Rightarrow> nyxj_view \<Rightarrow> nat \<Rightarrow> string \<Rightarrow> nat option \<times> heap" where
  "nyxj_view_find h v obj key =
     (if \<not> valid_tok v obj \<or> tok_type (vw_tokens v ! obj) \<noteq> NYXJ_TOK_OBJECT then (None, h)
      else find_member h v (tok_size (vw_tokens v ! obj)) (obj + 1) key)"

fun skip_tokens :: "nyxj_view \<Rightarrow> nat \<Rightarrow> nat \<Rightarrow> nat" where
  "skip_tokens v 0 child = child"
| "skip_tokens v (Suc i) child = skip_tokens v i (tok_next (vw_tokens v ! child))"

definition nyxj_view_index :: "nyxj_view \<Rightarrow> nat \<Rightarrow> nat \<Rightarrow> nat option" where
  "nyxj_view_index v arr i =
     (if \<not> valid_tok v arr \<or> tok_type (vw_tokens v ! arr) \<noteq> NYXJ_TOK_ARRAY \<or> i \<ge> tok_size (vw_tokens v ! arr) then None
      else Some (skip_tokens v i (arr + 1)))"

text \<open>The digits between brackets: the accumulator is a \<open>size_t\<close> and wraps.\<close>

fun view_digits :: "string \<Rightarrow> 64 word \<Rightarrow> 64 word \<times> string" where
  "view_digits [] i = (i, [])"
| "view_digits (c # p) i =
     (if nyxj_is_digit c then view_digits p (i * 10 + word_of_nat (byte c - byte (CHR ''0''))) else (i, c # p))"

definition view_bracket :: "string \<Rightarrow> (nat \<times> string) option" where
  "view_bracket p =
     (if p = [] \<or> \<not> nyxj_is_digit (hd p) then None
      else let (i, p) = view_digits p 0
           in if p = [] \<or> hd p \<noteq> CHR '']'' then None else Some (unat i, tl p))"

lemma view_digits_length: "view_digits p i = (j, q) \<Longrightarrow> length q \<le> length p"
  by (induction p i rule: view_digits.induct) (auto split: if_splits)

lemma view_bracket_length: "view_bracket p = Some (i, q) \<Longrightarrow> length q < length p"
  by (cases p) (auto simp: view_bracket_def Let_def split: if_splits prod.splits dest!: view_digits_length)

function view_walk :: "heap \<Rightarrow> nyxj_view \<Rightarrow> nat option \<Rightarrow> string \<Rightarrow> nat option \<times> heap" where
  "view_walk h v cur [] = (cur, h)"
| "view_walk h v None (c # p) = (None, h)"
| "view_walk h v (Some cur) (c # p) =
     (if c = CHR ''[''
      then (case view_bracket p of
              None \<Rightarrow> (None, h)
            | Some (i, q) \<Rightarrow> view_walk h v (nyxj_view_index v cur i) (skip_dot q))
      else (case path_key (c # p) 0 of
              None \<Rightarrow> (None, h)
            | Some (key, q) \<Rightarrow>
                (case nyxj_view_find h v cur key of (next', h) \<Rightarrow> view_walk h v next' (skip_dot q))))"
  by pat_completeness auto
termination
proof (relation "measure (\<lambda>(h, v, cur, p). length p)", goal_cases)
  case (2 h v cur c p x i q)
  then show ?case using view_bracket_length [of p i q] skip_dot_length [of q] by auto
next
  case (3 h v cur c p x key q)
  then show ?case using path_key_short [of c p 0 key q] by auto
qed auto

definition nyxj_view_path :: "heap \<Rightarrow> nyxj_view \<Rightarrow> string option \<Rightarrow> nat option \<times> heap" where
  "nyxj_view_path h v path =
     (case path of
        None \<Rightarrow> (None, h)
      | Some p \<Rightarrow>
          if vw_tokens v = [] then (None, h)
          else let p = (if p \<noteq> [] \<and> hd p = CHR ''$'' then tl p else p) in view_walk h v (Some 0) (skip_dot p))"

definition nyxj_view_number :: "heap \<Rightarrow> nyxj_view \<Rightarrow> nat \<Rightarrow> double \<times> heap" where
  "nyxj_view_number h v t =
     (if \<not> valid_tok v t \<or> tok_type (vw_tokens v ! t) \<noteq> NYXJ_TOK_NUMBER then (0, h)
      else nyxj_number_value h (tok_text v (vw_tokens v ! t)))"

definition nyxj_view_bool :: "nyxj_view \<Rightarrow> nat \<Rightarrow> bool" where
  "nyxj_view_bool v t \<longleftrightarrow> valid_tok v t \<and> tok_type (vw_tokens v ! t) = NYXJ_TOK_TRUE"

subsection \<open>Materialisation\<close>

text \<open>The first argument bounds the recursion, \<open>None\<close> when it runs out; the number of tokens is enough for the
  views \<open>nyxj_view_parse\<close> builds. A NULL result is \<open>Some (None, h)\<close>.\<close>

definition tok_value_string :: "heap \<Rightarrow> nyxj_view \<Rightarrow> nat \<Rightarrow> nyxj_value option \<times> heap" where
  "tok_value_string h v t =
     (let k = vw_tokens v ! t
      in if \<not> tok_escaped k then nyxj_new_stringn h (Some (drop (tok_start k) (vw_json v))) (tok_end k - tok_start k)
         else let n = fst (nyxj_view_string v t 0); (ok, h) = malloc h (n + 1)
              in if \<not> ok then (None, h)
                 else nyxj_new_stringn h (Some (snd (nyxj_view_string v t (n + 1)))) n)"

definition tok_key_text :: "heap \<Rightarrow> nyxj_view \<Rightarrow> nat \<Rightarrow> string option \<times> heap" where
  "tok_key_text h v t =
     (let kn = fst (nyxj_view_string v t 0); (ok, h) = malloc h (kn + 1)
      in (if ok then Some (cstr (snd (nyxj_view_string v t (kn + 1)))) else None, h))"

fun view_to_value :: "nat \<Rightarrow> heap \<Rightarrow> nyxj_view \<Rightarrow> nat \<Rightarrow> (nyxj_value option \<times> heap) option"
  and view_items :: "nat \<Rightarrow> heap \<Rightarrow> nyxj_view \<Rightarrow> nat \<Rightarrow> nat \<Rightarrow> nyxj_value \<Rightarrow> (nyxj_value option \<times> heap) option"
  and view_members :: "nat \<Rightarrow> heap \<Rightarrow> nyxj_view \<Rightarrow> nat \<Rightarrow> nat \<Rightarrow> nyxj_value \<Rightarrow> (nyxj_value option \<times> heap) option"
where
  "view_to_value 0 h v t = None"
| "view_to_value (Suc n) h v t =
     (if \<not> valid_tok v t then Some (None, h)
      else let k = vw_tokens v ! t
           in case tok_type k of
                NYXJ_TOK_NULL \<Rightarrow> Some (nyxj_new_null h)
              | NYXJ_TOK_TRUE \<Rightarrow> Some (nyxj_new_bool h True)
              | NYXJ_TOK_FALSE \<Rightarrow> Some (nyxj_new_bool h False)
              | NYXJ_TOK_NUMBER \<Rightarrow> (let (d, h) = nyxj_view_number h v t in Some (nyxj_new_number h d))
              | NYXJ_TOK_STRING \<Rightarrow> Some (tok_value_string h v t)
              | NYXJ_TOK_ARRAY \<Rightarrow>
                  (case nyxj_new_array h of
                     (None, h) \<Rightarrow> Some (None, h)
                   | (Some arr, h) \<Rightarrow> view_items n h v (tok_size k) (t + 1) arr)
              | NYXJ_TOK_OBJECT \<Rightarrow>
                  (case nyxj_new_object h of
                     (None, h) \<Rightarrow> Some (None, h)
                   | (Some obj, h) \<Rightarrow> view_members n h v (tok_size k) (t + 1) obj)
              | NYXJ_TOK_NONE \<Rightarrow> Some (None, h))"
| "view_items 0 h v i child arr = None"
| "view_items (Suc n) h v i child arr =
     (if i = 0 then Some (Some arr, h)
      else case view_to_value n h v child of
        None \<Rightarrow> None
      | Some (item, h) \<Rightarrow>
          if item = None then Some (None, h)
          else let (ok, arr, h) = nyxj_array_push h arr item
               in if \<not> ok then Some (None, h)
                  else view_items n h v (i - 1) (tok_next (vw_tokens v ! child)) arr)"
| "view_members 0 h v i child obj = None"
| "view_members (Suc n) h v i child obj =
     (if i = 0 then Some (Some obj, h)
      else let (key, h) = tok_key_text h v child
           in case view_to_value n h v (child + 1) of
                None \<Rightarrow> None
              | Some (val, h) \<Rightarrow>
                  (case key of
                     None \<Rightarrow> Some (None, h)
                   | Some key \<Rightarrow>
                       if val = None then Some (None, h)
                       else let (ok, obj, h) = nyxj_object_set h obj key val
                            in if \<not> ok then Some (None, h)
                               else view_members n h v (i - 1) (tok_next (vw_tokens v ! (child + 1))) obj))"

definition nyxj_view_to_value :: "heap \<Rightarrow> nyxj_view \<Rightarrow> nat \<Rightarrow> (nyxj_value option \<times> heap) option" where
  "nyxj_view_to_value h v t = view_to_value (2 * length (vw_tokens v) + 1) h v t"

end
