(* ===== verification/Double_Ops.thy ===== *)
theory Double_Ops
  imports Double_Text
begin

text \<open>
  The operations on doubles the modules use beyond comparison: addition, division, \<open>fabs\<close>, \<open>floor\<close> and
  \<open>nearbyint\<close> in the default rounding mode, and the casts to and from 64-bit integers. A finite double is its key
  times \<open>2 ^ -1074\<close>, so the exact result is a ratio of integers, which \<open>dbl_of_ratio\<close> rounds. A NaN result is the
  quiet NaN without a payload.
\<close>

definition dbl_nan :: double where
  "dbl_nan = 0x7FF8000000000000"

definition dbl_inf :: "bool \<Rightarrow> double" where
  "dbl_inf neg = dbl_pack neg inf_mag"

definition dbl_zero :: "bool \<Rightarrow> double" where
  "dbl_zero neg = dbl_pack neg 0"

definition dbl_add :: "double \<Rightarrow> double \<Rightarrow> double" where
  "dbl_add a b =
     (if dbl_is_nan a \<or> dbl_is_nan b then dbl_nan
      else if dbl_is_inf a then (if dbl_is_inf b \<and> dbl_sign a \<noteq> dbl_sign b then dbl_nan else a)
      else if dbl_is_inf b then b
      else let k = dbl_key a + dbl_key b
           in if k = 0 then dbl_zero (dbl_sign a \<and> dbl_sign b) else dbl_of_ratio (k < 0) (nat \<bar>k\<bar>) (2 ^ 1074))"

definition dbl_sub :: "double \<Rightarrow> double \<Rightarrow> double" where
  "dbl_sub a b = (if dbl_is_nan b then dbl_nan else dbl_add a (dbl_neg b))"

definition dbl_div :: "double \<Rightarrow> double \<Rightarrow> double" where
  "dbl_div a b =
     (let neg = (dbl_sign a \<noteq> dbl_sign b)
      in if dbl_is_nan a \<or> dbl_is_nan b then dbl_nan
         else if dbl_is_inf a then (if dbl_is_inf b then dbl_nan else dbl_inf neg)
         else if dbl_is_inf b then dbl_zero neg
         else if dbl_key b = 0 then (if dbl_key a = 0 then dbl_nan else dbl_inf neg)
         else dbl_of_ratio neg (nat \<bar>dbl_key a\<bar>) (nat \<bar>dbl_key b\<bar>))"

definition dbl_fabs :: "double \<Rightarrow> double" where
  "dbl_fabs d = dbl_pack False (dbl_mag d)"

definition dbl_floor :: "double \<Rightarrow> double" where
  "dbl_floor d =
     (if \<not> dbl_is_finite d then d
      else let q = dbl_key d div 2 ^ 1074 in if q = 0 then dbl_zero (dbl_sign d) else dbl_of_int q)"

definition nearbyint :: "double \<Rightarrow> double" where
  "nearbyint d =
     (if \<not> dbl_is_finite d then d
      else dbl_of_ratio (dbl_sign d) (round_half_even (mag_key (dbl_mag d)) (2 ^ 1074)) 1)"

text \<open>\<open>(uint64_t)d\<close>: out of the range of the type the cast is undefined, \<open>None\<close>.\<close>

definition dbl_to_u64 :: "double \<Rightarrow> 64 word option" where
  "dbl_to_u64 d =
     (if dbl_is_finite d \<and> 0 \<le> dbl_trunc d \<and> dbl_trunc d < 2 ^ 64 then Some (word_of_int (dbl_trunc d)) else None)"

definition dbl_of_u64 :: "64 word \<Rightarrow> double" where
  "dbl_of_u64 w = dbl_of_nat (unat w)"

end
