(* ===== verification/Kv.thy ===== *)
theory Kv
  imports Double_Ops Serializer Parser
begin

text \<open>
  \<^verbatim>\<open>src/runtime/kv.c\<close>: the key-value store, a hash table of JSON values with expiry times.

  A chain is the list of its entries, so an entry is named by its bucket and its position there; the list of the
  chains stands for \<open>buckets\<close> and \<open>nbuckets\<close>. Every operation runs under the lock of the store, so the model runs
  one at a time. The last two fields are what an operation gets from outside: the allocator, and the clock, whose
  successive readings are \<open>time_at 0\<close>, \<open>time_at 1\<close>, and so on.
\<close>

record clock =
  readings :: nat
  time_at :: "nat \<Rightarrow> 64 word"

record kv_entry =
  e_key :: string
  e_hash :: "64 word"
  e_value :: nyxj_value
  expires_at :: "64 word"

record nyxj_kv_stats =
  keys :: nat
  hits :: "64 word"
  misses :: "64 word"
  expired_keys :: "64 word"
  sets :: "64 word"

record nyxj_kv =
  buckets :: "kv_entry list list"
  kv_count :: nat
  kv_stats :: nyxj_kv_stats
  kv_heap :: heap
  kv_clock :: clock

definition nbuckets :: "nyxj_kv \<Rightarrow> nat" where
  "nbuckets kv = length (buckets kv)"

definition nyxj_now_ms :: "nyxj_kv \<Rightarrow> 64 word \<times> nyxj_kv" where
  "nyxj_now_ms kv =
     (time_at (kv_clock kv) (readings (kv_clock kv)), kv\<lparr>kv_clock := (kv_clock kv)\<lparr>readings := readings (kv_clock kv) + 1\<rparr>\<rparr>)"

text \<open>A request of \<open>n\<close> bytes.\<close>

definition kv_malloc :: "nyxj_kv \<Rightarrow> nat \<Rightarrow> bool \<times> nyxj_kv" where
  "kv_malloc kv n = (let (ok, h) = malloc (kv_heap kv) n in (ok, kv\<lparr>kv_heap := h\<rparr>))"

definition entry_bytes :: nat where "entry_bytes = 40"

definition hash_key :: "string \<Rightarrow> 64 word" where
  "hash_key s = foldl (\<lambda>h c. (h XOR word_of_nat (byte c)) * 0x100000001b3) 0xcbf29ce484222325 s"

text \<open>The bucket of a hash in a table of \<open>n\<close> buckets.\<close>

definition bucket_of :: "64 word \<Rightarrow> nat \<Rightarrow> nat" where
  "bucket_of h n = unat (h AND word_of_nat (n - 1))"

definition expired :: "kv_entry \<Rightarrow> 64 word \<Rightarrow> bool" where
  "expired e now \<longleftrightarrow> expires_at e \<noteq> 0 \<and> expires_at e \<le> now"

text \<open>The loop that doubles 16 until the capacity fits, on 64 bits: \<open>None\<close> is a loop that never ends.\<close>

partial_function (option) table_size :: "64 word \<Rightarrow> 64 word \<Rightarrow> 64 word option" where
  "table_size n initial_capacity = (if n < initial_capacity then table_size (n * 2) initial_capacity else Some n)"

text \<open>The outer \<open>None\<close> is a call that does not return, the inner one the result NULL.\<close>

definition nyxj_kv_create :: "heap \<Rightarrow> clock \<Rightarrow> nat \<Rightarrow> 64 word \<Rightarrow> nyxj_kv option option" where
  "nyxj_kv_create h c kv_bytes initial_capacity =
     (let (ok, h) = malloc h kv_bytes
      in if \<not> ok then Some None
         else map_option (\<lambda>n.
           let (ok, h) = malloc h (pointer_bytes * unat n)
           in if \<not> ok then None
              else Some \<lparr>buckets = replicate (unat n) [], kv_count = 0,
                kv_stats = \<lparr>keys = 0, hits = 0, misses = 0, expired_keys = 0, sets = 0\<rparr>, kv_heap = h, kv_clock = c\<rparr>)
           (table_size 16 initial_capacity))"

definition clear_locked :: "nyxj_kv \<Rightarrow> nyxj_kv" where
  "clear_locked kv = kv\<lparr>buckets := map (\<lambda>_. []) (buckets kv), kv_count := 0\<rparr>"

text \<open>The rehashing loop: every entry, bucket by bucket, goes to the front of its new chain.\<close>

definition rehash :: "kv_entry list list \<Rightarrow> kv_entry list \<Rightarrow> kv_entry list list" where
  "rehash nb es = foldl (\<lambda>nb e. let b = bucket_of (e_hash e) (length nb) in nb[b := e # nb ! b]) nb es"

definition grow_locked :: "nyxj_kv \<Rightarrow> nyxj_kv" where
  "grow_locked kv =
     (let n = nbuckets kv * 2; (ok, kv) = kv_malloc kv (pointer_bytes * n)
      in if \<not> ok then kv else kv\<lparr>buckets := rehash (replicate n []) (concat (buckets kv))\<rparr>)"

text \<open>The first entry of a chain with the hash and the key.\<close>

fun chain_find :: "kv_entry list \<Rightarrow> 64 word \<Rightarrow> string \<Rightarrow> nat option" where
  "chain_find [] h key = None"
| "chain_find (e # es) h key =
     (if e_hash e = h \<and> e_key e = key then Some 0 else map_option Suc (chain_find es h key))"

definition chain_remove :: "kv_entry list \<Rightarrow> nat \<Rightarrow> kv_entry list" where
  "chain_remove es i = take i es @ drop (i + 1) es"

text \<open>\<open>*link = e->next\<close>, the entry freed, and one key less.\<close>

definition unlink_entry :: "nyxj_kv \<Rightarrow> nat \<times> nat \<Rightarrow> nyxj_kv" where
  "unlink_entry kv p =
     (let (b, i) = p
      in kv\<lparr>buckets := (buckets kv)[b := chain_remove (buckets kv ! b) i], kv_count := kv_count kv - 1\<rparr>)"

definition entry_at :: "nyxj_kv \<Rightarrow> nat \<times> nat \<Rightarrow> kv_entry" where
  "entry_at kv p = (let (b, i) = p in buckets kv ! b ! i)"

definition put_entry :: "nyxj_kv \<Rightarrow> nat \<times> nat \<Rightarrow> kv_entry \<Rightarrow> nyxj_kv" where
  "put_entry kv p e = (let (b, i) = p in kv\<lparr>buckets := (buckets kv)[b := (buckets kv ! b)[i := e]]\<rparr>)"

definition find_locked :: "nyxj_kv \<Rightarrow> string \<Rightarrow> (nat \<times> nat) option \<times> nyxj_kv" where
  "find_locked kv key =
     (let h = hash_key key; b = bucket_of h (nbuckets kv); (now, kv) = nyxj_now_ms kv
      in case chain_find (buckets kv ! b) h key of
           None \<Rightarrow> (None, kv)
         | Some i \<Rightarrow>
             if expired (entry_at kv (b, i)) now
             then let kv = unlink_entry kv (b, i)
                  in (None, kv\<lparr>kv_stats := (kv_stats kv)\<lparr>expired_keys := expired_keys (kv_stats kv) + 1\<rparr>\<rparr>)
             else (Some (b, i), kv))"

text \<open>\<open>ttl_ms ? nyxj_now_ms() + ttl_ms : 0\<close>.\<close>

definition deadline :: "nyxj_kv \<Rightarrow> 64 word \<Rightarrow> 64 word \<times> nyxj_kv" where
  "deadline kv ttl_ms = (if ttl_ms \<noteq> 0 then let (now, kv) = nyxj_now_ms kv in (now + ttl_ms, kv) else (0, kv))"

definition insert_entry :: "nyxj_kv \<Rightarrow> kv_entry \<Rightarrow> nyxj_kv" where
  "insert_entry kv e =
     (let b = bucket_of (e_hash e) (nbuckets kv)
      in kv\<lparr>buckets := (buckets kv)[b := e # buckets kv ! b], kv_count := kv_count kv + 1\<rparr>)"

definition set_locked :: "nyxj_kv \<Rightarrow> string \<Rightarrow> nyxj_value \<Rightarrow> 64 word \<Rightarrow> bool \<times> nyxj_kv" where
  "set_locked kv key owned ttl_ms =
     (let (e, kv) = find_locked kv key; (exp, kv) = deadline kv ttl_ms;
          kv = kv\<lparr>kv_stats := (kv_stats kv)\<lparr>sets := sets (kv_stats kv) + 1\<rparr>\<rparr>
      in case e of
           Some p \<Rightarrow> (True, put_entry kv p ((entry_at kv p)\<lparr>e_value := owned, expires_at := exp\<rparr>))
         | None \<Rightarrow>
             (let (ok, kv) = kv_malloc kv entry_bytes
              in if \<not> ok then (False, kv)
                 else case nyxj_strdup (kv_heap kv) (Some key) of
                   (None, h) \<Rightarrow> (False, kv\<lparr>kv_heap := h\<rparr>)
                 | (Some k, h) \<Rightarrow>
                     (let kv = insert_entry (kv\<lparr>kv_heap := h\<rparr>)
                            \<lparr>e_key = k, e_hash = hash_key key, e_value = owned, expires_at = exp\<rparr>
                      in (True, if kv_count kv > nbuckets kv * 3 div 4 then grow_locked kv else kv))))"

subsection \<open>The public operations\<close>

definition kv_clone :: "nyxj_kv \<Rightarrow> nyxj_value \<Rightarrow> nyxj_value option \<times> nyxj_kv" where
  "kv_clone kv v = (let (c, h) = nyxj_clone (kv_heap kv) (Some v) in (c, kv\<lparr>kv_heap := h\<rparr>))"

definition nyxj_kv_set :: "nyxj_kv \<Rightarrow> string \<Rightarrow> nyxj_value \<Rightarrow> 64 word \<Rightarrow> bool \<times> nyxj_kv" where
  "nyxj_kv_set kv key v ttl_ms =
     (case kv_clone kv v of (None, kv) \<Rightarrow> (False, kv) | (Some copy, kv) \<Rightarrow> set_locked kv key copy ttl_ms)"

definition nyxj_kv_get :: "nyxj_kv \<Rightarrow> string \<Rightarrow> nyxj_value option \<times> nyxj_kv" where
  "nyxj_kv_get kv key =
     (case find_locked kv key of
        (Some p, kv) \<Rightarrow>
          (let (out, kv) = kv_clone kv (e_value (entry_at kv p))
           in (out, kv\<lparr>kv_stats := (kv_stats kv)\<lparr>hits := hits (kv_stats kv) + 1\<rparr>\<rparr>))
      | (None, kv) \<Rightarrow> (None, kv\<lparr>kv_stats := (kv_stats kv)\<lparr>misses := misses (kv_stats kv) + 1\<rparr>\<rparr>))"

definition nyxj_kv_del :: "nyxj_kv \<Rightarrow> string \<Rightarrow> bool \<times> nyxj_kv" where
  "nyxj_kv_del kv key =
     (case find_locked kv key of (Some p, kv) \<Rightarrow> (True, unlink_entry kv p) | (None, kv) \<Rightarrow> (False, kv))"

definition nyxj_kv_exists :: "nyxj_kv \<Rightarrow> string \<Rightarrow> bool \<times> nyxj_kv" where
  "nyxj_kv_exists kv key = (let (e, kv) = find_locked kv key in (e \<noteq> None, kv))"

text \<open>The new number, unless the operation failed.\<close>

definition nyxj_kv_incr :: "nyxj_kv \<Rightarrow> string \<Rightarrow> double \<Rightarrow> double option \<times> nyxj_kv" where
  "nyxj_kv_incr kv key delta =
     (case find_locked kv key of
        (Some p, kv) \<Rightarrow>
          (case e_value (entry_at kv p) of
             VNumber fl n \<Rightarrow>
               (Some (dbl_add n delta), put_entry kv p ((entry_at kv p)\<lparr>e_value := VNumber fl (dbl_add n delta)\<rparr>))
           | _ \<Rightarrow> (None, kv))
      | (None, kv) \<Rightarrow>
          (case nyxj_new_number (kv_heap kv) delta of
             (None, h) \<Rightarrow> (None, kv\<lparr>kv_heap := h\<rparr>)
           | (Some v, h) \<Rightarrow>
               (let (ok, kv) = set_locked (kv\<lparr>kv_heap := h\<rparr>) key v 0 in (if ok then Some delta else None, kv))))"

definition nyxj_kv_expire :: "nyxj_kv \<Rightarrow> string \<Rightarrow> 64 word \<Rightarrow> bool \<times> nyxj_kv" where
  "nyxj_kv_expire kv key ttl_ms =
     (case find_locked kv key of
        (Some p, kv) \<Rightarrow>
          (let (exp, kv) = deadline kv ttl_ms in (True, put_entry kv p ((entry_at kv p)\<lparr>expires_at := exp\<rparr>)))
      | (None, kv) \<Rightarrow> (False, kv))"

text \<open>The times as signed 64-bit integers.\<close>

definition nyxj_kv_ttl :: "nyxj_kv \<Rightarrow> string \<Rightarrow> int \<times> nyxj_kv" where
  "nyxj_kv_ttl kv key =
     (case find_locked kv key of
        (Some p, kv) \<Rightarrow>
          if expires_at (entry_at kv p) \<noteq> 0
          then let (now, kv') = nyxj_now_ms kv; left = sint (expires_at (entry_at kv p)) - sint now
               in (if left < 0 then 0 else left, kv')
          else (-1, kv)
      | (None, kv) \<Rightarrow> (-2, kv))"

definition nyxj_kv_count :: "nyxj_kv \<Rightarrow> nat" where
  "nyxj_kv_count kv = kv_count kv"

text \<open>A key that cannot be copied or appended is left out.\<close>

definition push_key :: "nyxj_value \<times> heap \<Rightarrow> kv_entry \<Rightarrow> nyxj_value \<times> heap" where
  "push_key acc e =
     (let (arr, h) = acc; (s, h) = nyxj_new_string h (Some (e_key e)); (ok, arr, h) = nyxj_array_push h arr s in (arr, h))"

definition string_of :: "nyxj_value \<Rightarrow> string" where
  "string_of v = (case v of VString fl s \<Rightarrow> s | _ \<Rightarrow> [])"

definition sort_strings :: "nyxj_value \<Rightarrow> nyxj_value" where
  "sort_strings arr = (case arr of VArray fl xs cap \<Rightarrow> VArray fl (sort_key string_of xs) cap | _ \<Rightarrow> arr)"

text \<open>\<open>None\<close> as \<open>pfx\<close> is a NULL pointer.\<close>

definition nyxj_kv_keys :: "nyxj_kv \<Rightarrow> string option \<Rightarrow> nyxj_value option \<times> nyxj_kv" where
  "nyxj_kv_keys kv pfx =
     (case nyxj_new_array (kv_heap kv) of
        (None, h) \<Rightarrow> (None, kv\<lparr>kv_heap := h\<rparr>)
      | (Some arr, h) \<Rightarrow>
          (let pre = (case pfx of None \<Rightarrow> [] | Some s \<Rightarrow> s); (now, kv) = nyxj_now_ms kv;
               es = filter (\<lambda>e. \<not> expired e now \<and> (pre = [] \<or> starts_with pre (e_key e))) (concat (buckets kv));
               (arr, h) = foldl push_key (arr, h) es
           in (Some (sort_strings arr), kv\<lparr>kv_heap := h\<rparr>)))"

definition nyxj_kv_sweep :: "nyxj_kv \<Rightarrow> nat \<times> nyxj_kv" where
  "nyxj_kv_sweep kv =
     (let (now, kv) = nyxj_now_ms kv;
          removed = length (filter (\<lambda>e. expired e now) (concat (buckets kv)))
      in (removed, kv\<lparr>buckets := map (filter (\<lambda>e. \<not> expired e now)) (buckets kv), kv_count := kv_count kv - removed,
            kv_stats := (kv_stats kv)\<lparr>expired_keys := expired_keys (kv_stats kv) + word_of_nat removed\<rparr>\<rparr>))"

definition nyxj_kv_clear :: "nyxj_kv \<Rightarrow> nyxj_kv" where
  "nyxj_kv_clear kv = clear_locked kv"

definition nyxj_kv_stats_get :: "nyxj_kv \<Rightarrow> nyxj_kv_stats" where
  "nyxj_kv_stats_get kv = (kv_stats kv)\<lparr>keys := kv_count kv\<rparr>"

end
