(* ===== verification/Kv_Store.thy ===== *)
theory Kv_Store
  imports Kv
begin

text \<open>
  \<open>nyxj_kv_save\<close> and \<open>nyxj_kv_load\<close> of \<^verbatim>\<open>src/runtime/kv.c\<close>. A file system maps paths to the bytes of the files.
  What the calls of the C library report is an argument: whether the temporary file opens, how many bytes are
  written, whether it closes, whether the rename succeeds, and the text of \<open>errno\<close>. The states the file system
  goes through are listed, since the process may stop in any of them.
\<close>

type_synonym files = "string \<Rightarrow> bytes option"

record file_io =
  opens :: bool
  written_bytes :: nat
  closes :: bool
  renames :: bool
  reason_text :: string

text \<open>The record of an entry in the snapshot; what cannot be allocated is left out of it.\<close>

definition snapshot_entry :: "64 word \<Rightarrow> nyxj_value \<times> heap \<Rightarrow> kv_entry \<Rightarrow> nyxj_value \<times> heap" where
  "snapshot_entry now acc e =
     (let (snap, h) = acc
      in if expired e now then (snap, h)
         else case nyxj_new_object h of
           (None, h) \<Rightarrow> (snap, h)
         | (Some r, h) \<Rightarrow>
             (let (c, h) = nyxj_clone h (Some (e_value e)); (ok, r, h) = nyxj_object_set h r ''value'' c;
                  (r, h) = (if expires_at e \<noteq> 0
                    then let (ok, r, h) = nyxj_object_set_number h r ''ttl_ms'' (dbl_of_u64 (expires_at e - now)) in (r, h)
                    else (r, h));
                  (ok, snap, h) = nyxj_object_set h snap (e_key e) (Some r)
              in (snap, h)))"

definition kv_snapshot :: "nyxj_kv \<Rightarrow> nyxj_value option \<times> nyxj_kv" where
  "kv_snapshot kv =
     (case nyxj_new_object (kv_heap kv) of
        (None, h) \<Rightarrow> (None, kv\<lparr>kv_heap := h\<rparr>)
      | (Some snap, h) \<Rightarrow>
          (let (now, kv) = nyxj_now_ms kv; (snap, h) = foldl (snapshot_entry now) (snap, h) (concat (buckets kv))
           in (Some snap, kv\<lparr>kv_heap := h\<rparr>)))"

definition tmp_path :: "string \<Rightarrow> string" where
  "tmp_path path = path @ ''.tmp''"

text \<open>From \<open>fopen\<close> to \<open>remove(tmp)\<close>: the success, and the states of the file system, the last one first.\<close>

definition write_snapshot :: "file_io \<Rightarrow> files \<Rightarrow> string \<Rightarrow> bytes \<Rightarrow> bool \<times> files list" where
  "write_snapshot io d path content =
     (let tmp = tmp_path path;
          ds = (if opens io
                then map (\<lambda>k. d(tmp \<mapsto> take k content)) (rev [0 ..< min (written_bytes io) (length content) + 1]) @ [d]
                else [d]);
          ok = (opens io \<and> length content \<le> written_bytes io \<and> closes io);
          ds = (if ok then (hd ds)(path := None) # ds else ds);
          ok2 = (ok \<and> renames io);
          ds = (if ok2 then (hd ds)(path := hd ds tmp, tmp := None) # ds else ds);
          ds = (if \<not> ok2 then (hd ds)(tmp := None) # ds else ds)
      in (ok2, ds))"

definition nyxj_kv_save ::
    "file_io \<Rightarrow> files \<Rightarrow> nyxj_kv option \<Rightarrow> string option \<Rightarrow> bool \<times> nyxj_error \<times> files list \<times> nyxj_kv option" where
  "nyxj_kv_save io d kv path =
     (case (kv, path) of
        (Some kv, Some path) \<Rightarrow>
          (case kv_snapshot kv of
             (None, kv) \<Rightarrow> (False, nyxj_error_set NYXJ_ERR_OUT_OF_MEMORY None no_error, [d], Some kv)
           | (Some snap, kv) \<Rightarrow>
               (case nyxj_serialize (kv_heap kv) (Some snap) of
                  (None, h) \<Rightarrow> (False, nyxj_error_set NYXJ_ERR_OUT_OF_MEMORY None no_error, [d], Some (kv\<lparr>kv_heap := h\<rparr>))
                | (Some content, h) \<Rightarrow>
                    (let (ok, h) = malloc h (length path + 5); kv = kv\<lparr>kv_heap := h\<rparr>
                     in if \<not> ok then (False, nyxj_error_set NYXJ_ERR_OUT_OF_MEMORY None no_error, [d], Some kv)
                        else let (ok, ds) = write_snapshot io d path (cstr content)
                             in (ok, if ok then no_error
                                     else nyxj_error_set NYXJ_ERR_IO
                                       (Some (quoted ''cannot write snapshot ~'' @ path @ quoted ''~: '' @ reason_text io)) no_error,
                                 ds, Some kv))))
      | _ \<Rightarrow> (False, nyxj_error_set NYXJ_ERR_NULL_INPUT None no_error, [d], kv))"

text \<open>The expiry of a snapshot record; \<open>None\<close> is a cast out of the range of \<open>uint64_t\<close>.\<close>

definition record_ttl :: "nyxj_value \<Rightarrow> 64 word option" where
  "record_ttl r =
     (case nyxj_get_member (Some r) ''ttl_ms'' of
        Some (VNumber fl n) \<Rightarrow> if dbl_less 0 n then dbl_to_u64 n else Some 0
      | _ \<Rightarrow> Some 0)"

fun restore_pairs :: "nyxj_kv \<Rightarrow> (string \<times> nyxj_value) list \<Rightarrow> nyxj_kv option" where
  "restore_pairs kv [] = Some kv"
| "restore_pairs kv ((k, r) # ps) =
     (case nyxj_get_member (Some r) ''value'' of
        None \<Rightarrow> restore_pairs kv ps
      | Some v \<Rightarrow>
          (case record_ttl r of
             None \<Rightarrow> None
           | Some ttl \<Rightarrow> restore_pairs (snd (nyxj_kv_set kv k v ttl)) ps))"

text \<open>\<open>content\<close> is what \<open>nyxj_read_file\<close> returned, an error or the bytes of the file. \<open>None\<close> as the result is
  undefined behaviour.\<close>

definition nyxj_kv_load ::
    "simd_backend \<Rightarrow> nyxj_kv option \<Rightarrow> string option \<Rightarrow> nyxj_error + bytes \<Rightarrow> (bool \<times> nyxj_error \<times> nyxj_kv option) option" where
  "nyxj_kv_load be kv path content =
     (case (kv, path) of
        (Some kv, Some path) \<Rightarrow>
          (case content of
             Inl e \<Rightarrow> Some (False, e, Some kv)
           | Inr b \<Rightarrow>
               (let r = nyxj_parse_ex be (kv_heap kv) (Some b) None; kv = kv\<lparr>kv_heap := heap_after r\<rparr>
                in case root r of
                     None \<Rightarrow> Some (False, error r, Some kv)
                   | Some (VObject fl ps) \<Rightarrow> map_option (\<lambda>kv. (True, no_error, Some kv)) (restore_pairs kv ps)
                   | Some _ \<Rightarrow>
                       Some (False, nyxj_error_set NYXJ_ERR_TYPE_MISMATCH (Some ''snapshot root must be an object'') no_error, Some kv)))
      | _ \<Rightarrow> Some (False, nyxj_error_set NYXJ_ERR_NULL_INPUT None no_error, kv))"

end
