(* ===== verification/Kv_Facts.thy ===== *)
theory Kv_Facts
  imports Kv Value_Facts "HOL-Library.Multiset"
begin

text \<open>
  The key-value store is a map from keys to entries: the invariant of the table, and each operation on the map.
\<close>

subsection \<open>The table size\<close>

lemma wrap_64 [simp]: "(18446744073709551616 :: 64 word) = 0"
  by simp

lemma unat_word_of_nat: "n < 2 ^ 64 \<Longrightarrow> unat (word_of_nat n :: 64 word) = n"
  by (simp add: unat_of_nat)

lemma unat_two_power: "k < 64 \<Longrightarrow> unat ((2 :: 64 word) ^ k) = 2 ^ k"
  using unat_word_of_nat [of "2 ^ k"] power_strict_increasing [of k 64 "2 :: nat"] by simp

lemma table_size_nonzero:
  assumes "table_size n c = Some m"
  shows "n = 0 \<longrightarrow> c = 0"
proof (rule table_size.raw_induct [of "\<lambda>n c m. n = 0 \<longrightarrow> c = 0", OF _ assms])
  fix f n c m
  assume "\<And>n c m. f n c = Some m \<Longrightarrow> n = 0 \<longrightarrow> (c :: 64 word) = 0" "(if n < c then f (n * 2) c else Some n) = Some (m :: 64 word)"
  then show "n = 0 \<longrightarrow> c = 0" by (auto simp: word_gt_0 split: if_splits)
qed

lemma table_size_fits: "c \<le> 2 ^ 63 \<Longrightarrow> k \<le> 63 \<Longrightarrow> \<exists>j. table_size (2 ^ k) c = Some (2 ^ j) \<and> k \<le> j \<and> j \<le> 63 \<and> c \<le> 2 ^ j"
proof (induction "63 - k" arbitrary: k)
  case 0
  then have "k = 63" "\<not> 2 ^ 63 < c" by (simp_all add: not_less)
  then show ?case using 0 by (intro exI [of _ 63]) (subst table_size.simps; simp)
next
  case (Suc d)
  show ?case
  proof (cases "2 ^ k < c")
    case True
    have "d = 63 - Suc k" "Suc k \<le> 63" using Suc.hyps(2) by linarith+
    from Suc.hyps(1) [OF this(1) Suc.prems(1) this(2)]
    obtain j where "table_size (2 ^ Suc k) c = Some (2 ^ j)" "Suc k \<le> j" "j \<le> 63" "c \<le> 2 ^ j" by blast
    then show ?thesis using True by (intro exI [of _ j]) (subst table_size.simps; simp add: mult.commute)
  next
    case False
    then show ?thesis using Suc.prems by (intro exI [of _ k]) (subst table_size.simps; simp)
  qed
qed

text \<open>Above \<open>2 ^ 63\<close> the doubled size wraps to 0, and the loop does not end.\<close>

lemma table_size_loops:
  assumes "2 ^ 63 < c"
  shows "k \<le> 63 \<Longrightarrow> table_size (2 ^ k) c = None"
proof (induction "63 - k" arbitrary: k)
  case 0
  then have k: "k = 63" by simp
  have e: "table_size (2 ^ 63) c = table_size 0 c" using assms by (subst table_size.simps) simp
  have "0 < c" using assms by (rule le_less_trans [rotated]) simp
  then have "table_size 0 c = None" using table_size_nonzero [of 0 c] by (cases "table_size 0 c") auto
  then show ?case using e k by simp
next
  case (Suc d)
  have "unat ((2 :: 64 word) ^ k) \<le> unat ((2 :: 64 word) ^ 63)"
    using Suc.hyps(2) power_increasing [of k 63 "2 :: nat"] unat_two_power [of k] unat_two_power [of 63] by simp
  then have "(2 :: 64 word) ^ k \<le> 2 ^ 63" unfolding word_le_nat_alt .
  then have "2 ^ k < c" using assms by (rule le_less_trans)
  then show ?case using Suc.hyps(1) [of "Suc k"] Suc.hyps(2) by (subst table_size.simps) (simp add: mult.commute)
qed

subsection \<open>Buckets\<close>

lemma bucket_of_mod: "bucket_of h (2 ^ k) = unat h mod 2 ^ k"
proof -
  have "(word_of_nat (2 ^ k - 1) :: 64 word) = mask k" by (simp add: mask_eq_exp_minus_1 of_nat_diff)
  then have "bucket_of h (2 ^ k) = unat (take_bit k h)" unfolding bucket_of_def take_bit_eq_mask by simp
  then show ?thesis unfolding unsigned_take_bit_eq by (simp add: take_bit_eq_mod)
qed

lemma bucket_of_less: "bucket_of h (2 ^ k) < 2 ^ k"
  by (simp add: bucket_of_mod)

lemma mset_concat_update:
  "b < length bs \<Longrightarrow> mset (concat (bs[b := xs])) + mset (bs ! b) = mset (concat bs) + mset xs"
  by (induction bs arbitrary: b) (auto split: nat.split simp: ac_simps)

subsection \<open>The invariant and the map\<close>

definition entry_ok :: "nat \<Rightarrow> nat \<Rightarrow> kv_entry \<Rightarrow> bool" where
  "entry_ok n b e \<longleftrightarrow>
     e_hash e = hash_key (e_key e) \<and> bucket_of (hash_key (e_key e)) n = b \<and> no_nul (e_key e) \<and> c_strings (e_value e)"

definition all_entries :: "nyxj_kv \<Rightarrow> kv_entry list" where
  "all_entries kv = concat (buckets kv)"

definition kv_ok :: "nyxj_kv \<Rightarrow> bool" where
  "kv_ok kv \<longleftrightarrow> (\<exists>k. nbuckets kv = 2 ^ k) \<and> distinct (map e_key (all_entries kv)) \<and>
     kv_count kv = length (all_entries kv) \<and> (\<forall>b < nbuckets kv. \<forall>e \<in> set (buckets kv ! b). entry_ok (nbuckets kv) b e)"

definition kv_map :: "nyxj_kv \<Rightarrow> string \<Rightarrow> kv_entry option" where
  "kv_map kv key = find (\<lambda>e. e_key e = key) (all_entries kv)"

lemma kv_map_iff: "kv_ok kv \<Longrightarrow> kv_map kv key = Some e \<longleftrightarrow> e \<in> set (all_entries kv) \<and> e_key e = key"
proof -
  have "distinct (map e_key es) \<Longrightarrow> find (\<lambda>e. e_key e = key) es = Some e \<longleftrightarrow> e \<in> set es \<and> e_key e = key" for es
    by (induction es) (auto simp: image_iff)
  then show "kv_ok kv \<Longrightarrow> ?thesis" by (simp add: kv_ok_def kv_map_def)
qed

lemma chain_ok: "kv_ok kv \<Longrightarrow> b < nbuckets kv \<Longrightarrow> \<forall>e \<in> set (buckets kv ! b). entry_ok (nbuckets kv) b e"
  by (simp add: kv_ok_def)

lemma kv_map_None: "kv_map kv key = None \<longleftrightarrow> (\<forall>e \<in> set (all_entries kv). e_key e \<noteq> key)"
  by (auto simp: kv_map_def find_None_iff)

lemma kv_map_eqI: "kv_ok kv \<Longrightarrow> (\<And>k e. m k = Some e \<longleftrightarrow> e \<in> set (all_entries kv) \<and> e_key e = k) \<Longrightarrow> kv_map kv = m"
  by (rule ext) (metis kv_map_iff not_None_eq option.inject)

lemma all_entries_chain: "e \<in> set (all_entries kv) \<longleftrightarrow> (\<exists>b < nbuckets kv. e \<in> set (buckets kv ! b))"
  by (simp add: all_entries_def nbuckets_def set_conv_nth [of "buckets kv"]) blast

lemma all_entries_bucket:
  assumes "kv_ok kv" "e \<in> set (all_entries kv)"
  shows "e \<in> set (buckets kv ! bucket_of (hash_key (e_key e)) (nbuckets kv))" "e_hash e = hash_key (e_key e)"
    "no_nul (e_key e)" "c_strings (e_value e)"
proof -
  obtain b where b: "b < nbuckets kv" "e \<in> set (buckets kv ! b)" using assms(2) unfolding all_entries_chain by blast
  then have "entry_ok (nbuckets kv) b e" using assms(1) by (simp add: kv_ok_def)
  then have h: "e_hash e = hash_key (e_key e)" "bucket_of (hash_key (e_key e)) (nbuckets kv) = b" "no_nul (e_key e)" "c_strings (e_value e)"
    by (auto simp: entry_ok_def)
  show "e \<in> set (buckets kv ! bucket_of (hash_key (e_key e)) (nbuckets kv))" "e_hash e = hash_key (e_key e)"
    "no_nul (e_key e)" "c_strings (e_value e)" using b(2) h by simp_all
qed

lemma bucket_less: "kv_ok kv \<Longrightarrow> bucket_of h (nbuckets kv) < nbuckets kv"
  using bucket_of_less by (fastforce simp: kv_ok_def)

text \<open>The invariant depends on the table and the count only.\<close>

lemma kv_ok_cong: "buckets kv' = buckets kv \<Longrightarrow> kv_count kv' = kv_count kv \<Longrightarrow> kv_ok kv' = kv_ok kv"
  by (simp add: kv_ok_def nbuckets_def all_entries_def)

lemma kv_map_cong: "buckets kv' = buckets kv \<Longrightarrow> kv_map kv' = kv_map kv"
  by (simp add: kv_map_def all_entries_def fun_eq_iff)

lemma distinct_keys_mset: "mset es = mset fs \<Longrightarrow> distinct (map e_key es) = distinct (map e_key fs)"
  by (rule mset_eq_imp_distinct_iff) simp

subsection \<open>Positions\<close>

definition position :: "nyxj_kv \<Rightarrow> nat \<times> nat \<Rightarrow> bool" where
  "position kv p \<longleftrightarrow> fst p < nbuckets kv \<and> snd p < length (buckets kv ! fst p)"

lemma entry_at_in: "position kv p \<Longrightarrow> entry_at kv p \<in> set (buckets kv ! fst p)"
  by (auto simp: position_def entry_at_def split: prod.split)

lemma mset_chain_remove: "i < length es \<Longrightarrow> mset (chain_remove es i) + {#es ! i#} = mset es"
  by (metis (no_types, lifting) Suc_eq_plus1 add.commute append_take_drop_id chain_remove_def id_take_nth_drop
      mset.simps(2) mset_append union_mset_add_mset_right add_mset_add_single)

lemma set_chain_remove: "set (chain_remove es i) \<subseteq> set es"
  by (auto simp: chain_remove_def dest: in_set_takeD in_set_dropD)

lemma chain_find_Some: "chain_find es h key = Some i \<Longrightarrow> i < length es \<and> e_key (es ! i) = key"
  by (induction es arbitrary: i) (auto split: if_splits)

lemma chain_find_None: "chain_find es h key = None \<longleftrightarrow> (\<forall>e \<in> set es. \<not> (e_hash e = h \<and> e_key e = key))"
  by (induction es) auto

lemma mset_exchange:
  fixes X :: "'a multiset"
  assumes "X + C = Y + D" "D + A = C + B"
  shows "X + A = Y + B"
proof -
  have "(X + A) + (C + D) = (X + C) + (D + A)" by (simp add: ac_simps)
  also have "\<dots> = (Y + B) + (C + D)" unfolding assms by (simp add: ac_simps)
  finally show ?thesis by simp
qed

text \<open>A chain is replaced.\<close>

lemma kv_ok_update:
  assumes "kv_ok kv" "b < nbuckets kv" "\<forall>e \<in> set es. entry_ok (nbuckets kv) b e"
    "buckets kv' = (buckets kv)[b := es]" "distinct (map e_key (all_entries kv'))" "kv_count kv' = length (all_entries kv')"
  shows "kv_ok kv'"
  using assms by (auto simp: kv_ok_def nbuckets_def nth_list_update)

lemma entries_update:
  assumes "b < nbuckets kv" "buckets kv' = (buckets kv)[b := es]"
  shows "mset (all_entries kv') + mset (buckets kv ! b) = mset (all_entries kv) + mset es"
  using assms mset_concat_update [of b "buckets kv" es] by (simp add: all_entries_def nbuckets_def)

lemma unlink_ok:
  assumes "kv_ok kv" "position kv p"
  shows "kv_ok (unlink_entry kv p) \<and> kv_map (unlink_entry kv p) = (kv_map kv)(e_key (entry_at kv p) := None)"
proof -
  let ?kv = "unlink_entry kv p" and ?e = "entry_at kv p"
  obtain b i where p: "p = (b, i)" by fastforce
  have b: "b < nbuckets kv" "i < length (buckets kv ! b)" using assms(2) by (simp_all add: position_def p)
  have bs: "buckets ?kv = (buckets kv)[b := chain_remove (buckets kv ! b) i]" by (simp add: unlink_entry_def p)
  have "mset (chain_remove (buckets kv ! b) i) + {#?e#} = mset (buckets kv ! b)"
    using mset_chain_remove [OF b(2)] by (simp add: entry_at_def p)
  then have m: "mset (all_entries kv) = mset (?e # all_entries ?kv)"
    using mset_exchange [OF entries_update [OF b(1) bs], of "{#?e#}" "{#}"] by simp
  have d: "distinct (map e_key (?e # all_entries ?kv))"
    using distinct_keys_mset [OF m] assms(1) by (simp add: kv_ok_def)
  have "length (all_entries kv) = length (?e # all_entries ?kv)" using m by (rule mset_eq_length)
  moreover have "kv_count ?kv = kv_count kv - 1" by (simp add: unlink_entry_def p)
  ultimately have c: "kv_count ?kv = length (all_entries ?kv)" using assms(1) by (simp add: kv_ok_def)
  have ok: "kv_ok ?kv"
  proof (rule kv_ok_update [OF assms(1) b(1) _ bs _ c])
    show "\<forall>e \<in> set (chain_remove (buckets kv ! b) i). entry_ok (nbuckets kv) b e"
      using assms(1) b(1) set_chain_remove unfolding kv_ok_def by blast
  qed (use d in simp)
  have s: "set (all_entries kv) = insert ?e (set (all_entries ?kv))" using mset_eq_setD [OF m] by simp
  have "kv_map ?kv = (kv_map kv)(e_key ?e := None)"
    by (rule kv_map_eqI [OF ok]) (use d s kv_map_iff [OF assms(1)] in \<open>auto simp: image_iff\<close>)
  then show ?thesis using ok by blast
qed

lemma put_ok:
  assumes "kv_ok kv" "position kv p" "e_key e = e_key (entry_at kv p)" "e_hash e = e_hash (entry_at kv p)" "c_strings (e_value e)"
  shows "kv_ok (put_entry kv p e) \<and> kv_map (put_entry kv p e) = (kv_map kv)(e_key e \<mapsto> e)"
proof -
  let ?kv = "put_entry kv p e" and ?o = "entry_at kv p"
  obtain b i where p: "p = (b, i)" by fastforce
  have b: "b < nbuckets kv" "i < length (buckets kv ! b)" using assms(2) by (simp_all add: position_def p)
  have bs: "buckets ?kv = (buckets kv)[b := (buckets kv ! b)[i := e]]" by (simp add: put_entry_def p)
  have "mset ((buckets kv ! b)[i := e]) + {#?o#} = mset (buckets kv ! b) + {#e#}"
    using b(2) by (simp add: mset_update entry_at_def p)
  then have m: "mset (?o # all_entries ?kv) = mset (e # all_entries kv)"
    using mset_exchange [OF entries_update [OF b(1) bs], of "{#?o#}" "{#e#}"] by simp
  have o: "?o \<in> set (all_entries kv)" "entry_ok (nbuckets kv) b ?o"
    using entry_at_in [OF assms(2)] b(1) assms(1) by (auto simp: all_entries_chain p kv_ok_def)
  have k: "mset (map e_key (all_entries ?kv)) = mset (map e_key (all_entries kv))"
    using arg_cong [OF m, of "image_mset e_key"] assms(3) by simp
  have d: "distinct (map e_key (all_entries ?kv))" "kv_count ?kv = length (all_entries ?kv)"
    using assms(1) mset_eq_imp_distinct_iff [OF k] mset_eq_length [OF k] by (simp_all add: kv_ok_def put_entry_def p)
  have ok: "kv_ok ?kv"
  proof (rule kv_ok_update [OF assms(1) b(1) _ bs d])
    show "\<forall>e \<in> set ((buckets kv ! b)[i := e]). entry_ok (nbuckets kv) b e"
    proof
      fix x
      assume "x \<in> set ((buckets kv ! b)[i := e])"
      then have "x = e \<or> x \<in> set (buckets kv ! b)" using set_update_subset_insert [of "buckets kv ! b" i e] by blast
      moreover have "entry_ok (nbuckets kv) b e" using o(2) assms(3-5) by (simp add: entry_ok_def)
      ultimately show "entry_ok (nbuckets kv) b x" using chain_ok [OF assms(1) b(1)] by blast
    qed
  qed
  have s: "insert ?o (set (all_entries ?kv)) = insert e (set (all_entries kv))" using mset_eq_setD [OF m] by simp
  have e: "e \<in> set (all_entries ?kv)"
    using b bs by (auto simp: all_entries_chain nbuckets_def set_update_memI intro!: exI [of _ b])
  have others: "x \<in> set (all_entries ?kv) \<longleftrightarrow> x \<in> set (all_entries kv)" if "e_key x \<noteq> e_key e" for x
    using s that assms(3) by (metis insert_iff)
  have uniq': "x = e" if "x \<in> set (all_entries ?kv)" "e_key x = e_key e" for x
    using that e kv_map_iff [OF ok] by (metis option.inject)
  have "kv_map ?kv = (kv_map kv)(e_key e \<mapsto> e)"
  proof (rule kv_map_eqI [OF ok])
    fix k x
    show "((kv_map kv)(e_key e \<mapsto> e)) k = Some x \<longleftrightarrow> x \<in> set (all_entries ?kv) \<and> e_key x = k"
      using others [of x] e uniq' kv_map_iff [OF assms(1), of k x] by (cases "k = e_key e") auto
  qed
  then show ?thesis using ok by blast
qed

lemma insert_ok:
  assumes "kv_ok kv" "kv_map kv (e_key e) = None" "e_hash e = hash_key (e_key e)" "no_nul (e_key e)" "c_strings (e_value e)"
  shows "kv_ok (insert_entry kv e) \<and> kv_map (insert_entry kv e) = (kv_map kv)(e_key e \<mapsto> e)"
proof -
  let ?kv = "insert_entry kv e" and ?b = "bucket_of (e_hash e) (nbuckets kv)"
  have b: "?b < nbuckets kv" by (rule bucket_less [OF assms(1)])
  have bs: "buckets ?kv = (buckets kv)[?b := e # buckets kv ! ?b]" by (simp add: insert_entry_def Let_def)
  have m: "mset (all_entries ?kv) = mset (e # all_entries kv)" using entries_update [OF b bs] by simp
  have d: "distinct (map e_key (all_entries ?kv))" "kv_count ?kv = length (all_entries ?kv)"
  proof -
    have "distinct (map e_key (e # all_entries kv))" using assms(1,2) by (auto simp: kv_ok_def kv_map_None)
    then show "distinct (map e_key (all_entries ?kv))" using distinct_keys_mset [OF m] by blast
    have "kv_count ?kv = kv_count kv + 1" by (simp add: insert_entry_def Let_def)
    then show "kv_count ?kv = length (all_entries ?kv)" using mset_eq_length [OF m] assms(1) by (simp add: kv_ok_def)
  qed
  have ok: "kv_ok ?kv"
  proof (rule kv_ok_update [OF assms(1) b _ bs d])
    show "\<forall>x \<in> set (e # buckets kv ! ?b). entry_ok (nbuckets kv) ?b x"
      using assms(3-5) chain_ok [OF assms(1) b] by (simp add: entry_ok_def)
  qed
  have "set (all_entries ?kv) = insert e (set (all_entries kv))" using mset_eq_setD [OF m] by simp
  then have "kv_map ?kv = (kv_map kv)(e_key e \<mapsto> e)"
    using assms(2) kv_map_iff [OF assms(1)] by (intro kv_map_eqI [OF ok]) (auto simp: kv_map_None)
  then show ?thesis using ok by blast
qed

subsection \<open>Growing\<close>

definition table_ok :: "kv_entry list list \<Rightarrow> bool" where
  "table_ok bs \<longleftrightarrow> (\<forall>b < length bs. \<forall>e \<in> set (bs ! b). entry_ok (length bs) b e)"

lemma rehash_facts:
  assumes "length nb = 2 ^ k" "table_ok nb" "\<forall>e \<in> set es. entry_ok (2 ^ k) (bucket_of (hash_key (e_key e)) (2 ^ k)) e"
  shows "length (rehash nb es) = 2 ^ k \<and> table_ok (rehash nb es) \<and> mset (concat (rehash nb es)) = mset (concat nb) + mset es"
  using assms
proof (induction es arbitrary: nb)
  case (Cons e es)
  let ?b = "bucket_of (e_hash e) (2 ^ k)"
  let ?nb = "nb[?b := e # nb ! ?b]"
  have b: "?b < length nb" using Cons.prems(1) bucket_of_less by simp
  have e: "entry_ok (length nb) ?b e" using Cons.prems(1,3) by (auto simp: entry_ok_def)
  have ok: "table_ok ?nb" using Cons.prems(2) e b by (auto simp: table_ok_def nth_list_update)
  have "mset (concat ?nb) = mset (concat nb) + {#e#}"
    using mset_concat_update [OF b, of "e # nb ! ?b"] by simp
  moreover have "rehash nb (e # es) = rehash ?nb es" using Cons.prems(1) by (simp add: rehash_def Let_def)
  ultimately show ?case using Cons.IH [OF _ ok] Cons.prems(1,3) by simp
qed (simp add: rehash_def)

lemma grow_ok:
  assumes "kv_ok kv"
  shows "kv_ok (grow_locked kv) \<and> kv_map (grow_locked kv) = kv_map kv \<and> kv_stats (grow_locked kv) = kv_stats kv"
proof -
  obtain ok h where m: "malloc (kv_heap kv) (pointer_bytes * (nbuckets kv * 2)) = (ok, h)" by fastforce
  show ?thesis
  proof (cases ok)
    case False
    then have "grow_locked kv = kv\<lparr>kv_heap := h\<rparr>" using m by (simp add: grow_locked_def kv_malloc_def Let_def)
    then show ?thesis using assms kv_ok_cong [of "kv\<lparr>kv_heap := h\<rparr>" kv] kv_map_cong [of "kv\<lparr>kv_heap := h\<rparr>" kv] by simp
  next
    case True
    obtain k where k: "nbuckets kv = 2 ^ k" using assms by (auto simp: kv_ok_def)
    let ?n = "2 ^ Suc k :: nat"
    define bs where "bs = rehash (replicate ?n []) (all_entries kv)"
    have g: "grow_locked kv = kv\<lparr>kv_heap := h, buckets := bs\<rparr>"
      using m True k by (simp add: grow_locked_def kv_malloc_def Let_def all_entries_def mult.commute bs_def)
    have "\<forall>e \<in> set (all_entries kv). entry_ok ?n (bucket_of (hash_key (e_key e)) ?n) e"
      using all_entries_bucket [OF assms] by (simp add: entry_ok_def)
    then have r: "length bs = ?n" "table_ok bs" "mset (concat bs) = mset (all_entries kv)"
      using rehash_facts [of "replicate ?n []" "Suc k" "all_entries kv"] by (auto simp: table_ok_def bs_def)
    let ?kv = "kv\<lparr>kv_heap := h, buckets := bs\<rparr>"
    have a: "all_entries ?kv = concat bs" by (simp add: all_entries_def)
    have "distinct (map e_key (concat bs))" "length (concat bs) = length (all_entries kv)"
      using distinct_keys_mset [OF r(3)] mset_eq_length [OF r(3)] assms by (simp_all add: kv_ok_def)
    then have ok: "kv_ok ?kv"
      using r(1,2) assms unfolding kv_ok_def a by (auto simp: nbuckets_def table_ok_def intro: exI [of _ "Suc k"])
    have "kv_map ?kv = kv_map kv"
      using kv_map_iff [OF assms] mset_eq_setD [OF r(3)] by (intro kv_map_eqI [OF ok]) (simp add: a)
    then show ?thesis using ok g by simp
  qed
qed

subsection \<open>Finding a live entry\<close>

text \<open>The time of the next reading.\<close>

definition next_time :: "nyxj_kv \<Rightarrow> 64 word" where
  "next_time kv = fst (nyxj_now_ms kv)"

definition tick :: "nyxj_kv \<Rightarrow> nyxj_kv" where
  "tick kv = snd (nyxj_now_ms kv)"

lemma now_ms_tick: "nyxj_now_ms kv = (next_time kv, tick kv)"
  by (simp add: next_time_def tick_def)

lemma tick_simps [simp]:
  "buckets (tick kv) = buckets kv" "kv_count (tick kv) = kv_count kv" "kv_stats (tick kv) = kv_stats kv"
  "kv_heap (tick kv) = kv_heap kv" "nbuckets (tick kv) = nbuckets kv" "entry_at (tick kv) p = entry_at kv p"
  "all_entries (tick kv) = all_entries kv" "kv_ok (tick kv) = kv_ok kv" "kv_map (tick kv) = kv_map kv"
  "position (tick kv) p = position kv p"
  by (simp_all add: tick_def nyxj_now_ms_def nbuckets_def entry_at_def all_entries_def kv_ok_def kv_map_def fun_eq_iff position_def)

lemma chain_find_map:
  assumes "kv_ok kv"
  shows "(case chain_find (buckets kv ! bucket_of (hash_key key) (nbuckets kv)) (hash_key key) key of
      None \<Rightarrow> kv_map kv key = None
    | Some i \<Rightarrow> position kv (bucket_of (hash_key key) (nbuckets kv), i) \<and>
        kv_map kv key = Some (entry_at kv (bucket_of (hash_key key) (nbuckets kv), i)))"
proof (cases "chain_find (buckets kv ! bucket_of (hash_key key) (nbuckets kv)) (hash_key key) key")
  case None
  have "kv_map kv key = None"
    unfolding kv_map_None
  proof
    fix e
    assume "e \<in> set (all_entries kv)"
    from all_entries_bucket [OF assms this] show "e_key e \<noteq> key" using None unfolding chain_find_None by auto
  qed
  then show ?thesis using None by simp
next
  case (Some i)
  let ?b = "bucket_of (hash_key key) (nbuckets kv)"
  have i: "i < length (buckets kv ! ?b)" "e_key (buckets kv ! ?b ! i) = key" using chain_find_Some [OF Some] by simp_all
  then have p: "position kv (?b, i)" using bucket_less [OF assms] by (simp add: position_def)
  have "entry_at kv (?b, i) \<in> set (all_entries kv)"
    using entry_at_in [OF p] bucket_less [OF assms, of "hash_key key"] by (auto simp: all_entries_chain)
  then have "kv_map kv key = Some (entry_at kv (?b, i))" using i kv_map_iff [OF assms] by (simp add: entry_at_def)
  then show ?thesis using Some p by simp
qed

lemma find_locked_cases:
  assumes "kv_ok kv" "find_locked kv key = (r, kv')"
  obtains (absent) "r = None" "kv' = tick kv" "kv_map kv key = None"
  | (dead) p where "r = None" "kv_map kv key = Some (entry_at kv p)" "expired (entry_at kv p) (next_time kv)" "position kv p"
      "kv' = (unlink_entry (tick kv) p)\<lparr>kv_stats := (kv_stats kv)\<lparr>expired_keys := expired_keys (kv_stats kv) + 1\<rparr>\<rparr>"
  | (live) p where "r = Some p" "kv' = tick kv" "position kv p" "kv_map kv key = Some (entry_at kv p)"
      "\<not> expired (entry_at kv p) (next_time kv)"
proof -
  let ?b = "bucket_of (hash_key key) (nbuckets kv)"
  note c = chain_find_map [OF assms(1), of key]
  have f: "find_locked kv key =
     (case chain_find (buckets kv ! ?b) (hash_key key) key of
        None \<Rightarrow> (None, tick kv)
      | Some i \<Rightarrow>
          if expired (entry_at kv (?b, i)) (next_time kv)
          then (None, (unlink_entry (tick kv) (?b, i))\<lparr>kv_stats := (kv_stats kv)\<lparr>expired_keys := expired_keys (kv_stats kv) + 1\<rparr>\<rparr>)
          else (Some (?b, i), tick kv))"
    by (simp add: find_locked_def now_ms_tick Let_def unlink_entry_def split: option.split)
  show thesis
  proof (cases "chain_find (buckets kv ! ?b) (hash_key key) key")
    case None
    then show ?thesis using f assms(2) c by (intro absent) auto
  next
    case (Some i)
    show ?thesis
    proof (cases "expired (entry_at kv (?b, i)) (next_time kv)")
      case True
      then show ?thesis using f assms(2) c Some by (intro dead [of "(?b, i)"]) auto
    next
      case False
      then show ?thesis using f assms(2) c Some by (intro live [of "(?b, i)"]) auto
    qed
  qed
qed

text \<open>What the store holds for a key at a time.\<close>

definition live_entry :: "nyxj_kv \<Rightarrow> 64 word \<Rightarrow> string \<Rightarrow> kv_entry option" where
  "live_entry kv now key = (case kv_map kv key of Some e \<Rightarrow> if expired e now then None else Some e | None \<Rightarrow> None)"

lemma next_time_cong: "kv_clock kv' = kv_clock kv \<Longrightarrow> next_time kv' = next_time kv"
  by (simp add: next_time_def nyxj_now_ms_def)

lemma kv_fields [simp]:
  "kv_clock (unlink_entry kv p) = kv_clock kv" "kv_clock (put_entry kv p e) = kv_clock kv"
  "kv_clock (insert_entry kv e) = kv_clock kv" "kv_clock (grow_locked kv) = kv_clock kv"
  "kv_heap (unlink_entry kv p) = kv_heap kv" "kv_heap (put_entry kv p e) = kv_heap kv"
  "kv_heap (insert_entry kv e) = kv_heap kv"
  by (auto simp: unlink_entry_def put_entry_def insert_entry_def grow_locked_def kv_malloc_def Let_def split: prod.split)

lemma kv_updates [simp]:
  "kv_ok (kv\<lparr>kv_heap := h\<rparr>) = kv_ok kv" "kv_map (kv\<lparr>kv_heap := h\<rparr>) = kv_map kv"
  "kv_ok (kv\<lparr>kv_stats := s\<rparr>) = kv_ok kv" "kv_map (kv\<lparr>kv_stats := s\<rparr>) = kv_map kv"
  "entry_at (kv\<lparr>kv_heap := h\<rparr>) p = entry_at kv p" "entry_at (kv\<lparr>kv_stats := s\<rparr>) p = entry_at kv p"
  "position (kv\<lparr>kv_heap := h\<rparr>) p = position kv p" "position (kv\<lparr>kv_stats := s\<rparr>) p = position kv p"
  "next_time (kv\<lparr>kv_heap := h\<rparr>) = next_time kv" "next_time (kv\<lparr>kv_stats := s\<rparr>) = next_time kv"
  by (simp_all add: kv_ok_def kv_map_def all_entries_def nbuckets_def fun_eq_iff entry_at_def position_def next_time_def nyxj_now_ms_def)

text \<open>What a search leaves: the invariant, and the map without the key if its entry is dead.\<close>

definition searched :: "nyxj_kv \<Rightarrow> string \<Rightarrow> nyxj_kv \<Rightarrow> bool" where
  "searched kv key kv' \<longleftrightarrow>
     kv_ok kv' \<and> kv_clock kv' = kv_clock (tick kv) \<and> kv_heap kv' = kv_heap kv \<and>
     kv_map kv' = (if live_entry kv (next_time kv) key = None then (kv_map kv)(key := None) else kv_map kv)"

lemma find_locked_map:
  assumes "kv_ok kv" "find_locked kv key = (r, kv')"
  shows "searched kv key kv'"
    "case r of None \<Rightarrow> live_entry kv (next_time kv) key = None
       | Some p \<Rightarrow> kv' = tick kv \<and> position kv p \<and> live_entry kv (next_time kv) key = Some (entry_at kv p) \<and>
           kv_map kv key = Some (entry_at kv p)"
proof -
  have "searched kv key kv' \<and>
    (case r of None \<Rightarrow> live_entry kv (next_time kv) key = None
       | Some p \<Rightarrow> kv' = tick kv \<and> position kv p \<and> live_entry kv (next_time kv) key = Some (entry_at kv p) \<and>
           kv_map kv key = Some (entry_at kv p))"
    using assms
  proof (cases rule: find_locked_cases)
  case absent
  then show ?thesis using assms(1) by (auto simp: searched_def live_entry_def)
next
  case (dead p)
  have e: "e_key (entry_at kv p) = key" using dead(2) kv_map_iff [OF assms(1)] by simp
  have "kv_ok (unlink_entry (tick kv) p) \<and> kv_map (unlink_entry (tick kv) p) = (kv_map kv)(key := None)"
    using unlink_ok [of "tick kv" p] dead(4) assms(1) e by simp
  then show ?thesis using dead by (simp add: searched_def live_entry_def)
next
  case (live p)
  then show ?thesis using assms(1) by (simp add: searched_def live_entry_def)
qed
  then show "searched kv key kv'"
    "case r of None \<Rightarrow> live_entry kv (next_time kv) key = None
       | Some p \<Rightarrow> kv' = tick kv \<and> position kv p \<and> live_entry kv (next_time kv) key = Some (entry_at kv p) \<and>
           kv_map kv key = Some (entry_at kv p)" by blast+
qed

lemma kv_malloc_simps:
  "kv_malloc kv n = (fst (malloc (kv_heap kv) n), kv\<lparr>kv_heap := snd (malloc (kv_heap kv) n)\<rparr>)"
  by (simp add: kv_malloc_def split: prod.split)

lemma deadline_tick: "deadline kv ttl = (if ttl \<noteq> 0 then (next_time kv + ttl, tick kv) else (0, kv))"
  by (simp add: deadline_def now_ms_tick)

definition stored :: "nyxj_kv \<Rightarrow> string \<Rightarrow> nyxj_value \<Rightarrow> 64 word \<Rightarrow> kv_entry" where
  "stored kv key v ttl =
     \<lparr>e_key = key, e_hash = hash_key key, e_value = v,
      expires_at = (if ttl \<noteq> 0 then next_time (tick kv) + ttl else 0)\<rparr>"

lemma stored_simps [simp]:
  "e_key (stored kv key v ttl) = key" "e_hash (stored kv key v ttl) = hash_key key" "e_value (stored kv key v ttl) = v"
  by (simp_all add: stored_def)

lemma grow_total: "heap_total (kv_heap kv) \<Longrightarrow> heap_total (kv_heap (grow_locked kv))"
  using malloc_total [of "kv_heap kv"] by (simp add: grow_locked_def kv_malloc_simps Let_def)

lemma set_locked_map:
  assumes "kv_ok kv" "no_nul key" "c_strings v" "set_locked kv key v ttl = (ok, kv')"
  shows "kv_ok kv'"
    "ok \<Longrightarrow> kv_map kv' = (kv_map kv)(key \<mapsto> stored kv key v ttl)"
    "\<not> ok \<Longrightarrow> kv_map kv' = (kv_map kv)(key := None) \<and> live_entry kv (next_time kv) key = None"
    "heap_total (kv_heap kv) \<Longrightarrow> ok \<and> heap_total (kv_heap kv')"
proof -
  obtain r kv1 where f: "find_locked kv key = (r, kv1)" by fastforce
  note fl = find_locked_map [OF assms(1) f]
  define x where "x = (if ttl \<noteq> 0 then next_time (tick kv) + ttl else 0)"
  define kv2 where "kv2 = (if ttl \<noteq> 0 then tick kv1 else kv1)"
  have t1: "next_time kv1 = next_time (tick kv)" using fl(1) by (intro next_time_cong) (simp add: searched_def)
  have d: "deadline kv1 ttl = (x, kv2)" by (simp add: deadline_tick t1 x_def kv2_def)
  define kv3 where "kv3 = kv2\<lparr>kv_stats := (kv_stats kv2)\<lparr>sets := sets (kv_stats kv2) + 1\<rparr>\<rparr>"
  have k3: "kv_ok kv3" "kv_map kv3 = kv_map kv1" "kv_heap kv3 = kv_heap kv"
    "entry_at kv3 p = entry_at kv1 p" "position kv3 p = position kv1 p" for p
    using fl(1) by (simp_all add: kv3_def kv2_def searched_def)
  have s: "stored kv key v ttl = \<lparr>e_key = key, e_hash = hash_key key, e_value = v, expires_at = x\<rparr>"
    by (simp add: stored_def x_def)
  have "kv_ok kv' \<and> (ok \<longrightarrow> kv_map kv' = (kv_map kv)(key \<mapsto> stored kv key v ttl)) \<and>
    (\<not> ok \<longrightarrow> kv_map kv' = (kv_map kv)(key := None) \<and> live_entry kv (next_time kv) key = None) \<and>
    (heap_total (kv_heap kv) \<longrightarrow> ok \<and> heap_total (kv_heap kv'))"
  proof (cases r)
    case (Some p)
    let ?e = "(entry_at kv p)\<lparr>e_value := v, expires_at := x\<rparr>"
    have p: "kv1 = tick kv" "position kv p" "kv_map kv key = Some (entry_at kv p)" using fl(2) Some by simp_all
    have en: "entry_at kv2 p = entry_at kv p" by (simp add: kv2_def p(1))
    have in_kv: "entry_at kv p \<in> set (all_entries kv)" "e_key (entry_at kv p) = key"
      using p(3) kv_map_iff [OF assms(1)] by simp_all
    have e: "?e = stored kv key v ttl" using in_kv all_entries_bucket(2) [OF assms(1) in_kv(1)] s by simp
    have "kv' = put_entry kv3 p ?e" "ok"
      using assms(4) f d Some en by (simp_all add: set_locked_def Let_def kv3_def)
    moreover have "kv_ok (put_entry kv3 p ?e) \<and> kv_map (put_entry kv3 p ?e) = (kv_map kv3)(e_key ?e \<mapsto> ?e)"
      using p k3 assms(3) by (intro put_ok) simp_all
    ultimately show ?thesis using e k3(2,3) p(1) in_kv(2) by simp
  next
    case None
    have l: "live_entry kv (next_time kv) key = None" using fl(2) None by simp
    then have m1: "kv_map kv1 = (kv_map kv)(key := None)" using fl(1) by (simp add: searched_def)
    obtain g h1 where g: "malloc (kv_heap kv3) entry_bytes = (g, h1)" by fastforce
    obtain k h2 where k: "nyxj_strdup h1 (Some key) = (k, h2)" by fastforce
    have sl: "set_locked kv key v ttl =
        (if \<not> g then (False, kv3\<lparr>kv_heap := h1\<rparr>)
         else case k of None \<Rightarrow> (False, kv3\<lparr>kv_heap := h2\<rparr>)
           | Some k \<Rightarrow>
             let kv = insert_entry (kv3\<lparr>kv_heap := h2\<rparr>) \<lparr>e_key = k, e_hash = hash_key key, e_value = v, expires_at = x\<rparr>
             in (True, if kv_count kv > nbuckets kv * 3 div 4 then grow_locked kv else kv))"
      unfolding set_locked_def f Let_def prod.case d kv3_def [symmetric] None option.case kv_malloc_simps g fst_conv snd_conv
      using k by (simp split: option.split)
    have total: "g \<and> k \<noteq> None \<and> heap_total h2" if "heap_total (kv_heap kv)"
      using malloc_total [OF that, of entry_bytes] g k k3(3) nyxj_strdup_total [of h1 key] assms(2) by auto
    show ?thesis
    proof (cases "g \<and> k \<noteq> None")
      case False
      then have "\<not> ok" "kv' = kv3\<lparr>kv_heap := h1\<rparr> \<or> kv' = kv3\<lparr>kv_heap := h2\<rparr>"
        using sl assms(4) by (auto split: if_splits option.splits)
      then show ?thesis using l m1 k3 total False by auto
    next
      case True
      let ?e = "stored kv key v ttl" and ?kv = "kv3\<lparr>kv_heap := h2\<rparr>"
      have "k = Some key" using True nyxj_strdup_Some [OF assms(2)] k by auto
      then have kv': "ok" "kv' = (let kv = insert_entry ?kv ?e in if kv_count kv > nbuckets kv * 3 div 4 then grow_locked kv else kv)"
        using sl assms(4) True s by (simp_all add: Let_def)
      have "kv_ok (insert_entry ?kv ?e) \<and> kv_map (insert_entry ?kv ?e) = (kv_map ?kv)(e_key ?e \<mapsto> ?e)"
        using k3 m1 assms(2,3) by (intro insert_ok) (simp_all add: s)
      then have "kv_ok kv' \<and> kv_map kv' = (kv_map ?kv)(e_key ?e \<mapsto> ?e)"
        using grow_ok [of "insert_entry ?kv ?e"] unfolding kv'(2) Let_def by auto
      moreover have "heap_total (kv_heap kv')" if "heap_total (kv_heap kv)"
        using total [OF that] grow_total [of "insert_entry ?kv ?e"] unfolding kv'(2) Let_def by simp
      ultimately show ?thesis using kv'(1) k3(2) m1 s by simp
    qed
  qed
  then show "kv_ok kv'" "ok \<Longrightarrow> kv_map kv' = (kv_map kv)(key \<mapsto> stored kv key v ttl)"
    "\<not> ok \<Longrightarrow> kv_map kv' = (kv_map kv)(key := None) \<and> live_entry kv (next_time kv) key = None"
    "heap_total (kv_heap kv) \<Longrightarrow> ok \<and> heap_total (kv_heap kv')" by blast+
qed

subsection \<open>The public operations on the map\<close>

lemma kv_clone_simps: "kv_clone kv v = (fst (clone_value (kv_heap kv) v), kv\<lparr>kv_heap := snd (clone_value (kv_heap kv) v)\<rparr>)"
  by (simp add: kv_clone_def nyxj_clone_def split: prod.split)

lemma tick_heap [simp]: "tick (kv\<lparr>kv_heap := h\<rparr>) = (tick kv)\<lparr>kv_heap := h\<rparr>"
  by (simp add: tick_def nyxj_now_ms_def)

lemma live_updates [simp]:
  "live_entry (kv\<lparr>kv_heap := h\<rparr>) = live_entry kv" "live_entry (kv\<lparr>kv_stats := s\<rparr>) = live_entry kv"
  by (simp_all add: live_entry_def fun_eq_iff)

lemma kv_set_map:
  assumes "kv_ok kv" "no_nul key" "c_strings v" "nyxj_kv_set kv key v ttl = (ok, kv')"
  shows "kv_ok kv'"
    "ok \<Longrightarrow> \<exists>w. abs_value w = abs_value v \<and> kv_map kv' = (kv_map kv)(key \<mapsto> stored kv key w ttl)"
    "\<not> ok \<Longrightarrow> kv_map kv' = kv_map kv \<or> kv_map kv' = (kv_map kv)(key := None) \<and> live_entry kv (next_time kv) key = None"
    "heap_total (kv_heap kv) \<Longrightarrow> ok \<and> heap_total (kv_heap kv')"
proof -
  obtain c h where c: "clone_value (kv_heap kv) v = (c, h)" by fastforce
  let ?kv = "kv\<lparr>kv_heap := h\<rparr>"
  have st: "stored ?kv key w ttl = stored kv key w ttl" for w by (simp add: stored_def)
  have "kv_ok kv' \<and>
    (ok \<longrightarrow> (\<exists>w. abs_value w = abs_value v \<and> kv_map kv' = (kv_map kv)(key \<mapsto> stored kv key w ttl))) \<and>
    (\<not> ok \<longrightarrow> kv_map kv' = kv_map kv \<or> kv_map kv' = (kv_map kv)(key := None) \<and> live_entry kv (next_time kv) key = None) \<and>
    (heap_total (kv_heap kv) \<longrightarrow> ok \<and> heap_total (kv_heap kv'))"
  proof (cases c)
    case None
    then show ?thesis
      using assms c clone_total(1) [of "kv_heap kv" v] by (auto simp: nyxj_kv_set_def kv_clone_simps)
  next
    case (Some w)
    have w: "abs_value w = abs_value v" "c_strings w" using clone_sound(1) [OF assms(3)] c Some by auto
    have sl: "set_locked ?kv key w ttl = (ok, kv')" using assms(4) c Some by (simp add: nyxj_kv_set_def kv_clone_simps)
    have ok: "kv_ok ?kv" using assms(1) by simp
    have t: "heap_total h" if "heap_total (kv_heap kv)" using clone_total(1) [OF that assms(3)] c by auto
    from set_locked_map [OF ok assms(2) w(2) sl] show ?thesis using w(1) st t by auto
  qed
  then show "kv_ok kv'"
    "ok \<Longrightarrow> \<exists>w. abs_value w = abs_value v \<and> kv_map kv' = (kv_map kv)(key \<mapsto> stored kv key w ttl)"
    "\<not> ok \<Longrightarrow> kv_map kv' = kv_map kv \<or> kv_map kv' = (kv_map kv)(key := None) \<and> live_entry kv (next_time kv) key = None"
    "heap_total (kv_heap kv) \<Longrightarrow> ok \<and> heap_total (kv_heap kv')" by blast+
qed

text \<open>The map after a search.\<close>

definition pruned :: "nyxj_kv \<Rightarrow> string \<Rightarrow> string \<Rightarrow> kv_entry option" where
  "pruned kv key = (if live_entry kv (next_time kv) key = None then (kv_map kv)(key := None) else kv_map kv)"

lemma kv_get_map:
  assumes "kv_ok kv" "nyxj_kv_get kv key = (out, kv')"
  shows "kv_ok kv'" "kv_map kv' = pruned kv key"
    "out = Some w \<Longrightarrow> \<exists>e. live_entry kv (next_time kv) key = Some e \<and> abs_value w = abs_value (e_value e)"
    "heap_total (kv_heap kv) \<Longrightarrow> out = None \<longleftrightarrow> live_entry kv (next_time kv) key = None"
proof -
  obtain r kv1 where f: "find_locked kv key = (r, kv1)" by fastforce
  note fl = find_locked_map [OF assms(1) f]
  have "kv_ok kv' \<and> kv_map kv' = pruned kv key \<and>
    (out = Some w \<longrightarrow> (\<exists>e. live_entry kv (next_time kv) key = Some e \<and> abs_value w = abs_value (e_value e))) \<and>
    (heap_total (kv_heap kv) \<longrightarrow> out = None \<longleftrightarrow> live_entry kv (next_time kv) key = None)"
  proof (cases r)
    case None
    then show ?thesis using fl assms(2) f by (auto simp: nyxj_kv_get_def searched_def pruned_def)
  next
    case (Some p)
    have p: "kv1 = tick kv" "live_entry kv (next_time kv) key = Some (entry_at kv p)" "kv_map kv key = Some (entry_at kv p)"
      using fl(2) Some by simp_all
    have "entry_at kv p \<in> set (all_entries kv)" using p(3) kv_map_iff [OF assms(1)] by simp
    from all_entries_bucket(4) [OF assms(1) this] have cs: "c_strings (e_value (entry_at kv p))" .
    obtain c h where c: "clone_value (kv_heap kv) (e_value (entry_at kv p)) = (c, h)" by fastforce
    have "out = c" "kv_ok kv' \<and> kv_map kv' = kv_map kv"
      using assms f Some p(1) c by (auto simp: nyxj_kv_get_def kv_clone_simps Let_def)
    then show ?thesis
      using p(2) clone_sound(1) [OF cs, of "kv_heap kv" w h] clone_total(1) [OF _ cs, of "kv_heap kv"] c
      by (auto simp: pruned_def)
  qed
  then show "kv_ok kv'" "kv_map kv' = pruned kv key"
    "out = Some w \<Longrightarrow> \<exists>e. live_entry kv (next_time kv) key = Some e \<and> abs_value w = abs_value (e_value e)"
    "heap_total (kv_heap kv) \<Longrightarrow> out = None \<longleftrightarrow> live_entry kv (next_time kv) key = None" by blast+
qed

lemma kv_del_map:
  assumes "kv_ok kv" "nyxj_kv_del kv key = (found, kv')"
  shows "kv_ok kv'" "kv_map kv' = (kv_map kv)(key := None)" "found \<longleftrightarrow> live_entry kv (next_time kv) key \<noteq> None"
proof -
  obtain r kv1 where f: "find_locked kv key = (r, kv1)" by fastforce
  note fl = find_locked_map [OF assms(1) f]
  have "kv_ok kv' \<and> kv_map kv' = (kv_map kv)(key := None) \<and> (found \<longleftrightarrow> live_entry kv (next_time kv) key \<noteq> None)"
  proof (cases r)
    case None
    then show ?thesis using fl assms(2) f by (auto simp: nyxj_kv_del_def searched_def)
  next
    case (Some p)
    have p: "kv1 = tick kv" "position kv p" "live_entry kv (next_time kv) key = Some (entry_at kv p)" "e_key (entry_at kv p) = key"
      using fl(2) Some kv_map_iff [OF assms(1)] by auto
    then show ?thesis using unlink_ok [of "tick kv" p] assms f Some by (simp add: nyxj_kv_del_def)
  qed
  then show "kv_ok kv'" "kv_map kv' = (kv_map kv)(key := None)" "found \<longleftrightarrow> live_entry kv (next_time kv) key \<noteq> None" by blast+
qed

lemma kv_exists_map:
  assumes "kv_ok kv" "nyxj_kv_exists kv key = (found, kv')"
  shows "kv_ok kv' \<and> kv_map kv' = pruned kv key \<and> (found \<longleftrightarrow> live_entry kv (next_time kv) key \<noteq> None)"
proof -
  obtain r kv1 where f: "find_locked kv key = (r, kv1)" by fastforce
  show ?thesis
    using find_locked_map [OF assms(1) f] assms(2) f
    by (cases r) (auto simp: nyxj_kv_exists_def searched_def pruned_def)
qed

lemma kv_expire_map:
  assumes "kv_ok kv" "nyxj_kv_expire kv key ttl = (found, kv')"
  shows "kv_ok kv'"
    "live_entry kv (next_time kv) key = Some e \<Longrightarrow>
       found \<and> kv_map kv' = (kv_map kv)(key \<mapsto> e\<lparr>expires_at := (if ttl \<noteq> 0 then next_time (tick kv) + ttl else 0)\<rparr>)"
    "live_entry kv (next_time kv) key = None \<Longrightarrow> \<not> found \<and> kv_map kv' = (kv_map kv)(key := None)"
proof -
  obtain r kv1 where f: "find_locked kv key = (r, kv1)" by fastforce
  note fl = find_locked_map [OF assms(1) f]
  have "kv_ok kv' \<and> (live_entry kv (next_time kv) key = Some e \<longrightarrow>
       found \<and> kv_map kv' = (kv_map kv)(key \<mapsto> e\<lparr>expires_at := (if ttl \<noteq> 0 then next_time (tick kv) + ttl else 0)\<rparr>)) \<and>
    (live_entry kv (next_time kv) key = None \<longrightarrow> \<not> found \<and> kv_map kv' = (kv_map kv)(key := None))"
  proof (cases r)
    case None
    then show ?thesis using fl assms(2) f by (auto simp: nyxj_kv_expire_def searched_def)
  next
    case (Some p)
    have p: "kv1 = tick kv" "position kv p" "live_entry kv (next_time kv) key = Some (entry_at kv p)"
      "entry_at kv p \<in> set (all_entries kv)" "e_key (entry_at kv p) = key"
      using fl(2) Some kv_map_iff [OF assms(1)] by auto
    let ?x = "if ttl \<noteq> 0 then next_time (tick kv) + ttl else 0"
    let ?kv = "if ttl \<noteq> 0 then tick (tick kv) else tick kv" and ?e = "(entry_at kv p)\<lparr>expires_at := ?x\<rparr>"
    have kv': "found" "kv' = put_entry ?kv p ?e"
      using assms(2) f Some p(1) by (simp_all add: nyxj_kv_expire_def deadline_tick split: if_splits)
    have "kv_ok (put_entry ?kv p ?e) \<and> kv_map (put_entry ?kv p ?e) = (kv_map ?kv)(e_key ?e \<mapsto> ?e)"
      using p assms(1) all_entries_bucket(4) [OF assms(1) p(4)] by (intro put_ok) simp_all
    then show ?thesis using kv' p(3,5) by auto
  qed
  then show "kv_ok kv'"
    "live_entry kv (next_time kv) key = Some e \<Longrightarrow>
       found \<and> kv_map kv' = (kv_map kv)(key \<mapsto> e\<lparr>expires_at := (if ttl \<noteq> 0 then next_time (tick kv) + ttl else 0)\<rparr>)"
    "live_entry kv (next_time kv) key = None \<Longrightarrow> \<not> found \<and> kv_map kv' = (kv_map kv)(key := None)" by blast+
qed

lemma kv_incr_map:
  assumes "kv_ok kv" "no_nul key" "nyxj_kv_incr kv key delta = (out, kv')"
  shows "kv_ok kv'"
    "live_entry kv (next_time kv) key = Some e \<Longrightarrow>
       (case e_value e of
          VNumber fl n \<Rightarrow> out = Some (dbl_add n delta) \<and> kv_map kv' = (kv_map kv)(key \<mapsto> e\<lparr>e_value := VNumber fl (dbl_add n delta)\<rparr>)
        | _ \<Rightarrow> out = None \<and> kv_map kv' = kv_map kv)"
    "live_entry kv (next_time kv) key = None \<Longrightarrow>
       (case out of
          Some d \<Rightarrow> d = delta \<and> kv_map kv' = (kv_map kv)(key \<mapsto> stored kv key (VNumber False delta) 0)
        | None \<Rightarrow> kv_map kv' = (kv_map kv)(key := None))"
proof -
  obtain r kv1 where f: "find_locked kv key = (r, kv1)" by fastforce
  note fl = find_locked_map [OF assms(1) f]
  have "kv_ok kv' \<and> (live_entry kv (next_time kv) key = Some e \<longrightarrow>
       (case e_value e of
          VNumber fl n \<Rightarrow> out = Some (dbl_add n delta) \<and> kv_map kv' = (kv_map kv)(key \<mapsto> e\<lparr>e_value := VNumber fl (dbl_add n delta)\<rparr>)
        | _ \<Rightarrow> out = None \<and> kv_map kv' = kv_map kv)) \<and>
    (live_entry kv (next_time kv) key = None \<longrightarrow>
       (case out of
          Some d \<Rightarrow> d = delta \<and> kv_map kv' = (kv_map kv)(key \<mapsto> stored kv key (VNumber False delta) 0)
        | None \<Rightarrow> kv_map kv' = (kv_map kv)(key := None)))"
  proof (cases r)
    case (Some p)
    have p: "kv1 = tick kv" "position kv p" "live_entry kv (next_time kv) key = Some (entry_at kv p)" "e_key (entry_at kv p) = key"
      using fl(2) Some kv_map_iff [OF assms(1)] by auto
    have put: "kv_ok (put_entry (tick kv) p x) \<and> kv_map (put_entry (tick kv) p x) = (kv_map kv)(e_key x \<mapsto> x)"
      if "x = (entry_at kv p)\<lparr>e_value := VNumber fl n\<rparr>" for x fl n
      using put_ok [of "tick kv" p x] assms(1) p(2) that by simp
    show ?thesis
      using assms(1,3) f Some p put by (cases "e_value (entry_at kv p)") (auto simp: nyxj_kv_incr_def)
  next
    case None
    have k1: "kv_ok kv1" "kv_map kv1 = (kv_map kv)(key := None)" "live_entry kv (next_time kv) key = None"
      using fl None by (simp_all add: searched_def)
    obtain v h where v: "nyxj_new_number (kv_heap kv1) delta = (v, h)" by fastforce
    show ?thesis
    proof (cases v)
      case None: None
      then show ?thesis using k1 assms(3) f \<open>r = None\<close> v by (auto simp: nyxj_kv_incr_def)
    next
      case (Some w)
      have w: "w = VNumber False delta" using v Some new_value_Some by (simp add: nyxj_new_number_def)
      obtain ok kv2 where s: "set_locked (kv1\<lparr>kv_heap := h\<rparr>) key w 0 = (ok, kv2)" by fastforce
      have out: "out = (if ok then Some delta else None)" "kv' = kv2"
        using assms(3) f None v Some s by (auto simp: nyxj_kv_incr_def)
      have ok1: "kv_ok (kv1\<lparr>kv_heap := h\<rparr>)" using k1(1) by simp
      have st: "stored (kv1\<lparr>kv_heap := h\<rparr>) key w 0 = stored kv key w 0" by (simp add: stored_def)
      from set_locked_map [OF ok1 assms(2) _ s] show ?thesis
        unfolding st using k1 out w by (cases ok) auto
    qed
  qed
  then show "kv_ok kv'"
    "live_entry kv (next_time kv) key = Some e \<Longrightarrow>
       (case e_value e of
          VNumber fl n \<Rightarrow> out = Some (dbl_add n delta) \<and> kv_map kv' = (kv_map kv)(key \<mapsto> e\<lparr>e_value := VNumber fl (dbl_add n delta)\<rparr>)
        | _ \<Rightarrow> out = None \<and> kv_map kv' = kv_map kv)"
    "live_entry kv (next_time kv) key = None \<Longrightarrow>
       (case out of
          Some d \<Rightarrow> d = delta \<and> kv_map kv' = (kv_map kv)(key \<mapsto> stored kv key (VNumber False delta) 0)
        | None \<Rightarrow> kv_map kv' = (kv_map kv)(key := None))" by blast+
qed

lemma kv_ttl_map:
  assumes "kv_ok kv" "nyxj_kv_ttl kv key = (left, kv')"
  shows "kv_ok kv' \<and> kv_map kv' = pruned kv key \<and>
    (case live_entry kv (next_time kv) key of
       None \<Rightarrow> left = -2
     | Some e \<Rightarrow> left = (if expires_at e = 0 then -1 else max 0 (sint (expires_at e) - sint (next_time (tick kv)))))"
proof -
  obtain r kv1 where f: "find_locked kv key = (r, kv1)" by fastforce
  note fl = find_locked_map [OF assms(1) f]
  show ?thesis
  proof (cases r)
    case None
    then show ?thesis using fl assms(2) f by (simp add: nyxj_kv_ttl_def searched_def pruned_def)
  next
    case (Some p)
    then show ?thesis
      using fl assms f by (auto simp: nyxj_kv_ttl_def pruned_def now_ms_tick Let_def split: if_splits)
  qed
qed

lemma filter_concat_length: "length (concat (map (filter P) bs)) = length (concat bs) - length (filter (\<lambda>e. \<not> P e) (concat bs))"
proof -
  have "length (concat bs) = length (filter P (concat bs)) + length (filter (\<lambda>e. \<not> P e) (concat bs))"
    by (rule sum_length_filter_compl [symmetric])
  then show ?thesis by (simp add: filter_concat)
qed

lemma kv_sweep_map:
  assumes "kv_ok kv" "nyxj_kv_sweep kv = (removed, kv')"
  shows "kv_ok kv' \<and> kv_map kv' = live_entry kv (next_time kv) \<and>
    removed = length (filter (\<lambda>e. expired e (next_time kv)) (all_entries kv))"
proof -
  let ?t = "next_time kv"
  let ?keep = "\<lambda>e. \<not> expired e ?t"
  define kv1 where "kv1 = (tick kv)\<lparr>buckets := map (filter ?keep) (buckets kv),
    kv_count := kv_count kv - length (filter (\<lambda>e. expired e ?t) (all_entries kv)),
    kv_stats := (kv_stats kv)\<lparr>expired_keys := expired_keys (kv_stats kv) + word_of_nat (length (filter (\<lambda>e. expired e ?t) (all_entries kv)))\<rparr>\<rparr>"
  have kv': "kv' = kv1" "removed = length (filter (\<lambda>e. expired e ?t) (all_entries kv))"
    using assms(2) by (auto simp: nyxj_kv_sweep_def now_ms_tick Let_def kv1_def all_entries_def)
  have a: "all_entries kv1 = filter ?keep (all_entries kv)" by (simp add: kv1_def all_entries_def filter_concat)
  have "distinct (map e_key (all_entries kv1))" using assms(1) by (simp add: a kv_ok_def distinct_map_filter)
  moreover have "kv_count kv1 = length (all_entries kv1)"
    using filter_concat_length [of ?keep "buckets kv"] assms(1) by (simp add: kv1_def all_entries_def kv_ok_def)
  ultimately have ok: "kv_ok kv1" using assms(1) by (auto simp: kv_ok_def kv1_def nbuckets_def)
  have "kv_map kv1 = live_entry kv ?t"
  proof (rule kv_map_eqI [OF ok])
    fix k e
    show "live_entry kv ?t k = Some e \<longleftrightarrow> e \<in> set (all_entries kv1) \<and> e_key e = k"
      using kv_map_iff [OF assms(1), of k e] by (cases "kv_map kv k") (auto simp: a live_entry_def)
  qed
  then show ?thesis using ok kv' by simp
qed

lemma kv_clear_map: "kv_ok kv \<Longrightarrow> kv_ok (nyxj_kv_clear kv) \<and> kv_map (nyxj_kv_clear kv) = (\<lambda>_. None)"
proof -
  assume ok: "kv_ok kv"
  have a: "all_entries (nyxj_kv_clear kv) = []"
    by (simp add: nyxj_kv_clear_def clear_locked_def all_entries_def)
  show ?thesis
    using ok unfolding kv_ok_def kv_map_def a by (simp add: nyxj_kv_clear_def clear_locked_def nbuckets_def)
qed

lemma kv_create_map:
  assumes "nyxj_kv_create h c n cap = Some (Some kv)"
  shows "kv_ok kv \<and> kv_map kv = (\<lambda>_. None)"
proof -
  obtain m where m: "table_size 16 cap = Some m" "buckets kv = replicate (unat m) []" "kv_count kv = 0"
    using assms by (auto simp: nyxj_kv_create_def malloc_def Let_def split: if_splits)
  have "cap \<le> 2 ^ 63" using m(1) table_size_loops [of cap 4] by (force simp: not_le [symmetric])
  from table_size_fits [OF this, of 4] obtain j where j: "m = 2 ^ j" "j \<le> 63" using m(1) by auto
  have a: "all_entries kv = []" by (simp add: all_entries_def m)
  have "nbuckets kv = 2 ^ j" using m(2) j unat_two_power [of j] by (simp add: nbuckets_def)
  then show ?thesis using m unfolding kv_ok_def kv_map_def a by (auto simp: nbuckets_def)
qed

subsection \<open>Listing the keys\<close>

lemma push_keys:
  "heap_total h \<Longrightarrow> \<forall>e \<in> set es. no_nul (e_key e) \<Longrightarrow>
   \<exists>cap' h'. foldl push_key (VArray False xs cap, h) es = (VArray False (xs @ map (\<lambda>e. VString False (e_key e)) es) cap', h') \<and>
     heap_total h'"
proof (induction es arbitrary: xs cap h)
  case (Cons e es)
  obtain h1 where s: "nyxj_new_string h (Some (e_key e)) = (Some (VString False (e_key e)), h1)" "heap_total h1"
    using nyxj_new_string_total [OF Cons.prems(1), of "e_key e"] Cons.prems(2) by auto
  obtain cap2 h2 where p: "nyxj_array_push h1 (VArray False xs cap) (Some (VString False (e_key e))) =
      (True, VArray False (xs @ [VString False (e_key e)]) cap2, h2)" "heap_total h2"
    using nyxj_array_push_total [OF s(2)] by blast
  have "push_key (VArray False xs cap, h) e = (VArray False (xs @ [VString False (e_key e)]) cap2, h2)"
    using s(1) p(1) by (simp add: push_key_def)
  then show ?case using Cons.IH [OF p(2), of "xs @ [VString False (e_key e)]" cap2] Cons.prems(2) by simp
qed simp

lemma string_of_VString [simp]: "string_of (VString fl s) = s"
  by (simp add: string_of_def)

lemma sort_key_map: "map f (sort_key f xs) = sort (map f xs)"
  by (rule properties_for_sort [symmetric]) (simp_all only: mset_map mset_sort sorted_sort_key)

lemma kv_keys_sorted:
  assumes "kv_ok kv" "heap_total (kv_heap kv)"
  shows "\<exists>xs cap kv'. nyxj_kv_keys kv pfx = (Some (VArray False xs cap), kv') \<and> kv_ok kv' \<and> kv_map kv' = kv_map kv \<and>
    heap_total (kv_heap kv') \<and> kv_clock kv' = kv_clock (tick kv) \<and>
    (\<forall>x \<in> set xs. \<exists>s. x = VString False s) \<and>
    map string_of xs = sorted_list_of_set {k. live_entry kv (next_time kv) k \<noteq> None \<and> starts_with (case pfx of None \<Rightarrow> [] | Some s \<Rightarrow> s) k}"
proof -
  let ?pre = "case pfx of None \<Rightarrow> [] | Some s \<Rightarrow> s"
  define es where "es = filter (\<lambda>e. \<not> expired e (next_time kv) \<and> (?pre = [] \<or> starts_with ?pre (e_key e))) (all_entries kv)"
  define items where "items = map (\<lambda>e. VString False (e_key e)) es"
  obtain h1 where a: "nyxj_new_array (kv_heap kv) = (Some (VArray False [] 0), h1)" "heap_total h1"
    using new_value_total [OF assms(2)] unfolding nyxj_new_array_def by blast
  have nul: "\<forall>e \<in> set es. no_nul (e_key e)" using all_entries_bucket(3) [OF assms(1)] by (simp add: es_def)
  obtain cap h2 where p: "foldl push_key (VArray False [] 0, h1) es = (VArray False items cap, h2)" "heap_total h2"
    using push_keys [OF a(2) nul, of "[]" 0] by (auto simp: items_def)
  let ?kv = "(tick kv)\<lparr>kv_heap := h2\<rparr>"
  have r: "nyxj_kv_keys kv pfx = (Some (VArray False (sort_key string_of items) cap), ?kv)"
    using a(1) p(1) by (simp add: nyxj_kv_keys_def now_ms_tick Let_def es_def all_entries_def sort_strings_def)
  have "map string_of (sort_key string_of items) = sort (map e_key es)"
    unfolding sort_key_map by (simp add: items_def comp_def)
  also have "\<dots> = sorted_list_of_set (e_key ` set es)"
  proof -
    have "distinct (map e_key es)" using assms(1) by (simp add: es_def kv_ok_def distinct_map_filter)
    then show ?thesis by (metis distinct_sort set_map set_sort sorted_list_of_set.idem_if_sorted_distinct sorted_sort)
  qed
  also have "e_key ` set es = {k. live_entry kv (next_time kv) k \<noteq> None \<and> starts_with ?pre k}" (is "?l = ?r")
  proof
    have "kv_map kv (e_key e) = Some e" if "e \<in> set es" for e using that kv_map_iff [OF assms(1)] by (simp add: es_def)
    then show "?l \<subseteq> ?r" by (auto simp: es_def live_entry_def)
    show "?r \<subseteq> ?l"
    proof
      fix k
      assume k: "k \<in> ?r"
      then obtain e where "kv_map kv k = Some e" "\<not> expired e (next_time kv)"
        by (auto simp: live_entry_def split: option.splits if_splits)
      then show "k \<in> ?l" using k kv_map_iff [OF assms(1)] by (force simp: es_def)
    qed
  qed
  finally show ?thesis using r assms(1) p(2) by (intro exI) (auto simp: items_def)
qed

end
