(* ===== verification/Double_Ops_Facts.thy ===== *)
theory Double_Ops_Facts
  imports Double_Ops Text_Facts
begin

text \<open>Integers below \<open>2 ^ 53\<close> are doubles: the casts in both directions are exact on them.\<close>

lemma quotient_remainder:
  "r < K \<Longrightarrow> (a * K + r) div K = (a :: nat)" "r < K \<Longrightarrow> (a * K + r) mod K = r"
  by simp_all

lemma mag_of_nat:
  assumes "0 < n" "n < 2 ^ 53"
  obtains m where "mag_key m = n * 2 ^ 1074" "0 < m" "m < inf_mag"
proof -
  define j where "j = bits_of n - 1"
  have b: "bits_of n \<le> 53" "0 < bits_of n" using assms bits_of_le bits_of_pos by auto
  have j: "j \<le> 52" using b by (simp add: j_def)
  have lo: "2 ^ j \<le> n"
  proof (rule ccontr)
    assume "\<not> 2 ^ j \<le> n"
    then have "bits_of n \<le> j" by (intro bits_of_le) simp
    then show False using b(2) by (simp add: j_def)
  qed
  have hi: "n < 2 ^ Suc j"
  proof (rule ccontr)
    assume "\<not> n < 2 ^ Suc j"
    then have "Suc (Suc j) \<le> bits_of n" by (intro bits_of_ge) simp
    then show False using b(2) by (simp add: j_def)
  qed
  define M where "M = n * 2 ^ (52 - j)"
  have e: "2 ^ j * 2 ^ (52 - j) = (2 :: nat) ^ 52" "2 ^ Suc j * 2 ^ (52 - j) = (2 :: nat) ^ 53"
    unfolding power_add [symmetric] using j by simp_all
  have "2 ^ j * 2 ^ (52 - j) \<le> M" unfolding M_def by (rule mult_le_mono1 [OF lo])
  moreover have "M < 2 ^ Suc j * 2 ^ (52 - j)" unfolding M_def by (rule mult_less_mono1 [OF hi]) simp
  ultimately have M: "2 ^ 52 \<le> M" "M < 2 ^ 53" unfolding e by simp_all
  define m where "m = (1023 + j) * 2 ^ 52 + (M - 2 ^ 52)"
  have f: "m div 2 ^ 52 = 1023 + j" "m mod 2 ^ 52 = M - 2 ^ 52"
    unfolding m_def using M by (intro quotient_remainder; simp)+
  have "mag_key m = M * 2 ^ (1022 + j)" unfolding mag_key_def Let_def f using M by simp
  also have "\<dots> = n * (2 ^ (52 - j) * 2 ^ (1022 + j))" by (simp add: M_def)
  also have "(2 :: nat) ^ (52 - j) * 2 ^ (1022 + j) = 2 ^ 1074" using j by (simp flip: power_add)
  finally have "mag_key m = n * 2 ^ 1074" .
  moreover have "0 < m" by (simp add: m_def)
  moreover have "m < inf_mag"
  proof -
    have "m < (1023 + j + 1) * 2 ^ 52" using M by (simp add: m_def)
    also have "\<dots> \<le> inf_mag" using j by (simp add: inf_mag_def)
    finally show ?thesis .
  qed
  ultimately show thesis by (rule that)
qed

lemma dbl_of_nat_exact:
  assumes "n < 2 ^ 53"
  shows "dbl_key (dbl_of_nat n) = int n * 2 ^ 1074" "dbl_is_finite (dbl_of_nat n)" "dbl_trunc (dbl_of_nat n) = int n"
proof -
  have "dbl_key (dbl_of_nat n) = int n * 2 ^ 1074 \<and> dbl_is_finite (dbl_of_nat n) \<and> dbl_trunc (dbl_of_nat n) = int n"
  proof (cases "n = 0")
    case True
    have "dbl_of_nat 0 = 0" using dbl_of_int_0 by (simp add: dbl_of_int_def dbl_of_nat_def)
    then show ?thesis using True by (simp add: dbl_key_def dbl_is_finite_def dbl_trunc_def dbl_mag_def mag_key_def inf_mag_def)
  next
    case False
    then obtain m where m: "mag_key m = n * 2 ^ 1074" "0 < m" "m < inf_mag" using mag_of_nat assms by blast
    have "ratio_mag n 1 = m" using m by (intro ratio_mag_near) simp_all
    then have d: "dbl_of_nat n = dbl_pack False m" by (simp add: dbl_of_nat_def dbl_of_ratio_def)
    have "m < 2 ^ 63" using m(3) by (simp add: inf_mag_def)
    then show ?thesis using m by (simp add: d dbl_key_def dbl_is_finite_def dbl_trunc_def)
  qed
  then show "dbl_key (dbl_of_nat n) = int n * 2 ^ 1074" "dbl_is_finite (dbl_of_nat n)" "dbl_trunc (dbl_of_nat n) = int n"
    by blast+
qed

lemma u64_of_double_exact: "unat w < 2 ^ 53 \<Longrightarrow> dbl_to_u64 (dbl_of_u64 w) = Some w"
proof -
  assume w: "unat w < 2 ^ 53"
  then have "int (unat w) < int (2 ^ 64)" unfolding of_nat_less_iff by simp
  then show ?thesis using dbl_of_nat_exact [OF w] by (simp add: dbl_to_u64_def dbl_of_u64_def)
qed

lemma u64_positive:
  assumes "unat w < 2 ^ 53" "w \<noteq> 0"
  shows "dbl_less 0 (dbl_of_u64 w)"
proof -
  have "0 < unat w" using assms(2) by (metis neq0_conv unsigned_eq_0_iff)
  then have "int 0 < int (unat w)" unfolding of_nat_less_iff .
  then have "0 < dbl_key (dbl_of_u64 w)" unfolding dbl_of_u64_def dbl_of_nat_exact(1) [OF assms(1)] by simp
  moreover have "\<not> dbl_is_nan (dbl_of_u64 w)"
    using dbl_of_nat_exact(2) [OF assms(1)] by (simp add: dbl_of_u64_def dbl_is_finite_def dbl_is_nan_def)
  ultimately show ?thesis by (simp add: dbl_less_def dbl_is_nan_def dbl_key_def dbl_mag_zero mag_key_def inf_mag_def)
qed
end
