(* ===== verification/Kv_Store_Facts.thy ===== *)
theory Kv_Store_Facts
  imports Kv_Store Kv_Facts Double_Ops_Facts Serializer_Facts
begin

text \<open>
  Saving never leaves a torn file at the path; what is saved and loaded again is the map of the live keys with
  their remaining times.
\<close>

subsection \<open>The file\<close>

lemma tmp_path_differs [simp]: "tmp_path path \<noteq> path" "path \<noteq> tmp_path path"
  by (simp_all add: tmp_path_def)

lemma write_snapshot_states:
  assumes "write_snapshot io d path content = (ok, ds)" "s \<in> set ds"
  shows "s path \<in> {d path, None, Some content}" "p \<notin> {path, tmp_path path} \<Longrightarrow> s p = d p"
  using assms by (auto simp: write_snapshot_def Let_def split: if_splits)

lemma write_snapshot_end:
  assumes "write_snapshot io d path content = (ok, ds)"
  shows "ds \<noteq> []" "hd ds (tmp_path path) = None" "ok \<Longrightarrow> hd ds path = Some content"
    "opens io \<Longrightarrow> length content \<le> written_bytes io \<Longrightarrow> closes io \<Longrightarrow> \<not> renames io \<Longrightarrow> hd ds path = None"
  using assms by (auto simp: write_snapshot_def Let_def hd_append hd_map hd_rev split: if_splits)

subsection \<open>The snapshot\<close>

declare nyxj_object_set.simps [simp del]

text \<open>\<open>r\<close> is the record of \<open>e\<close>, up to the copy of the value.\<close>

definition record_of :: "64 word \<Rightarrow> kv_entry \<Rightarrow> string \<times> nyxj_value \<Rightarrow> bool" where
  "record_of now e r \<longleftrightarrow> fst r = e_key e \<and>
     (\<exists>w. abs_value w = abs_value (e_value e) \<and> c_strings w \<and>
        snd r = VObject False ((''value'', w) #
          (if expires_at e \<noteq> 0 then [(''ttl_ms'', VNumber False (dbl_of_u64 (expires_at e - now)))] else [])))"

lemma record_key: "record_of now e r \<Longrightarrow> fst r = e_key e"
  by (simp add: record_of_def)

lemma literal_no_nul [simp]: "no_nul ''value''" "no_nul ''ttl_ms''"
  by (simp_all add: no_nul_def NUL_def)

lemma pairs_put_new: "k \<notin> fst ` set ps \<Longrightarrow> pairs_put ps k v = ps @ [(k, v)]"
  by (induction ps) auto

lemma snapshot_entry_total:
  assumes "heap_total h" "\<not> expired e now" "no_nul (e_key e)" "c_strings (e_value e)" "e_key e \<notin> fst ` set ps"
  shows "\<exists>r h'. snapshot_entry now (VObject False ps, h) e = (VObject False (ps @ [r]), h') \<and> heap_total h' \<and> record_of now e r"
proof -
  obtain h1 where o: "nyxj_new_object h = (Some (VObject False []), h1)" "heap_total h1"
    using new_value_total [OF assms(1)] unfolding nyxj_new_object_def by blast
  obtain w h2 where c: "clone_value h1 (e_value e) = (Some w, h2)" "heap_total h2" using clone_total(1) [OF o(2) assms(4)] by blast
  have w: "abs_value w = abs_value (e_value e)" "c_strings w" using clone_sound(1) [OF assms(4) c(1)] by simp_all
  obtain h3 where s: "nyxj_object_set h2 (VObject False []) ''value'' (Some w) = (True, VObject False [(''value'', w)], h3)" "heap_total h3"
    using nyxj_object_set_put [OF c(2) literal_no_nul(1), of "[]" w] by auto
  obtain h4 where n: "nyxj_new_number h3 (dbl_of_u64 (expires_at e - now)) = (Some (VNumber False (dbl_of_u64 (expires_at e - now))), h4)" "heap_total h4"
    using new_value_total [OF s(2)] unfolding nyxj_new_number_def by blast
  obtain h5 where t: "nyxj_object_set h4 (VObject False [(''value'', w)]) ''ttl_ms'' (Some (VNumber False (dbl_of_u64 (expires_at e - now)))) =
      (True, VObject False [(''value'', w), (''ttl_ms'', VNumber False (dbl_of_u64 (expires_at e - now)))], h5)" "heap_total h5"
    using nyxj_object_set_put [OF n(2) literal_no_nul(2), of "[(''value'', w)]"] by auto
  let ?r = "VObject False ((''value'', w) #
    (if expires_at e \<noteq> 0 then [(''ttl_ms'', VNumber False (dbl_of_u64 (expires_at e - now)))] else []))"
  let ?h = "if expires_at e \<noteq> 0 then h5 else h3"
  have hh: "heap_total ?h" using s(2) t(2) by simp
  obtain h6 where p: "nyxj_object_set ?h (VObject False ps) (e_key e) (Some ?r) = (True, VObject False (ps @ [(e_key e, ?r)]), h6)" "heap_total h6"
    using nyxj_object_set_put [OF hh assms(3), of ps ?r] unfolding pairs_put_new [OF assms(5)] by blast
  have "snapshot_entry now (VObject False ps, h) e = (VObject False (ps @ [(e_key e, ?r)]), h6)"
    using assms(2) o(1) c(1) s(1) n(1) t(1) p(1)
    by (auto simp: snapshot_entry_def nyxj_clone_def nyxj_object_set_number_def set_owned_def split: if_splits)
  then show ?thesis using p(2) w by (auto simp: record_of_def)
qed

lemma snapshot_entries_total:
  "heap_total h \<Longrightarrow> \<forall>e \<in> set es. no_nul (e_key e) \<and> c_strings (e_value e) \<Longrightarrow> distinct (map e_key es) \<Longrightarrow>
   e_key ` set es \<inter> fst ` set ps = {} \<Longrightarrow>
   \<exists>rs h'. foldl (snapshot_entry now) (VObject False ps, h) es = (VObject False (ps @ rs), h') \<and> heap_total h' \<and>
     list_all2 (record_of now) (filter (\<lambda>e. \<not> expired e now) es) rs"
proof (induction es arbitrary: ps h)
  case (Cons e es)
  show ?case
  proof (cases "expired e now")
    case True
    then have "snapshot_entry now (VObject False ps, h) e = (VObject False ps, h)" by (simp add: snapshot_entry_def)
    then show ?thesis using Cons.IH [OF Cons.prems(1), of ps] Cons.prems(2-4) True by auto
  next
    case False
    obtain r h1 where r: "snapshot_entry now (VObject False ps, h) e = (VObject False (ps @ [r]), h1)" "heap_total h1" "record_of now e r"
      using snapshot_entry_total [OF Cons.prems(1) False, of ps] Cons.prems(2,4) by auto
    have k: "fst r = e_key e" using r(3) by (simp add: record_of_def)
    have "e_key ` set es \<inter> fst ` set (ps @ [r]) = {}" using Cons.prems(3,4) k by auto
    from Cons.IH [OF r(2) _ _ this] Cons.prems(2,3) obtain rs h2 where
      "foldl (snapshot_entry now) (VObject False (ps @ [r]), h1) es = (VObject False ((ps @ [r]) @ rs), h2)" "heap_total h2"
      "list_all2 (record_of now) (filter (\<lambda>e. \<not> expired e now) es) rs" by auto
    then show ?thesis using r False by (intro exI [of _ "r # rs"]) auto
  qed
qed auto

lemma snapshot_total:
  assumes "kv_ok kv" "heap_total (kv_heap kv)"
  obtains rs kv' where "kv_snapshot kv = (Some (VObject False rs), kv')" "heap_total (kv_heap kv')" "kv_ok kv'" "kv_map kv' = kv_map kv"
    "list_all2 (record_of (next_time kv)) (filter (\<lambda>e. \<not> expired e (next_time kv)) (all_entries kv)) rs"
proof -
  obtain h1 where o: "nyxj_new_object (kv_heap kv) = (Some (VObject False []), h1)" "heap_total h1"
    using new_value_total [OF assms(2)] unfolding nyxj_new_object_def by blast
  have "\<forall>e \<in> set (all_entries kv). no_nul (e_key e) \<and> c_strings (e_value e)" "distinct (map e_key (all_entries kv))"
    using all_entries_bucket [OF assms(1)] assms(1) by (simp_all add: kv_ok_def)
  from snapshot_entries_total [OF o(2) this, of "[]" "next_time kv"] obtain rs h2 where
    "foldl (snapshot_entry (next_time kv)) (VObject False [], h1) (all_entries kv) = (VObject False rs, h2)" "heap_total h2"
    "list_all2 (record_of (next_time kv)) (filter (\<lambda>e. \<not> expired e (next_time kv)) (all_entries kv)) rs" by auto
  then show ?thesis
    using o(1) assms(1) by (intro that [of rs "(tick kv)\<lparr>kv_heap := h2\<rparr>"]) (auto simp: kv_snapshot_def now_ms_tick all_entries_def)
qed

subsection \<open>Trees that are read back\<close>

text \<open>Without sorting, what a tree is read back as depends on the abstract tree only, and so does whether it is printable.\<close>

lemma written_canon: "\<not> sort_keys s \<Longrightarrow> written s v = canon_tree (abs_value v)"
proof (induction s v rule: written.induct)
  case (6 s f ps)
  have "ordered s ps = ps" using 6(2) by (simp add: ordered_def)
  then show ?case using 6 by (auto simp: ordered_def)
qed simp_all

fun printable_tree :: "nat \<Rightarrow> json \<Rightarrow> bool" where
  "printable_tree d (JNumber n) \<longleftrightarrow> dbl_is_finite n"
| "printable_tree d (JString t) \<longleftrightarrow> no_nul t \<and> valid_utf8 t"
| "printable_tree d (JArray xs) \<longleftrightarrow> 0 < d \<and> (\<forall>x \<in> set xs. printable_tree (d - 1) x)"
| "printable_tree d (JObject ps) \<longleftrightarrow>
     0 < d \<and> distinct (map fst ps) \<and> (\<forall>(k, v) \<in> set ps. no_nul k \<and> valid_utf8 k \<and> printable_tree (d - 1) v)"
| "printable_tree d j \<longleftrightarrow> True"

lemma printable_abs: "printable d v = printable_tree d (abs_value v)"
proof (induction d v rule: printable.induct)
  case (6 d f ps)
  have "map fst (map (map_prod id abs_value) ps) = map fst ps" by (simp add: comp_def)
  then show ?case using 6 by (auto simp: comp_def)
qed auto


lemma printable_no_record: "printable_tree d j \<Longrightarrow> d \<le> e \<Longrightarrow> printable_tree e j"
proof (induction d j arbitrary: e rule: printable_tree.induct)
  case (3 d xs)
  then have "0 < e" "d - 1 \<le> e - 1" by auto
  then show ?case using 3 by auto
next
  case (4 d ps)
  then have "0 < e" "d - 1 \<le> e - 1" by auto
  then show ?case using 4 by fastforce
qed auto

subsection \<open>The text of a snapshot\<close>

lemma special_NUL: "is_special NUL"
  by (simp add: is_special_def NUL_def)

lemma encode_no_nul: "is_scalar cp \<Longrightarrow> 0x20 \<le> cp \<Longrightarrow> cp \<noteq> 0x22 \<Longrightarrow> cp \<noteq> 0x5C \<Longrightarrow> no_nul (nyxj_utf8_encode cp)"
  using encode_plain [of cp] special_NUL unfolding no_nul_def by blast

lemma escape_no_nul: "json_escape e d \<Longrightarrow> no_nul e"
proof -
  have h: "no_nul h" if "hex_quad h v" for h v using that by (auto simp: hex_quad_def hex_digit_def NUL_def)
  have s: "single_escape (CHR 0x00) = None" by (simp add: single_escape_def)
  show "json_escape e d \<Longrightarrow> no_nul e" by (cases rule: json_escape.cases) (use s in \<open>auto simp: h NUL_def\<close>)
qed

lemma json_string_no_nul: "json_string k s \<Longrightarrow> no_nul k"
proof -
  have "json_chars t s \<Longrightarrow> no_nul t" for t s by (induction rule: json_chars.induct) (simp_all add: encode_no_nul escape_no_nul)
  then show "json_string k s \<Longrightarrow> no_nul k" by (auto simp: json_string_def NUL_def)
qed

lemma blank_no_nul: "blank w \<Longrightarrow> no_nul w"
  by (induction w) (auto simp: blank_def nyxj_is_ws_def NUL_def)

lemma json_no_nul:
  "json_text d u t v \<Longrightarrow> no_nul t"
  "json_items d u t vs \<Longrightarrow> no_nul t"
  "json_members d u t ms \<Longrightarrow> no_nul t"
  by (induction rule: json_text_json_items_json_members.inducts)
    (simp_all add: json_number_no_nul json_string_no_nul blank_no_nul NUL_def)

fun c_string_tree :: "json \<Rightarrow> bool" where
  "c_string_tree (JString t) \<longleftrightarrow> no_nul t"
| "c_string_tree (JArray xs) \<longleftrightarrow> (\<forall>x \<in> set xs. c_string_tree x)"
| "c_string_tree (JObject ps) \<longleftrightarrow> (\<forall>(k, v) \<in> set ps. no_nul k \<and> c_string_tree v)"
| "c_string_tree j \<longleftrightarrow> True"

lemma c_strings_abs: "c_strings v = c_string_tree (abs_value v)"
  by (induction v rule: c_strings.induct) auto

lemma c_string_canon: "c_string_tree (canon_tree j) = c_string_tree j"
  by (induction j rule: c_string_tree.induct) auto

subsection \<open>Loading\<close>

definition later :: "nyxj_kv \<Rightarrow> nyxj_kv \<Rightarrow> bool" where
  "later kv kv' \<longleftrightarrow> time_at (kv_clock kv') = time_at (kv_clock kv) \<and> readings (kv_clock kv) \<le> readings (kv_clock kv')"

lemma later_trans: "later a b \<Longrightarrow> later b c \<Longrightarrow> later a c"
  by (auto simp: later_def)

lemma later_clock: "kv_clock b' = kv_clock b \<Longrightarrow> later a b' = later a b"
  by (simp add: later_def)

lemma later_tick: "later a b \<Longrightarrow> later a (tick b)"
  by (simp add: later_def tick_def nyxj_now_ms_def)

lemma later_next: "later a b \<Longrightarrow> \<exists>j \<ge> readings (kv_clock a). next_time b = time_at (kv_clock a) j"
  by (auto simp: later_def next_time_def nyxj_now_ms_def)

lemma set_locked_later:
  assumes "kv_ok kv" "set_locked kv key v ttl = (ok, kv')"
  shows "later kv kv'"
proof -
  obtain f kv1 where f: "find_locked kv key = (f, kv1)" by fastforce
  have k1: "kv_clock kv1 = kv_clock (tick kv)" using find_locked_map(1) [OF assms(1) f] by (simp add: searched_def)
  define kv2 where "kv2 = (if ttl \<noteq> 0 then tick kv1 else kv1)"
  have "later kv kv" by (simp add: later_def)
  then have l2: "later kv kv2" using later_tick later_clock [OF k1] by (auto simp: kv2_def)
  have "kv_clock kv' = kv_clock kv2"
    using assms(2) f
    by (auto simp: set_locked_def deadline_tick kv2_def kv_malloc_simps Let_def split: option.splits prod.splits if_splits)
  then show ?thesis using l2 later_clock by blast
qed

lemma kv_set_later:
  assumes "kv_ok kv" "nyxj_kv_set kv key v ttl = (ok, kv')"
  shows "later kv kv'"
proof -
  obtain c h where c: "clone_value (kv_heap kv) v = (c, h)" by fastforce
  have ok: "kv_ok (kv\<lparr>kv_heap := h\<rparr>)" using assms(1) by simp
  show ?thesis
    using assms(2) c set_locked_later [OF ok]
    by (cases c) (auto simp: nyxj_kv_set_def kv_clone_simps later_def)
qed

text \<open>What a pair of the tree read back says of the entry it was made from.\<close>

definition restores :: "64 word \<Rightarrow> kv_entry \<Rightarrow> string \<times> nyxj_value \<Rightarrow> bool" where
  "restores now e r \<longleftrightarrow> fst r = e_key e \<and>
     (\<exists>v. nyxj_get_member (Some (snd r)) ''value'' = Some v \<and> c_strings v \<and> abs_value v = canon_tree (abs_value (e_value e))) \<and>
     record_ttl (snd r) = Some (if expires_at e \<noteq> 0 then expires_at e - now else 0)"

text \<open>The entry a store holds after loading: the value, and the time left counted from a reading of its clock.\<close>

definition reloaded :: "64 word \<Rightarrow> nyxj_kv \<Rightarrow> kv_entry \<Rightarrow> kv_entry \<Rightarrow> bool" where
  "reloaded now kv e e' \<longleftrightarrow> e_key e' = e_key e \<and> abs_value (e_value e') = canon_tree (abs_value (e_value e)) \<and>
     (if expires_at e = 0 then expires_at e' = 0
      else \<exists>j \<ge> readings (kv_clock kv). expires_at e' = time_at (kv_clock kv) j + (expires_at e - now))"

lemma reloaded_later: "later kv kv1 \<Longrightarrow> reloaded now kv1 e e' \<Longrightarrow> reloaded now kv e e'"
  unfolding reloaded_def later_def by (metis order_trans)

lemma restore_pairs_map:
  "list_all2 (restores now) es rs \<Longrightarrow> \<forall>e \<in> set es. no_nul (e_key e) \<and> \<not> expired e now \<Longrightarrow> distinct (map e_key es) \<Longrightarrow>
   kv_ok kv \<Longrightarrow> heap_total (kv_heap kv) \<Longrightarrow>
   \<exists>kv'. restore_pairs kv rs = Some kv' \<and> kv_ok kv' \<and> heap_total (kv_heap kv') \<and> later kv kv' \<and>
     (\<forall>e \<in> set es. \<exists>e'. kv_map kv' (e_key e) = Some e' \<and> reloaded now kv e e') \<and>
     (\<forall>k. k \<notin> e_key ` set es \<longrightarrow> kv_map kv' k = kv_map kv k)"
proof (induction es rs arbitrary: kv rule: list_all2_induct)
  case Nil
  then show ?case by (simp add: later_def)
next
  case (Cons e es r rs)
  obtain k w where r: "r = (k, w)" by (cases r)
  define ttl where "ttl = (if expires_at e \<noteq> 0 then expires_at e - now else 0)"
  obtain v where v: "k = e_key e" "nyxj_get_member (Some w) ''value'' = Some v" "c_strings v"
      "abs_value v = canon_tree (abs_value (e_value e))" "record_ttl w = Some ttl"
    using Cons.hyps(1) by (auto simp: restores_def r ttl_def)
  obtain ok kv1 where s: "nyxj_kv_set kv k v ttl = (ok, kv1)" by fastforce
  have nn: "no_nul k" using Cons.prems(1) v(1) by simp
  note m = kv_set_map [OF Cons.prems(3) nn v(3) s]
  have k1: "kv_ok kv1" "heap_total (kv_heap kv1)" "ok" using m Cons.prems(4) by simp_all
  obtain u where u: "abs_value u = abs_value v" "kv_map kv1 = (kv_map kv)(k \<mapsto> stored kv k u ttl)" using m(2) [OF k1(3)] by blast
  have l1: "later kv kv1" using kv_set_later [OF Cons.prems(3) s] .
  have "expires_at e \<noteq> 0 \<Longrightarrow> ttl \<noteq> 0" using Cons.prems(1) by (auto simp: ttl_def expired_def)
  then have re: "reloaded now kv e (stored kv k u ttl)"
    using v(1,4) u(1) later_next [OF later_tick, of kv kv] by (auto simp: reloaded_def stored_def ttl_def later_def)
  from Cons.IH [of kv1] Cons.prems(1,2) k1 obtain kv' where kv':
    "restore_pairs kv1 rs = Some kv'" "kv_ok kv'" "heap_total (kv_heap kv')" "later kv1 kv'"
    "\<forall>e \<in> set es. \<exists>e'. kv_map kv' (e_key e) = Some e' \<and> reloaded now kv1 e e'"
    "\<forall>k. k \<notin> e_key ` set es \<longrightarrow> kv_map kv' k = kv_map kv1 k" by auto
  have "kv_map kv' (e_key e) = Some (stored kv k u ttl)" using kv'(6) Cons.prems(2) u(2) v(1) by simp
  then have "\<forall>e \<in> set (e # es). \<exists>e'. kv_map kv' (e_key e) = Some e' \<and> reloaded now kv e e'"
    using kv'(5) reloaded_later [OF l1] re by fastforce
  moreover have "restore_pairs kv (r # rs) = Some kv'" using r s v(2,5) kv'(1) by simp
  ultimately show ?case using kv'(2,3,6) later_trans [OF l1 kv'(4)] u(2) v(1) by auto
qed

subsection \<open>Saving and loading\<close>

text \<open>What a snapshot can hold: UTF-8 keys, finite numbers, and a time left that a double holds.\<close>

definition snapshot_fit :: "64 word \<Rightarrow> kv_entry \<Rightarrow> bool" where
  "snapshot_fit now e \<longleftrightarrow> valid_utf8 (e_key e) \<and> printable 510 (e_value e) \<and> unat (expires_at e - now) < 2 ^ 53"

lemma literal_utf8: "valid_utf8 ''value''" "valid_utf8 ''ttl_ms''"
  by (rule valid_utf8_ascii; simp)+

lemma record_printable:
  assumes "record_of now e r" "snapshot_fit now e" "no_nul (e_key e)"
  shows "no_nul (fst r) \<and> valid_utf8 (fst r) \<and> printable 511 (snd r)"
proof -
  obtain w where w: "abs_value w = abs_value (e_value e)" "snd r = VObject False ((''value'', w) #
      (if expires_at e \<noteq> 0 then [(''ttl_ms'', VNumber False (dbl_of_u64 (expires_at e - now)))] else []))" "fst r = e_key e"
    using assms(1) by (auto simp: record_of_def)
  have "printable 510 w" using assms(2) w(1) by (simp add: snapshot_fit_def printable_abs)
  moreover have "dbl_is_finite (dbl_of_u64 (expires_at e - now))"
    using assms(2) dbl_of_nat_exact(2) by (simp add: snapshot_fit_def dbl_of_u64_def)
  ultimately show ?thesis using assms(2,3) w(2,3) literal_utf8 by (simp add: snapshot_fit_def NUL_def)
qed

lemma mag_zero_not_positive: "dbl_mag d = 0 \<Longrightarrow> \<not> dbl_less 0 d"
  by (simp add: dbl_less_def dbl_key_def dbl_mag_zero mag_key_def)

lemma record_restores:
  assumes "record_of now e r" "snapshot_fit now e" "\<not> expired e now" "c_strings (e_value e)"
    "fst p = fst r" "abs_value (snd p) = canon_tree (abs_value (snd r))"
  shows "restores now e p"
proof -
  obtain w where w: "abs_value w = abs_value (e_value e)" "snd r = VObject False ((''value'', w) #
      (if expires_at e \<noteq> 0 then [(''ttl_ms'', VNumber False (dbl_of_u64 (expires_at e - now)))] else []))" "fst r = e_key e"
    using assms(1) by (auto simp: record_of_def)
  obtain fl ps where v: "snd p = VObject fl ps" using assms(6) w(2) by (cases "snd p") auto
  have ps: "map (map_prod id abs_value) ps = (''value'', canon_tree (abs_value (e_value e))) #
      (if expires_at e \<noteq> 0 then [(''ttl_ms'', JNumber (canon_number (dbl_of_u64 (expires_at e - now))))] else [])"
    using assms(6) w v by simp
  then obtain x qs where x: "ps = (''value'', x) # qs" "abs_value x = canon_tree (abs_value (e_value e))"
      "map (map_prod id abs_value) qs =
         (if expires_at e \<noteq> 0 then [(''ttl_ms'', JNumber (canon_number (dbl_of_u64 (expires_at e - now))))] else [])"
    by (cases ps) auto
  have "c_strings x" using assms(4) by (simp add: c_strings_abs x(2) c_string_canon)
  moreover have "record_ttl (snd p) = Some (if expires_at e \<noteq> 0 then expires_at e - now else 0)"
  proof (cases "expires_at e = 0")
    case True
    then show ?thesis using x by (simp add: record_ttl_def v)
  next
    case False
    let ?n = "dbl_of_u64 (expires_at e - now)"
    have n: "expires_at e - now \<noteq> 0" "unat (expires_at e - now) < 2 ^ 53"
      using assms(2,3) False by (auto simp: expired_def snapshot_fit_def)
    obtain y where y: "qs = [(''ttl_ms'', y)]" "abs_value y = JNumber (canon_number ?n)" using x(3) False by auto
    have "canon_number ?n = ?n" using u64_positive [OF n(2,1)] mag_zero_not_positive by (auto simp: canon_number_def)
    then have "\<exists>f. y = VNumber f ?n" using y(2) by (cases y) auto
    then show ?thesis using u64_of_double_exact [OF n(2)] u64_positive [OF n(2,1)] False x(1) y(1) by (auto simp: record_ttl_def v)
  qed
  ultimately show ?thesis using assms(5) w(3) x(1,2) v by (auto simp: restores_def)
qed

text \<open>A document the grammar has is read by the default options, and leaves an allocator that grants as it did.\<close>

lemma parse_default_document:
  assumes "heap_total h" "json_document 512 False b j" "after_bom b = b"
  shows "\<exists>v. root (nyxj_parse_ex be h (Some b) None) = Some v \<and> abs_value v = j \<and>
    heap_total (heap_after (nyxj_parse_ex be h (Some b) None))"
proof -
  let ?o = "nyxj_parse_options_default"
  have o: "plain_options ?o" "depth_limit ?o = 512" "\<not> reject_duplicate_keys (opt_flags ?o)"
    by (simp_all add: plain_options_def depth_limit_def nyxj_parse_options_default_def default_max_depth_def)
  have d: "nyxj_parse_ex be h (Some b) None = nyxj_parse_ex be h (Some b) (Some ?o)"
    by (simp add: nyxj_parse_ex_def)
  obtain v where v: "root (nyxj_parse_ex be h (Some b) (Some ?o)) = Some v" "abs_value v = j"
    using parse_ex_grammar [OF assms(1) o(1), of be b j] assms(2,3) o(2,3) by auto
  let ?c = "parse_context be h b ?o"
  have "ready ?c" by (rule parse_context_ready [OF assms(1) o(1)])
  then have c: "ctx_ok ?c" "heap_total (mem ?c)" by (simp_all add: ready_def strict_def)
  have z: "opt_max_input_size ?o = 0" using o(1) by (simp add: plain_options_def)
  have "heap_total (heap_after (nyxj_parse_ex be h (Some b) (Some ?o)))"
    using v(1) runs_parse_root [of ?c] c z
    by (auto simp: nyxj_parse_ex_def runs_def frame_def failed_result_def split: presult.splits)
  then show ?thesis using v d by simp
qed

lemma kv_save_content:
  assumes "kv_ok kv" "heap_total (kv_heap kv)" "\<forall>e \<in> set (all_entries kv). expired e (next_time kv) \<or> snapshot_fit (next_time kv) e"
    "nyxj_kv_save io d (Some kv) (Some path) = (True, er, ds, kv')"
  shows "\<exists>b rs. hd ds path = Some b \<and> after_bom b = b \<and> json_document 512 False b (canon_tree (abs_value (VObject False rs))) \<and>
    list_all2 (record_of (next_time kv)) (filter (\<lambda>e. \<not> expired e (next_time kv)) (all_entries kv)) rs"
proof -
  let ?now = "next_time kv"
  define es where "es = filter (\<lambda>e. \<not> expired e ?now) (all_entries kv)"
  obtain rs kv1 where s: "kv_snapshot kv = (Some (VObject False rs), kv1)" "heap_total (kv_heap kv1)" "list_all2 (record_of ?now) es rs"
    using snapshot_total [OF assms(1,2)] unfolding es_def by blast
  let ?t = "value_text (serialize_context None) (VObject False rs) 0"
  obtain h2 where t: "nyxj_serialize (kv_heap kv1) (Some (VObject False rs)) = (Some ?t, h2)"
    using nyxj_serialize_ex_text [OF s(2), of "VObject False rs" None] unfolding nyxj_serialize_def by (metis prod.collapse)
  have nn: "no_nul (e_key e) \<and> snapshot_fit ?now e" if "e \<in> set es" for e
    using that assms(1,3) all_entries_bucket(3) by (auto simp: es_def)
  have "list_all2 (\<lambda>e r. fst r = e_key e \<and> no_nul (fst r) \<and> valid_utf8 (fst r) \<and> printable 511 (snd r)) es rs"
    by (rule list.rel_mono_strong [OF s(3)]) (use nn record_printable record_key in blast)
  then have r: "map fst rs = map e_key es" "\<forall>r \<in> set rs. no_nul (fst r) \<and> valid_utf8 (fst r) \<and> printable 511 (snd r)"
    by (induction rule: list_all2_induct) auto
  have "distinct (map e_key es)" using assms(1) by (simp add: es_def kv_ok_def distinct_map_filter)
  then have "printable 512 (VObject False rs)" using r by auto
  moreover have "written (serialize_context None) (VObject False rs) = canon_tree (abs_value (VObject False rs))"
    by (rule written_canon) (simp add: serialize_context_def)
  ultimately have j: "json_text 512 False ?t (canon_tree (abs_value (VObject False rs)))"
    using value_text_json [of 512 "VObject False rs" False "serialize_context None" 0] by simp
  have "cstr ?t = ?t" using json_no_nul(1) [OF j] by simp
  then have "hd ds path = Some ?t"
    using assms(4) s(1) t write_snapshot_end(3) by (auto simp: nyxj_kv_save_def Let_def split: prod.splits if_splits)
  moreover have "json_document 512 False ?t (canon_tree (abs_value (VObject False rs)))"
    using j unfolding json_document_def by (intro exI [of _ "[]"] exI [of _ ?t]) (simp add: blank_def)
  ultimately show ?thesis using after_bom_text [OF j] s(3) unfolding es_def by blast
qed

lemma list_all2_canon:
  "list_all2 R es rs \<Longrightarrow> map (map_prod id abs_value) ps = map (map_prod id canon_tree) (map (map_prod id abs_value) rs) \<Longrightarrow>
   (\<And>e r p. e \<in> set es \<Longrightarrow> R e r \<Longrightarrow> fst p = fst r \<Longrightarrow> abs_value (snd p) = canon_tree (abs_value (snd r)) \<Longrightarrow> S e p) \<Longrightarrow>
   list_all2 S es ps"
proof (induction es rs arbitrary: ps rule: list_all2_induct)
  case (Cons e es r rs)
  then obtain p qs where ps: "ps = p # qs" by auto
  have "S e p" using Cons.prems Cons.hyps(1) ps by (cases p; cases r) (auto intro: Cons.prems(2))
  then show ?case using Cons ps by auto
qed simp

lemma live_entry_iff:
  "kv_ok kv \<Longrightarrow> live_entry kv now k = Some e \<longleftrightarrow> e \<in> set (filter (\<lambda>e. \<not> expired e now) (all_entries kv)) \<and> e_key e = k"
proof -
  assume "kv_ok kv"
  then have "e \<in> set (all_entries kv) \<and> e_key e = k \<longleftrightarrow> kv_map kv k = Some e" by (simp add: kv_map_iff)
  moreover have "live_entry kv now k = Some e \<longleftrightarrow> kv_map kv k = Some e \<and> \<not> expired e now"
    by (auto simp: live_entry_def split: option.splits)
  ultimately show ?thesis by auto
qed

lemma kv_save_load:
  assumes "kv_ok kv" "heap_total (kv_heap kv)"
    "\<forall>e \<in> set (all_entries kv). expired e (next_time kv) \<or> snapshot_fit (next_time kv) e"
    "nyxj_kv_save io d (Some kv) (Some path) = (True, er, ds, kv')"
    "kv_ok st" "heap_total (kv_heap st)" "kv_map st = (\<lambda>_. None)"
  shows "\<exists>b st'. hd ds path = Some b \<and> nyxj_kv_load be (Some st) (Some path) (Inr b) = Some (True, no_error, Some st') \<and> kv_ok st' \<and>
    (\<forall>k. rel_option (reloaded (next_time kv) st) (live_entry kv (next_time kv) k) (kv_map st' k))"
proof -
  let ?now = "next_time kv"
  define es where "es = filter (\<lambda>e. \<not> expired e ?now) (all_entries kv)"
  obtain b rs where t: "hd ds path = Some b" "after_bom b = b" "json_document 512 False b (canon_tree (abs_value (VObject False rs)))"
      "list_all2 (record_of ?now) es rs"
    using kv_save_content [OF assms(1-4)] unfolding es_def by blast
  obtain v where v: "root (nyxj_parse_ex be (kv_heap st) (Some b) None) = Some v" "abs_value v = canon_tree (abs_value (VObject False rs))"
      "heap_total (heap_after (nyxj_parse_ex be (kv_heap st) (Some b) None))"
    using parse_default_document [OF assms(6) t(3,2)] by blast
  obtain fl ps where ps: "v = VObject fl ps" "map (map_prod id abs_value) ps = map (map_prod id canon_tree) (map (map_prod id abs_value) rs)"
    using v(2) by (cases v) auto
  have fit: "no_nul (e_key e) \<and> \<not> expired e ?now \<and> c_strings (e_value e) \<and> snapshot_fit ?now e" if "e \<in> set es" for e
    using that assms(3) all_entries_bucket(3,4) [OF assms(1)] by (auto simp: es_def)
  have r: "list_all2 (restores ?now) es ps"
    by (rule list_all2_canon [OF t(4) ps(2)]) (use fit record_restores in blast)
  have d: "distinct (map e_key es)" using assms(1) by (simp add: es_def kv_ok_def distinct_map_filter)
  define st1 where "st1 = st\<lparr>kv_heap := heap_after (nyxj_parse_ex be (kv_heap st) (Some b) None)\<rparr>"
  have st1: "kv_ok st1" "heap_total (kv_heap st1)" "kv_map st1 = (\<lambda>_. None)" "reloaded ?now st1 = reloaded ?now st"
    using assms(5,7) v(3) by (simp_all add: st1_def reloaded_def fun_eq_iff)
  obtain st' where st': "restore_pairs st1 ps = Some st'" "kv_ok st'"
      "\<forall>e \<in> set es. \<exists>e'. kv_map st' (e_key e) = Some e' \<and> reloaded ?now st e e'" "\<forall>k. k \<notin> e_key ` set es \<longrightarrow> kv_map st' k = None"
    using restore_pairs_map [OF r _ d st1(1,2)] fit st1(3,4) by auto
  have "rel_option (reloaded ?now st) (live_entry kv ?now k) (kv_map st' k)" for k
  proof (cases "live_entry kv ?now k")
    case None
    then have "k \<notin> e_key ` set es" using live_entry_iff [OF assms(1), of ?now k] by (auto simp: es_def)
    then show ?thesis using None st'(4) by simp
  next
    case (Some x)
    then have "x \<in> set es" "e_key x = k" using live_entry_iff [OF assms(1), of ?now k x] by (auto simp: es_def)
    then show ?thesis using st'(3) Some by auto
  qed
  moreover have "nyxj_kv_load be (Some st) (Some path) (Inr b) = Some (True, no_error, Some st')"
    using v(1) ps(1) st'(1) by (simp add: nyxj_kv_load_def Let_def st1_def)
  ultimately show ?thesis using t(1) st'(2) by blast
qed
end
