(* ===== verification/Simulation.thy ===== *)
theory Simulation
  imports Prelude
begin

text \<open>
  The contract between a component and its specification: an invariant, the abstraction of its states, and a step of
  the specification for every step of the component, which may depend on what the component reads from its
  surroundings (\<open>env\<close>). It carries over to runs of any length.
\<close>

fun run :: "('c \<Rightarrow> 's \<Rightarrow> 'r \<times> 's) \<Rightarrow> 'c list \<Rightarrow> 's \<Rightarrow> 'r list \<times> 's" where
  "run step [] s = ([], s)"
| "run step (c # cs) s = (let (r, s) = step c s; (rs, s) = run step cs s in (r # rs, s))"

fun env_run :: "('e \<Rightarrow> 'c \<Rightarrow> 'a \<Rightarrow> 'r \<times> 'a) \<Rightarrow> 'e list \<Rightarrow> 'c list \<Rightarrow> 'a \<Rightarrow> 'r list \<times> 'a" where
  "env_run spec (e # es) (c # cs) a = (let (r, a) = spec e c a; (rs, a) = env_run spec es cs a in (r # rs, a))"
| "env_run spec es cs a = ([], a)"

locale preserved =
  fixes inv :: "'s \<Rightarrow> bool"
    and pre :: "'c \<Rightarrow> bool"
    and step :: "'c \<Rightarrow> 's \<Rightarrow> 'r \<times> 's"
  assumes step_inv: "inv s \<Longrightarrow> pre c \<Longrightarrow> step c s = (r, s') \<Longrightarrow> inv s'"
begin

lemma run_inv: "inv s \<Longrightarrow> \<forall>c \<in> set cs. pre c \<Longrightarrow> run step cs s = (rs, s') \<Longrightarrow> inv s'"
  by (induction cs arbitrary: s rs) (fastforce split: prod.splits dest: step_inv)+

end

locale simulation = preserved inv pre step
  for inv :: "'s \<Rightarrow> bool" and pre :: "'c \<Rightarrow> bool" and step :: "'c \<Rightarrow> 's \<Rightarrow> 'r \<times> 's" +
  fixes abs :: "'s \<Rightarrow> 'a"
    and env :: "'s \<Rightarrow> 'e"
    and env_ok :: "'s \<Rightarrow> 'e \<Rightarrow> bool"
    and spec :: "'e \<Rightarrow> 'c \<Rightarrow> 'a \<Rightarrow> 'r \<times> 'a"
  assumes step_spec: "inv s \<Longrightarrow> pre c \<Longrightarrow> step c s = (r, s') \<Longrightarrow> spec (env s) c (abs s) = (r, abs s')"
    and env_now: "env_ok s (env s)"
    and env_later: "inv s \<Longrightarrow> pre c \<Longrightarrow> step c s = (r, s') \<Longrightarrow> env_ok s' e \<Longrightarrow> env_ok s e"
begin

lemma run_spec:
  "inv s \<Longrightarrow> \<forall>c \<in> set cs. pre c \<Longrightarrow> run step cs s = (rs, s') \<Longrightarrow>
   \<exists>es. length es = length cs \<and> (\<forall>e \<in> set es. env_ok s e) \<and> env_run spec es cs (abs s) = (rs, abs s')"
proof (induction cs arbitrary: s rs)
  case (Cons c cs)
  obtain r s1 where r: "step c s = (r, s1)" by fastforce
  obtain rs1 where rs: "run step cs s1 = (rs1, s')" "rs = r # rs1" using Cons.prems(3) r by (auto split: prod.splits)
  have c: "pre c" using Cons.prems(2) by simp
  obtain es where es: "length es = length cs" "\<forall>e \<in> set es. env_ok s1 e" "env_run spec es cs (abs s1) = (rs1, abs s')"
    using Cons.IH [OF step_inv [OF Cons.prems(1) c r] _ rs(1)] Cons.prems(2) by auto
  have "env_run spec (env s # es) (c # cs) (abs s) = (rs, abs s')"
    using step_spec [OF Cons.prems(1) c r] es(3) rs(2) by simp
  moreover have "\<forall>e \<in> set (env s # es). env_ok s e"
    using es(2) env_now env_later [OF Cons.prems(1) c r] by auto
  ultimately show ?case using es(1) by (intro exI [of _ "env s # es"]) simp
qed simp

end

end
