(* ===== verification/Kv_Refine.thy ===== *)
theory Kv_Refine
  imports Kv_Store_Facts Simulation
begin

text \<open>
  The store against its specification: a partial map from keys to a tree and a deadline. Every operation gives the
  reply of the specification at the times the clock shows, and so does every sequence of operations.
\<close>

subsection \<open>The specification\<close>

datatype kv_op =
    Op_set string nyxj_value "64 word"
  | Op_get string
  | Op_del string
  | Op_exists string
  | Op_incr string double
  | Op_expire string "64 word"
  | Op_ttl string
  | Op_keys "string option"
  | Op_sweep
  | Op_clear
  | Op_count

datatype kv_reply =
    Flag bool
  | Tree "json option"
  | Number "double option"
  | Left_ms int
  | Names "string list option"
  | Total nat
  | Nothing

type_synonym kv_spec_store = "string \<Rightarrow> (json \<times> 64 word) option"

definition alive :: "64 word \<Rightarrow> kv_spec_store \<Rightarrow> kv_spec_store" where
  "alive t m k = (case m k of Some (v, x) \<Rightarrow> if x \<noteq> 0 \<and> x \<le> t then None else Some (v, x) | None \<Rightarrow> None)"

definition drop_dead :: "64 word \<Rightarrow> kv_spec_store \<Rightarrow> string \<Rightarrow> kv_spec_store" where
  "drop_dead t m k = (if alive t m k = None then m(k := None) else m)"

definition until :: "64 word \<Rightarrow> 64 word \<Rightarrow> 64 word" where
  "until t ttl = (if ttl \<noteq> 0 then t + ttl else 0)"

text \<open>The two times are the next two readings of the clock.\<close>

fun kv_spec :: "64 word \<times> 64 word \<Rightarrow> kv_op \<Rightarrow> kv_spec_store \<Rightarrow> kv_reply \<times> kv_spec_store" where
  "kv_spec (t, u) (Op_set k v ttl) m = (Flag True, m(k \<mapsto> (abs_value v, until u ttl)))"
| "kv_spec (t, u) (Op_get k) m = (Tree (map_option fst (alive t m k)), drop_dead t m k)"
| "kv_spec (t, u) (Op_del k) m = (Flag (alive t m k \<noteq> None), m(k := None))"
| "kv_spec (t, u) (Op_exists k) m = (Flag (alive t m k \<noteq> None), drop_dead t m k)"
| "kv_spec (t, u) (Op_incr k d) m =
     (case alive t m k of
        None \<Rightarrow> (Number (Some d), m(k \<mapsto> (JNumber d, 0)))
      | Some (JNumber n, x) \<Rightarrow> (Number (Some (dbl_add n d)), m(k \<mapsto> (JNumber (dbl_add n d), x)))
      | Some _ \<Rightarrow> (Number None, m))"
| "kv_spec (t, u) (Op_expire k ttl) m =
     (case alive t m k of None \<Rightarrow> (Flag False, m(k := None)) | Some (v, x) \<Rightarrow> (Flag True, m(k \<mapsto> (v, until u ttl))))"
| "kv_spec (t, u) (Op_ttl k) m =
     (Left_ms (case alive t m k of None \<Rightarrow> -2 | Some (v, x) \<Rightarrow> if x = 0 then -1 else max 0 (sint x - sint u)), drop_dead t m k)"
| "kv_spec (t, u) (Op_keys p) m =
     (Names (Some (sorted_list_of_set {k. alive t m k \<noteq> None \<and> starts_with (case p of None \<Rightarrow> [] | Some s \<Rightarrow> s) k})), m)"
| "kv_spec (t, u) Op_sweep m = (Total (card {k. m k \<noteq> None \<and> alive t m k = None}), alive t m)"
| "kv_spec (t, u) Op_clear m = (Nothing, (\<lambda>_. None))"
| "kv_spec (t, u) Op_count m = (Total (card (dom m)), m)"

subsection \<open>The operations of the model\<close>

fun kv_do :: "kv_op \<Rightarrow> nyxj_kv \<Rightarrow> kv_reply \<times> nyxj_kv" where
  "kv_do (Op_set k v ttl) kv = (let (ok, kv) = nyxj_kv_set kv k v ttl in (Flag ok, kv))"
| "kv_do (Op_get k) kv = (let (v, kv) = nyxj_kv_get kv k in (Tree (map_option abs_value v), kv))"
| "kv_do (Op_del k) kv = (let (found, kv) = nyxj_kv_del kv k in (Flag found, kv))"
| "kv_do (Op_exists k) kv = (let (found, kv) = nyxj_kv_exists kv k in (Flag found, kv))"
| "kv_do (Op_incr k d) kv = (let (n, kv) = nyxj_kv_incr kv k d in (Number n, kv))"
| "kv_do (Op_expire k ttl) kv = (let (found, kv) = nyxj_kv_expire kv k ttl in (Flag found, kv))"
| "kv_do (Op_ttl k) kv = (let (left, kv) = nyxj_kv_ttl kv k in (Left_ms left, kv))"
| "kv_do (Op_keys p) kv =
     (let (ks, kv) = nyxj_kv_keys kv p
      in (Names (case ks of Some (VArray fl xs cap) \<Rightarrow> Some (map string_of xs) | _ \<Rightarrow> None), kv))"
| "kv_do Op_sweep kv = (let (n, kv) = nyxj_kv_sweep kv in (Total n, kv))"
| "kv_do Op_clear kv = (Nothing, nyxj_kv_clear kv)"
| "kv_do Op_count kv = (Total (nyxj_kv_count kv), kv)"

text \<open>Keys and strings hold no NUL.\<close>

fun op_ok :: "kv_op \<Rightarrow> bool" where
  "op_ok (Op_set k v ttl) \<longleftrightarrow> no_nul k \<and> c_strings v"
| "op_ok (Op_incr k d) \<longleftrightarrow> no_nul k"
| "op_ok c \<longleftrightarrow> True"

definition abs_entry :: "kv_entry \<Rightarrow> json \<times> 64 word" where
  "abs_entry e = (abs_value (e_value e), expires_at e)"

definition abs_store :: "nyxj_kv \<Rightarrow> kv_spec_store" where
  "abs_store kv k = map_option abs_entry (kv_map kv k)"

definition kv_inv :: "nyxj_kv \<Rightarrow> bool" where
  "kv_inv kv \<longleftrightarrow> kv_ok kv \<and> heap_total (kv_heap kv)"

definition kv_times :: "nyxj_kv \<Rightarrow> 64 word \<times> 64 word" where
  "kv_times kv = (next_time kv, next_time (tick kv))"

text \<open>Two successive readings that are still to come.\<close>

definition reading :: "nyxj_kv \<Rightarrow> 64 word \<times> 64 word \<Rightarrow> bool" where
  "reading kv e \<longleftrightarrow> (\<exists>j \<ge> readings (kv_clock kv). e = (time_at (kv_clock kv) j, time_at (kv_clock kv) (j + 1)))"

subsection \<open>Each operation\<close>

lemma alive_abs: "alive t (abs_store kv) k = map_option abs_entry (live_entry kv t k)"
  by (auto simp: alive_def abs_store_def live_entry_def abs_entry_def expired_def split: option.split)

lemma abs_updates:
  "kv_map kv' = pruned kv k \<Longrightarrow> abs_store kv' = drop_dead (next_time kv) (abs_store kv) k"
  "kv_map kv' = (kv_map kv)(k := None) \<Longrightarrow> abs_store kv' = (abs_store kv)(k := None)"
  "kv_map kv' = (kv_map kv)(k \<mapsto> e) \<Longrightarrow> abs_store kv' = (abs_store kv)(k \<mapsto> abs_entry e)"
  "kv_map kv' = kv_map kv \<Longrightarrow> abs_store kv' = abs_store kv"
  by (auto simp: abs_store_def drop_dead_def alive_abs pruned_def fun_eq_iff)

lemma abs_stored: "abs_entry (stored kv k v ttl) = (abs_value v, until (next_time (tick kv)) ttl)"
  by (simp add: abs_entry_def stored_def until_def)

definition step_ok :: "kv_op \<Rightarrow> nyxj_kv \<Rightarrow> bool" where
  "step_ok c kv \<longleftrightarrow>
     (let (r, kv') = kv_do c kv
      in kv_inv kv' \<and> later kv kv' \<and> kv_spec (kv_times kv) c (abs_store kv) = (r, abs_store kv'))"

lemma find_locked_keeps:
  assumes "kv_inv kv" "find_locked kv k = (r, kv')"
  shows "heap_total (kv_heap kv')" "later kv kv'"
proof -
  have "kv_heap kv' = kv_heap kv" "kv_clock kv' = kv_clock (tick kv)"
    using find_locked_map(1) [OF _ assms(2)] assms(1) by (simp_all add: kv_inv_def searched_def)
  then show "heap_total (kv_heap kv')" "later kv kv'"
    using assms(1) by (simp_all add: kv_inv_def later_def tick_def nyxj_now_ms_def)
qed

lemma deadline_keeps: "deadline kv ttl = (x, kv') \<Longrightarrow> kv_heap kv' = kv_heap kv \<and> later kv kv'"
  using later_tick [of kv kv] by (auto simp: deadline_tick later_def split: if_splits)

lemma step_set: "kv_inv kv \<Longrightarrow> no_nul k \<Longrightarrow> c_strings v \<Longrightarrow> step_ok (Op_set k v ttl) kv"
proof -
  assume inv: "kv_inv kv" and k: "no_nul k" and v: "c_strings v"
  obtain f kv' where s: "nyxj_kv_set kv k v ttl = (f, kv')" by fastforce
  have ok: "kv_ok kv" using inv by (simp add: kv_inv_def)
  note m = kv_set_map [OF ok k v s]
  have t: "f" "heap_total (kv_heap kv')" using m(4) inv by (auto simp: kv_inv_def)
  then obtain w where w: "abs_value w = abs_value v" "kv_map kv' = (kv_map kv)(k \<mapsto> stored kv k w ttl)" using m(2) by blast
  show ?thesis
    using s t m(1) kv_set_later [OF ok s] abs_updates(3) [OF w(2)] w(1)
    by (simp add: step_ok_def kv_inv_def kv_times_def abs_stored)
qed

lemma step_get: "kv_inv kv \<Longrightarrow> step_ok (Op_get k) kv"
proof -
  assume inv: "kv_inv kv"
  obtain r kv' where g: "nyxj_kv_get kv k = (r, kv')" by fastforce
  have ok: "kv_ok kv" "heap_total (kv_heap kv)" using inv by (simp_all add: kv_inv_def)
  note m = kv_get_map [OF ok(1) g]
  obtain p kv1 where f: "find_locked kv k = (p, kv1)" by fastforce
  note fl = find_locked_map [OF ok(1) f] and keep = find_locked_keeps [OF inv f]
  have "heap_total (kv_heap kv') \<and> later kv kv'"
  proof (cases p)
    case None
    then show ?thesis using g f keep by (auto simp: nyxj_kv_get_def later_def)
  next
    case (Some q)
    have "entry_at kv q \<in> set (all_entries kv)" using fl(2) Some kv_map_iff [OF ok(1)] by simp
    from all_entries_bucket(4) [OF ok(1) this] have "c_strings (e_value (entry_at kv1 q))" using fl(2) Some by simp
    from clone_total(1) [OF keep(1) this] show ?thesis
      using g f Some keep(2) by (auto simp: nyxj_kv_get_def kv_clone_simps later_def split: prod.splits)
  qed
  moreover have "map_option abs_value r = map_option fst (alive (next_time kv) (abs_store kv) k)"
    using m(3,4) ok(2) by (cases r) (fastforce simp: alive_abs abs_entry_def)+
  ultimately show ?thesis
    using g m(1,2) abs_updates(1) by (simp add: step_ok_def kv_inv_def kv_times_def)
qed

lemma later_refl [simp]: "later kv kv"
  by (simp add: later_def)

lemma searched_keeps:
  assumes "kv_inv kv" "find_locked kv k = (p, kv1)" "kv_heap kv' = kv_heap kv1" "later kv1 kv'" "kv_ok kv'"
  shows "kv_inv kv' \<and> later kv kv'"
  using find_locked_keeps [OF assms(1,2)] later_trans assms(3-5) by (auto simp: kv_inv_def)

lemma later_fields [simp]:
  "later a (unlink_entry b p) = later a b" "later a (put_entry b p e) = later a b" "later a (b\<lparr>kv_stats := s\<rparr>) = later a b"
  "later a (b\<lparr>kv_heap := h\<rparr>) = later a b"
  by (simp_all add: later_def)

lemma step_del: "kv_inv kv \<Longrightarrow> step_ok (Op_del k) kv"
proof -
  assume inv: "kv_inv kv"
  then have ok: "kv_ok kv" by (simp add: kv_inv_def)
  obtain r kv' where d: "nyxj_kv_del kv k = (r, kv')" by fastforce
  obtain p kv1 where f: "find_locked kv k = (p, kv1)" by fastforce
  have "kv_heap kv' = kv_heap kv1" "later kv1 kv'" using d f by (auto simp: nyxj_kv_del_def split: option.splits)
  from searched_keeps [OF inv f this] kv_del_map [OF ok d] show ?thesis
    using d abs_updates(2) by (auto simp: step_ok_def kv_times_def alive_abs)
qed

lemma step_exists: "kv_inv kv \<Longrightarrow> step_ok (Op_exists k) kv"
proof -
  assume inv: "kv_inv kv"
  then have ok: "kv_ok kv" by (simp add: kv_inv_def)
  obtain r kv' where d: "nyxj_kv_exists kv k = (r, kv')" by fastforce
  obtain p kv1 where f: "find_locked kv k = (p, kv1)" by fastforce
  have "kv_heap kv' = kv_heap kv1" "later kv1 kv'" using d f by (auto simp: nyxj_kv_exists_def)
  from searched_keeps [OF inv f this] kv_exists_map [OF ok d] show ?thesis
    using d abs_updates(1) by (auto simp: step_ok_def kv_times_def alive_abs)
qed

lemma step_expire: "kv_inv kv \<Longrightarrow> step_ok (Op_expire k ttl) kv"
proof -
  assume inv: "kv_inv kv"
  then have ok: "kv_ok kv" by (simp add: kv_inv_def)
  obtain r kv' where d: "nyxj_kv_expire kv k ttl = (r, kv')" by fastforce
  obtain p kv1 where f: "find_locked kv k = (p, kv1)" by fastforce
  have "kv_heap kv' = kv_heap kv1 \<and> later kv1 kv'"
    using d f deadline_keeps [of kv1 ttl] by (auto simp: nyxj_kv_expire_def split: option.splits prod.splits)
  then have k: "kv_inv kv' \<and> later kv kv'" using searched_keeps [OF inv f] kv_expire_map(1) [OF ok d] by blast
  show ?thesis
  proof (cases "live_entry kv (next_time kv) k")
    case None
    then show ?thesis using k d kv_expire_map(3) [OF ok d] abs_updates(2)
      by (simp add: step_ok_def kv_times_def alive_abs)
  next
    case (Some e)
    from kv_expire_map(2) [OF ok d this] Some show ?thesis
      using k d abs_updates(3) by (simp add: step_ok_def kv_times_def alive_abs abs_entry_def until_def)
  qed
qed

lemma step_ttl: "kv_inv kv \<Longrightarrow> step_ok (Op_ttl k) kv"
proof -
  assume inv: "kv_inv kv"
  then have ok: "kv_ok kv" by (simp add: kv_inv_def)
  obtain r kv' where d: "nyxj_kv_ttl kv k = (r, kv')" by fastforce
  obtain p kv1 where f: "find_locked kv k = (p, kv1)" by fastforce
  have "kv_heap kv' = kv_heap kv1 \<and> later kv1 kv'"
    using d f later_tick [of kv1 kv1] by (auto simp: nyxj_kv_ttl_def now_ms_tick Let_def split: option.splits if_splits)
  then have "kv_inv kv' \<and> later kv kv'" using searched_keeps [OF inv f] kv_ttl_map [OF ok d] by blast
  then show ?thesis
    using d kv_ttl_map [OF ok d] abs_updates(1) [of kv' kv k]
    by (cases "live_entry kv (next_time kv) k") (auto simp: step_ok_def kv_times_def alive_abs abs_entry_def)
qed

lemma kv_incr_keeps:
  assumes "kv_inv kv" "no_nul k" "nyxj_kv_incr kv k d = (r, kv')"
  shows "kv_inv kv' \<and> later kv kv' \<and> (live_entry kv (next_time kv) k = None \<longrightarrow> r = Some d)"
proof -
  have ok: "kv_ok kv" using assms(1) by (simp add: kv_inv_def)
  obtain p kv1 where f: "find_locked kv k = (p, kv1)" by fastforce
  note fl = find_locked_map [OF ok f] and keep = find_locked_keeps [OF assms(1) f]
  have k': "kv_ok kv'" by (rule kv_incr_map(1) [OF ok assms(2,3)])
  show ?thesis
  proof (cases p)
    case (Some q)
    then have "kv_heap kv' = kv_heap kv1" "later kv1 kv'"
      using assms(3) f by (auto simp: nyxj_kv_incr_def split: nyxj_value.splits)
    from searched_keeps [OF assms(1) f this k'] show ?thesis using fl(2) Some by simp
  next
    case None
    obtain h where h: "nyxj_new_number (kv_heap kv1) d = (Some (VNumber False d), h)" "heap_total h"
      using new_value_total [OF keep(1)] unfolding nyxj_new_number_def by blast
    obtain f2 kv2 where s: "set_locked (kv1\<lparr>kv_heap := h\<rparr>) k (VNumber False d) 0 = (f2, kv2)" by fastforce
    have "kv_ok (kv1\<lparr>kv_heap := h\<rparr>)" using fl(1) by (simp add: searched_def)
    from set_locked_map(4) [OF this assms(2) _ s] h(2) have t: "f2" "heap_total (kv_heap kv2)" by auto
    have "later kv1 kv2" using set_locked_later [OF \<open>kv_ok (kv1\<lparr>kv_heap := h\<rparr>)\<close> s] by (simp add: later_def)
    moreover have "kv' = kv2" "r = Some d" using assms(3) f None h(1) s t(1) by (simp_all add: nyxj_kv_incr_def)
    ultimately show ?thesis using k' t(2) later_trans [OF keep(2)] by (simp add: kv_inv_def)
  qed
qed

lemma step_incr: "kv_inv kv \<Longrightarrow> no_nul k \<Longrightarrow> step_ok (Op_incr k d) kv"
proof -
  assume inv: "kv_inv kv" and k: "no_nul k"
  then have ok: "kv_ok kv" by (simp add: kv_inv_def)
  obtain r kv' where i: "nyxj_kv_incr kv k d = (r, kv')" by fastforce
  note keep = kv_incr_keeps [OF inv k i] and m = kv_incr_map [OF ok k i]
  show ?thesis
  proof (cases "live_entry kv (next_time kv) k")
    case None
    then show ?thesis using keep i m(3) abs_updates(3)
      by (simp add: step_ok_def kv_times_def alive_abs abs_stored until_def)
  next
    case (Some e)
    from m(2) [OF this] Some show ?thesis
      using keep i abs_updates(3,4) [of kv' kv]
      by (cases "e_value e") (auto simp: step_ok_def kv_times_def alive_abs abs_entry_def)
  qed
qed

lemma step_keys: "kv_inv kv \<Longrightarrow> step_ok (Op_keys p) kv"
proof -
  assume inv: "kv_inv kv"
  then have ok: "kv_ok kv" "heap_total (kv_heap kv)" by (simp_all add: kv_inv_def)
  from kv_keys_sorted [OF ok, of p] obtain xs cap kv' where k: "nyxj_kv_keys kv p = (Some (VArray False xs cap), kv')" "kv_ok kv'"
      "kv_map kv' = kv_map kv" "heap_total (kv_heap kv')" "kv_clock kv' = kv_clock (tick kv)"
      "map string_of xs = sorted_list_of_set {k. live_entry kv (next_time kv) k \<noteq> None \<and> starts_with (case p of None \<Rightarrow> [] | Some s \<Rightarrow> s) k}"
    by blast
  then show ?thesis
    using later_tick [of kv kv] later_clock [OF k(5)] abs_updates(4) [OF k(3)]
    by (simp add: step_ok_def kv_times_def kv_inv_def alive_abs)
qed

lemma abs_keys: "kv_ok kv \<Longrightarrow> {k. \<exists>e. kv_map kv k = Some e \<and> P e} = e_key ` set (filter P (all_entries kv))"
  by (auto simp: kv_map_iff)

lemma card_keys: "kv_ok kv \<Longrightarrow> card {k. \<exists>e. kv_map kv k = Some e \<and> P e} = length (filter P (all_entries kv))"
proof -
  assume ok: "kv_ok kv"
  have "distinct (map e_key (filter P (all_entries kv)))" using ok by (simp add: kv_ok_def distinct_map_filter)
  then show ?thesis unfolding abs_keys [OF ok] by (metis distinct_card length_map set_map)
qed

lemma step_sweep: "kv_inv kv \<Longrightarrow> step_ok Op_sweep kv"
proof -
  assume inv: "kv_inv kv"
  then have ok: "kv_ok kv" "heap_total (kv_heap kv)" by (simp_all add: kv_inv_def)
  obtain n kv' where w: "nyxj_kv_sweep kv = (n, kv')" by fastforce
  note m = kv_sweep_map [OF ok(1) w]
  have c: "kv_heap kv' = kv_heap kv" "kv_clock kv' = kv_clock (tick kv)"
    using w by (auto simp: nyxj_kv_sweep_def now_ms_tick Let_def)
  have "{k. abs_store kv k \<noteq> None \<and> alive (next_time kv) (abs_store kv) k = None} = {k. \<exists>e. kv_map kv k = Some e \<and> expired e (next_time kv)}"
    by (auto simp: alive_abs) (auto simp: abs_store_def live_entry_def split: option.splits if_splits)
  then have n: "n = card {k. abs_store kv k \<noteq> None \<and> alive (next_time kv) (abs_store kv) k = None}"
    using m card_keys [OF ok(1)] by simp
  have "abs_store kv' = alive (next_time kv) (abs_store kv)" using m by (simp add: fun_eq_iff alive_abs) (simp add: abs_store_def)
  then show ?thesis
    using m n w c ok later_tick [of kv kv] later_clock [OF c(2)] by (simp add: step_ok_def kv_times_def kv_inv_def)
qed

lemma step_clear: "kv_inv kv \<Longrightarrow> step_ok Op_clear kv"
proof -
  assume "kv_inv kv"
  then have "kv_ok (nyxj_kv_clear kv) \<and> kv_map (nyxj_kv_clear kv) = (\<lambda>_. None)" "heap_total (kv_heap kv)"
    using kv_clear_map by (simp_all add: kv_inv_def)
  moreover have "kv_heap (nyxj_kv_clear kv) = kv_heap kv" "kv_clock (nyxj_kv_clear kv) = kv_clock kv"
    by (simp_all add: nyxj_kv_clear_def clear_locked_def)
  ultimately show ?thesis by (simp add: step_ok_def kv_times_def kv_inv_def abs_store_def fun_eq_iff later_def)
qed

lemma step_count: "kv_inv kv \<Longrightarrow> step_ok Op_count kv"
proof -
  assume inv: "kv_inv kv"
  then have ok: "kv_ok kv" by (simp add: kv_inv_def)
  have "dom (abs_store kv) = {k. \<exists>e. kv_map kv k = Some e \<and> True}" by (auto simp: abs_store_def)
  then have "card (dom (abs_store kv)) = kv_count kv" using card_keys [OF ok, of "\<lambda>_. True"] ok by (simp add: kv_ok_def)
  then show ?thesis using inv by (simp add: step_ok_def kv_times_def nyxj_kv_count_def)
qed

lemma kv_step_ok: "kv_inv kv \<Longrightarrow> op_ok c \<Longrightarrow> step_ok c kv"
  by (cases c)
    (simp_all add: step_set step_get step_del step_exists step_incr step_expire step_ttl step_keys step_sweep step_clear step_count)

subsection \<open>Sequences of operations\<close>

interpretation kv: simulation kv_inv op_ok kv_do abs_store kv_times reading kv_spec
proof unfold_locales
  fix kv c r kv'
  assume "kv_inv kv" "op_ok c" "kv_do c kv = (r, kv')"
  then have s: "kv_inv kv'" "later kv kv'" "kv_spec (kv_times kv) c (abs_store kv) = (r, abs_store kv')"
    using kv_step_ok [of kv c] by (simp_all add: step_ok_def)
  then show "kv_inv kv'" "kv_spec (kv_times kv) c (abs_store kv) = (r, abs_store kv')" by simp_all
  show "reading kv e" if "reading kv' e" for e using that s(2) by (auto simp: reading_def later_def intro: order_trans)
next
  show "reading kv (kv_times kv)" for kv
    by (auto simp: reading_def kv_times_def next_time_def tick_def nyxj_now_ms_def)
qed

text \<open>The table stays well formed whatever the allocator refuses.\<close>

lemma kv_keys_keeps: "kv_ok kv \<Longrightarrow> nyxj_kv_keys kv p = (out, kv') \<Longrightarrow> kv_ok kv'"
  by (auto simp: nyxj_kv_keys_def now_ms_tick Let_def split: option.splits prod.splits)

lemma kv_do_keeps: "kv_ok kv \<Longrightarrow> op_ok c \<Longrightarrow> kv_do c kv = (r, kv') \<Longrightarrow> kv_ok kv'"
  by (cases c)
    (auto simp: kv_clear_map nyxj_kv_count_def split: prod.splits
       dest: kv_set_map(1) kv_get_map(1) kv_del_map(1) kv_exists_map kv_incr_map(1) kv_expire_map(1) kv_ttl_map kv_keys_keeps kv_sweep_map)

interpretation kv_table: preserved kv_ok op_ok kv_do
  by unfold_locales (rule kv_do_keeps)

subsection \<open>Creation\<close>

lemma kv_create_inv: "nyxj_kv_create h c n cap = Some (Some kv) \<Longrightarrow> heap_total h \<Longrightarrow> kv_inv kv \<and> abs_store kv = (\<lambda>_. None)"
proof -
  assume c: "nyxj_kv_create h c n cap = Some (Some kv)" and h: "heap_total h"
  have "heap_total (kv_heap kv)" using c h by (auto simp: nyxj_kv_create_def malloc_def heap_total_def Let_def split: if_splits)
  then show ?thesis using kv_create_map [OF c] by (simp add: kv_inv_def abs_store_def fun_eq_iff)
qed

lemma kv_create_returns: "nyxj_kv_create h c n cap = None \<longleftrightarrow> fst (malloc h n) \<and> 2 ^ 63 < cap"
proof -
  have "table_size 16 cap = None \<longleftrightarrow> 2 ^ 63 < cap"
    using table_size_fits [of cap 4] table_size_loops [of cap 4] by (force simp: not_le [symmetric])
  then show ?thesis by (auto simp: nyxj_kv_create_def Let_def split: prod.split)
qed

subsection \<open>Snapshots\<close>

lemma kv_save_states:
  assumes "nyxj_kv_save io d (Some kv) (Some path) = (ok, er, ds, kv')"
  shows "\<exists>new. (\<forall>s \<in> set ds. s path \<in> {d path, None, Some new} \<and> (\<forall>p. p \<notin> {path, tmp_path path} \<longrightarrow> s p = d p)) \<and>
    (ok \<longrightarrow> hd ds path = Some new \<and> hd ds (tmp_path path) = None)"
proof -
  have "ds = [d] \<and> \<not> ok \<or> (\<exists>new. write_snapshot io d path new = (ok, ds))"
    using assms by (auto simp: nyxj_kv_save_def Let_def split: option.splits prod.splits if_splits)
  then show ?thesis
  proof
    assume "\<exists>new. write_snapshot io d path new = (ok, ds)"
    then obtain new where w: "write_snapshot io d path new = (ok, ds)" by blast
    show ?thesis using write_snapshot_states [OF w] write_snapshot_end [OF w] by (intro exI [of _ new]) blast
  qed auto
qed

lemma serialize_heap_total:
  assumes "heap_total h" "nyxj_serialize h (Some v) = (t, h')"
  shows "heap_total h'"
proof -
  let ?s = "serialize_context None"
  define b where "b = write_value ?s (nyxj_buf_init h 256) v 0"
  have e: "out.emits True (\<lambda>b. write_value ?s b v 0) (value_text ?s v 0)" by (rule write_emits(1)) simp
  have i: "buf_ok (nyxj_buf_init h 256)" "True \<longrightarrow> buf_roomy (nyxj_buf_init h 256)"
    using nyxj_buf_init_ok assms(1) by simp_all
  have b: "buf_roomy b" "buf_ok b" unfolding b_def using out.emitsD(1,3) [OF e i] i(2) by simp_all
  obtain q b1 where r: "nyxj_buf_reserve b 0 = (q, b1)" by fastforce
  have "buf_roomy b1" using reserve_ok [OF b(2) r] b(1) by blast
  then have "buf_roomy (snd (nyxj_buf_detach b))"
    using r b(1) by (simp add: nyxj_buf_detach_def nyxj_buf_free_def buf_roomy_def)
  then show ?thesis using assms(2)
    by (simp add: nyxj_serialize_def nyxj_serialize_ex_def b_def [symmetric] buf_roomy_def Let_def split: prod.splits)
qed

text \<open>With memory, a disk that has room for the text and calls that succeed, saving succeeds.\<close>

lemma kv_save_succeeds:
  assumes "kv_inv kv"
  shows "\<exists>n. \<forall>io. opens io \<and> closes io \<and> renames io \<and> n \<le> written_bytes io \<longrightarrow>
    (\<exists>er ds kv'. nyxj_kv_save io d (Some kv) (Some path) = (True, er, ds, kv'))"
proof -
  obtain rs kv1 where s: "kv_snapshot kv = (Some (VObject False rs), kv1)" "heap_total (kv_heap kv1)"
    using snapshot_total assms unfolding kv_inv_def by blast
  obtain t h where t: "nyxj_serialize (kv_heap kv1) (Some (VObject False rs)) = (Some t, h)"
    using nyxj_serialize_ex_text [OF s(2), of "VObject False rs" None] unfolding nyxj_serialize_def by (metis prod.collapse)
  obtain h2 where h: "malloc h (length path + 5) = (True, h2)"
    using serialize_heap_total [OF s(2) t] malloc_total [of h "length path + 5"] by (cases "malloc h (length path + 5)") auto
  show ?thesis
    using s(1) t h by (intro exI [of _ "length (cstr t)"]) (auto simp: nyxj_kv_save_def write_snapshot_def Let_def split: prod.splits)
qed

end
