(* ===== verification/Schema.thy ===== *)
theory Schema
  imports Double_Ops Patch Parser
begin

text \<open>
  \<^verbatim>\<open>src/modules/schema.c\<close>: the JSON Schema validator.

  A validation threads the report of the context, \<open>None\<close> for the silent mode, and returns the verdict with it. The
  depth of the context is restored on every way out of \<open>validate\<close>, so the model passes it down instead, as the
  number of levels left below \<open>MAX_REF_DEPTH\<close>. Schema and instance are different trees: no node of the one is
  (by address) a node of the other.
\<close>

definition MAX_REF_DEPTH :: nat where "MAX_REF_DEPTH = 64"

definition NYXJ_SCHEMA_MAX_ISSUES :: nat where "NYXJ_SCHEMA_MAX_ISSUES = 32"

record nyxj_schema_issue =
  issue_path :: string
  issue_keyword :: string
  issue_message :: string

text \<open>\<open>count\<close> is the length of \<open>issues\<close>.\<close>

record nyxj_schema_report =
  total_issues :: nat
  issues :: "nyxj_schema_issue list"

type_synonym report = "nyxj_schema_report option"

definition issue :: "report \<Rightarrow> string \<Rightarrow> string \<Rightarrow> string \<Rightarrow> report" where
  "issue rep path keyword text =
     (case rep of
        None \<Rightarrow> None
      | Some r \<Rightarrow>
          (let r = r\<lparr>total_issues := total_issues r + 1\<rparr>
           in if length (issues r) \<ge> NYXJ_SCHEMA_MAX_ISSUES then Some r
              else Some (r\<lparr>issues := issues r @
                [\<lparr>issue_path = snprintf 128 path, issue_keyword = snprintf 24 keyword, issue_message = snprintf 160 text\<rparr>]\<rparr>)))"

definition kw :: "nyxj_value \<Rightarrow> string \<Rightarrow> nyxj_value option" where
  "kw s name = nyxj_get_member (Some s) name"

definition num_kw :: "nyxj_value \<Rightarrow> string \<Rightarrow> double option" where
  "num_kw s name = (case kw s name of Some (VNumber fl n) \<Rightarrow> Some n | _ \<Rightarrow> None)"

definition is_integer :: "nyxj_value \<Rightarrow> bool" where
  "is_integer v = (case v of VNumber fl n \<Rightarrow> dbl_is_finite n \<and> dbl_eq (dbl_floor n) n | _ \<Rightarrow> False)"

definition type_matches :: "string \<Rightarrow> nyxj_value \<Rightarrow> bool" where
  "type_matches t v = (if t = ''integer'' then is_integer v else t = nyxj_type_name (value_type v))"

definition utf8_length :: "string \<Rightarrow> nat" where
  "utf8_length s = length (filter (\<lambda>c. byte c AND 0xC0 \<noteq> 0x80) s)"

definition child_key :: "string \<Rightarrow> string \<Rightarrow> string" where
  "child_key path key = snprintf 256 (path @ ''.'' @ key)"

definition child_idx :: "string \<Rightarrow> nat \<Rightarrow> string" where
  "child_idx path i = snprintf 256 (path @ ''['' @ dec_nat i @ '']'')"

text \<open>The \<open>%g\<close> of \<open>printf\<close>.\<close>

definition percent_g :: "double \<Rightarrow> string" where
  "percent_g d =
     (let sg = (if dbl_sign d then ''-'' else [])
      in if dbl_is_nan d then sg @ ''nan'' else if dbl_is_inf d then sg @ ''inf'' else format_g 6 d)"

subsection \<open>Formats\<close>

definition all_digits :: "string \<Rightarrow> nat \<Rightarrow> bool" where
  "all_digits s n \<longleftrightarrow> n \<le> length s \<and> list_all is_digit_char (take n s)"

definition is_xdigit :: "char \<Rightarrow> bool" where
  "is_xdigit c \<longleftrightarrow> is_digit_char c \<or> (97 \<le> byte c \<and> byte c \<le> 102) \<or> (65 \<le> byte c \<and> byte c \<le> 70)"

text \<open>\<open>strchr\<close>: the suffix from the first occurrence.\<close>

definition strchr :: "string \<Rightarrow> char \<Rightarrow> string option" where
  "strchr s c = (case dropWhile (\<lambda>d. d \<noteq> c) s of [] \<Rightarrow> None | t \<Rightarrow> Some t)"

definition email_ok :: "string \<Rightarrow> bool" where
  "email_ok s =
     (case strchr s (CHR ''@'') of
        None \<Rightarrow> False
      | Some at \<Rightarrow>
          at \<noteq> s \<and> strchr (tl at) (CHR ''.'') \<noteq> None \<and> hd (tl at) \<noteq> CHR ''.'' \<and> last s \<noteq> CHR ''.'' \<and>
          strchr (tl at) (CHR ''@'') = None)"

definition uuid_ok :: "string \<Rightarrow> bool" where
  "uuid_ok s \<longleftrightarrow>
     length s = 36 \<and>
     list_all (\<lambda>i. if i = 8 \<or> i = 13 \<or> i = 18 \<or> i = 23 then s ! i = CHR ''-'' else is_xdigit (s ! i)) [0 ..< 36]"

text \<open>The loop over the parts of an address: the number of parts, unless it returns. A part of more than three digits is
  refused whatever its value; the code computes the value in an \<open>int\<close>, which overflows on ten digits.\<close>

function ipv4_parts :: "string \<Rightarrow> nat \<Rightarrow> nat option" where
  "ipv4_parts p parts =
     (if p = [] then Some parts
      else let ds = takeWhile is_digit_char p; q = dropWhile is_digit_char p
           in if ds = [] \<or> 3 < length ds \<or> 255 < dec_val ds then None
              else if q = [] then Some (parts + 1)
              else if hd q = CHR ''.'' then ipv4_parts (tl q) (parts + 1)
              else None)"
  by pat_completeness auto
termination
proof (relation "measure (\<lambda>(p, parts). length p)")
  fix p :: string and parts :: nat and ds q :: string
  assume "p \<noteq> []" "q = dropWhile is_digit_char p" "q \<noteq> []"
  then show "((tl q, parts + 1), p, parts) \<in> measure (\<lambda>(p, parts). length p)"
    using length_dropWhile_le [of is_digit_char p] by (cases "dropWhile is_digit_char p") auto
qed simp

declare ipv4_parts.simps [simp del]

definition ipv4_ok :: "string \<Rightarrow> bool" where
  "ipv4_ok s \<longleftrightarrow> ipv4_parts s 0 = Some 4 \<and> last s \<noteq> CHR ''.''"

definition date_ok :: "string \<Rightarrow> bool" where
  "date_ok s \<longleftrightarrow>
     10 \<le> length s \<and> all_digits s 4 \<and> s ! 4 = CHR ''-'' \<and> all_digits (drop 5 s) 2 \<and> s ! 7 = CHR ''-'' \<and>
     all_digits (drop 8 s) 2"

definition time_ok :: "string \<Rightarrow> bool" where
  "time_ok s \<longleftrightarrow>
     20 \<le> length s \<and> (s ! 10 = CHR ''T'' \<or> s ! 10 = CHR ''t'' \<or> s ! 10 = CHR '' '') \<and> all_digits (drop 11 s) 2 \<and>
     s ! 13 = CHR '':'' \<and> all_digits (drop 14 s) 2 \<and> s ! 16 = CHR '':'' \<and> all_digits (drop 17 s) 2"

definition format_ok :: "string \<Rightarrow> string \<Rightarrow> bool" where
  "format_ok fmt s =
     (if fmt = ''email'' then email_ok s
      else if fmt = ''uuid'' then uuid_ok s
      else if fmt = ''ipv4'' then ipv4_ok s
      else if fmt = ''date'' then date_ok s \<and> length s = 10
      else if fmt = ''date-time'' then date_ok s \<and> time_ok s
      else True)"

subsection \<open>Sequencing\<close>

text \<open>What a check does with the report, and its verdict.\<close>

type_synonym check = "report \<Rightarrow> bool \<times> report"

text \<open>A validation of an instance against a schema at a path.\<close>

type_synonym validator = "nyxj_value \<Rightarrow> nyxj_value \<Rightarrow> string \<Rightarrow> check"

definition pass :: check where
  "pass rep = (True, rep)"

text \<open>The check with a failure that is reported, unless the condition holds.\<close>

definition require :: "bool \<Rightarrow> string \<Rightarrow> string \<Rightarrow> string \<Rightarrow> check" where
  "require b path keyword text rep = (if b then (True, rep) else (False, issue rep path keyword text))"

text \<open>\<open>FAIL_FAST\<close> and the early returns of the loops: after a failure the silent mode leaves, the other mode goes on.\<close>

definition chk_then :: "check \<Rightarrow> check \<Rightarrow> check" where
  "chk_then f g rep =
     (let (ok, rep) = f rep
      in if \<not> ok \<and> rep = None then (False, None) else let (ok2, rep) = g rep in (ok \<and> ok2, rep))"

text \<open>\<open>ok = false\<close> without a way out.\<close>

definition chk_also :: "check \<Rightarrow> check \<Rightarrow> check" where
  "chk_also f g rep = (let (ok, rep) = f rep; (ok2, rep) = g rep in (ok \<and> ok2, rep))"

text \<open>\<open>goto out\<close> in both modes.\<close>

definition chk_leave :: "check \<Rightarrow> check \<Rightarrow> check" where
  "chk_leave f g rep = (let (ok, rep) = f rep in if \<not> ok then (False, rep) else g rep)"

primrec each :: "('a \<Rightarrow> check) \<Rightarrow> 'a list \<Rightarrow> check" where
  "each f [] = pass"
| "each f (x # xs) = chk_then (f x) (each f xs)"

definition silent_valid :: "validator \<Rightarrow> nyxj_value \<Rightarrow> nyxj_value \<Rightarrow> string \<Rightarrow> bool" where
  "silent_valid rec s v path = fst (rec s v path None)"

definition items_of :: "nyxj_value option \<Rightarrow> nyxj_value list" where
  "items_of v = (case v of Some (VArray fl xs cap) \<Rightarrow> xs | _ \<Rightarrow> [])"

definition pairs_of :: "nyxj_value \<Rightarrow> (string \<times> nyxj_value) list" where
  "pairs_of v = (case v of VObject fl ps \<Rightarrow> ps | _ \<Rightarrow> [])"

definition is_array :: "nyxj_value option \<Rightarrow> bool" where
  "is_array v = (case v of Some (VArray fl xs cap) \<Rightarrow> True | _ \<Rightarrow> False)"

definition true_kw :: "nyxj_value \<Rightarrow> string \<Rightarrow> bool" where
  "true_kw s name = (case kw s name of Some (VBool fl b) \<Rightarrow> b | _ \<Rightarrow> False)"

subsection \<open>Objects\<close>

definition check_required :: "nyxj_value \<Rightarrow> nyxj_value \<Rightarrow> string \<Rightarrow> check" where
  "check_required s v path =
     each (\<lambda>k. case k of
         VString fl name \<Rightarrow>
           require (nyxj_get_member (Some v) name \<noteq> None) path ''required'' (quoted ''missing required property ~'' @ name @ quoted ''~'')
       | _ \<Rightarrow> pass)
       (items_of (kw s ''required''))"

text \<open>A limit on a number of elements or characters.\<close>

definition check_limit :: "nyxj_value \<Rightarrow> string \<Rightarrow> (double \<Rightarrow> bool) \<Rightarrow> (double \<Rightarrow> string) \<Rightarrow> string \<Rightarrow> check" where
  "check_limit s name fits text path =
     (case num_kw s name of None \<Rightarrow> pass | Some lim \<Rightarrow> require (fits lim) path name (text lim))"

definition check_property :: "validator \<Rightarrow> nyxj_value \<Rightarrow> string \<Rightarrow> string \<times> nyxj_value \<Rightarrow> check" where
  "check_property rec s path p =
     (let sub = child_key path (fst p);
          ps = (case kw s ''properties'' of None \<Rightarrow> None | Some props \<Rightarrow> nyxj_get_member (Some props) (fst p))
      in case ps of
           Some t \<Rightarrow> rec t (snd p) sub
         | None \<Rightarrow>
             (case kw s ''additionalProperties'' of
                Some (VBool fl b) \<Rightarrow>
                  require b sub ''additionalProperties'' (quoted ''property ~'' @ fst p @ quoted ''~ is not allowed'')
              | Some (VObject fl ps) \<Rightarrow> rec (VObject fl ps) (snd p) sub
              | _ \<Rightarrow> pass))"

definition validate_object :: "validator \<Rightarrow> nyxj_value \<Rightarrow> nyxj_value \<Rightarrow> string \<Rightarrow> check" where
  "validate_object rec s v path =
     (let n = length (pairs_of v)
      in chk_then (check_required s v path)
        (chk_also (check_limit s ''minProperties'' (\<lambda>lim. \<not> dbl_less (dbl_of_nat n) lim)
            (\<lambda>lim. ''expected at least '' @ percent_g lim @ '' properties, got '' @ dec_nat n) path)
        (chk_also (check_limit s ''maxProperties'' (\<lambda>lim. \<not> dbl_less lim (dbl_of_nat n))
            (\<lambda>lim. ''expected at most '' @ percent_g lim @ '' properties, got '' @ dec_nat n) path)
        (each (check_property rec s path) (pairs_of v)))))"


subsection \<open>Arrays\<close>

text \<open>The first pair of equal items: the outer loop stops after the first one found.\<close>

fun equal_pair :: "nat \<Rightarrow> nyxj_value list \<Rightarrow> (nat \<times> nat) option" where
  "equal_pair i [] = None"
| "equal_pair i (x # xs) =
     (case find (\<lambda>j. nyxj_equals False (Some x) (Some (xs ! j))) [0 ..< length xs] of
        Some j \<Rightarrow> Some (i, i + 1 + j)
      | None \<Rightarrow> equal_pair (i + 1) xs)"

definition check_unique :: "nyxj_value \<Rightarrow> nyxj_value list \<Rightarrow> string \<Rightarrow> check" where
  "check_unique s xs path rep =
     (if true_kw s ''uniqueItems''
      then case equal_pair 0 xs of
          None \<Rightarrow> (True, rep)
        | Some (i, j) \<Rightarrow>
            (False, issue rep path ''uniqueItems'' (''items '' @ dec_nat i @ '' and '' @ dec_nat j @ '' are equal''))
      else (True, rep))"

definition check_item :: "validator \<Rightarrow> string \<Rightarrow> nyxj_value \<times> nyxj_value \<times> nat \<Rightarrow> check" where
  "check_item rec path p = (let (s, v, i) = p in rec s v (child_idx path i))"

text \<open>\<open>prefix\<close> and \<open>items\<close> after the tuple form of the older drafts.\<close>

definition tuple_items :: "nyxj_value \<Rightarrow> nyxj_value option \<times> nyxj_value option" where
  "tuple_items s =
     (if kw s ''prefixItems'' = None \<and> is_array (kw s ''items'') then (kw s ''items'', None)
      else (kw s ''prefixItems'', kw s ''items''))"

definition check_prefix :: "validator \<Rightarrow> nyxj_value \<Rightarrow> nyxj_value list \<Rightarrow> string \<Rightarrow> check" where
  "check_prefix rec s xs path =
     (let ss = items_of (fst (tuple_items s)) in each (check_item rec path) (zip ss (zip xs [0 ..< length xs])))"

definition check_rest :: "validator \<Rightarrow> nyxj_value \<Rightarrow> nyxj_value list \<Rightarrow> string \<Rightarrow> check" where
  "check_rest rec s xs path =
     (let start = length (items_of (fst (tuple_items s)))
      in case snd (tuple_items s) of
           Some t \<Rightarrow>
             (if value_type t = NYXJ_OBJECT \<or> value_type t = NYXJ_BOOL
              then each (check_item rec path) (map (\<lambda>i. (t, xs ! i, i)) [start ..< length xs]) else pass)
         | None \<Rightarrow> pass)"

definition check_contains :: "validator \<Rightarrow> nyxj_value \<Rightarrow> nyxj_value list \<Rightarrow> string \<Rightarrow> check" where
  "check_contains rec s xs path =
     (case kw s ''contains'' of
        None \<Rightarrow> pass
      | Some t \<Rightarrow>
          require (list_ex (\<lambda>x. silent_valid rec t x path) xs) path ''contains'' (quoted ''no item matches the ~contains~ schema''))"

text \<open>The loop for repeated items runs only while \<open>ok\<close>; a failed item of the two loops after it leaves in the silent
  mode.\<close>

definition validate_array :: "validator \<Rightarrow> nyxj_value \<Rightarrow> nyxj_value \<Rightarrow> string \<Rightarrow> check" where
  "validate_array rec s v path =
     (let xs = items_of (Some v); n = length xs
      in chk_also
        (chk_leave
          (chk_also (check_limit s ''minItems'' (\<lambda>lim. \<not> dbl_less (dbl_of_nat n) lim)
              (\<lambda>lim. ''expected at least '' @ percent_g lim @ '' items, got '' @ dec_nat n) path)
            (check_limit s ''maxItems'' (\<lambda>lim. \<not> dbl_less lim (dbl_of_nat n))
              (\<lambda>lim. ''expected at most '' @ percent_g lim @ '' items, got '' @ dec_nat n) path))
          (check_unique s xs path))
        (chk_then (chk_then (check_prefix rec s xs path) (check_rest rec s xs path)) (check_contains rec s xs path)))"

subsection \<open>Every instance\<close>

definition check_ref :: "validator \<Rightarrow> nyxj_value \<Rightarrow> nyxj_value \<Rightarrow> nyxj_value \<Rightarrow> string \<Rightarrow> check" where
  "check_ref rec doc s v path =
     (case kw s ''$ref'' of
        Some (VString fl r) \<Rightarrow>
          (let target = (if r = ''#'' then Some doc
                         else if r \<noteq> [] \<and> hd r = CHR ''#'' then nyxj_pointer_get (Some doc) (Some (tl r)) else None)
           in case target of
                None \<Rightarrow> require False path ''$ref'' (quoted ''unresolvable reference ~'' @ r @ quoted ''~'')
              | Some t \<Rightarrow> rec t v path)
      | _ \<Rightarrow> pass)"

definition type_ok :: "nyxj_value \<Rightarrow> nyxj_value \<Rightarrow> bool" where
  "type_ok s v =
     (case kw s ''type'' of
        Some (VString fl t) \<Rightarrow> type_matches t v
      | Some (VArray fl ts cap) \<Rightarrow> list_ex (\<lambda>t. case t of VString fl t \<Rightarrow> type_matches t v | _ \<Rightarrow> False) ts
      | _ \<Rightarrow> True)"

definition check_type :: "nyxj_value \<Rightarrow> nyxj_value \<Rightarrow> string \<Rightarrow> check" where
  "check_type s v path =
     require (type_ok s v) path ''type''
       (''expected '' @ (case kw s ''type'' of Some (VString fl t) \<Rightarrow> t | _ \<Rightarrow> ''one of the listed types'') @ '', got '' @
        nyxj_type_name (value_type v))"

definition check_enum :: "nyxj_value \<Rightarrow> nyxj_value \<Rightarrow> string \<Rightarrow> check" where
  "check_enum s v path =
     (case kw s ''enum'' of
        Some (VArray fl xs cap) \<Rightarrow>
          require (list_ex (\<lambda>x. nyxj_equals False (Some x) (Some v)) xs) path ''enum'' ''value is not one of the allowed values''
      | _ \<Rightarrow> pass)"

definition check_const :: "nyxj_value \<Rightarrow> nyxj_value \<Rightarrow> string \<Rightarrow> check" where
  "check_const s v path =
     (case kw s ''const'' of
        Some c \<Rightarrow> require (nyxj_equals False (Some c) (Some v)) path ''const'' ''value does not match the constant''
      | None \<Rightarrow> pass)"

text \<open>The double nearest to \<open>1e-9\<close>.\<close>

definition epsilon :: double where
  "epsilon = 0x3E112E0BE826D695"

definition multiple_of :: "double \<Rightarrow> double \<Rightarrow> bool" where
  "multiple_of x lim \<longleftrightarrow>
     \<not> dbl_less 0 lim \<or> (let q = dbl_div x lim in \<not> dbl_less epsilon (dbl_fabs (dbl_sub q (nearbyint q))))"

definition check_number :: "nyxj_value \<Rightarrow> double \<Rightarrow> string \<Rightarrow> check" where
  "check_number s x path =
     chk_then (check_limit s ''minimum'' (\<lambda>lim. \<not> (if true_kw s ''exclusiveMinimum'' then dbl_le x lim else dbl_less x lim))
         (\<lambda>lim. percent_g x @ '' is less than the minimum '' @ percent_g lim) path)
     (chk_then (check_limit s ''maximum'' (\<lambda>lim. \<not> (if true_kw s ''exclusiveMaximum'' then dbl_le lim x else dbl_less lim x))
         (\<lambda>lim. percent_g x @ '' is greater than the maximum '' @ percent_g lim) path)
     (chk_then (check_limit s ''exclusiveMinimum'' (\<lambda>lim. \<not> dbl_le x lim)
         (\<lambda>lim. percent_g x @ '' must be greater than '' @ percent_g lim) path)
     (chk_then (check_limit s ''exclusiveMaximum'' (\<lambda>lim. \<not> dbl_le lim x)
         (\<lambda>lim. percent_g x @ '' must be less than '' @ percent_g lim) path)
       (check_limit s ''multipleOf'' (multiple_of x) (\<lambda>lim. percent_g x @ '' is not a multiple of '' @ percent_g lim) path))))"

definition check_string :: "nyxj_value \<Rightarrow> string \<Rightarrow> string \<Rightarrow> check" where
  "check_string s t path =
     chk_then (check_limit s ''minLength'' (\<lambda>lim. \<not> dbl_less (dbl_of_nat (utf8_length t)) lim)
         (\<lambda>lim. ''string is shorter than '' @ percent_g lim @ '' characters'') path)
     (chk_then (check_limit s ''maxLength'' (\<lambda>lim. \<not> dbl_less lim (dbl_of_nat (utf8_length t)))
         (\<lambda>lim. ''string is longer than '' @ percent_g lim @ '' characters'') path)
       (case kw s ''format'' of
          Some (VString fl fmt) \<Rightarrow> require (format_ok fmt t) path ''format'' (quoted ''string is not a valid ~'' @ fmt @ quoted ''~'')
        | _ \<Rightarrow> pass))"

definition check_by_type :: "validator \<Rightarrow> nyxj_value \<Rightarrow> nyxj_value \<Rightarrow> string \<Rightarrow> check" where
  "check_by_type rec s v path =
     (case v of
        VNumber fl x \<Rightarrow> check_number s x path
      | VString fl t \<Rightarrow> check_string s t path
      | VObject fl ps \<Rightarrow> validate_object rec s v path
      | VArray fl xs cap \<Rightarrow> validate_array rec s v path
      | _ \<Rightarrow> pass)"

definition check_all :: "validator \<Rightarrow> nyxj_value \<Rightarrow> nyxj_value \<Rightarrow> string \<Rightarrow> check" where
  "check_all rec s v path = each (\<lambda>t. rec t v path) (items_of (kw s ''allOf''))"

definition check_any :: "validator \<Rightarrow> nyxj_value \<Rightarrow> nyxj_value \<Rightarrow> string \<Rightarrow> check" where
  "check_any rec s v path =
     require (is_array (kw s ''anyOf'') \<longrightarrow> list_ex (\<lambda>t. silent_valid rec t v path) (items_of (kw s ''anyOf'')))
       path ''anyOf'' ''value does not match any of the schemas''"

definition check_one :: "validator \<Rightarrow> nyxj_value \<Rightarrow> nyxj_value \<Rightarrow> string \<Rightarrow> check" where
  "check_one rec s v path =
     (let matches = length (filter (\<lambda>t. silent_valid rec t v path) (items_of (kw s ''oneOf'')))
      in require (is_array (kw s ''oneOf'') \<longrightarrow> matches = 1) path ''oneOf''
           (''value matches '' @ dec_nat matches @ '' schemas instead of exactly one''))"

definition check_not :: "validator \<Rightarrow> nyxj_value \<Rightarrow> nyxj_value \<Rightarrow> string \<Rightarrow> check" where
  "check_not rec s v path =
     require (case kw s ''not'' of Some t \<Rightarrow> \<not> silent_valid rec t v path | None \<Rightarrow> True)
       path ''not'' ''value must not match the schema''"

definition check_if :: "validator \<Rightarrow> nyxj_value \<Rightarrow> nyxj_value \<Rightarrow> string \<Rightarrow> check" where
  "check_if rec s v path =
     (case kw s ''if'' of
        None \<Rightarrow> pass
      | Some t \<Rightarrow>
          (case (if silent_valid rec t v path then kw s ''then'' else kw s ''else'') of
             None \<Rightarrow> pass
           | Some b \<Rightarrow> rec b v path))"

definition check_schema :: "validator \<Rightarrow> nyxj_value \<Rightarrow> validator" where
  "check_schema rec doc s v path =
     chk_then (check_ref rec doc s v path)
     (chk_leave (check_type s v path)
     (chk_then (check_enum s v path)
     (chk_then (check_const s v path)
     (chk_then (check_by_type rec s v path)
     (chk_then (check_all rec s v path)
     (chk_then (check_any rec s v path)
     (chk_then (check_one rec s v path)
     (chk_then (check_not rec s v path) (check_if rec s v path)))))))))"

text \<open>\<open>left\<close> is \<open>MAX_REF_DEPTH\<close> less the depth.\<close>

primrec validate :: "nyxj_value \<Rightarrow> nat \<Rightarrow> validator" where
  "validate doc 0 s v path =
     (case s of
        VBool fl b \<Rightarrow> require b path ''false'' ''no value is allowed here''
      | VObject fl ps \<Rightarrow> require False path ''$ref'' ''schema recursion is too deep''
      | _ \<Rightarrow> pass)"
| "validate doc (Suc left) s v path =
     (case s of
        VBool fl b \<Rightarrow> require b path ''false'' ''no value is allowed here''
      | VObject fl ps \<Rightarrow> check_schema (validate doc left) doc s v path
      | _ \<Rightarrow> pass)"

definition nyxj_schema_validate :: "nyxj_value option \<Rightarrow> nyxj_value option \<Rightarrow> report \<Rightarrow> bool \<times> report" where
  "nyxj_schema_validate schema inst rep =
     (let rep = map_option (\<lambda>_. \<lparr>total_issues = 0, issues = []\<rparr>) rep
      in case (schema, inst) of
           (Some s, Some v) \<Rightarrow> validate s MAX_REF_DEPTH s v ''$'' rep
         | _ \<Rightarrow> (False, rep))"

definition nyxj_schema_validate_json ::
    "simd_backend \<Rightarrow> heap \<Rightarrow> bytes option \<Rightarrow> bytes option \<Rightarrow> report \<Rightarrow> bool \<times> nyxj_error \<times> report \<times> heap" where
  "nyxj_schema_validate_json be h schema_json instance_json rep =
     (let s = nyxj_parse be h schema_json
      in if \<not> is_valid s then (False, error s, rep, heap_after s)
         else let i = nyxj_parse be (heap_after s) instance_json
              in if \<not> is_valid i then (False, error i, rep, heap_after i)
                 else let (ok, rep) = nyxj_schema_validate (root s) (root i) rep
                      in (ok, if ok then no_error else nyxj_error_set NYXJ_ERR_SCHEMA_VIOLATION None no_error, rep, heap_after i))"

text \<open>The loop stops at an object that cannot be allocated.\<close>

primrec report_objects :: "nyxj_schema_issue list \<Rightarrow> nyxj_value \<times> heap \<Rightarrow> nyxj_value \<times> heap" where
  "report_objects [] acc = acc"
| "report_objects (i # is) acc =
     (let (arr, h) = acc
      in case nyxj_new_object h of
           (None, h) \<Rightarrow> (arr, h)
         | (Some x, h) \<Rightarrow>
             (let (ok, x, h) = nyxj_object_set_string h x ''path'' (Some (issue_path i));
                  (ok, x, h) = nyxj_object_set_string h x ''keyword'' (Some (issue_keyword i));
                  (ok, x, h) = nyxj_object_set_string h x ''message'' (Some (issue_message i));
                  (ok, arr, h) = nyxj_array_push h arr (Some x)
              in report_objects is (arr, h)))"

definition nyxj_schema_report_to_value :: "heap \<Rightarrow> report \<Rightarrow> nyxj_value option \<times> heap" where
  "nyxj_schema_report_to_value h rep =
     (case (nyxj_new_array h, rep) of
        ((Some arr, h), Some r) \<Rightarrow> (let (arr, h) = report_objects (issues r) (arr, h) in (Some arr, h))
      | ((arr, h), _) \<Rightarrow> (arr, h))"

end
