(* ===== verification/Schema_Facts.thy ===== *)
theory Schema_Facts
  imports Schema
begin

text \<open>
  What the validator decides: \<open>conforms\<close> states the meaning of the keywords, without a report and without an order of
  the checks. Both modes of the validator return it, and the report has an issue exactly when the instance does not
  conform.
\<close>

subsection \<open>The meaning of a schema\<close>

definition limit_ok :: "nyxj_value \<Rightarrow> string \<Rightarrow> (double \<Rightarrow> bool) \<Rightarrow> bool" where
  "limit_ok s name fits \<longleftrightarrow> (\<forall>lim. num_kw s name = Some lim \<longrightarrow> fits lim)"

definition object_conforms :: "(nyxj_value \<Rightarrow> nyxj_value \<Rightarrow> bool) \<Rightarrow> nyxj_value \<Rightarrow> (string \<times> nyxj_value) list \<Rightarrow> bool" where
  "object_conforms sat s ps \<longleftrightarrow>
     (\<forall>fl name. VString fl name \<in> set (items_of (kw s ''required'')) \<longrightarrow> map_of ps name \<noteq> None) \<and>
     limit_ok s ''minProperties'' (\<lambda>lim. \<not> dbl_less (dbl_of_nat (length ps)) lim) \<and>
     limit_ok s ''maxProperties'' (\<lambda>lim. \<not> dbl_less lim (dbl_of_nat (length ps))) \<and>
     (\<forall>(k, x) \<in> set ps.
        case nyxj_get_member (kw s ''properties'') k of
          Some t \<Rightarrow> sat t x
        | None \<Rightarrow>
            (case kw s ''additionalProperties'' of
               Some (VBool fl b) \<Rightarrow> b | Some (VObject fl qs) \<Rightarrow> sat (VObject fl qs) x | _ \<Rightarrow> True))"

definition array_conforms :: "(nyxj_value \<Rightarrow> nyxj_value \<Rightarrow> bool) \<Rightarrow> nyxj_value \<Rightarrow> nyxj_value list \<Rightarrow> bool" where
  "array_conforms sat s xs \<longleftrightarrow>
     (let n = length xs; ss = items_of (fst (tuple_items s))
      in limit_ok s ''minItems'' (\<lambda>lim. \<not> dbl_less (dbl_of_nat n) lim) \<and>
         limit_ok s ''maxItems'' (\<lambda>lim. \<not> dbl_less lim (dbl_of_nat n)) \<and>
         (true_kw s ''uniqueItems'' \<longrightarrow> (\<forall>i j. i < j \<and> j < n \<longrightarrow> \<not> nyxj_equals False (Some (xs ! i)) (Some (xs ! j)))) \<and>
         (\<forall>i < n. i < length ss \<longrightarrow> sat (ss ! i) (xs ! i)) \<and>
         (\<forall>t i. snd (tuple_items s) = Some t \<and> value_type t \<in> {NYXJ_OBJECT, NYXJ_BOOL} \<and> length ss \<le> i \<and> i < n \<longrightarrow> sat t (xs ! i)) \<and>
         (\<forall>t. kw s ''contains'' = Some t \<longrightarrow> (\<exists>x \<in> set xs. sat t x)))"

definition number_conforms :: "nyxj_value \<Rightarrow> double \<Rightarrow> bool" where
  "number_conforms s x \<longleftrightarrow>
     limit_ok s ''minimum'' (\<lambda>lim. \<not> (if true_kw s ''exclusiveMinimum'' then dbl_le x lim else dbl_less x lim)) \<and>
     limit_ok s ''maximum'' (\<lambda>lim. \<not> (if true_kw s ''exclusiveMaximum'' then dbl_le lim x else dbl_less lim x)) \<and>
     limit_ok s ''exclusiveMinimum'' (\<lambda>lim. \<not> dbl_le x lim) \<and>
     limit_ok s ''exclusiveMaximum'' (\<lambda>lim. \<not> dbl_le lim x) \<and>
     limit_ok s ''multipleOf'' (multiple_of x)"

definition string_conforms :: "nyxj_value \<Rightarrow> string \<Rightarrow> bool" where
  "string_conforms s t \<longleftrightarrow>
     limit_ok s ''minLength'' (\<lambda>lim. \<not> dbl_less (dbl_of_nat (utf8_length t)) lim) \<and>
     limit_ok s ''maxLength'' (\<lambda>lim. \<not> dbl_less lim (dbl_of_nat (utf8_length t))) \<and>
     (\<forall>fl fmt. kw s ''format'' = Some (VString fl fmt) \<longrightarrow> format_ok fmt t)"

text \<open>What a local reference names.\<close>

definition ref_target :: "nyxj_value \<Rightarrow> string \<Rightarrow> nyxj_value option" where
  "ref_target doc r =
     (case r of
        [] \<Rightarrow> None
      | c # p \<Rightarrow> if c \<noteq> CHR ''#'' then None else if p = [] then Some doc else nyxj_pointer_get (Some doc) (Some p))"

definition schema_conforms :: "(nyxj_value \<Rightarrow> nyxj_value \<Rightarrow> bool) \<Rightarrow> nyxj_value \<Rightarrow> nyxj_value \<Rightarrow> nyxj_value \<Rightarrow> bool" where
  "schema_conforms sat doc s v \<longleftrightarrow>
     (\<forall>fl r. kw s ''$ref'' = Some (VString fl r) \<longrightarrow> (\<exists>t. ref_target doc r = Some t \<and> sat t v)) \<and>
     type_ok s v \<and>
     (is_array (kw s ''enum'') \<longrightarrow> (\<exists>x \<in> set (items_of (kw s ''enum'')). nyxj_equals False (Some x) (Some v))) \<and>
     (\<forall>c. kw s ''const'' = Some c \<longrightarrow> nyxj_equals False (Some c) (Some v)) \<and>
     (case v of
        VNumber fl x \<Rightarrow> number_conforms s x
      | VString fl t \<Rightarrow> string_conforms s t
      | VObject fl ps \<Rightarrow> object_conforms sat s ps
      | VArray fl xs cap \<Rightarrow> array_conforms sat s xs
      | _ \<Rightarrow> True) \<and>
     (\<forall>t \<in> set (items_of (kw s ''allOf'')). sat t v) \<and>
     (is_array (kw s ''anyOf'') \<longrightarrow> (\<exists>t \<in> set (items_of (kw s ''anyOf'')). sat t v)) \<and>
     (is_array (kw s ''oneOf'') \<longrightarrow> length (filter (\<lambda>t. sat t v) (items_of (kw s ''oneOf''))) = 1) \<and>
     (\<forall>t. kw s ''not'' = Some t \<longrightarrow> \<not> sat t v) \<and>
     (\<forall>t b. kw s ''if'' = Some t \<longrightarrow> kw s (if sat t v then ''then'' else ''else'') = Some b \<longrightarrow> sat b v)"

text \<open>A schema that is not an object or a boolean says nothing; references may nest to the given depth.\<close>

primrec conforms :: "nyxj_value \<Rightarrow> nat \<Rightarrow> nyxj_value \<Rightarrow> nyxj_value \<Rightarrow> bool" where
  "conforms doc 0 s v = (case s of VBool fl b \<Rightarrow> b | VObject fl ps \<Rightarrow> False | _ \<Rightarrow> True)"
| "conforms doc (Suc n) s v =
     (case s of VBool fl b \<Rightarrow> b | VObject fl ps \<Rightarrow> schema_conforms (conforms doc n) doc s v | _ \<Rightarrow> True)"

subsection \<open>Reports\<close>

definition report_ok :: "nyxj_schema_report \<Rightarrow> bool" where
  "report_ok r \<longleftrightarrow> length (issues r) = min (total_issues r) NYXJ_SCHEMA_MAX_ISSUES \<and>
     (\<forall>i \<in> set (issues r). length (issue_path i) < 128 \<and> length (issue_keyword i) < 24 \<and> length (issue_message i) < 160)"

text \<open>A report after a check: kept when it held, longer when it failed.\<close>

definition reported :: "bool \<Rightarrow> report \<Rightarrow> report \<Rightarrow> bool" where
  "reported b rep rep' =
     (case (rep, rep') of
        (None, None) \<Rightarrow> True
      | (Some r, Some r') \<Rightarrow>
          total_issues r \<le> total_issues r' \<and> (b \<longleftrightarrow> total_issues r' = total_issues r) \<and> (report_ok r \<longrightarrow> report_ok r')
      | _ \<Rightarrow> False)"

definition decides :: "bool \<Rightarrow> check \<Rightarrow> bool" where
  "decides b f \<longleftrightarrow> (\<forall>rep. fst (f rep) = b \<and> reported b rep (snd (f rep)))"

lemma issue_report_ok: "report_ok r \<Longrightarrow> issue (Some r) p k m = Some r' \<Longrightarrow> report_ok r'"
  by (auto simp: report_ok_def issue_def Let_def length_snprintf split: if_splits)

lemma issue_reported: "reported False rep (issue rep p k m)"
proof (cases rep)
  case (Some r)
  have "\<exists>r'. issue (Some r) p k m = Some r' \<and> total_issues r' = total_issues r + 1" by (simp add: issue_def Let_def)
  then obtain r' where r': "issue (Some r) p k m = Some r'" "total_issues r' = total_issues r + 1" by blast
  then show ?thesis using Some issue_report_ok [OF _ r'(1)] by (simp add: reported_def)
qed (simp add: reported_def issue_def)

lemma reported_trans: "reported a r s \<Longrightarrow> reported b s t \<Longrightarrow> reported (a \<and> b) r t"
  by (cases r; cases s; cases t) (auto simp: reported_def)

lemma decidesD: "decides b f \<Longrightarrow> f rep = (ok, rep') \<Longrightarrow> ok = b \<and> reported b rep rep'"
  unfolding decides_def by (metis fst_conv snd_conv)

lemma decidesI: "(\<And>rep ok rep'. f rep = (ok, rep') \<Longrightarrow> ok = b \<and> reported b rep rep') \<Longrightarrow> decides b f"
  unfolding decides_def by (metis prod.collapse)

lemma reported_refl: "reported True rep rep"
  by (cases rep) (simp_all add: reported_def)

lemma decides_pass: "decides True pass"
  by (simp add: decides_def pass_def reported_refl)

lemma decides_require: "decides b (require b p k m)"
  by (simp add: decides_def require_def reported_refl issue_reported)

lemma decides_then: "decides a f \<Longrightarrow> decides b g \<Longrightarrow> decides (a \<and> b) (chk_then f g)"
proof (rule decidesI)
  fix rep ok rep'
  assume f: "decides a f" and g: "decides b g" and e: "chk_then f g rep = (ok, rep')"
  obtain x r1 where 1: "f rep = (x, r1)" by fastforce
  obtain y r2 where 2: "g r1 = (y, r2)" by fastforce
  note F = decidesD [OF f 1] and G = decidesD [OF g 2]
  show "ok = (a \<and> b) \<and> reported (a \<and> b) rep rep'"
  proof (cases "\<not> x \<and> r1 = None")
    case True
    then have "rep = None" "\<not> a" using F by (auto simp: reported_def split: option.splits)
    then show ?thesis using e 1 True by (simp add: chk_then_def reported_def)
  next
    case False
    then have "ok = (x \<and> y)" "rep' = r2" using e 1 2 by (auto simp: chk_then_def)
    then show ?thesis using F G reported_trans by blast
  qed
qed

lemma decides_also: "decides a f \<Longrightarrow> decides b g \<Longrightarrow> decides (a \<and> b) (chk_also f g)"
proof (rule decidesI)
  fix rep ok rep'
  assume f: "decides a f" and g: "decides b g" and e: "chk_also f g rep = (ok, rep')"
  obtain x r1 where 1: "f rep = (x, r1)" by fastforce
  obtain y r2 where 2: "g r1 = (y, r2)" by fastforce
  show "ok = (a \<and> b) \<and> reported (a \<and> b) rep rep'"
    using decidesD [OF f 1] decidesD [OF g 2] e 1 2 reported_trans [of a rep r1 b r2] by (simp add: chk_also_def)
qed

lemma decides_leave: "decides a f \<Longrightarrow> decides b g \<Longrightarrow> decides (a \<and> b) (chk_leave f g)"
proof (rule decidesI)
  fix rep ok rep'
  assume f: "decides a f" and g: "decides b g" and e: "chk_leave f g rep = (ok, rep')"
  obtain x r1 where 1: "f rep = (x, r1)" by fastforce
  obtain y r2 where 2: "g r1 = (y, r2)" by fastforce
  show "ok = (a \<and> b) \<and> reported (a \<and> b) rep rep'"
    using decidesD [OF f 1] decidesD [OF g 2] e 1 2 reported_trans [of True rep r1 b r2]
    by (cases a) (auto simp: chk_leave_def)
qed

lemma decides_each: "(\<And>x. x \<in> set xs \<Longrightarrow> decides (P x) (f x)) \<Longrightarrow> decides (\<forall>x \<in> set xs. P x) (each f xs)"
proof (induction xs)
  case (Cons x xs)
  then have "decides (P x \<and> (\<forall>x \<in> set xs. P x)) (chk_then (f x) (each f xs))" by (intro decides_then) simp_all
  then show ?case by simp
qed (simp add: decides_pass)

lemma decides_limit: "decides (limit_ok s name fits) (check_limit s name fits text path)"
  by (cases "num_kw s name") (simp_all add: check_limit_def limit_ok_def decides_pass decides_require)

text \<open>A validator that decides \<open>sat\<close>.\<close>

definition decider :: "(nyxj_value \<Rightarrow> nyxj_value \<Rightarrow> bool) \<Rightarrow> validator \<Rightarrow> bool" where
  "decider sat rec \<longleftrightarrow> (\<forall>s v path. decides (sat s v) (rec s v path))"

lemma decider_silent: "decider sat rec \<Longrightarrow> silent_valid rec s v path = sat s v"
  by (simp add: decider_def decides_def silent_valid_def)

lemma decider_rec: "decider sat rec \<Longrightarrow> decides (sat s v) (rec s v path)"
  by (simp add: decider_def)


subsection \<open>The keywords\<close>

lemma decides_cong: "decides a f \<Longrightarrow> a = b \<Longrightarrow> decides b f"
  by simp

lemma decides_required:
  "decides (\<forall>fl name. VString fl name \<in> set (items_of (kw s ''required'')) \<longrightarrow> map_of ps name \<noteq> None)
     (check_required s (VObject fl ps) path)"
proof -
  let ?P = "\<lambda>k. case k of VString f name \<Rightarrow> map_of ps name \<noteq> None | _ \<Rightarrow> True"
  have "decides (\<forall>k \<in> set (items_of (kw s ''required'')). ?P k) (check_required s (VObject fl ps) path)"
    unfolding check_required_def by (rule decides_each) (simp add: decides_pass decides_require split: nyxj_value.split)
  then show ?thesis by (rule decides_cong) (fastforce split: nyxj_value.splits)
qed

lemma decides_property:
  assumes "decider sat rec"
  shows "decides
    (case nyxj_get_member (kw s ''properties'') k of
       Some t \<Rightarrow> sat t x
     | None \<Rightarrow>
         (case kw s ''additionalProperties'' of
            Some (VBool fl b) \<Rightarrow> b | Some (VObject fl qs) \<Rightarrow> sat (VObject fl qs) x | _ \<Rightarrow> True))
    (check_property rec s path (k, x))"
proof -
  have "(case kw s ''properties'' of None \<Rightarrow> None | Some props \<Rightarrow> nyxj_get_member (Some props) k) =
      nyxj_get_member (kw s ''properties'') k" by (simp split: option.split)
  then show ?thesis
    using decider_rec [OF assms]
    by (auto simp: check_property_def Let_def decides_pass decides_require split: option.split nyxj_value.split)
qed

lemma decides_object: "decider sat rec \<Longrightarrow> decides (object_conforms sat s ps) (validate_object rec s (VObject fl ps) path)"
proof -
  assume sat: "decider sat rec"
  let ?P = "\<lambda>(k, x). case nyxj_get_member (kw s ''properties'') k of
       Some t \<Rightarrow> sat t x
     | None \<Rightarrow>
         (case kw s ''additionalProperties'' of
            Some (VBool fl b) \<Rightarrow> b | Some (VObject fl qs) \<Rightarrow> sat (VObject fl qs) x | _ \<Rightarrow> True)"
  have "decides (\<forall>p \<in> set ps. ?P p) (each (check_property rec s path) ps)"
  proof (rule decides_each)
    fix p :: "string \<times> nyxj_value"
    obtain k x where p: "p = (k, x)" by fastforce
    show "decides (?P p) (check_property rec s path p)" unfolding p prod.case by (rule decides_property [OF sat])
  qed
  then show ?thesis
    unfolding validate_object_def object_conforms_def Let_def pairs_of_def nyxj_value.case
    by (intro decides_then decides_also decides_required decides_limit)
qed

lemma equal_pair_None: "equal_pair i xs = None \<longleftrightarrow>
    (\<forall>a b. a < b \<and> b < length xs \<longrightarrow> \<not> nyxj_equals False (Some (xs ! a)) (Some (xs ! b)))"
proof (induction i xs rule: equal_pair.induct)
  case (2 i x xs)
  let ?eq = "\<lambda>x y. nyxj_equals False (Some x) (Some y)"
  have "equal_pair i (x # xs) = None \<longleftrightarrow> (\<forall>j < length xs. \<not> ?eq x (xs ! j)) \<and> equal_pair (i + 1) xs = None"
    by (auto simp: find_None_iff find_Some_iff split: option.split)
  also have "\<dots> \<longleftrightarrow> (\<forall>a b. a < b \<and> b < length (x # xs) \<longrightarrow> \<not> ?eq ((x # xs) ! a) ((x # xs) ! b))"
  proof (cases "\<forall>j < length xs. \<not> ?eq x (xs ! j)")
    case True
    then have "equal_pair (i + 1) xs = None \<longleftrightarrow> (\<forall>a b. a < b \<and> b < length xs \<longrightarrow> \<not> ?eq (xs ! a) (xs ! b))"
      using 2 by (simp add: find_None_iff [THEN iffD2])
    then show ?thesis using True by (auto simp: nth_Cons split: nat.splits)
  next
    case False
    then obtain j where "j < length xs" "?eq x (xs ! j)" by blast
    then have "0 < Suc j \<and> Suc j < length (x # xs) \<and> ?eq ((x # xs) ! 0) ((x # xs) ! Suc j)" by simp
    then show ?thesis using False by blast
  qed
  finally show ?case .
qed simp

lemma decides_unique:
  "decides (true_kw s ''uniqueItems'' \<longrightarrow> (\<forall>i j. i < j \<and> j < length xs \<longrightarrow> \<not> nyxj_equals False (Some (xs ! i)) (Some (xs ! j))))
     (check_unique s xs path)"
  unfolding equal_pair_None [of 0 xs, symmetric] check_unique_def
  by (cases "equal_pair 0 xs") (auto simp: decides_def reported_refl issue_reported)

lemma decides_items:
  assumes "decider sat rec"
  shows "decides (\<forall>(t, x, i) \<in> set ps. sat t x) (each (check_item rec path) ps)"
  by (rule decides_each [where P = "\<lambda>(t, x, i). sat t x", simplified])
    (use decider_rec [OF assms] in \<open>auto simp: check_item_def\<close>)

lemma decides_prefix:
  assumes "decider sat rec" "ss = items_of (fst (tuple_items s))"
  shows "decides (\<forall>i < length xs. i < length ss \<longrightarrow> sat (ss ! i) (xs ! i)) (check_prefix rec s xs path)"
proof -
  have "decides (\<forall>(t, x, i) \<in> set (zip ss (zip xs [0 ..< length xs])). sat t x) (check_prefix rec s xs path)"
    unfolding check_prefix_def Let_def assms(2) by (rule decides_items [OF assms(1)])
  then show ?thesis by (rule decides_cong) (auto simp: all_set_conv_all_nth)
qed

lemma decides_rest:
  assumes "decider sat rec" "ss = items_of (fst (tuple_items s))"
  shows "decides (\<forall>t i. snd (tuple_items s) = Some t \<and> value_type t \<in> {NYXJ_OBJECT, NYXJ_BOOL} \<and> length ss \<le> i \<and> i < length xs \<longrightarrow>
      sat t (xs ! i)) (check_rest rec s xs path)"
proof (cases "snd (tuple_items s)")
  case None
  then show ?thesis by (simp add: check_rest_def decides_pass)
next
  case (Some t)
  show ?thesis
  proof (cases "value_type t \<in> {NYXJ_OBJECT, NYXJ_BOOL}")
    case True
    have "decides (\<forall>(t, x, i) \<in> set (map (\<lambda>i. (t, xs ! i, i)) [length ss ..< length xs]). sat t x)
        (each (check_item rec path) (map (\<lambda>i. (t, xs ! i, i)) [length ss ..< length xs]))"
      by (rule decides_items [OF assms(1)])
    then show ?thesis using Some True unfolding check_rest_def Let_def assms(2) by (auto elim!: decides_cong)
  next
    case False
    then show ?thesis using Some by (simp add: check_rest_def decides_pass)
  qed
qed

lemma decides_contains:
  assumes "decider sat rec"
  shows "decides (\<forall>t. kw s ''contains'' = Some t \<longrightarrow> (\<exists>x \<in> set xs. sat t x)) (check_contains rec s xs path)"
proof (cases "kw s ''contains''")
  case (Some t)
  then show ?thesis
    by (simp add: check_contains_def decider_silent [OF assms] list_ex_iff) (rule decides_require)
qed (simp add: check_contains_def decides_pass)

lemma decides_array: "decider sat rec \<Longrightarrow> decides (array_conforms sat s xs) (validate_array rec s (VArray fl xs cap) path)"
proof -
  assume sat: "decider sat rec"
  define ss where "ss = items_of (fst (tuple_items s))"
  have "decides (((limit_ok s ''minItems'' (\<lambda>lim. \<not> dbl_less (dbl_of_nat (length xs)) lim) \<and>
          limit_ok s ''maxItems'' (\<lambda>lim. \<not> dbl_less lim (dbl_of_nat (length xs)))) \<and>
        (true_kw s ''uniqueItems'' \<longrightarrow>
          (\<forall>i j. i < j \<and> j < length xs \<longrightarrow> \<not> nyxj_equals False (Some (xs ! i)) (Some (xs ! j))))) \<and>
      ((\<forall>i < length xs. i < length ss \<longrightarrow> sat (ss ! i) (xs ! i)) \<and>
        (\<forall>t i. snd (tuple_items s) = Some t \<and> value_type t \<in> {NYXJ_OBJECT, NYXJ_BOOL} \<and> length ss \<le> i \<and> i < length xs \<longrightarrow>
          sat t (xs ! i))) \<and>
      (\<forall>t. kw s ''contains'' = Some t \<longrightarrow> (\<exists>x \<in> set xs. sat t x))) (validate_array rec s (VArray fl xs cap) path)"
    unfolding validate_array_def Let_def items_of_def option.case nyxj_value.case
    by (intro decides_then decides_also decides_leave decides_unique decides_limit decides_prefix [OF sat ss_def]
        decides_rest [OF sat ss_def] decides_contains [OF sat])
  then show ?thesis by (rule decides_cong) (simp add: array_conforms_def Let_def ss_def)
qed


lemma ref_target_code:
  "(if r = ''#'' then Some doc
    else if r \<noteq> [] \<and> hd r = CHR ''#'' then nyxj_pointer_get (Some doc) (Some (tl r)) else None) = ref_target doc r"
  by (cases r) (simp_all add: ref_target_def)

lemma decides_ref:
  assumes "decider sat rec"
  shows "decides (\<forall>fl r. kw s ''$ref'' = Some (VString fl r) \<longrightarrow> (\<exists>t. ref_target doc r = Some t \<and> sat t v)) (check_ref rec doc s v path)"
proof (cases "\<exists>fl r. kw s ''$ref'' = Some (VString fl r)")
  case True
  then obtain fl r where r: "kw s ''$ref'' = Some (VString fl r)" by blast
  have c: "check_ref rec doc s v path = (case ref_target doc r of
        None \<Rightarrow> require False path ''$ref'' (quoted ''unresolvable reference ~'' @ r @ quoted ''~'') | Some t \<Rightarrow> rec t v path)"
    unfolding check_ref_def r option.case nyxj_value.case Let_def ref_target_code ..
  show ?thesis unfolding c using r decides_require [of False] decider_rec [OF assms] by (auto split: option.split)
next
  case False
  then have "check_ref rec doc s v path = pass" by (auto simp: check_ref_def split: option.split nyxj_value.split)
  then show ?thesis using False decides_pass by auto
qed

lemma decides_enum:
  "decides (is_array (kw s ''enum'') \<longrightarrow> (\<exists>x \<in> set (items_of (kw s ''enum'')). nyxj_equals False (Some x) (Some v)))
     (check_enum s v path)"
  unfolding check_enum_def is_array_def items_of_def
  by (auto simp: decides_pass list_ex_iff Bex_def intro!: decides_require split: option.split nyxj_value.split)

lemma decides_const: "decides (\<forall>c. kw s ''const'' = Some c \<longrightarrow> nyxj_equals False (Some c) (Some v)) (check_const s v path)"
  by (cases "kw s ''const''") (auto simp: check_const_def decides_pass decides_require)

lemma decides_number: "decides (number_conforms s x) (check_number s x path)"
  unfolding number_conforms_def check_number_def by (intro decides_then decides_limit)

lemma decides_string: "decides (string_conforms s t) (check_string s t path)"
proof -
  have "decides (\<forall>fl fmt. kw s ''format'' = Some (VString fl fmt) \<longrightarrow> format_ok fmt t)
      (case kw s ''format'' of
         Some (VString fl fmt) \<Rightarrow> require (format_ok fmt t) path ''format'' (quoted ''string is not a valid ~'' @ fmt @ quoted ''~'')
       | _ \<Rightarrow> pass)"
    by (auto simp: decides_pass decides_require split: option.split nyxj_value.split)
  then show ?thesis unfolding string_conforms_def check_string_def by (intro decides_then decides_limit)
qed

lemma decides_by_type:
  assumes "decider sat rec"
  shows "decides
    (case v of
       VNumber fl x \<Rightarrow> number_conforms s x
     | VString fl t \<Rightarrow> string_conforms s t
     | VObject fl ps \<Rightarrow> object_conforms sat s ps
     | VArray fl xs cap \<Rightarrow> array_conforms sat s xs
     | _ \<Rightarrow> True) (check_by_type rec s v path)"
  by (cases v) (simp_all add: check_by_type_def decides_pass decides_number decides_string decides_object [OF assms] decides_array [OF assms])

lemma decides_all: "decider sat rec \<Longrightarrow> decides (\<forall>t \<in> set (items_of (kw s ''allOf'')). sat t v) (check_all rec s v path)"
  unfolding check_all_def by (intro decides_each decider_rec)

lemma decides_any:
  "decider sat rec \<Longrightarrow> decides (is_array (kw s ''anyOf'') \<longrightarrow> (\<exists>t \<in> set (items_of (kw s ''anyOf'')). sat t v)) (check_any rec s v path)"
  unfolding check_any_def by (simp only: decider_silent list_ex_iff) (rule decides_require)

lemma decides_one:
  "decider sat rec \<Longrightarrow>
   decides (is_array (kw s ''oneOf'') \<longrightarrow> length (filter (\<lambda>t. sat t v) (items_of (kw s ''oneOf''))) = 1) (check_one rec s v path)"
  unfolding check_one_def Let_def by (simp only: decider_silent) (rule decides_require)

lemma decides_not: "decider sat rec \<Longrightarrow> decides (\<forall>t. kw s ''not'' = Some t \<longrightarrow> \<not> sat t v) (check_not rec s v path)"
  unfolding check_not_def by (rule decides_cong [OF decides_require]) (auto simp: decider_silent split: option.split)

lemma decides_if:
  assumes "decider sat rec"
  shows "decides (\<forall>t b. kw s ''if'' = Some t \<longrightarrow> kw s (if sat t v then ''then'' else ''else'') = Some b \<longrightarrow> sat b v) (check_if rec s v path)"
proof (cases "kw s ''if''")
  case (Some t)
  let ?b = "kw s (if sat t v then ''then'' else ''else'')"
  have "check_if rec s v path = (case ?b of None \<Rightarrow> pass | Some b \<Rightarrow> rec b v path)"
    by (simp add: check_if_def Some decider_silent [OF assms])
  moreover have "decides (\<forall>b. ?b = Some b \<longrightarrow> sat b v) (case ?b of None \<Rightarrow> pass | Some b \<Rightarrow> rec b v path)"
    using decider_rec [OF assms] by (cases ?b) (simp_all add: decides_pass)
  ultimately show ?thesis using Some by simp
qed (simp add: check_if_def decides_pass)

lemma decides_schema: "decider sat rec \<Longrightarrow> decides (schema_conforms sat doc s v) (check_schema rec doc s v path)"
proof -
  assume sat: "decider sat rec"
  have t: "decides (type_ok s v) (check_type s v path)" unfolding check_type_def by (rule decides_require)
  show ?thesis
    unfolding schema_conforms_def check_schema_def
    by (intro decides_then decides_leave t decides_enum decides_const decides_ref [OF sat] decides_by_type [OF sat]
        decides_all [OF sat] decides_any [OF sat] decides_one [OF sat] decides_not [OF sat] decides_if [OF sat])
qed

lemma decides_validate: "decider (conforms doc n) (validate doc n)"
proof (induction n)
  case 0
  show ?case unfolding decider_def by (auto simp: decides_pass decides_require split: nyxj_value.split)
next
  case (Suc n)
  then show ?case unfolding decider_def [of _ "validate doc (Suc n)"]
    by (auto simp: decides_pass decides_require decides_schema split: nyxj_value.split)
qed

lemma schema_verdict: "fst (nyxj_schema_validate (Some s) (Some v) rep) \<longleftrightarrow> conforms s MAX_REF_DEPTH s v"
  using decides_validate [of s MAX_REF_DEPTH] by (simp add: nyxj_schema_validate_def decider_def decides_def Let_def)

lemma schema_report:
  "\<exists>r'. snd (nyxj_schema_validate (Some s) (Some v) (Some r)) = Some r' \<and> report_ok r' \<and>
     (conforms s MAX_REF_DEPTH s v \<longleftrightarrow> total_issues r' = 0)"
proof -
  let ?r0 = "\<lparr>total_issues = 0, issues = []\<rparr>"
  have "reported (conforms s MAX_REF_DEPTH s v) (Some ?r0) (snd (nyxj_schema_validate (Some s) (Some v) (Some r)))"
    using decides_validate [of s MAX_REF_DEPTH] by (simp add: nyxj_schema_validate_def decider_def decides_def Let_def)
  moreover have "report_ok ?r0" by (simp add: report_ok_def)
  ultimately show ?thesis by (auto simp: reported_def split: option.splits)
qed

end
