(* ===== verification/Ipc.thy ===== *)
theory Ipc
  imports Serializer Parser Simulation
begin

text \<open>
  \<^verbatim>\<open>src/runtime/ipc.c\<close>: frames on a stream socket, and the ring in shared memory of one producer and one consumer.

  A socket is what the peer will still be given (\<open>sent\<close>), what has arrived and is to be read (\<open>incoming\<close>), and two
  oracles for the calls of the system: how many bytes the next \<open>send\<close> takes or the next \<open>recv\<close> gives at most, nothing
  for a failure, and what \<open>select\<close> reports. Sockets are created by the operating system and are not modelled.
\<close>

definition MAX_FRAME :: nat where "MAX_FRAME = 64 * 1024 * 1024"

text \<open>The four bytes of a 32-bit number, the low one first.\<close>

primrec wire_bytes :: "nat \<Rightarrow> nat \<Rightarrow> bytes" where
  "wire_bytes 0 n = []"
| "wire_bytes (Suc k) n = chr (n mod 256) # wire_bytes k (n div 256)"

definition le_value :: "bytes \<Rightarrow> nat" where
  "le_value bs = foldr (\<lambda>c v. byte c + 256 * v) bs 0"

subsection \<open>Frames\<close>

datatype readiness = Readable | Timeout | Select_error

record nyxj_ipc =
  listener :: bool
  sent :: bytes
  incoming :: bytes
  transfers :: nat
  transfer :: "nat \<Rightarrow> nat"
  waits :: nat
  ready_at :: "nat \<Rightarrow> readiness"

definition chunk_of :: "nat \<Rightarrow> nat" where
  "chunk_of n = (if n > 0x40000000 then 0x40000000 else n)"

text \<open>One \<open>send\<close> of the bytes: how many were taken.\<close>

definition sys_send :: "nyxj_ipc \<Rightarrow> bytes \<Rightarrow> nat \<times> nyxj_ipc" where
  "sys_send ch p =
     (let w = min (transfer ch (transfers ch)) (length p)
      in (w, ch\<lparr>transfers := transfers ch + 1, sent := sent ch @ take w p\<rparr>))"

definition sys_recv :: "nyxj_ipc \<Rightarrow> nat \<Rightarrow> bytes \<times> nyxj_ipc" where
  "sys_recv ch n =
     (let got = take (min (transfer ch (transfers ch)) n) (incoming ch)
      in (got, ch\<lparr>transfers := transfers ch + 1, incoming := drop (length got) (incoming ch)\<rparr>))"

definition wait_readable :: "nyxj_ipc \<Rightarrow> readiness \<times> nyxj_ipc" where
  "wait_readable ch = (ready_at ch (waits ch), ch\<lparr>waits := waits ch + 1\<rparr>)"

function send_all :: "nyxj_ipc \<Rightarrow> bytes \<Rightarrow> bool \<times> nyxj_ipc" where
  "send_all ch p =
     (if p = [] then (True, ch)
      else let (w, ch) = sys_send ch (take (chunk_of (length p)) p)
           in if w = 0 then (False, ch) else send_all ch (drop w p))"
  by pat_completeness auto
termination by (relation "measure (\<lambda>(ch, p). length p)") auto

declare send_all.simps [simp del]

text \<open>The result is 1 (\<open>Readable\<close>), 0 or -1; the bytes are those read before it.\<close>

function recv_all :: "nyxj_ipc \<Rightarrow> nat \<Rightarrow> bytes \<Rightarrow> readiness \<times> bytes \<times> nyxj_ipc" where
  "recv_all ch n buf =
     (if n = 0 then (Readable, buf, ch)
      else case wait_readable ch of
          (Timeout, ch) \<Rightarrow> (Timeout, buf, ch)
        | (Select_error, ch) \<Rightarrow> (Select_error, buf, ch)
        | (Readable, ch) \<Rightarrow>
            (let (got, ch) = sys_recv ch (chunk_of n)
             in if got = [] then (Select_error, buf, ch) else recv_all ch (n - length got) (buf @ got)))"
  by pat_completeness auto
termination by (relation "measure (\<lambda>(ch, n, buf). n)") auto

declare recv_all.simps [simp del]

text \<open>\<open>reason\<close> is the text \<open>sock_error\<close> makes of \<open>errno\<close>.\<close>

definition nyxj_ipc_send :: "string \<Rightarrow> nyxj_ipc option \<Rightarrow> bytes option \<Rightarrow> nat \<Rightarrow> bool \<times> nyxj_error \<times> nyxj_ipc option" where
  "nyxj_ipc_send reason ch msg len =
     (case ch of
        None \<Rightarrow> (False, nyxj_error_set NYXJ_ERR_INVALID_ARGUMENT None no_error, None)
      | Some c \<Rightarrow>
          if listener c \<or> (msg = None \<and> len \<noteq> 0) then (False, nyxj_error_set NYXJ_ERR_INVALID_ARGUMENT None no_error, ch)
          else if len > MAX_FRAME
          then (False, nyxj_error_set NYXJ_ERR_SIZE_LIMIT (Some ''frame larger than 64 MiB'') no_error, ch)
          else let (ok, c) = send_all c (wire_bytes 4 len);
                   (ok, c) = (if ok then send_all c (case msg of None \<Rightarrow> [] | Some m \<Rightarrow> take len m) else (False, c))
               in (ok, if ok then no_error else nyxj_error_set NYXJ_ERR_IO (Some reason) no_error, Some c))"

definition nyxj_ipc_recv :: "heap \<Rightarrow> nyxj_ipc option \<Rightarrow> bytes option \<times> nyxj_error \<times> nyxj_ipc option \<times> heap" where
  "nyxj_ipc_recv h ch =
     (case ch of
        None \<Rightarrow> (None, nyxj_error_set NYXJ_ERR_INVALID_ARGUMENT None no_error, None, h)
      | Some c \<Rightarrow>
          if listener c then (None, nyxj_error_set NYXJ_ERR_INVALID_ARGUMENT None no_error, ch, h)
          else case recv_all c 4 [] of
              (Timeout, hdr, c) \<Rightarrow> (None, nyxj_error_set NYXJ_ERR_TIMEOUT None no_error, Some c, h)
            | (Select_error, hdr, c) \<Rightarrow> (None, nyxj_error_set NYXJ_ERR_IO (Some ''connection closed or failed'') no_error, Some c, h)
            | (Readable, hdr, c) \<Rightarrow>
                (let n = le_value hdr
                 in if n > MAX_FRAME
                    then (None, nyxj_error_set NYXJ_ERR_SIZE_LIMIT (Some ''frame larger than 64 MiB'') no_error, Some c, h)
                    else let (ok, h) = malloc h (n + 1)
                         in if \<not> ok then (None, nyxj_error_set NYXJ_ERR_OUT_OF_MEMORY None no_error, Some c, h)
                            else if n = 0 then (Some [], no_error, Some c, h)
                            else case recv_all c n [] of
                                (Readable, buf, c) \<Rightarrow> (Some buf, no_error, Some c, h)
                              | (_, buf, c) \<Rightarrow> (None, nyxj_error_set NYXJ_ERR_IO (Some ''truncated frame'') no_error, Some c, h)))"

definition nyxj_ipc_send_json ::
    "string \<Rightarrow> heap \<Rightarrow> nyxj_ipc option \<Rightarrow> nyxj_value option \<Rightarrow> bool \<times> nyxj_error \<times> nyxj_ipc option \<times> heap" where
  "nyxj_ipc_send_json reason h ch v =
     (case nyxj_serialize_ex h v None of
        (None, h) \<Rightarrow> (False, nyxj_error_set NYXJ_ERR_OUT_OF_MEMORY None no_error, ch, h)
      | (Some t, h) \<Rightarrow> (let (ok, er, ch) = nyxj_ipc_send reason ch (Some t) (length t) in (ok, er, ch, h)))"

definition nyxj_ipc_recv_json ::
    "simd_backend \<Rightarrow> heap \<Rightarrow> nyxj_ipc option \<Rightarrow> nyxj_value option \<times> nyxj_error \<times> nyxj_ipc option \<times> heap" where
  "nyxj_ipc_recv_json be h ch =
     (case nyxj_ipc_recv h ch of
        (None, er, ch, h) \<Rightarrow> (None, er, ch, h)
      | (Some t, er, ch, h) \<Rightarrow>
          (let r = nyxj_parse_n be h (Some t) in (root r, if is_valid r then er else error r, ch, heap_after r)))"

subsection \<open>The ring\<close>

text \<open>The capacity in the header is the length of the data area; the positions count bytes modulo \<open>2 ^ 64\<close>.\<close>

record nyxj_shm =
  shm_data :: bytes
  shm_head :: "64 word"
  shm_tail :: "64 word"

definition shm_header_bytes :: "64 word" where
  "shm_header_bytes = 32"

text \<open>The size of the mapping of a new segment, in \<open>size_t\<close>.\<close>

definition map_size :: "64 word \<Rightarrow> 64 word" where
  "map_size capacity = shm_header_bytes + capacity"

text \<open>The header of a new segment; the system gives it zeroed.\<close>

definition shm_fresh :: "nat \<Rightarrow> nyxj_shm" where
  "shm_fresh capacity = \<lparr>shm_data = replicate capacity NUL, shm_head = 0, shm_tail = 0\<rparr>"

text \<open>\<open>nyxj_shm_create\<close> up to the calls of the system, which report what \<open>mapped\<close> says.\<close>

definition nyxj_shm_create :: "heap \<Rightarrow> nyxj_error option \<Rightarrow> string option \<Rightarrow> nat \<Rightarrow> nyxj_shm option \<times> nyxj_error \<times> heap" where
  "nyxj_shm_create h mapped name capacity =
     (if name = None \<or> name = Some [] \<or> capacity < 64
      then (None, nyxj_error_set NYXJ_ERR_INVALID_ARGUMENT (Some ''invalid name or capacity'') no_error, h)
      else let (ok, h) = malloc h 104
           in if \<not> ok then (None, nyxj_error_set NYXJ_ERR_OUT_OF_MEMORY None no_error, h)
              else case mapped of Some er \<Rightarrow> (None, er, h) | None \<Rightarrow> (Some (shm_fresh capacity), no_error, h))"

definition nyxj_shm_capacity :: "nyxj_shm option \<Rightarrow> nat" where
  "nyxj_shm_capacity s = (case s of None \<Rightarrow> 0 | Some s \<Rightarrow> length (shm_data s))"

definition memcpy :: "bytes \<Rightarrow> nat \<Rightarrow> bytes \<Rightarrow> bytes" where
  "memcpy d off src = take off d @ src @ drop (off + length src) d"

definition first_part :: "nat \<Rightarrow> nat \<Rightarrow> nat \<Rightarrow> nat" where
  "first_part cap off n = (if n < cap - off then n else cap - off)"

definition ring_copy_in :: "nyxj_shm \<Rightarrow> 64 word \<Rightarrow> bytes \<Rightarrow> nyxj_shm" where
  "ring_copy_in s posn src =
     (let cap = length (shm_data s); off = unat posn mod cap; first = first_part cap off (length src)
      in s\<lparr>shm_data := memcpy (memcpy (shm_data s) off (take first src)) 0 (drop first src)\<rparr>)"

definition ring_copy_out :: "nyxj_shm \<Rightarrow> 64 word \<Rightarrow> nat \<Rightarrow> bytes" where
  "ring_copy_out s posn n =
     (let cap = length (shm_data s); off = unat posn mod cap; first = first_part cap off n
      in take first (drop off (shm_data s)) @ take (n - first) (shm_data s))"

text \<open>The bytes a message takes, and the test for room with the positions that were loaded.\<close>

definition room_for :: "bytes \<Rightarrow> 64 word" where
  "room_for msg = 4 + word_of_nat (length msg)"

definition has_room :: "nyxj_shm \<Rightarrow> 64 word \<Rightarrow> 64 word \<Rightarrow> bytes \<Rightarrow> bool" where
  "has_room s rd wr msg \<longleftrightarrow> \<not> word_of_nat (length (shm_data s)) - (wr - rd) < room_for msg"

text \<open>A call without interference.\<close>

definition nyxj_shm_write :: "nyxj_shm option \<Rightarrow> bytes option \<Rightarrow> nat \<Rightarrow> bool \<times> nyxj_shm option" where
  "nyxj_shm_write s msg len =
     (case s of
        None \<Rightarrow> (False, None)
      | Some r \<Rightarrow>
          if (msg = None \<and> len \<noteq> 0) \<or> len > 0xFFFFFFFF then (False, s)
          else let m = (case msg of None \<Rightarrow> [] | Some m \<Rightarrow> take len m); wr = shm_tail r
               in if \<not> has_room r (shm_head r) wr m then (False, s)
                  else let r = ring_copy_in r wr (wire_bytes 4 (length m)); r = ring_copy_in r (wr + 4) m
                       in (True, Some (r\<lparr>shm_tail := wr + room_for m\<rparr>)))"

text \<open>The message at a position, unless the header is corrupted.\<close>

definition message_at :: "nyxj_shm \<Rightarrow> 64 word \<Rightarrow> 64 word \<Rightarrow> nat option" where
  "message_at s rd wr =
     (let n = le_value (ring_copy_out s rd 4) in if word_of_nat n + 4 > wr - rd then None else Some n)"

definition nyxj_shm_read :: "heap \<Rightarrow> nyxj_shm option \<Rightarrow> bytes option \<times> nyxj_shm option \<times> heap" where
  "nyxj_shm_read h s =
     (case s of
        None \<Rightarrow> (None, None, h)
      | Some r \<Rightarrow>
          let wr = shm_tail r; rd = shm_head r
          in if rd = wr then (None, s, h)
             else case message_at r rd wr of
                 None \<Rightarrow> (None, s, h)
               | Some n \<Rightarrow>
                   (let (ok, h) = malloc h (n + 1)
                    in if \<not> ok then (None, s, h)
                       else (Some (ring_copy_out r (rd + 4) n), Some (r\<lparr>shm_head := rd + 4 + word_of_nat n\<rparr>), h)))"

text \<open>Both processes at once. The producer has loaded \<open>head\<close>, copied the length, or copied the message; the consumer has
  loaded \<open>tail\<close>, read the length, or copied the message out. Each load, copy and store is a step; \<open>posted\<close> and \<open>received\<close> list the
  messages of the calls that succeeded.\<close>

datatype producer = P_idle | P_room bytes | P_length bytes | P_message bytes
datatype consumer = C_idle | C_tail "64 word" | C_length nat | C_message bytes

record ring =
  shm :: nyxj_shm
  producer :: producer
  consumer :: consumer
  posted :: "bytes list"
  received :: "bytes list"

inductive ring_step :: "ring \<Rightarrow> ring \<Rightarrow> bool" where
  write_refused: "producer r = P_idle \<Longrightarrow> \<not> has_room (shm r) (shm_head (shm r)) (shm_tail (shm r)) m \<Longrightarrow> ring_step r r"
| write_load: "producer r = P_idle \<Longrightarrow> length m \<le> 0xFFFFFFFF \<Longrightarrow> has_room (shm r) (shm_head (shm r)) (shm_tail (shm r)) m \<Longrightarrow>
    ring_step r (r\<lparr>producer := P_room m\<rparr>)"
| write_length: "producer r = P_room m \<Longrightarrow>
    ring_step r (r\<lparr>producer := P_length m, shm := ring_copy_in (shm r) (shm_tail (shm r)) (wire_bytes 4 (length m))\<rparr>)"
| write_message: "producer r = P_length m \<Longrightarrow>
    ring_step r (r\<lparr>producer := P_message m, shm := ring_copy_in (shm r) (shm_tail (shm r) + 4) m\<rparr>)"
| write_store: "producer r = P_message m \<Longrightarrow>
    ring_step r (r\<lparr>producer := P_idle, shm := (shm r)\<lparr>shm_tail := shm_tail (shm r) + room_for m\<rparr>, posted := posted r @ [m]\<rparr>)"
| read_load: "consumer r = C_idle \<Longrightarrow> ring_step r (r\<lparr>consumer := C_tail (shm_tail (shm r))\<rparr>)"
| read_nothing: "consumer r = C_tail wr \<Longrightarrow> shm_head (shm r) = wr \<or> message_at (shm r) (shm_head (shm r)) wr = None \<Longrightarrow>
    ring_step r (r\<lparr>consumer := C_idle\<rparr>)"
| read_length: "consumer r = C_tail wr \<Longrightarrow> shm_head (shm r) \<noteq> wr \<Longrightarrow> message_at (shm r) (shm_head (shm r)) wr = Some n \<Longrightarrow>
    ring_step r (r\<lparr>consumer := C_length n\<rparr>)"
| read_refused: "consumer r = C_length n \<Longrightarrow> ring_step r (r\<lparr>consumer := C_idle\<rparr>)"
| read_copy: "consumer r = C_length n \<Longrightarrow>
    ring_step r (r\<lparr>consumer := C_message (ring_copy_out (shm r) (shm_head (shm r) + 4) n)\<rparr>)"
| read_store: "consumer r = C_message m \<Longrightarrow>
    ring_step r (r\<lparr>consumer := C_idle, shm := (shm r)\<lparr>shm_head := shm_head (shm r) + 4 + word_of_nat (length m)\<rparr>,
      received := received r @ [m]\<rparr>)"

definition ring_start :: "nat \<Rightarrow> ring" where
  "ring_start capacity =
     \<lparr>shm = shm_fresh capacity, producer = P_idle, consumer = C_idle, posted = [], received = []\<rparr>"

end
