(* ===== verification/Ipc_Facts.thy ===== *)
theory Ipc_Facts
  imports Ipc
begin

text \<open>
  The ring is a queue: whatever the interleaving of the producer and the consumer, the messages read are those written,
  in order, and the ones in between lie in the ring. Frames are read as they were sent, however the system cuts them.
\<close>

subsection \<open>Little-endian numbers\<close>

lemma length_wire_bytes [simp]: "length (wire_bytes k n) = k"
  by (induction k arbitrary: n) simp_all

lemma le_value_wire_bytes: "le_value (wire_bytes k n) = n mod 256 ^ k"
proof (induction k arbitrary: n)
  case (Suc k)
  have "le_value (wire_bytes (Suc k) n) = n mod 256 + 256 * (n div 256 mod 256 ^ k)"
    using Suc [of "n div 256"] by (simp add: le_value_def)
  also have "\<dots> = n mod 256 ^ Suc k" by (simp add: mod_mult2_eq)
  finally show ?case .
qed (simp add: le_value_def)

lemma le_value_4: "n \<le> 0xFFFFFFFF \<Longrightarrow> le_value (wire_bytes 4 n) = n"
  by (simp add: le_value_wire_bytes)

subsection \<open>The data area\<close>

definition ring_bytes :: "bytes \<Rightarrow> nat \<Rightarrow> nat \<Rightarrow> bytes" where
  "ring_bytes d p n = map (\<lambda>i. d ! ((p + i) mod length d)) [0 ..< n]"

lemma length_ring_bytes [simp]: "length (ring_bytes d p n) = n"
  by (simp add: ring_bytes_def)

lemma ring_bytes_0 [simp]: "ring_bytes d p 0 = []"
  by (simp add: ring_bytes_def)

lemma ring_bytes_append: "ring_bytes d p (n + k) = ring_bytes d p n @ ring_bytes d (p + n) k"
  by (rule nth_equalityI) (auto simp: ring_bytes_def nth_append algebra_simps)

lemma take_ring_bytes: "n \<le> k \<Longrightarrow> take n (ring_bytes d p k) = ring_bytes d p n"
  by (simp add: ring_bytes_def take_map)

lemma drop_ring_bytes: "n \<le> k \<Longrightarrow> drop n (ring_bytes d p k) = ring_bytes d (p + n) (k - n)"
  using ring_bytes_append [of d p n "k - n"] by simp

lemma mod_add_small: "i < cap \<Longrightarrow> (p + i) mod cap = (if p mod cap + i < cap then p mod cap + i else p mod cap + i - cap)"
  for cap :: nat
proof -
  assume i: "i < cap"
  have "(p + i) mod cap = (p mod cap + i) mod cap" by (simp add: mod_simps)
  also have "\<dots> = (if p mod cap + i < cap then p mod cap + i else p mod cap + i - cap)"
  proof (cases "p mod cap + i < cap")
    case False
    then have "(p mod cap + i) mod cap = (p mod cap + i - cap) mod cap" by (intro le_mod_geq) simp
    moreover have "p mod cap + i - cap < cap" using i mod_less_divisor [of cap p] by linarith
    ultimately show ?thesis using False by simp
  qed simp
  finally show ?thesis .
qed

lemma mod_differ: "p < q \<Longrightarrow> q - p < cap \<Longrightarrow> p mod cap \<noteq> q mod cap" for cap :: nat
proof
  assume a: "p < q" "q - p < cap" "p mod cap = q mod cap"
  then have "cap dvd q - p" using mod_eq_dvd_iff_nat [of p q cap] by simp
  then show False using a(1,2) nat_dvd_not_less [of "q - p" cap] by simp
qed

lemma length_memcpy: "off + length src \<le> length d \<Longrightarrow> length (memcpy d off src) = length d"
  by (simp add: memcpy_def)

lemma nth_memcpy:
  "off + length src \<le> length d \<Longrightarrow> j < length d \<Longrightarrow>
   memcpy d off src ! j = (if off \<le> j \<and> j < off + length src then src ! (j - off) else d ! j)"
  by (auto simp: memcpy_def nth_append)

lemma copy_in_facts:
  assumes "length src \<le> length (shm_data s)" "0 < length (shm_data s)"
  shows "length (shm_data (ring_copy_in s p src)) = length (shm_data s)"
    "shm_head (ring_copy_in s p src) = shm_head s" "shm_tail (ring_copy_in s p src) = shm_tail s"
    "i < length src \<Longrightarrow> shm_data (ring_copy_in s p src) ! ((unat p + i) mod length (shm_data s)) = src ! i"
    "j < length (shm_data s) \<Longrightarrow> \<forall>i < length src. (unat p + i) mod length (shm_data s) \<noteq> j \<Longrightarrow>
       shm_data (ring_copy_in s p src) ! j = shm_data s ! j"
proof -
  let ?d = "shm_data s" and ?n = "length src"
  define cap where "cap = length ?d"
  define off where "off = unat p mod cap"
  define k where "k = first_part cap off ?n"
  have off: "off < cap" using assms(2) by (simp add: off_def cap_def)
  have n: "?n \<le> cap" using assms(1) by (simp add: cap_def)
  have k: "k \<le> ?n" "off + k \<le> cap" "?n - k \<le> off" "k < ?n \<Longrightarrow> k = cap - off"
    using off n by (auto simp: k_def first_part_def)
  let ?e = "memcpy ?d off (take k src)"
  have d: "shm_data (ring_copy_in s p src) = memcpy ?e 0 (drop k src)"
    by (simp add: ring_copy_in_def Let_def off_def k_def cap_def)
  have e: "length ?e = cap" using k by (simp add: length_memcpy cap_def)
  have nth: "shm_data (ring_copy_in s p src) ! j =
      (if j < ?n - k then src ! (k + j) else if off \<le> j \<and> j < off + k then src ! (j - off) else ?d ! j)" if "j < cap" for j
    unfolding d using that k e n nth_memcpy [of off "take k src" ?d j]
    by (subst nth_memcpy) (auto simp: cap_def)
  show "length (shm_data (ring_copy_in s p src)) = length ?d" unfolding d using e k off by (subst length_memcpy) (auto simp: cap_def)
  show "shm_head (ring_copy_in s p src) = shm_head s" "shm_tail (ring_copy_in s p src) = shm_tail s"
    by (simp_all add: ring_copy_in_def Let_def)
  have place: "(unat p + i) mod cap = (if off + i < cap then off + i else off + i - cap)" if "i < ?n" for i
    using mod_add_small [of i cap "unat p"] that n by (simp add: off_def)
  show "shm_data (ring_copy_in s p src) ! ((unat p + i) mod length ?d) = src ! i" if i: "i < ?n"
  proof (cases "i < k")
    case True
    then have "(unat p + i) mod cap = off + i" using place [OF i] k by simp
    then show ?thesis using nth [of "off + i"] True k by (simp add: cap_def)
  next
    case False
    then have "k = cap - off" using k(4) i by simp
    then have "\<not> off + i < cap" "off + i - cap = i - k" using False off by linarith+
    then have "(unat p + i) mod cap = i - k" using place [OF i] by simp
    moreover have "i - k < ?n - k" "k + (i - k) = i" "i - k < cap" using False i n by linarith+
    ultimately show ?thesis using nth [of "i - k"] by (simp add: cap_def)
  qed
  show "shm_data (ring_copy_in s p src) ! j = ?d ! j"
    if j: "j < length ?d" and other: "\<forall>i < ?n. (unat p + i) mod length ?d \<noteq> j"
  proof -
    have "\<not> j < ?n - k"
    proof
      assume "j < ?n - k"
      then have "k + j < ?n" "k = cap - off" using k(4) by simp_all
      then have "(unat p + (k + j)) mod cap = j" using place [of "k + j"] off by simp
      then show False using other \<open>k + j < ?n\<close> by (simp add: cap_def)
    qed
    moreover have "\<not> (off \<le> j \<and> j < off + k)"
    proof
      assume "off \<le> j \<and> j < off + k"
      then have "j - off < ?n" "(unat p + (j - off)) mod cap = j" using place [of "j - off"] k by auto
      then show False using other by (simp add: cap_def)
    qed
    ultimately show ?thesis using nth [of j] j by (auto simp: cap_def)
  qed
qed

lemma copy_out_bytes:
  assumes "n \<le> length (shm_data s)" "0 < length (shm_data s)"
  shows "ring_copy_out s p n = ring_bytes (shm_data s) (unat p) n"
proof -
  let ?d = "shm_data s"
  define cap where "cap = length ?d"
  define off where "off = unat p mod cap"
  define k where "k = first_part cap off n"
  have off: "off < cap" using assms(2) by (simp add: off_def cap_def)
  have k: "k \<le> n" "off + k \<le> cap" "n - k \<le> off" "k < n \<Longrightarrow> k = cap - off"
    using off assms(1) by (auto simp: k_def first_part_def cap_def)
  have c: "ring_copy_out s p n = take k (drop off ?d) @ take (n - k) ?d"
    by (simp add: ring_copy_out_def Let_def off_def k_def cap_def)
  show ?thesis
  proof (rule nth_equalityI)
    show l: "length (ring_copy_out s p n) = length (ring_bytes ?d (unat p) n)"
      unfolding c using k off by (simp add: cap_def)
    fix i
    assume "i < length (ring_copy_out s p n)"
    then have i: "i < n" using l by simp
    have place: "(unat p + i) mod cap = (if off + i < cap then off + i else off + i - cap)"
      using mod_add_small [of i cap "unat p"] i assms(1) by (simp add: off_def cap_def)
    have "ring_copy_out s p n ! i = ?d ! ((unat p + i) mod cap)"
    proof (cases "i < k")
      case True
      then show ?thesis using place k i by (simp add: c nth_append cap_def)
    next
      case False
      then have k2: "k = cap - off" using k(4) i by simp
      then have "\<not> off + i < cap" "off + i - cap = i - k" using False off by linarith+
      then show ?thesis using place k k2 i False off by (simp add: c nth_append cap_def)
    qed
    then show "ring_copy_out s p n ! i = ring_bytes ?d (unat p) n ! i" using i by (simp add: ring_bytes_def cap_def)
  qed
qed


text \<open>Copying in after \<open>n\<close> bytes of the ring leaves those bytes and puts the new ones behind them.\<close>

lemma ring_bytes_copy_in:
  assumes "n + length src \<le> length (shm_data s)" "0 < length (shm_data s)" "unat p = b + n"
  shows "ring_bytes (shm_data (ring_copy_in s p src)) b n = ring_bytes (shm_data s) b n"
    "ring_bytes (shm_data (ring_copy_in s p src)) (unat p) (length src) = src"
proof -
  have l: "length src \<le> length (shm_data s)" using assms(1) by simp
  note c = copy_in_facts [OF l assms(2), where p = p]
  show "ring_bytes (shm_data (ring_copy_in s p src)) (unat p) (length src) = src"
    by (rule nth_equalityI) (simp_all add: ring_bytes_def c(1,4))
  show "ring_bytes (shm_data (ring_copy_in s p src)) b n = ring_bytes (shm_data s) b n"
  proof (rule nth_equalityI)
    fix i
    assume "i < length (ring_bytes (shm_data (ring_copy_in s p src)) b n)"
    then have i: "i < n" by simp
    have "\<forall>j < length src. (unat p + j) mod length (shm_data s) \<noteq> (b + i) mod length (shm_data s)"
    proof (intro allI impI)
      fix j
      assume "j < length src"
      then have "b + i < unat p + j" "unat p + j - (b + i) < length (shm_data s)" using assms(1,3) i by linarith+
      then show "(unat p + j) mod length (shm_data s) \<noteq> (b + i) mod length (shm_data s)" using mod_differ by metis
    qed
    then show "ring_bytes (shm_data (ring_copy_in s p src)) b n ! i = ring_bytes (shm_data s) b n ! i"
      using i c(1) c(5) [of "(b + i) mod length (shm_data s)"] assms(2) by (simp add: ring_bytes_def)
  qed simp
qed

subsection \<open>The invariant\<close>

definition ipc_frame :: "bytes \<Rightarrow> bytes" where
  "ipc_frame m = wire_bytes 4 (length m) @ m"

lemma length_frame [simp]: "length (ipc_frame m) = 4 + length m"
  by (simp add: ipc_frame_def)

text \<open>The bytes of a list of messages, and of all those written or being written.\<close>

definition volume :: "bytes list \<Rightarrow> nat" where
  "volume ms = length (concat (map ipc_frame ms))"

lemma volume_simps [simp]: "volume [] = 0" "volume (m # ms) = 4 + length m + volume ms" "volume (ms @ ns) = volume ms + volume ns"
  by (simp_all add: volume_def)

fun writing :: "producer \<Rightarrow> bytes list" where
  "writing P_idle = []"
| "writing (P_room m) = [m]"
| "writing (P_length m) = [m]"
| "writing (P_message m) = [m]"

definition all_posted :: "ring \<Rightarrow> bytes list" where
  "all_posted r = posted r @ writing (producer r)"

fun posted_part :: "producer \<Rightarrow> bytes" where
  "posted_part P_idle = []"
| "posted_part (P_room m) = []"
| "posted_part (P_length m) = wire_bytes 4 (length m)"
| "posted_part (P_message m) = ipc_frame m"

fun consumer_ok :: "consumer \<Rightarrow> nat \<Rightarrow> bytes list \<Rightarrow> bool" where
  "consumer_ok C_idle h q \<longleftrightarrow> True"
| "consumer_ok (C_tail wr) h q \<longleftrightarrow> (\<exists>k. unat wr = h + volume (take k q))"
| "consumer_ok (C_length n) h q \<longleftrightarrow> (\<exists>m q'. q = m # q' \<and> n = length m)"
| "consumer_ok (C_message m) h q \<longleftrightarrow> (\<exists>q'. q = m # q')"

text \<open>\<open>q\<close> is what has been written and not read.\<close>

definition ring_ok :: "nat \<Rightarrow> ring \<Rightarrow> bytes list \<Rightarrow> bool" where
  "ring_ok cap r q \<longleftrightarrow>
     (let h = unat (shm_head (shm r)); t = unat (shm_tail (shm r)); d = shm_data (shm r)
      in length d = cap \<and> posted r = received r @ q \<and> h = volume (received r) \<and> t = volume (posted r) \<and>
         volume q \<le> cap \<and> ring_bytes d h (volume q) = concat (map ipc_frame q) \<and>
         (\<forall>m \<in> set q. length m \<le> 0xFFFFFFFF) \<and>
         (\<forall>m \<in> set (writing (producer r)). length m \<le> 0xFFFFFFFF \<and> volume q + 4 + length m \<le> cap) \<and>
         ring_bytes d t (length (posted_part (producer r))) = posted_part (producer r) \<and>
         consumer_ok (consumer r) h q)"

lemma unat_lt_64: "unat (w :: 64 word) < 2 ^ 64"
  by (rule order_less_le_trans [OF unsigned_less]) simp

lemma unat_add_small: "unat a + n < 2 ^ 64 \<Longrightarrow> unat (a + word_of_nat n :: 64 word) = unat a + n"
  by (subst unat_word_ariths) (simp add: unat_of_nat mod_simps)

lemma unat_add_4: "unat a + 4 < 2 ^ 64 \<Longrightarrow> unat (a + 4 :: 64 word) = unat a + 4"
  using unat_add_small [of a 4] by simp

lemma unat_add_need: "unat a + 4 + length m < 2 ^ 64 \<Longrightarrow> unat (a + room_for m) = unat a + 4 + length m"
proof -
  assume "unat a + 4 + length m < 2 ^ 64"
  moreover have "a + room_for m = a + word_of_nat (4 + length m)" by (simp add: room_for_def)
  ultimately show ?thesis using unat_add_small [of a "4 + length m"] by (simp add: add.assoc)
qed

text \<open>The test for room, over natural numbers.\<close>

lemma has_room_iff:
  assumes "length (shm_data s) < 2 ^ 64" "unat h \<le> unat t" "unat t - unat h \<le> length (shm_data s)" "length m \<le> 0xFFFFFFFF"
  shows "has_room s h t m \<longleftrightarrow> unat t - unat h + 4 + length m \<le> length (shm_data s)"
proof -
  let ?cap = "word_of_nat (length (shm_data s)) :: 64 word"
  have c: "unat ?cap = length (shm_data s)" using assms(1) by (simp add: unat_of_nat)
  have d: "unat (t - h) = unat t - unat h" using assms(2) by (simp add: unat_sub word_le_nat_alt)
  then have "unat (?cap - (t - h)) = length (shm_data s) - (unat t - unat h)"
    using assms(3) c by (simp add: unat_sub word_le_nat_alt)
  moreover have "unat (room_for m) = 4 + length m" using unat_add_need [of 0 m] assms(4) by simp
  ultimately show ?thesis using assms(3) unfolding has_room_def word_less_nat_alt not_less by auto
qed

lemma message_at_head:
  assumes "volume q \<le> length (shm_data s)" "0 < length (shm_data s)" "ring_bytes (shm_data s) (unat h) (volume q) = concat (map ipc_frame q)"
    "q = m # q'" "length m \<le> 0xFFFFFFFF" "unat wr = unat h + volume (take k q)" "unat wr \<noteq> unat h"
  shows "message_at s h wr = Some (length m)"
proof -
  have "ring_copy_out s h 4 = ring_bytes (shm_data s) (unat h) 4" using assms(1,2,4) by (intro copy_out_bytes) simp_all
  also have "\<dots> = take 4 (concat (map ipc_frame q))" using take_ring_bytes [of 4 "volume q" "shm_data s" "unat h"] assms(3,4) by simp
  also have "\<dots> = wire_bytes 4 (length m)" by (simp add: assms(4) ipc_frame_def)
  finally have v: "le_value (ring_copy_out s h 4) = length m" using le_value_4 [OF assms(5)] by simp
  have "0 < k" using assms(6,7) by (cases k) simp_all
  then have "4 + length m \<le> unat wr - unat h" using assms(4,6) by (cases k) simp_all
  moreover have "unat (wr - h) = unat wr - unat h" using assms(6) by (simp add: unat_sub word_le_nat_alt)
  moreover have "unat (word_of_nat (length m) + 4 :: 64 word) = length m + 4"
    using unat_add_need [of 0 m] assms(5) by (simp add: room_for_def add.commute)
  ultimately have "\<not> word_of_nat (length m) + 4 > wr - h" unfolding word_less_nat_alt by simp
  then show ?thesis by (simp add: message_at_def v)
qed


lemma ring_okD:
  assumes "ring_ok cap r q"
  shows "length (shm_data (shm r)) = cap" "posted r = received r @ q" "unat (shm_head (shm r)) = volume (received r)"
    "unat (shm_tail (shm r)) = volume (received r) + volume q" "volume q \<le> cap"
    "ring_bytes (shm_data (shm r)) (unat (shm_head (shm r))) (volume q) = concat (map ipc_frame q)"
    "\<forall>m \<in> set q. length m \<le> 0xFFFFFFFF"
    "\<forall>m \<in> set (writing (producer r)). length m \<le> 0xFFFFFFFF \<and> volume q + 4 + length m \<le> cap"
    "ring_bytes (shm_data (shm r)) (unat (shm_tail (shm r))) (length (posted_part (producer r))) = posted_part (producer r)"
    "consumer_ok (consumer r) (unat (shm_head (shm r))) q"
  using assms by (auto simp: ring_ok_def Let_def)

text \<open>A step of the producer.\<close>

lemma consumer_ok_append: "consumer_ok c h q \<Longrightarrow> consumer_ok c h (q @ [m])"
proof (cases c)
  case (C_tail wr)
  assume "consumer_ok c h q"
  then obtain k where "unat wr = h + volume (take k q)" using C_tail by auto
  then have "unat wr = h + volume (take (min k (length q)) (q @ [m]))" by (simp add: min_def)
  then show ?thesis unfolding C_tail consumer_ok.simps ..
qed auto

lemma producer_copies:
  assumes "ring_ok cap r q" "0 < cap" "unat p = volume (received r) + volume q + j" "j + length src \<le> cap - volume q"
    "j = length (posted_part (producer r))" "posted_part pr = posted_part (producer r) @ src" "writing pr = writing (producer r)"
  shows "ring_ok cap (r\<lparr>producer := pr, shm := ring_copy_in (shm r) p src\<rparr>) q"
proof -
  note k = ring_okD [OF assms(1)]
  let ?s = "shm r"
  have n: "volume q + j + length src \<le> length (shm_data ?s)" "0 < length (shm_data ?s)" using k(1,5) assms(2,4) by simp_all
  have p: "unat p = unat (shm_head ?s) + (volume q + j)" using assms(3) k(3) by simp
  note c = ring_bytes_copy_in [OF n(1) n(2) p]
  have l: "length src \<le> length (shm_data ?s)" using n(1) by simp
  note f = copy_in_facts [OF l n(2), where p = p]
  let ?d = "shm_data (ring_copy_in ?s p src)"
  have "ring_bytes ?d (unat (shm_head ?s)) (volume q) = take (volume q) (ring_bytes ?d (unat (shm_head ?s)) (volume q + j))"
    by (simp add: take_ring_bytes)
  then have 1: "ring_bytes ?d (unat (shm_head ?s)) (volume q) = concat (map ipc_frame q)"
    unfolding c(1) using k(6) by (simp add: take_ring_bytes)
  have "ring_bytes ?d (unat (shm_tail ?s)) j = drop (volume q) (ring_bytes ?d (unat (shm_head ?s)) (volume q + j))"
    using k(3,4) by (simp add: drop_ring_bytes)
  then have "ring_bytes ?d (unat (shm_tail ?s)) j = posted_part (producer r)"
    unfolding c(1) using k(3,4,9) assms(5) by (simp add: drop_ring_bytes)
  then have 2: "ring_bytes ?d (unat (shm_tail ?s)) (length (posted_part pr)) = posted_part pr"
    using c(2) assms(3,5,6) k(4) by (simp add: ring_bytes_append)
  show ?thesis using k assms(7) 1 2 f(1-3) by (simp add: ring_ok_def)
qed

lemma ring_ok_step:
  assumes "ring_step r r'" "ring_ok cap r q" "0 < cap" "cap < 2 ^ 64" "volume (all_posted r') < 2 ^ 64"
  shows "\<exists>q'. ring_ok cap r' q'"
proof -
  note k = ring_okD [OF assms(2)]
  have room: "has_room (shm r) (shm_head (shm r)) (shm_tail (shm r)) m \<longleftrightarrow> volume q + 4 + length m \<le> cap"
    if "length m \<le> 0xFFFFFFFF" for m
    using has_room_iff [of "shm r" "shm_head (shm r)" "shm_tail (shm r)" m] k(1,3,4,5) assms(4) that by simp
  show ?thesis using assms(1)
  proof cases
    case write_refused
    then show ?thesis using assms(2) by blast
  next
    case (write_load m)
    have "ring_ok cap (r\<lparr>producer := P_room m\<rparr>) q"
      using k write_load room by (simp add: ring_ok_def)
    then show ?thesis using write_load by blast
  next
    case (write_length m)
    have "ring_ok cap r' q" unfolding write_length(1)
      using k(4,8) write_length(2) by (intro producer_copies [OF assms(2,3), where j = 0]) auto
    then show ?thesis ..
  next
    case (write_message m)
    have w: "posted_part (P_message m) = posted_part (producer r) @ m" using write_message by (simp add: ipc_frame_def)
    have "volume (all_posted r) < 2 ^ 64" using assms(5) write_message by (simp add: all_posted_def)
    then have "unat (shm_tail (shm r)) + 4 < 2 ^ 64" using k(2,4) write_message(2) by (simp add: all_posted_def)
    then have "unat (shm_tail (shm r) + 4) = volume (received r) + volume q + 4" using unat_add_4 k(4) by simp
    then have "ring_ok cap r' q" unfolding write_message(1)
      using k(8) write_message(2) w by (intro producer_copies [OF assms(2,3), where j = 4]) auto
    then show ?thesis ..
  next
    case (write_store m)
    have v: "unat (shm_tail (shm r)) + 4 + length m < 2 ^ 64"
      using assms(5) k(2,4) write_store by (simp add: all_posted_def)
    have "ring_bytes (shm_data (shm r)) (unat (shm_head (shm r))) (volume q + (4 + length m)) = concat (map ipc_frame (q @ [m]))"
      using k(3,4,6,9) write_store(2) by (simp add: ring_bytes_append)
    then have "ring_ok cap r' (q @ [m])"
      using assms(2) k(2,3,4,8) write_store unat_add_need [OF v] consumer_ok_append [OF k(10), of m]
      by (auto simp: ring_ok_def Let_def add.assoc)
    then show ?thesis ..
  next
    case read_load
    have "consumer_ok (C_tail (shm_tail (shm r))) (unat (shm_head (shm r))) q"
      using k(3,4) by (auto intro: exI [of _ "length q"])
    then have "ring_ok cap r' q" using k(1-9) read_load by (simp add: ring_ok_def)
    then show ?thesis ..
  next
    case (read_nothing wr)
    then have "ring_ok cap r' q" using k by (simp add: ring_ok_def)
    then show ?thesis ..
  next
    case (read_length wr n)
    obtain j where j: "unat wr = unat (shm_head (shm r)) + volume (take j q)" using k(10) read_length(2) by auto
    have ne: "unat wr \<noteq> unat (shm_head (shm r))" using read_length(3) by (metis unsigned_word_eqI)
    then obtain m q' where q: "q = m # q'" using j by (cases q) auto
    have m: "length m \<le> 0xFFFFFFFF" using k(7) q by simp
    have "0 < length (shm_data (shm r))" "volume q \<le> length (shm_data (shm r))" using k(1,5) assms(3) by simp_all
    from message_at_head [OF this(2,1) k(6) q m j ne] have "n = length m" using read_length(4) by simp
    then have "ring_ok cap r' q" using k read_length(1) q by (simp add: ring_ok_def)
    then show ?thesis ..
  next
    case (read_refused n)
    then have "ring_ok cap r' q" using k by (simp add: ring_ok_def)
    then show ?thesis ..
  next
    case (read_copy n)
    obtain m q' where q: "q = m # q'" "n = length m" using k(10) read_copy(2) by auto
    have "volume (received r) + volume q < 2 ^ 64" using k(4) unat_lt_64 [of "shm_tail (shm r)"] by simp
    then have "unat (shm_head (shm r)) + 4 < 2 ^ 64" using k(3) q(1) by simp
    then have h: "unat (shm_head (shm r) + 4) = unat (shm_head (shm r)) + 4" by (rule unat_add_4)
    have "ring_copy_out (shm r) (shm_head (shm r) + 4) n = ring_bytes (shm_data (shm r)) (unat (shm_head (shm r)) + 4) n"
      using copy_out_bytes [of n "shm r"] k(1,5) assms(3) q h by simp
    also have "\<dots> = take n (drop 4 (ring_bytes (shm_data (shm r)) (unat (shm_head (shm r))) (volume q)))"
      using q by (simp add: drop_ring_bytes take_ring_bytes)
    also have "\<dots> = m" unfolding k(6) using q by (simp add: ipc_frame_def)
    finally have "ring_ok cap r' q" using k read_copy(1) q by (simp add: ring_ok_def)
    then show ?thesis ..
  next
    case (read_store m)
    obtain q' where q: "q = m # q'" using k(10) read_store(2) by auto
    have "volume (received r) + volume q < 2 ^ 64" using k(4) unat_lt_64 [of "shm_tail (shm r)"] by simp
    then have "unat (shm_head (shm r)) + 4 + length m < 2 ^ 64" using k(3) q by simp
    from unat_add_need [OF this] have h: "unat (shm_head (shm r) + 4 + word_of_nat (length m)) = unat (shm_head (shm r)) + 4 + length m"
      by (simp add: room_for_def add.assoc)
    have "ring_bytes (shm_data (shm r)) (unat (shm_head (shm r)) + 4 + length m) (volume q') =
        drop (4 + length m) (ring_bytes (shm_data (shm r)) (unat (shm_head (shm r))) (volume q))"
      using q by (simp add: drop_ring_bytes add.assoc)
    also have "\<dots> = concat (map ipc_frame q')" unfolding k(6) using q by simp
    finally have "ring_ok cap r' q'" using k read_store(1) q h by (auto simp: ring_ok_def Let_def)
    then show ?thesis ..
  qed
qed


lemma volume_mono: "ring_step r r' \<Longrightarrow> volume (all_posted r) \<le> volume (all_posted r')"
  by (cases rule: ring_step.cases) (auto simp: all_posted_def)

lemma ring_start_ok: "ring_ok cap (ring_start cap) []"
  by (simp add: ring_ok_def ring_start_def shm_fresh_def)

lemma ring_runs_ok:
  assumes "ring_step\<^sup>*\<^sup>* (ring_start cap) r" "0 < cap" "cap < 2 ^ 64" "volume (all_posted r) < 2 ^ 64"
  shows "\<exists>q. ring_ok cap r q"
  using assms(1,4)
proof (induction rule: rtranclp_induct)
  case base
  then show ?case using ring_start_ok by blast
next
  case (step r r')
  then have "volume (all_posted r) < 2 ^ 64" using volume_mono by fastforce
  then show ?case using step ring_ok_step [OF step.hyps(2) _ assms(2,3)] by blast
qed

lemma ring_queue:
  assumes "ring_step\<^sup>*\<^sup>* (ring_start cap) r" "0 < cap" "cap < 2 ^ 64" "volume (all_posted r) < 2 ^ 64"
  shows "\<exists>q. posted r = received r @ q \<and> volume q \<le> cap"
  using ring_runs_ok [OF assms] ring_okD(2,5) by blast

text \<open>A message that has been written can be read, by steps of the consumer alone.\<close>

lemma ring_reads:
  assumes "ring_ok cap r q" "0 < cap" "consumer r = C_idle" "q = m # q'"
  shows "\<exists>r'. ring_step\<^sup>*\<^sup>* r r' \<and> received r' = received r @ [m] \<and> posted r' = posted r \<and> consumer r' = C_idle"
proof -
  note k = ring_okD [OF assms(1)]
  define wr where "wr = shm_tail (shm r)"
  let ?h = "shm_head (shm r)"
  let ?r1 = "r\<lparr>consumer := C_tail wr\<rparr>" and ?r2 = "r\<lparr>consumer := C_length (length m)\<rparr>"
  let ?x = "ring_copy_out (shm r) (?h + 4) (length m)"
  let ?r3 = "r\<lparr>consumer := C_message ?x\<rparr>"
  have wr: "unat wr = unat ?h + volume (take (length q) q)" using k(3,4) by (simp add: wr_def)
  then have ne: "unat wr \<noteq> unat ?h" using assms(4) by simp
  have 1: "ring_step r ?r1" unfolding wr_def by (rule read_load [OF assms(3)])
  have sz: "volume q \<le> length (shm_data (shm r))" "0 < length (shm_data (shm r))" "length m \<le> 0xFFFFFFFF"
    using k(1,5,7) assms(2,4) by simp_all
  have at: "message_at (shm r) ?h wr = Some (length m)" by (rule message_at_head [OF sz(1,2) k(6) assms(4) sz(3) wr ne])
  then have 2: "ring_step ?r1 ?r2" using read_length [of ?r1 wr "length m"] ne by auto
  have 3: "ring_step ?r2 ?r3" using read_copy [of ?r2 "length m"] by simp
  have "ring_ok cap ?r2 q" using k assms(4) by (simp add: ring_ok_def)
  then have "volume (received r) + volume q < 2 ^ 64" using k(4) unat_lt_64 [of "shm_tail (shm r)"] by simp
  then have "unat ?h + 4 < 2 ^ 64" using k(3) assms(4) by simp
  then have h: "unat (?h + 4) = unat ?h + 4" by (rule unat_add_4)
  have "?x = ring_bytes (shm_data (shm r)) (unat ?h + 4) (length m)"
    using copy_out_bytes [of "length m" "shm r"] sz assms(4) h by simp
  also have "\<dots> = take (length m) (drop 4 (ring_bytes (shm_data (shm r)) (unat ?h) (volume q)))"
    using assms(4) by (simp add: drop_ring_bytes take_ring_bytes)
  also have "\<dots> = m" unfolding k(6) using assms(4) by (simp add: ipc_frame_def)
  finally have x: "?x = m" .
  let ?r4 = "r\<lparr>consumer := C_idle, shm := (shm r)\<lparr>shm_head := ?h + 4 + word_of_nat (length m)\<rparr>, received := received r @ [m]\<rparr>"
  have 4: "ring_step ?r3 ?r4" using read_store [of ?r3 ?x] x assms(3) by simp
  have "ring_step\<^sup>*\<^sup>* r ?r4" using 1 2 3 4 by (meson converse_rtranclp_into_rtranclp rtranclp.rtrancl_refl)
  then show ?thesis using assms(3) by (intro exI [of _ ?r4]) simp
qed

text \<open>A message for which there is room can be written, by steps of the producer alone.\<close>

lemma ring_writes:
  assumes "ring_ok cap r q" "cap < 2 ^ 64" "producer r = P_idle" "length m \<le> 0xFFFFFFFF" "volume q + 4 + length m \<le> cap"
  shows "\<exists>r'. ring_step\<^sup>*\<^sup>* r r' \<and> posted r' = posted r @ [m] \<and> received r' = received r \<and> consumer r' = consumer r \<and> producer r' = P_idle"
proof -
  note k = ring_okD [OF assms(1)]
  let ?t = "shm_tail (shm r)"
  let ?s1 = "ring_copy_in (shm r) ?t (wire_bytes 4 (length m))"
  let ?r1 = "r\<lparr>producer := P_room m\<rparr>" and ?r2 = "r\<lparr>producer := P_length m, shm := ?s1\<rparr>"
  let ?s2 = "ring_copy_in ?s1 (shm_tail ?s1 + 4) m"
  let ?r3 = "r\<lparr>producer := P_message m, shm := ?s2\<rparr>"
  let ?r4 = "r\<lparr>producer := P_idle, shm := ?s2\<lparr>shm_tail := shm_tail ?s2 + room_for m\<rparr>, posted := posted r @ [m]\<rparr>"
  have "has_room (shm r) (shm_head (shm r)) ?t m"
    using has_room_iff [of "shm r" "shm_head (shm r)" ?t m] k(1,3,4,5) assms(2,4,5) by simp
  then have 1: "ring_step r ?r1" by (rule write_load [OF assms(3,4)])
  have 2: "ring_step ?r1 ?r2" using write_length [of ?r1 m] by simp
  have 3: "ring_step ?r2 ?r3" using write_message [of ?r2 m] by simp
  have 4: "ring_step ?r3 ?r4" using write_store [of ?r3 m] by simp
  have "ring_step\<^sup>*\<^sup>* r ?r4" using 1 2 3 4 by (meson converse_rtranclp_into_rtranclp rtranclp.rtrancl_refl)
  then show ?thesis by (intro exI [of _ ?r4]) simp
qed

subsection \<open>Frames\<close>

lemma chunk_of_bounds: "n \<noteq> 0 \<Longrightarrow> chunk_of n \<noteq> 0" "chunk_of n \<le> n"
  by (simp_all add: chunk_of_def)

lemma send_all_sent: "send_all ch p = (ok, ch') \<Longrightarrow> \<exists>k. sent ch' = sent ch @ take k p \<and> (ok \<longrightarrow> k = length p) \<and> listener ch' = listener ch"
proof (induction ch p arbitrary: ok rule: send_all.induct)
  case (1 ch p)
  show ?case
  proof (cases "p = []")
    case True
    then show ?thesis using 1(2) by (simp add: send_all.simps)
  next
    case False
    obtain w c where w: "sys_send ch (take (chunk_of (length p)) p) = (w, c)" by fastforce
    have s: "sent c = sent ch @ take w p" "listener c = listener ch" "w \<le> length p"
      using w chunk_of_bounds(2) [of "length p"] by (auto simp: sys_send_def Let_def min_def)
    show ?thesis
    proof (cases "w = 0")
      case True
      then show ?thesis using 1(2) False w s by (auto simp: send_all.simps [of ch p] intro: exI [of _ 0])
    next
      case nz: False
      then have r: "send_all c (drop w p) = (ok, ch')" using 1(2) False w by (simp add: send_all.simps [of ch p])
      from 1(1) [OF False w [symmetric] refl nz this] obtain k where
        k: "sent ch' = sent c @ take k (drop w p)" "ok \<longrightarrow> k = length (drop w p)" "listener ch' = listener c" by blast
      then show ?thesis using s by (intro exI [of _ "w + k"]) (simp add: take_add)
    qed
  qed
qed

lemma take_min_length: "take (min (length l) i) l = take i l"
  by (simp add: min_def)

lemma sys_recv_reads:
  "sys_recv ch n = (got, ch') \<Longrightarrow>
   got = take (length got) (incoming ch) \<and> length got \<le> n \<and>
     ch' = ch\<lparr>transfers := transfers ch + 1, incoming := drop (length got) (incoming ch)\<rparr>"
proof -
  assume s: "sys_recv ch n = (got, ch')"
  define i where "i = min (transfer ch (transfers ch)) n"
  have g: "got = take i (incoming ch)" "ch' = ch\<lparr>transfers := transfers ch + 1, incoming := drop (length got) (incoming ch)\<rparr>"
    using s by (auto simp: sys_recv_def Let_def i_def)
  have "take (length got) (incoming ch) = got" unfolding g(1) by (simp add: take_min_length)
  then show ?thesis using g by (simp add: i_def)
qed

text \<open>What a call leaves of the stream: \<open>k\<close> bytes are read.\<close>

definition drains :: "nyxj_ipc \<Rightarrow> nat \<Rightarrow> nyxj_ipc \<Rightarrow> bool" where
  "drains ch k ch' \<longleftrightarrow> incoming ch' = drop k (incoming ch) \<and> k \<le> length (incoming ch) \<and>
     listener ch' = listener ch \<and> ready_at ch' = ready_at ch \<and> transfer ch' = transfer ch"

lemma drains_trans: "drains a j b \<Longrightarrow> drains b k c \<Longrightarrow> drains a (j + k) c"
  by (auto simp: drains_def add.commute)

lemma recv_all_reads:
  "recv_all ch n buf = (x, out, ch') \<Longrightarrow>
   \<exists>k \<le> n. out = buf @ take k (incoming ch) \<and> drains ch k ch' \<and> (x = Readable \<longrightarrow> k = n)"
proof (induction ch n buf arbitrary: x rule: recv_all.induct)
  case (1 ch n buf)
  show ?case
  proof (cases "n = 0")
    case True
    then show ?thesis using 1(2) by (simp add: recv_all.simps drains_def)
  next
    case False
    obtain y c where y: "wait_readable ch = (y, c)" by fastforce
    have c: "drains ch 0 c" "incoming c = incoming ch" using y by (auto simp: wait_readable_def drains_def)
    have here: ?thesis if "x \<noteq> Readable" "out = buf" "ch' = c" using that c by (intro exI [of _ 0]) simp
    show ?thesis
    proof (cases y)
      case Timeout
      then show ?thesis using 1(2) False y here unfolding recv_all.simps [of ch n buf] by simp
    next
      case Select_error
      then show ?thesis using 1(2) False y here unfolding recv_all.simps [of ch n buf] by simp
    next
      case Readable
      obtain got c2 where g: "sys_recv c (chunk_of n) = (got, c2)" by fastforce
      note g2 = sys_recv_reads [OF g]
      have k: "length got \<le> n" "got = take (length got) (incoming ch)" "drains c (length got) c2"
        using g2 chunk_of_bounds(2) [of n] c(2) by (auto simp: drains_def) (metis length_take min.cobounded1)
      have r2: "drains ch (length got) c2" using drains_trans [OF c(1) k(3)] by simp
      show ?thesis
      proof (cases "got = []")
        case True
        then have "x = Select_error" "out = buf" "ch' = c2"
          using 1(2) False y Readable g unfolding recv_all.simps [of ch n buf] by simp_all
        then show ?thesis using r2 True by (intro exI [of _ 0]) simp
      next
        case ne: False
        have r: "recv_all c2 (n - length got) (buf @ got) = (x, out, ch')"
          using 1(2) False y Readable g ne unfolding recv_all.simps [of ch n buf] by simp
        from 1(1) [OF False y [symmetric] Readable refl g [symmetric] ne r] obtain j where
          j: "j \<le> n - length got" "out = (buf @ got) @ take j (incoming c2)" "drains c2 j ch'" "x = Readable \<longrightarrow> j = n - length got" by blast
        have "got @ take j (incoming c2) = take (length got + j) (incoming ch)"
          using k(2) r2 by (metis drains_def take_add)
        then show ?thesis using j k(1) drains_trans [OF r2 j(3)] by (intro exI [of _ "length got + j"]) auto
      qed
    qed
  qed
qed


text \<open>The peer keeps sending: \<open>select\<close> always reports the socket readable, and \<open>recv\<close> then gives at least a byte.\<close>

definition flowing :: "nyxj_ipc \<Rightarrow> bool" where
  "flowing ch \<longleftrightarrow> (\<forall>k. ready_at ch k = Readable) \<and> (\<forall>k. 0 < transfer ch k)"

lemma flowing_reads: "drains ch k ch' \<Longrightarrow> flowing ch' = flowing ch"
  by (simp add: drains_def flowing_def)

lemma recv_all_flowing: "flowing ch \<Longrightarrow> n \<le> length (incoming ch) \<Longrightarrow> fst (recv_all ch n buf) = Readable"
proof (induction ch n buf rule: recv_all.induct)
  case (1 ch n buf)
  show ?case
  proof (cases "n = 0")
    case True
    then show ?thesis by (simp add: recv_all.simps)
  next
    case False
    obtain c where y: "wait_readable ch = (Readable, c)" using 1(2) by (simp add: wait_readable_def flowing_def)
    have c: "drains ch 0 c" using y by (auto simp: wait_readable_def drains_def)
    obtain got c2 where g: "sys_recv c (chunk_of n) = (got, c2)" by fastforce
    note g2 = sys_recv_reads [OF g]
    have k: "length got \<le> n" "drains c (length got) c2"
      using g2 chunk_of_bounds(2) [of n] by (auto simp: drains_def) (metis length_take min.cobounded1)
    have "flowing c" using c 1(2) flowing_reads by blast
    then have "0 < transfer c (transfers c)" "incoming c \<noteq> []"
      using c 1(3) False by (auto simp: flowing_def drains_def)
    then have ne: "got \<noteq> []" using g chunk_of_bounds(1) [OF False] by (auto simp: sys_recv_def Let_def)
    have "flowing c2" "n - length got \<le> length (incoming c2)"
      using k c 1(2,3) flowing_reads by (auto simp: drains_def flowing_def)
    from 1(1) [OF False y [symmetric] refl refl g [symmetric] ne this] show ?thesis
      using False y g ne unfolding recv_all.simps [of ch n buf] by simp
  qed
qed

lemma send_all_flowing:
  "\<forall>k. 0 < transfer ch k \<Longrightarrow> fst (send_all ch p) \<and> transfer (snd (send_all ch p)) = transfer ch"
proof (induction ch p rule: send_all.induct)
  case (1 ch p)
  show ?case
  proof (cases "p = []")
    case False
    obtain w c where s: "sys_send ch (take (chunk_of (length p)) p) = (w, c)" by fastforce
    have w: "w \<noteq> 0" "transfer c = transfer ch"
      using s 1(2) False chunk_of_bounds(1) [of "length p"] by (auto simp: sys_send_def Let_def)
    from 1(1) [OF False s [symmetric] refl w(1)] show ?thesis
      using False s w 1(2) unfolding send_all.simps [of ch p] by simp
  qed (simp add: send_all.simps [of _ "[]"])
qed

lemma ipc_send_flowing:
  assumes "\<forall>k. 0 < transfer ch k" "\<not> listener ch" "length m \<le> MAX_FRAME"
  shows "\<exists>er ch'. nyxj_ipc_send why (Some ch) (Some m) (length m) = (True, er, Some ch')"
proof -
  obtain b c where s: "send_all ch (wire_bytes 4 (length m)) = (b, c)" by fastforce
  then have "b" "\<forall>k. 0 < transfer c k" using send_all_flowing [OF assms(1), of "wire_bytes 4 (length m)"] assms(1) by simp_all
  moreover obtain b' c' where s': "send_all c m = (b', c')" by fastforce
  ultimately have "b'" using send_all_flowing [of c m] by simp
  then show ?thesis using assms(2,3) s s' \<open>b\<close> by (simp add: nyxj_ipc_send_def)
qed

lemma ipc_send_frame:
  assumes "nyxj_ipc_send reason (Some ch) (Some m) (length m) = (True, er, Some ch')"
  shows "sent ch' = sent ch @ ipc_frame m" "length m \<le> MAX_FRAME"
proof -
  obtain ok c where s: "send_all ch (wire_bytes 4 (length m)) = (ok, c)" by fastforce
  have g: "\<not> listener ch" "length m \<le> MAX_FRAME" "ok" "\<exists>r. send_all c m = (True, r) \<and> ch' = r"
    using assms s by (auto simp: nyxj_ipc_send_def Let_def split: if_splits prod.splits)
  show "length m \<le> MAX_FRAME" by (rule g)
  show "sent ch' = sent ch @ ipc_frame m"
    using send_all_sent [OF s] g(3,4) send_all_sent [of c m True ch'] by (auto simp: ipc_frame_def)
qed

lemma ipc_recv_frame:
  assumes "incoming c = ipc_frame m @ rest" "length m \<le> MAX_FRAME" "nyxj_ipc_recv h (Some c) = (Some buf, er, Some c', h')"
  shows "buf = m" "incoming c' = rest"
proof -
  obtain x hdr c1 where r: "recv_all c 4 [] = (x, hdr, c1)" by (metis prod_cases3)
  have x: "x = Readable" "\<not> listener c" using assms(3) r by (auto simp: nyxj_ipc_recv_def split: readiness.splits if_splits)
  obtain k where k: "k \<le> 4" "hdr = take k (incoming c)" "drains c k c1" "k = 4" using recv_all_reads [OF r] x by auto
  have v: "hdr = wire_bytes 4 (length m)" "le_value hdr = length m" "incoming c1 = m @ rest"
    using k assms(1,2) le_value_4 [of "length m"] by (auto simp: ipc_frame_def drains_def MAX_FRAME_def)
  obtain ok h1 where mal: "malloc h (length m + 1) = (ok, h1)" by fastforce
  obtain y buf2 c2 where r2: "recv_all c1 (length m) [] = (y, buf2, c2)" by (metis prod_cases3)
  have "buf = m \<and> incoming c' = rest"
  proof (cases "m = []")
    case True
    then show ?thesis using assms(2,3) r x v mal by (auto simp: nyxj_ipc_recv_def Let_def split: if_splits)
  next
    case False
    then have "y = Readable \<and> buf = buf2 \<and> c' = c2"
      using assms(2,3) r x v mal r2 by (auto simp: nyxj_ipc_recv_def Let_def split: if_splits readiness.splits)
    then show ?thesis using recv_all_reads [OF r2] v(3) by (auto simp: drains_def)
  qed
  then show "buf = m" "incoming c' = rest" by simp_all
qed

lemma ipc_recv_flowing:
  assumes "incoming c = ipc_frame m @ rest" "length m \<le> MAX_FRAME" "flowing c" "\<not> listener c" "heap_total h"
  shows "\<exists>buf er c' h'. nyxj_ipc_recv h (Some c) = (Some buf, er, Some c', h') \<and> flowing c' \<and> \<not> listener c' \<and> heap_total h'"
proof -
  obtain hdr c1 where r: "recv_all c 4 [] = (Readable, hdr, c1)"
    using recv_all_flowing [OF assms(3), of 4 "[]"] assms(1) by (metis append.assoc ipc_frame_def le_add1 length_append length_wire_bytes prod.collapse)
  obtain k where k: "hdr = take k (incoming c)" "drains c k c1" "k = 4" using recv_all_reads [OF r] by auto
  have v: "le_value hdr = length m" "incoming c1 = m @ rest" "flowing c1" "\<not> listener c1"
    using k assms le_value_4 [of "length m"] flowing_reads [OF k(2)] by (auto simp: ipc_frame_def drains_def MAX_FRAME_def)
  obtain h1 where mal: "malloc h (length m + 1) = (True, h1)" "heap_total h1" using malloc_total [OF assms(5), of "length m + 1"]
    by (cases "malloc h (length m + 1)") auto
  obtain buf2 c2 where r2: "recv_all c1 (length m) [] = (Readable, buf2, c2)"
    using recv_all_flowing [OF v(3), of "length m" "[]"] v(2) by (metis le_add1 length_append prod.collapse)
  obtain j where j: "drains c1 j c2" using recv_all_reads [OF r2] by auto
  have "flowing c2" "\<not> listener c2" using flowing_reads [OF j] v(3,4) j by (auto simp: drains_def)
  then show ?thesis using assms(2,4) r v mal r2 by (simp add: nyxj_ipc_recv_def Let_def)
qed

text \<open>A timeout in the middle of a frame loses what was read of it: the next call starts inside the frame.\<close>

lemma ipc_timeout_loses:
  assumes "incoming c = ipc_frame m @ rest" "\<not> listener c" "waits c = 0" "transfers c = 0" "transfer c 0 = 2"
    "ready_at c 0 = Readable" "ready_at c 1 = Timeout"
  shows "\<exists>er c'. nyxj_ipc_recv h (Some c) = (None, er, Some c', h) \<and> incoming c' = drop 2 (ipc_frame m) @ rest"
proof -
  define c1 where "c1 = c\<lparr>waits := 1, transfers := 1, incoming := drop 2 (incoming c)\<rparr>"
  have l: "4 \<le> length (incoming c)" unfolding assms(1) by (simp add: ipc_frame_def)
  have w: "wait_readable c = (Readable, c\<lparr>waits := 1\<rparr>)" using assms(3,6) by (simp add: wait_readable_def)
  have r: "sys_recv (c\<lparr>waits := 1\<rparr>) (chunk_of 4) = (take 2 (incoming c), c1)"
    using assms(4,5) l by (simp add: sys_recv_def chunk_of_def c1_def)
  have n: "take 2 (incoming c) \<noteq> []" "4 - length (take 2 (incoming c)) = 2" using l by auto
  have "recv_all c1 2 (take 2 (incoming c)) = (Timeout, take 2 (incoming c), c1\<lparr>waits := 2\<rparr>)"
    unfolding recv_all.simps [of c1] using assms(7) by (simp add: wait_readable_def c1_def)
  then have "recv_all c 4 [] = (Timeout, take 2 (incoming c), c1\<lparr>waits := 2\<rparr>)"
    unfolding recv_all.simps [of c 4] using w r n by simp
  moreover have "incoming (c1\<lparr>waits := 2\<rparr>) = drop 2 (ipc_frame m) @ rest" using assms(1) by (simp add: c1_def)
  ultimately show ?thesis using assms(2) by (simp add: nyxj_ipc_recv_def)
qed

end
