(* ===== verification/Pool.thy ===== *)
theory Pool
  imports Simulation
begin

text \<open>
  The thread pool of \<^verbatim>\<open>src/runtime/pool.c\<close>. What runs under the lock is one step; the threads interleave between the steps.
  A task, a function and its argument, is a value of type \<open>'t\<close>; running it has no effect on the pool, except that it
  may call the pool as any other client does.

  A wait on a condition variable releases the lock and sleeps in one step; a signal wakes one sleeper, if there is any,
  and a sleeper may wake without a signal.
\<close>

text \<open>A slot of the ring is \<open>None\<close> as long as nothing was stored in it.\<close>

record 't nyxj_pool =
  nthreads :: nat
  slots :: "'t option list"
  qhead :: nat
  qcount :: nat
  active :: nat
  active_limit :: nat
  shutdown :: bool
  completed :: "64 word"
  rejections :: "64 word"

datatype 't worker = Awake | Asleep | Running "'t option" | Exited

subsection \<open>The operations\<close>

text \<open>\<open>cpus\<close> is what the system reports, \<open>started\<close> says which threads it creates; the loop stops at the first failure.\<close>

definition threads_created :: "(nat \<Rightarrow> bool) \<Rightarrow> nat \<Rightarrow> nat" where
  "threads_created started n = length (takeWhile started [0 ..< n])"

definition nyxj_pool_create :: "heap \<Rightarrow> nat \<Rightarrow> nat \<Rightarrow> (nat \<Rightarrow> bool) \<Rightarrow> int \<Rightarrow> int \<Rightarrow> 't nyxj_pool option \<times> heap" where
  "nyxj_pool_create h pool_bytes cpus started threads queue_capacity =
     (let (ok, h) = malloc h pool_bytes
      in if \<not> ok then (None, h)
         else let threads = (if threads \<le> 0 then cpus else nat threads);
                  cap = (if queue_capacity \<le> 0 then 1024 else nat queue_capacity);
                  (ok1, h) = malloc h (16 * cap);
                  (ok2, h) = malloc h (8 * threads)
              in if \<not> ok1 \<or> \<not> ok2 then (None, h)
                 else let n = threads_created started threads
                      in if n = 0 then (None, h)
                         else (Some \<lparr>nthreads = n, slots = replicate cap None, qhead = 0, qcount = 0, active = 0, active_limit = n,
                             shutdown = False, completed = 0, rejections = 0\<rparr>, h))"

definition nyxj_pool_submit :: "'t nyxj_pool \<Rightarrow> 't option \<Rightarrow> bool \<times> 't nyxj_pool" where
  "nyxj_pool_submit p t =
     (case t of
        None \<Rightarrow> (False, p)
      | Some x \<Rightarrow>
          if shutdown p \<or> qcount p = length (slots p) then (False, p\<lparr>rejections := rejections p + 1\<rparr>)
          else (True, p\<lparr>slots := (slots p)[(qhead p + qcount p) mod length (slots p) := Some x], qcount := qcount p + 1\<rparr>))"

text \<open>The build without threads runs the task at once.\<close>

definition nyxj_pool_submit_inline :: "'t nyxj_pool \<Rightarrow> 't option \<Rightarrow> bool \<times> 't nyxj_pool" where
  "nyxj_pool_submit_inline p t = (if t = None then (False, p) else (True, p\<lparr>completed := completed p + 1\<rparr>))"

definition nyxj_pool_set_concurrency :: "'t nyxj_pool \<Rightarrow> int \<Rightarrow> 't nyxj_pool" where
  "nyxj_pool_set_concurrency p max_active =
     p\<lparr>active_limit := if max_active \<le> 0 \<or> max_active > int (nthreads p) then nthreads p else nat max_active\<rparr>"

text \<open>The loop of \<open>nyxj_pool_wait\<close> goes to sleep while this holds.\<close>

definition pool_busy :: "'t nyxj_pool \<Rightarrow> bool" where
  "pool_busy p \<longleftrightarrow> qcount p > 0 \<or> active p > 0"

text \<open>The first locked section of \<open>nyxj_pool_destroy\<close>.\<close>

definition begin_shutdown :: "'t nyxj_pool \<Rightarrow> 't nyxj_pool" where
  "begin_shutdown p = p\<lparr>shutdown := True, active_limit := nthreads p\<rparr>"

record nyxj_pool_stats =
  stat_threads :: nat
  stat_queue_capacity :: nat
  stat_queued :: nat
  stat_active :: nat
  stat_limit :: nat
  stat_completed :: "64 word"
  stat_rejected :: "64 word"

definition nyxj_pool_stats_get :: "'t nyxj_pool \<Rightarrow> nyxj_pool_stats" where
  "nyxj_pool_stats_get p =
     \<lparr>stat_threads = nthreads p, stat_queue_capacity = length (slots p), stat_queued = qcount p, stat_active = active p,
      stat_limit = active_limit p, stat_completed = completed p, stat_rejected = rejections p\<rparr>"

subsection \<open>The workers\<close>

text \<open>The first locked section of \<open>worker\<close>, from the test of its loop: the worker waits, returns, sleeps for a
  millisecond and tries again, or takes the next task.\<close>

definition must_wait :: "'t nyxj_pool \<Rightarrow> bool" where
  "must_wait p \<longleftrightarrow> \<not> shutdown p \<and> (qcount p = 0 \<or> active p \<ge> active_limit p)"

definition take_task :: "'t nyxj_pool \<Rightarrow> 't nyxj_pool" where
  "take_task p =
     p\<lparr>qhead := (qhead p + 1) mod length (slots p), qcount := qcount p - 1, active := active p + 1\<rparr>"

definition worker_top :: "'t nyxj_pool \<Rightarrow> 't worker \<times> 't nyxj_pool" where
  "worker_top p =
     (if must_wait p then (Asleep, p)
      else if qcount p = 0 \<and> shutdown p then (Exited, p)
      else if active p \<ge> active_limit p then (Awake, p)
      else (Running (slots p ! qhead p), take_task p))"

text \<open>The second locked section, after the task: what becomes of the pool, whether \<open>has_work\<close> is signalled and whether
  \<open>idle\<close> is broadcast.\<close>

definition worker_done :: "'t nyxj_pool \<Rightarrow> 't nyxj_pool \<times> bool \<times> bool" where
  "worker_done p =
     (let p = p\<lparr>active := active p - 1, completed := completed p + 1\<rparr>
      in (p, qcount p > 0, qcount p = 0 \<and> active p = 0))"

subsection \<open>The threads together\<close>

inductive wakes_one :: "'t worker list \<Rightarrow> 't worker list \<Rightarrow> bool" where
  nobody_sleeps: "Asleep \<notin> set ws \<Longrightarrow> wakes_one ws ws"
| somebody_wakes: "k < length ws \<Longrightarrow> ws ! k = Asleep \<Longrightarrow> wakes_one ws (ws[k := Awake])"

definition wake_all :: "'t worker list \<Rightarrow> 't worker list" where
  "wake_all ws = map (\<lambda>w. case w of Asleep \<Rightarrow> Awake | _ \<Rightarrow> w) ws"

text \<open>A client is elsewhere, about to test the condition of \<open>nyxj_pool_wait\<close>, or asleep in it.\<close>

datatype client = Elsewhere | Testing | Waiting

text \<open>\<open>admitted\<close>, \<open>begun\<close> and \<open>ended\<close> list the tasks that were accepted, taken by a worker, and run to their end;
  \<open>released\<close> says that \<open>nyxj_pool_destroy\<close> has joined all threads.\<close>

record 't threads =
  shared :: "'t nyxj_pool"
  workers :: "'t worker list"
  clients :: "client list"
  released :: bool
  admitted :: "'t list"
  begun :: "'t option list"
  ended :: "'t option list"

text \<open>The steps of the workers, without those that only poll.\<close>

inductive work_step :: "'t threads \<Rightarrow> 't threads \<Rightarrow> bool" where
  tops: "k < length (workers s) \<Longrightarrow> workers s ! k = Awake \<Longrightarrow> worker_top (shared s) = (w, p) \<Longrightarrow> w \<noteq> Awake \<Longrightarrow>
    work_step s (s\<lparr>shared := p, workers := (workers s)[k := w],
      begun := begun s @ (case w of Running t \<Rightarrow> [t] | _ \<Rightarrow> [])\<rparr>)"
| finishes: "k < length (workers s) \<Longrightarrow> workers s ! k = Running t \<Longrightarrow> worker_done (shared s) = (p, signals, idle) \<Longrightarrow>
    (if signals then wakes_one ((workers s)[k := Awake]) ws else ws = (workers s)[k := Awake]) \<Longrightarrow>
    work_step s (s\<lparr>shared := p, workers := ws,
      clients := (if idle then map (\<lambda>c. if c = Waiting then Testing else c) (clients s) else clients s),
      ended := ended s @ [t]\<rparr>)"

text \<open>All steps. No call is made on a pool that has been released, and only one thread destroys it.\<close>

inductive pool_step :: "'t threads \<Rightarrow> 't threads \<Rightarrow> bool" where
  works: "work_step s s' \<Longrightarrow> pool_step s s'"
| polls: "k < length (workers s) \<Longrightarrow> workers s ! k = Awake \<Longrightarrow> worker_top (shared s) = (Awake, p) \<Longrightarrow> pool_step s (s\<lparr>shared := p\<rparr>)"
| wakes: "k < length (workers s) \<Longrightarrow> workers s ! k = Asleep \<Longrightarrow> pool_step s (s\<lparr>workers := (workers s)[k := Awake]\<rparr>)"
| submits: "\<not> released s \<Longrightarrow> nyxj_pool_submit (shared s) t = (ok, p) \<Longrightarrow>
    (if ok then wakes_one (workers s) ws else ws = workers s) \<Longrightarrow>
    pool_step s (s\<lparr>shared := p, workers := ws, admitted := admitted s @ (if ok then [the t] else [])\<rparr>)"
| limits: "\<not> released s \<Longrightarrow>
    pool_step s (s\<lparr>shared := nyxj_pool_set_concurrency (shared s) n, workers := wake_all (workers s)\<rparr>)"
| awaits: "\<not> released s \<Longrightarrow> k < length (clients s) \<Longrightarrow> clients s ! k = Elsewhere \<Longrightarrow>
    pool_step s (s\<lparr>clients := (clients s)[k := Testing]\<rparr>)"
| tests: "\<not> released s \<Longrightarrow> k < length (clients s) \<Longrightarrow> clients s ! k = Testing \<Longrightarrow>
    pool_step s (s\<lparr>clients := (clients s)[k := if pool_busy (shared s) then Waiting else Elsewhere]\<rparr>)"
| stirs: "k < length (clients s) \<Longrightarrow> clients s ! k = Waiting \<Longrightarrow> pool_step s (s\<lparr>clients := (clients s)[k := Testing]\<rparr>)"
| destroys: "\<not> shutdown (shared s) \<Longrightarrow>
    pool_step s (s\<lparr>shared := begin_shutdown (shared s), workers := wake_all (workers s)\<rparr>)"
| joins: "shutdown (shared s) \<Longrightarrow> \<forall>w \<in> set (workers s). w = Exited \<Longrightarrow> pool_step s (s\<lparr>released := True\<rparr>)"

text \<open>The threads of a new pool are about to take the lock.\<close>

definition pool_start :: "'t nyxj_pool \<Rightarrow> nat \<Rightarrow> 't threads" where
  "pool_start p n =
     \<lparr>shared = p, workers = replicate (nthreads p) Awake, clients = replicate n Elsewhere, released = False,
      admitted = [], begun = [], ended = []\<rparr>"

end
