(* ===== verification/Pool_Facts.thy ===== *)
theory Pool_Facts
  imports Pool "HOL-Library.Multiset"
begin

text \<open>
  What the threads of a pool keep whatever the schedule: tasks are begun in the order in which they were admitted, each
  once; a signal is never lost, so that a pool in which no worker can step is idle; the steps of the workers come to an
  end.
\<close>

subsection \<open>The contract\<close>

text \<open>A step relation with an invariant, and a part of its steps that use up what is left to do.\<close>

locale draining =
  fixes inv :: "'s \<Rightarrow> bool"
    and step :: "'s \<Rightarrow> 's \<Rightarrow> bool"
    and work :: "'s \<Rightarrow> 's \<Rightarrow> bool"
    and left :: "'s \<Rightarrow> nat"
  assumes step_inv: "step s s' \<Longrightarrow> inv s \<Longrightarrow> inv s'"
    and work_step: "work s s' \<Longrightarrow> step s s'"
    and work_left: "work s s' \<Longrightarrow> inv s \<Longrightarrow> left s' < left s"
begin

lemma steps_inv: "step\<^sup>*\<^sup>* s s' \<Longrightarrow> inv s \<Longrightarrow> inv s'"
  by (induction rule: rtranclp_induct) (auto intro: step_inv)

lemma works_bounded: "(work ^^ n) s s' \<Longrightarrow> inv s \<Longrightarrow> inv s' \<and> n + left s' \<le> left s"
proof (induction n arbitrary: s')
  case (Suc n)
  then obtain s1 where "(work ^^ n) s s1" "work s1 s'" by auto
  moreover have "inv s1" "n + left s1 \<le> left s" using Suc.IH [OF calculation(1) Suc.prems(2)] by auto
  ultimately show ?case using work_left [of s1 s'] step_inv [of s1 s'] work_step [of s1 s'] by auto
qed simp

lemma works_end: "inv s \<Longrightarrow> \<exists>s'. work\<^sup>*\<^sup>* s s' \<and> inv s' \<and> (\<nexists>s''. work s' s'')"
proof (induction "left s" arbitrary: s rule: less_induct)
  case less
  show ?case
  proof (cases "\<exists>s'. work s s'")
    case True
    then obtain s1 where s: "work s s1" by blast
    then obtain s' where "work\<^sup>*\<^sup>* s1 s'" "inv s'" "\<nexists>s''. work s' s''"
      using less.hyps [OF work_left [OF s less.prems] step_inv [OF work_step [OF s] less.prems]] by blast
    then show ?thesis using s by (blast intro: converse_rtranclp_into_rtranclp)
  next
    case False
    then show ?thesis using less.prems by blast
  qed
qed

end

subsection \<open>Counting the workers\<close>

definition awake_count :: "'t worker list \<Rightarrow> nat" where
  "awake_count ws = length (filter (\<lambda>w. w = Awake) ws)"

definition running_tasks :: "'t worker list \<Rightarrow> 't option list" where
  "running_tasks ws = concat (map (\<lambda>w. case w of Running t \<Rightarrow> [t] | _ \<Rightarrow> []) ws)"

lemma running_tasks_simps [simp]:
  "running_tasks [Awake] = []" "running_tasks [Asleep] = []" "running_tasks [Exited] = []" "running_tasks [Running t] = [t]"
  by (simp_all add: running_tasks_def)

lemma around:
  assumes "k < length ws"
  obtains us vs where "ws = us @ ws ! k # vs" "\<And>w. ws[k := w] = us @ w # vs"
  using id_take_nth_drop [OF assms] upd_conv_take_nth_drop [OF assms] by blast

lemma awake_update:
  assumes "k < length ws"
  shows "awake_count (ws[k := w]) + (if ws ! k = Awake then 1 else 0) = awake_count ws + (if w = Awake then 1 else 0)"
proof -
  obtain us vs where a: "ws = us @ ws ! k # vs" "\<And>w. ws[k := w] = us @ w # vs" using around [OF assms] by blast
  have "awake_count ws = awake_count (us @ ws ! k # vs)" using a(1) by simp
  then show ?thesis unfolding a(2) by (simp add: awake_count_def)
qed

lemma running_update:
  assumes "k < length ws"
  shows "mset (running_tasks (ws[k := w])) + mset (running_tasks [ws ! k]) = mset (running_tasks ws) + mset (running_tasks [w])"
proof -
  obtain us vs where a: "ws = us @ ws ! k # vs" "\<And>w. ws[k := w] = us @ w # vs" using around [OF assms] by blast
  have "running_tasks ws = running_tasks (us @ ws ! k # vs)" using a(1) by simp
  then show ?thesis unfolding a(2) by (simp add: running_tasks_def ac_simps)
qed

lemma running_length:
  assumes "k < length ws"
  shows "length (running_tasks (ws[k := w])) + length (running_tasks [ws ! k]) = length (running_tasks ws) + length (running_tasks [w])"
  using arg_cong [OF running_update [OF assms, of w], of size] by simp

lemma set_update:
  assumes "k < length ws" "ws ! k \<noteq> v"
  shows "v \<in> set (ws[k := w]) \<longleftrightarrow> v = w \<or> v \<in> set ws"
proof -
  obtain us vs where a: "ws = us @ ws ! k # vs" "\<And>w. ws[k := w] = us @ w # vs" using around [OF assms(1)] by blast
  have "v \<in> set ws \<longleftrightarrow> v \<in> set (us @ ws ! k # vs)" using a(1) by simp
  then show ?thesis unfolding a(2) using assms(2) by auto
qed

lemma wake_all_simps [simp]:
  "length (wake_all ws) = length ws" "Asleep \<notin> set (wake_all ws)" "running_tasks (wake_all ws) = running_tasks ws"
  "Exited \<in> set (wake_all ws) \<longleftrightarrow> Exited \<in> set ws" "awake_count ws \<le> awake_count (wake_all ws)"
  by (induction ws) (auto simp: wake_all_def running_tasks_def awake_count_def split: worker.splits)

text \<open>Who neither sleeps nor has returned is awake or runs a task.\<close>

lemma all_awake: "Asleep \<notin> set ws \<Longrightarrow> Exited \<notin> set ws \<Longrightarrow> awake_count ws + length (running_tasks ws) = length ws"
  by (induction ws) (auto simp: running_tasks_def awake_count_def split: worker.splits)

lemma wakes_one_keeps:
  assumes "wakes_one ws ws'"
  shows "length ws' = length ws" "mset (running_tasks ws') = mset (running_tasks ws)"
    "Exited \<in> set ws' \<longleftrightarrow> Exited \<in> set ws" "Asleep \<notin> set ws \<Longrightarrow> ws' = ws"
    "awake_count ws' \<le> awake_count ws + 1" "awake_count ws \<le> awake_count ws'"
    "Asleep \<in> set ws \<Longrightarrow> awake_count ws' = awake_count ws + 1"
proof -
  have "length ws' = length ws \<and> mset (running_tasks ws') = mset (running_tasks ws) \<and> (Exited \<in> set ws' \<longleftrightarrow> Exited \<in> set ws) \<and>
    (Asleep \<notin> set ws \<longrightarrow> ws' = ws) \<and> awake_count ws' \<le> awake_count ws + 1 \<and> awake_count ws \<le> awake_count ws' \<and>
    (Asleep \<in> set ws \<longrightarrow> awake_count ws' = awake_count ws + 1)"
    using assms
  proof cases
    case (somebody_wakes k)
    then show ?thesis
      using awake_update [of k ws Awake] running_update [of k ws Awake] nth_mem [of k ws] set_update [of k ws Exited Awake]
      by (auto simp: running_tasks_def)
  qed auto
  then show "length ws' = length ws" "mset (running_tasks ws') = mset (running_tasks ws)"
    "Exited \<in> set ws' \<longleftrightarrow> Exited \<in> set ws" "Asleep \<notin> set ws \<Longrightarrow> ws' = ws"
    "awake_count ws' \<le> awake_count ws + 1" "awake_count ws \<le> awake_count ws'"
    "Asleep \<in> set ws \<Longrightarrow> awake_count ws' = awake_count ws + 1" by auto
qed

subsection \<open>The ring of tasks\<close>

definition queue_of :: "'t nyxj_pool \<Rightarrow> 't option list" where
  "queue_of p = map (\<lambda>k. slots p ! ((qhead p + k) mod length (slots p))) [0 ..< qcount p]"

lemma length_queue [simp]: "length (queue_of p) = qcount p"
  by (simp add: queue_of_def)

lemma queue_cong: "slots p = slots p' \<Longrightarrow> qhead p = qhead p' \<Longrightarrow> qcount p = qcount p' \<Longrightarrow> queue_of p = queue_of p'"
  by (simp add: queue_of_def)

lemma ring_index_inj:
  assumes "i < j" "j < n" "h < n"
  shows "(h + i) mod n \<noteq> (h + j) mod (n::nat)"
proof
  assume "(h + i) mod n = (h + j) mod n"
  then have "n dvd (h + j) - (h + i)" by (metis mod_eq_dvd_iff_nat assms(1) add_le_cancel_left less_imp_le)
  then have "n dvd j - i" by simp
  then show False using assms by (auto dest: dvd_imp_le)
qed

lemma queue_push:
  assumes "qcount p < length (slots p)" "qhead p < length (slots p)"
  shows "queue_of (p\<lparr>slots := (slots p)[(qhead p + qcount p) mod length (slots p) := x], qcount := qcount p + 1\<rparr>) = queue_of p @ [x]"
    (is "queue_of ?q = _")
proof -
  have "slots ?q ! ((qhead p + k) mod length (slots p)) = slots p ! ((qhead p + k) mod length (slots p))" if "k < qcount p" for k
    using ring_index_inj [OF that assms] by (simp add: nth_list_update)
  moreover have "(qhead p + qcount p) mod length (slots p) < length (slots p)" by (rule mod_less_divisor) (use assms(2) in linarith)
  then have "slots ?q ! ((qhead p + qcount p) mod length (slots p)) = x" by simp
  ultimately show ?thesis by (simp add: queue_of_def)
qed

lemma queue_pop:
  assumes "0 < qcount p" "qhead p < length (slots p)"
  shows "queue_of p = slots p ! qhead p # queue_of (take_task p)"
proof -
  obtain n where n: "qcount p = Suc n" using assms(1) by (cases "qcount p") auto
  have "[0 ..< Suc n] = 0 # map Suc [0 ..< n]" by (simp add: map_Suc_upt upt_conv_Cons del: upt_Suc)
  then show ?thesis
    using assms(2) n by (simp add: queue_of_def take_task_def mod_simps o_def del: upt_Suc)
qed

subsection \<open>The invariant\<close>

text \<open>The order of the tasks, and that each is begun once.\<close>

definition tasks_ok :: "'t threads \<Rightarrow> bool" where
  "tasks_ok s \<longleftrightarrow>
     (let p = shared s
      in qhead p < length (slots p) \<and> qcount p \<le> length (slots p) \<and> map Some (admitted s) = begun s @ queue_of p \<and>
         mset (begun s) = mset (ended s) + mset (running_tasks (workers s)) \<and> completed p = word_of_nat (length (ended s)))"

text \<open>The threads: the counters, that whoever is needed is awake, that whoever waits has something to wait for, and how
  threads end.\<close>

definition threads_ok :: "'t threads \<Rightarrow> bool" where
  "threads_ok s \<longleftrightarrow>
     (let p = shared s; ws = workers s
      in active p = length (running_tasks ws) \<and> nthreads p = length ws \<and> 0 < active_limit p \<and> active_limit p \<le> nthreads p \<and>
         min (qcount p) (active_limit p - active p) \<le> awake_count ws \<and>
         (Waiting \<in> set (clients s) \<longrightarrow> pool_busy p) \<and>
         (shutdown p \<longrightarrow> Asleep \<notin> set ws) \<and> (Exited \<in> set ws \<longrightarrow> shutdown p \<and> qcount p = 0) \<and>
         (released s \<longrightarrow> (\<forall>w \<in> set ws. w = Exited)))"

definition pool_ok :: "'t threads \<Rightarrow> bool" where
  "pool_ok s \<longleftrightarrow> tasks_ok s \<and> threads_ok s"

text \<open>An upper bound for the number of steps the workers can make before a client calls the pool again.\<close>

definition work_left :: "'t threads \<Rightarrow> nat" where
  "work_left s = 3 * (2 * qcount (shared s) + active (shared s)) + awake_count (workers s)"

lemmas pool_update_simps = take_task_def worker_done_def begin_shutdown_def nyxj_pool_set_concurrency_def

lemma work_keeps_tasks:
  assumes "work_step s s'" "tasks_ok s"
  shows "tasks_ok s'"
  using assms
proof cases
  case (tops k w p)
  have "mset (running_tasks ((workers s)[k := w])) = mset (running_tasks (workers s)) + mset (running_tasks [w])"
    using running_update [OF tops(2), of w] tops(3) by simp
  moreover have "queue_of (shared s) = slots (shared s) ! qhead (shared s) # queue_of (take_task (shared s))"
    if "0 < qcount (shared s)" using queue_pop [OF that] assms(2) by (simp add: tasks_ok_def Let_def)
  moreover have "0 < qcount (shared s) \<Longrightarrow> (qhead (shared s) + 1) mod length (slots (shared s)) < length (slots (shared s))"
    by (rule mod_less_divisor) (use assms(2) in \<open>auto simp: tasks_ok_def Let_def\<close>)
  ultimately show ?thesis
    using tops(1,4,5) assms(2)
    by (auto simp: tasks_ok_def Let_def worker_top_def must_wait_def split: if_splits) (auto simp: take_task_def)
next
  case (finishes k t p signals idle ws)
  have "mset (running_tasks ((workers s)[k := Awake])) + {#t#} = mset (running_tasks (workers s))"
    using running_update [OF finishes(2), of Awake] finishes(3) by simp
  moreover have "mset (running_tasks ws) = mset (running_tasks ((workers s)[k := Awake]))"
    using finishes(5) wakes_one_keeps(2) by (auto split: if_splits)
  moreover have "queue_of p = queue_of (shared s)" using finishes(4) by (intro queue_cong) (auto simp: worker_done_def Let_def)
  ultimately show ?thesis
    using finishes(1,4) assms(2) by (auto simp: tasks_ok_def Let_def worker_done_def)
qed

lemma worker_top_cases:
  assumes "worker_top p = (w, p')" "w \<noteq> Awake"
  obtains (waits) "\<not> shutdown p" "qcount p = 0 \<or> active_limit p \<le> active p" "w = Asleep" "p' = p"
    | (returns) "shutdown p" "qcount p = 0" "w = Exited" "p' = p"
    | (takes) "0 < qcount p" "active p < active_limit p" "w = Running (slots p ! qhead p)" "p' = take_task p"
  using assms by (fastforce simp: worker_top_def must_wait_def split: if_splits)

lemma work_keeps_threads:
  assumes "work_step s s'" "threads_ok s"
  shows "threads_ok s'"
  using assms
proof cases
  case (tops k w p)
  have r: "length (running_tasks ((workers s)[k := w])) = length (running_tasks (workers s)) + length (running_tasks [w])"
    using running_length [OF tops(2), of w] tops(3) by simp
  have a: "awake_count ((workers s)[k := w]) + 1 = awake_count (workers s)"
    using awake_update [OF tops(2), of w] tops(3,5) by simp
  have e: "Asleep \<in> set ((workers s)[k := w]) \<longleftrightarrow> Asleep = w \<or> Asleep \<in> set (workers s)"
    "Exited \<in> set ((workers s)[k := w]) \<longleftrightarrow> Exited = w \<or> Exited \<in> set (workers s)"
    using set_update [OF tops(2)] tops(3) by auto
  have n: "\<not> released s" using assms(2) tops(2,3) nth_mem by (fastforce simp: threads_ok_def Let_def)
  from tops(4,5) show ?thesis
  proof (cases rule: worker_top_cases)
    case waits
    then show ?thesis using r a e n assms(2) by (auto simp: threads_ok_def Let_def tops(1))
  next
    case returns
    then show ?thesis using r a e n assms(2) by (simp add: threads_ok_def Let_def tops(1))
  next
    case takes
    then have "Exited \<notin> set (workers s)" using assms(2) by (auto simp: threads_ok_def Let_def)
    then show ?thesis using takes r a e n assms(2) by (auto simp: threads_ok_def Let_def tops(1) take_task_def pool_busy_def)
  qed
next
  case (finishes k t p signals idle ws)
  let ?w = "(workers s)[k := Awake]"
  have m: "mset (running_tasks ws) = mset (running_tasks ?w)" "awake_count ?w \<le> awake_count ws" "length ws = length ?w"
    "Exited \<in> set ws \<longleftrightarrow> Exited \<in> set ?w" "Asleep \<notin> set ?w \<Longrightarrow> Asleep \<notin> set ws"
    using finishes(5) wakes_one_keeps [of ?w ws] by (auto split: if_splits)
  have r: "length (running_tasks (workers s)) = length (running_tasks ws) + 1"
    using running_length [OF finishes(2), of Awake] finishes(3) arg_cong [OF m(1), of size] by simp
  have a: "awake_count ?w = awake_count (workers s) + 1"
    using awake_update [OF finishes(2), of Awake] finishes(3) by simp
  have e: "Asleep \<in> set ?w \<longleftrightarrow> Asleep \<in> set (workers s)" "Exited \<in> set ?w \<longleftrightarrow> Exited \<in> set (workers s)"
    using set_update [OF finishes(2), of _ Awake] finishes(3) by auto
  have n: "\<not> released s" using assms(2) finishes(2,3) nth_mem by (fastforce simp: threads_ok_def Let_def)
  have p: "active p = active (shared s) - 1" "nthreads p = nthreads (shared s)" "active_limit p = active_limit (shared s)"
    "qcount p = qcount (shared s)" "shutdown p = shutdown (shared s)" "idle \<longleftrightarrow> \<not> pool_busy p"
    using finishes(4) by (auto simp: worker_done_def Let_def pool_busy_def)
  have c: "Waiting \<in> set (clients s') \<longrightarrow> pool_busy p"
    using p(6) finishes(1) by auto
  have old: "active (shared s) = length (running_tasks (workers s))" "nthreads (shared s) = length (workers s)"
    "0 < active_limit (shared s)" "active_limit (shared s) \<le> nthreads (shared s)"
    "min (qcount (shared s)) (active_limit (shared s) - active (shared s)) \<le> awake_count (workers s)"
    "shutdown (shared s) \<longrightarrow> Asleep \<notin> set (workers s)" "Exited \<in> set (workers s) \<longrightarrow> shutdown (shared s) \<and> qcount (shared s) = 0"
    using assms(2) unfolding threads_ok_def Let_def by - (elim conjE, assumption)+
  have "active p = length (running_tasks ws)" using old(1) r p(1) by simp
  moreover have "min (qcount p) (active_limit p - active p) \<le> awake_count ws" using old(5) a m(2) p(1,3,4) by linarith
  moreover have "shutdown p \<longrightarrow> Asleep \<notin> set ws" using old(6) e(1) m(5) p(5) by blast
  moreover have "Exited \<in> set ws \<longrightarrow> shutdown p \<and> qcount p = 0" using old(7) e(2) m(4) p(4,5) by simp
  moreover have "nthreads p = length ws" "0 < active_limit p" "active_limit p \<le> nthreads p" using old(2-4) m(3) p(2,3) by simp_all
  moreover have "shared s' = p" "workers s' = ws" "\<not> released s'" using finishes(1) n by simp_all
  ultimately show ?thesis using c by (simp add: threads_ok_def)
qed

text \<open>Steps of the clients.\<close>

lemma submit_keeps:
  assumes "nyxj_pool_submit (shared s) t = (ok, p)" "if ok then wakes_one (workers s) ws else ws = workers s" "pool_ok s"
  shows "pool_ok (s\<lparr>shared := p, workers := ws, admitted := admitted s @ (if ok then [the t] else [])\<rparr>)" (is "pool_ok ?s")
proof (cases ok)
  case False
  then have "queue_of p = queue_of (shared s)" "ws = workers s"
    using assms(1,2) by (auto simp: nyxj_pool_submit_def split: option.splits if_splits intro: queue_cong)
  then show ?thesis
    using assms(1,3) False
    by (auto simp: pool_ok_def tasks_ok_def threads_ok_def pool_busy_def nyxj_pool_submit_def Let_def split: option.splits if_splits)
next
  case True
  obtain x where x: "t = Some x" "\<not> shutdown (shared s)" "qcount (shared s) < length (slots (shared s))"
    "p = (shared s)\<lparr>slots := (slots (shared s))[(qhead (shared s) + qcount (shared s)) mod length (slots (shared s)) := Some x],
       qcount := qcount (shared s) + 1\<rparr>"
    using assms(1,3) True
    by (auto simp: nyxj_pool_submit_def pool_ok_def tasks_ok_def Let_def split: option.splits if_splits)
  have w: "wakes_one (workers s) ws" using assms(2) True by simp
  note k = wakes_one_keeps [OF w]
  have r: "length (running_tasks ws) = length (running_tasks (workers s))" using arg_cong [OF k(2), of size] by simp
  have q: "queue_of p = queue_of (shared s) @ [Some x]"
    using queue_push [OF x(3), of "Some x"] assms(3) by (simp add: x(4) pool_ok_def tasks_ok_def Let_def)
  have "tasks_ok ?s" using assms(3) q k(2) True x(1,3) by (auto simp: pool_ok_def tasks_ok_def Let_def x(4))
  have t: "threads_ok s" using assms(3) by (simp add: pool_ok_def)
  then have e: "Exited \<notin> set (workers s)" "Exited \<notin> set ws" using x(2) k(3) by (auto simp: threads_ok_def Let_def)
  have "min (qcount (shared s) + 1) (active_limit (shared s) - active (shared s)) \<le> awake_count ws"
  proof (cases "Asleep \<in> set (workers s)")
    case True
    then show ?thesis using k(7) t by (auto simp: threads_ok_def Let_def)
  next
    case False
    then show ?thesis using all_awake [OF False e(1)] k(4) t by (auto simp: threads_ok_def Let_def)
  qed
  moreover have "\<not> released s"
    using t e(1) by (cases "workers s") (auto simp: threads_ok_def Let_def)
  ultimately have "threads_ok ?s" using t e x(2) r k(1) by (auto simp: threads_ok_def Let_def pool_busy_def x(4))
  then show ?thesis using \<open>tasks_ok ?s\<close> by (simp add: pool_ok_def)
qed

text \<open>A broadcast with a new limit.\<close>

lemma broadcast_keeps:
  assumes "pool_ok s" "shutdown (shared s) \<longrightarrow> off" "0 < n" "n \<le> nthreads (shared s)"
  shows "pool_ok (s\<lparr>shared := (shared s)\<lparr>shutdown := off, active_limit := n\<rparr>, workers := wake_all (workers s)\<rparr>)"
proof -
  have t: "threads_ok s" using assms(1) by (simp add: pool_ok_def)
  have "queue_of ((shared s)\<lparr>shutdown := off, active_limit := n\<rparr>) = queue_of (shared s)" by (intro queue_cong) simp_all
  moreover have "min (qcount (shared s)) (n - active (shared s)) \<le> awake_count (wake_all (workers s))"
  proof (cases "Exited \<in> set (workers s)")
    case False
    then show ?thesis using all_awake [of "wake_all (workers s)"] t assms(4) by (auto simp: threads_ok_def Let_def)
  qed (use t in \<open>auto simp: threads_ok_def Let_def\<close>)
  moreover have "\<forall>w \<in> set (workers s). w = Exited \<Longrightarrow> \<forall>w \<in> set (wake_all (workers s)). w = Exited"
    by (auto simp: wake_all_def)
  ultimately show ?thesis
    using assms by (auto simp: pool_ok_def tasks_ok_def threads_ok_def Let_def pool_busy_def)
qed

lemma waking_keeps:
  assumes "pool_ok s" "k < length (workers s)" "workers s ! k = Asleep"
  shows "pool_ok (s\<lparr>workers := (workers s)[k := Awake]\<rparr>)"
proof -
  let ?w = "(workers s)[k := Awake]"
  have w: "wakes_one (workers s) ?w" by (rule somebody_wakes [OF assms(2,3)])
  have "Asleep \<in> set (workers s)" using assms(2,3) nth_mem by fastforce
  then have "\<not> shutdown (shared s)" "\<not> released s" using assms(1) by (auto simp: pool_ok_def threads_ok_def Let_def)
  moreover have "length (running_tasks ?w) = length (running_tasks (workers s))"
    using arg_cong [OF wakes_one_keeps(2) [OF w], of size] by simp
  ultimately show ?thesis
    using assms(1) wakes_one_keeps [OF w] by (auto simp: pool_ok_def tasks_ok_def threads_ok_def Let_def)
qed

lemma client_keeps:
  assumes "pool_ok s" "set cs \<subseteq> insert c (set (clients s))" "c = Waiting \<longrightarrow> pool_busy (shared s)"
  shows "pool_ok (s\<lparr>clients := cs\<rparr>)"
  using assms by (auto simp: pool_ok_def tasks_ok_def threads_ok_def Let_def)

lemma pool_keeps:
  assumes "pool_step s s'" "pool_ok s"
  shows "pool_ok s'"
  using assms
proof cases
  case works
  then show ?thesis using assms(2) work_keeps_tasks work_keeps_threads by (auto simp: pool_ok_def)
next
  case (polls k p)
  then have "p = shared s" by (auto simp: worker_top_def split: if_splits)
  then show ?thesis using polls assms(2) by simp
next
  case (wakes k)
  then show ?thesis using waking_keeps [OF assms(2)] by simp
next
  case (submits t ok p ws)
  then show ?thesis using submit_keeps [OF _ _ assms(2)] by simp
next
  case (limits n)
  let ?l = "if n \<le> 0 \<or> n > int (nthreads (shared s)) then nthreads (shared s) else nat n"
  have "pool_ok (s\<lparr>shared := (shared s)\<lparr>shutdown := shutdown (shared s), active_limit := ?l\<rparr>, workers := wake_all (workers s)\<rparr>)"
    using assms(2) by (intro broadcast_keeps) (auto simp: pool_ok_def threads_ok_def Let_def)
  then show ?thesis using limits(1) by (simp add: nyxj_pool_set_concurrency_def)
next
  case destroys
  have "pool_ok (s\<lparr>shared := (shared s)\<lparr>shutdown := True, active_limit := nthreads (shared s)\<rparr>, workers := wake_all (workers s)\<rparr>)"
    using assms(2) by (intro broadcast_keeps) (auto simp: pool_ok_def threads_ok_def Let_def)
  then show ?thesis using destroys(1) by (simp add: begin_shutdown_def)
next
  case (awaits k)
  then show ?thesis using client_keeps [OF assms(2) set_update_subset_insert] by simp
next
  case (tests k)
  then show ?thesis using client_keeps [OF assms(2) set_update_subset_insert] by simp
next
  case (stirs k)
  then show ?thesis using client_keeps [OF assms(2) set_update_subset_insert] by simp
next
  case joins
  then show ?thesis using assms(2) by (auto simp: pool_ok_def tasks_ok_def threads_ok_def Let_def)
qed

lemma work_uses_up:
  assumes "work_step s s'" "pool_ok s"
  shows "work_left s' < work_left s"
  using assms(1)
proof cases
  case (tops k w p)
  have a: "awake_count ((workers s)[k := w]) + 1 = awake_count (workers s)"
    using awake_update [OF tops(2), of w] tops(3,5) by simp
  from tops(4,5) show ?thesis by (cases rule: worker_top_cases) (use a in \<open>simp_all add: work_left_def take_task_def tops(1)\<close>)
next
  case (finishes k t p signals idle ws)
  have "0 < length (running_tasks (workers s))" using running_length [OF finishes(2), of Awake] finishes(3) by (simp del: length_greater_0_conv)
  then have "0 < active (shared s)" using assms(2) by (auto simp: pool_ok_def threads_ok_def Let_def)
  moreover have "awake_count ws \<le> awake_count (workers s) + 2"
    using finishes(5) wakes_one_keeps(5) [of "(workers s)[k := Awake]" ws] awake_update [OF finishes(2), of Awake] finishes(3)
    by (auto split: if_splits)
  ultimately show ?thesis using finishes(1,4) by (auto simp: work_left_def worker_done_def Let_def)
qed

interpretation pool: draining pool_ok pool_step work_step work_left
  by unfold_locales (auto intro: pool_keeps works work_uses_up)

subsection \<open>Consequences\<close>

lemma pool_start_ok:
  assumes "nyxj_pool_create h pool_bytes cpus started n m = (Some p, h')"
  shows "pool_ok (pool_start p c)"
proof -
  have "running_tasks (replicate k Awake) = []" "awake_count (replicate k Awake) = k" for k
    by (induction k) (auto simp: running_tasks_def awake_count_def)
  then show ?thesis
    using assms
    by (auto simp: nyxj_pool_create_def Let_def pool_start_def pool_ok_def tasks_ok_def threads_ok_def queue_of_def
        split: if_splits prod.splits)
qed

lemma pool_reachable_ok:
  assumes "nyxj_pool_create h pool_bytes cpus started n m = (Some p, h')" "pool_step\<^sup>*\<^sup>* (pool_start p c) s"
  shows "pool_ok s"
  by (rule pool.steps_inv [OF assms(2) pool_start_ok [OF assms(1)]])

text \<open>No worker can step: the pool is idle.\<close>

lemma stuck_is_idle:
  assumes "pool_ok s" "\<nexists>s'. work_step s s'"
  shows "qcount (shared s) = 0" "active (shared s) = 0" "Waiting \<notin> set (clients s)"
    "mset (map Some (admitted s)) = mset (ended s)" "shutdown (shared s) \<Longrightarrow> \<forall>w \<in> set (workers s). w = Exited"
proof -
  have t: "active (shared s) = length (running_tasks (workers s))" "0 < active_limit (shared s)"
    "min (qcount (shared s)) (active_limit (shared s) - active (shared s)) \<le> awake_count (workers s)"
    "Waiting \<in> set (clients s) \<longrightarrow> pool_busy (shared s)" "shutdown (shared s) \<longrightarrow> Asleep \<notin> set (workers s)"
    using assms(1) unfolding pool_ok_def threads_ok_def Let_def by - (elim conjE, assumption)+
  have r: "Running t \<notin> set (workers s)" for t
  proof
    assume "Running t \<in> set (workers s)"
    then obtain k where k: "k < length (workers s)" "workers s ! k = Running t" by (auto simp: in_set_conv_nth)
    obtain p signals idle where d: "worker_done (shared s) = (p, signals, idle)" by (cases "worker_done (shared s)") auto
    have "\<exists>ws. wakes_one ((workers s)[k := Awake]) ws"
      by (metis in_set_conv_nth nobody_sleeps somebody_wakes)
    then have "\<exists>ws. if signals then wakes_one ((workers s)[k := Awake]) ws else ws = (workers s)[k := Awake]" by (cases signals) simp_all
    then show False using finishes [OF k d] assms(2) by blast
  qed
  then have "running_tasks (workers s) = []"
    by (auto simp: running_tasks_def split: worker.splits)
  then have a: "active (shared s) = 0" using t(1) by simp
  have w: "Awake \<notin> set (workers s)"
  proof
    assume "Awake \<in> set (workers s)"
    then obtain k where k: "k < length (workers s)" "workers s ! k = Awake" by (auto simp: in_set_conv_nth)
    obtain w p where d: "worker_top (shared s) = (w, p)" by fastforce
    have "w \<noteq> Awake" using d a t(2) by (auto simp: worker_top_def split: if_splits)
    then show False using tops [OF k d] assms(2) by blast
  qed
  then have "awake_count (workers s) = 0" by (auto simp: awake_count_def filter_empty_conv)
  then show q: "qcount (shared s) = 0" using t(2,3) a by auto
  show "active (shared s) = 0" by (rule a)
  show "Waiting \<notin> set (clients s)" using t(4) a q by (auto simp: pool_busy_def)
  show "mset (map Some (admitted s)) = mset (ended s)"
    using assms(1) q \<open>running_tasks (workers s) = []\<close> by (simp add: pool_ok_def tasks_ok_def Let_def queue_of_def)
  show "\<forall>w \<in> set (workers s). w = Exited" if "shutdown (shared s)"
    using that t(5) r w by (auto) (metis worker.exhaust)
qed

lemma threads_le: "awake_count ws + length (running_tasks ws) \<le> length ws"
  by (induction ws) (auto simp: awake_count_def running_tasks_def split: worker.splits)

lemma work_bounded:
  assumes "pool_ok s" "(work_step ^^ n) s s'"
  shows "pool_ok s'" "n \<le> 6 * qcount (shared s) + 3 * nthreads (shared s)"
proof -
  have "pool_ok s' \<and> n + work_left s' \<le> work_left s" by (rule pool.works_bounded [OF assms(2,1)])
  moreover have "work_left s \<le> 6 * qcount (shared s) + 3 * nthreads (shared s)"
    using threads_le [of "workers s"] assms(1) by (auto simp: pool_ok_def threads_ok_def Let_def work_left_def)
  ultimately show "pool_ok s'" "n \<le> 6 * qcount (shared s) + 3 * nthreads (shared s)" by auto
qed

text \<open>What has been begun is an initial part of what was admitted.\<close>

lemma tasks_in_order:
  assumes "pool_ok s"
  shows "begun s = map Some (take (length (begun s)) (admitted s))" "mset (ended s) \<subseteq># mset (begun s)"
    "length (admitted s) = length (begun s) + qcount (shared s)"
proof -
  have m: "map Some (admitted s) = begun s @ queue_of (shared s)" using assms by (simp add: pool_ok_def tasks_ok_def Let_def)
  show "begun s = map Some (take (length (begun s)) (admitted s))" by (simp add: take_map [symmetric] m)
  show "length (admitted s) = length (begun s) + qcount (shared s)" using arg_cong [OF m, of length] by simp
  show "mset (ended s) \<subseteq># mset (begun s)" using assms by (simp add: pool_ok_def tasks_ok_def Let_def)
qed

text \<open>A released pool has run every task it admitted.\<close>

lemma released_has_run:
  assumes "pool_ok s" "released s"
  shows "mset (map Some (admitted s)) = mset (ended s)"
proof -
  have "\<forall>w \<in> set (workers s). w = Exited" using assms by (simp add: pool_ok_def threads_ok_def Let_def)
  then have "\<nexists>s'. work_step s s'" by (auto elim!: work_step.cases dest!: nth_mem)
  then show ?thesis by (rule stuck_is_idle(4) [OF assms(1)])
qed

end
