(* ===== verification/Spec2Isabelle.thy ===== *)
theory Spec2Isabelle
  imports Parser_Complete Value_Facts Buf_Facts Arena Serializer_Facts Patch_Facts Msgpack_Facts Reliability_Facts Gate_Facts Repair View Kv_Refine Schema_Facts Ipc_Facts Pool_Facts
begin

text \<open>
  A verification library for the JSON toolkit of this repository: its C core (\<^verbatim>\<open>src/core\<close>, \<^verbatim>\<open>src/common\<close>) and
  the modules built on it (\<^verbatim>\<open>src/modules\<close>, \<^verbatim>\<open>src/runtime\<close>).

  \<^bold>\<open>The program.\<close> \<^verbatim>\<open>parser.c\<close> turns a buffer into a tree of \<^verbatim>\<open>nyxj_value\<close>s (\<^verbatim>\<open>value.c\<close>) with the scanning
  primitives of \<^verbatim>\<open>scan.h\<close>; its nodes come from the heap or from an arena (\<^verbatim>\<open>arena.c\<close>). \<^verbatim>\<open>serializer.c\<close> writes a
  tree through the growing buffer of \<^verbatim>\<open>buf.c\<close>. The modules use these: \<^verbatim>\<open>patch.c\<close> edits trees, \<^verbatim>\<open>msgpack.c\<close>
  converts them, \<^verbatim>\<open>schema.c\<close> validates them, \<^verbatim>\<open>reliability.c\<close> compares and votes on them; \<^verbatim>\<open>sax.c\<close> and \<^verbatim>\<open>view.c\<close> read JSON without
  building a tree, \<^verbatim>\<open>gate.c\<close> filters payloads with the former, \<^verbatim>\<open>repair.c\<close> rewrites almost-JSON.
  The key-value store of \<^verbatim>\<open>kv.c\<close> keeps trees under keys and saves them as JSON, \<^verbatim>\<open>ipc.c\<close> sends them to other processes.

  \<^bold>\<open>The theories.\<close> A theory that models a file holds the records, datatypes and functions of that file under the names
  of the source; a theory \<open>X_Facts\<close> holds what is proved about \<open>X\<close>.
  \<^item> \<open>Prelude\<close>: bytes, C strings, pointers into a buffer as suffixes of it, \<open>printf\<close>, the allocator;
    \<open>Doubles\<close>, \<open>Double_Text\<close>: IEEE doubles as 64-bit patterns, \<open>strtod\<close> and \<open>printf\<close> on them; \<open>Errors\<close>: the
    error codes and messages (\<^verbatim>\<open>error.c\<close>).
  \<^item> \<open>Scan\<close>, \<open>Tokens\<close>: \<^verbatim>\<open>scan.h\<close>. The SSE2 and NEON builds are modelled with their vector instructions and
    interpret the locale \<open>block_scanner\<close>; UTF-8, numbers and escapes have their grammar as specification.
  \<^item> \<open>Value\<close>, \<open>Value_Facts\<close>: the tree and its builder; \<open>abs_value\<close> maps it to the abstract tree \<open>json\<close>. The object
    operations interpret the locale \<open>keyed_store\<close>.
  \<^item> \<open>Arena\<close>: the arena on 64-bit sizes, an interpretation of \<open>region_allocator\<close>. \<open>Buf\<close>, \<open>Buf_Facts\<close>: the byte
    buffer, an interpretation of \<open>byte_sink\<close>.
  \<^item> \<open>Parser\<close>, \<open>Parser_Facts\<close>, \<open>Parser_Total\<close>: the recursive descent parser, its limits, its errors and its
    termination. \<open>Grammar\<close> is RFC 8259 with the tree each text denotes; \<open>String_Spec\<close>, \<open>Parser_Spec\<close> (soundness)
    and \<open>Parser_Complete\<close> (completeness) prove that the parser decides it.
  \<^item> \<open>Serializer\<close>, \<open>Text_Facts\<close>, \<open>Serializer_Facts\<close>: what the serializer writes is a text of the grammar that
    denotes the tree.
  \<^item> \<open>Patch\<close>, \<open>Msgpack\<close>, \<open>Reliability\<close> with their facts; \<open>Sax\<close>, \<open>Gate\<close>, \<open>View\<close>, \<open>Repair\<close>: the modules of the
    same names. \<open>Slots\<close> describes the prefixes of a document; with it \<open>Sax_Sound\<close> and \<open>Sax_Complete\<close> prove that the
    push parser decides the grammar, and \<open>Gate_Facts\<close> what the gate lets through.
  \<^item> \<open>Kv\<close>, \<open>Kv_Store\<close>: the key-value store and its snapshots (\<^verbatim>\<open>kv.c\<close>), over the arithmetic of doubles in
    \<open>Double_Ops\<close>. \<open>Kv_Facts\<close> is the invariant of the table and what each operation does to the map it stands for,
    \<open>Kv_Refine\<close> the refinement of its specification through the locale \<open>simulation\<close> (of \<open>Simulation\<close>),
    \<open>Kv_Store_Facts\<close> the snapshots.
  \<^item> \<open>Schema\<close>: the schema validator (\<^verbatim>\<open>schema.c\<close>); \<open>Schema_Facts\<close> gives each keyword its meaning (\<open>conforms\<close>), which the
    verdict is, with a report or without one.
  \<^item> \<open>Ipc\<close>: frames on a stream and the ring in shared memory (\<^verbatim>\<open>ipc.c\<close>), the latter as interleaved steps of a producer
    and a consumer; \<open>Ipc_Facts\<close> has its invariant.
  \<^item> \<open>Pool\<close>: the thread pool (\<^verbatim>\<open>pool.c\<close>) as steps between locked sections, with signals, broadcasts and spurious
    wake-ups; \<open>Pool_Facts\<close> has its invariant (with the fact that no signal is lost) and interprets \<open>draining\<close>, the
    contract of a step relation whose working part uses up what is left to do.

  \<^bold>\<open>Conventions.\<close> A pointer into a buffer is the suffix of the buffer it points at. Every request to the allocator
  may be refused: a \<open>heap\<close> counts the requests and has an oracle that answers them, and \<open>heap_total\<close> says that it
  never refuses. A function that changes what a pointer points at returns the changed object; a child of a tree is a
  part of it, so a mutation through a child pointer is an update at its place. A failing function returns \<open>None\<close>, a
  sum or a boolean beside the error record. Numbers that the code keeps in range are naturals or integers; where it
  relies on the width (arena sizes, checksums, vector lanes, token offsets) they are words or wrap explicitly.

  \<^bold>\<open>Fuel.\<close> The mutual recursion of the parser and the tokenizer is bounded by \<open>parse_fuel\<close>, three calls for each
  byte; \<open>nyxj_parse_ex_outcome\<close> shows that the parser never runs out of it. The view's materialisation takes twice the
  number of tokens. The loop that sizes a new store is a partial function, whose calls that do not return are \<open>None\<close>.
  All other loops are total functions.

  \<^bold>\<open>Not modelled.\<close> Files, sockets, threads, clocks and dynamic loading (logging, the thread wrappers,
  setting up sockets and mappings, the HTTP application on the vendored event loop, the executables), the mapping of raw C
  structs, and the release of memory, which has no effect on the values of the model. For the snapshots of the store the
  file system is a map from paths to bytes, and what its calls report is an argument. The query
  engine, the metrics and the HTTP types are not modelled.
\<close>

text \<open>An allocator for the witnesses that refuses large requests.\<close>

definition small_heap :: heap where
  "small_heap = \<lparr>requests = 0, grants = (\<lambda>k n. n < 2 ^ 20)\<rparr>"

section \<open>The parser\<close>

text \<open>C1: With memory, without relaxations and limits, the parser accepts exactly the JSON texts of RFC 8259
  (after a byte order mark) whose nesting stays within the depth limit and, if asked for, whose objects
  repeat no key, and the tree it returns is the one the text denotes.\<close>

theorem nyxj_parse_ex_grammar:
  assumes "heap_total h" "plain_options opts"
  shows "(\<exists>v. root (nyxj_parse_ex b h (Some json) (Some opts)) = Some v \<and> abs_value v = t) \<longleftrightarrow>
    json_document (depth_limit opts) (reject_duplicate_keys (opt_flags opts)) (after_bom json) t"
  by (rule parse_ex_grammar [OF assms])

text \<open>The hypotheses of C1 hold for the default options: a nested text is accepted.\<close>

theorem nyxj_parse_ex_grammar_witness:
  "json_document 512 False ''[null, {}]'' (JArray [JNull, JObject []])"
proof -
  have "map_option abs_value (root (nyxj_parse_ex Scalar roomy_heap (Some ''[null, {}]'') (Some nyxj_parse_options_default))) =
      Some (JArray [JNull, JObject []])" by code_simp
  then have "\<exists>v. root (nyxj_parse_ex Scalar roomy_heap (Some ''[null, {}]'') (Some nyxj_parse_options_default)) = Some v \<and>
      abs_value v = JArray [JNull, JObject []]" by auto
  moreover have "plain_options nyxj_parse_options_default" "depth_limit nyxj_parse_options_default = 512"
    "reject_duplicate_keys (opt_flags nyxj_parse_options_default) = False"
    by (simp_all add: plain_options_def nyxj_parse_options_default_def depth_limit_def default_max_depth_def)
  ultimately show ?thesis
    using nyxj_parse_ex_grammar [of roomy_heap nyxj_parse_options_default Scalar "''[null, {}]''" "JArray [JNull, JObject []]"]
    by (simp add: after_bom_def)
qed

text \<open>C2: A call always returns, whatever the input, the allocator and the options: with a tree within the
  limits on depth, strings and elements (and without repeated keys, if asked for), or without a tree and
  with an error that names a byte of the input with its line and column.\<close>

theorem nyxj_parse_ex_outcome:
  "let r = nyxj_parse_ex b h (Some json) (Some opts)
   in case root r of
        Some v \<Rightarrow> is_valid r \<and> within (depth_limit opts) (parse_context b h json opts) v
      | None \<Rightarrow> \<not> is_valid r \<and>
          (if opt_max_input_size opts \<noteq> 0 \<and> opt_max_input_size opts < length json
           then code (error r) = NYXJ_ERR_SIZE_LIMIT else located json (error r))"
proof (cases "opt_max_input_size opts \<noteq> 0 \<and> opt_max_input_size opts < length json")
  case True
  then show ?thesis by (simp add: nyxj_parse_ex_def failed_result_def nyxj_error_set_def Let_def)
next
  case False
  then have z: "opt_max_input_size opts = 0 \<or> length json \<le> opt_max_input_size opts" by auto
  have "max_depth (parse_context b h json opts) = depth_limit opts"
    by (simp add: parse_context_def depth_limit_def)
  then show ?thesis unfolding Let_def if_not_P [OF False]
    using nyxj_parse_ex_result [OF z, of b h] by auto
qed

text \<open>With memory no parse error is an out-of-memory error.\<close>

lemma nyxj_parse_ex_memory:
  assumes "heap_total h"
  shows "code (error (nyxj_parse_ex b h json opts)) \<noteq> NYXJ_ERR_OUT_OF_MEMORY"
proof -
  have ok: "parse_root (parse_context b h inp ops) = Done v c' \<Longrightarrow> code (err c') \<noteq> NYXJ_ERR_OUT_OF_MEMORY"
    and null: "parse_root (parse_context b h inp ops) = Null c' \<Longrightarrow> code (err c') \<noteq> NYXJ_ERR_OUT_OF_MEMORY" for inp ops v c'
    using runs_parse_root [of "parse_context b h inp ops"] parse_context_ok [of b h inp ops] assms
    by (auto simp: runs_def frame_def parse_context_def no_error_def)
  show ?thesis
    by (auto simp: nyxj_parse_ex_def Let_def failed_result_def nyxj_error_set_def no_error_def
        dest: ok null split: option.split presult.split)
qed

section \<open>The serializer\<close>



text \<open>With sorted keys the members of every object are written in the byte order of their keys, each once;
  the order is the only change.\<close>

lemma sorted_members:
  "sort_keys s \<longrightarrow> sorted (map fst (ordered s ps)) \<and> mset (ordered s ps) = mset ps"
  by (simp add: ordered_def sort_pairs_def)



section \<open>Scanning\<close>

text \<open>C5: The SSE2, the NEON and the scalar build scan alike: whitespace is skipped to the first other byte,
  and a string to the first quote, backslash or control character.\<close>

theorem scanners_agree:
  "nyxj_scan_ws b p = scan_ws_scalar p \<and> nyxj_scan_string_special b p = scan_special_scalar p \<and>
   nyxj_scan_ws b p = dropWhile nyxj_is_ws p \<and> nyxj_scan_string_special b p = dropWhile (\<lambda>c. \<not> is_special c) p"
  by (simp add: nyxj_scan_ws_eq nyxj_scan_string_special_eq scan_ws_scalar_dropWhile scan_special_scalar_dropWhile)

text \<open>C6: UTF-8 validation accepts exactly the encodings of sequences of Unicode scalar values.\<close>

theorem nyxj_utf8_valid_iff: "nyxj_utf8_invalid_at s = length s \<longleftrightarrow> valid_utf8 s"
  by (rule nyxj_utf8_invalid_at_valid)

text \<open>The position it reports is the first bad one: what precedes is valid, and no scalar value's encoding
  starts there.\<close>

lemma nyxj_utf8_first_invalid:
  "nyxj_utf8_invalid_at s \<le> length s \<and> valid_utf8 (take (nyxj_utf8_invalid_at s) s) \<and>
   (nyxj_utf8_invalid_at s < length s \<longrightarrow> utf8_stuck (drop (nyxj_utf8_invalid_at s) s))"
  by (simp add: nyxj_utf8_invalid_at_spec)

text \<open>C7: The number scanner consumes a whole token exactly when it is a number of the JSON grammar.\<close>

theorem nyxj_scan_number_iff: "nyxj_scan_number tok = Some [] \<longleftrightarrow> json_number tok"
  by (rule nyxj_scan_number_all)

text \<open>C8: The integer fast path of the number conversion agrees with \<open>strtod\<close> on every number token.\<close>

theorem nyxj_number_value_exact:
  assumes "json_number tok" "heap_total h"
  shows "fst (nyxj_number_value h tok) = fst (strtod tok)"
  using nyxj_number_value_strtod [OF assms(1)] malloc_total [OF assms(2)] by blast

theorem nyxj_number_value_exact_witness:
  "fst (nyxj_number_value roomy_heap ''-12'') = fst (strtod ''-12'')"
proof -
  have "nyxj_scan_number ''-12'' = Some []" by code_simp
  then have "json_number ''-12''" by (simp add: nyxj_scan_number_all)
  then show ?thesis by (rule nyxj_number_value_exact) simp
qed


text \<open>C10: The decoded bytes are shorter than the escape, so the buffer of \<open>raw + 1\<close> bytes holds them, and they
  are valid UTF-8.\<close>

theorem nyxj_decode_escape_bounds:
  assumes "nyxj_decode_escape (CHR 0x5C # p) = Inr (used, out)"
  shows "used \<le> Suc (length p) \<and> used \<le> 12 \<and> length out < used \<and> valid_utf8 out"
proof -
  have e: "used \<le> Suc (length p)" "json_escape (take used (CHR 0x5C # p)) out"
    using assms nyxj_decode_escape_iff [of "CHR 0x5C # p" used out] by simp_all
  then show ?thesis using json_escape_text [OF e(2)] json_escape_valid [OF e(2)] by simp
qed

theorem nyxj_decode_escape_bounds_witness:
  "nyxj_decode_escape (CHR 0x5C # ''u00e9'') = Inr (6, [CHR 0xC3, CHR 0xA9]) \<and> valid_utf8 [CHR 0xC3, CHR 0xA9]"
proof -
  have e: "nyxj_decode_escape (CHR 0x5C # ''u00e9'') = Inr (6, [CHR 0xC3, CHR 0xA9])" by code_simp
  then show ?thesis using nyxj_decode_escape_bounds [OF e] by simp
qed

text \<open>An error is located at its byte offset, the number of newlines before it plus one, and the number of
  bytes since the last newline plus one.\<close>

lemma nyxj_locate_spec:
  "offset (nyxj_locate (before @ after) after e) = length before \<and>
   line (nyxj_locate (before @ after) after e) = Suc (count_list before (CHR 0x0A)) \<and>
   column (nyxj_locate (before @ after) after e) = Suc (length (takeWhile (\<lambda>c. c \<noteq> CHR 0x0A) (rev before)))"
  using nyxj_locate_position [of "before @ after" before after e] by simp

section \<open>Values\<close>

text \<open>C11: A successful \<open>nyxj_object_set\<close> binds the key and leaves every other key as it was.\<close>

theorem nyxj_object_set_lookup:
  assumes "nyxj_object_set h obj key (Some v) = (True, obj', h')" "no_nul key"
  shows "nyxj_get_member (Some obj') k = (if k = key then Some v else nyxj_get_member (Some obj) k)"
  using nyxj_object_set_get [OF assms] .

theorem nyxj_object_set_lookup_witness:
  "nyxj_get_member (Some (VObject False [(''a'', VNull False), (''b'', VBool False True)])) ''b'' = Some (VBool False True)"
proof -
  have s: "nyxj_object_set roomy_heap (VObject False [(''a'', VNull False)]) ''b'' (Some (VBool False True)) =
      (True, VObject False [(''a'', VNull False), (''b'', VBool False True)], roomy_heap\<lparr>requests := 2\<rparr>)"
    by (simp add: roomy_heap_def malloc_def nyxj_strdup_def nyxj_strndup_def cstr_def NUL_def)
  have "no_nul ''b''" by (simp add: no_nul_def NUL_def)
  then show ?thesis using nyxj_object_set_lookup [OF s] by simp
qed

text \<open>C12: A failed \<open>nyxj_object_set\<close> or \<open>nyxj_array_insert\<close> leaves the container as it was.\<close>

theorem setters_fail_unchanged:
  "(nyxj_object_set h obj key v = (False, obj', h') \<longrightarrow> obj' = obj) \<and>
   (nyxj_array_insert h obj i v = (False, obj', h') \<longrightarrow> obj' = obj)"
  using nyxj_object_set_fail nyxj_array_insert_fail by blast

theorem setters_fail_unchanged_witness:
  "fst (nyxj_object_set roomy_heap (VNull False) ''k'' (Some (VNull False))) = False \<and>
   fst (snd (nyxj_object_set roomy_heap (VNull False) ''k'' (Some (VNull False)))) = VNull False"
  using setters_fail_unchanged [of roomy_heap "VNull False" "''k''" "Some (VNull False)" "VNull False" roomy_heap 0] by simp

text \<open>C13: \<open>nyxj_object_detach\<close> gives the member out and removes exactly its key; keys stay unique.\<close>

theorem nyxj_object_detach_lookup:
  assumes "nyxj_object_detach obj key = (Some v, obj')" "comparable obj"
  shows "nyxj_get_member (Some obj) key = Some v \<and> comparable obj' \<and>
    nyxj_get_member (Some obj') k = (if k = key then None else nyxj_get_member (Some obj) k)"
  using nyxj_object_detach_get [OF assms] by simp

theorem nyxj_object_detach_lookup_witness:
  "nyxj_get_member (Some (VObject False [(''b'', VNull False)])) ''a'' = None"
proof -
  have "nyxj_object_detach (VObject False [(''a'', VBool False True), (''b'', VNull False)]) ''a'' =
      (Some (VBool False True), VObject False [(''b'', VNull False)])" by simp
  from nyxj_object_detach_lookup [OF this, of "''a''"] show ?thesis by simp
qed

text \<open>An inserted item is found at its index, and detaching it gives it back with the array as it was.\<close>

lemma nyxj_array_insert_roundtrip:
  assumes "nyxj_array_insert h arr i (Some v) = (True, arr', h')"
  shows "nyxj_array_get (Some arr') i = Some v \<and> nyxj_size (Some arr') = nyxj_size (Some arr) + 1 \<and>
    (\<exists>arr''. nyxj_array_detach arr' i = (Some v, arr'') \<and> abs_value arr'' = abs_value arr)"
  using nyxj_array_insert_detach [OF assms] by blast

text \<open>C14: With memory a deep copy exists; it is the same tree, entirely on the heap, and equal to the original
  where the comparison is meaningful (no NaN, no repeated key).\<close>

theorem nyxj_clone_same:
  assumes "heap_total h" "c_strings v" "comparable v"
  shows "\<exists>w h'. nyxj_clone h (Some v) = (Some w, h') \<and> abs_value w = abs_value v \<and> heap_owned w \<and>
    nyxj_equals False (Some v) (Some w)"
proof -
  obtain w h' where w: "clone_value h v = (Some w, h')" using clone_total(1) [OF assms(1,2)] by blast
  then show ?thesis using clone_sound(1) [OF assms(2) w] equals_same_tree [OF assms(3)]
    by (simp add: nyxj_clone_def nyxj_equals_def)
qed

theorem nyxj_clone_same_witness:
  "\<exists>w h'. nyxj_clone roomy_heap (Some (VObject True [(''k'', VArray True [VNull True] 1)])) = (Some w, h') \<and>
    abs_value w = JObject [(''k'', JArray [JNull])] \<and> heap_owned w"
  using nyxj_clone_same [of roomy_heap "VObject True [(''k'', VArray True [VNull True] 1)]"]
  by (auto simp: no_nul_def NUL_def)

text \<open>C15: On trees without NaN and repeated keys \<open>nyxj_equals\<close> is an equivalence.\<close>

theorem nyxj_equals_equivalence:
  assumes "comparable u" "comparable v" "comparable w"
  shows "nyxj_equals False (Some u) (Some u) \<and>
    (nyxj_equals False (Some u) (Some v) \<longrightarrow> nyxj_equals False (Some v) (Some u)) \<and>
    (nyxj_equals False (Some u) (Some v) \<longrightarrow> nyxj_equals False (Some v) (Some w) \<longrightarrow> nyxj_equals False (Some u) (Some w))"
  using equals_same_tree [OF assms(1) refl] equals_sym [OF assms(1,2)] equals_trans [of u v w]
  by (simp add: nyxj_equals_def)

theorem nyxj_equals_equivalence_witness:
  "nyxj_equals False (Some (VObject False [(''b'', VBool False True), (''a'', VNull False)]))
     (Some (VObject False [(''a'', VNull False), (''b'', VBool False True)]))"
  using nyxj_equals_equivalence [of "VObject False [(''a'', VNull False), (''b'', VBool False True)]"
      "VObject False [(''b'', VBool False True), (''a'', VNull False)]" "VNull False"]
  by (simp add: nyxj_equals_def)

text \<open>Looking up the text of a path is the composition of its member and index steps.\<close>

lemma nyxj_get_path_steps:
  assumes "list_all path_step_ok steps"
  shows "nyxj_get_path (Some v) (Some (path_text steps)) = fold step_into steps (Some v)"
  using nyxj_get_path_text [OF assms] .

section \<open>Memory\<close>



text \<open>A request for more than \<open>2 ^ 64 - 16\<close> bytes wraps around to a block of 16: the rounding has no
  overflow check.\<close>

lemma arena_request_wraps:
  assumes "2 ^ 64 - 16 < n" "n < 2 ^ 64"
  shows "round_size (word_of_nat n) = 16"
  using round_size_wraps [OF assms] .

text \<open>C17: A JSON string written into a fresh buffer is detached in full; nothing is detached only if an
  allocation was refused.\<close>

theorem nyxj_buf_string_detached:
  "case fst (nyxj_buf_detach (nyxj_buf_json_string (nyxj_buf_init h n) (Some s) eu)) of
     Some t \<Rightarrow> t = json_string_text eu (cstr s)
   | None \<Rightarrow> \<not> heap_total h"
  using nyxj_buf_detach_emits [OF json_string_emits [where r = False and s = s and eu = eu], of h n]
  by (auto split: option.split)

section \<open>Pointers, patches and merge patches\<close>

text \<open>C18: A JSON Pointer that spells reference tokens of fewer than 512 bytes, with their tildes and slashes
  escaped, walks these tokens one by one.\<close>

theorem nyxj_pointer_get_tokens:
  assumes "list_all (\<lambda>t. length t < 512) toks"
  shows "nyxj_pointer_get (Some v) (Some (pointer_text toks)) =
    fold (\<lambda>t v. Option.bind v (\<lambda>v. pointer_step v t)) toks (Some v)"
  unfolding nyxj_pointer_get_def prod.case option.case by (rule pointer_loop_text [OF assms])

theorem nyxj_pointer_get_tokens_witness:
  "nyxj_pointer_get (Some (VObject False [(''a/b'', VArray False [VNull False] 4)])) (Some ''/a~1b/0'') = Some (VNull False)"
proof -
  have "pointer_text [''a/b'', ''0''] = ''/a~1b/0''" by code_simp
  then show ?thesis
    using nyxj_pointer_get_tokens [of "[''a/b'', ''0'']" "VObject False [(''a/b'', VArray False [VNull False] 4)]"]
    by (simp add: pointer_step_def parse_index_def)
qed

text \<open>An existing element of an array of \<open>n\<close> elements is named by the decimal text of its index, without
  leading zeros, and by nothing else.\<close>

lemma parse_index_spells:
  assumes "n \<le> 0x7FFFFFFF"
  shows "parse_index t n False = Some i \<longleftrightarrow> 0 \<le> i \<and> i < int n \<and> t = dec_nat (nat i)"
  by (rule parse_index_iff [OF assms])

text \<open>C19: A patch that fails leaves the document as it was and reports an error.\<close>

theorem nyxj_patch_apply_atomic:
  assumes "nyxj_patch_apply h doc patch = (False, doc', e, h')"
  shows "doc' = doc \<and> code e \<noteq> NYXJ_OK"
  by (rule patch_apply_failure [OF assms])

theorem nyxj_patch_apply_atomic_witness:
  "fst (snd (nyxj_patch_apply roomy_heap (Some (VBool False True))
     (Some (VArray False [VObject False [(''op'', VString False ''remove''), (''path'', VString False ''/a'')]] 4)))) =
   Some (VBool False True)"
proof -
  let ?r = "nyxj_patch_apply roomy_heap (Some (VBool False True))
     (Some (VArray False [VObject False [(''op'', VString False ''remove''), (''path'', VString False ''/a'')]] 4))"
  obtain ok d e h where r: "?r = (ok, d, e, h)" by (rule prod_cases4)
  have "\<not> fst ?r" by code_simp
  then have "?r = (False, d, e, h)" using r by simp
  from nyxj_patch_apply_atomic [OF this] show ?thesis unfolding r by simp
qed

text \<open>C20: The merge patch computed from two documents, applied to the first, gives a document equal to the
  second, when the second has no null member, which a merge patch cannot write.\<close>

theorem nyxj_merge_diff_patches:
  assumes "comparable a" "c_strings a" "heap_owned a"
    "comparable b" "c_strings b" "no_nulls b" "value_type b \<noteq> NYXJ_NULL" "heap_total h"
  shows "\<exists>p h1 r h2. nyxj_merge_diff h (Some a) (Some b) = (Some p, h1) \<and>
    nyxj_merge_patch h1 (Some a) (Some p) = (Some r, h2) \<and> nyxj_equals False (Some r) (Some b)"
  by (rule merge_patch_diff_ok [OF assms])

theorem nyxj_merge_diff_patches_witness:
  "\<exists>p h1 r h2. nyxj_merge_diff roomy_heap (Some (VObject False [(''a'', VBool False True), (''b'', VNull False)]))
       (Some (VObject False [(''a'', VBool False False)])) = (Some p, h1) \<and>
    nyxj_merge_patch h1 (Some (VObject False [(''a'', VBool False True), (''b'', VNull False)])) (Some p) = (Some r, h2) \<and>
    nyxj_equals False (Some r) (Some (VObject False [(''a'', VBool False False)]))"
  by (rule nyxj_merge_diff_patches) (simp_all add: NUL_def)

section \<open>MessagePack\<close>

text \<open>C21: Encoding a tree within the decoder's depth and decoding the bytes gives the same tree up to the
  spelling of numbers; the encoding is complete or absent, and absent only without memory.\<close>

theorem nyxj_msgpack_roundtrip:
  assumes "packable MSGPACK_MAX_DEPTH v"
  shows "\<exists>t. fst (nyxj_msgpack_encode h (Some v)) \<in> {None, Some t} \<and>
    (heap_total h \<longrightarrow> fst (nyxj_msgpack_encode h (Some v)) = Some t) \<and>
    (\<forall>h'. heap_total h' \<longrightarrow> (\<exists>w h''. nyxj_msgpack_decode h' (Some t) = (Some w, no_error, h'') \<and> abs_value w = packed v))"
  by (rule msgpack_encode_decode [OF assms])

theorem nyxj_msgpack_roundtrip_witness:
  "\<exists>t w h. fst (nyxj_msgpack_encode roomy_heap (Some (VArray False [VString False ''a'', VBool False True] 4))) = Some t \<and>
     nyxj_msgpack_decode roomy_heap (Some t) = (Some w, no_error, h) \<and> abs_value w = JArray [JString ''a'', JBool True]"
proof -
  have "packable MSGPACK_MAX_DEPTH (VArray False [VString False ''a'', VBool False True] 4)"
    by (simp add: MSGPACK_MAX_DEPTH_def default_max_depth_def NUL_def)
  from nyxj_msgpack_roundtrip [OF this, of roomy_heap] show ?thesis by fastforce
qed

section \<open>Redundancy\<close>

text \<open>C22: If two of the three replicas still hold a tree, a read returns a tree equal to it and leaves three
  replicas with the checksum of what it returned.\<close>

theorem nyxj_tmr_read_majority:
  assumes "heap_total h" "length (replica t) = 3" "\<forall>v \<in> set (replica t). c_strings v"
    "i < 3" "j < 3" "i \<noteq> j" "comparable v" "abs_value (replica t ! i) = abs_value v" "abs_value (replica t ! j) = abs_value v"
  shows "\<exists>w fixed t' h'. nyxj_tmr_read h (Some t) = (Some w, fixed, Some t', h') \<and> equals_value w v \<and>
    length (replica t') = 3 \<and> (\<forall>r \<in> set (replica t'). nyxj_checksum (Some r) = nyxj_checksum (Some w))"
  by (rule tmr_read_majority [OF assms])

theorem nyxj_tmr_read_majority_witness:
  "\<exists>w fixed t' h'. nyxj_tmr_read roomy_heap (Some \<lparr>replica = [VNull False, VBool False True, VBool False True], repairs = 0\<rparr>) =
       (Some w, fixed, Some t', h') \<and> equals_value w (VBool False True) \<and>
    length (replica t') = 3 \<and> (\<forall>r \<in> set (replica t'). nyxj_checksum (Some r) = nyxj_checksum (Some w))"
  by (rule nyxj_tmr_read_majority [where i = 1 and j = 2]) simp_all

text \<open>C23: Both parses of \<open>nyxj_parse_verified\<close> agree whenever there is memory and repeated keys are rejected, so it
  accepts exactly the grammar.\<close>

theorem nyxj_parse_verified_grammar:
  assumes "heap_total h" "heap_total h'" "plain_options opts" "reject_duplicate_keys (opt_flags opts)"
  shows "(\<exists>v. root (nyxj_parse_verified b h h' (Some json) (Some opts)) = Some v \<and> abs_value v = t) \<longleftrightarrow>
    json_document (depth_limit opts) True (after_bom json) t"
  by (rule parse_verified_grammar [OF assms])

text \<open>The grammar accepts \<open>null\<close>, so the verified parse with rejected duplicates does.\<close>

theorem nyxj_parse_verified_grammar_witness:
  "\<exists>v. root (nyxj_parse_verified Scalar roomy_heap roomy_heap (Some ''null'')
      (Some (nyxj_parse_options_default\<lparr>opt_flags := (opt_flags nyxj_parse_options_default)\<lparr>reject_duplicate_keys := True\<rparr>\<rparr>))) =
    Some v \<and> abs_value v = JNull"
proof -
  let ?o = "nyxj_parse_options_default\<lparr>opt_flags := (opt_flags nyxj_parse_options_default)\<lparr>reject_duplicate_keys := True\<rparr>\<rparr>"
  have "plain_options ?o" "reject_duplicate_keys (opt_flags ?o)"
    by (simp_all add: plain_options_def nyxj_parse_options_default_def)
  moreover have "json_document (depth_limit ?o) True (after_bom ''null'') JNull"
    unfolding json_document_def
    by (intro exI [of _ "[]"] exI [of _ "''null''"]) (simp add: after_bom_def null)
  ultimately show ?thesis
    using nyxj_parse_verified_grammar [of roomy_heap roomy_heap ?o Scalar "''null''" JNull] by simp
qed

section \<open>The push parser\<close>

text \<open>C24: Feeding two chunks one after the other is feeding their concatenation: no token, escape sequence or byte
  order mark is affected by where the input is cut.\<close>

theorem nyxj_sax_feed_chunks:
  "nyxj_sax_feed s (xs @ ys) = and_then (nyxj_sax_feed s xs) (\<lambda>s. nyxj_sax_feed s ys)"
proof (cases "sx_state s = ST_ERROR")
  case True
  then show ?thesis by (simp add: nyxj_sax_feed_def)
next
  case False
  have "sx_state t \<noteq> ST_ERROR" if "feed_loop s xs = (True, t)" for t
    using keeps_feed_loop [OF False, of xs] that False by (simp add: keeps_def)
  then show ?thesis
    using False feed_loop_append [of s xs ys]
    by (cases "feed_loop s xs"; cases "fst (feed_loop s xs)") (auto simp: nyxj_sax_feed_def)
qed

text \<open>C25: A parser from \<open>nyxj_sax_create\<close> stays within its token buffer and its stack whatever it is fed; a refusal
  sets an error, and after it every chunk is refused.\<close>

theorem nyxj_sax_feed_limits:
  assumes "nyxj_sax_create h n handler u opts = (Some s, h')" "nyxj_sax_feed s xs = (ok, t)"
  shows "length (sx_tok t) \<le> sx_max_token s \<and> length (sx_stack t) \<le> sx_max_depth s \<and>
    nyxj_sax_memory n t = nyxj_sax_memory n s \<and>
    (if ok then sx_state t \<noteq> ST_ERROR else code (sx_err t) \<noteq> NYXJ_OK \<and> nyxj_sax_feed t ys = (False, t))"
proof -
  have s: "sx_state s = ST_VALUE" "sax_bounded s"
    using assms(1) by (auto simp: nyxj_sax_create_def nyxj_sax_reset_def sax_bounded_def Let_def split: prod.splits if_splits)
  then have k: "keeps s (ok, t)"
    using keeps_feed_loop [of s xs] assms(2) by (simp add: nyxj_sax_feed_def)
  then show ?thesis
    using s by (auto simp: keeps_def sax_bounded_def nyxj_sax_memory_def nyxj_sax_feed_def)
qed

theorem nyxj_sax_feed_limits_witness:
  "\<exists>s h ok t. nyxj_sax_create roomy_heap 256 (None :: unit sax_handler option) () (Some (sax_options_zero\<lparr>so_max_depth := 1\<rparr>)) =
      (Some s, h) \<and> nyxj_sax_feed s ''[[]]'' = (ok, t) \<and> length (sx_stack t) \<le> 1"
proof -
  let ?c = "nyxj_sax_create roomy_heap 256 (None :: unit sax_handler option) () (Some (sax_options_zero\<lparr>so_max_depth := 1\<rparr>))"
  obtain s h where s: "?c = (Some s, h)" "sx_max_depth s = 1"
    by (simp add: nyxj_sax_create_def nyxj_sax_reset_def malloc_def roomy_heap_def sax_options_zero_def)
  obtain ok t where t: "nyxj_sax_feed s ''[[]]'' = (ok, t)" by force
  then show ?thesis using nyxj_sax_feed_limits [OF s(1) t, of "[]"] s by auto
qed

text \<open>C26: With memory, no element limit and a token buffer that holds the text, the push parser validates exactly the JSON
  texts of RFC 8259 (after a byte order mark) within its depth.\<close>

theorem nyxj_sax_validate_grammar:
  assumes "heap_total h" "\<not> so_multi_document ops" "so_max_elements ops = 0"
    "length inp \<le> so_max_token_size ops \<or> so_max_token_size ops = 0 \<and> length inp < 64 * 2 ^ 20"
  shows "fst (nyxj_sax_validate h n inp (Some ops)) \<longleftrightarrow> (\<exists>t. json_document (sax_depth ops) False (after_bom inp) t)"
  using validate_sound [of h n inp ops] validate_complete [OF assms] assms(2) by blast

text \<open>The hypotheses hold for the default options: the grammar accepts a text because the machine does.\<close>

theorem nyxj_sax_validate_grammar_witness:
  "fst (nyxj_sax_validate roomy_heap 4096 ''[null, {}]'' (Some sax_options_zero))"
proof -
  have "json_text 511 False ''null'' JNull" "json_text 511 False ''{}'' (JObject [])"
    using json_text_json_items_json_members.null [of 511 False]
      json_text_json_items_json_members.empty_object [of "[]" 510 False] by (simp_all add: blank_def)
  then have "json_items 511 False '' {}'' [JObject []]" "json_text 511 False ''null'' JNull"
    using json_text_json_items_json_members.item [of "'' ''" 511 False "''{}''" _ "[]"] by (simp_all add: blank_def nyxj_is_ws_def)
  then have "json_text 512 False ''[null, {}]'' (JArray [JNull, JObject []])"
    using json_text_json_items_json_members.array [of 511 False "''null, {}''"]
      json_text_json_items_json_members.items [of "[]" 511 False "''null''" JNull "[]" "'' {}''"] by (simp add: blank_def)
  then have "json_document 512 False ''[null, {}]'' (JArray [JNull, JObject []])"
    unfolding json_document_def by (intro exI [of _ "[]"] exI [of _ "''[null, {}]''"]) (simp add: blank_def)
  then show ?thesis
    using nyxj_sax_validate_grammar [of roomy_heap sax_options_zero "''[null, {}]''" 4096]
    by (auto simp: sax_options_zero_def sax_depth_def default_max_depth_def after_bom_def)
qed

text \<open>C27: What the gate lets through under a policy that asks for an object root, the parser accepts as an object, when
  its depth limit is no smaller.\<close>

theorem nyxj_gate_check_parses:
  assumes "allowed (fst (nyxj_gate_check be hp n (Some buf) (length buf) (Some p)))" "gp_require_object_root p"
    "\<not> gp_allow_empty p" "heap_total h" "plain_options opts" "\<not> reject_duplicate_keys (opt_flags opts)"
    "sax_depth (gate_options p) \<le> depth_limit opts"
  shows "\<exists>v ms. root (nyxj_parse_ex b h (Some buf) (Some opts)) = Some v \<and> abs_value v = JObject ms"
  by (rule gate_then_parse [OF assms])

text \<open>An empty object passes the strict policy without an element limit, and the parser takes it.\<close>

theorem nyxj_gate_check_parses_witness:
  "\<exists>v ms. root (nyxj_parse_ex Scalar roomy_heap (Some ''{}'') (Some nyxj_parse_options_default)) = Some v \<and>
     abs_value v = JObject ms"
proof -
  let ?p = "nyxj_gate_policy_strict\<lparr>gp_max_elements := 0\<rparr>"
  have "json_document d False ''{}'' (JObject [])" if "0 < d" for d
    using that json_text_json_items_json_members.empty_object [of "[]" "d - 1" False] unfolding json_document_def
    by (intro exI [of _ "[]"] exI [of _ "''{}''"]) (simp add: blank_def)
  then have "allowed (fst (nyxj_gate_check Scalar roomy_heap 4096 (Some ''{}'') (length ''{}'') (Some ?p)))"
    by (intro gate_check_allows [where t = "JObject []"])
      (simp_all add: sax_depth_def sax_options_zero_def after_bom_def nyxj_gate_policy_strict_def gate_options_def NUL_def nyxj_is_ws_def)
  from nyxj_gate_check_parses [OF this, of roomy_heap nyxj_parse_options_default Scalar] show ?thesis
    by (simp add: nyxj_gate_policy_strict_def plain_options_def nyxj_parse_options_default_def depth_limit_def default_max_depth_def)
qed

section \<open>The key-value store\<close>



text \<open>C29: Whatever the allocator refuses, the table stays well formed: a power of two of chains, every entry in the chain
  of its hash, no key twice, and the count of the entries.\<close>

theorem nyxj_kv_table_ok:
  assumes "nyxj_kv_create h c n cap = Some (Some kv)" "\<forall>op \<in> set ops. op_ok op" "run kv_do ops kv = (rs, kv')"
  shows "(\<exists>k. nbuckets kv' = 2 ^ k) \<and> distinct (map e_key (concat (buckets kv'))) \<and>
    nyxj_kv_count kv' = length (concat (buckets kv')) \<and>
    (\<forall>b < nbuckets kv'. \<forall>e \<in> set (buckets kv' ! b). bucket_of (hash_key (e_key e)) (nbuckets kv') = b)"
proof -
  have "kv_ok kv'" using kv_table.run_inv [OF _ assms(2,3)] kv_create_map [OF assms(1)] by simp
  then show ?thesis by (simp add: kv_ok_def nyxj_kv_count_def all_entries_def entry_ok_def)
qed

theorem nyxj_kv_table_ok_witness:
  "\<exists>kv rs kv'. nyxj_kv_create small_heap \<lparr>readings = 0, time_at = (\<lambda>j. 0)\<rparr> 80 10 = Some (Some kv) \<and>
     run kv_do [Op_incr ''k'' 0, Op_count] kv = (rs, kv') \<and> nyxj_kv_count kv' = length (concat (buckets kv'))"
proof -
  let ?c = "\<lparr>readings = 0, time_at = (\<lambda>j. 0)\<rparr>"
  have "table_size 16 10 = Some 16" by (subst table_size.simps) simp
  then obtain kv where kv: "nyxj_kv_create small_heap ?c 80 10 = Some (Some kv)"
    by (simp add: nyxj_kv_create_def malloc_def small_heap_def pointer_bytes_def)
  obtain rs kv' where r: "run kv_do [Op_incr ''k'' 0, Op_count] kv = (rs, kv')" by fastforce
  have "\<forall>op \<in> set [Op_incr ''k'' 0, Op_count]. op_ok op" by (simp add: NUL_def)
  from nyxj_kv_table_ok [OF kv this r] kv r show ?thesis by blast
qed

text \<open>C30: Creation does not return exactly when the store is allocated and the capacity asked for is above \<open>2 ^ 63\<close>: the
  loop that doubles the table then never ends.\<close>

theorem nyxj_kv_create_returns:
  "nyxj_kv_create h c n cap = None \<longleftrightarrow> fst (malloc h n) \<and> 2 ^ 63 < cap"
  by (rule kv_create_returns)


text \<open>A store that holds one key, with five milliseconds to live.\<close>

definition small_store :: nyxj_kv where
  "small_store =
     \<lparr>buckets = [[\<lparr>e_key = ''k'', e_hash = hash_key ''k'', e_value = VBool False True, expires_at = 5\<rparr>]], kv_count = 1,
      kv_stats = \<lparr>keys = 0, hits = 0, misses = 0, expired_keys = 0, sets = 1\<rparr>, kv_heap = roomy_heap,
      kv_clock = \<lparr>readings = 0, time_at = (\<lambda>j. 0)\<rparr>\<rparr>"

lemma small_store_inv: "kv_inv small_store"
proof -
  have "bucket_of h 1 = 0" for h using bucket_of_mod [of h 0] by simp
  then show ?thesis
    by (auto simp: kv_inv_def kv_ok_def small_store_def nbuckets_def all_entries_def entry_ok_def roomy_heap_def heap_total_def NUL_def
        intro: exI [of _ 0])
qed

lemma small_store_fit: "live_entry small_store (next_time small_store) k = Some e \<Longrightarrow> snapshot_fit (next_time small_store) e"
proof -
  have "valid_utf8 ''k''" by (rule valid_utf8_ascii) simp
  then show "live_entry small_store (next_time small_store) k = Some e \<Longrightarrow> ?thesis"
    unfolding live_entry_iff [OF small_store_inv [unfolded kv_inv_def, THEN conjunct1]]
    by (auto simp: small_store_def all_entries_def next_time_def nyxj_now_ms_def snapshot_fit_def split: if_splits)
qed


text \<open>C32: What is saved with success and loaded into an empty store is, for every live key, the same tree up to the sign
  of zeros and the same time left, counted from a reading of the other store's clock; no other key appears.\<close>

theorem nyxj_kv_save_load:
  assumes "kv_inv kv" "\<forall>k e. live_entry kv (next_time kv) k = Some e \<longrightarrow> snapshot_fit (next_time kv) e"
    "nyxj_kv_save io d (Some kv) (Some path) = (True, er, ds, kv')"
    "kv_inv st" "abs_store st = (\<lambda>_. None)"
  shows "\<exists>content st'. hd ds path = Some content \<and>
    nyxj_kv_load be (Some st) (Some path) (Inr content) = Some (True, no_error, Some st') \<and>
    (\<forall>k. rel_option (reloaded (next_time kv) st) (live_entry kv (next_time kv) k) (kv_map st' k))"
proof -
  have "\<forall>e \<in> set (all_entries kv). expired e (next_time kv) \<or> snapshot_fit (next_time kv) e"
    using assms(1,2) live_entry_iff by (fastforce simp: kv_inv_def)
  moreover have "kv_map st = (\<lambda>_. None)" using assms(5) by (auto simp: abs_store_def fun_eq_iff)
  ultimately show ?thesis using kv_save_load assms(1,3,4) unfolding kv_inv_def by blast
qed

theorem nyxj_kv_save_load_witness:
  "\<exists>io er ds kv' content st'.
     nyxj_kv_save io (\<lambda>_. None) (Some small_store) (Some ''f'') = (True, er, ds, kv') \<and> hd ds ''f'' = Some content \<and>
     nyxj_kv_load Sse2 (Some (nyxj_kv_clear small_store)) (Some ''f'') (Inr content) = Some (True, no_error, Some st') \<and>
     map_option (\<lambda>e. (abs_value (e_value e), expires_at e)) (kv_map st' ''k'') = Some (JBool True, 5)"
proof -
  let ?io = "\<lambda>n. \<lparr>opens = True, written_bytes = n, closes = True, renames = True, reason_text = []\<rparr>"
  obtain n er ds kv' where r: "nyxj_kv_save (?io n) (\<lambda>_. None) (Some small_store) (Some ''f'') = (True, er, ds, kv')"
    using kv_save_succeeds [OF small_store_inv, of "\<lambda>_. None" "''f''"] by (metis (no_types, lifting) file_io.select_convs order_refl)
  let ?st = "nyxj_kv_clear small_store"
  have "step_ok Op_clear small_store" by (rule step_clear [OF small_store_inv])
  then have st: "kv_inv ?st" "abs_store ?st = (\<lambda>_. None)" by (simp_all add: step_ok_def kv_times_def)
  obtain content st' where l: "hd ds ''f'' = Some content"
    "nyxj_kv_load Sse2 (Some ?st) (Some ''f'') (Inr content) = Some (True, no_error, Some st')"
    "\<forall>k. rel_option (reloaded (next_time small_store) ?st) (live_entry small_store (next_time small_store) k) (kv_map st' k)"
    using nyxj_kv_save_load [OF small_store_inv _ r st] small_store_fit by blast
  have "live_entry small_store (next_time small_store) ''k'' =
      Some \<lparr>e_key = ''k'', e_hash = hash_key ''k'', e_value = VBool False True, expires_at = 5\<rparr>"
    by (simp add: live_entry_def kv_map_def all_entries_def small_store_def expired_def next_time_def nyxj_now_ms_def)
  then have "rel_option (reloaded (next_time small_store) ?st)
      (Some \<lparr>e_key = ''k'', e_hash = hash_key ''k'', e_value = VBool False True, expires_at = 5\<rparr>) (kv_map st' ''k'')"
    using l(3) by metis
  then have "map_option (\<lambda>e. (abs_value (e_value e), expires_at e)) (kv_map st' ''k'') = Some (JBool True, 5)"
    by (auto simp: reloaded_def nyxj_kv_clear_def clear_locked_def small_store_def next_time_def nyxj_now_ms_def option_rel_Some1)
  then show ?thesis using r l(1,2) by blast
qed

section \<open>The schema validator\<close>

text \<open>C33: The verdict of the validator, with a report or without one, is the meaning of the schema: \<open>conforms\<close>, with
  references nested up to the limit.\<close>

theorem nyxj_schema_validate_conforms:
  "fst (nyxj_schema_validate (Some s) (Some v) given) \<longleftrightarrow> conforms s MAX_REF_DEPTH s v"
  by (rule schema_verdict)


section \<open>Channels between processes\<close>

text \<open>C35: However the steps of the producer and the consumer interleave, what has been read from the shared ring is a
  prefix of what has been written to it, in order, and what lies in between fits the ring (as long as the 64-bit
  positions have not wrapped around).\<close>

theorem shm_ring_queue:
  assumes "ring_step\<^sup>*\<^sup>* (ring_start capacity) r" "0 < capacity" "capacity < 2 ^ 64" "volume (all_posted r) < 2 ^ 64"
  shows "\<exists>queue. posted r = received r @ queue \<and> volume queue \<le> capacity"
  by (rule ring_queue [OF assms])

text \<open>A message is written and not yet read.\<close>

lemma ring_with_message:
  "\<exists>r. ring_step\<^sup>*\<^sup>* (ring_start 64) r \<and> posted r = [''hi''] \<and> received r = [] \<and> consumer r = C_idle \<and> producer r = P_idle"
  using ring_writes [OF ring_start_ok, of 64 "''hi''"] by (auto simp: ring_start_def)

theorem shm_ring_queue_witness:
  "\<exists>r. ring_step\<^sup>*\<^sup>* (ring_start 64) r \<and> (\<exists>queue. [''hi''] = received r @ queue \<and> volume queue \<le> 64)"
proof -
  obtain r where r: "ring_step\<^sup>*\<^sup>* (ring_start 64) r" "posted r = [''hi'']" "producer r = P_idle" using ring_with_message by blast
  show ?thesis using shm_ring_queue [OF r(1)] r by (auto simp: all_posted_def)
qed



text \<open>C37: A message that has been sent is received whole, and exactly that much of the stream is read, whatever pieces
  the system cuts the frames into.\<close>

theorem nyxj_ipc_frames:
  assumes "nyxj_ipc_send why (Some ch) (Some m) (length m) = (True, er, Some ch')"
    "sent ch @ incoming c = sent ch' @ rest" "flowing c" "\<not> listener c" "heap_total h"
  shows "\<exists>er' c' h'. nyxj_ipc_recv h (Some c) = (Some m, er', Some c', h') \<and> incoming c' = rest"
proof -
  have i: "incoming c = ipc_frame m @ rest" using ipc_send_frame(1) [OF assms(1)] assms(2) by simp
  note l = ipc_send_frame(2) [OF assms(1)]
  obtain buf er' c' h' where r: "nyxj_ipc_recv h (Some c) = (Some buf, er', Some c', h')"
    using ipc_recv_flowing [OF i l assms(3-5)] by blast
  show ?thesis using ipc_recv_frame [OF i l r] r by blast
qed

theorem nyxj_ipc_frames_witness:
  "\<exists>er' c' h'. nyxj_ipc_recv roomy_heap (Some \<lparr>listener = False, sent = [], incoming = wire_bytes 4 2 @ ''hi'', transfers = 0, transfer = (\<lambda>k. 1),
      waits = 0, ready_at = (\<lambda>k. Readable)\<rparr>) = (Some ''hi'', er', Some c', h') \<and> incoming c' = []"
proof -
  let ?ch = "\<lparr>listener = False, sent = [], incoming = [], transfers = 0, transfer = (\<lambda>k. 100), waits = 0, ready_at = (\<lambda>k. Readable)\<rparr>"
  obtain er ch' where s: "nyxj_ipc_send [] (Some ?ch) (Some ''hi'') (length ''hi'') = (True, er, Some ch')"
    using ipc_send_flowing [of ?ch "''hi''" "[]"] by (auto simp: MAX_FRAME_def)
  show ?thesis
    using nyxj_ipc_frames [OF s, of "\<lparr>listener = False, sent = [], incoming = wire_bytes 4 2 @ ''hi'', transfers = 0, transfer = (\<lambda>k. 1),
      waits = 0, ready_at = (\<lambda>k. Readable)\<rparr>" "[]" roomy_heap] ipc_send_frame(1) [OF s]
    by (auto simp: flowing_def ipc_frame_def numeral_2_eq_2)
qed

section \<open>The thread pool\<close>

text \<open>C38: Tasks are begun in the order in which the pool admitted them, each once, and what has ended has been begun;
  the queue stays within its capacity and no more workers are active than there are threads.\<close>

theorem nyxj_pool_order:
  assumes "nyxj_pool_create h pool_bytes cpus started n m = (Some p, h')" "pool_step\<^sup>*\<^sup>* (pool_start p c) s"
  shows "begun s = map Some (take (length (begun s)) (admitted s)) \<and> mset (ended s) \<subseteq># mset (begun s) \<and>
    length (admitted s) = length (begun s) + qcount (shared s) \<and> qcount (shared s) \<le> length (slots (shared s)) \<and>
    active (shared s) \<le> nthreads (shared s)"
proof (intro conjI)
  note ok = pool_reachable_ok [OF assms]
  show "begun s = map Some (take (length (begun s)) (admitted s))" "mset (ended s) \<subseteq># mset (begun s)"
    "length (admitted s) = length (begun s) + qcount (shared s)" by (fact tasks_in_order [OF ok])+
  show "qcount (shared s) \<le> length (slots (shared s))" using ok by (simp add: pool_ok_def tasks_ok_def Let_def)
  show "active (shared s) \<le> nthreads (shared s)" using ok threads_le [of "workers s"] by (simp add: pool_ok_def threads_ok_def Let_def)
qed

text \<open>A pool with one thread and one slot: a task was submitted and the thread has begun it.\<close>

definition tiny_pool :: "string nyxj_pool" where
  "tiny_pool = \<lparr>nthreads = 1, slots = [None], qhead = 0, qcount = 0, active = 0, active_limit = 1, shutdown = False,
     completed = 0, rejections = 0\<rparr>"

lemma tiny_pool_created: "\<exists>h'. nyxj_pool_create roomy_heap 256 4 (\<lambda>k. True) 1 1 = (Some tiny_pool, h')"
  by (simp add: nyxj_pool_create_def threads_created_def tiny_pool_def malloc_def roomy_heap_def Let_def)

lemma tiny_pool_runs:
  "\<exists>s. pool_step\<^sup>*\<^sup>* (pool_start tiny_pool 1) s \<and> admitted s = [''task''] \<and> begun s = [Some ''task''] \<and> ended s = [] \<and> qcount (shared s) = 0 \<and>
     nthreads (shared s) = 1"
proof -
  let ?p = "tiny_pool\<lparr>slots := [Some ''task''], qcount := 1\<rparr>"
  let ?s0 = "pool_start tiny_pool 1"
  let ?s1 = "?s0\<lparr>shared := ?p, workers := [Awake], admitted := [''task'']\<rparr>"
  have "nyxj_pool_submit tiny_pool (Some ''task'') = (True, ?p)" by (simp add: nyxj_pool_submit_def tiny_pool_def)
  then have 1: "pool_step ?s0 ?s1"
    using submits [of ?s0 "Some ''task''" True ?p "[Awake]"] nobody_sleeps [of "[Awake]"] by (simp add: pool_start_def tiny_pool_def)
  have t: "worker_top (shared ?s1) = (Running (Some ''task''), take_task ?p)"
    by (simp add: worker_top_def must_wait_def tiny_pool_def)
  have 2: "pool_step ?s1 (?s1\<lparr>shared := take_task ?p, workers := [Running (Some ''task'')], begun := [Some ''task'']\<rparr>)"
    using works [OF tops [OF _ _ t, of 0]] by (simp add: pool_start_def tiny_pool_def)
  show ?thesis
    by (rule exI, intro conjI, rule converse_rtranclp_into_rtranclp [of pool_step, OF 1], rule r_into_rtranclp [of pool_step, OF 2])
      (simp_all add: pool_start_def take_task_def tiny_pool_def)
qed

theorem nyxj_pool_order_witness:
  "\<exists>s. pool_step\<^sup>*\<^sup>* (pool_start tiny_pool 1) s \<and> begun s = map Some (take 1 (admitted s)) \<and> active (shared s) \<le> nthreads (shared s)"
proof -
  obtain h' where c: "nyxj_pool_create roomy_heap 256 4 (\<lambda>k. True) 1 1 = (Some tiny_pool, h')" using tiny_pool_created by blast
  obtain s where s: "pool_step\<^sup>*\<^sup>* (pool_start tiny_pool 1) s" "begun s = [Some ''task'']" using tiny_pool_runs by blast
  have "begun s = map Some (take (length (begun s)) (admitted s))" "active (shared s) \<le> nthreads (shared s)"
    using nyxj_pool_order [OF c s(1)] by blast+
  moreover have "length (begun s) = 1" by (simp add: s(2))
  ultimately show ?thesis using s(1) by metis
qed

text \<open>C39: However the clients left the pool, the workers come to rest after a bounded number of steps, whatever the
  schedule; no signal is lost: at rest every admitted task has run and no \<open>nyxj_pool_wait\<close> is asleep.\<close>

theorem nyxj_pool_drains:
  assumes "nyxj_pool_create h pool_bytes cpus started n m = (Some p, h')" "pool_step\<^sup>*\<^sup>* (pool_start p c) s" "(work_step ^^ k) s s'"
  shows "k \<le> 6 * qcount (shared s) + 3 * nthreads (shared s) \<and>
    ((\<nexists>s''. work_step s' s'') \<longrightarrow> mset (map Some (admitted s')) = mset (ended s') \<and> Waiting \<notin> set (clients s'))"
proof (intro conjI impI)
  note ok = work_bounded [OF pool_reachable_ok [OF assms(1,2)] assms(3)]
  show "k \<le> 6 * qcount (shared s) + 3 * nthreads (shared s)" by (rule ok(2))
  assume "\<nexists>s''. work_step s' s''"
  then show "mset (map Some (admitted s')) = mset (ended s')" "Waiting \<notin> set (clients s')"
    using stuck_is_idle(3,4) [OF ok(1)] by simp_all
qed

theorem nyxj_pool_drains_witness:
  "\<exists>s s' k. pool_step\<^sup>*\<^sup>* (pool_start tiny_pool 1) s \<and> (work_step ^^ k) s s' \<and> k \<le> 3 \<and> ended s' = [Some ''task'']"
proof -
  obtain h' where c: "nyxj_pool_create roomy_heap 256 4 (\<lambda>k. True) 1 1 = (Some tiny_pool, h')" using tiny_pool_created by blast
  obtain s where s: "pool_step\<^sup>*\<^sup>* (pool_start tiny_pool 1) s" "begun s = [Some ''task'']" "admitted s = [''task'']"
      "qcount (shared s) = 0" "nthreads (shared s) = 1" using tiny_pool_runs by blast
  have "pool_ok s" by (rule pool_reachable_ok [OF c s(1)])
  from pool.works_end [OF this] obtain s' where s': "work_step\<^sup>*\<^sup>* s s'" "\<nexists>s''. work_step s' s''" by blast
  then obtain k where k: "(work_step ^^ k) s s'" using rtranclp_power by metis
  have "admitted s' = admitted s" using s'(1) by (induction rule: rtranclp_induct) (auto elim: work_step.cases)
  then have "mset (ended s') = {#Some ''task''#}" using nyxj_pool_drains [OF c s(1) k] s'(2) s(3) by simp
  then have "ended s' = [Some ''task'']" by (simp add: mset_single_iff)
  then show ?thesis using nyxj_pool_drains [OF c s(1) k] s(1,4,5) k by (intro exI [of _ s] exI [of _ s'] exI [of _ k]) simp
qed

text \<open>C40: When \<open>nyxj_pool_destroy\<close> returns, every task the pool admitted has run; and once it has begun, the workers
  come to the point where it returns by their own steps.\<close>

theorem nyxj_pool_destroy_drains:
  assumes "nyxj_pool_create h pool_bytes cpus started n m = (Some p, h')" "pool_step\<^sup>*\<^sup>* (pool_start p c) s"
    "shutdown (shared s)"
  shows "(released s \<longrightarrow> mset (map Some (admitted s)) = mset (ended s)) \<and>
    (\<exists>s'. work_step\<^sup>*\<^sup>* s s' \<and> pool_step s' (s'\<lparr>released := True\<rparr>))"
proof (intro conjI impI)
  note ok = pool_reachable_ok [OF assms(1,2)]
  show "released s \<Longrightarrow> mset (map Some (admitted s)) = mset (ended s)" by (rule released_has_run [OF ok])
  obtain s' where s': "work_step\<^sup>*\<^sup>* s s'" "pool_ok s'" "\<nexists>s''. work_step s' s''" using pool.works_end [OF ok] by blast
  have "shutdown (shared s')" using s'(1) assms(3)
    by (induction rule: rtranclp_induct) (auto elim!: work_step.cases simp: worker_top_def take_task_def worker_done_def Let_def split: if_splits)
  then show "\<exists>s'. work_step\<^sup>*\<^sup>* s s' \<and> pool_step s' (s'\<lparr>released := True\<rparr>)"
    using joins stuck_is_idle(5) [OF s'(2,3)] s'(1) by blast
qed

theorem nyxj_pool_destroy_drains_witness:
  "\<exists>s s'. pool_step\<^sup>*\<^sup>* (pool_start tiny_pool 1) s \<and> shutdown (shared s) \<and> work_step\<^sup>*\<^sup>* s s' \<and> pool_step s' (s'\<lparr>released := True\<rparr>)"
proof -
  obtain h' where c: "nyxj_pool_create roomy_heap 256 4 (\<lambda>k. True) 1 1 = (Some tiny_pool, h')" using tiny_pool_created by blast
  obtain s where s: "pool_step\<^sup>*\<^sup>* (pool_start tiny_pool 1) s" using tiny_pool_runs by blast
  have "\<exists>s. pool_step\<^sup>*\<^sup>* (pool_start tiny_pool 1) s \<and> shutdown (shared s)"
  proof (cases "shutdown (shared s)")
    case False
    have "shutdown (shared (s\<lparr>shared := begin_shutdown (shared s), workers := wake_all (workers s)\<rparr>))"
      by (simp add: begin_shutdown_def)
    then show ?thesis using rtranclp.rtrancl_into_rtrancl [OF s destroys [OF False]] by blast
  qed (use s in blast)
  then obtain s where s: "pool_step\<^sup>*\<^sup>* (pool_start tiny_pool 1) s" "shutdown (shared s)" by blast
  show ?thesis using nyxj_pool_destroy_drains [OF c s] s by blast
qed

end
